(* ===== verification/Prelude.thy ===== *)
theory Prelude
  imports Main "HOL-Library.Word"
begin

text \<open>
  The vocabulary the component theories share: bytes and C++ \<open>short\<close> values, the ways a
  C++ operation can fail, raw memory copies with their bounds, runs of an event-driven
  machine, and the interfaces (locales) of bounded FIFO queues, of stacks and of machines
  with an invariant.
\<close>

named_theorems res_simps \<open>unfolding of the error monad and of memory copies\<close>
named_theorems ring_simps \<open>index arithmetic of ring buffers\<close>

section \<open>Errors and results\<close>

text \<open>
  What C++ throws, and what it leaves undefined (an access outside an allocation, through a
  null or dangling pointer, a \<open>pop\<close> of an empty container). Both end the normal flow.
\<close>

datatype cpp_error =
    BadArrayNewLength    \<comment> \<open>\<open>new char[n]\<close> with negative \<open>n\<close>: \<open>std::bad_array_new_length\<close>\<close>
  | OutOfBounds          \<comment> \<open>undefined: access outside an array\<close>
  | NullDeref            \<comment> \<open>undefined: access through a null pointer\<close>
  | UseAfterFree         \<comment> \<open>undefined: access to a deleted node\<close>
  | EmptyContainer       \<comment> \<open>undefined: \<open>front\<close> or \<open>pop\<close> of an empty container\<close>
  | EmptyStack           \<comment> \<open>the exception \<open>empty_stack\<close>\<close>
  | RuntimeError         \<comment> \<open>\<open>std::runtime_error\<close>\<close>
  | ThreadInterrupted    \<comment> \<open>the exception \<open>thread_interrupted\<close>\<close>
  | DoubleDelete         \<comment> \<open>undefined: \<open>delete\<close> of memory that is deleted already\<close>
  | SignedOverflow       \<comment> \<open>undefined: a signed result out of range\<close>
  | DivByZero            \<comment> \<open>undefined: remainder by zero\<close>

type_synonym 'a res = "cpp_error + 'a"

definition rbind :: "'a res \<Rightarrow> ('a \<Rightarrow> 'b res) \<Rightarrow> 'b res" where
  "rbind m f = (case m of Inl e \<Rightarrow> Inl e | Inr x \<Rightarrow> f x)"

lemma rbind_simps [simp, res_simps]:
  "rbind (Inl e) f = Inl e"
  "rbind (Inr x) f = f x"
  by (simp_all add: rbind_def)

lemma rbind_Inr_iff: "rbind m f = Inr y \<longleftrightarrow> (\<exists>x. m = Inr x \<and> f x = Inr y)"
  by (cases m) auto

section \<open>Bytes and short integers\<close>

type_synonym byte = "8 word"

text \<open>
  A C++ \<open>short\<close> is kept as the \<open>int\<close> it denotes; \<open>to_short\<close> is the narrowing conversion.
\<close>

definition to_short :: "int \<Rightarrow> int" where
  "to_short x = (x + 32768) mod 65536 - 32768"

lemma to_short_id: "- 32768 \<le> x \<Longrightarrow> x < 32768 \<Longrightarrow> to_short x = x"
  by (simp add: to_short_def)

lemma to_short_range: "- 32768 \<le> to_short x \<and> to_short x < 32768"
  by (simp add: to_short_def)

lemma to_short_idem [simp]: "to_short (to_short x) = to_short x"
  using to_short_range [of x] by (simp add: to_short_id)

lemma to_short_mod [simp]: "to_short (x mod 65536) = to_short x"
  by (simp add: to_short_def mod_simps)

text \<open>The conversion to \<open>int\<close>.\<close>

definition to_int :: "int \<Rightarrow> int" where
  "to_int x = (x + 2147483648) mod 4294967296 - 2147483648"

lemma to_int_id: "- 2147483648 \<le> x \<Longrightarrow> x < 2147483648 \<Longrightarrow> to_int x = x"
  by (simp add: to_int_def)

lemma to_int_range: "- 2147483648 \<le> to_int x \<and> to_int x < 2147483648"
  by (simp add: to_int_def)

section \<open>Raw memory\<close>

text \<open>
  \<open>memcpy dst i src j n\<close> is \<open>memcpy(dst + i, src + j, n)\<close> on arrays given as lists: the new
  contents of \<open>dst\<close>, or \<open>OutOfBounds\<close> when either range leaves its array. The size is
  converted to \<open>size_t\<close>, so a negative one is out of every bound.
\<close>

definition memcpy :: "'b list \<Rightarrow> int \<Rightarrow> 'b list \<Rightarrow> int \<Rightarrow> int \<Rightarrow> 'b list res" where
  "memcpy dst i src j n =
     (if n < 0 \<or> i < 0 \<or> j < 0 \<or> i + n > int (length dst) \<or> j + n > int (length src)
      then Inl OutOfBounds
      else Inr (take (nat i) dst @ take (nat n) (drop (nat j) src) @ drop (nat (i + n)) dst))"

text \<open>\<open>memset(dst, 0, n)\<close>.\<close>

definition memzero :: "byte list \<Rightarrow> int \<Rightarrow> byte list res" where
  "memzero dst n =
     (if n < 0 \<or> n > int (length dst) then Inl OutOfBounds
      else Inr (replicate (nat n) 0 @ drop (nat n) dst))"

text \<open>\<open>dst[i] = b\<close>.\<close>

definition store_at :: "'b list \<Rightarrow> int \<Rightarrow> 'b \<Rightarrow> 'b list res" where
  "store_at dst i b =
     (if i < 0 \<or> i \<ge> int (length dst) then Inl OutOfBounds else Inr (dst[nat i := b]))"

lemma memcpy_length: "memcpy dst i src j n = Inr d \<Longrightarrow> length d = length dst"
  by (auto simp: memcpy_def split: if_splits)

lemma memzero_length: "memzero dst n = Inr d \<Longrightarrow> length d = length dst"
  by (auto simp: memzero_def split: if_splits)

lemma memcpy_Inr [res_simps]:
  "i + n \<le> length dst \<Longrightarrow> j + n \<le> length src \<Longrightarrow>
   memcpy dst (int i) src (int j) (int n) =
     Inr (take i dst @ take n (drop j src) @ drop (i + n) dst)"
  by (simp add: memcpy_def flip: of_nat_add)

section \<open>Runs of an event-driven machine\<close>

text \<open>
  A machine is a partial step function: \<open>exec e s\<close> is the state after the event \<open>e\<close>, or
  \<open>None\<close> when \<open>e\<close> cannot happen in \<open>s\<close> (a thread is blocked, or has nothing to do). The
  list of events of a run is the schedule.
\<close>

fun run :: "('e \<Rightarrow> 's \<Rightarrow> 's option) \<Rightarrow> 'e list \<Rightarrow> 's \<Rightarrow> 's option" where
  "run f [] s = Some s"
| "run f (e # es) s = (case f e s of None \<Rightarrow> None | Some t \<Rightarrow> run f es t)"

lemma run_append:
  "run f (es @ fs) s = (case run f es s of None \<Rightarrow> None | Some t \<Rightarrow> run f fs t)"
  by (induction es arbitrary: s) (auto split: option.split)

locale inv_machine =
  fixes exec :: "'e \<Rightarrow> 's \<Rightarrow> 's option"
    and inv :: "'s \<Rightarrow> bool"
  assumes step_inv: "inv s \<Longrightarrow> exec e s = Some t \<Longrightarrow> inv t"
begin

lemma run_inv: "inv s \<Longrightarrow> run exec es s = Some t \<Longrightarrow> inv t"
proof (induction es arbitrary: s)
  case Nil
  then show ?case by simp
next
  case (Cons e es)
  then obtain u where "exec e s = Some u" "run exec es u = Some t"
    by (auto split: option.splits)
  with Cons step_inv show ?case by blast
qed

end

section \<open>The FIFO interface\<close>

text \<open>
  The specification of a bounded FIFO queue: a list, an insertion at the end that reports
  whether there was room, a removal at the front that reports emptiness. \<open>full n\<close> says that
  a queue of \<open>n\<close> elements takes no more (\<open>\<lambda>_. False\<close> for an unbounded one).
\<close>

datatype 'a qop = QPush 'a | QPop

datatype 'a qres = Pushed bool | Popped "'a option"

fun spec_op :: "(nat \<Rightarrow> bool) \<Rightarrow> 'a qop \<Rightarrow> 'a list \<Rightarrow> 'a qres \<times> 'a list" where
  "spec_op full (QPush x) q =
     (if full (length q) then (Pushed False, q) else (Pushed True, q @ [x]))"
| "spec_op full QPop [] = (Popped None, [])"
| "spec_op full QPop (x # q) = (Popped (Some x), q)"

fun spec_ops :: "(nat \<Rightarrow> bool) \<Rightarrow> 'a qop list \<Rightarrow> 'a list \<Rightarrow> 'a qres list \<times> 'a list" where
  "spec_ops full [] q = ([], q)"
| "spec_ops full (c # cs) q =
     (let (r, q1) = spec_op full c q; (rs, q2) = spec_ops full cs q1 in (r # rs, q2))"

lemma spec_ops_snoc:
  "spec_ops full (cs @ [c]) q =
     (let (rs, q1) = spec_ops full cs q; (r, q2) = spec_op full c q1 in (rs @ [r], q2))"
  by (induction cs arbitrary: q) (auto split: prod.splits)

text \<open>A client's sequence of calls of an implementation with its own \<open>push\<close> and \<open>pop\<close>.\<close>

fun impl_ops ::
  "('a \<Rightarrow> 's \<Rightarrow> bool \<times> 's) \<Rightarrow> ('s \<Rightarrow> 'a option \<times> 's) \<Rightarrow> 'a qop list \<Rightarrow> 's \<Rightarrow> 'a qres list \<times> 's" where
  "impl_ops push pop [] s = ([], s)"
| "impl_ops push pop (QPush x # cs) s =
     (let (b, s1) = push x s; (rs, s2) = impl_ops push pop cs s1 in (Pushed b # rs, s2))"
| "impl_ops push pop (QPop # cs) s =
     (let (v, s1) = pop s; (rs, s2) = impl_ops push pop cs s1 in (Popped v # rs, s2))"

locale fifo =
  fixes full :: "nat \<Rightarrow> bool"
    and wf :: "'s \<Rightarrow> bool"
    and abs :: "'s \<Rightarrow> 'a list"
    and push :: "'a \<Rightarrow> 's \<Rightarrow> bool \<times> 's"
    and pop :: "'s \<Rightarrow> 'a option \<times> 's"
  assumes push_room: "wf s \<Longrightarrow> \<not> full (length (abs s)) \<Longrightarrow> push x s = (b, t)
            \<Longrightarrow> b \<and> wf t \<and> abs t = abs s @ [x]"
    and push_full: "wf s \<Longrightarrow> full (length (abs s)) \<Longrightarrow> push x s = (b, t)
            \<Longrightarrow> \<not> b \<and> wf t \<and> abs t = abs s"
    and pop_empty: "wf s \<Longrightarrow> abs s = [] \<Longrightarrow> pop s = (v, t)
            \<Longrightarrow> v = None \<and> wf t \<and> abs t = []"
    and pop_front: "wf s \<Longrightarrow> abs s = x # xs \<Longrightarrow> pop s = (v, t)
            \<Longrightarrow> v = Some x \<and> wf t \<and> abs t = xs"
begin

text \<open>Every client sees exactly the answers of the specification.\<close>

lemma ops_refine:
  "wf s \<Longrightarrow> impl_ops push pop cs s = (rs, t) \<Longrightarrow>
   wf t \<and> spec_ops full cs (abs s) = (rs, abs t)"
proof (induction cs arbitrary: s rs)
  case Nil
  then show ?case by simp
next
  case (Cons c cs)
  show ?case
  proof (cases c)
    case (QPush x)
    obtain b s1 where p: "push x s = (b, s1)" by fastforce
    obtain rs' where r: "impl_ops push pop cs s1 = (rs', t)" "rs = Pushed b # rs'"
      using Cons.prems QPush p by (auto split: prod.splits)
    show ?thesis
      using Cons.IH [OF _ r(1)] push_room [OF Cons.prems(1) _ p]
        push_full [OF Cons.prems(1) _ p] r(2) QPush
      by (cases "full (length (abs s))") auto
  next
    case QPop
    obtain v s1 where p: "pop s = (v, s1)" by fastforce
    obtain rs' where r: "impl_ops push pop cs s1 = (rs', t)" "rs = Popped v # rs'"
      using Cons.prems QPop p by (auto split: prod.splits)
    show ?thesis
    proof (cases "abs s")
      case Nil
      with Cons.IH [OF _ r(1)] pop_empty [OF Cons.prems(1) Nil p] r(2) QPop
      show ?thesis by auto
    next
      case (Cons x xs)
      with Cons.IH [OF _ r(1)] pop_front [OF Cons.prems(1) Cons p] r(2) QPop
      show ?thesis by auto
    qed
  qed
qed

end

section \<open>The LIFO interface\<close>

locale lifo =
  fixes wf :: "'s \<Rightarrow> bool"
    and abs :: "'s \<Rightarrow> 'a list"
    and push :: "'a \<Rightarrow> 's \<Rightarrow> 's"
    and pop :: "'s \<Rightarrow> 'a option \<times> 's"
  assumes lpush: "wf s \<Longrightarrow> wf (push x s) \<and> abs (push x s) = x # abs s"
    and lpop_empty: "wf s \<Longrightarrow> abs s = [] \<Longrightarrow> fst (pop s) = None \<and> wf (snd (pop s)) \<and> abs (snd (pop s)) = []"
    and lpop_top: "wf s \<Longrightarrow> abs s = x # xs \<Longrightarrow>
          fst (pop s) = Some x \<and> wf (snd (pop s)) \<and> abs (snd (pop s)) = xs"
begin

lemma pushes: "wf s \<Longrightarrow> wf (fold push xs s) \<and> abs (fold push xs s) = rev xs @ abs s"
  by (induction xs arbitrary: s) (auto simp: lpush)

end

fun drain :: "('s \<Rightarrow> 'a option \<times> 's) \<Rightarrow> nat \<Rightarrow> 's \<Rightarrow> 'a list \<times> 's" where
  "drain pop 0 s = ([], s)"
| "drain pop (Suc n) s =
     (case pop s of (None, t) \<Rightarrow> ([], t)
      | (Some x, t) \<Rightarrow> (let (xs, u) = drain pop n t in (x # xs, u)))"

context lifo
begin

text \<open>Popping everything returns the contents from the top down.\<close>

lemma drain_all:
  "wf s \<Longrightarrow> length (abs s) < n \<Longrightarrow> drain pop n s = (xs, t) \<Longrightarrow> xs = abs s \<and> wf t \<and> abs t = []"
proof (induction n arbitrary: s xs)
  case 0
  then show ?case by simp
next
  case (Suc n)
  show ?case
  proof (cases "abs s")
    case Nil
    with Suc.prems lpop_empty [of s] show ?thesis
      by (cases "pop s") auto
  next
    case (Cons y ys)
    then obtain u where u: "pop s = (Some y, u)" "wf u" "abs u = ys"
      using lpop_top [OF Suc.prems(1) Cons] by (cases "pop s") auto
    with Suc Cons show ?thesis
      by (auto split: prod.splits)
  qed
qed

lemma reverse_all:
  "wf s \<Longrightarrow> abs s = [] \<Longrightarrow> length xs < n \<Longrightarrow> fst (drain pop n (fold push xs s)) = rev xs"
proof -
  assume s: "wf s" "abs s = []" and n: "length xs < n"
  obtain ys t where d: "drain pop n (fold push xs s) = (ys, t)" by fastforce
  have "wf (fold push xs s)" "abs (fold push xs s) = rev xs"
    using pushes [OF s(1), of xs] s(2) by auto
  then have "ys = rev xs"
    using drain_all [OF _ _ d] n by simp
  with d show ?thesis by simp
qed

end

section \<open>Stacks and logs of concurrent operations\<close>

text \<open>
  The specification of an unbounded stack. A machine logs each operation with its answer at the
  step where the operation takes effect; the log is checked against the specification.
\<close>

fun stack_op :: "'a qop \<Rightarrow> 'a list \<Rightarrow> 'a qres \<times> 'a list" where
  "stack_op (QPush x) q = (Pushed True, x # q)"
| "stack_op QPop [] = (Popped None, [])"
| "stack_op QPop (x # q) = (Popped (Some x), q)"

fun stack_ops :: "'a qop list \<Rightarrow> 'a list \<Rightarrow> 'a qres list \<times> 'a list" where
  "stack_ops [] q = ([], q)"
| "stack_ops (c # cs) q =
     (let (r, q1) = stack_op c q; (rs, q2) = stack_ops cs q1 in (r # rs, q2))"

lemma stack_ops_snoc:
  "stack_ops (cs @ [c]) q =
     (let (rs, q1) = stack_ops cs q; (r, q2) = stack_op c q1 in (rs @ [r], q2))"
  by (induction cs arbitrary: q) (auto split: prod.splits)

type_synonym 'a call_log = "('a qop \<times> 'a qres) list"

definition stack_log :: "'a call_log \<Rightarrow> 'a list \<Rightarrow> bool" where
  "stack_log l q \<longleftrightarrow> stack_ops (map fst l) [] = (map snd l, q)"

lemma stack_log_Nil [simp]: "stack_log [] q \<longleftrightarrow> q = []"
  by (auto simp: stack_log_def)

lemma stack_log_snoc:
  "stack_log l q \<Longrightarrow> stack_op c q = (r, q') \<Longrightarrow> stack_log (l @ [(c, r)]) q'"
  by (simp add: stack_log_def stack_ops_snoc)

definition queue_log :: "'a call_log \<Rightarrow> 'a list \<Rightarrow> bool" where
  "queue_log l q \<longleftrightarrow> spec_ops (\<lambda>_. False) (map fst l) [] = (map snd l, q)"

lemma queue_log_Nil [simp]: "queue_log [] q \<longleftrightarrow> q = []"
  by (auto simp: queue_log_def)

lemma queue_log_snoc:
  "queue_log l q \<Longrightarrow> spec_op (\<lambda>_. False) c q = (r, q') \<Longrightarrow> queue_log (l @ [(c, r)]) q'"
  by (simp add: queue_log_def spec_ops_snoc)

section \<open>Shared list facts\<close>

lemma take_replicate_append [simp]: "length xs = n \<Longrightarrow> take n (xs @ ys) = xs"
  by simp

lemma drop_Cons_replicate [simp]: "drop n (x # replicate n x) = [x]"
  using drop_replicate [of n "Suc n" x] by simp

lemma sum_update_less:
  fixes g :: "'a \<Rightarrow> nat"
  assumes "i < length xs" "g y < g (xs ! i)"
  shows "(\<Sum>x\<leftarrow>xs[i := y]. g x) < (\<Sum>x\<leftarrow>xs. g x)"
  using assms by (induction xs arbitrary: i) (auto simp: nth_Cons split: nat.splits)

lemma nth_append_end: "i = length xs \<Longrightarrow> (xs @ y # ys) ! i = y"
  by simp

end
