(* ===== verification/NodeHeap.thy ===== *)
theory NodeHeap
  imports Prelude
begin

text \<open>
  Nodes of the lock-free containers: a heap of nodes with a data pointer and a next pointer,
  and the lists that start at a pointer. An address is a number, a null pointer is \<open>None\<close>.
  An address that is not allocated holds no node; allocation may pick any such address, so an
  address that has been freed may come back.
\<close>

record 'a node =
  ndata :: "'a option"
  nnext :: "nat option"

type_synonym 'a heap = "nat \<Rightarrow> 'a node option"

text \<open>\<open>seg h p xs q\<close>: from \<open>p\<close> the next pointers lead through \<open>xs\<close> to \<open>q\<close>.\<close>

fun seg :: "'a heap \<Rightarrow> nat option \<Rightarrow> nat list \<Rightarrow> nat option \<Rightarrow> bool" where
  "seg h p [] q = (p = q)"
| "seg h p (x # xs) q = (p = Some x \<and> (\<exists>n. h x = Some n \<and> seg h (nnext n) xs q))"

lemma seg_frame: "(\<And>x. x \<in> set xs \<Longrightarrow> h' x = h x) \<Longrightarrow> seg h' p xs q = seg h p xs q"
  by (induction xs arbitrary: p) auto

lemma seg_same: "seg h p xs q \<Longrightarrow> \<forall>x\<in>set xs. h' x = h x \<Longrightarrow> seg h' p xs q"
  using seg_frame [of xs h' h] by blast

lemma seg_append: "seg h p (xs @ ys) q \<longleftrightarrow> (\<exists>r. seg h p xs r \<and> seg h r ys q)"
  by (induction xs arbitrary: p) auto

lemma seg_alloc: "seg h p xs q \<Longrightarrow> x \<in> set xs \<Longrightarrow> h x \<noteq> None"
  by (induction xs arbitrary: p) auto

lemma seg_dom: "seg h p xs q \<Longrightarrow> set xs \<subseteq> dom h"
  by (auto dest: seg_alloc)

lemma seg_None [simp]: "seg h None xs q \<longleftrightarrow> xs = [] \<and> q = None"
  by (cases xs) auto

lemma seg_Some: "seg h (Some x) xs None \<longleftrightarrow> (\<exists>ys n. xs = x # ys \<and> h x = Some n \<and> seg h (nnext n) ys None)"
  by (cases xs) auto

text \<open>A pointer determines the list that ends in null, which therefore repeats no node.\<close>

lemma seg_unique: "seg h p xs None \<Longrightarrow> seg h p ys None \<Longrightarrow> xs = ys"
proof (induction xs arbitrary: p ys)
  case Nil
  then show ?case by (cases ys) auto
next
  case (Cons x xs)
  then show ?case by (cases ys) auto
qed

lemma seg_distinct: "seg h p xs None \<Longrightarrow> distinct xs"
proof (induction xs arbitrary: p)
  case (Cons x xs)
  have "x \<notin> set xs"
  proof
    assume "x \<in> set xs"
    then obtain as bs where xs: "xs = as @ x # bs" by (meson split_list)
    with Cons.prems have "seg h (Some x) (x # bs) None" by (auto simp: seg_append)
    with Cons.prems have "x # xs = x # bs" by (intro seg_unique [of h "Some x"]) auto
    with xs show False by simp
  qed
  with Cons show ?case by auto
qed simp

text \<open>A list whose last next pointer may be anything.\<close>

definition open_seg :: "'a heap \<Rightarrow> nat option \<Rightarrow> nat list \<Rightarrow> bool" where
  "open_seg h p xs \<longleftrightarrow> (\<exists>q. seg h p xs q)"

lemma open_seg_frame: "(\<And>x. x \<in> set xs \<Longrightarrow> h' x = h x) \<Longrightarrow> open_seg h' p xs = open_seg h p xs"
  using seg_frame [of xs h' h] by (simp add: open_seg_def)

lemma open_seg_dom: "open_seg h p xs \<Longrightarrow> set xs \<subseteq> dom h"
  by (auto simp: open_seg_def dest: seg_alloc)

text \<open>The step from one node of a list to the next.\<close>

lemma seg_walk:
  "seg h p xs None \<Longrightarrow> x \<in> set xs \<Longrightarrow> \<exists>n. h x = Some n \<and>
     (case nnext n of Some y \<Rightarrow> y \<in> set xs | None \<Rightarrow> x = last xs)"
proof (induction xs arbitrary: p)
  case (Cons y ys)
  then show ?case
  proof (cases "x = y")
    case True
    with Cons.prems show ?thesis
      by (cases ys) auto
  next
    case False
    with Cons show ?thesis by (fastforce split: option.splits)
  qed
qed simp

lemma seg_set_last:
  "seg h p (xs @ [x]) q \<Longrightarrow> x \<notin> set xs \<Longrightarrow> h x = Some n \<Longrightarrow>
   seg (h(x \<mapsto> n\<lparr>nnext := r\<rparr>)) p (xs @ [x]) r"
proof -
  assume s: "seg h p (xs @ [x]) q" "x \<notin> set xs" "h x = Some n"
  then have "seg (h(x \<mapsto> n\<lparr>nnext := r\<rparr>)) p xs t = seg h p xs t" for t
    by (intro seg_frame) auto
  with s show ?thesis by (simp add: seg_append)
qed

lemma seg_last_next: "seg h p (xs @ [x]) q \<Longrightarrow> \<exists>n. h x = Some n \<and> nnext n = q"
  by (auto simp: seg_append)

lemma open_seg_set_last:
  "open_seg h p (xs @ [x]) \<Longrightarrow> x \<notin> set xs \<Longrightarrow> h x = Some n \<Longrightarrow> open_seg (h(x \<mapsto> n\<lparr>nnext := r\<rparr>)) p (xs @ [x])"
  unfolding open_seg_def using seg_set_last by blast

lemma open_seg_last:
  "open_seg h p (xs @ [x]) \<Longrightarrow> h x = Some n \<Longrightarrow> seg h p (xs @ [x]) (nnext n)"
  unfolding open_seg_def using seg_last_next by fastforce

text \<open>The values of the nodes of a list.\<close>

definition node_val :: "'a heap \<Rightarrow> nat \<Rightarrow> 'a" where
  "node_val h x = (case h x of Some n \<Rightarrow> (case ndata n of Some v \<Rightarrow> v | None \<Rightarrow> undefined) | None \<Rightarrow> undefined)"

definition has_val :: "'a heap \<Rightarrow> nat \<Rightarrow> bool" where
  "has_val h x \<longleftrightarrow> (\<exists>n v. h x = Some n \<and> ndata n = Some v)"

lemma node_vals_frame: "(\<And>x. x \<in> set xs \<Longrightarrow> h' x = h x) \<Longrightarrow> map (node_val h') xs = map (node_val h) xs"
  by (simp add: node_val_def)

end
