(* ===== verification/SpscList.thy ===== *)
theory SpscList
  imports NodeHeap
begin

text \<open>
  The linked queue for one producer and one consumer of
  \<open>src/Concurrent/day18-LockFreeQue/day18-LockFreeQue/singlepushpop.h\<close>: the last node is a dummy
  that the producer fills before it links the next one. A step is one access to an atomic or to
  a node; the two threads interleave freely.
\<close>

section \<open>The machine\<close>

datatype 'a prod_pc =
    PIdle
  | PNew 'a                       \<comment> \<open>\<open>new node\<close>\<close>
  | PLoad 'a nat                  \<comment> \<open>\<open>old_tail = tail.load()\<close>\<close>
  | PSwap 'a nat nat              \<comment> \<open>\<open>old_tail->data.swap(new_data)\<close>\<close>
  | PLink 'a nat nat              \<comment> \<open>\<open>old_tail->next = p\<close>\<close>
  | PStore 'a nat                 \<comment> \<open>\<open>tail.store(p)\<close>\<close>

datatype 'a cons_pc =
    CIdle
  | CLoad                         \<comment> \<open>\<open>old_head = head.load()\<close>\<close>
  | CTest "nat option"            \<comment> \<open>\<open>old_head == tail.load()\<close>\<close>
  | CNext nat                     \<comment> \<open>reads \<open>old_head->next\<close>\<close>
  | CStore nat "nat option"       \<comment> \<open>\<open>head.store(old_head->next)\<close>\<close>
  | CData nat 'a                  \<comment> \<open>copies \<open>old_head->data\<close>; the logged value\<close>
  | CDelete nat

record 'a single_pop_push =
  qheap :: "'a heap"
  qhead :: "nat option"
  qtail :: "nat option"
  ppc :: "'a prod_pc"
  cpc :: "'a cons_pc"
  qlog :: "'a call_log"
  qbad :: bool

text \<open>The constructor allocates the first dummy, here at address \<open>d\<close>.\<close>

definition SinglePopPush :: "nat \<Rightarrow> 'a single_pop_push" where
  "SinglePopPush d = \<lparr>qheap = [d \<mapsto> \<lparr>ndata = None, nnext = None\<rparr>], qhead = Some d, qtail = Some d,
     ppc = PIdle, cpc = CIdle, qlog = [], qbad = False\<rparr>"

definition at_qnode :: "nat option \<Rightarrow> 'a single_pop_push \<Rightarrow> (nat \<Rightarrow> 'a node \<Rightarrow> 'a single_pop_push) \<Rightarrow> 'a single_pop_push" where
  "at_qnode p s f = (case p of None \<Rightarrow> s\<lparr>qbad := True\<rparr>
     | Some x \<Rightarrow> (case qheap s x of None \<Rightarrow> s\<lparr>qbad := True\<rparr> | Some n \<Rightarrow> f x n))"

definition spsc_alloc_step :: "nat \<Rightarrow> 'a single_pop_push \<Rightarrow> 'a single_pop_push option" where
  "spsc_alloc_step a s = (case ppc s of
     PNew v \<Rightarrow> if qheap s a = None
       then Some (s\<lparr>qheap := (qheap s)(a \<mapsto> \<lparr>ndata = None, nnext = None\<rparr>), ppc := PLoad v a\<rparr>)
       else None
   | _ \<Rightarrow> None)"

definition spsc_push_step :: "'a single_pop_push \<Rightarrow> 'a single_pop_push option" where
  "spsc_push_step s = (case ppc s of
     PLoad v p \<Rightarrow> Some (at_qnode (qtail s) s (\<lambda>old_tail _. s\<lparr>ppc := PSwap v p old_tail\<rparr>))
   | PSwap v p old_tail \<Rightarrow> Some (at_qnode (Some old_tail) s (\<lambda>x n.
       s\<lparr>qheap := (qheap s)(x \<mapsto> n\<lparr>ndata := Some v\<rparr>), ppc := PLink v p old_tail\<rparr>))
   | PLink v p old_tail \<Rightarrow> Some (at_qnode (Some old_tail) s (\<lambda>x n.
       s\<lparr>qheap := (qheap s)(x \<mapsto> n\<lparr>nnext := Some p\<rparr>), ppc := PStore v p\<rparr>))
   | PStore v p \<Rightarrow> Some (s\<lparr>qtail := Some p, ppc := PIdle, qlog := qlog s @ [(QPush v, Pushed True)]\<rparr>)
   | _ \<Rightarrow> None)"

definition spsc_pop_step :: "'a single_pop_push \<Rightarrow> 'a single_pop_push option" where
  "spsc_pop_step s = (case cpc s of
     CLoad \<Rightarrow> Some (s\<lparr>cpc := CTest (qhead s)\<rparr>)
   | CTest old_head \<Rightarrow>
       if old_head = qtail s then Some (s\<lparr>cpc := CIdle, qlog := qlog s @ [(QPop, Popped None)]\<rparr>)
       else Some (at_qnode old_head s (\<lambda>x _. s\<lparr>cpc := CNext x\<rparr>))
   | CNext x \<Rightarrow> Some (at_qnode (Some x) s (\<lambda>_ n. s\<lparr>cpc := CStore x (nnext n)\<rparr>))
   | CStore x p \<Rightarrow> Some (s\<lparr>qhead := p, cpc := CData x (node_val (qheap s) x),
       qlog := qlog s @ [(QPop, Popped (Some (node_val (qheap s) x)))]\<rparr>)
   | CData x v \<Rightarrow> Some (at_qnode (Some x) s (\<lambda>_ n.
       if ndata n = Some v then s\<lparr>cpc := CDelete x\<rparr> else s\<lparr>qbad := True\<rparr>))
   | CDelete x \<Rightarrow> Some (at_qnode (Some x) s (\<lambda>_ _. s\<lparr>qheap := (qheap s)(x := None), cpc := CIdle\<rparr>))
   | CIdle \<Rightarrow> None)"

datatype 'a spsc_event = EPush 'a | EPop | EAlloc nat | EPushStep | EPopStep

fun spsc_list_exec :: "'a spsc_event \<Rightarrow> 'a single_pop_push \<Rightarrow> 'a single_pop_push option" where
  "spsc_list_exec (EPush v) s = (if ppc s = PIdle then Some (s\<lparr>ppc := PNew v\<rparr>) else None)"
| "spsc_list_exec EPop s = (if cpc s = CIdle then Some (s\<lparr>cpc := CLoad\<rparr>) else None)"
| "spsc_list_exec (EAlloc a) s = spsc_alloc_step a s"
| "spsc_list_exec EPushStep s = spsc_push_step s"
| "spsc_list_exec EPopStep s = spsc_pop_step s"

text \<open>The destructor, with no operation under way.\<close>

fun spsc_destroy :: "nat \<Rightarrow> 'a heap \<Rightarrow> nat option \<Rightarrow> 'a heap option" where
  "spsc_destroy fuel h None = Some h"
| "spsc_destroy 0 h (Some x) = None"
| "spsc_destroy (Suc fuel) h (Some x) = (case h x of
     None \<Rightarrow> None | Some n \<Rightarrow> spsc_destroy fuel (h(x := None)) (nnext n))"

section \<open>The invariant\<close>

text \<open>\<open>S\<close> are the filled nodes from the head, \<open>d\<close> the dummy at the tail.\<close>

fun dummy :: "'a prod_pc \<Rightarrow> 'a node" where
  "dummy (PLink v p t) = \<lparr>ndata = Some v, nnext = None\<rparr>"
| "dummy (PStore v p) = \<lparr>ndata = Some v, nnext = Some p\<rparr>"
| "dummy _ = \<lparr>ndata = None, nnext = None\<rparr>"

text \<open>The node the producer has allocated, and the one the consumer has taken out.\<close>

fun new_node :: "'a prod_pc \<Rightarrow> nat set" where
  "new_node (PLoad v p) = {p}"
| "new_node (PSwap v p t) = {p}"
| "new_node (PLink v p t) = {p}"
| "new_node (PStore v p) = {p}"
| "new_node _ = {}"

fun taken :: "'a cons_pc \<Rightarrow> nat set" where
  "taken (CData x v) = {x}"
| "taken (CDelete x) = {x}"
| "taken _ = {}"

fun prod_ok :: "nat \<Rightarrow> 'a prod_pc \<Rightarrow> bool" where
  "prod_ok d (PSwap v p t) = (t = d)"
| "prod_ok d (PLink v p t) = (t = d)"
| "prod_ok d _ = True"

fun cons_ok :: "'a heap \<Rightarrow> nat option \<Rightarrow> nat list \<Rightarrow> 'a cons_pc \<Rightarrow> bool" where
  "cons_ok h hp S (CTest p) = (p = hp)"
| "cons_ok h hp S (CNext x) = (hp = Some x \<and> S \<noteq> [])"
| "cons_ok h hp S (CStore x p) = (hp = Some x \<and> S \<noteq> [] \<and> (\<exists>n. h x = Some n \<and> nnext n = p))"
| "cons_ok h hp S (CData x v) = (\<exists>n. h x = Some n \<and> ndata n = Some v)"
| "cons_ok h hp S _ = True"

definition spsc_rep :: "'a single_pop_push \<Rightarrow> nat list \<Rightarrow> nat \<Rightarrow> bool" where
  "spsc_rep s S d \<longleftrightarrow>
     seg (qheap s) (qhead s) S (Some d) \<and> qtail s = Some d \<and> distinct (d # S) \<and>
     (\<forall>x\<in>set S. has_val (qheap s) x) \<and> qheap s d = Some (dummy (ppc s)) \<and>
     (\<forall>p\<in>new_node (ppc s). qheap s p = Some \<lparr>ndata = None, nnext = None\<rparr>) \<and>
     new_node (ppc s) \<inter> (insert d (set S) \<union> taken (cpc s)) = {} \<and> taken (cpc s) \<inter> insert d (set S) = {} \<and>
     prod_ok d (ppc s) \<and> cons_ok (qheap s) (qhead s) S (cpc s) \<and>
     dom (qheap s) = insert d (set S \<union> new_node (ppc s) \<union> taken (cpc s)) \<and>
     queue_log (qlog s) (map (node_val (qheap s)) S)"

definition spsc_list_inv :: "'a single_pop_push \<Rightarrow> bool" where
  "spsc_list_inv s \<longleftrightarrow> \<not> qbad s \<and> (\<exists>S d. spsc_rep s S d)"

lemma spsc_repD:
  assumes "spsc_rep s S d"
  shows "seg (qheap s) (qhead s) S (Some d)" "qtail s = Some d" "d \<notin> set S" "distinct S"
    "x \<in> set S \<Longrightarrow> has_val (qheap s) x" "qheap s d = Some (dummy (ppc s))"
    "p \<in> new_node (ppc s) \<Longrightarrow> qheap s p = Some \<lparr>ndata = None, nnext = None\<rparr>"
    "p \<in> new_node (ppc s) \<Longrightarrow> p \<noteq> d \<and> p \<notin> set S \<and> p \<notin> taken (cpc s)"
    "p \<in> taken (cpc s) \<Longrightarrow> p \<noteq> d \<and> p \<notin> set S" "prod_ok d (ppc s)" "cons_ok (qheap s) (qhead s) S (cpc s)"
    "dom (qheap s) = insert d (set S \<union> new_node (ppc s) \<union> taken (cpc s))"
    "queue_log (qlog s) (map (node_val (qheap s)) S)"
  using assms by (auto simp: spsc_rep_def)

text \<open>A write to a node that is not in the filled part.\<close>

lemma spsc_frame:
  assumes "seg h p S q" "x \<notin> set S"
  shows "seg (h(x := n)) p S q" "queue_log l (map (node_val h) S) \<Longrightarrow> queue_log l (map (node_val (h(x := n))) S)"
    "\<forall>y\<in>set S. has_val h y \<Longrightarrow> \<forall>y\<in>set S. has_val (h(x := n)) y"
proof -
  show "seg (h(x := n)) p S q" using assms(1) by (rule seg_same) (use assms(2) in auto)
  have "map (node_val (h(x := n))) S = map (node_val h) S"
    by (rule node_vals_frame) (use assms(2) in auto)
  then show "queue_log l (map (node_val h) S) \<Longrightarrow> queue_log l (map (node_val (h(x := n))) S)" by (simp only:)
  show "\<forall>y\<in>set S. has_val h y \<Longrightarrow> \<forall>y\<in>set S. has_val (h(x := n)) y"
    using assms(2) by (auto simp: has_val_def)
qed

lemma spsc_alloc_inv:
  assumes inv: "spsc_list_inv s" and st: "spsc_alloc_step a s = Some t"
  shows "spsc_list_inv t"
proof -
  obtain S d where rep: "spsc_rep s S d" and ok: "\<not> qbad s" using inv by (auto simp: spsc_list_inv_def)
  note r = spsc_repD [OF rep]
  obtain v where c: "ppc s = PNew v" and a: "qheap s a = None"
    and t: "t = s\<lparr>qheap := (qheap s)(a \<mapsto> \<lparr>ndata = None, nnext = None\<rparr>), ppc := PLoad v a\<rparr>"
    using st by (auto simp: spsc_alloc_step_def split: prod_pc.splits if_splits)
  have free: "a \<noteq> d" "a \<notin> set S" "a \<notin> taken (cpc s)" using a r(12) by auto
  note f = spsc_frame [OF r(1) free(2)]
  have "cons_ok ((qheap s)(a \<mapsto> n)) (qhead s) S (cpc s)" for n
    using r(11) a by (cases "cpc s") auto
  then have "spsc_rep t S d"
    using r c free f by (auto simp: spsc_rep_def t)
  with ok show ?thesis by (auto simp: spsc_list_inv_def t)
qed

lemma spsc_push_inv:
  assumes inv: "spsc_list_inv s" and st: "spsc_push_step s = Some t"
  shows "spsc_list_inv t"
proof -
  obtain S d where rep: "spsc_rep s S d" and ok: "\<not> qbad s" using inv by (auto simp: spsc_list_inv_def)
  note r = spsc_repD [OF rep] and f = spsc_frame [OF r(1,3)]
  have dom: "cons_ok ((qheap s)(d \<mapsto> n)) (qhead s) S (cpc s)" if "\<forall>m. qheap s d = Some m \<longrightarrow> nnext n = nnext m \<or> S = []" for n
    using r(1,3,9,11) that by (cases "cpc s"; cases S) auto
  show ?thesis
  proof (cases "ppc s")
    case (PLoad v p)
    with st r(2,6) have t: "t = s\<lparr>ppc := PSwap v p d\<rparr>" by (simp add: spsc_push_step_def at_qnode_def)
    have "spsc_rep t S d" using rep PLoad by (simp add: spsc_rep_def t)
    with ok show ?thesis by (auto simp: spsc_list_inv_def t)
  next
    case (PSwap v p x)
    with r(10) have x: "x = d" by simp
    with PSwap st r(6) have t: "t = s\<lparr>qheap := (qheap s)(d \<mapsto> \<lparr>ndata = Some v, nnext = None\<rparr>), ppc := PLink v p d\<rparr>"
      by (auto simp: spsc_push_step_def at_qnode_def)
    have "cons_ok ((qheap s)(d \<mapsto> \<lparr>ndata = Some v, nnext = None\<rparr>)) (qhead s) S (cpc s)"
      using r(6) PSwap by (intro dom) simp
    then have "spsc_rep t S d" using r PSwap f by (auto simp: spsc_rep_def t)
    with ok show ?thesis by (auto simp: spsc_list_inv_def t)
  next
    case (PLink v p x)
    with r(10) have x: "x = d" by simp
    with PLink st r(6) have t: "t = s\<lparr>qheap := (qheap s)(d \<mapsto> \<lparr>ndata = Some v, nnext = Some p\<rparr>), ppc := PStore v p\<rparr>"
      by (auto simp: spsc_push_step_def at_qnode_def)
    have "cons_ok ((qheap s)(d \<mapsto> \<lparr>ndata = Some v, nnext = Some p\<rparr>)) (qhead s) S (cpc s)"
      using r(1,3,9,11) by (cases "cpc s"; cases S) auto
    then have "spsc_rep t S d" using r PLink f by (auto simp: spsc_rep_def t)
    with ok show ?thesis by (auto simp: spsc_list_inv_def t)
  next
    case (PStore v p)
    with st have t: "t = s\<lparr>qtail := Some p, ppc := PIdle, qlog := qlog s @ [(QPush v, Pushed True)]\<rparr>"
      by (simp add: spsc_push_step_def)
    have d: "qheap s d = Some \<lparr>ndata = Some v, nnext = Some p\<rparr>" using r(6) PStore by simp
    have "cons_ok (qheap s) (qhead s) (S @ [d]) (cpc s)" using r(11) by (cases "cpc s") auto
    moreover have "queue_log (qlog t) (map (node_val (qheap s)) (S @ [d]))"
      using queue_log_snoc [OF r(13), of "QPush v"] d by (simp add: t node_val_def)
    ultimately have "spsc_rep t (S @ [d]) p"
      using r PStore d by (auto simp: spsc_rep_def t seg_append has_val_def)
    with ok show ?thesis by (auto simp: spsc_list_inv_def t)
  qed (use st in \<open>simp_all add: spsc_push_step_def\<close>)
qed

lemma spsc_pop_inv:
  assumes inv: "spsc_list_inv s" and st: "spsc_pop_step s = Some t"
  shows "spsc_list_inv t"
proof -
  obtain S d where rep: "spsc_rep s S d" and ok: "\<not> qbad s" using inv by (auto simp: spsc_list_inv_def)
  note r = spsc_repD [OF rep]
  have top: "\<exists>S' n. S = x # S' \<and> qheap s x = Some n \<and> seg (qheap s) (nnext n) S' (Some d)"
    if "qhead s = Some x" "S \<noteq> []" for x
    using r(1) that by (cases S) auto
  show ?thesis
  proof (cases "cpc s")
    case CLoad
    with st rep have "spsc_rep t S d" "\<not> qbad t" using ok by (auto simp: spsc_pop_step_def spsc_rep_def)
    then show ?thesis by (auto simp: spsc_list_inv_def)
  next
    case (CTest p)
    with r(11) have p: "p = qhead s" by simp
    show ?thesis
    proof (cases "p = qtail s")
      case True
      have S: "S = []" using r(1-3) True p by (cases S) auto
      have "queue_log (qlog s @ [(QPop, Popped None)]) []"
        using queue_log_snoc [of "qlog s" "[]" QPop "Popped None" "[]"] r(13) S by simp
      then have "spsc_rep t S d" "\<not> qbad t" using st rep ok CTest True S by (auto simp: spsc_pop_step_def spsc_rep_def)
      then show ?thesis by (auto simp: spsc_list_inv_def)
    next
      case False
      then have "S \<noteq> []" using r(1,2) p by (cases S) auto
      then obtain x S' n where "qhead s = Some x" "S = x # S'" "qheap s x = Some n" using r(1) by (cases S) auto
      with False CTest st p rep ok have "spsc_rep t S d" "\<not> qbad t"
        by (auto simp: spsc_pop_step_def at_qnode_def spsc_rep_def)
      then show ?thesis by (auto simp: spsc_list_inv_def)
    qed
  next
    case (CNext x)
    with r(11) have x: "qhead s = Some x" "S \<noteq> []" by auto
    from top [OF x] obtain n where "qheap s x = Some n" by blast
    with CNext st x rep ok have "spsc_rep t S d" "\<not> qbad t"
      by (auto simp: spsc_pop_step_def at_qnode_def spsc_rep_def)
    then show ?thesis by (auto simp: spsc_list_inv_def)
  next
    case (CStore x p)
    with r(11) have x: "qhead s = Some x" "S \<noteq> []" and p: "\<exists>n. qheap s x = Some n \<and> nnext n = p" by auto
    from top [OF x] p obtain S' n where S: "S = x # S'" "qheap s x = Some n" "nnext n = p" "seg (qheap s) p S' (Some d)"
      by auto
    have "queue_log (qlog s @ [(QPop, Popped (Some (node_val (qheap s) x)))]) (map (node_val (qheap s)) S')"
      by (rule queue_log_snoc [OF r(13)]) (simp add: S)
    moreover have "ndata n = Some (node_val (qheap s) x)"
      using r(5) [of x] S by (auto simp: has_val_def node_val_def)
    moreover have t: "t = s\<lparr>qhead := p, cpc := CData x (node_val (qheap s) x),
        qlog := qlog s @ [(QPop, Popped (Some (node_val (qheap s) x)))]\<rparr>"
      using st CStore by (simp add: spsc_pop_step_def)
    moreover have "dom (qheap t) = insert d (set S' \<union> new_node (ppc t) \<union> taken (cpc t))"
      using r(12) CStore by (auto simp: t S)
    moreover have "new_node (ppc t) \<inter> (insert d (set S') \<union> taken (cpc t)) = {}"
      using r(8) by (auto simp: t S)
    ultimately have "spsc_rep t S' d" "\<not> qbad t"
      using CStore rep ok S by (simp_all add: spsc_rep_def)
    then show ?thesis by (auto simp: spsc_list_inv_def)
  next
    case (CData x v)
    with r(11) CData st rep ok have "spsc_rep t S d" "\<not> qbad t"
      by (auto simp: spsc_pop_step_def at_qnode_def spsc_rep_def)
    then show ?thesis by (auto simp: spsc_list_inv_def)
  next
    case (CDelete x)
    then obtain n where n: "qheap s x = Some n" using r(12) by auto
    have xS: "x \<notin> set S" "x \<noteq> d" "x \<notin> new_node (ppc s)" using r(8) [of x] r(9) [of x] CDelete by auto
    have t: "t = s\<lparr>qheap := (qheap s)(x := None), cpc := CIdle\<rparr>"
      using st CDelete n by (simp add: spsc_pop_step_def at_qnode_def)
    have "spsc_rep t S d"
      using r xS CDelete spsc_frame [OF r(1) xS(1)] by (auto simp: spsc_rep_def t)
    with ok show ?thesis by (auto simp: spsc_list_inv_def t)
  qed (use st in \<open>simp_all add: spsc_pop_step_def\<close>)
qed

interpretation spscl: inv_machine spsc_list_exec spsc_list_inv
proof
  fix s t :: "'a single_pop_push" and e
  assume inv: "spsc_list_inv s" and st: "spsc_list_exec e s = Some t"
  show "spsc_list_inv t"
  proof (cases e)
    case (EPush v)
    with st inv show ?thesis by (auto simp: spsc_list_inv_def spsc_rep_def split: if_splits)
  next
    case EPop
    with st inv show ?thesis by (auto simp: spsc_list_inv_def spsc_rep_def split: if_splits)
  qed (use st inv spsc_alloc_inv spsc_push_inv spsc_pop_inv in auto)
qed

lemma spsc_list_start: "spsc_list_inv (SinglePopPush d)"
  by (auto simp: spsc_list_inv_def SinglePopPush_def spsc_rep_def intro!: exI [of _ "[]"])

text \<open>The destructor reaches every node.\<close>

lemma spsc_destroy_seg:
  "seg h p S None \<Longrightarrow> distinct S \<Longrightarrow> length S \<le> fuel \<Longrightarrow> spsc_destroy fuel h p = Some (\<lambda>x. if x \<in> set S then None else h x)"
proof (induction fuel h p arbitrary: S rule: spsc_destroy.induct)
  case (3 fuel h x)
  then obtain n S' where S: "S = x # S'" "h x = Some n" "seg h (nnext n) S' None" by (auto simp: seg_Some)
  have "seg (h(x := None)) (nnext n) S' None" using S(3) by (rule seg_same) (use 3 S in auto)
  then have "spsc_destroy fuel (h(x := None)) (nnext n) = Some (\<lambda>y. if y \<in> set S' then None else (h(x := None)) y)"
    by (rule 3(1) [OF S(2)]) (use 3 S in auto)
  with S show ?case by (auto simp: fun_eq_iff)
qed (auto simp: seg_Some)

text \<open>
  C18. One producer and one consumer in any interleaving: no step touches a deleted node, the log of
  the calls is a run of a FIFO queue, and when both threads have returned, the destructor frees
  every node: nothing is lost and nothing deleted twice.
\<close>

theorem spsc_list_fifo:
  assumes "run spsc_list_exec es (SinglePopPush d) = Some s"
  shows "\<not> qbad s \<and> (\<exists>q. queue_log (qlog s) q) \<and>
    (ppc s = PIdle \<and> cpc s = CIdle \<longrightarrow>
       (\<exists>n. \<forall>fuel\<ge>n. spsc_destroy fuel (qheap s) (qhead s) = Some Map.empty))"
proof -
  have inv: "spsc_list_inv s" using spsc_list_start assms by (rule spscl.run_inv)
  then obtain S t where rep: "spsc_rep s S t" and ok: "\<not> qbad s" by (auto simp: spsc_list_inv_def)
  note r = spsc_repD [OF rep]
  have "spsc_destroy fuel (qheap s) (qhead s) = Some Map.empty"
    if "ppc s = PIdle" "cpc s = CIdle" "fuel \<ge> length S + 1" for fuel
  proof -
    have "seg (qheap s) (qhead s) (S @ [t]) None" using r(1,6) that by (auto simp: seg_append)
    then have "spsc_destroy fuel (qheap s) (qhead s) = Some (\<lambda>x. if x \<in> set (S @ [t]) then None else qheap s x)"
      using r(3,4) that by (intro spsc_destroy_seg) auto
    moreover have "dom (qheap s) = set (S @ [t])" using r(12) that by auto
    then have "(\<lambda>x. if x \<in> set (S @ [t]) then None else qheap s x) = Map.empty"
      by (auto simp: fun_eq_iff dom_def)
    ultimately show ?thesis by simp
  qed
  with ok r(13) show ?thesis by blast
qed

theorem spsc_list_fifo_witness:
  "\<exists>s. run spsc_list_exec ([EPush (5 :: nat), EAlloc 1, EPop] @ replicate 2 EPushStep @ [EPopStep] @
       replicate 2 EPushStep @ replicate 5 EPopStep) (SinglePopPush 0) = Some s \<and>
     (\<exists>n. \<forall>fuel\<ge>n. spsc_destroy fuel (qheap s) (qhead s) = Some Map.empty)"
proof -
  obtain s where r: "run spsc_list_exec ([EPush (5 :: nat), EAlloc 1, EPop] @ replicate 2 EPushStep @ [EPopStep] @
       replicate 2 EPushStep @ replicate 5 EPopStep) (SinglePopPush 0) = Some s" and "ppc s = PIdle" "cpc s = CIdle"
    by (simp add: numeral_eq_Suc SinglePopPush_def at_qnode_def spsc_alloc_step_def spsc_push_step_def
        spsc_pop_step_def node_val_def)
  with spsc_list_fifo [OF r] show ?thesis by blast
qed

end
