(* ===== verification/LockFreeQueue.thy ===== *)
theory LockFreeQueue
  imports NodeHeap "HOL-Library.Word"
begin

text \<open>
  The queue of \<open>src/Concurrent/day18-LockFreeQue/day18-LockFreeQue/lockfreeque.h\<close> (the copy in
  \<open>day24-TroubleShoot\<close> is identical) and its two variants that the authors kept as examples of
  errors, \<open>crushque.h\<close> and \<open>memoryleakque.h\<close>. Counted pointers to the first and the last node;
  a node is deleted when its internal counter and the number of its external counters are both
  zero. A step is one atomic access, sequentially consistent; the loops of \<open>release_ref\<close> and
  \<open>free_external_counter\<close>, which repeat until their exchange succeeds, are one step. The counters
  of a node have the widths of the code's bit-fields, 30 and 2; the \<open>int\<close> in a counted pointer
  is unbounded, so an overflow after \<open>2 ^ 31\<close> visits of one node is not modelled.
\<close>

section \<open>The machine\<close>

type_synonym cptr = "int \<times> nat option"

record 'a fnode =
  fdata :: "'a option"
  internal_count :: "30 word"
  external_counters :: "2 word"
  fnext :: cptr

text \<open>
  The constructor of \<open>node\<close>. It does not initialise \<open>data\<close>, whose content before C++20 is
  whatever the memory held: the argument \<open>g\<close>.
\<close>

definition fresh_node :: "'a option \<Rightarrow> 'a fnode" where
  "fresh_node g = \<lparr>fdata = g, internal_count = 0, external_counters = 2, fnext = (0, None)\<rparr>"

text \<open>
  Local variables as in the code: \<open>old\<close> is \<open>old_tail\<close> or \<open>old_head\<close>; \<open>nn\<close> is \<open>new_next.ptr\<close>, whose
  \<open>external_count\<close> is 1. \<open>FRelease\<close>, \<open>FFree\<close> and \<open>FDelete\<close> carry the point that follows them;
  \<open>FSetTail\<close> carries \<open>Some (v, nn)\<close> where the loop of \<open>push\<close> goes on.
\<close>

datatype 'a fpc =
    FIdle
  | FNew 'a
  | FTailLoad 'a nat
  | FIncTail 'a nat cptr
  | FDataCas 'a nat int nat
  | FNextLoad nat int nat
  | FNextCas nat int nat
  | FDelNew nat int nat cptr
  | FElseNext 'a nat int nat
  | FElseNew 'a int nat cptr
  | FSetTail nat cptr cptr "('a \<times> nat) option"
  | FHeadLoad
  | FIncHead cptr
  | FTailTest int nat
  | FPopNext int nat
  | FHeadCas int nat cptr
  | FTake int nat "'a option"
  | FRelease nat "'a fpc"
  | FFree int nat "'a fpc"
  | FDelete nat "'a fpc"

text \<open>
  \<open>fpushed\<close> records the values in the order in which they are stored in a node, \<open>fpopped\<close> the
  data of the nodes in the order in which they leave the queue, \<open>fempty\<close> the number of pops that
  found the queue empty. \<open>fbad\<close> is set by an access to a null pointer or to a deleted node and
  by a pop that takes other data than recorded.
\<close>

record 'a fq =
  fheap :: "nat \<Rightarrow> 'a fnode option"
  fhead :: cptr
  ftail :: cptr
  fpc :: "nat \<Rightarrow> 'a fpc"
  fpushed :: "'a list"
  fpopped :: "'a option list"
  fempty :: nat
  fbad :: bool

text \<open>\<open>lock_free_queue()\<close> and \<open>crush_que()\<close>, whose \<open>head\<close> and \<open>tail\<close> stay as the memory was, here null.\<close>

definition lock_free_queue :: "nat \<Rightarrow> 'a option \<Rightarrow> 'a fq" where
  "lock_free_queue a g = \<lparr>fheap = [a \<mapsto> fresh_node g], fhead = (1, Some a), ftail = (1, Some a),
     fpc = (\<lambda>_. FIdle), fpushed = [], fpopped = [], fempty = 0, fbad = False\<rparr>"

definition crush_que :: "'a fq" where
  "crush_que = \<lparr>fheap = Map.empty, fhead = (0, None), ftail = (0, None),
     fpc = (\<lambda>_. FIdle), fpushed = [], fpopped = [], fempty = 0, fbad = False\<rparr>"

definition fgo :: "nat \<Rightarrow> 'a fpc \<Rightarrow> 'a fq \<Rightarrow> 'a fq" where
  "fgo i c s = s\<lparr>fpc := (fpc s)(i := c)\<rparr>"

definition at_fnode :: "nat \<Rightarrow> 'a fq \<Rightarrow> ('a fnode \<Rightarrow> 'a fq) \<Rightarrow> 'a fq" where
  "at_fnode x s f = (case fheap s x of None \<Rightarrow> s\<lparr>fbad := True\<rparr> | Some n \<Rightarrow> f n)"

definition fput :: "nat \<Rightarrow> 'a fnode \<Rightarrow> 'a fq \<Rightarrow> 'a fq" where
  "fput x n s = s\<lparr>fheap := (fheap s)(x \<mapsto> n)\<rparr>"

text \<open>\<open>release_ref\<close> and \<open>free_external_counter\<close>: the counters after the call, then \<open>delete\<close>.\<close>

definition drop_ref :: "nat \<Rightarrow> nat \<Rightarrow> 'a fnode \<Rightarrow> 'a fpc \<Rightarrow> 'a fq \<Rightarrow> 'a fq" where
  "drop_ref i x new_counter k s =
     fgo i (if internal_count new_counter = 0 \<and> external_counters new_counter = 0 then FDelete x k else k)
       (fput x new_counter s)"

definition release_ref :: "nat \<Rightarrow> nat \<Rightarrow> 'a fpc \<Rightarrow> 'a fq \<Rightarrow> 'a fq" where
  "release_ref i x k s = at_fnode x s (\<lambda>n.
     drop_ref i x (n\<lparr>internal_count := internal_count n - 1\<rparr>) k s)"

definition free_external_counter :: "nat \<Rightarrow> int \<Rightarrow> nat \<Rightarrow> 'a fpc \<Rightarrow> 'a fq \<Rightarrow> 'a fq" where
  "free_external_counter i e x k s = at_fnode x s (\<lambda>n. let count_increase = e - 2 in
     drop_ref i x (n\<lparr>external_counters := external_counters n - 1,
       internal_count := internal_count n + of_int count_increase\<rparr>) k s)"

definition count_step :: "nat \<Rightarrow> 'a fq \<Rightarrow> 'a fq option" where
  "count_step i s = (case fpc s i of
     FRelease x k \<Rightarrow> Some (release_ref i x k s)
   | FFree e x k \<Rightarrow> Some (free_external_counter i e x k s)
   | FDelete x k \<Rightarrow> Some (at_fnode x s (\<lambda>_. fgo i k (s\<lparr>fheap := (fheap s)(x := None)\<rparr>)))
   | _ \<Rightarrow> None)"

text \<open>
  \<open>increase_external_count\<close>: one turn of its loop; \<open>None\<close> when the exchange fails and the value of
  \<open>counter\<close> becomes the old one.
\<close>

definition increase_external_count :: "cptr \<Rightarrow> cptr \<Rightarrow> cptr option" where
  "increase_external_count counter old_counter =
     (if counter = old_counter then Some (fst old_counter + 1, snd old_counter) else None)"

text \<open>\<open>set_new_tail\<close>: one turn of its loop.\<close>

fun push_on :: "('a \<times> nat) option \<Rightarrow> cptr \<Rightarrow> 'a fpc" where
  "push_on None old = FIdle"
| "push_on (Some (v, nn)) old = FIncTail v nn old"

definition set_new_tail :: "nat \<Rightarrow> nat \<Rightarrow> cptr \<Rightarrow> cptr \<Rightarrow> ('a \<times> nat) option \<Rightarrow> 'a fq \<Rightarrow> 'a fq" where
  "set_new_tail i current_tail_ptr old_tail new_tail r s =
     (if ftail s = old_tail
      then fgo i (FFree (fst old_tail) current_tail_ptr (push_on r old_tail)) (s\<lparr>ftail := new_tail\<rparr>)
      else if snd (ftail s) = Some current_tail_ptr
      then fgo i (FSetTail current_tail_ptr (ftail s) new_tail r) s
      else fgo i (FRelease current_tail_ptr (push_on r (ftail s))) s)"

text \<open>
  \<open>push\<close>. \<open>new node\<close> gets a free address \<open>a\<close>; \<open>g\<close> is the content of its \<open>data\<close>.
\<close>

definition fq_alloc_step :: "nat \<Rightarrow> nat \<Rightarrow> 'a option \<Rightarrow> 'a fq \<Rightarrow> 'a fq option" where
  "fq_alloc_step i a g s = (if fheap s a \<noteq> None then None else
     (case fpc s i of
        FNew v \<Rightarrow> Some (fgo i (FTailLoad v a) (fput a (fresh_node g) s))
      | FElseNew v e x next \<Rightarrow> Some (fgo i (FSetTail x (e, Some x) next (Some (v, a))) (fput a (fresh_node g) s))
      | _ \<Rightarrow> None))"

definition fq_push_step :: "nat \<Rightarrow> 'a fq \<Rightarrow> 'a fq option" where
  "fq_push_step i s = (case fpc s i of
     FTailLoad v nn \<Rightarrow> Some (fgo i (FIncTail v nn (ftail s)) s)
   | FIncTail v nn old \<Rightarrow> (case increase_external_count (ftail s) old of
         Some (e, Some x) \<Rightarrow> Some (fgo i (FDataCas v nn e x) (s\<lparr>ftail := (e, Some x)\<rparr>))
       | Some (e, None) \<Rightarrow> Some (s\<lparr>ftail := (e, None), fbad := True\<rparr>)
       | None \<Rightarrow> Some (fgo i (FIncTail v nn (ftail s)) s))
   | FDataCas v nn e x \<Rightarrow> Some (at_fnode x s (\<lambda>n.
       if fdata n = None
       then fgo i (FNextLoad nn e x) (fput x (n\<lparr>fdata := Some v\<rparr>) s\<lparr>fpushed := fpushed s @ [v]\<rparr>)
       else fgo i (FElseNext v nn e x) s))
   | FNextLoad nn e x \<Rightarrow> Some (at_fnode x s (\<lambda>_. fgo i (FNextCas nn e x) s))
   | FNextCas nn e x \<Rightarrow> Some (at_fnode x s (\<lambda>n.
       if fnext n = (0, None)
       then fgo i (FSetTail x (e, Some x) (1, Some nn) None) (fput x (n\<lparr>fnext := (1, Some nn)\<rparr>) s)
       else fgo i (FDelNew nn e x (fnext n)) s))
   | FDelNew nn e x old_next \<Rightarrow> Some (at_fnode nn s (\<lambda>_.
       fgo i (FSetTail x (e, Some x) old_next None) (s\<lparr>fheap := (fheap s)(nn := None)\<rparr>)))
   | FElseNext v nn e x \<Rightarrow> Some (at_fnode x s (\<lambda>n.
       if fnext n = (0, None)
       then fgo i (FElseNew v e x (1, Some nn)) (fput x (n\<lparr>fnext := (1, Some nn)\<rparr>) s)
       else fgo i (FSetTail x (e, Some x) (fnext n) (Some (v, nn))) s))
   | FSetTail x old new r \<Rightarrow> Some (set_new_tail i x old new r s)
   | _ \<Rightarrow> None)"

text \<open>
  \<open>pop\<close>; \<open>leak\<close> is the variant of \<open>memoryleakque.h\<close>, which does not give the reference back when
  the queue is empty.
\<close>

definition fq_pop_step :: "bool \<Rightarrow> nat \<Rightarrow> 'a fq \<Rightarrow> 'a fq option" where
  "fq_pop_step leak i s = (case fpc s i of
     FHeadLoad \<Rightarrow> Some (fgo i (FIncHead (fhead s)) s)
   | FIncHead old \<Rightarrow> (case increase_external_count (fhead s) old of
         Some (e, Some x) \<Rightarrow> Some (fgo i (FTailTest e x) (s\<lparr>fhead := (e, Some x)\<rparr>))
       | Some (e, None) \<Rightarrow> Some (s\<lparr>fhead := (e, None), fbad := True\<rparr>)
       | None \<Rightarrow> Some (fgo i (FIncHead (fhead s)) s))
   | FTailTest e x \<Rightarrow>
       if snd (ftail s) = Some x
       then Some (fgo i (if leak then FIdle else FRelease x FIdle) (s\<lparr>fempty := fempty s + 1\<rparr>))
       else Some (fgo i (FPopNext e x) s)
   | FPopNext e x \<Rightarrow> Some (at_fnode x s (\<lambda>n. fgo i (FHeadCas e x (fnext n)) s))
   | FHeadCas e x next \<Rightarrow>
       if fhead s = (e, Some x)
       then Some (at_fnode x s (\<lambda>n. fgo i (FTake e x (fdata n)) (s\<lparr>fhead := next, fpopped := fpopped s @ [fdata n]\<rparr>)))
       else Some (fgo i (FRelease x (FIncHead (fhead s))) s)
   | FTake e x v \<Rightarrow> Some (at_fnode x s (\<lambda>n.
       if fdata n = v then fgo i (FFree e x FIdle) (fput x (n\<lparr>fdata := None\<rparr>) s) else s\<lparr>fbad := True\<rparr>))
   | _ \<Rightarrow> None)"

datatype 'a fq_event = FPush nat 'a | FPop nat | FAlloc nat nat "'a option" | FPushStep nat | FPopStep nat | FCountStep nat

fun fq_exec :: "bool \<Rightarrow> 'a fq_event \<Rightarrow> 'a fq \<Rightarrow> 'a fq option" where
  "fq_exec leak (FPush i v) s = (if fpc s i = FIdle then Some (fgo i (FNew v) s) else None)"
| "fq_exec leak (FPop i) s = (if fpc s i = FIdle then Some (fgo i FHeadLoad s) else None)"
| "fq_exec leak (FAlloc i a g) s = fq_alloc_step i a g s"
| "fq_exec leak (FPushStep i) s = fq_push_step i s"
| "fq_exec leak (FPopStep i) s = fq_pop_step leak i s"
| "fq_exec leak (FCountStep i) s = count_step i s"

section \<open>Runs\<close>

lemmas fq_defs = lock_free_queue_def crush_que_def fresh_node_def fgo_def at_fnode_def fput_def drop_ref_def
  release_ref_def free_external_counter_def count_step_def set_new_tail_def fq_alloc_step_def
  fq_push_step_def fq_pop_step_def increase_external_count_def Let_def

text \<open>
  Thread 2 reads the tail for \<open>push(2)\<close>; thread 1 completes \<open>push(1)\<close> and thread 3 a pop of 1, which
  nulls the data of the node; thread 2 then stores its value in this node and returns.
\<close>

definition lost_push :: "nat fq_event list" where
  "lost_push = [FPush 2 2, FAlloc 2 2 None, FPushStep 2, FPushStep 2, FPush 1 1, FAlloc 1 1 None] @
     replicate 6 (FPushStep 1) @ FCountStep 1 # FPop 3 # replicate 6 (FPopStep 3) @ FCountStep 3 #
     replicate 5 (FPushStep 2) @ replicate 2 (FCountStep 2)"

text \<open>One thread: \<open>pop\<close> of an empty queue; \<open>push(v)\<close>; \<open>pop\<close> of an element.\<close>

definition empty_pop :: "nat \<Rightarrow> bool \<Rightarrow> 'a fq_event list" where
  "empty_pop i leak = FPop i # replicate 3 (FPopStep i) @ (if leak then [] else [FCountStep i])"

definition one_push :: "nat \<Rightarrow> nat \<Rightarrow> 'a \<Rightarrow> 'a fq_event list" where
  "one_push i a v = [FPush i v, FAlloc i a None] @ replicate 6 (FPushStep i) @ [FCountStep i]"

definition one_pop :: "nat \<Rightarrow> 'a fq_event list" where
  "one_pop i = FPop i # replicate 6 (FPopStep i) @ [FCountStep i]"

text \<open>
  C24. The lock-free queue loses a value: after two pushes that have returned and one pop, which got
  the first value, no call is under way, and the next pop finds the queue empty.
\<close>

theorem lock_free_queue_loses_value:
  "\<exists>s. run (fq_exec False) lost_push (lock_free_queue 0 None) = Some s \<and>
     (\<forall>i. fpc s i = FIdle) \<and> fpushed s = [1, 2] \<and> fpopped s = [Some 1] \<and> fempty s = 0 \<and>
     (\<exists>t. run (fq_exec False) (empty_pop 3 False) s = Some t \<and>
        (\<forall>i. fpc t i = FIdle) \<and> fpopped t = [Some 1] \<and> fempty t = 1)"
  by (simp add: lost_push_def empty_pop_def fq_defs numeral_eq_Suc)

text \<open>
  C40. \<open>memoryleakque.h\<close> omits \<open>release_ref\<close> when the queue is empty: after \<open>pop\<close>, \<open>push(v)\<close>, \<open>pop\<close> by
  one thread the first node stays allocated although it has left the queue, whereas the
  corrected class has freed it.
\<close>

theorem memory_leak_que_leaks:
  "\<exists>s. run (fq_exec leak) (empty_pop 0 leak @ one_push 0 1 v @ one_pop 0 @ (if leak then [] else [FCountStep 0]))
       (lock_free_queue 0 None) = Some s \<and>
     (\<forall>i. fpc s i = FIdle) \<and> fpopped s = [Some v] \<and> fempty s = 1 \<and> fhead s = (1, Some 1) \<and>
     (fheap s 0 \<noteq> None \<longleftrightarrow> leak)"
  by (cases leak) (simp_all add: empty_pop_def one_push_def one_pop_def fq_defs numeral_eq_Suc)

text \<open>
  Initialisation: the first \<open>push\<close> on a \<open>crush_que\<close>, whose constructor sets neither pointer,
  dereferences a null pointer if the memory was zero; and since the constructor of \<open>node\<close> does not
  set \<open>data\<close>, a non-null content of the first node makes \<open>push\<close> skip it and the first \<open>pop\<close> return
  it in place of the value pushed.
\<close>

theorem queue_uninitialised:
  "(\<exists>s. run (fq_exec False) [FPush 0 v, FAlloc 0 1 None, FPushStep 0, FPushStep 0] crush_que = Some s \<and> fbad s) \<and>
   (\<exists>s. run (fq_exec False) ([FPush 0 v, FAlloc 0 1 None] @ replicate 4 (FPushStep 0) @ FAlloc 0 2 None #
       FPushStep 0 # FCountStep 0 # replicate 6 (FPushStep 0) @ FCountStep 0 # one_pop 0 @ [FCountStep 0])
       (lock_free_queue 0 (Some w)) = Some s \<and>
     (\<forall>i. fpc s i = FIdle) \<and> fpushed s = [v] \<and> fpopped s = [Some w])"
  by (simp_all add: one_pop_def fq_defs numeral_eq_Suc)

end
