(* ===== verification/LockFreeQueueInv.thy ===== *)
theory LockFreeQueueInv
  imports LockFreeQueue
begin

text \<open>
  The invariant of the machine of \<open>LockFreeQueue\<close>: the two counters of a node agree with the
  threads that hold references to it and with the counted pointers that still lead to it, for
  any number of threads up to \<open>2 ^ 30 - 1\<close>, which is what the width of \<open>internal_count\<close> bears.
\<close>

section \<open>Counting threads\<close>

definition max_threads :: nat where
  "max_threads = 2 ^ 30 - 1"

definition tally :: "('a fpc \<Rightarrow> int) \<Rightarrow> (nat \<Rightarrow> 'a fpc) \<Rightarrow> int" where
  "tally g pc = (\<Sum>i<max_threads. g (pc i))"

lemma tally_upd:
  assumes "i < max_threads"
  shows "tally g (pc(i := c)) = tally g pc - g (pc i) + g c"
proof -
  have split: "tally g f = g (f i) + (\<Sum>j\<in>{..<max_threads} - {i}. g (f j))" for f
    unfolding tally_def using assms by (intro sum.remove) auto
  have "(\<Sum>j\<in>{..<max_threads} - {i}. g ((pc(i := c)) j)) = (\<Sum>j\<in>{..<max_threads} - {i}. g (pc j))"
    by (rule sum.cong) auto
  then show ?thesis unfolding split [of pc] split [of "pc(i := c)"] by (simp only: fun_upd_same)
qed

lemma tally_mono: "(\<And>c. f c \<le> g c) \<Longrightarrow> tally f pc \<le> tally g pc"
  by (simp add: tally_def sum_mono)

lemma tally_nonneg: "(\<And>c. 0 \<le> g c) \<Longrightarrow> 0 \<le> tally g pc"
  by (simp add: tally_def sum_nonneg)

lemma tally_ge: "(\<And>c. 0 \<le> g c) \<Longrightarrow> i < max_threads \<Longrightarrow> g (pc i) \<le> tally g pc"
  unfolding tally_def by (rule member_le_sum) auto

lemma tally_zero: "(\<And>c. 0 \<le> g c) \<Longrightarrow> tally g pc = 0 \<Longrightarrow> (\<And>c. g c = 0 \<Longrightarrow> f c = 0) \<Longrightarrow> tally f pc = 0"
  by (simp add: tally_def sum_nonneg_eq_0_iff)

text \<open>The node a thread holds a reference to, and the pointer it has taken over to give up.\<close>

fun fref :: "'a fpc \<Rightarrow> nat option" where
  "fref (FDataCas v nn e x) = Some x"
| "fref (FNextLoad nn e x) = Some x"
| "fref (FNextCas nn e x) = Some x"
| "fref (FDelNew nn e x nx) = Some x"
| "fref (FElseNext v nn e x) = Some x"
| "fref (FElseNew v e x nx) = Some x"
| "fref (FSetTail x old new r) = Some x"
| "fref (FTailTest e x) = Some x"
| "fref (FPopNext e x) = Some x"
| "fref (FHeadCas e x nx) = Some x"
| "fref (FTake e x v) = Some x"
| "fref (FRelease x k) = Some x"
| "fref (FFree e x k) = Some x"
| "fref _ = None"

fun ffree :: "'a fpc \<Rightarrow> (int \<times> nat) option" where
  "ffree (FTake e x v) = Some (e, x)"
| "ffree (FFree e x k) = Some (e, x)"
| "ffree _ = None"

definition refs :: "(nat \<Rightarrow> 'a fpc) \<Rightarrow> nat \<Rightarrow> int" where
  "refs pc x = tally (\<lambda>c. of_bool (fref c = Some x)) pc"

definition frees :: "(nat \<Rightarrow> 'a fpc) \<Rightarrow> nat \<Rightarrow> int" where
  "frees pc x = tally (\<lambda>c. of_bool (\<exists>e. ffree c = Some (e, x))) pc"

definition freed :: "(nat \<Rightarrow> 'a fpc) \<Rightarrow> nat \<Rightarrow> int" where
  "freed pc x = tally (\<lambda>c. case ffree c of Some (e, y) \<Rightarrow> if y = x then e - 1 else 0 | None \<Rightarrow> 0) pc"

lemma ffree_fref: "ffree c = Some (e, x) \<Longrightarrow> fref c = Some x"
  by (cases c) auto

lemma refs_bounds: "0 \<le> refs pc x" "refs pc x < 2 ^ 30" "0 \<le> frees pc x" "frees pc x \<le> refs pc x"
proof -
  have "refs pc x \<le> (\<Sum>i<max_threads. 1)"
    unfolding refs_def tally_def by (rule sum_mono) simp
  also have "\<dots> < 2 ^ 30" by (simp add: max_threads_def)
  finally show "refs pc x < 2 ^ 30" .
  show "frees pc x \<le> refs pc x"
    unfolding refs_def frees_def by (rule tally_mono) (auto dest: ffree_fref)
qed (simp_all add: refs_def frees_def tally_nonneg)

lemma frees_zero: "frees pc x = 0 \<Longrightarrow> freed pc x = 0"
  unfolding frees_def freed_def
  by (erule tally_zero [rotated]) (auto split: option.splits)

lemma fq_refs_upd:
  assumes "i < max_threads"
  shows "refs (pc(i := c)) x = refs pc x - of_bool (fref (pc i) = Some x) + of_bool (fref c = Some x)"
    "frees (pc(i := c)) x = frees pc x - of_bool (\<exists>e. ffree (pc i) = Some (e, x)) + of_bool (\<exists>e. ffree c = Some (e, x))"
    "freed (pc(i := c)) x = freed pc x -
       (case ffree (pc i) of Some (e, y) \<Rightarrow> if y = x then e - 1 else 0 | None \<Rightarrow> 0) +
       (case ffree c of Some (e, y) \<Rightarrow> if y = x then e - 1 else 0 | None \<Rightarrow> 0)"
  by (simp_all add: refs_def frees_def freed_def tally_upd [OF assms])

lemma fq_refs_pos:
  assumes "i < max_threads"
  shows "fref (pc i) = Some x \<Longrightarrow> 0 < refs pc x" "ffree (pc i) = Some (e, x) \<Longrightarrow> 0 < frees pc x"
  using tally_ge [OF _ assms, of "\<lambda>c. of_bool (fref c = Some x)" pc]
    tally_ge [OF _ assms, of "\<lambda>c. of_bool (\<exists>e. ffree c = Some (e, x))" pc]
  by (auto simp: refs_def frees_def)

section \<open>The invariant\<close>

text \<open>
  A node is in the chain from the head, has left it (taken by a thread until its data is out), or
  is owned by a thread, which has just made it or is about to delete it. The place is a ghost.
\<close>

datatype fplace = FChain | FGone | FTaken nat | FOwn nat

definition shared :: "(nat \<Rightarrow> fplace option) \<Rightarrow> nat \<Rightarrow> bool" where
  "shared pl x \<longleftrightarrow> pl x \<noteq> None \<and> (\<forall>j. pl x \<noteq> Some (FOwn j))"

fun fpriv :: "'a fpc \<Rightarrow> nat set" where
  "fpriv (FTailLoad v nn) = {nn}"
| "fpriv (FIncTail v nn old) = {nn}"
| "fpriv (FDataCas v nn e x) = {nn}"
| "fpriv (FNextLoad nn e x) = {nn}"
| "fpriv (FNextCas nn e x) = {nn}"
| "fpriv (FDelNew nn e x nx) = {nn}"
| "fpriv (FElseNext v nn e x) = {nn}"
| "fpriv (FSetTail x old new r) = (case r of Some (v, nn) \<Rightarrow> {nn} | None \<Rightarrow> {})"
| "fpriv (FRelease x k) = fpriv k"
| "fpriv (FFree e x k) = fpriv k"
| "fpriv (FDelete x k) = fpriv k"
| "fpriv _ = {}"

fun fdel :: "'a fpc \<Rightarrow> nat set" where
  "fdel (FDelete x k) = {x}"
| "fdel _ = {}"

text \<open>The next pointer a thread has read or set, which does not change any more.\<close>

fun flink :: "'a fpc \<Rightarrow> (nat \<times> cptr) option" where
  "flink (FDelNew nn e x nx) = Some (x, nx)"
| "flink (FElseNew v e x nx) = Some (x, nx)"
| "flink (FSetTail x old new r) = Some (x, new)"
| "flink (FHeadCas e x nx) = Some (x, nx)"
| "flink _ = None"

text \<open>Nodes before the tail, nodes whose data has been set, nodes whose data is being taken.\<close>

fun fpast :: "'a fpc \<Rightarrow> nat option" where
  "fpast (FPopNext e x) = Some x"
| "fpast (FHeadCas e x nx) = Some x"
| "fpast _ = None"

fun fstored :: "'a fpc \<Rightarrow> nat option" where
  "fstored (FNextLoad nn e x) = Some x"
| "fstored (FNextCas nn e x) = Some x"
| "fstored (FElseNext v nn e x) = Some x"
| "fstored _ = None"

fun ftake :: "'a fpc \<Rightarrow> (nat \<times> 'a option) option" where
  "ftake (FTake e x v) = Some (x, v)"
| "ftake _ = None"

text \<open>What may follow a release.\<close>

fun fcont :: "'a fpc \<Rightarrow> bool" where
  "fcont FIdle = True"
| "fcont (FIncTail v nn old) = True"
| "fcont (FIncHead old) = True"
| "fcont _ = False"

fun fshape :: "'a fpc \<Rightarrow> bool" where
  "fshape (FSetTail x old new r) = (snd old = Some x)"
| "fshape (FRelease x k) = fcont k"
| "fshape (FFree e x k) = fcont k"
| "fshape (FDelete x k) = (fcont k \<and> x \<notin> fpriv k)"
| "fshape _ = True"

lemma fcont_simps: "fcont k \<Longrightarrow> fref k = None \<and> ffree k = None \<and> flink k = None \<and> fpast k = None \<and>
    fstored k = None \<and> ftake k = None \<and> fdel k = {} \<and> fshape k"
  by (cases k) auto

definition fthread :: "'a fq \<Rightarrow> (nat \<Rightarrow> fplace option) \<Rightarrow> nat \<Rightarrow> nat list \<Rightarrow> nat \<Rightarrow> 'a fpc \<Rightarrow> bool" where
  "fthread s pl t R i c \<longleftrightarrow> fshape c \<and>
     (\<forall>x\<in>fpriv c. pl x = Some (FOwn i) \<and> (\<exists>g. fheap s x = Some (fresh_node g))) \<and>
     (\<forall>x\<in>fdel c. pl x = Some (FOwn i)) \<and>
     (\<forall>x. pl x = Some (FOwn i) \<longrightarrow> x \<in> fpriv c \<union> fdel c) \<and>
     (\<forall>x. fref c = Some x \<longrightarrow> shared pl x \<and> x \<notin> set R) \<and>
     (\<forall>x nx. flink c = Some (x, nx) \<longrightarrow> nx \<noteq> (0, None) \<and> (\<exists>n. fheap s x = Some n \<and> fnext n = nx)) \<and>
     (\<forall>x. fpast c = Some x \<longrightarrow> x \<noteq> t) \<and>
     (\<forall>x. fstored c = Some x \<and> pl x = Some FChain \<longrightarrow> (\<exists>n. fheap s x = Some n \<and> fdata n \<noteq> None)) \<and>
     (\<forall>x v. ftake c = Some (x, v) \<longrightarrow> pl x = Some (FTaken i) \<and> v \<noteq> None \<and> (\<exists>n. fheap s x = Some n \<and> fdata n = v))"

fun fseg :: "(nat \<Rightarrow> 'a fnode option) \<Rightarrow> nat list \<Rightarrow> bool" where
  "fseg h [] = True"
| "fseg h [x] = (\<exists>n. h x = Some n \<and> fnext n = (0, None))"
| "fseg h (x # y # ys) = ((\<exists>n. h x = Some n \<and> fnext n = (1, Some y)) \<and> fseg h (y # ys))"

definition side :: "cptr \<Rightarrow> nat \<Rightarrow> int" where
  "side p x = (if snd p = Some x then fst p - 1 else 0)"

definition exts :: "nat list \<Rightarrow> nat list \<Rightarrow> (nat \<Rightarrow> 'a fpc) \<Rightarrow> nat \<Rightarrow> int" where
  "exts S T pc x = of_bool (x \<in> set S) + of_bool (x \<in> set T) + frees pc x"

definition node_ok :: "'a fq \<Rightarrow> nat list \<Rightarrow> nat list \<Rightarrow> nat \<Rightarrow> bool" where
  "node_ok s S T x \<longleftrightarrow> (\<exists>n. fheap s x = Some n \<and>
     of_int (refs (fpc s) x) = internal_count n + of_int (side (fhead s) x + side (ftail s) x + freed (fpc s) x) \<and>
     external_counters n = of_int (exts S T (fpc s) x) \<and> exts S T (fpc s) x \<le> 2 \<and>
     (x \<notin> set S \<longrightarrow> 0 < refs (fpc s) x \<and> fnext n \<noteq> (0, None)))"

definition fq_rep :: "'a fq \<Rightarrow> (nat \<Rightarrow> fplace option) \<Rightarrow> nat list \<Rightarrow> nat \<Rightarrow> nat list \<Rightarrow> bool" where
  "fq_rep s pl A t R \<longleftrightarrow>
     fseg (fheap s) (A @ t # R) \<and> distinct (A @ t # R) \<and> snd (fhead s) = Some (hd (A @ t # R)) \<and>
     snd (ftail s) = Some t \<and> length R \<le> 1 \<and>
     (\<forall>x. pl x = Some FChain \<longleftrightarrow> x \<in> set (A @ t # R)) \<and> (\<forall>x. pl x = None \<longleftrightarrow> fheap s x = None) \<and>
     (\<forall>x. shared pl x \<longrightarrow> node_ok s (A @ t # R) (t # R) x) \<and>
     (\<forall>x n. pl x = Some FChain \<and> fheap s x = Some n \<and> fnext n \<noteq> (0, None) \<longrightarrow> fdata n \<noteq> None) \<and>
     (\<forall>i\<ge>max_threads. fpc s i = FIdle) \<and> (\<forall>i. fthread s pl t R i (fpc s i))"

definition fq_inv :: "'a fq \<Rightarrow> bool" where
  "fq_inv s \<longleftrightarrow> \<not> fbad s \<and> None \<notin> set (fpopped s) \<and> (\<exists>pl A t R. fq_rep s pl A t R)"

lemma fq_repD:
  assumes "fq_rep s pl A t R"
  shows "fseg (fheap s) (A @ t # R)" "distinct (A @ t # R)" "snd (fhead s) = Some (hd (A @ t # R))"
    "snd (ftail s) = Some t" "length R \<le> 1" "pl x = Some FChain \<longleftrightarrow> x \<in> set (A @ t # R)"
    "pl x = None \<longleftrightarrow> fheap s x = None" "shared pl x \<Longrightarrow> node_ok s (A @ t # R) (t # R) x"
    "pl x = Some FChain \<Longrightarrow> fheap s x = Some n \<Longrightarrow> fnext n \<noteq> (0, None) \<Longrightarrow> fdata n \<noteq> None"
    "fpc s i \<noteq> FIdle \<Longrightarrow> i < max_threads" "fthread s pl t R i (fpc s i)"
  using assms unfolding fq_rep_def by (blast, blast, blast, blast, blast, blast, blast, blast, blast,
    (meson not_le_imp_less), blast)

lemma fthreadD:
  assumes "fthread s pl t R i c"
  shows "fshape c" "x \<in> fpriv c \<Longrightarrow> pl x = Some (FOwn i)" "x \<in> fpriv c \<Longrightarrow> \<exists>g. fheap s x = Some (fresh_node g)"
    "x \<in> fdel c \<Longrightarrow> pl x = Some (FOwn i)" "fref c = Some x \<Longrightarrow> shared pl x" "fref c = Some x \<Longrightarrow> x \<notin> set R"
    "flink c = Some (x, nx) \<Longrightarrow> nx \<noteq> (0, None)" "flink c = Some (x, nx) \<Longrightarrow> \<exists>n. fheap s x = Some n \<and> fnext n = nx"
    "fpast c = Some x \<Longrightarrow> x \<noteq> t"
    "fstored c = Some x \<Longrightarrow> pl x = Some FChain \<Longrightarrow> \<exists>n. fheap s x = Some n \<and> fdata n \<noteq> None"
    "ftake c = Some (x, v) \<Longrightarrow> pl x = Some (FTaken i)" "ftake c = Some (x, v) \<Longrightarrow> v \<noteq> None"
    "ftake c = Some (x, v) \<Longrightarrow> \<exists>n. fheap s x = Some n \<and> fdata n = v"
    "pl x = Some (FOwn i) \<Longrightarrow> x \<in> fpriv c \<union> fdel c"
  using assms unfolding fthread_def by blast+

lemma fref_of:
  "flink c = Some (x, nx) \<Longrightarrow> fref c = Some x" "fpast c = Some x \<Longrightarrow> fref c = Some x"
  "fstored c = Some x \<Longrightarrow> fref c = Some x" "ftake c = Some (x, v) \<Longrightarrow> fref c = Some x"
  by (cases c; simp)+

text \<open>What a step of thread \<open>i\<close> leaves to the other threads.\<close>

definition keeps :: "nat \<Rightarrow> 'a fq \<Rightarrow> (nat \<Rightarrow> fplace option) \<Rightarrow> nat \<Rightarrow> nat list \<Rightarrow>
    'a fq \<Rightarrow> (nat \<Rightarrow> fplace option) \<Rightarrow> nat \<Rightarrow> nat list \<Rightarrow> bool" where
  "keeps i s pl t R u pl' t' R' \<longleftrightarrow>
     (\<forall>x j. j \<noteq> i \<and> pl x = Some (FOwn j) \<longrightarrow> pl' x = pl x \<and> fheap u x = fheap s x) \<and>
     (\<forall>x j. j \<noteq> i \<and> fref (fpc s j) = Some x \<and> shared pl x \<longrightarrow> shared pl' x) \<and>
     (\<forall>x. shared pl x \<and> x \<notin> set R \<longrightarrow> x \<notin> set R' \<and> (x \<noteq> t \<longrightarrow> x \<noteq> t')) \<and>
     (\<forall>x n. shared pl x \<and> shared pl' x \<and> fheap s x = Some n \<longrightarrow> (\<exists>n'. fheap u x = Some n' \<and>
        (fnext n \<noteq> (0, None) \<longrightarrow> fnext n' = fnext n) \<and>
        (fdata n \<noteq> None \<and> pl x \<noteq> Some (FTaken i) \<longrightarrow> fdata n' = fdata n))) \<and>
     (\<forall>x. shared pl x \<and> pl' x = Some FChain \<longrightarrow> pl x = Some FChain) \<and>
     (\<forall>x j. j \<noteq> i \<and> fref (fpc s j) = Some x \<and> pl x = Some (FTaken j) \<longrightarrow> pl' x = pl x) \<and>
     (\<forall>x j. j \<noteq> i \<and> pl' x = Some (FOwn j) \<longrightarrow> pl x = Some (FOwn j))"

lemma keepsD:
  assumes "keeps i s pl t R u pl' t' R'"
  shows "j \<noteq> i \<Longrightarrow> pl x = Some (FOwn j) \<Longrightarrow> pl' x = pl x \<and> fheap u x = fheap s x"
    "j \<noteq> i \<Longrightarrow> fref (fpc s j) = Some x \<Longrightarrow> shared pl x \<Longrightarrow> shared pl' x"
    "shared pl x \<Longrightarrow> x \<notin> set R \<Longrightarrow> x \<notin> set R' \<and> (x \<noteq> t \<longrightarrow> x \<noteq> t')"
    "shared pl x \<Longrightarrow> shared pl' x \<Longrightarrow> fheap s x = Some n \<Longrightarrow> \<exists>n'. fheap u x = Some n' \<and>
        (fnext n \<noteq> (0, None) \<longrightarrow> fnext n' = fnext n) \<and>
        (fdata n \<noteq> None \<and> pl x \<noteq> Some (FTaken i) \<longrightarrow> fdata n' = fdata n)"
    "shared pl x \<Longrightarrow> pl' x = Some FChain \<Longrightarrow> pl x = Some FChain"
    "j \<noteq> i \<Longrightarrow> fref (fpc s j) = Some x \<Longrightarrow> pl x = Some (FTaken j) \<Longrightarrow> pl' x = pl x"
    "j \<noteq> i \<Longrightarrow> pl' x = Some (FOwn j) \<Longrightarrow> pl x = Some (FOwn j)"
  using assms unfolding keeps_def by (blast, blast, blast, blast, blast, blast, blast)

lemma fthread_frame:
  assumes th: "fthread s pl t R j (fpc s j)" and j: "j \<noteq> i" and k: "keeps i s pl t R u pl' t' R'"
  shows "fthread u pl' t' R' j (fpc s j)"
proof -
  note d = fthreadD [OF th] and k = keepsD [OF k]
  show ?thesis
    unfolding fthread_def
  proof (intro conjI allI ballI impI)
    show "fshape (fpc s j)" by (rule d(1))
    show "pl' x = Some (FOwn j)" "\<exists>g. fheap u x = Some (fresh_node g)" if "x \<in> fpriv (fpc s j)" for x
      using k(1) [OF j d(2) [OF that]] d(2,3) [OF that] by auto
    show "pl' x = Some (FOwn j)" if "x \<in> fdel (fpc s j)" for x
      using k(1) [OF j d(4) [OF that]] d(4) [OF that] by auto
    show "x \<in> fpriv (fpc s j) \<union> fdel (fpc s j)" if "pl' x = Some (FOwn j)" for x
      using d(14) [OF k(7) [OF j that]] .
    show "shared pl' x" "x \<notin> set R'" if "fref (fpc s j) = Some x" for x
      using k(2) [OF j that d(5) [OF that]] k(3) [OF d(5,6) [OF that]] by auto
    show "nx \<noteq> (0, None)" if "flink (fpc s j) = Some (x, nx)" for x nx using d(7) [OF that] .
    show "\<exists>n. fheap u x = Some n \<and> fnext n = nx" if l: "flink (fpc s j) = Some (x, nx)" for x nx
    proof -
      note f = fref_of(1) [OF l]
      obtain n where "fheap s x = Some n" "fnext n = nx" using d(8) [OF l] by blast
      with k(4) [OF d(5) [OF f] k(2) [OF j f d(5) [OF f]]] d(7) [OF l] show ?thesis by metis
    qed
    show "x \<noteq> t'" if l: "fpast (fpc s j) = Some x" for x
      using k(3) [OF d(5,6) [OF fref_of(2) [OF l]]] d(9) [OF l] by blast
    show "\<exists>n. fheap u x = Some n \<and> fdata n \<noteq> None" if l: "fstored (fpc s j) = Some x \<and> pl' x = Some FChain" for x
    proof -
      from l have f: "fref (fpc s j) = Some x" by (intro fref_of(3)) blast
      have c: "pl x = Some FChain" using k(5) [OF d(5) [OF f]] l by blast
      then obtain n where "fheap s x = Some n" "fdata n \<noteq> None" using d(10) l by blast
      with k(4) [OF d(5) [OF f] k(2) [OF j f d(5) [OF f]]] c show ?thesis by fastforce
    qed
    show "pl' x = Some (FTaken j)" if l: "ftake (fpc s j) = Some (x, v)" for x v
      using k(6) [OF j fref_of(4) [OF l] d(11) [OF l]] d(11) [OF l] by simp
    show "v \<noteq> None" if "ftake (fpc s j) = Some (x, v)" for x v using d(12) [OF that] .
    show "\<exists>n. fheap u x = Some n \<and> fdata n = v" if l: "ftake (fpc s j) = Some (x, v)" for x v
    proof -
      note f = fref_of(4) [OF l]
      obtain n where "fheap s x = Some n" "fdata n = v" using d(13) [OF l] by blast
      with k(4) [OF d(5) [OF f] k(2) [OF j f d(5) [OF f]]] d(11,12) [OF l] j show ?thesis by fastforce
    qed
  qed
qed

lemma counts_same:
  assumes "i < max_threads" "fref c = Some x \<longleftrightarrow> fref (pc i) = Some x"
    "\<forall>e. ffree c = Some (e, x) \<longleftrightarrow> ffree (pc i) = Some (e, x)"
  shows "refs (pc(i := c)) x = refs pc x" "frees (pc(i := c)) x = frees pc x" "freed (pc(i := c)) x = freed pc x"
proof -
  have "(case ffree c of Some (e, y) \<Rightarrow> if y = x then e - 1 else 0 | None \<Rightarrow> 0) =
      (case ffree (pc i) of Some (e, y) \<Rightarrow> if y = x then e - 1 else (0 :: int) | None \<Rightarrow> 0)"
    using assms(3) by (auto split: option.splits)
  then show "freed (pc(i := c)) x = freed pc x" using fq_refs_upd(3) [OF assms(1), of pc c x] by simp
  show "refs (pc(i := c)) x = refs pc x" using fq_refs_upd(1) [OF assms(1), of pc c x] assms(2) by simp
  show "frees (pc(i := c)) x = frees pc x" using fq_refs_upd(2) [OF assms(1), of pc c x] assms(3) by simp
qed

lemma fq_step:
  assumes rep: "fq_rep s pl A t R" and i: "i < max_threads" and pc: "fpc u = (fpc s)(i := c')"
    and k: "keeps i s pl t R u pl' t' R'"
    and str: "fseg (fheap u) (A' @ t' # R')" "distinct (A' @ t' # R')" "snd (fhead u) = Some (hd (A' @ t' # R'))"
      "snd (ftail u) = Some t'" "length R' \<le> 1" "\<And>x. pl' x = Some FChain \<longleftrightarrow> x \<in> set (A' @ t' # R')"
      "\<And>x. pl' x = None \<longleftrightarrow> fheap u x = None"
    and ref: "\<And>x. x \<noteq> y \<Longrightarrow> fref c' = Some x \<longleftrightarrow> fref (fpc s i) = Some x"
      "\<And>x e. x \<noteq> y \<Longrightarrow> ffree c' = Some (e, x) \<longleftrightarrow> ffree (fpc s i) = Some (e, x)"
    and same: "\<And>x n. x \<noteq> y \<Longrightarrow> shared pl' x \<Longrightarrow> shared pl x \<and>
       (x \<in> set (A' @ t' # R') \<longleftrightarrow> x \<in> set (A @ t # R)) \<and> (x \<in> set (t' # R') \<longleftrightarrow> x \<in> set (t # R)) \<and>
       side (fhead u) x = side (fhead s) x \<and> side (ftail u) x = side (ftail s) x"
      "\<And>x n. x \<noteq> y \<Longrightarrow> shared pl' x \<Longrightarrow> fheap s x = Some n \<Longrightarrow> \<exists>n'. fheap u x = Some n' \<and>
         internal_count n' = internal_count n \<and> external_counters n' = external_counters n"
    and nodey: "shared pl' y \<Longrightarrow> node_ok u (A' @ t' # R') (t' # R') y"
    and data: "\<And>x n. pl' x = Some FChain \<Longrightarrow> fheap u x = Some n \<Longrightarrow> fnext n \<noteq> (0, None) \<Longrightarrow> fdata n \<noteq> None"
    and ti: "fthread u pl' t' R' i c'"
  shows "fq_rep u pl' A' t' R'"
proof -
  note r = fq_repD [OF rep] and k' = keepsD [OF k]
  have node: "node_ok u (A' @ t' # R') (t' # R') x" if sh: "shared pl' x" for x
  proof (cases "x = y")
    case False
    note e = same(1) [OF False sh]
    have "\<forall>e. ffree c' = Some (e, x) \<longleftrightarrow> ffree (fpc s i) = Some (e, x)" using ref(2) [OF False] by blast
    note c = counts_same [where pc = "fpc s", OF i ref(1) [OF False] this, folded pc]
    from r(8) [of x] e obtain n where n: "fheap s x = Some n"
      "of_int (refs (fpc s) x) = internal_count n + of_int (side (fhead s) x + side (ftail s) x + freed (fpc s) x)"
      "external_counters n = of_int (exts (A @ t # R) (t # R) (fpc s) x)" "exts (A @ t # R) (t # R) (fpc s) x \<le> 2"
      "x \<notin> set (A @ t # R) \<longrightarrow> 0 < refs (fpc s) x \<and> fnext n \<noteq> (0, None)"
      unfolding node_ok_def by blast
    obtain n' where n': "fheap u x = Some n'" "internal_count n' = internal_count n" "external_counters n' = external_counters n"
      using same(2) [OF False sh n(1)] by blast
    have nx: "fnext n \<noteq> (0, None) \<Longrightarrow> fnext n' \<noteq> (0, None)" using k'(4) [of x n] e sh n(1) n'(1) by auto
    have ex: "exts (A' @ t' # R') (t' # R') (fpc u) x = exts (A @ t # R) (t # R) (fpc s) x"
      unfolding exts_def c using e by simp
    show ?thesis
      unfolding node_ok_def ex c using n n' nx e by auto
  qed (use nodey sh in simp)
  have th: "fthread u pl' t' R' j (fpc u j)" for j
    using ti fthread_frame [OF r(11) _ k, of j] by (cases "j = i") (simp_all add: pc)
  have idle: "\<forall>j\<ge>max_threads. fpc u j = FIdle" using r(10) i by (auto simp: pc) (metis not_le)
  show ?thesis
    unfolding fq_rep_def using str node data th idle by blast
qed

lemma fq_invE:
  assumes "fq_inv s"
  obtains pl A t R where "fq_rep s pl A t R" "\<not> fbad s" "None \<notin> set (fpopped s)"
  using assms by (auto simp: fq_inv_def)

lemma fq_invI: "fq_rep s pl A t R \<Longrightarrow> \<not> fbad s \<Longrightarrow> None \<notin> set (fpopped s) \<Longrightarrow> fq_inv s"
  unfolding fq_inv_def by blast

lemma keeps_refl: "fheap u = fheap s \<Longrightarrow> keeps i s pl t R u pl t R"
  by (simp add: keeps_def)

lemma fthread_cong: "fheap u = fheap s \<Longrightarrow> fthread u pl t R i c = fthread s pl t R i c"
  by (simp add: fthread_def)

lemma fq_go:
  assumes inv: "fq_inv s" and i: "i < max_threads"
    and ref: "\<And>x. fref c' = Some x \<longleftrightarrow> fref (fpc s i) = Some x" "\<And>e x. ffree c' = Some (e, x) \<longleftrightarrow> ffree (fpc s i) = Some (e, x)"
    and ti: "\<And>pl A t R. fq_rep s pl A t R \<Longrightarrow> fthread s pl t R i (fpc s i) \<Longrightarrow> fthread s pl t R i c'"
  shows "fq_inv (fgo i c' (s\<lparr>fempty := m\<rparr>))"
proof -
  obtain pl A t R where rep: "fq_rep s pl A t R" and ok: "\<not> fbad s" "None \<notin> set (fpopped s)"
    using inv by (rule fq_invE)
  note r = fq_repD [OF rep]
  define u where "u = fgo i c' (s\<lparr>fempty := m\<rparr>)"
  have u: "fheap u = fheap s" "fhead u = fhead s" "ftail u = ftail s" "fpc u = (fpc s)(i := c')"
    by (simp_all add: fgo_def u_def)
  note c = counts_same [where pc = "fpc s" and i = i and c = c', OF i ref(1), folded u(4)]
  have "fq_rep u pl A t R"
  proof (rule fq_step [OF rep i u(4) keeps_refl [OF u(1)], where y = undefined])
    show "fthread u pl t R i c'" using ti [OF rep r(11)] by (simp add: fthread_cong [OF u(1)])
    show "node_ok u (A @ t # R) (t # R) undefined" if "shared pl undefined"
      using r(8) [OF that] c ref(2) by (simp add: node_ok_def exts_def u)
  qed (use r ref in \<open>simp_all add: u\<close>)
  then show ?thesis unfolding u_def by (rule fq_invI) (use ok in \<open>simp_all add: fgo_def\<close>)
qed

lemma fq_go_same:
  assumes "fq_inv s" "i < max_threads"
    and "\<And>x. fref c' = Some x \<longleftrightarrow> fref (fpc s i) = Some x" "\<And>e x. ffree c' = Some (e, x) \<longleftrightarrow> ffree (fpc s i) = Some (e, x)"
    and "\<And>pl A t R. fq_rep s pl A t R \<Longrightarrow> fthread s pl t R i (fpc s i) \<Longrightarrow> fthread s pl t R i c'"
  shows "fq_inv (fgo i c' s)"
  using fq_go [OF assms, where m = "fempty s"] by simp

text \<open>A new reference through one of the two counted pointers.\<close>

lemma fq_inc_tail:
  assumes inv: "fq_inv s" and i: "i < max_threads" and c: "fpc s i = FIncTail v nn (e, Some x)" and tl: "ftail s = (e, Some x)"
  shows "fq_inv (fgo i (FDataCas v nn (e + 1) x) (s\<lparr>ftail := (e + 1, Some x)\<rparr>))"
proof -
  obtain pl A t R where rep: "fq_rep s pl A t R" and ok: "\<not> fbad s" "None \<notin> set (fpopped s)"
    using inv by (rule fq_invE)
  note r = fq_repD [OF rep] and d = fthreadD [OF fq_repD(11) [OF rep, where i = i]]
  let ?c = "FDataCas v nn (e + 1) x"
  define u where "u = fgo i ?c (s\<lparr>ftail := (e + 1, Some x)\<rparr>)"
  have u: "fheap u = fheap s" "fhead u = fhead s" "ftail u = (e + 1, Some x)" "fpc u = (fpc s)(i := ?c)"
    by (simp_all add: u_def fgo_def)
  have x: "x = t" using r(4) tl by simp
  then have pl: "pl x = Some FChain" using r(6) by simp
  then have sh: "shared pl x" by (simp add: shared_def)
  have xR: "x \<notin> set R" using r(2) x by simp
  note C = fq_refs_upd [OF i, of "fpc s" ?c x, folded u(4)]
  have "fq_rep u pl A t R"
  proof (rule fq_step [OF rep i u(4) keeps_refl [OF u(1)], where y = x])
    show "fthread u pl t R i ?c"
      unfolding fthread_cong [OF u(1)] fthread_def
    proof (intro conjI allI impI ballI)
      show "z \<in> fpriv ?c \<union> fdel ?c" if "pl z = Some (FOwn i)" for z using d(14) [OF that] c by simp
    qed (use d(2,3) [where x = nn] c sh xR in \<open>auto simp: u\<close>)
    show "node_ok u (A @ t # R) (t # R) x"
      using r(8) [OF sh] C c tl by (auto simp: node_ok_def exts_def u side_def)
  qed (use r c tl in \<open>auto simp: u side_def\<close>)
  then show ?thesis unfolding u_def by (rule fq_invI) (use ok in \<open>simp_all add: fgo_def\<close>)
qed

lemma fq_inc_head:
  assumes inv: "fq_inv s" and i: "i < max_threads" and c: "fpc s i = FIncHead (e, Some x)" and hd: "fhead s = (e, Some x)"
  shows "fq_inv (fgo i (FTailTest (e + 1) x) (s\<lparr>fhead := (e + 1, Some x)\<rparr>))"
proof -
  obtain pl A t R where rep: "fq_rep s pl A t R" and ok: "\<not> fbad s" "None \<notin> set (fpopped s)"
    using inv by (rule fq_invE)
  note r = fq_repD [OF rep] and d = fthreadD [OF fq_repD(11) [OF rep, where i = i]]
  let ?c = "FTailTest (e + 1) x"
  define u where "u = fgo i ?c (s\<lparr>fhead := (e + 1, Some x)\<rparr>)"
  have u: "fheap u = fheap s" "fhead u = (e + 1, Some x)" "ftail u = ftail s" "fpc u = (fpc s)(i := ?c)"
    by (simp_all add: u_def fgo_def)
  have x: "x = hd (A @ t # R)" using r(3) hd by simp
  then have pl: "pl x = Some FChain" using r(6) [of x] by (cases A) auto
  then have sh: "shared pl x" by (simp add: shared_def)
  have xR: "x \<notin> set R" using r(2) x by (cases A) auto
  note C = fq_refs_upd [OF i, of "fpc s" ?c x, folded u(4)]
  have "fq_rep u pl A t R"
  proof (rule fq_step [OF rep i u(4) keeps_refl [OF u(1)], where y = x])
    show "fthread u pl t R i ?c"
      using d(14) c sh xR unfolding fthread_cong [OF u(1)] by (auto simp: fthread_def)
    show "node_ok u (A @ t # R) (t # R) x"
      using r(8) [OF sh] C c hd by (auto simp: node_ok_def exts_def u side_def)
    show "snd (fhead u) = Some (hd (A @ t # R))" using x by (simp add: u)
  qed (use r(1,2,4-7,9) c hd in \<open>auto simp: u side_def\<close>)
  then show ?thesis unfolding u_def by (rule fq_invI) (use ok in \<open>simp_all add: fgo_def\<close>)
qed

text \<open>Writes to the data of a node.\<close>

lemma fseg_upd: "fseg h S \<Longrightarrow> h x = Some n \<Longrightarrow> fnext n' = fnext n \<Longrightarrow> fseg (h(x \<mapsto> n')) S"
  by (induction h S rule: fseg.induct) auto

lemma fseg_frame: "fseg h S \<Longrightarrow> \<forall>x\<in>set S. h' x = h x \<Longrightarrow> fseg h' S"
  by (induction h S rule: fseg.induct) auto

lemma fq_store:
  assumes inv: "fq_inv s" and i: "i < max_threads" and c: "fpc s i = FDataCas v nn e x"
    and n: "fheap s x = Some n" "fdata n = None"
  shows "fq_inv (fgo i (FNextLoad nn e x) (fput x (n\<lparr>fdata := Some v\<rparr>) s\<lparr>fpushed := fpushed s @ [v]\<rparr>))"
proof -
  obtain pl A t R where rep: "fq_rep s pl A t R" and ok: "\<not> fbad s" "None \<notin> set (fpopped s)"
    using inv by (rule fq_invE)
  note r = fq_repD [OF rep] and d = fthreadD [OF fq_repD(11) [OF rep, where i = i]]
  let ?c = "FNextLoad nn e x" and ?n = "n\<lparr>fdata := Some v\<rparr>"
  define u where "u = fgo i ?c (fput x ?n s\<lparr>fpushed := fpushed s @ [v]\<rparr>)"
  have u: "fheap u = (fheap s)(x \<mapsto> ?n)" "fhead u = fhead s" "ftail u = ftail s" "fpc u = (fpc s)(i := ?c)"
    by (simp_all add: u_def fgo_def fput_def)
  have x: "shared pl x" "x \<notin> set R" using d(5,6) [where x = x] c by simp_all
  have nn: "pl nn = Some (FOwn i)" "\<exists>g. fheap s nn = Some (fresh_node g)" using d(2,3) [where x = nn] c by simp_all
  have xn: "x \<noteq> nn" using x(1) nn(1) by (auto simp: shared_def)
  note C = counts_same [where pc = "fpc s" and c = ?c and i = i and x = x, OF i, folded u(4)]
  have "fq_rep u pl A t R"
  proof (rule fq_step [OF rep i u(4), where y = x])
    show "keeps i s pl t R u pl t R"
      using x(1) n by (auto simp: keeps_def u shared_def)
    show "fthread u pl t R i ?c"
      unfolding fthread_def
    proof (intro conjI allI impI ballI)
      show "z \<in> fpriv ?c \<union> fdel ?c" if "pl z = Some (FOwn i)" for z using d(14) [OF that] c by simp
    qed (use c x nn xn in \<open>auto simp: u\<close>)
    show "node_ok u (A @ t # R) (t # R) x"
      using r(8) [OF x(1)] C c n by (auto simp: node_ok_def exts_def u)
    show "fseg (fheap u) (A @ t # R)" unfolding u using r(1) n(1) by (rule fseg_upd) simp
  qed (use r(2-7,9) c n x in \<open>auto simp: u split: if_splits\<close>)
  then show ?thesis unfolding u_def by (rule fq_invI) (use ok in \<open>simp_all add: fgo_def fput_def\<close>)
qed

lemma fq_take:
  assumes inv: "fq_inv s" and i: "i < max_threads" and c: "fpc s i = FTake e x v" and n: "fheap s x = Some n"
  shows "fdata n = v \<and> fq_inv (fgo i (FFree e x FIdle) (fput x (n\<lparr>fdata := None\<rparr>) s))"
proof -
  obtain pl A t R where rep: "fq_rep s pl A t R" and ok: "\<not> fbad s" "None \<notin> set (fpopped s)"
    using inv by (rule fq_invE)
  note r = fq_repD [OF rep] and d = fthreadD [OF fq_repD(11) [OF rep, where i = i]]
  let ?c = "FFree e x FIdle" and ?n = "n\<lparr>fdata := None\<rparr>" and ?pl = "pl(x \<mapsto> FGone)"
  define u where "u = fgo i ?c (fput x ?n s)"
  have u: "fheap u = (fheap s)(x \<mapsto> ?n)" "fhead u = fhead s" "ftail u = ftail s" "fpc u = (fpc s)(i := ?c)"
    by (simp_all add: u_def fgo_def fput_def)
  have x: "shared pl x" "x \<notin> set R" using d(5,6) [where x = x] c by simp_all
  have t: "pl x = Some (FTaken i)" "fdata n = v" using d(11,13) [where x = x and v = v] c n by auto
  note C = counts_same [where pc = "fpc s" and c = ?c and i = i and x = x, OF i, folded u(4)]
  have "fq_rep u ?pl A t R"
  proof (rule fq_step [OF rep i u(4), where y = x])
    show "keeps i s pl t R u ?pl t R"
      using x(1) n t(1) by (auto simp: keeps_def u shared_def)
    show "fthread u ?pl t R i ?c"
      using d(14) c x by (auto simp: fthread_def u shared_def split: if_splits)
    show "node_ok u (A @ t # R) (t # R) x"
      using r(8) [OF x(1)] C c n by (auto simp: node_ok_def exts_def u)
    show "fseg (fheap u) (A @ t # R)" unfolding u using r(1) n(1) by (rule fseg_upd) simp
    show "?pl z = Some FChain \<longleftrightarrow> z \<in> set (A @ t # R)" for z using r(6) [of z] t(1) by auto
  qed (use r(2-5,7,9) c n x in \<open>auto simp: u shared_def split: if_splits\<close>)
  then have "fq_inv u" by (rule fq_invI) (use ok in \<open>simp_all add: u_def fgo_def fput_def\<close>)
  with t(2) show ?thesis by (simp add: u_def)
qed

text \<open>The node after the tail is linked.\<close>

lemma fseg_next:
  "fseg h (B @ x # C) \<Longrightarrow> h x = Some n \<Longrightarrow> fnext n = (case C of [] \<Rightarrow> (0, None) | y # ys \<Rightarrow> (1, Some y))"
  by (induction B rule: induct_list012) (auto split: list.splits)

lemma fseg_snoc:
  "fseg h (B @ [x]) \<Longrightarrow> h x = Some n \<Longrightarrow> x \<notin> set B \<Longrightarrow> y \<notin> set (B @ [x]) \<Longrightarrow> h y = Some m \<Longrightarrow> fnext m = (0, None) \<Longrightarrow>
   fseg (h(x \<mapsto> n\<lparr>fnext := (1, Some y)\<rparr>)) (B @ [x, y])"
  by (induction B rule: induct_list012) auto

lemma fq_link:
  assumes inv: "fq_inv s" and i: "i < max_threads"
    and c: "fpc s i = FNextCas nn e x \<and> c' = FSetTail x (e, Some x) (1, Some nn) None \<or>
      fpc s i = FElseNext v nn e x \<and> c' = FElseNew v e x (1, Some nn)"
    and n: "fheap s x = Some n" "fnext n = (0, None)"
  shows "fq_inv (fgo i c' (fput x (n\<lparr>fnext := (1, Some nn)\<rparr>) s))"
proof -
  obtain pl A t R where rep: "fq_rep s pl A t R" and ok: "\<not> fbad s" "None \<notin> set (fpopped s)"
    using inv by (rule fq_invE)
  note r = fq_repD [OF rep] and d = fthreadD [OF fq_repD(11) [OF rep, where i = i]]
  let ?n = "n\<lparr>fnext := (1, Some nn)\<rparr>" and ?pl = "pl(nn \<mapsto> FChain)"
  define u where "u = fgo i c' (fput x ?n s)"
  have u: "fheap u = (fheap s)(x \<mapsto> ?n)" "fhead u = fhead s" "ftail u = ftail s" "fpc u = (fpc s)(i := c')"
    by (simp_all add: u_def fgo_def fput_def)
  have rx: "fref (fpc s i) = Some x" "fref c' = Some x" "ffree (fpc s i) = None" "ffree c' = None"
    "fstored (fpc s i) = Some x" "nn \<in> fpriv (fpc s i)" using c by auto
  have x: "shared pl x" "x \<notin> set R" using d(5,6) rx by simp_all
  obtain g where nn: "pl nn = Some (FOwn i)" "fheap s nn = Some (fresh_node g)" using d(2,3) rx by blast
  have xn: "x \<noteq> nn" using x(1) nn(1) by (auto simp: shared_def)
  have xS: "x \<in> set (A @ t # R)" using r(8) [OF x(1)] n by (auto simp: node_ok_def)
  then obtain B C where S: "A @ t # R = B @ x # C" by (meson split_list)
  have "C = []" using fseg_next [of "fheap s" B x C n] r(1) S n by (cases C) auto
  have "x = t"
  proof (rule ccontr)
    assume "x \<noteq> t"
    have "last (t # R) = x" using S \<open>C = []\<close> by (metis last_appendR last_snoc list.distinct(1))
    with \<open>x \<noteq> t\<close> x(2) show False by (metis last.simps last_in_set)
  qed
  have R: "R = []" using S \<open>C = []\<close> \<open>x = t\<close> r(2) by (metis append.right_neutral append_Cons distinct_append last_appendR last_snoc list.distinct(1) last_in_set last_ConsR x(2))
  have data: "fdata n \<noteq> None" using d(10) [OF rx(5)] r(6) [of x] xS n by auto
  have nS: "nn \<notin> set (A @ [x])" using r(6) [of nn] nn R \<open>x = t\<close> by auto
  have plx: "pl x = Some FChain" using r(6) xS by simp
  note C = counts_same [where pc = "fpc s" and c = c' and i = i, OF i, folded u(4)]
  have "fq_rep u ?pl A t [nn]"
  proof (rule fq_step [OF rep i u(4), where y = nn])
    show "keeps i s pl t R u ?pl t [nn]"
      using x(1) n nn(1) R by (auto simp: keeps_def u shared_def)
    show "fthread u ?pl t [nn] i c'"
      unfolding fthread_def
    proof (intro conjI allI impI ballI)
      show "z \<in> fpriv c' \<union> fdel c'" if "?pl z = Some (FOwn i)" for z
        using d(14) [of z] c that by (auto split: if_splits)
    qed (use c x xn in \<open>auto simp: u shared_def\<close>)
    have "refs (fpc s) nn = 0"
    proof -
      have "fref (fpc s j) \<noteq> Some nn" for j
        using fthreadD(5) [OF r(11), of j nn] nn(1) by (auto simp: shared_def)
      then show ?thesis by (simp add: refs_def tally_def)
    qed
    moreover from this have "frees (fpc s) nn = 0" using refs_bounds(3,4) [of "fpc s" nn] by simp
    ultimately show "node_ok u (A @ t # [nn]) (t # [nn]) nn"
      using C [of nn] rx frees_zero [of "fpc s" nn] xn nn(2) r(3,4) R nS \<open>x = t\<close>
      by (auto simp: node_ok_def exts_def u fresh_node_def side_def hd_append)
    show "fseg (fheap u) (A @ t # [nn])"
      unfolding u using fseg_snoc [of "fheap s" A t n nn "fresh_node g"] r(1,2) n(1) nn(2) nS R \<open>x = t\<close>
      by (simp add: fresh_node_def)
    show "fdata m \<noteq> None" if "?pl z = Some FChain" "fheap u z = Some m" "fnext m \<noteq> (0, None)" for z m
    proof (cases "z = nn \<or> z = x")
      case False
      with that r(9) [of z m] show ?thesis by (simp add: u)
    qed (use that xn nn(2) data in \<open>auto simp: u fresh_node_def\<close>)
  qed (use r(2-5,6,7) rx n nn nS R \<open>x = t\<close> data in \<open>auto simp: u shared_def hd_append fresh_node_def split: if_splits\<close>)
  then show ?thesis unfolding u_def by (rule fq_invI) (use ok in \<open>simp_all add: fgo_def fput_def\<close>)
qed

text \<open>The tail moves to the node after it; the mover gives up the pointer it replaced.\<close>

lemma fcont_push_on [simp]: "fcont (push_on r old)"
  by (cases "(r, old)" rule: push_on.cases) auto

lemma fpriv_push_on [simp]: "fpriv (push_on r old) = (case r of Some (v, nn) \<Rightarrow> {nn} | None \<Rightarrow> {})"
  by (cases "(r, old)" rule: push_on.cases) auto

lemma fq_set_tail:
  assumes inv: "fq_inv s" and i: "i < max_threads" and c: "fpc s i = FSetTail x old new r" and tl: "ftail s = old"
  shows "fq_inv (fgo i (FFree (fst old) x (push_on r old)) (s\<lparr>ftail := new\<rparr>))"
proof -
  obtain pl A t R where rep: "fq_rep s pl A t R" and ok: "\<not> fbad s" "None \<notin> set (fpopped s)"
    using inv by (rule fq_invE)
  note rr = fq_repD [OF rep] and d = fthreadD [OF fq_repD(11) [OF rep, where i = i]]
  let ?c = "FFree (fst old) x (push_on r old)"
  define u where "u = fgo i ?c (s\<lparr>ftail := new\<rparr>)"
  have u: "fheap u = fheap s" "fhead u = fhead s" "ftail u = new" "fpc u = (fpc s)(i := ?c)"
    by (simp_all add: u_def fgo_def)
  have x: "shared pl x" "x \<notin> set R" "snd old = Some x" using d(1) d(5,6) [where x = x] c by simp_all
  have xt: "x = t" using x(3) rr(4) tl by simp
  obtain n where n: "fheap s x = Some n" "fnext n = new" "new \<noteq> (0, None)"
    using d(7,8) [where x = x and nx = new] c by auto
  then obtain y where R: "R = [y]" "new = (1, Some y)"
    using fseg_next [of "fheap s" A t R n] rr(1,5) xt by (cases R) auto
  have pl: "\<And>z. pl z = Some FChain \<longleftrightarrow> z \<in> set A \<or> z = t \<or> z = y" using rr(6) R by auto
  have priv: "\<forall>z\<in>fpriv ?c. pl z = Some (FOwn i) \<and> (\<exists>g. fheap s z = Some (fresh_node g))"
    using d(2,3) c by simp
  note C = fq_refs_upd [OF i, of "fpc s" ?c x, folded u(4)]
  have "fq_rep u pl (A @ [t]) y []"
  proof (rule fq_step [OF rep i u(4), where y = x])
    show "keeps i s pl t R u pl y []" using R by (auto simp: keeps_def u)
    show "fthread u pl y [] i ?c" using d(14) c x priv by (auto simp: fthread_def u)
    show "node_ok u ((A @ [t]) @ y # []) (y # []) x"
      using rr(8) [OF x(1)] C c n R xt tl rr(2) x(3) by (auto simp: node_ok_def exts_def u side_def)
    show "fseg (fheap u) ((A @ [t]) @ y # [])" "distinct ((A @ [t]) @ y # [])" "snd (fhead u) = Some (hd ((A @ [t]) @ y # []))"
      using rr(1-3) R by (simp_all add: u hd_append)
    show "pl z = Some FChain \<longleftrightarrow> z \<in> set ((A @ [t]) @ y # [])" for z using pl by auto
    show "shared pl z \<and> (z \<in> set ((A @ [t]) @ y # []) \<longleftrightarrow> z \<in> set (A @ t # R)) \<and> (z \<in> set (y # []) \<longleftrightarrow> z \<in> set (t # R)) \<and>
       side (fhead u) z = side (fhead s) z \<and> side (ftail u) z = side (ftail s) z" if "z \<noteq> x" "shared pl z" for z
      using that R x(3) tl xt by (auto simp: u side_def)
  qed (use rr(7,9) R c xt in \<open>auto simp: u\<close>)
  then show ?thesis unfolding u_def by (rule fq_invI) (use ok in \<open>simp_all add: fgo_def\<close>)
qed

text \<open>The first node leaves the queue.\<close>

lemma fq_take_head:
  assumes inv: "fq_inv s" and i: "i < max_threads" and c: "fpc s i = FHeadCas e x nx" and hd: "fhead s = (e, Some x)"
    and n: "fheap s x = Some n"
  shows "fq_inv (fgo i (FTake e x (fdata n)) (s\<lparr>fhead := nx, fpopped := fpopped s @ [fdata n]\<rparr>))"
proof -
  obtain pl A t R where rep: "fq_rep s pl A t R" and ok: "\<not> fbad s" "None \<notin> set (fpopped s)"
    using inv by (rule fq_invE)
  note r = fq_repD [OF rep] and d = fthreadD [OF fq_repD(11) [OF rep, where i = i]]
  let ?c = "FTake e x (fdata n)" and ?pl = "pl(x \<mapsto> FTaken i)"
  define u where "u = fgo i ?c (s\<lparr>fhead := nx, fpopped := fpopped s @ [fdata n]\<rparr>)"
  have u: "fheap u = fheap s" "fhead u = nx" "ftail u = ftail s" "fpc u = (fpc s)(i := ?c)"
    by (simp_all add: u_def fgo_def)
  have x: "shared pl x" "x \<notin> set R" "x \<noteq> t" using d(5,6,9) [where x = x] c by simp_all
  have nx: "fnext n = nx" "nx \<noteq> (0, None)" using d(7,8) [where x = x and nx = nx] c n by auto
  obtain A' where A: "A = x # A'" using r(3) hd x(3) by (cases A) auto
  obtain z where z: "nx = (1, Some z)" "z = List.hd (A' @ t # R)"
    using fseg_next [of "fheap s" "[]" x "A' @ t # R" n] r(1) A n nx by (cases A') auto
  have pl: "pl x = Some FChain" using r(6) A by simp
  have data: "fdata n \<noteq> None" using r(9) [OF pl n] nx by simp
  have xS: "x \<notin> set (A' @ t # R)" using r(2) A by simp
  note C = fq_refs_upd [OF i, of "fpc s" ?c x, folded u(4)]
  have "fq_rep u ?pl A' t R"
  proof (rule fq_step [OF rep i u(4), where y = x])
    show "keeps i s pl t R u ?pl t R" using pl by (auto simp: keeps_def u shared_def)
    show "fthread u ?pl t R i ?c"
      using d(14) c x data n by (auto simp: fthread_def u shared_def split: if_splits)
    have "0 < refs (fpc u) x" by (rule fq_refs_pos(1) [OF i]) (simp add: u)
    then show "node_ok u (A' @ t # R) (t # R) x"
      using r(8) [OF x(1)] C c n nx z A hd xS by (auto simp: node_ok_def exts_def u side_def)
    show "fseg (fheap u) (A' @ t # R)" using r(1) A by (cases A') (auto simp: u)
    show "?pl z = Some FChain \<longleftrightarrow> z \<in> set (A' @ t # R)" for z using r(6) [of z] A xS by auto
    show "shared pl y \<and> (y \<in> set (A' @ t # R) \<longleftrightarrow> y \<in> set (A @ t # R)) \<and> (y \<in> set (t # R) \<longleftrightarrow> y \<in> set (t # R)) \<and>
       side (fhead u) y = side (fhead s) y \<and> side (ftail u) y = side (ftail s) y" if "y \<noteq> x" "shared ?pl y" for y
      using that z hd A by (auto simp: u side_def shared_def)
  qed (use r(2,4,5,7,9) A z c n in \<open>auto simp: u split: if_splits\<close>)
  then show ?thesis unfolding u_def by (rule fq_invI) (use ok data in \<open>auto simp: fgo_def\<close>)
qed

text \<open>A reference or a pointer is given up: the counters of the node change.\<close>

lemma word_zero_int: "(of_int k :: 'a::len word) = 0 \<Longrightarrow> 0 \<le> k \<Longrightarrow> k < 2 ^ LENGTH('a) \<Longrightarrow> k = 0"
proof -
  have "(of_int k :: 'a word) = 0 \<longleftrightarrow> take_bit LENGTH('a) k = 0" by transfer simp
  then show "(of_int k :: 'a word) = 0 \<Longrightarrow> 0 \<le> k \<Longrightarrow> k < 2 ^ LENGTH('a) \<Longrightarrow> k = 0"
    by (simp add: take_bit_int_eq_self)
qed

lemma exts_zero: "exts S T pc x = 0 \<Longrightarrow> x \<notin> set S \<and> frees pc x = 0"
  using refs_bounds(3) [of pc x] unfolding exts_def by (cases "x \<in> set S"; cases "x \<in> set T") auto

lemma fq_drop:
  assumes inv: "fq_inv s" and i: "i < max_threads" and rx: "fref (fpc s i) = Some x" and n: "fheap s x = Some n"
    and m: "ffree (fpc s i) = None \<and> m = n\<lparr>internal_count := internal_count n - 1\<rparr> \<or>
      ffree (fpc s i) = Some (e, x) \<and> m = n\<lparr>external_counters := external_counters n - 1,
        internal_count := internal_count n + of_int (e - 2)\<rparr>"
    and k: "fcont k" "fpriv k = fpriv (fpc s i)"
  shows "fq_inv (drop_ref i x m k s)"
proof -
  obtain pl A t R where rep: "fq_rep s pl A t R" and ok: "\<not> fbad s" "None \<notin> set (fpopped s)"
    using inv by (rule fq_invE)
  note r = fq_repD [OF rep] and d = fthreadD [OF fq_repD(11) [OF rep, where i = i]] and k' = fcont_simps [OF k(1)]
  define c' where "c' = (if internal_count m = 0 \<and> external_counters m = 0 then FDelete x k else k)"
  have c': "fref c' = None" "ffree c' = None" "flink c' = None" "fpast c' = None" "fstored c' = None" "ftake c' = None"
    "fpriv c' = fpriv (fpc s i)" using k k' by (auto simp: c'_def)
  define u where "u = fgo i c' (fput x m s)"
  have u: "fheap u = (fheap s)(x \<mapsto> m)" "fhead u = fhead s" "ftail u = ftail s" "fpc u = (fpc s)(i := c')"
    by (simp_all add: u_def fgo_def fput_def)
  have x: "shared pl x" "x \<notin> set R" using d(5,6) [where x = x] rx by simp_all
  have priv: "pl z = Some (FOwn i)" "\<exists>g. fheap s z = Some (fresh_node g)" "z \<noteq> x" if "z \<in> fpriv c'" for z
    using d(2,3) [of z] that x(1) unfolding c'(7) by (auto simp: shared_def)
  have own: "z \<in> fpriv (fpc s i)" if "pl z = Some (FOwn i)" for z
    using d(14) [OF that] rx by (cases "fpc s i") auto
  note C = fq_refs_upd [OF i, of "fpc s" c' x, folded u(4)] and b = refs_bounds [where pc = "fpc u" and x = x]
  let ?S = "A @ t # R" and ?T = "t # R"
  have keep: "fdata m = fdata n" "fnext m = fnext n" using m by auto
  have bal: "of_int (refs (fpc u) x) = internal_count m + of_int (side (fhead s) x + side (ftail s) x + freed (fpc u) x)"
    "external_counters m = of_int (exts ?S ?T (fpc u) x)" "exts ?S ?T (fpc u) x \<le> 2"
    using r(8) [OF x(1)] C m n rx c' by (auto simp: node_ok_def exts_def)
  have exts0: "0 \<le> exts ?S ?T (fpc u) x" "frees (fpc u) x \<le> exts ?S ?T (fpc u) x" using b(3) by (auto simp: exts_def)
  have side0: "side (fhead s) x + side (ftail s) x = 0" if "x \<notin> set ?S"
    using that r(3,4) by (cases A) (auto simp: side_def)
  have gone: "x \<notin> set ?S \<and> refs (fpc u) x = 0" if z: "internal_count m = 0" "external_counters m = 0"
  proof -
    have ex: "exts ?S ?T (fpc u) x = 0" using word_zero_int [of "exts ?S ?T (fpc u) x", where 'a = 2] bal(2,3) z(2) exts0 by simp
    then have "x \<notin> set ?S" "frees (fpc u) x = 0" using exts_zero by blast+
    then have "(of_int (refs (fpc u) x) :: 30 word) = 0"
      using bal(1) z(1) side0 frees_zero [of "fpc u" x] by simp
    with b(1,2) \<open>x \<notin> set ?S\<close> show ?thesis using word_zero_int [of "refs (fpc u) x", where 'a = 30] by simp
  qed
  have stay: "0 < refs (fpc u) x" if "x \<notin> set ?S" "internal_count m \<noteq> 0 \<or> external_counters m \<noteq> 0"
  proof (rule ccontr)
    assume "\<not> 0 < refs (fpc u) x"
    then have z: "refs (fpc u) x = 0" "frees (fpc u) x = 0" using b by linarith+
    then have "exts ?S ?T (fpc u) x = 0" using that(1) by (simp add: exts_def)
    moreover have "internal_count m = 0" using bal(1) z side0 [OF that(1)] frees_zero [of "fpc u" x] by simp
    ultimately show False using that(2) bal(2) by simp
  qed
  show ?thesis
  proof (cases "internal_count m = 0 \<and> external_counters m = 0")
    case True
    then have g: "x \<notin> set ?S" "refs (fpc u) x = 0" using gone by auto
    let ?pl = "pl(x \<mapsto> FOwn i)"
    have alone: "fref (fpc s j) \<noteq> Some x" if "j \<noteq> i" for j
    proof
      assume f: "fref (fpc s j) = Some x"
      then have "j < max_threads" by (intro r(10)) auto
      with f that have "0 < refs (fpc u) x" by (intro fq_refs_pos(1) [of j]) (auto simp: u)
      with g show False by simp
    qed
    have "fq_rep u ?pl A t R"
    proof (rule fq_step [OF rep i u(4), where y = x])
      show "keeps i s pl t R u ?pl t R" using x(1) alone by (auto simp: keeps_def u shared_def)
      show "fthread u ?pl t R i c'"
        using priv own c' True k' k(1) unfolding fthread_def by (auto simp: u c'_def)
      show "fseg (fheap u) ?S" unfolding u using r(1) n keep(2) by (rule fseg_upd)
      show "?pl z = Some FChain \<longleftrightarrow> z \<in> set ?S" for z using r(6) [of z] g by auto
    qed (use r(2-5,7,9) n rx c' m in \<open>auto simp: u shared_def keep split: if_splits\<close>)
    then have "fq_inv u" by (rule fq_invI) (use ok in \<open>simp_all add: u_def fgo_def fput_def\<close>)
    then show ?thesis by (simp add: u_def c'_def drop_ref_def)
  next
    case False
    have "fq_rep u pl A t R"
    proof (rule fq_step [OF rep i u(4), where y = x])
      show "keeps i s pl t R u pl t R" using x(1) n keep by (auto simp: keeps_def u shared_def)
      show "fthread u pl t R i c'"
        using priv own c' False k' k(1) unfolding fthread_def by (auto simp: u c'_def)
      show "node_ok u ?S ?T x"
        using bal stay False r(8) [OF x(1)] n keep(2) by (auto simp: node_ok_def u)
      show "fseg (fheap u) ?S" unfolding u using r(1) n keep(2) by (rule fseg_upd)
      show "fdata q \<noteq> None" if "pl z = Some FChain" "fheap u z = Some q" "fnext q \<noteq> (0, None)" for z q
        using r(9) [of z] that n keep by (cases "z = x") (auto simp: u)
    qed (use r(2-7) n rx c' m in \<open>auto simp: u shared_def keep split: if_splits\<close>)
    then have "fq_inv u" by (rule fq_invI) (use ok in \<open>simp_all add: u_def fgo_def fput_def\<close>)
    then show ?thesis by (simp add: u_def c'_def drop_ref_def)
  qed
qed

text \<open>A thread makes a node, or deletes one that it owns.\<close>

lemma fq_alloc:
  assumes inv: "fq_inv s" and i: "i < max_threads" and a: "fheap s a = None"
    and ref: "fref c' = fref (fpc s i)" "ffree c' = ffree (fpc s i)"
    and c': "fpriv (fpc s i) \<union> fdel (fpc s i) = {}" "fpriv c' = {a}" "fdel c' = {}" "fshape c'" "fpast c' = None" "fstored c' = None" "ftake c' = None"
      "flink c' = flink (fpc s i)"
  shows "fq_inv (fgo i c' (fput a (fresh_node g) s))"
proof -
  obtain pl A t R where rep: "fq_rep s pl A t R" and ok: "\<not> fbad s" "None \<notin> set (fpopped s)"
    using inv by (rule fq_invE)
  note r = fq_repD [OF rep] and d = fthreadD [OF fq_repD(11) [OF rep, where i = i]]
  let ?pl = "pl(a \<mapsto> FOwn i)"
  define u where "u = fgo i c' (fput a (fresh_node g) s)"
  have u: "fheap u = (fheap s)(a \<mapsto> fresh_node g)" "fhead u = fhead s" "ftail u = ftail s" "fpc u = (fpc s)(i := c')"
    by (simp_all add: u_def fgo_def fput_def)
  have pa: "pl a = None" using r(7) a by simp
  then have na: "\<not> shared pl a" "a \<notin> set (A @ t # R)" using r(6) [of a] by (auto simp: shared_def)
  have "fq_rep u ?pl A t R"
  proof (rule fq_step [OF rep i u(4), where y = a])
    show "keeps i s pl t R u ?pl t R" using pa na by (auto simp: keeps_def u shared_def)
    show "fthread u ?pl t R i c'"
      unfolding fthread_def
    proof (intro conjI allI ballI impI)
      show "shared ?pl x" "x \<notin> set R" if "fref c' = Some x" for x
        using d(5,6) [where x = x] that na(1) by (auto simp: ref shared_def)
      show "x \<in> fpriv c' \<union> fdel c'" if "?pl x = Some (FOwn i)" for x
        using d(14) [of x] that c'(1,2) by (auto split: if_splits)
      show "nx \<noteq> (0, None)" "\<exists>n. fheap u x = Some n \<and> fnext n = nx" if "flink c' = Some (x, nx)" for x nx
        using d(7,8) [where x = x and nx = nx] that a by (auto simp: c' u)
    qed (use c' in \<open>auto simp: u\<close>)
    show "fseg (fheap u) (A @ t # R)" unfolding u using r(1) by (rule fseg_frame) (use na in auto)
    show "?pl z = Some FChain \<longleftrightarrow> z \<in> set (A @ t # R)" for z using r(6) [of z] na by auto
  qed (use r(2-5,7,9) ref in \<open>auto simp: u shared_def split: if_splits\<close>)
  then show ?thesis unfolding u_def by (rule fq_invI) (use ok in \<open>simp_all add: fgo_def fput_def\<close>)
qed

lemma fq_free:
  assumes inv: "fq_inv s" and i: "i < max_threads"
    and own: "a \<in> fpriv (fpc s i) \<union> fdel (fpc s i)"
    and ref: "fref c' = fref (fpc s i)" "ffree c' = ffree (fpc s i)"
    and c': "fpriv c' = fpriv (fpc s i) \<union> fdel (fpc s i) - {a}" "fpriv c' \<subseteq> fpriv (fpc s i)" "fdel c' = {}" "fshape c'" "fpast c' = None" "fstored c' = None" "ftake c' = None"
      "flink c' = flink (fpc s i)"
  shows "fheap s a \<noteq> None \<and> fq_inv (fgo i c' (s\<lparr>fheap := (fheap s)(a := None)\<rparr>))"
proof -
  obtain pl A t R where rep: "fq_rep s pl A t R" and ok: "\<not> fbad s" "None \<notin> set (fpopped s)"
    using inv by (rule fq_invE)
  note r = fq_repD [OF rep] and d = fthreadD [OF fq_repD(11) [OF rep, where i = i]]
  let ?pl = "pl(a := None)"
  define u where "u = fgo i c' (s\<lparr>fheap := (fheap s)(a := None)\<rparr>)"
  have u: "fheap u = (fheap s)(a := None)" "fhead u = fhead s" "ftail u = ftail s" "fpc u = (fpc s)(i := c')"
    by (simp_all add: u_def fgo_def)
  have pa: "pl a = Some (FOwn i)" using d(2,4) [of a] own by blast
  then have na: "\<not> shared pl a" "a \<notin> set (A @ t # R)" using r(6) [of a] by (auto simp: shared_def)
  have "fq_rep u ?pl A t R"
  proof (rule fq_step [OF rep i u(4), where y = a])
    show "keeps i s pl t R u ?pl t R" using pa na by (auto simp: keeps_def u shared_def)
    show "fthread u ?pl t R i c'"
      unfolding fthread_def
    proof (intro conjI allI ballI impI)
      show "?pl x = Some (FOwn i)" "\<exists>g. fheap u x = Some (fresh_node g)" if "x \<in> fpriv c'" for x
        using d(2,3) [of x] that c'(1,2) by (auto simp: u)
      show "x \<in> fpriv c' \<union> fdel c'" if "?pl x = Some (FOwn i)" for x
        using d(14) [of x] that c'(1) by (auto split: if_splits)
      show "shared ?pl x" "x \<notin> set R" if "fref c' = Some x" for x
        using d(5,6) [where x = x] that na(1) by (auto simp: ref shared_def)
      show "nx \<noteq> (0, None)" "\<exists>n. fheap u x = Some n \<and> fnext n = nx" if l: "flink c' = Some (x, nx)" for x nx
      proof -
        have "flink (fpc s i) = Some (x, nx)" using l by (simp add: c')
        moreover from this have "x \<noteq> a" using d(5) [OF fref_of(1)] na(1) by blast
        ultimately show "nx \<noteq> (0, None)" "\<exists>n. fheap u x = Some n \<and> fnext n = nx"
          using d(7,8) by (auto simp: u)
      qed
    qed (use c' in \<open>auto simp: u\<close>)
    show "fseg (fheap u) (A @ t # R)" unfolding u using r(1) by (rule fseg_frame) (use na in auto)
    show "?pl z = Some FChain \<longleftrightarrow> z \<in> set (A @ t # R)" for z using r(6) [of z] na by auto
  qed (use r(2-5,7,9) ref in \<open>auto simp: u shared_def split: if_splits\<close>)
  then have "fq_inv u" by (rule fq_invI) (use ok in \<open>simp_all add: u_def fgo_def\<close>)
  moreover have "fheap s a \<noteq> None" using r(7) pa by force
  ultimately show ?thesis by (simp add: u_def)
qed

section \<open>The steps\<close>

text \<open>What the invariant gives to the acting thread.\<close>

lemma fq_invD:
  assumes "fq_inv s"
  shows "fref (fpc s i) = Some x \<Longrightarrow> \<exists>n. fheap s x = Some n" "fshape (fpc s i)"
    "fpc s i \<noteq> FIdle \<Longrightarrow> i < max_threads" "snd (fhead s) \<noteq> None" "snd (ftail s) \<noteq> None"
proof -
  obtain pl A t R where rep: "fq_rep s pl A t R" using assms by (rule fq_invE)
  note r = fq_repD [OF rep]
  show "fref (fpc s i) = Some x \<Longrightarrow> \<exists>n. fheap s x = Some n"
    using fthreadD(5) [OF r(11), of i x] r(7) [of x] by (auto simp: shared_def)
  show "fshape (fpc s i)" by (rule fthreadD(1) [OF r(11)])
  show "fpc s i \<noteq> FIdle \<Longrightarrow> i < max_threads" by (rule r(10))
  show "snd (fhead s) \<noteq> None" "snd (ftail s) \<noteq> None" using r(3,4) by auto
qed

lemma fq_alloc_inv:
  assumes inv: "fq_inv s" and st: "fq_alloc_step i a g s = Some t"
  shows "fq_inv t"
proof -
  from st have a: "fheap s a = None" and i: "fpc s i \<noteq> FIdle"
    by (auto simp: fq_alloc_step_def split: if_splits fpc.splits)
  show ?thesis
  proof (cases "fpc s i")
    case (FNew v)
    have "fq_inv (fgo i (FTailLoad v a) (fput a (fresh_node g) s))"
      by (rule fq_alloc [OF inv fq_invD(3) [OF inv i] a]) (simp_all add: FNew)
    with st a FNew show ?thesis by (simp add: fq_alloc_step_def)
  next
    case (FElseNew v e x nx)
    have "fq_inv (fgo i (FSetTail x (e, Some x) nx (Some (v, a))) (fput a (fresh_node g) s))"
      by (rule fq_alloc [OF inv fq_invD(3) [OF inv i] a]) (simp_all add: FElseNew)
    with st a FElseNew show ?thesis by (simp add: fq_alloc_step_def)
  qed (use st a in \<open>simp_all add: fq_alloc_step_def\<close>)
qed

lemma fq_count_inv:
  assumes inv: "fq_inv s" and st: "count_step i s = Some t"
  shows "fq_inv t"
proof -
  from st have i: "i < max_threads" by (intro fq_invD(3) [OF inv]) (auto simp: count_step_def)
  note d = fq_invD(1,2) [OF inv, of i]
  show ?thesis
  proof (cases "fpc s i")
    case (FRelease x k)
    then obtain n where n: "fheap s x = Some n" using d(1) [of x] by auto
    have "fq_inv (drop_ref i x (n\<lparr>internal_count := internal_count n - 1\<rparr>) k s)"
      by (rule fq_drop [OF inv i _ n]) (use FRelease d(2) in simp_all)
    with st n FRelease show ?thesis by (simp add: count_step_def release_ref_def at_fnode_def)
  next
    case (FFree e x k)
    then obtain n where n: "fheap s x = Some n" using d(1) [of x] by auto
    have "fq_inv (drop_ref i x (n\<lparr>external_counters := external_counters n - 1,
        internal_count := internal_count n + of_int (e - 2)\<rparr>) k s)"
      by (rule fq_drop [OF inv i _ n, where e = e]) (use FFree d(2) in simp_all)
    with st n FFree show ?thesis by (simp add: count_step_def free_external_counter_def at_fnode_def Let_def)
  next
    case (FDelete x k)
    with d(2) have k: "fcont k" "x \<notin> fpriv k" by auto
    have "fheap s x \<noteq> None \<and> fq_inv (fgo i k (s\<lparr>fheap := (fheap s)(x := None)\<rparr>))"
      by (rule fq_free [OF inv i]) (use FDelete k fcont_simps [OF k(1)] in auto)
    with st FDelete show ?thesis by (auto simp: count_step_def at_fnode_def)
  qed (use st in \<open>simp_all add: count_step_def\<close>)
qed

lemma set_new_tail_inv:
  assumes inv: "fq_inv s" and i: "i < max_threads" and c: "fpc s i = FSetTail x old new r"
  shows "fq_inv (set_new_tail i x old new r s)"
proof -
  have "fq_inv (fgo i (FSetTail x (ftail s) new r) s)" if "snd (ftail s) = Some x"
    by (rule fq_go_same [OF inv i]) (use c that in \<open>auto simp: fthread_def\<close>)
  moreover have "fq_inv (fgo i (FRelease x (push_on r (ftail s))) s)"
    by (rule fq_go_same [OF inv i]) (use c in \<open>auto simp: fthread_def\<close>)
  ultimately show ?thesis
    using fq_set_tail [OF inv i c] by (simp add: set_new_tail_def)
qed

lemma fq_push_inv:
  assumes inv: "fq_inv s" and st: "fq_push_step i s = Some t"
  shows "fq_inv t"
proof -
  from st have i: "i < max_threads" by (intro fq_invD(3) [OF inv]) (auto simp: fq_push_step_def)
  note d = fq_invD(1) [OF inv, of i] and ptr = fq_invD(5) [OF inv]
  note go = fq_go_same [OF inv i]
  show ?thesis
  proof (cases "fpc s i")
    case (FTailLoad v nn)
    have "fq_inv (fgo i (FIncTail v nn (ftail s)) s)"
      by (rule go) (use FTailLoad in \<open>auto simp: fthread_def\<close>)
    with st FTailLoad show ?thesis by (simp add: fq_push_step_def)
  next
    case (FIncTail v nn old)
    have "fq_inv (fgo i (FIncTail v nn (ftail s)) s)"
      by (rule go) (use FIncTail in \<open>auto simp: fthread_def\<close>)
    moreover obtain e y where h: "ftail s = (e, Some y)" using ptr by (cases "ftail s") auto
    ultimately show ?thesis
      using st FIncTail fq_inc_tail [OF inv i, of v nn e y]
      by (auto simp: h fq_push_step_def increase_external_count_def split: if_splits prod.splits option.splits)
  next
    case (FDataCas v nn e x)
    then obtain n where n: "fheap s x = Some n" using d [of x] by auto
    have "fq_inv (fgo i (FElseNext v nn e x) s)" if "fdata n \<noteq> None"
      by (rule go) (use FDataCas n that in \<open>auto simp: fthread_def\<close>)
    with st n FDataCas fq_store [OF inv i FDataCas n] show ?thesis
      by (auto simp: fq_push_step_def at_fnode_def split: if_splits)
  next
    case (FNextLoad nn e x)
    then obtain n where n: "fheap s x = Some n" using d [of x] by auto
    have "fq_inv (fgo i (FNextCas nn e x) s)"
      by (rule go) (use FNextLoad in \<open>auto simp: fthread_def\<close>)
    with st n FNextLoad show ?thesis by (simp add: fq_push_step_def at_fnode_def)
  next
    case (FNextCas nn e x)
    then obtain n where n: "fheap s x = Some n" using d [of x] by auto
    have "fq_inv (fgo i (FDelNew nn e x (fnext n)) s)" if "fnext n \<noteq> (0, None)"
      by (rule go) (use FNextCas n that in \<open>simp_all add: fthread_def, metis not_None_eq\<close>)
    moreover have "fq_inv (fgo i (FSetTail x (e, Some x) (1, Some nn) None) (fput x (n\<lparr>fnext := (1, Some nn)\<rparr>) s))"
      if "fnext n = (0, None)"
      by (rule fq_link [OF inv i _ n that]) (simp add: FNextCas)
    ultimately show ?thesis using st n FNextCas
      by (auto simp: fq_push_step_def at_fnode_def split: if_splits)
  next
    case (FDelNew nn e x nx)
    have "fheap s nn \<noteq> None \<and> fq_inv (fgo i (FSetTail x (e, Some x) nx None) (s\<lparr>fheap := (fheap s)(nn := None)\<rparr>))"
      by (rule fq_free [OF inv i]) (simp_all add: FDelNew)
    with st FDelNew show ?thesis by (auto simp: fq_push_step_def at_fnode_def)
  next
    case (FElseNext v nn e x)
    then obtain n where n: "fheap s x = Some n" using d [of x] by auto
    have "fq_inv (fgo i (FSetTail x (e, Some x) (fnext n) (Some (v, nn))) s)" if "fnext n \<noteq> (0, None)"
      by (rule go) (use FElseNext n that in \<open>simp_all add: fthread_def, metis not_None_eq\<close>)
    moreover have "fq_inv (fgo i (FElseNew v e x (1, Some nn)) (fput x (n\<lparr>fnext := (1, Some nn)\<rparr>) s))"
      if "fnext n = (0, None)"
      by (rule fq_link [OF inv i _ n that]) (simp add: FElseNext)
    ultimately show ?thesis using st n FElseNext
      by (auto simp: fq_push_step_def at_fnode_def split: if_splits)
  next
    case (FSetTail x old new r)
    with st set_new_tail_inv [OF inv i FSetTail] show ?thesis by (simp add: fq_push_step_def)
  qed (use st in \<open>simp_all add: fq_push_step_def\<close>)
qed

lemma fq_pop_inv:
  assumes inv: "fq_inv s" and st: "fq_pop_step False i s = Some t"
  shows "fq_inv t"
proof -
  from st have i: "i < max_threads" by (intro fq_invD(3) [OF inv]) (auto simp: fq_pop_step_def)
  note d = fq_invD(1) [OF inv, of i] and ptr = fq_invD(4) [OF inv]
  note go = fq_go_same [OF inv i]
  show ?thesis
  proof (cases "fpc s i")
    case FHeadLoad
    have "fq_inv (fgo i (FIncHead (fhead s)) s)"
      by (rule go) (use FHeadLoad in \<open>auto simp: fthread_def\<close>)
    with st FHeadLoad show ?thesis by (simp add: fq_pop_step_def)
  next
    case (FIncHead old)
    have "fq_inv (fgo i (FIncHead (fhead s)) s)"
      by (rule go) (use FIncHead in \<open>auto simp: fthread_def\<close>)
    moreover obtain e y where h: "fhead s = (e, Some y)" using ptr by (cases "fhead s") auto
    ultimately show ?thesis
      using st FIncHead fq_inc_head [OF inv i, of e y]
      by (auto simp: h fq_pop_step_def increase_external_count_def split: if_splits prod.splits option.splits)
  next
    case (FTailTest e x)
    have "fq_inv (fgo i (FRelease x FIdle) (s\<lparr>fempty := fempty s + 1\<rparr>))"
      by (rule fq_go [OF inv i]) (use FTailTest in \<open>auto simp: fthread_def\<close>)
    moreover have "fq_inv (fgo i (FPopNext e x) s)" if "snd (ftail s) \<noteq> Some x"
    proof (rule go)
      fix pl A t R
      assume "fq_rep s pl A t R" "fthread s pl t R i (fpc s i)"
      with that FTailTest show "fthread s pl t R i (FPopNext e x)"
        using fq_repD(4) by (fastforce simp: fthread_def)
    qed (use FTailTest in simp_all)
    ultimately show ?thesis using st FTailTest by (auto simp: fq_pop_step_def split: if_splits)
  next
    case (FPopNext e x)
    then obtain n where n: "fheap s x = Some n" using d [of x] by auto
    have "fq_inv (fgo i (FHeadCas e x (fnext n)) s)"
    proof (rule go)
      fix pl A t R
      assume rep: "fq_rep s pl A t R" and th: "fthread s pl t R i (fpc s i)"
      have x: "shared pl x" "x \<notin> set R" "x \<noteq> t" using fthreadD(5,6,9) [OF th, of x] FPopNext by simp_all
      have "fnext n \<noteq> (0, None)"
      proof (cases "x \<in> set (A @ t # R)")
        case True
        then obtain B C where S: "A @ t # R = B @ x # C" by (meson split_list)
        have "C \<noteq> []"
        proof
          assume "C = []"
          with S have "last (t # R) = x" by (metis last_appendR last_snoc list.distinct(1))
          with x show False by (metis last.simps last_in_set)
        qed
        then show ?thesis using fseg_next [of "fheap s" B x C n] fq_repD(1) [OF rep] S n by (cases C) auto
      qed (use fq_repD(8) [OF rep x(1)] n in \<open>auto simp: node_ok_def\<close>)
      with th n FPopNext show "fthread s pl t R i (FHeadCas e x (fnext n))" by (auto simp: fthread_def)
    qed (use FPopNext in simp_all)
    with st n FPopNext show ?thesis by (simp add: fq_pop_step_def at_fnode_def)
  next
    case (FHeadCas e x nx)
    then obtain n where n: "fheap s x = Some n" using d [of x] by auto
    have "fq_inv (fgo i (FRelease x (FIncHead (fhead s))) s)"
      by (rule go) (use FHeadCas in \<open>auto simp: fthread_def\<close>)
    with st n FHeadCas fq_take_head [OF inv i FHeadCas _ n] show ?thesis
      by (auto simp: fq_pop_step_def at_fnode_def split: if_splits)
  next
    case (FTake e x v)
    then obtain n where n: "fheap s x = Some n" using d [of x] by auto
    with st FTake fq_take [OF inv i FTake n] show ?thesis
      by (auto simp: fq_pop_step_def at_fnode_def split: if_splits)
  qed (use st in \<open>simp_all add: fq_pop_step_def\<close>)
qed

text \<open>The machine with at most \<open>max_threads\<close> threads.\<close>

fun fq_thread :: "'a fq_event \<Rightarrow> nat" where
  "fq_thread (FPush i v) = i"
| "fq_thread (FPop i) = i"
| "fq_thread (FAlloc i a g) = i"
| "fq_thread (FPushStep i) = i"
| "fq_thread (FPopStep i) = i"
| "fq_thread (FCountStep i) = i"

definition fq_bounded :: "'a fq_event \<Rightarrow> 'a fq \<Rightarrow> 'a fq option" where
  "fq_bounded e s = (if fq_thread e < max_threads then fq_exec False e s else None)"

interpretation fqs: inv_machine fq_bounded fq_inv
proof
  fix s t :: "'a fq" and e
  assume inv: "fq_inv s" and st: "fq_bounded e s = Some t"
  then have i: "fq_thread e < max_threads" and st: "fq_exec False e s = Some t"
    by (auto simp: fq_bounded_def split: if_splits)
  show "fq_inv t"
  proof (cases e)
    case (FPush i v)
    have "fq_inv (fgo i (FNew v) s)" if "fpc s i = FIdle"
      by (rule fq_go_same [OF inv]) (use that FPush i in \<open>auto simp: fthread_def\<close>)
    with st FPush show ?thesis by (auto split: if_splits)
  next
    case (FPop i)
    have "fq_inv (fgo i FHeadLoad s)" if "fpc s i = FIdle"
      by (rule fq_go_same [OF inv]) (use that FPop i in \<open>auto simp: fthread_def\<close>)
    with st FPop show ?thesis by (auto split: if_splits)
  qed (use st inv fq_alloc_inv fq_push_inv fq_pop_inv fq_count_inv in auto)
qed

lemma fq_start: "fq_inv (lock_free_queue a g)"
proof -
  have "fq_rep (lock_free_queue a g) [a \<mapsto> FChain] [] a []"
    by (auto simp: fq_rep_def lock_free_queue_def fresh_node_def node_ok_def side_def exts_def refs_def
        frees_def freed_def tally_def fthread_def shared_def)
  then show ?thesis by (rule fq_invI) (simp_all add: lock_free_queue_def)
qed

text \<open>When no call is under way, the allocated nodes are those from the head to the tail.\<close>

lemma fq_quiet:
  assumes rep: "fq_rep s pl A t R" and idle: "\<forall>i. fpc s i = FIdle"
  shows "dom (fheap s) = set (A @ t # R)"
proof -
  note r = fq_repD [OF rep]
  have "refs (fpc s) x = 0" for x using idle by (simp add: refs_def tally_def)
  then have "x \<in> set (A @ t # R)" if "shared pl x" for x
    using r(8) [OF that] by (auto simp: node_ok_def)
  moreover have "shared pl x" if "pl x \<noteq> None" for x
    unfolding shared_def using fthreadD(14) [OF r(11), of x] idle that by fastforce
  ultimately have "pl x \<noteq> None \<longleftrightarrow> x \<in> set (A @ t # R)" for x
    using r(6) [of x] by (cases "pl x = Some FChain") (simp, blast)
  then have "fheap s x \<noteq> None \<longleftrightarrow> x \<in> set (A @ t # R)" for x unfolding r(7) [of x, symmetric] .
  then show ?thesis unfolding dom_def by blast
qed

text \<open>
  C19. Any number of producers and consumers up to what the 30 bits of \<open>internal_count\<close> can count,
  any interleaving, any reuse of freed addresses: no thread touches a deleted node or deletes
  one twice, no pop that takes a node gets a null value, and when no call is under way, the
  allocated nodes are exactly those from the head to the tail: every node that left the queue
  has been freed.
\<close>

theorem lock_free_queue_memory_safe:
  assumes "run fq_bounded es (lock_free_queue a g) = Some s"
  shows "\<not> fbad s \<and> None \<notin> set (fpopped s) \<and>
    (\<exists>S. fseg (fheap s) S \<and> distinct S \<and> S \<noteq> [] \<and> snd (fhead s) = Some (hd S) \<and>
       ((\<forall>i. fpc s i = FIdle) \<longrightarrow> dom (fheap s) = set S))"
proof -
  have "fq_inv s" using fq_start assms by (rule fqs.run_inv)
  then obtain pl A t R where rep: "fq_rep s pl A t R" and ok: "\<not> fbad s" "None \<notin> set (fpopped s)"
    by (rule fq_invE)
  have "fseg (fheap s) (A @ t # R) \<and> distinct (A @ t # R) \<and> A @ t # R \<noteq> [] \<and>
      snd (fhead s) = Some (hd (A @ t # R)) \<and> ((\<forall>i. fpc s i = FIdle) \<longrightarrow> dom (fheap s) = set (A @ t # R))"
    using fq_repD(1-3) [OF rep] fq_quiet [OF rep] by simp
  with ok show ?thesis by blast
qed

lemma replicate_eqs: "replicate (numeral k) x = x # replicate (pred_numeral k) x" "replicate (Suc n) x = x # replicate n x"
  by (simp_all add: numeral_eq_Suc)

theorem lock_free_queue_memory_safe_witness:
  "\<exists>s. run fq_bounded lost_push (lock_free_queue 0 None) = Some s \<and> (\<forall>i. fpc s i = FIdle) \<and>
     (\<not> fbad s \<and> None \<notin> set (fpopped s) \<and>
      (\<exists>S. fseg (fheap s) S \<and> distinct S \<and> S \<noteq> [] \<and> snd (fhead s) = Some (hd S) \<and>
         ((\<forall>i. fpc s i = FIdle) \<longrightarrow> dom (fheap s) = set S)))"
proof -
  obtain s where r: "run fq_bounded lost_push (lock_free_queue 0 None) = Some s" and "\<forall>i. fpc s i = FIdle"
    by (simp add: lost_push_def fq_defs fq_bounded_def max_threads_def replicate_eqs)
  with lock_free_queue_memory_safe [OF r] show ?thesis by blast
qed

end
