(* ===== verification/HazardStack.thy ===== *)
theory HazardStack
  imports NodeHeap
begin

text \<open>
  The stack of \<open>src/Concurrent/day17-LockFreeStack/HazardPointerStack.h\<close>: a thread that is about
  to read a node publishes its address in a slot of the global array \<open>hazard_pointers\<close>, and a
  node is deleted only after a scan that found it in no slot; otherwise it waits in the list
  \<open>nodes_to_reclaim\<close>. A step is one access to an atomic, to a node or to the heap, sequentially
  consistent as in the code; any number of threads run, start and exit. The stack starts empty:
  the constructor does not initialise its atomics, which before C++20 start indeterminate.
\<close>

section \<open>The machine\<close>

definition max_hazard_pointers :: nat where
  "max_hazard_pointers = 100"

text \<open>
  A node of \<open>nodes_to_reclaim\<close> (\<open>data_to_reclaim\<close>) is a \<open>nat node\<close>: its data is the address of
  the node to delete. In \<open>HAddLoad\<close> and \<open>HAddCas\<close>, \<open>None\<close> stands for the call from
  \<open>reclaim_later\<close> and \<open>Some next\<close> for the call from the loop of \<open>delete_nodes_with_no_hazards\<close>.
\<close>

datatype 'a hp_pc =
    HIdle
  | HThrown                               \<comment> \<open>left \<open>pop\<close> by \<open>No hazard pointers available\<close>\<close>
  | HPushNew 'a
  | HPushLoad nat
  | HPushCas nat
  | HBind nat                             \<comment> \<open>\<open>bind_hazard_pointer\<close> at slot \<open>i\<close>\<close>
  | HPopLoad                              \<comment> \<open>\<open>old_head = head.load()\<close>\<close>
  | HStore "nat option"                   \<comment> \<open>\<open>hp.store(old_head)\<close>\<close>
  | HReload "nat option"                  \<comment> \<open>\<open>old_head = head.load()\<close>, compared with \<open>temp\<close>\<close>
  | HNext nat                             \<comment> \<open>reads \<open>old_head->next\<close>\<close>
  | HCas nat "nat option"
  | HClear "(nat \<times> 'a) option"            \<comment> \<open>\<open>hp.store(nullptr)\<close>\<close>
  | HSwap nat 'a                          \<comment> \<open>\<open>res.swap(old_head->data)\<close>; the logged value\<close>
  | HScan nat nat                         \<comment> \<open>\<open>outstanding_hazard_pointers_for(old_head)\<close> at slot \<open>i\<close>\<close>
  | HDelete nat                           \<comment> \<open>\<open>delete old_head\<close>\<close>
  | HNewReclaim nat                       \<comment> \<open>\<open>new data_to_reclaim(old_head)\<close>\<close>
  | HAddLoad nat "nat option option"      \<comment> \<open>\<open>reclaim_node->next = nodes_to_reclaim.load()\<close>\<close>
  | HAddCas nat "nat option option"
  | HExchange                             \<comment> \<open>\<open>nodes_to_reclaim.exchange(nullptr)\<close>\<close>
  | HWalk "nat option"                    \<comment> \<open>\<open>current\<close>\<close>
  | HWScan nat nat "nat option" nat       \<comment> \<open>\<open>current\<close>, \<open>current->data\<close>, \<open>next\<close>, slot\<close>
  | HWDelete nat nat "nat option"
  | HRelease                              \<comment> \<open>second store of \<open>~hp_owner\<close>\<close>

record 'a hps =
  hheap :: "'a heap"
  hhead :: "nat option"
  rnodes :: "nat heap"
  nodes_to_reclaim :: "nat option"
  hid :: "nat \<Rightarrow> nat option"
  hptr :: "nat \<Rightarrow> nat option"
  hslot :: "nat \<Rightarrow> nat option"            \<comment> \<open>the thread-local \<open>hazzard\<close>\<close>
  hpc :: "nat \<Rightarrow> 'a hp_pc"
  hlog :: "'a call_log"
  hbad :: bool

definition hazard_pointer_stack :: "'a hps" where
  "hazard_pointer_stack = \<lparr>hheap = Map.empty, hhead = None, rnodes = Map.empty, nodes_to_reclaim = None,
     hid = (\<lambda>_. None), hptr = (\<lambda>_. None), hslot = (\<lambda>_. None), hpc = (\<lambda>_. HIdle), hlog = [], hbad = False\<rparr>"

definition hgo :: "nat \<Rightarrow> 'a hp_pc \<Rightarrow> 'a hps \<Rightarrow> 'a hps" where
  "hgo i c s = s\<lparr>hpc := (hpc s)(i := c)\<rparr>"

definition at_hnode :: "nat \<Rightarrow> 'a hps \<Rightarrow> ('a node \<Rightarrow> 'a hps) \<Rightarrow> 'a hps" where
  "at_hnode x s f = (case hheap s x of None \<Rightarrow> s\<lparr>hbad := True\<rparr> | Some n \<Rightarrow> f n)"

definition at_rnode :: "nat \<Rightarrow> 'a hps \<Rightarrow> (nat node \<Rightarrow> 'a hps) \<Rightarrow> 'a hps" where
  "at_rnode r s f = (case rnodes s r of None \<Rightarrow> s\<lparr>hbad := True\<rparr> | Some n \<Rightarrow> f n)"

text \<open>A thread without a slot never reaches an access to its slot; the model marks it as bad.\<close>

definition set_hp :: "nat \<Rightarrow> nat option \<Rightarrow> 'a hps \<Rightarrow> 'a hps" where
  "set_hp i p s = (case hslot s i of None \<Rightarrow> s\<lparr>hbad := True\<rparr> | Some k \<Rightarrow> s\<lparr>hptr := (hptr s)(k := p)\<rparr>)"

definition bind_hazard_pointer :: "nat \<Rightarrow> nat \<Rightarrow> 'a hps \<Rightarrow> 'a hps" where
  "bind_hazard_pointer i k s =
     (if k < max_hazard_pointers
      then if hid s k = None
        then hgo i HPopLoad (s\<lparr>hid := (hid s)(k := Some i), hslot := (hslot s)(i := Some k)\<rparr>)
        else hgo i (HBind (k + 1)) s
      else hgo i HThrown s)"

definition hp_push_step :: "nat \<Rightarrow> 'a hps \<Rightarrow> 'a hps option" where
  "hp_push_step i s = (case hpc s i of
     HPushLoad a \<Rightarrow> Some (at_hnode a s (\<lambda>n.
       hgo i (HPushCas a) (s\<lparr>hheap := (hheap s)(a \<mapsto> n\<lparr>nnext := hhead s\<rparr>)\<rparr>)))
   | HPushCas a \<Rightarrow> Some (at_hnode a s (\<lambda>n.
       if hhead s = nnext n
       then hgo i HIdle (s\<lparr>hhead := Some a, hlog := hlog s @ [(QPush (node_val (hheap s) a), Pushed True)]\<rparr>)
       else s\<lparr>hheap := (hheap s)(a \<mapsto> n\<lparr>nnext := hhead s\<rparr>)\<rparr>))
   | _ \<Rightarrow> None)"

text \<open>\<open>new node\<close> and \<open>new data_to_reclaim\<close> get an address \<open>a\<close> that is free.\<close>

definition hp_alloc_step :: "nat \<Rightarrow> nat \<Rightarrow> 'a hps \<Rightarrow> 'a hps option" where
  "hp_alloc_step i a s = (case hpc s i of
     HPushNew v \<Rightarrow>
       if hheap s a = None
       then Some (hgo i (HPushLoad a) (s\<lparr>hheap := (hheap s)(a \<mapsto> \<lparr>ndata = Some v, nnext = None\<rparr>)\<rparr>))
       else None
   | HNewReclaim x \<Rightarrow>
       if rnodes s a = None
       then Some (hgo i (HAddLoad a None) (s\<lparr>rnodes := (rnodes s)(a \<mapsto> \<lparr>ndata = Some x, nnext = None\<rparr>)\<rparr>))
       else None
   | _ \<Rightarrow> None)"

text \<open>\<open>pop\<close> up to the clearing of the slot and the swap of the data.\<close>

definition hp_pop_step :: "nat \<Rightarrow> 'a hps \<Rightarrow> 'a hps option" where
  "hp_pop_step i s = (case hpc s i of
     HBind k \<Rightarrow> Some (bind_hazard_pointer i k s)
   | HPopLoad \<Rightarrow> Some (hgo i (HStore (hhead s)) s)
   | HStore old_head \<Rightarrow> Some (hgo i (HReload old_head) (set_hp i old_head s))
   | HReload temp \<Rightarrow>
       if hhead s \<noteq> temp then Some (hgo i (HStore (hhead s)) s)
       else (case temp of
           Some x \<Rightarrow> Some (hgo i (HNext x) s)
         | None \<Rightarrow> Some (hgo i (HClear None) (s\<lparr>hlog := hlog s @ [(QPop, Popped None)]\<rparr>)))
   | HNext x \<Rightarrow> Some (at_hnode x s (\<lambda>n. hgo i (HCas x (nnext n)) s))
   | HCas x p \<Rightarrow>
       if hhead s = Some x
       then Some (hgo i (HClear (Some (x, node_val (hheap s) x))) (s\<lparr>hhead := p,
              hlog := hlog s @ [(QPop, Popped (Some (node_val (hheap s) x)))]\<rparr>))
       else Some (hgo i (HStore (hhead s)) s)
   | HClear r \<Rightarrow>
       Some (hgo i (case r of None \<Rightarrow> HIdle | Some (x, v) \<Rightarrow> HSwap x v) (set_hp i None s))
   | HSwap x v \<Rightarrow> Some (at_hnode x s (\<lambda>n.
       if ndata n = Some v
       then hgo i (HScan x 0) (s\<lparr>hheap := (hheap s)(x \<mapsto> n\<lparr>ndata := None\<rparr>)\<rparr>)
       else s\<lparr>hbad := True\<rparr>))
   | _ \<Rightarrow> None)"

text \<open>
  The rest of \<open>pop\<close>: \<open>outstanding_hazard_pointers_for\<close>, \<open>reclaim_later\<close>,
  \<open>add_to_reclaim_list\<close> and \<open>delete_nodes_with_no_hazards\<close>.
\<close>

definition hp_reclaim_step :: "nat \<Rightarrow> 'a hps \<Rightarrow> 'a hps option" where
  "hp_reclaim_step i s = (case hpc s i of
     HScan x k \<Rightarrow>
       if k = max_hazard_pointers then Some (hgo i (HDelete x) s)
       else if hptr s k = Some x then Some (hgo i (HNewReclaim x) s)
       else Some (hgo i (HScan x (k + 1)) s)
   | HDelete x \<Rightarrow> Some (at_hnode x s (\<lambda>n. hgo i HExchange (s\<lparr>hheap := (hheap s)(x := None)\<rparr>)))
   | HAddLoad r c \<Rightarrow> Some (at_rnode r s (\<lambda>n.
       hgo i (HAddCas r c) (s\<lparr>rnodes := (rnodes s)(r \<mapsto> n\<lparr>nnext := nodes_to_reclaim s\<rparr>)\<rparr>)))
   | HAddCas r c \<Rightarrow> Some (at_rnode r s (\<lambda>n.
       if nodes_to_reclaim s = nnext n
       then hgo i (case c of None \<Rightarrow> HExchange | Some next \<Rightarrow> HWalk next) (s\<lparr>nodes_to_reclaim := Some r\<rparr>)
       else s\<lparr>rnodes := (rnodes s)(r \<mapsto> n\<lparr>nnext := nodes_to_reclaim s\<rparr>)\<rparr>))
   | HExchange \<Rightarrow> Some (hgo i (HWalk (nodes_to_reclaim s)) (s\<lparr>nodes_to_reclaim := None\<rparr>))
   | HWalk None \<Rightarrow> Some (hgo i HIdle s)
   | HWalk (Some r) \<Rightarrow> Some (at_rnode r s (\<lambda>n. case ndata n of
         Some x \<Rightarrow> hgo i (HWScan r x (nnext n) 0) s
       | None \<Rightarrow> s\<lparr>hbad := True\<rparr>))
   | HWScan r x next k \<Rightarrow>
       if k = max_hazard_pointers then Some (hgo i (HWDelete r x next) s)
       else if hptr s k = Some x then Some (hgo i (HAddLoad r (Some next)) s)
       else Some (hgo i (HWScan r x next (k + 1)) s)
   | HWDelete r x next \<Rightarrow> Some (at_rnode r s (\<lambda>_. at_hnode x s (\<lambda>_.
       hgo i (HWalk next) (s\<lparr>rnodes := (rnodes s)(r := None), hheap := (hheap s)(x := None)\<rparr>))))
   | _ \<Rightarrow> None)"

text \<open>\<open>~hp_owner\<close>, when a thread exits.\<close>

definition hp_exit_step :: "nat \<Rightarrow> 'a hps \<Rightarrow> 'a hps option" where
  "hp_exit_step i s = (case (hpc s i, hslot s i) of
     (HIdle, Some k) \<Rightarrow> Some (hgo i HRelease (set_hp i None s))
   | (HRelease, Some k) \<Rightarrow> Some (hgo i HIdle (s\<lparr>hid := (hid s)(k := None), hslot := (hslot s)(i := None)\<rparr>))
   | _ \<Rightarrow> None)"

datatype 'a hp_event = HPush nat 'a | HPop nat | HAlloc nat nat | HPushStep nat | HPopStep nat
  | HReclaimStep nat | HExit nat

fun hp_exec :: "'a hp_event \<Rightarrow> 'a hps \<Rightarrow> 'a hps option" where
  "hp_exec (HPush i v) s = (if hpc s i \<in> {HIdle, HThrown} then Some (hgo i (HPushNew v) s) else None)"
| "hp_exec (HPop i) s = (if hpc s i \<in> {HIdle, HThrown}
     then Some (hgo i (if hslot s i = None then HBind 0 else HPopLoad) s) else None)"
| "hp_exec (HAlloc i a) s = hp_alloc_step i a s"
| "hp_exec (HPushStep i) s = hp_push_step i s"
| "hp_exec (HPopStep i) s = hp_pop_step i s"
| "hp_exec (HReclaimStep i) s = hp_reclaim_step i s"
| "hp_exec (HExit i) s = hp_exit_step i s"

section \<open>The invariant\<close>

text \<open>
  A node of the stack is in the stack, owned by a thread, or the data of a node of the list to
  reclaim; such a node is in the list or owned by a thread. The places are ghost functions.
\<close>

datatype hplace = PStack | POwned nat | PReclaim nat
datatype rplace = RPending | ROwned nat

text \<open>What a thread owns, reads through its slot, and is about to delete after scanning \<open>k\<close> slots.\<close>

fun hown :: "'a hp_pc \<Rightarrow> nat option" where
  "hown (HPushLoad a) = Some a"
| "hown (HPushCas a) = Some a"
| "hown (HClear (Some (x, v))) = Some x"
| "hown (HSwap x v) = Some x"
| "hown (HScan x k) = Some x"
| "hown (HDelete x) = Some x"
| "hown (HNewReclaim x) = Some x"
| "hown _ = None"

fun guarded :: "'a hp_pc \<Rightarrow> nat option" where
  "guarded (HNext x) = Some x"
| "guarded (HCas x p) = Some x"
| "guarded _ = None"

fun scanned :: "'a hp_pc \<Rightarrow> (nat \<times> nat) option" where
  "scanned (HPushLoad a) = Some (a, max_hazard_pointers)"
| "scanned (HPushCas a) = Some (a, max_hazard_pointers)"
| "scanned (HScan x k) = Some (x, k)"
| "scanned (HDelete x) = Some (x, max_hazard_pointers)"
| "scanned (HWScan r x next k) = Some (x, k)"
| "scanned (HWDelete r x next) = Some (x, max_hazard_pointers)"
| "scanned _ = None"

text \<open>The nodes to reclaim a thread owns.\<close>

fun rlist :: "nat heap \<Rightarrow> 'a hp_pc \<Rightarrow> nat list \<Rightarrow> bool" where
  "rlist h (HAddLoad r None) R = (R = [r])"
| "rlist h (HAddCas r None) R = (R = [r])"
| "rlist h (HAddLoad r (Some p)) R = (\<exists>ns. R = r # ns \<and> seg h p ns None)"
| "rlist h (HAddCas r (Some p)) R = (\<exists>ns. R = r # ns \<and> seg h p ns None)"
| "rlist h (HWalk p) R = seg h p R None"
| "rlist h (HWScan r x p k) R = (\<exists>ns n. R = r # ns \<and> seg h p ns None \<and> h r = Some n \<and> ndata n = Some x)"
| "rlist h (HWDelete r x p) R = (\<exists>ns n. R = r # ns \<and> seg h p ns None \<and> h r = Some n \<and> ndata n = Some x)"
| "rlist h _ R = (R = [])"

fun own_ok :: "'a heap \<Rightarrow> 'a hp_pc \<Rightarrow> bool" where
  "own_ok h (HPushLoad a) = has_val h a"
| "own_ok h (HPushCas a) = has_val h a"
| "own_ok h (HClear (Some (x, v))) = (\<exists>n. h x = Some n \<and> ndata n = Some v)"
| "own_ok h (HSwap x v) = (\<exists>n. h x = Some n \<and> ndata n = Some v)"
| "own_ok h _ = True"

fun uses_slot :: "'a hp_pc \<Rightarrow> bool" where
  "uses_slot (HStore p) = True"
| "uses_slot HPopLoad = True"
| "uses_slot (HReload p) = True"
| "uses_slot (HNext x) = True"
| "uses_slot (HCas x p) = True"
| "uses_slot (HClear r) = True"
| "uses_slot HRelease = True"
| "uses_slot _ = False"

fun published :: "'a hp_pc \<Rightarrow> nat option option" where
  "published (HReload p) = Some p"
| "published (HNext x) = Some (Some x)"
| "published (HCas x p) = Some (Some x)"
| "published _ = None"

definition heap_ok :: "'a hps \<Rightarrow> (nat \<Rightarrow> hplace option) \<Rightarrow> (nat \<Rightarrow> rplace option) \<Rightarrow> nat list \<Rightarrow> nat list \<Rightarrow> bool" where
  "heap_ok s pl rp S P \<longleftrightarrow>
     seg (hheap s) (hhead s) S None \<and> distinct S \<and> seg (rnodes s) (nodes_to_reclaim s) P None \<and>
     (\<forall>x\<in>set S. pl x = Some PStack \<and> has_val (hheap s) x) \<and>
     (\<forall>r\<in>set P. rp r = Some RPending) \<and>
     (\<forall>x. pl x \<noteq> None \<longrightarrow> hheap s x \<noteq> None) \<and>
     (\<forall>r. rp r \<noteq> None \<longrightarrow> (\<exists>n x. rnodes s r = Some n \<and> ndata n = Some x \<and> pl x = Some (PReclaim r)))"

definition slots_ok :: "'a hps \<Rightarrow> bool" where
  "slots_ok s \<longleftrightarrow> (\<forall>i k. hslot s i = Some k \<longrightarrow> k < max_hazard_pointers \<and> hid s k = Some i)"

definition thread_inv :: "'a hps \<Rightarrow> (nat \<Rightarrow> hplace option) \<Rightarrow> (nat \<Rightarrow> rplace option) \<Rightarrow> nat list \<Rightarrow> nat \<Rightarrow> nat list \<Rightarrow> 'a hp_pc \<Rightarrow> bool" where
  "thread_inv s pl rp S i R c \<longleftrightarrow>
     (\<forall>x. hown c = Some x \<longrightarrow> pl x = Some (POwned i)) \<and> own_ok (hheap s) c \<and>
     rlist (rnodes s) c R \<and> distinct R \<and> (\<forall>r\<in>set R. rp r = Some (ROwned i)) \<and>
     (uses_slot c \<longrightarrow> hslot s i \<noteq> None) \<and>
     (\<forall>p k. published c = Some p \<and> hslot s i = Some k \<longrightarrow> hptr s k = p) \<and>
     (\<forall>x. guarded c = Some x \<longrightarrow> hheap s x \<noteq> None) \<and>
     (\<forall>x p. c = HCas x p \<and> x \<in> set S \<longrightarrow> (\<exists>n. hheap s x = Some n \<and> nnext n = p)) \<and>
     (\<forall>k. c = HBind k \<longrightarrow> hslot s i = None)"

text \<open>A scan has not passed the slot of a thread that reads the node.\<close>

definition scan_ok :: "'a hps \<Rightarrow> (nat \<Rightarrow> 'a hp_pc) \<Rightarrow> bool" where
  "scan_ok s pc \<longleftrightarrow> (\<forall>i j x k n. guarded (pc i) = Some x \<and> hslot s i = Some k \<and>
     scanned (pc j) = Some (x, n) \<longrightarrow> n \<le> k)"

definition hp_rep :: "'a hps \<Rightarrow> (nat \<Rightarrow> hplace option) \<Rightarrow> (nat \<Rightarrow> rplace option) \<Rightarrow> nat list \<Rightarrow> nat list \<Rightarrow>
  (nat \<Rightarrow> nat list) \<Rightarrow> bool" where
  "hp_rep s pl rp S P R \<longleftrightarrow> heap_ok s pl rp S P \<and> slots_ok s \<and> scan_ok s (hpc s) \<and>
     (\<forall>i. thread_inv s pl rp S i (R i) (hpc s i))"

definition hp_inv :: "'a hps \<Rightarrow> bool" where
  "hp_inv s \<longleftrightarrow> \<not> hbad s \<and>
     (\<exists>pl rp S P R. hp_rep s pl rp S P R \<and> stack_log (hlog s) (map (node_val (hheap s)) S))"

lemma heap_okD:
  assumes "heap_ok s pl rp S P"
  shows "seg (hheap s) (hhead s) S None" "distinct S" "seg (rnodes s) (nodes_to_reclaim s) P None"
    "x \<in> set S \<Longrightarrow> pl x = Some PStack" "x \<in> set S \<Longrightarrow> has_val (hheap s) x"
    "r \<in> set P \<Longrightarrow> rp r = Some RPending"
    "pl x \<noteq> None \<Longrightarrow> hheap s x \<noteq> None"
    "rp r \<noteq> None \<Longrightarrow> \<exists>n x. rnodes s r = Some n \<and> ndata n = Some x \<and> pl x = Some (PReclaim r)"
  using assms by (simp_all add: heap_ok_def)

lemma thread_invD:
  assumes "thread_inv s pl rp S i R c"
  shows "hown c = Some x \<Longrightarrow> pl x = Some (POwned i)" "own_ok (hheap s) c"
    "rlist (rnodes s) c R" "distinct R" "r \<in> set R \<Longrightarrow> rp r = Some (ROwned i)"
    "uses_slot c \<Longrightarrow> hslot s i \<noteq> None"
    "published c = Some p \<Longrightarrow> hslot s i = Some k \<Longrightarrow> hptr s k = p"
    "guarded c = Some x \<Longrightarrow> hheap s x \<noteq> None"
    "c = HCas x q \<Longrightarrow> x \<in> set S \<Longrightarrow> \<exists>n. hheap s x = Some n \<and> nnext n = q"
    "c = HBind k \<Longrightarrow> hslot s i = None"
  using assms by (simp_all add: thread_inv_def)

lemma rlist_frame: "rlist h c R \<Longrightarrow> \<forall>r\<in>set R. h' r = h r \<Longrightarrow> rlist h' c R"
  by (cases "(h, c, R)" rule: rlist.cases) (auto intro: seg_same)

lemma own_ok_frame: "own_ok h c \<Longrightarrow> (\<And>x. hown c = Some x \<Longrightarrow> h' x = h x) \<Longrightarrow> own_ok h' c"
  by (cases "(h, c)" rule: own_ok.cases) (auto simp: has_val_def)

lemma not_guarded_scanned: "guarded c = Some x \<Longrightarrow> scanned c = None"
  by (cases c) auto

text \<open>What is to be shown of a step of thread \<open>i\<close>.\<close>

lemma hp_step:
  assumes rep: "hp_rep s pl rp S P R"
    and pc: "hpc t = (hpc s)(i := c')"
    and heap: "heap_ok t pl' rp' S' P'" and slots: "slots_ok t"
    and ti: "thread_inv t pl' rp' S' i Ri c'"
    and own: "\<And>j x. j \<noteq> i \<Longrightarrow> pl x = Some (POwned j) \<Longrightarrow> pl' x = pl x \<and> hheap t x = hheap s x"
    and rown: "\<And>j r. j \<noteq> i \<Longrightarrow> rp r = Some (ROwned j) \<Longrightarrow> rp' r = rp r \<and> rnodes t r = rnodes s r"
    and slot: "\<And>j. j \<noteq> i \<Longrightarrow> hslot t j = hslot s j"
    and ptr: "\<And>j k. j \<noteq> i \<Longrightarrow> hslot s j = Some k \<Longrightarrow> hptr t k = hptr s k"
    and guard: "\<And>j x. j \<noteq> i \<Longrightarrow> guarded (hpc s j) = Some x \<Longrightarrow> hheap s x \<noteq> None \<Longrightarrow> hheap t x \<noteq> None \<and>
       (x \<in> set S' \<longrightarrow> x \<in> set S \<and> map_option nnext (hheap t x) = map_option nnext (hheap s x))"
    and scan: "\<And>x j k n. guarded c' = Some x \<Longrightarrow> j \<noteq> i \<Longrightarrow> scanned (hpc s j) = Some (x, n) \<Longrightarrow>
        hslot t i = Some k \<Longrightarrow> n \<le> k"
      "\<And>x j k n. scanned c' = Some (x, n) \<Longrightarrow> j \<noteq> i \<Longrightarrow> guarded (hpc s j) = Some x \<Longrightarrow> hslot s j = Some k \<Longrightarrow> n \<le> k"
  shows "hp_rep t pl' rp' S' P' (R(i := Ri))"
proof -
  have r: "heap_ok s pl rp S P" "scan_ok s (hpc s)" "\<And>j. thread_inv s pl rp S j (R j) (hpc s j)"
    using rep by (simp_all add: hp_rep_def)
  have tj: "thread_inv t pl' rp' S' j (R j) (hpc s j)" if j: "j \<noteq> i" for j
  proof -
    note d = thread_invD [OF r(3) [of j]]
    have "own_ok (hheap t) (hpc s j)" using d(2) by (rule own_ok_frame) (use d(1) own j in blast)
    moreover have "rlist (rnodes t) (hpc s j) (R j)" using d(3) by (rule rlist_frame) (use d(5) rown j in blast)
    moreover have "\<exists>n. hheap t x = Some n \<and> nnext n = p" if "hpc s j = HCas x p" "x \<in> set S'" for x p
      using guard [of j x] d(8) [of x] d(9) [of x p] that j by fastforce
    moreover have "\<forall>x. hown (hpc s j) = Some x \<longrightarrow> pl' x = Some (POwned j)"
      using d(1) own [OF j] by metis
    moreover have "\<forall>r\<in>set (R j). rp' r = Some (ROwned j)" using d(5) rown [OF j] by metis
    moreover have "\<forall>p k. published (hpc s j) = Some p \<and> hslot s j = Some k \<longrightarrow> hptr t k = p"
      using d(7) ptr [OF j] by metis
    moreover have "\<forall>x. guarded (hpc s j) = Some x \<longrightarrow> hheap t x \<noteq> None"
      using d(8) guard [OF j] by blast
    ultimately show ?thesis
      using d(4,6,10) unfolding thread_inv_def slot [OF j] by blast
  qed
  have "scan_ok t ((hpc s)(i := c'))"
    unfolding scan_ok_def
  proof (intro allI impI, elim conjE)
    fix a b x k n
    assume a: "guarded (((hpc s)(i := c')) a) = Some x" "hslot t a = Some k"
      "scanned (((hpc s)(i := c')) b) = Some (x, n)"
    show "n \<le> k"
    proof (cases "a = i")
      case True
      with a scan(1) [of x b n k] not_guarded_scanned [of c' x] show ?thesis by (cases "b = i") auto
    next
      case False
      with a scan(2) [of x n a k] slot r(2) show ?thesis
        by (cases "b = i") (auto simp: scan_ok_def)
    qed
  qed
  with heap slots ti tj show ?thesis by (auto simp: hp_rep_def pc)
qed

lemma hp_invE:
  assumes "hp_inv s"
  obtains pl rp S P R where "hp_rep s pl rp S P R" "stack_log (hlog s) (map (node_val (hheap s)) S)"
    "heap_ok s pl rp S P" "slots_ok s" "scan_ok s (hpc s)" "\<And>i. thread_inv s pl rp S i (R i) (hpc s i)" "\<not> hbad s"
proof -
  obtain pl rp S P R where r: "hp_rep s pl rp S P R" "stack_log (hlog s) (map (node_val (hheap s)) S)" "\<not> hbad s"
    using assms unfolding hp_inv_def by blast
  then show thesis by (intro that [OF r(1,2)]) (simp_all add: hp_rep_def)
qed

lemma hp_invI:
  "hp_rep t pl rp S P R \<Longrightarrow> stack_log (hlog t) (map (node_val (hheap t)) S) \<Longrightarrow> \<not> hbad t \<Longrightarrow> hp_inv t"
  unfolding hp_inv_def by blast

text \<open>A step that changes nothing but the thread's position, and may log a call.\<close>

lemma scan_done:
  assumes "slots_ok s" "scan_ok s (hpc s)" "thread_inv s pl rp S j R (hpc s j)"
    and "scanned (hpc s i) = Some (x, max_hazard_pointers)"
  shows "guarded (hpc s j) \<noteq> Some x"
proof
  assume g: "guarded (hpc s j) = Some x"
  then have "hslot s j \<noteq> None" using thread_invD(6) [OF assms(3)] by (cases "hpc s j") auto
  then obtain k where "hslot s j = Some k" "k < max_hazard_pointers" using assms(1) by (auto simp: slots_ok_def)
  with g assms(2,4) show False unfolding scan_ok_def by (metis linorder_not_less)
qed

lemma reclaim_upd:
  "\<exists>n x. h r = Some n \<and> ndata n = Some x \<and> pl x = Some (PReclaim r) \<Longrightarrow> pl a \<noteq> Some (PReclaim r) \<Longrightarrow>
   \<exists>n x. h r = Some n \<and> ndata n = Some x \<and> (pl(a := v)) x = Some (PReclaim r)"
  by (metis fun_upd_other)

lemma scanned_place:
  assumes "heap_ok s pl rp S P" "thread_inv s pl rp S i R c" "scanned c = Some (x, n)"
  shows "pl x = Some (POwned i) \<or> (\<exists>r\<in>set R. pl x = Some (PReclaim r))"
proof -
  have "\<exists>n. rnodes s r = Some n \<and> ndata n = Some x \<Longrightarrow> r \<in> set R \<Longrightarrow> pl x = Some (PReclaim r)" for r
    using heap_okD(8) [OF assms(1), of r] thread_invD(5) [OF assms(2), of r] by auto
  with assms(3) thread_invD(1,3) [OF assms(2)] show ?thesis by (cases c) fastforce+
qed

text \<open>A step that leaves the heaps and the slots as they are.\<close>

lemma hp_go:
  assumes inv: "hp_inv s"
    and pos: "hown c' = None \<or> hown c' = hown (hpc s i)"
      "\<And>h. own_ok h (hpc s i) \<Longrightarrow> own_ok h c'"
      "\<And>R. rlist (rnodes s) (hpc s i) R \<Longrightarrow> distinct R \<Longrightarrow> rlist (rnodes s) c' R"
      "uses_slot c' \<Longrightarrow> hslot s i \<noteq> None"
      "\<And>p. published c' = Some p \<Longrightarrow> published (hpc s i) = Some p"
      "\<And>x. guarded c' = Some x \<Longrightarrow> guarded (hpc s i) = Some x \<or> hhead s = Some x"
      "\<And>x p. c' = HCas x p \<Longrightarrow> \<exists>n. hheap s x = Some n \<and> nnext n = p"
      "\<And>k. c' = HBind k \<Longrightarrow> hslot s i = None"
    and scan: "\<And>x n. scanned c' = Some (x, n) \<Longrightarrow> \<forall>j k. j \<noteq> i \<and> guarded (hpc s j) = Some x \<and> hslot s j = Some k \<longrightarrow> n \<le> k"
    and stay: "\<And>S. stack_log (hlog s) (map (node_val (hheap s)) S) \<Longrightarrow> seg (hheap s) (hhead s) S None \<Longrightarrow>
      stack_log l (map (node_val (hheap s)) S)"
  shows "hp_inv (hgo i c' (s\<lparr>hlog := l\<rparr>))"
proof -
  obtain pl rp S P R where r: "hp_rep s pl rp S P R" "stack_log (hlog s) (map (node_val (hheap s)) S)"
    "heap_ok s pl rp S P" "slots_ok s" "scan_ok s (hpc s)" "\<And>i. thread_inv s pl rp S i (R i) (hpc s i)" "\<not> hbad s"
    using inv by (rule hp_invE) blast
  note d = thread_invD [OF r(6)] and h = heap_okD [OF r(3)]
  let ?t = "hgo i c' (s\<lparr>hlog := l\<rparr>)"
  have top: "x \<in> set S" if "hhead s = Some x" for x
    using h(1) that by (cases S) auto
  have "hp_rep ?t pl rp S P (R(i := R i))"
  proof (rule hp_step [OF r(1), where c' = c'])
    show "heap_ok ?t pl rp S P" using r(3) by (simp add: heap_ok_def hgo_def)
    show "thread_inv ?t pl rp S i (R i) c'"
      unfolding thread_inv_def
    proof (intro conjI allI impI ballI)
      show "pl x = Some (POwned i)" if "hown c' = Some x" for x using that pos(1) d(1) [of i x] by auto
      show "hheap ?t x \<noteq> None" if "guarded c' = Some x" for x
        using pos(6) [OF that] d(8) [of i x] top [of x] h(4,7) [of x] by (auto simp: hgo_def)
    qed (use pos d in \<open>auto simp: hgo_def\<close>)
    show "n \<le> k" if "guarded c' = Some x" "scanned (hpc s j) = Some (x, n)" "hslot ?t i = Some k" for x j k n
      using pos(6) [OF that(1)]
    proof
      assume "guarded (hpc s i) = Some x"
      with that r(5) show ?thesis unfolding scan_ok_def by (auto simp: hgo_def)
    next
      assume "hhead s = Some x"
      then show ?thesis using h(4) [OF top] scanned_place [OF r(3,6) that(2)] by auto
    qed
  qed (use r(4) scan in \<open>auto simp: hgo_def slots_ok_def\<close>)
  then show ?thesis by (rule hp_invI) (use stay [OF r(2) h(1)] r(7) in \<open>auto simp: hgo_def\<close>)
qed

text \<open>Allocation of a node, and writes to a node the thread owns.\<close>

lemma hp_put:
  assumes inv: "hp_inv s"
    and x: "hown (hpc s i) = Some x \<or> hheap s x = None \<and> hown (hpc s i) = None"
    and c': "hown c' = Some x" "own_ok ((hheap s)(x \<mapsto> n')) c'" "\<not> uses_slot c'" "published c' = None" "guarded c' = None"
      "\<And>R. rlist (rnodes s) (hpc s i) R \<Longrightarrow> rlist (rnodes s) c' R"
    and scan: "\<And>n. scanned c' = Some (x, n) \<Longrightarrow> n = 0 \<or> scanned (hpc s i) = Some (x, n) \<or> hheap s x = None"
      "\<And>y n. scanned c' = Some (y, n) \<Longrightarrow> y = x"
  shows "hp_inv (hgo i c' (s\<lparr>hheap := (hheap s)(x \<mapsto> n')\<rparr>))"
proof -
  obtain pl rp S P R where r: "hp_rep s pl rp S P R" "stack_log (hlog s) (map (node_val (hheap s)) S)"
    "heap_ok s pl rp S P" "slots_ok s" "scan_ok s (hpc s)" "\<And>i. thread_inv s pl rp S i (R i) (hpc s i)" "\<not> hbad s"
    using inv by (rule hp_invE) blast
  note d = thread_invD [OF r(6)] and h = heap_okD [OF r(3)]
  let ?h = "(hheap s)(x \<mapsto> n')" and ?pl = "pl(x \<mapsto> POwned i)"
  let ?t = "hgo i c' (s\<lparr>hheap := ?h\<rparr>)"
  have plx: "pl x = Some (POwned i) \<or> pl x = None" using x d(1) [of i x] h(7) [of x] by auto
  have xS: "x \<notin> set S" using plx h(4) by fastforce
  have S: "seg ?h (hhead s) S None" using h(1) by (rule seg_same) (use xS in auto)
  have nr: "pl x \<noteq> Some (PReclaim q)" for q using plx by auto
  have "hp_rep ?t ?pl rp S P (R(i := R i))"
  proof (rule hp_step [OF r(1), where c' = c'])
    show "heap_ok ?t ?pl rp S P"
      unfolding heap_ok_def
    proof (intro conjI ballI allI impI)
      show "has_val (hheap ?t) y" if "y \<in> set S" for y using h(5) [OF that] that xS by (auto simp: hgo_def has_val_def)
      show "\<exists>n z. rnodes ?t q = Some n \<and> ndata n = Some z \<and> ?pl z = Some (PReclaim q)" if "rp q \<noteq> None" for q
        using reclaim_upd [of "rnodes s" q pl x "Some (POwned i)", OF h(8) [OF that] nr] unfolding hgo_def by simp
      show "?pl y = Some PStack" if "y \<in> set S" for y using h(4) [OF that] that xS by auto
    qed (use S h xS in \<open>auto simp: hgo_def\<close>)
    show "thread_inv ?t ?pl rp S i (R i) c'"
      using c' d(3,4) [of i] d(5) [of _ i] unfolding thread_inv_def by (auto simp: hgo_def)
    show "?pl y = pl y \<and> hheap ?t y = hheap s y" if "j \<noteq> i" "pl y = Some (POwned j)" for j y
      using that plx by (auto simp: hgo_def)
    show "n \<le> k" if "scanned c' = Some (y, n)" "j \<noteq> i" "guarded (hpc s j) = Some y" "hslot s j = Some k" for y j k n
    proof -
      have "hheap s x \<noteq> None" "y = x" using d(8) [OF that(3)] scan(2) [OF that(1)] by auto
      with scan(1) [of n] that r(5) show ?thesis unfolding scan_ok_def by blast
    qed
  qed (use r(4) xS c' in \<open>auto simp: hgo_def slots_ok_def\<close>)
  moreover have "map (node_val (hheap ?t)) S = map (node_val (hheap s)) S"
    by (rule node_vals_frame) (use xS in \<open>auto simp: hgo_def\<close>)
  then have "stack_log (hlog ?t) (map (node_val (hheap ?t)) S)" using r(2) by (simp only:) (simp add: hgo_def)
  ultimately show ?thesis by (rule hp_invI) (use r(7) in \<open>simp add: hgo_def\<close>)
qed

text \<open>A write to the next pointer of the first node of a list the thread owns.\<close>

lemma hp_relink:
  assumes inv: "hp_inv s" and c: "hpc s i \<in> {HAddLoad r a, HAddCas r a}" and n: "rnodes s r = Some n"
  shows "hp_inv (hgo i (HAddCas r a) (s\<lparr>rnodes := (rnodes s)(r \<mapsto> n\<lparr>nnext := p\<rparr>)\<rparr>))"
proof -
  obtain pl rp S P R where r: "hp_rep s pl rp S P R" "stack_log (hlog s) (map (node_val (hheap s)) S)"
    "heap_ok s pl rp S P" "slots_ok s" "scan_ok s (hpc s)" "\<And>i. thread_inv s pl rp S i (R i) (hpc s i)" "\<not> hbad s"
    using inv by (rule hp_invE) blast
  note d = thread_invD [OF r(6)] and h = heap_okD [OF r(3)]
  let ?h = "(rnodes s)(r \<mapsto> n\<lparr>nnext := p\<rparr>)"
  let ?t = "hgo i (HAddCas r a) (s\<lparr>rnodes := ?h\<rparr>)"
  obtain ns where R: "R i = r # ns" "rlist (rnodes s) (HAddCas r a :: 'a hp_pc) (r # ns)"
    using c d(3) [of i] by (cases a) auto
  have "r \<notin> set ns" using d(4) [of i] R(1) by simp
  with R(2) have R': "rlist ?h (HAddCas r a :: 'a hp_pc) (r # ns)"
    by (cases a) (auto intro: seg_same)
  have rp: "rp r = Some (ROwned i)" using d(5) [of r i] R(1) by simp
  then have rP: "r \<notin> set P" using h(6) by force
  have P: "seg ?h (nodes_to_reclaim s) P None" using h(3) by (rule seg_same) (use rP in auto)
  have "hp_rep ?t pl rp S P (R(i := R i))"
  proof (rule hp_step [OF r(1), where c' = "HAddCas r a"])
    show "heap_ok ?t pl rp S P"
      unfolding heap_ok_def
    proof (intro conjI ballI allI impI)
      show "\<exists>n z. rnodes ?t q = Some n \<and> ndata n = Some z \<and> pl z = Some (PReclaim q)" if "rp q \<noteq> None" for q
        using h(8) [OF that] n by (auto simp: hgo_def)
    qed (use P h in \<open>auto simp: hgo_def\<close>)
    show "thread_inv ?t pl rp S i (R i) (HAddCas r a)"
      using d(4) [of i] d(5) [of _ i] R R' unfolding thread_inv_def by (auto simp: hgo_def)
  qed (use r(4) rp in \<open>auto simp: hgo_def slots_ok_def\<close>)
  then show ?thesis by (rule hp_invI) (use r(2,7) in \<open>simp_all add: hgo_def\<close>)
qed

text \<open>The exchanges that succeed.\<close>

lemma hp_push_cas:
  assumes inv: "hp_inv s" and c: "hpc s i = HPushCas a" and n: "hheap s a = Some n" "nnext n = hhead s"
  shows "hp_inv (hgo i HIdle (s\<lparr>hhead := Some a,
    hlog := hlog s @ [(QPush (node_val (hheap s) a), Pushed True)]\<rparr>))"
proof -
  obtain pl rp S P R where r: "hp_rep s pl rp S P R" "stack_log (hlog s) (map (node_val (hheap s)) S)"
    "heap_ok s pl rp S P" "slots_ok s" "scan_ok s (hpc s)" "\<And>i. thread_inv s pl rp S i (R i) (hpc s i)" "\<not> hbad s"
    using inv by (rule hp_invE) blast
  note d = thread_invD [OF r(6)] and h = heap_okD [OF r(3)]
  have a: "pl a = Some (POwned i)" "has_val (hheap s) a" using d(1) [of i a] d(2) [of i] c by auto
  then have aS: "a \<notin> set S" using h(4) by fastforce
  let ?t = "hgo i HIdle (s\<lparr>hhead := Some a, hlog := hlog s @ [(QPush (node_val (hheap s) a), Pushed True)]\<rparr>)"
  let ?pl = "pl(a \<mapsto> PStack)"
  have "hp_rep ?t ?pl rp (a # S) P (R(i := []))"
  proof (rule hp_step [OF r(1), where c' = HIdle])
    show "heap_ok ?t ?pl rp (a # S) P"
      unfolding heap_ok_def
    proof (intro conjI allI impI)
      show "\<exists>n z. rnodes ?t q = Some n \<and> ndata n = Some z \<and> ?pl z = Some (PReclaim q)" if "rp q \<noteq> None" for q
        using reclaim_upd [of "rnodes s" q pl a "Some PStack", OF h(8) [OF that]] a(1) unfolding hgo_def by simp
    qed (use h(1-7) n a aS in \<open>auto simp: hgo_def split: if_splits\<close>)
    show "hheap ?t y \<noteq> None \<and> (y \<in> set (a # S) \<longrightarrow> y \<in> set S \<and> map_option nnext (hheap ?t y) = map_option nnext (hheap s y))"
      if "j \<noteq> i" "guarded (hpc s j) = Some y" "hheap s y \<noteq> None" for j y
    proof -
      have "y \<noteq> a" using scan_done [OF r(4,5,6), of i a j] that(2) c by auto
      with that(3) show ?thesis by (simp add: hgo_def)
    qed
  qed (use r(4) a in \<open>auto simp: hgo_def slots_ok_def thread_inv_def\<close>)
  moreover have "stack_log (hlog ?t) (map (node_val (hheap ?t)) (a # S))"
    using stack_log_snoc [OF r(2), of "QPush (node_val (hheap s) a)"] by (simp add: hgo_def)
  ultimately show ?thesis by (rule hp_invI) (use r(7) in \<open>simp add: hgo_def\<close>)
qed

lemma hp_take:
  assumes inv: "hp_inv s" and c: "hpc s i = HCas x p" and hd: "hhead s = Some x"
  shows "hp_inv (hgo i (HClear (Some (x, node_val (hheap s) x))) (s\<lparr>hhead := p,
    hlog := hlog s @ [(QPop, Popped (Some (node_val (hheap s) x)))]\<rparr>))"
proof -
  obtain pl rp S P R where r: "hp_rep s pl rp S P R" "stack_log (hlog s) (map (node_val (hheap s)) S)"
    "heap_ok s pl rp S P" "slots_ok s" "scan_ok s (hpc s)" "\<And>i. thread_inv s pl rp S i (R i) (hpc s i)" "\<not> hbad s"
    using inv by (rule hp_invE) blast
  note d = thread_invD [OF r(6)] and h = heap_okD [OF r(3)]
  obtain S' where S: "S = x # S'" using h(1) hd by (cases S) auto
  obtain n where n: "hheap s x = Some n" "nnext n = p" using d(9) [OF c] S by auto
  have x: "pl x = Some PStack" "has_val (hheap s) x" using h(4,5) S by auto
  let ?c = "HClear (Some (x, node_val (hheap s) x))"
  let ?t = "hgo i ?c (s\<lparr>hhead := p, hlog := hlog s @ [(QPop, Popped (Some (node_val (hheap s) x)))]\<rparr>)"
  let ?pl = "pl(x \<mapsto> POwned i)"
  have R: "R i = []" and sl: "hslot s i \<noteq> None" using d(3,6) [of i] c by auto
  have "hp_rep ?t ?pl rp S' P (R(i := []))"
  proof (rule hp_step [OF r(1), where c' = ?c])
    show "heap_ok ?t ?pl rp S' P"
      unfolding heap_ok_def
    proof (intro conjI allI impI)
      show "\<exists>n z. rnodes ?t q = Some n \<and> ndata n = Some z \<and> ?pl z = Some (PReclaim q)" if "rp q \<noteq> None" for q
        using reclaim_upd [of "rnodes s" q pl x "Some (POwned i)", OF h(8) [OF that]] x(1) unfolding hgo_def by simp
    qed (use h(1-7) n S in \<open>auto simp: hgo_def split: if_splits\<close>)
    show "thread_inv ?t ?pl rp S' i [] ?c"
      using n sl x(2) by (auto simp: thread_inv_def hgo_def node_val_def has_val_def)
  qed (use r(4) x S in \<open>auto simp: hgo_def slots_ok_def\<close>)
  moreover have "stack_log (hlog ?t) (map (node_val (hheap ?t)) S')"
    using stack_log_snoc [OF r(2), of QPop] by (simp add: hgo_def S)
  ultimately show ?thesis by (rule hp_invI) (use r(7) in \<open>simp add: hgo_def\<close>)
qed

text \<open>The list to reclaim: a node is created, taken with the whole list, put back or deleted.\<close>

lemma hp_new_reclaim:
  assumes inv: "hp_inv s" and c: "hpc s i = HNewReclaim x" and a: "rnodes s a = None"
  shows "hp_inv (hgo i (HAddLoad a None) (s\<lparr>rnodes := (rnodes s)(a \<mapsto> \<lparr>ndata = Some x, nnext = None\<rparr>)\<rparr>))"
proof -
  obtain pl rp S P R where r: "hp_rep s pl rp S P R" "stack_log (hlog s) (map (node_val (hheap s)) S)"
    "heap_ok s pl rp S P" "slots_ok s" "scan_ok s (hpc s)" "\<And>i. thread_inv s pl rp S i (R i) (hpc s i)" "\<not> hbad s"
    using inv by (rule hp_invE) blast
  note d = thread_invD [OF r(6)] and h = heap_okD [OF r(3)]
  let ?h = "(rnodes s)(a \<mapsto> \<lparr>ndata = Some x, nnext = None\<rparr>)"
  let ?t = "hgo i (HAddLoad a None) (s\<lparr>rnodes := ?h\<rparr>)"
  let ?pl = "pl(x \<mapsto> PReclaim a)" and ?rp = "rp(a \<mapsto> ROwned i)"
  have x: "pl x = Some (POwned i)" using d(1) [of i x] c by simp
  have free: "rp a = None" using h(8) [of a] a by (cases "rp a") auto
  then have aP: "a \<notin> set P" using h(6) by force
  have P: "seg ?h (nodes_to_reclaim s) P None" using h(3) by (rule seg_same) (use aP in auto)
  have "hp_rep ?t ?pl ?rp S P (R(i := [a]))"
  proof (rule hp_step [OF r(1), where c' = "HAddLoad a None"])
    show "heap_ok ?t ?pl ?rp S P"
      unfolding heap_ok_def
    proof (intro conjI ballI allI impI)
      show "\<exists>n z. rnodes ?t q = Some n \<and> ndata n = Some z \<and> ?pl z = Some (PReclaim q)" if "?rp q \<noteq> None" for q
      proof (cases "q = a")
        case False
        with that have "rp q \<noteq> None" by simp
        then show ?thesis
          using reclaim_upd [of "rnodes s" q pl x "Some (PReclaim a)", OF h(8)] x False unfolding hgo_def by simp
      qed (simp add: hgo_def)
      show "?pl y = Some PStack" if "y \<in> set S" for y using h(4) [OF that] x by auto
    qed (use P h(1-7) aP x in \<open>auto simp: hgo_def split: if_splits\<close>)
    show "thread_inv ?t ?pl ?rp S i [a] (HAddLoad a None)" by (simp add: thread_inv_def)
  qed (use r(4) x free in \<open>auto simp: hgo_def slots_ok_def\<close>)
  then show ?thesis by (rule hp_invI) (use r(2,7) in \<open>simp_all add: hgo_def\<close>)
qed

lemma hp_exchange:
  assumes inv: "hp_inv s" and c: "hpc s i = HExchange"
  shows "hp_inv (hgo i (HWalk (nodes_to_reclaim s)) (s\<lparr>nodes_to_reclaim := None\<rparr>))"
proof -
  obtain pl rp S P R where r: "hp_rep s pl rp S P R" "stack_log (hlog s) (map (node_val (hheap s)) S)"
    "heap_ok s pl rp S P" "slots_ok s" "scan_ok s (hpc s)" "\<And>i. thread_inv s pl rp S i (R i) (hpc s i)" "\<not> hbad s"
    using inv by (rule hp_invE) blast
  note h = heap_okD [OF r(3)]
  let ?t = "hgo i (HWalk (nodes_to_reclaim s)) (s\<lparr>nodes_to_reclaim := None\<rparr>)"
  let ?rp = "\<lambda>q. if q \<in> set P then Some (ROwned i) else rp q"
  have "hp_rep ?t pl ?rp S [] (R(i := P))"
  proof (rule hp_step [OF r(1), where c' = "HWalk (nodes_to_reclaim s)"])
    show "heap_ok ?t pl ?rp S []"
      unfolding heap_ok_def
    proof (intro conjI ballI allI impI)
      show "\<exists>n z. rnodes ?t q = Some n \<and> ndata n = Some z \<and> pl z = Some (PReclaim q)" if "?rp q \<noteq> None" for q
        using that h(6) [of q] h(8) [of q] by (cases "q \<in> set P") (auto simp: hgo_def)
    qed (use h in \<open>auto simp: hgo_def\<close>)
    show "thread_inv ?t pl ?rp S i P (HWalk (nodes_to_reclaim s))"
      using h(3) seg_distinct [OF h(3)] by (simp add: thread_inv_def hgo_def)
  qed (use r(4) h(6) in \<open>auto simp: hgo_def slots_ok_def\<close>)
  then show ?thesis by (rule hp_invI) (use r(2,7) in \<open>simp_all add: hgo_def\<close>)
qed

lemma hp_add_reclaim:
  assumes inv: "hp_inv s" and c: "hpc s i = HAddCas r a" and n: "rnodes s r = Some n" "nnext n = nodes_to_reclaim s"
  shows "hp_inv (hgo i (case a of None \<Rightarrow> HExchange | Some next \<Rightarrow> HWalk next) (s\<lparr>nodes_to_reclaim := Some r\<rparr>))"
proof -
  obtain pl rp S P R where r: "hp_rep s pl rp S P R" "stack_log (hlog s) (map (node_val (hheap s)) S)"
    "heap_ok s pl rp S P" "slots_ok s" "scan_ok s (hpc s)" "\<And>i. thread_inv s pl rp S i (R i) (hpc s i)" "\<not> hbad s"
    using inv by (rule hp_invE) blast
  note d = thread_invD [OF r(6)] and h = heap_okD [OF r(3)]
  define c' :: "'a hp_pc" where "c' = (case a of None \<Rightarrow> HExchange | Some next \<Rightarrow> HWalk next)"
  obtain ns where R: "R i = r # ns" "rlist (rnodes s) c' ns"
    using c d(3) [of i] by (cases a) (auto simp: c'_def)
  have q: "q \<in> set (R i) \<Longrightarrow> rp q = Some (ROwned i)" for q by (rule d(5))
  let ?t = "hgo i c' (s\<lparr>nodes_to_reclaim := Some r\<rparr>)" and ?rp = "rp(r \<mapsto> RPending)"
  have rr: "rp r = Some (ROwned i)" using q R(1) by simp
  have "hp_rep ?t pl ?rp S (r # P) (R(i := ns))"
  proof (rule hp_step [OF r(1), where c' = c'])
    show "heap_ok ?t pl ?rp S (r # P)"
      unfolding heap_ok_def
    proof (intro conjI ballI allI impI)
      show "\<exists>n z. rnodes ?t q = Some n \<and> ndata n = Some z \<and> pl z = Some (PReclaim q)" if "?rp q \<noteq> None" for q
        using that rr h(8) [of q] by (cases "q = r") (auto simp: hgo_def)
    qed (use h n in \<open>auto simp: hgo_def\<close>)
    show "thread_inv ?t pl ?rp S i ns c'"
      using R q d(4) [of i] by (cases a) (auto simp: thread_inv_def hgo_def c'_def)
    show "scanned c' = Some (x, n) \<Longrightarrow> j \<noteq> i \<Longrightarrow> guarded (hpc s j) = Some x \<Longrightarrow> hslot s j = Some k \<Longrightarrow> n \<le> k"
      "guarded c' = Some x \<Longrightarrow> j \<noteq> i \<Longrightarrow> scanned (hpc s j) = Some (x, n) \<Longrightarrow> hslot ?t i = Some k \<Longrightarrow> n \<le> k"
      for x j k n by (auto simp: c'_def split: option.splits)
  qed (use r(4) rr in \<open>auto simp: hgo_def slots_ok_def\<close>)
  then show ?thesis unfolding c'_def by (rule hp_invI) (use r(2,7) in \<open>simp_all add: hgo_def\<close>)
qed

text \<open>Deletion after a scan: no thread reads the node.\<close>

lemma hp_delete:
  assumes inv: "hp_inv s" and c: "hpc s i = HDelete x"
  shows "hp_inv (hgo i HExchange (s\<lparr>hheap := (hheap s)(x := None)\<rparr>))"
proof -
  obtain pl rp S P R where r: "hp_rep s pl rp S P R" "stack_log (hlog s) (map (node_val (hheap s)) S)"
    "heap_ok s pl rp S P" "slots_ok s" "scan_ok s (hpc s)" "\<And>i. thread_inv s pl rp S i (R i) (hpc s i)" "\<not> hbad s"
    using inv by (rule hp_invE) blast
  note d = thread_invD [OF r(6)] and h = heap_okD [OF r(3)]
  let ?h = "(hheap s)(x := None)" and ?pl = "pl(x := None)"
  let ?t = "hgo i HExchange (s\<lparr>hheap := ?h\<rparr>)"
  have x: "pl x = Some (POwned i)" using d(1) [of i x] c by simp
  have xS: "x \<notin> set S" using x h(4) by fastforce
  have S: "seg ?h (hhead s) S None" using h(1) by (rule seg_same) (use xS in auto)
  have xg: "guarded (hpc s j) \<noteq> Some x" for j using scan_done [OF r(4,5,6), of i x j] c by simp
  have "hp_rep ?t ?pl rp S P (R(i := []))"
  proof (rule hp_step [OF r(1), where c' = HExchange])
    show "heap_ok ?t ?pl rp S P"
      unfolding heap_ok_def
    proof (intro conjI ballI allI impI)
      show "\<exists>n z. rnodes ?t q = Some n \<and> ndata n = Some z \<and> ?pl z = Some (PReclaim q)" if "rp q \<noteq> None" for q
        using reclaim_upd [of "rnodes s" q pl x None, OF h(8) [OF that]] x unfolding hgo_def by simp
      show "has_val (hheap ?t) y" if "y \<in> set S" for y using h(5) [OF that] that xS by (auto simp: hgo_def has_val_def)
      show "?pl y = Some PStack" if "y \<in> set S" for y using h(4) [OF that] that xS by auto
    qed (use S h(1-7) in \<open>auto simp: hgo_def split: if_splits\<close>)
  qed (use r(4) x xS xg in \<open>auto simp: hgo_def slots_ok_def thread_inv_def\<close>)
  moreover have "map (node_val (hheap ?t)) S = map (node_val (hheap s)) S"
    by (rule node_vals_frame) (use xS in \<open>auto simp: hgo_def\<close>)
  then have "stack_log (hlog ?t) (map (node_val (hheap ?t)) S)" using r(2) by (simp only:) (simp add: hgo_def)
  ultimately show ?thesis by (rule hp_invI) (use r(7) in \<open>simp add: hgo_def\<close>)
qed

lemma hp_delete_reclaim:
  assumes inv: "hp_inv s" and c: "hpc s i = HWDelete r x p"
  shows "hp_inv (hgo i (HWalk p) (s\<lparr>rnodes := (rnodes s)(r := None), hheap := (hheap s)(x := None)\<rparr>))"
proof -
  obtain pl rp S P R where r: "hp_rep s pl rp S P R" "stack_log (hlog s) (map (node_val (hheap s)) S)"
    "heap_ok s pl rp S P" "slots_ok s" "scan_ok s (hpc s)" "\<And>i. thread_inv s pl rp S i (R i) (hpc s i)" "\<not> hbad s"
    using inv by (rule hp_invE) blast
  note d = thread_invD [OF r(6)] and h = heap_okD [OF r(3)]
  obtain ns m where R: "R i = r # ns" "seg (rnodes s) p ns None" and m: "rnodes s r = Some m" "ndata m = Some x"
    using d(3) [of i] c by auto
  have q: "q \<in> set (R i) \<Longrightarrow> rp q = Some (ROwned i)" for q by (rule d(5))
  have rr: "rp r = Some (ROwned i)" using q R(1) by simp
  let ?h = "(hheap s)(x := None)" and ?pl = "pl(x := None)" and ?rp = "rp(r := None)" and ?r = "(rnodes s)(r := None)"
  let ?t = "hgo i (HWalk p) (s\<lparr>rnodes := ?r, hheap := ?h\<rparr>)"
  have x: "pl x = Some (PReclaim r)" using h(8) [of r] rr m by simp
  have xS: "x \<notin> set S" and rP: "r \<notin> set P" using x rr h(4,6) by fastforce+
  have rn: "r \<notin> set ns" "distinct ns" using d(4) [of i] R(1) by auto
  have S: "seg ?h (hhead s) S None" using h(1) by (rule seg_same) (use xS in auto)
  have P: "seg ?r (nodes_to_reclaim s) P None" using h(3) by (rule seg_same) (use rP in auto)
  have ns: "seg ?r p ns None" using R(2) by (rule seg_same) (use rn in auto)
  have xg: "guarded (hpc s j) \<noteq> Some x" for j using scan_done [OF r(4,5,6), of i x j] c by simp
  have "hp_rep ?t ?pl ?rp S P (R(i := ns))"
  proof (rule hp_step [OF r(1), where c' = "HWalk p"])
    show "heap_ok ?t ?pl ?rp S P"
      unfolding heap_ok_def
    proof (intro conjI ballI allI impI)
      show "\<exists>n z. rnodes ?t q = Some n \<and> ndata n = Some z \<and> ?pl z = Some (PReclaim q)" if "?rp q \<noteq> None" for q
      proof -
        have "q \<noteq> r" "rp q \<noteq> None" using that by (auto split: if_splits)
        then show ?thesis
          using reclaim_upd [of "rnodes s" q pl x None, OF h(8)] x unfolding hgo_def by simp
      qed
      show "has_val (hheap ?t) y" if "y \<in> set S" for y using h(5) [OF that] that xS by (auto simp: hgo_def has_val_def)
      show "?pl y = Some PStack" if "y \<in> set S" for y using h(4) [OF that] that xS by auto
    qed (use S P rP h(1-7) in \<open>auto simp: hgo_def split: if_splits\<close>)
    show "thread_inv ?t ?pl ?rp S i ns (HWalk p)"
      using ns rn q R(1) by (auto simp: thread_inv_def hgo_def)
  qed (use r(4) x rr xS xg in \<open>auto simp: hgo_def slots_ok_def\<close>)
  moreover have "map (node_val (hheap ?t)) S = map (node_val (hheap s)) S"
    by (rule node_vals_frame) (use xS in \<open>auto simp: hgo_def\<close>)
  then have "stack_log (hlog ?t) (map (node_val (hheap ?t)) S)" using r(2) by (simp only:) (simp add: hgo_def)
  ultimately show ?thesis by (rule hp_invI) (use r(7) in \<open>simp add: hgo_def\<close>)
qed

text \<open>The slots: only their owner writes to them.\<close>

lemma hp_slot:
  assumes inv: "hp_inv s"
    and c': "hown c' = hown (hpc s i)" "own_ok (hheap s) (hpc s i) \<Longrightarrow> own_ok (hheap s) c'" "guarded c' = None" "scanned c' = None"
      "uses_slot c' \<Longrightarrow> hslot t i \<noteq> None" "\<And>k. c' \<noteq> HBind k" "published c' = None \<or> (\<exists>k p. hslot t i = Some k \<and> hptr t k = p \<and> published c' = Some p)"
      "\<And>R. rlist (rnodes s) (hpc s i) R \<Longrightarrow> rlist (rnodes s) c' R"
    and t: "hheap t = hheap s" "hhead t = hhead s" "rnodes t = rnodes s" "nodes_to_reclaim t = nodes_to_reclaim s"
      "hpc t = (hpc s)(i := c')" "hlog t = hlog s" "\<not> hbad t"
    and slot: "\<And>j. j \<noteq> i \<Longrightarrow> hslot t j = hslot s j"
      "\<And>k. hptr t k \<noteq> hptr s k \<Longrightarrow> hslot s i = Some k" and slots: "slots_ok s \<Longrightarrow> slots_ok t"
  shows "hp_inv t"
proof -
  obtain pl rp S P R where r: "hp_rep s pl rp S P R" "stack_log (hlog s) (map (node_val (hheap s)) S)"
    "heap_ok s pl rp S P" "slots_ok s" "scan_ok s (hpc s)" "\<And>i. thread_inv s pl rp S i (R i) (hpc s i)" "\<not> hbad s"
    using inv by (rule hp_invE) blast
  note d = thread_invD [OF r(6)]
  have "hp_rep t pl rp S P (R(i := R i))"
  proof (rule hp_step [OF r(1) t(5)])
    show "heap_ok t pl rp S P" using r(3) by (simp add: heap_ok_def t)
    show "slots_ok t" using slots r(4) .
    show "thread_inv t pl rp S i (R i) c'"
      using c' d(1) [of i] d(2,3,4) [of i] d(5) [of _ i] by (auto simp: thread_inv_def t)
    show "hptr t k = hptr s k" if "j \<noteq> i" "hslot s j = Some k" for j k
    proof (rule ccontr)
      assume "hptr t k \<noteq> hptr s k"
      then have "hslot s i = Some k" by (rule slot(2))
      with that r(4) show False unfolding slots_ok_def by (metis option.inject)
    qed
  qed (use slot(1) c' t in simp_all)
  then show ?thesis by (rule hp_invI) (use r(2) t in simp_all)
qed

lemma hp_invD:
  assumes "hp_inv s"
  shows "hown (hpc s i) = Some x \<Longrightarrow> hheap s x \<noteq> None" "own_ok (hheap s) (hpc s i)"
    "\<exists>R. rlist (rnodes s) (hpc s i) R \<and> (\<forall>r\<in>set R. \<exists>n x. rnodes s r = Some n \<and> ndata n = Some x \<and> hheap s x \<noteq> None)"
    "uses_slot (hpc s i) \<Longrightarrow> hslot s i \<noteq> None"
    "guarded (hpc s i) = Some x \<Longrightarrow> hheap s x \<noteq> None" "\<not> hbad s" "slots_ok s" "scan_ok s (hpc s)"
    "guarded (hpc s i) = Some x \<Longrightarrow> hslot s i = Some k \<Longrightarrow> hptr s k = Some x"
    "hpc s i = HBind k \<Longrightarrow> hslot s i = None"
proof -
  obtain pl rp S P R where r: "hp_rep s pl rp S P R" "stack_log (hlog s) (map (node_val (hheap s)) S)"
    "heap_ok s pl rp S P" "slots_ok s" "scan_ok s (hpc s)" "\<And>i. thread_inv s pl rp S i (R i) (hpc s i)" "\<not> hbad s"
    using assms by (rule hp_invE) blast
  note d = thread_invD [OF r(6)] and h = heap_okD [OF r(3)]
  show "hown (hpc s i) = Some x \<Longrightarrow> hheap s x \<noteq> None" using d(1) [of i x] h(7) [of x] by auto
  have "\<exists>n x. rnodes s q = Some n \<and> ndata n = Some x \<and> hheap s x \<noteq> None" if "q \<in> set (R i)" for q
    using h(7) h(8) [of q] d(5) [OF that] by fastforce
  with d(3) [of i] show "\<exists>R. rlist (rnodes s) (hpc s i) R \<and>
      (\<forall>r\<in>set R. \<exists>n x. rnodes s r = Some n \<and> ndata n = Some x \<and> hheap s x \<noteq> None)" by blast
  show "guarded (hpc s i) = Some x \<Longrightarrow> hslot s i = Some k \<Longrightarrow> hptr s k = Some x"
    using d(7) [of i "Some x" k] by (cases "hpc s i") auto
  show "own_ok (hheap s) (hpc s i)" by (rule d(2))
  show "uses_slot (hpc s i) \<Longrightarrow> hslot s i \<noteq> None" by (rule d(6))
  show "guarded (hpc s i) = Some x \<Longrightarrow> hheap s x \<noteq> None" by (rule d(8))
  show "hpc s i = HBind k \<Longrightarrow> hslot s i = None" by (rule d(10))
  show "\<not> hbad s" "slots_ok s" "scan_ok s (hpc s)" by (fact r)+
qed

lemma hp_go_same:
  assumes "hp_inv s"
    and "hown c' = None \<or> hown c' = hown (hpc s i)"
      "\<And>h. own_ok h (hpc s i) \<Longrightarrow> own_ok h c'"
      "\<And>R. rlist (rnodes s) (hpc s i) R \<Longrightarrow> distinct R \<Longrightarrow> rlist (rnodes s) c' R"
      "uses_slot c' \<Longrightarrow> hslot s i \<noteq> None"
      "\<And>p. published c' = Some p \<Longrightarrow> published (hpc s i) = Some p"
      "\<And>x. guarded c' = Some x \<Longrightarrow> guarded (hpc s i) = Some x \<or> hhead s = Some x"
      "\<And>x p. c' = HCas x p \<Longrightarrow> \<exists>n. hheap s x = Some n \<and> nnext n = p"
      "\<And>k. c' = HBind k \<Longrightarrow> hslot s i = None"
    and "\<And>x n. scanned c' = Some (x, n) \<Longrightarrow> \<forall>j k. j \<noteq> i \<and> guarded (hpc s j) = Some x \<and> hslot s j = Some k \<longrightarrow> n \<le> k"
  shows "hp_inv (hgo i c' s)"
proof -
  have "hp_inv (hgo i c' (s\<lparr>hlog := hlog s\<rparr>))" using assms by (rule hp_go) blast+
  then show ?thesis by simp
qed

lemma hp_push_inv:
  assumes inv: "hp_inv s" and st: "hp_push_step i s = Some t"
  shows "hp_inv t"
proof -
  note d = hp_invD [OF inv]
  have put: "hp_inv (hgo i (HPushCas a) (s\<lparr>hheap := (hheap s)(a \<mapsto> n\<lparr>nnext := hhead s\<rparr>)\<rparr>))"
    if "hpc s i = HPushLoad a \<or> hpc s i = HPushCas a" "hheap s a = Some n" for a n
    by (rule hp_put [OF inv]) (use that d(2) [of i] in \<open>auto simp: has_val_def\<close>)
  show ?thesis
  proof (cases "hpc s i")
    case (HPushLoad a)
    with st put d(1) [of i a] show ?thesis by (auto simp: hp_push_step_def at_hnode_def)
  next
    case (HPushCas a)
    then obtain n where n: "hheap s a = Some n" using d(1) [of i a] by auto
    have "s\<lparr>hheap := (hheap s)(a \<mapsto> n\<lparr>nnext := hhead s\<rparr>)\<rparr> = hgo i (HPushCas a) (s\<lparr>hheap := (hheap s)(a \<mapsto> n\<lparr>nnext := hhead s\<rparr>)\<rparr>)"
      using HPushCas by (simp add: hgo_def fun_upd_idem)
    with st n HPushCas put [OF _ n] hp_push_cas [OF inv HPushCas n] show ?thesis
      by (auto simp: hp_push_step_def at_hnode_def split: if_splits)
  qed (use st in \<open>simp_all add: hp_push_step_def\<close>)
qed

lemma hp_alloc_inv:
  assumes inv: "hp_inv s" and st: "hp_alloc_step i a s = Some t"
  shows "hp_inv t"
proof (cases "hpc s i")
  case (HPushNew v)
  with st have a: "hheap s a = None" by (simp add: hp_alloc_step_def split: if_splits)
  have "hp_inv (hgo i (HPushLoad a) (s\<lparr>hheap := (hheap s)(a \<mapsto> \<lparr>ndata = Some v, nnext = None\<rparr>)\<rparr>))"
    by (rule hp_put [OF inv]) (use HPushNew a in \<open>auto simp: has_val_def\<close>)
  with st HPushNew show ?thesis by (simp add: hp_alloc_step_def split: if_splits)
next
  case (HNewReclaim x)
  with st show ?thesis by (auto simp: hp_alloc_step_def hp_new_reclaim [OF inv] split: if_splits)
qed (use st in \<open>simp_all add: hp_alloc_step_def\<close>)

lemma hp_bind_inv:
  assumes inv: "hp_inv s" and c: "hpc s i = HBind k"
  shows "hp_inv (bind_hazard_pointer i k s)"
proof -
  note d = hp_invD [OF inv]
  have "hp_inv (hgo i (HBind (k + 1)) s)" "hp_inv (hgo i HThrown s)"
    by (rule hp_go_same [OF inv]; use d(10) [OF c] c in simp)+
  moreover have "hp_inv (hgo i HPopLoad (s\<lparr>hid := (hid s)(k := Some i), hslot := (hslot s)(i := Some k)\<rparr>))"
    if k: "k < max_hazard_pointers" "hid s k = None"
  proof (rule hp_slot [OF inv, where i = i and c' = HPopLoad])
    show "slots_ok s \<Longrightarrow> slots_ok (hgo i HPopLoad (s\<lparr>hid := (hid s)(k := Some i), hslot := (hslot s)(i := Some k)\<rparr>))"
      using k by (auto simp: slots_ok_def hgo_def)
  qed (use c d(6) in \<open>auto simp: hgo_def\<close>)
  ultimately show ?thesis by (simp add: bind_hazard_pointer_def)
qed

lemma hp_pop_inv:
  assumes inv: "hp_inv s" and st: "hp_pop_step i s = Some t"
  shows "hp_inv t"
proof -
  note d = hp_invD [OF inv]
  show ?thesis
  proof (cases "hpc s i")
    case (HBind k)
    with st hp_bind_inv [OF inv] show ?thesis by (auto simp: hp_pop_step_def)
  next
    case HPopLoad
    have "hp_inv (hgo i (HStore (hhead s)) s)"
      by (rule hp_go_same [OF inv]) (use HPopLoad d(4) [of i] in simp_all)
    with st HPopLoad show ?thesis by (simp add: hp_pop_step_def)
  next
    case (HStore old)
    then obtain k where k: "hslot s i = Some k" using d(4) [of i] by auto
    have "hp_inv (hgo i (HReload old) (set_hp i old s))"
      by (rule hp_slot [OF inv, where i = i and c' = "HReload old"])
        (use HStore k d(6) in \<open>auto simp: hgo_def set_hp_def slots_ok_def split: if_splits\<close>)
    with st HStore show ?thesis by (simp add: hp_pop_step_def)
  next
    case (HReload temp)
    have "hp_inv (hgo i (HStore (hhead s)) s)"
      by (rule hp_go_same [OF inv]) (use HReload d(4) [of i] in simp_all)
    moreover have "hp_inv (hgo i (HNext x) s)" if "hhead s = temp" "temp = Some x" for x
      by (rule hp_go_same [OF inv]) (use HReload d(4) [of i] that in simp_all)
    moreover have "hp_inv (hgo i (HClear None) (s\<lparr>hlog := hlog s @ [(QPop, Popped None)]\<rparr>))"
      if "hhead s = temp" "temp = None"
    proof (rule hp_go [OF inv])
      show "stack_log (hlog s @ [(QPop, Popped None)]) (map (node_val (hheap s)) S)"
        if "stack_log (hlog s) (map (node_val (hheap s)) S)" "seg (hheap s) (hhead s) S None" for S
        using that \<open>hhead s = temp\<close> \<open>temp = None\<close> stack_log_snoc [of "hlog s" "[]" QPop "Popped None" "[]"] by simp
    qed (use HReload d(4) [of i] in simp_all)
    ultimately show ?thesis using st HReload by (auto simp: hp_pop_step_def split: if_splits option.splits)
  next
    case (HNext x)
    then obtain n where n: "hheap s x = Some n" using d(5) [of i x] by auto
    have "hp_inv (hgo i (HCas x (nnext n)) s)"
      by (rule hp_go_same [OF inv]) (use HNext n d(4) [of i] in simp_all)
    with st n HNext show ?thesis by (simp add: hp_pop_step_def at_hnode_def)
  next
    case (HCas x p)
    have "hp_inv (hgo i (HStore (hhead s)) s)"
      by (rule hp_go_same [OF inv]) (use HCas d(4) [of i] in simp_all)
    with st HCas hp_take [OF inv HCas] show ?thesis by (auto simp: hp_pop_step_def split: if_splits)
  next
    case (HClear r)
    then obtain k where k: "hslot s i = Some k" using d(4) [of i] by auto
    let ?c = "case r of None \<Rightarrow> HIdle | Some (x, v) \<Rightarrow> HSwap x v"
    have "hp_inv (hgo i ?c (set_hp i None s))"
      by (rule hp_slot [OF inv, where i = i and c' = ?c])
        (use HClear k d(6) in \<open>auto simp: hgo_def set_hp_def slots_ok_def split: if_splits option.splits\<close>)
    with st HClear show ?thesis by (simp add: hp_pop_step_def)
  next
    case (HSwap x v)
    then obtain n where n: "hheap s x = Some n" "ndata n = Some v" using d(2) [of i] by auto
    have "hp_inv (hgo i (HScan x 0) (s\<lparr>hheap := (hheap s)(x \<mapsto> n\<lparr>ndata := None\<rparr>)\<rparr>))"
      by (rule hp_put [OF inv]) (use HSwap in simp_all)
    with st n HSwap show ?thesis by (simp add: hp_pop_step_def at_hnode_def)
  qed (use st in \<open>simp_all add: hp_pop_step_def\<close>)
qed

lemma scan_le:
  "hp_inv s \<Longrightarrow> scanned (hpc s i) = Some (x, k) \<Longrightarrow>
   \<forall>j m. j \<noteq> i \<and> guarded (hpc s j) = Some x \<and> hslot s j = Some m \<longrightarrow> k \<le> m"
  using hp_invD(8) unfolding scan_ok_def by blast

text \<open>A slot that does not hold the node belongs to no thread that reads it.\<close>

lemma scan_next:
  assumes inv: "hp_inv s" and sc: "scanned (hpc s i) = Some (x, k)" and free: "hptr s k \<noteq> Some x"
  shows "\<forall>j m. j \<noteq> i \<and> guarded (hpc s j) = Some x \<and> hslot s j = Some m \<longrightarrow> k + 1 \<le> m"
proof (intro allI impI, elim conjE)
  fix j m
  assume g: "guarded (hpc s j) = Some x" "hslot s j = Some m"
  assume "j \<noteq> i"
  then have "k \<le> m" using scan_le [OF inv sc] g by blast
  moreover have "k \<noteq> m" using hp_invD(9) [OF inv g] free by auto
  ultimately show "k + 1 \<le> m" by simp
qed

lemma hp_reclaim_inv:
  assumes inv: "hp_inv s" and st: "hp_reclaim_step i s = Some t"
  shows "hp_inv t"
proof -
  note d = hp_invD [OF inv]
  show ?thesis
  proof (cases "hpc s i")
    case (HScan x k)
    note nx = scan_next [OF inv, of i x k]
    have "hp_inv (hgo i (HNewReclaim x) s)"
      by (rule hp_go_same [OF inv]) (simp_all add: HScan)
    moreover have "hp_inv (hgo i (HDelete x) s)" if "k = max_hazard_pointers"
      by (rule hp_go_same [OF inv]) (use HScan that scan_le [OF inv, of i x k] in auto)
    moreover have "hp_inv (hgo i (HScan x (k + 1)) s)" if "hptr s k \<noteq> Some x"
      by (rule hp_go_same [OF inv]) (use HScan nx that in auto)
    ultimately show ?thesis using st HScan by (auto simp: hp_reclaim_step_def split: if_splits)
  next
    case (HDelete x)
    with st d(1) [of i x] hp_delete [OF inv HDelete] show ?thesis
      by (auto simp: hp_reclaim_step_def at_hnode_def)
  next
    case (HAddLoad r a)
    then obtain n where n: "rnodes s r = Some n" using d(3) [of i] by (cases a) auto
    have "hp_inv (hgo i (HAddCas r a) (s\<lparr>rnodes := (rnodes s)(r \<mapsto> n\<lparr>nnext := nodes_to_reclaim s\<rparr>)\<rparr>))"
      by (rule hp_relink [OF inv]) (simp_all add: HAddLoad n)
    with st n HAddLoad show ?thesis by (simp add: hp_reclaim_step_def at_rnode_def)
  next
    case (HAddCas r a)
    then obtain n where n: "rnodes s r = Some n" using d(3) [of i] by (cases a) auto
    have "hp_inv (hgo i (HAddCas r a) (s\<lparr>rnodes := (rnodes s)(r \<mapsto> n\<lparr>nnext := nodes_to_reclaim s\<rparr>)\<rparr>))"
      by (rule hp_relink [OF inv]) (simp_all add: HAddCas n)
    then have "hp_inv (s\<lparr>rnodes := (rnodes s)(r \<mapsto> n\<lparr>nnext := nodes_to_reclaim s\<rparr>)\<rparr>)"
      using HAddCas by (simp add: hgo_def fun_upd_idem)
    with st n HAddCas hp_add_reclaim [OF inv HAddCas n] show ?thesis
      by (auto simp: hp_reclaim_step_def at_rnode_def split: if_splits)
  next
    case HExchange
    with st hp_exchange [OF inv HExchange] show ?thesis by (simp add: hp_reclaim_step_def)
  next
    case (HWalk p)
    show ?thesis
    proof (cases p)
      case None
      have "hp_inv (hgo i HIdle s)" by (rule hp_go_same [OF inv]) (simp_all add: HWalk None)
      with st HWalk None show ?thesis by (simp add: hp_reclaim_step_def)
    next
      case (Some r)
      then obtain n x where n: "rnodes s r = Some n" "ndata n = Some x"
        using d(3) [of i] HWalk by (auto simp: seg_Some)
      have "hp_inv (hgo i (HWScan r x (nnext n) 0) s)"
        by (rule hp_go_same [OF inv]) (use HWalk Some n in \<open>auto simp: seg_Some\<close>)
      with st HWalk Some n show ?thesis by (simp add: hp_reclaim_step_def at_rnode_def)
    qed
  next
    case (HWScan r x p k)
    note nx = scan_next [OF inv, of i x k]
    have "hp_inv (hgo i (HAddLoad r (Some p)) s)"
      by (rule hp_go_same [OF inv]) (auto simp: HWScan)
    moreover have "hp_inv (hgo i (HWDelete r x p) s)" if "k = max_hazard_pointers"
      by (rule hp_go_same [OF inv]) (use HWScan that scan_le [OF inv, of i x k] in auto)
    moreover have "hp_inv (hgo i (HWScan r x p (k + 1)) s)" if "hptr s k \<noteq> Some x"
      by (rule hp_go_same [OF inv]) (use HWScan nx that in auto)
    ultimately show ?thesis using st HWScan by (auto simp: hp_reclaim_step_def split: if_splits)
  next
    case (HWDelete r x p)
    then obtain n where n: "rnodes s r = Some n" "hheap s x \<noteq> None" using d(3) [of i] by fastforce
    with st HWDelete hp_delete_reclaim [OF inv HWDelete] show ?thesis
      by (auto simp: hp_reclaim_step_def at_rnode_def at_hnode_def)
  qed (use st in \<open>simp_all add: hp_reclaim_step_def\<close>)
qed

lemma hp_exit_inv:
  assumes inv: "hp_inv s" and st: "hp_exit_step i s = Some t"
  shows "hp_inv t"
proof -
  note d = hp_invD [OF inv]
  from st obtain k where k: "hslot s i = Some k" and c: "hpc s i = HIdle \<or> hpc s i = HRelease"
    by (auto simp: hp_exit_step_def split: hp_pc.splits option.splits)
  show ?thesis
  proof (cases "hpc s i = HIdle")
    case True
    have "hp_inv (hgo i HRelease (set_hp i None s))"
      by (rule hp_slot [OF inv, where i = i and c' = HRelease])
        (use True k d(6) in \<open>auto simp: hgo_def set_hp_def slots_ok_def split: if_splits\<close>)
    with st k True show ?thesis by (simp add: hp_exit_step_def)
  next
    case False
    with c have r: "hpc s i = HRelease" by simp
    have only: "j = i" if "hslot s j = Some k" for j
      using d(7) k that unfolding slots_ok_def by (metis option.inject)
    have "hp_inv (hgo i HIdle (s\<lparr>hid := (hid s)(k := None), hslot := (hslot s)(i := None)\<rparr>))"
    proof (rule hp_slot [OF inv, where i = i and c' = HIdle])
      show "slots_ok s \<Longrightarrow> slots_ok (hgo i HIdle (s\<lparr>hid := (hid s)(k := None), hslot := (hslot s)(i := None)\<rparr>))"
        using only by (auto simp: slots_ok_def hgo_def)
    qed (use r d(6) in \<open>auto simp: hgo_def\<close>)
    with st k r show ?thesis by (simp add: hp_exit_step_def)
  qed
qed

interpretation hps: inv_machine hp_exec hp_inv
proof
  fix s t :: "'a hps" and e
  assume inv: "hp_inv s" and st: "hp_exec e s = Some t"
  show "hp_inv t"
  proof (cases e)
    case (HPush i v)
    have "hp_inv (hgo i (HPushNew v) s)" if "hpc s i \<in> {HIdle, HThrown}"
      by (rule hp_go_same [OF inv]) (use that in auto)
    with st HPush show ?thesis by (auto split: if_splits)
  next
    case (HPop i)
    let ?c = "if hslot s i = None then HBind 0 else HPopLoad"
    have "hp_inv (hgo i ?c s)" if "hpc s i \<in> {HIdle, HThrown}"
      by (rule hp_go_same [OF inv]) (use that in \<open>auto split: if_splits\<close>)
    with st HPop show ?thesis by (auto split: if_splits)
  qed (use st inv hp_alloc_inv hp_push_inv hp_pop_inv hp_reclaim_inv hp_exit_inv in auto)
qed

lemma hp_start: "hp_inv hazard_pointer_stack"
  unfolding hp_inv_def
  by (intro conjI exI [of _ "\<lambda>_. None"] exI [of _ "[]"] exI [of _ "\<lambda>_. []"])
    (auto simp: hazard_pointer_stack_def hp_rep_def heap_ok_def slots_ok_def scan_ok_def thread_inv_def)

text \<open>
  C17. Any number of threads that start, push, pop and exit, any interleaving, any reuse of freed
  addresses: no thread touches or deletes a deleted node or a deleted entry of the list to
  reclaim, each \<open>pop\<close> returns the value logged for it, the log is a run of a stack, and two
  threads never share a slot.
\<close>

theorem hazard_pointer_stack_safe:
  assumes "run hp_exec es hazard_pointer_stack = Some s"
  shows "\<not> hbad s \<and>
    (\<exists>S. seg (hheap s) (hhead s) S None \<and> stack_log (hlog s) (map (node_val (hheap s)) S)) \<and>
    (\<forall>i j k. hslot s i = Some k \<and> hslot s j = Some k \<longrightarrow> i = j)"
proof -
  have inv: "hp_inv s" using hp_start assms by (rule hps.run_inv)
  then have "\<exists>S. seg (hheap s) (hhead s) S None \<and> stack_log (hlog s) (map (node_val (hheap s)) S)"
    unfolding hp_inv_def hp_rep_def heap_ok_def by blast
  moreover have "\<forall>i j k. hslot s i = Some k \<and> hslot s j = Some k \<longrightarrow> i = j"
    using hp_invD(7) [OF inv] unfolding slots_ok_def by (metis option.inject)
  ultimately show ?thesis using hp_invD(6) [OF inv] by blast
qed

text \<open>
  Two pops meet at one node: the loser's slot keeps it, so the winner puts it on the list to
  reclaim, finds it there again and puts it back.
\<close>

definition two_hp_pops :: "nat hp_event list" where
  "two_hp_pops = [HPush 0 5, HAlloc 0 0, HPushStep 0, HPushStep 0, HPop 1, HPop 2] @
     replicate 3 (HPopStep 1) @ replicate 6 (HPopStep 2) @ replicate 5 (HPopStep 1) @
     replicate 2 (HReclaimStep 1) @ HAlloc 1 7 # replicate 9 (HReclaimStep 1) @ [HPopStep 2]"

lemmas hp_defs = hazard_pointer_stack_def hgo_def at_hnode_def at_rnode_def set_hp_def
  bind_hazard_pointer_def hp_push_step_def hp_alloc_step_def hp_pop_step_def hp_reclaim_step_def
  hp_exit_step_def max_hazard_pointers_def node_val_def

theorem hazard_pointer_stack_safe_witness:
  "\<exists>s. run hp_exec two_hp_pops hazard_pointer_stack = Some s \<and> hpc s 1 = HIdle \<and> nodes_to_reclaim s = Some 7 \<and>
     (\<not> hbad s \<and>
      (\<exists>S. seg (hheap s) (hhead s) S None \<and> stack_log (hlog s) (map (node_val (hheap s)) S)) \<and>
      (\<forall>i j k. hslot s i = Some k \<and> hslot s j = Some k \<longrightarrow> i = j))"
proof -
  obtain s where r: "run hp_exec two_hp_pops hazard_pointer_stack = Some s" and "hpc s 1 = HIdle" "nodes_to_reclaim s = Some 7"
    by (simp add: two_hp_pops_def numeral_eq_Suc hp_defs)
  with hazard_pointer_stack_safe [OF r] show ?thesis by blast
qed

end
