(* ===== verification/LockFreeStack.thy ===== *)
theory LockFreeStack
  imports NodeHeap
begin

text \<open>
  The stack of \<open>src/Concurrent/day17-LockFreeStack/LockFreeStack.h\<close>: a linked list whose head
  is moved by compare-exchange, and a counter of the threads inside \<open>pop\<close> that decides when a
  node may be deleted. Each atomic access is a step, with sequentially consistent order (the
  code names no other); any number of threads run. The member atomics are taken to start at
  null and zero: the constructor does not say so, and before C++20 they start indeterminate.
\<close>

section \<open>The machine\<close>

text \<open>The points of \<open>push\<close> and \<open>pop\<close> between two steps; names of local variables as in the code.\<close>

datatype 'a lfs_pc =
    SIdle
  | SPushNew 'a                              \<comment> \<open>\<open>new node(data)\<close>\<close>
  | SPushLoad nat                            \<comment> \<open>\<open>new_node->next = head.load()\<close>\<close>
  | SPushCas nat
  | SPopInc                                  \<comment> \<open>\<open>++threads_in_pop\<close>\<close>
  | SPopLoad                                 \<comment> \<open>\<open>old_head = head.load()\<close>\<close>
  | SPopEmpty                                \<comment> \<open>\<open>--threads_in_pop; return nullptr\<close>\<close>
  | SPopNext nat                             \<comment> \<open>reads \<open>old_head->next\<close>\<close>
  | SPopCas nat "nat option"
  | SPopSwap nat 'a                          \<comment> \<open>\<open>res.swap(old_head->data)\<close>; the logged value\<close>
  | SReclaim nat                             \<comment> \<open>\<open>threads_in_pop == 1\<close>\<close>
  | SExchange nat                            \<comment> \<open>\<open>to_be_deleted.exchange(nullptr)\<close>\<close>
  | SDecrement nat "nat option"              \<comment> \<open>\<open>!--threads_in_pop\<close>\<close>
  | SDeleteNodes nat "nat option"
  | SChainWalk nat nat nat                   \<comment> \<open>\<open>old_head\<close>, \<open>nodes\<close>, \<open>last\<close>\<close>
  | SChainLink "nat option" nat nat          \<comment> \<open>\<open>last->next = to_be_deleted\<close>\<close>
  | SChainCas "nat option" nat nat
  | SDeleteOld nat
  | SLeave                                   \<comment> \<open>\<open>--threads_in_pop\<close>\<close>

text \<open>
  \<open>sbad\<close> is set by an access to an address that holds no node and by a \<open>pop\<close> that returns
  another value than the one logged. The log has an entry per call, made by the step at which
  the call takes effect.
\<close>

record 'a lfs =
  sheap :: "'a heap"
  shead :: "nat option"
  to_be_deleted :: "nat option"
  threads_in_pop :: int
  spc :: "nat \<Rightarrow> 'a lfs_pc"
  slog :: "'a call_log"
  sbad :: bool

definition lock_free_stack :: "'a lfs" where
  "lock_free_stack = \<lparr>sheap = Map.empty, shead = None, to_be_deleted = None, threads_in_pop = 0,
     spc = (\<lambda>_. SIdle), slog = [], sbad = False\<rparr>"

definition lgo :: "nat \<Rightarrow> 'a lfs_pc \<Rightarrow> 'a lfs \<Rightarrow> 'a lfs" where
  "lgo i c s = s\<lparr>spc := (spc s)(i := c)\<rparr>"

text \<open>An access to the node at \<open>x\<close>, a write of its next pointer, and its deletion.\<close>

definition at_node :: "nat \<Rightarrow> 'a lfs \<Rightarrow> ('a node \<Rightarrow> 'a lfs) \<Rightarrow> 'a lfs" where
  "at_node x s f = (case sheap s x of None \<Rightarrow> s\<lparr>sbad := True\<rparr> | Some n \<Rightarrow> f n)"

definition set_next :: "nat \<Rightarrow> nat option \<Rightarrow> 'a lfs \<Rightarrow> 'a lfs" where
  "set_next x p s = at_node x s (\<lambda>n. s\<lparr>sheap := (sheap s)(x \<mapsto> n\<lparr>nnext := p\<rparr>)\<rparr>)"

definition delete_node :: "nat \<Rightarrow> 'a lfs \<Rightarrow> 'a lfs" where
  "delete_node x s = at_node x s (\<lambda>n. s\<lparr>sheap := (sheap s)(x := None)\<rparr>)"

text \<open>\<open>push\<close>: \<open>new node\<close> gets an address \<open>a\<close> that is free.\<close>

definition lfs_alloc_step :: "nat \<Rightarrow> nat \<Rightarrow> 'a lfs \<Rightarrow> 'a lfs option" where
  "lfs_alloc_step i a s = (case spc s i of
     SPushNew v \<Rightarrow>
       if sheap s a = None
       then Some (lgo i (SPushLoad a) (s\<lparr>sheap := (sheap s)(a \<mapsto> \<lparr>ndata = Some v, nnext = None\<rparr>)\<rparr>))
       else None
   | _ \<Rightarrow> None)"

definition lfs_push_step :: "nat \<Rightarrow> 'a lfs \<Rightarrow> 'a lfs option" where
  "lfs_push_step i s = (case spc s i of
     SPushLoad a \<Rightarrow> Some (lgo i (SPushCas a) (set_next a (shead s) s))
   | SPushCas a \<Rightarrow> Some (at_node a s (\<lambda>n.
       if shead s = nnext n
       then lgo i SIdle (s\<lparr>shead := Some a,
              slog := slog s @ [(QPush (node_val (sheap s) a), Pushed True)]\<rparr>)
       else set_next a (shead s) s))
   | _ \<Rightarrow> None)"

definition lfs_pop_step :: "nat \<Rightarrow> 'a lfs \<Rightarrow> 'a lfs option" where
  "lfs_pop_step i s = (case spc s i of
     SPopInc \<Rightarrow> Some (lgo i SPopLoad (s\<lparr>threads_in_pop := threads_in_pop s + 1\<rparr>))
   | SPopLoad \<Rightarrow> (case shead s of
         None \<Rightarrow> Some (lgo i SPopEmpty (s\<lparr>slog := slog s @ [(QPop, Popped None)]\<rparr>))
       | Some x \<Rightarrow> Some (lgo i (SPopNext x) s))
   | SPopEmpty \<Rightarrow> Some (lgo i SIdle (s\<lparr>threads_in_pop := threads_in_pop s - 1\<rparr>))
   | SPopNext x \<Rightarrow> Some (at_node x s (\<lambda>n. lgo i (SPopCas x (nnext n)) s))
   | SPopCas x p \<Rightarrow>
       if shead s = Some x
       then Some (lgo i (SPopSwap x (node_val (sheap s) x)) (s\<lparr>shead := p,
              slog := slog s @ [(QPop, Popped (Some (node_val (sheap s) x)))]\<rparr>))
       else Some (lgo i SPopLoad s)
   | SPopSwap x v \<Rightarrow> Some (at_node x s (\<lambda>n.
       if ndata n = Some v
       then lgo i (SReclaim x) (s\<lparr>sheap := (sheap s)(x \<mapsto> n\<lparr>ndata := None\<rparr>)\<rparr>)
       else s\<lparr>sbad := True\<rparr>))
   | _ \<Rightarrow> None)"

text \<open>\<open>try_reclaim\<close>, \<open>delete_nodes\<close> and the three \<open>chain_pending\<close> functions.\<close>

definition try_reclaim_step :: "nat \<Rightarrow> 'a lfs \<Rightarrow> 'a lfs option" where
  "try_reclaim_step i s = (case spc s i of
     SReclaim x \<Rightarrow>
       if threads_in_pop s = 1 then Some (lgo i (SExchange x) s)
       else Some (lgo i (SChainLink None x x) s)
   | SExchange x \<Rightarrow> Some (lgo i (SDecrement x (to_be_deleted s)) (s\<lparr>to_be_deleted := None\<rparr>))
   | SDecrement x nodes \<Rightarrow>
       (let t = s\<lparr>threads_in_pop := threads_in_pop s - 1\<rparr> in
        if threads_in_pop t = 0 then Some (lgo i (SDeleteNodes x nodes) t)
        else case nodes of
          Some f \<Rightarrow> Some (lgo i (SChainWalk x f f) t)
        | None \<Rightarrow> Some (lgo i (SDeleteOld x) t))
   | SDeleteNodes x nodes \<Rightarrow> (case nodes of
         None \<Rightarrow> Some (lgo i (SDeleteOld x) s)
       | Some a \<Rightarrow> Some (at_node a s (\<lambda>n. lgo i (SDeleteNodes x (nnext n)) (delete_node a s))))
   | SChainWalk x f l \<Rightarrow> Some (at_node l s (\<lambda>n. case nnext n of
         Some m \<Rightarrow> lgo i (SChainWalk x f m) s
       | None \<Rightarrow> lgo i (SChainLink (Some x) f l) s))
   | SChainLink x f l \<Rightarrow> Some (lgo i (SChainCas x f l) (set_next l (to_be_deleted s) s))
   | SChainCas x f l \<Rightarrow> Some (at_node l s (\<lambda>n.
       if to_be_deleted s = nnext n
       then lgo i (case x of Some y \<Rightarrow> SDeleteOld y | None \<Rightarrow> SLeave) (s\<lparr>to_be_deleted := Some f\<rparr>)
       else set_next l (to_be_deleted s) s))
   | SDeleteOld x \<Rightarrow> Some (lgo i SIdle (delete_node x s))
   | SLeave \<Rightarrow> Some (lgo i SIdle (s\<lparr>threads_in_pop := threads_in_pop s - 1\<rparr>))
   | _ \<Rightarrow> None)"

datatype 'a lfs_event = SPush nat 'a | SPop nat | SAlloc nat nat | SPushStep nat | SPopStep nat | SReclaimStep nat

fun lfs_exec :: "'a lfs_event \<Rightarrow> 'a lfs \<Rightarrow> 'a lfs option" where
  "lfs_exec (SPush i v) s = (if spc s i = SIdle then Some (lgo i (SPushNew v) s) else None)"
| "lfs_exec (SPop i) s = (if spc s i = SIdle then Some (lgo i SPopInc s) else None)"
| "lfs_exec (SAlloc i a) s = lfs_alloc_step i a s"
| "lfs_exec (SPushStep i) s = lfs_push_step i s"
| "lfs_exec (SPopStep i) s = lfs_pop_step i s"
| "lfs_exec (SReclaimStep i) s = try_reclaim_step i s"

section \<open>The invariant\<close>

text \<open>
  The nodes of the stack, of the list \<open>to_be_deleted\<close> and those each thread owns are disjoint.
  \<open>owns h c xs\<close>: a thread at \<open>c\<close> owns exactly the nodes \<open>xs\<close>.
\<close>

fun owns :: "'a heap \<Rightarrow> 'a lfs_pc \<Rightarrow> nat list \<Rightarrow> bool" where
  "owns h (SPushLoad a) xs = (xs = [a] \<and> has_val h a)"
| "owns h (SPushCas a) xs = (xs = [a] \<and> has_val h a)"
| "owns h (SPopSwap x v) xs = (xs = [x] \<and> (\<exists>n. h x = Some n \<and> ndata n = Some v))"
| "owns h (SReclaim x) xs = (xs = [x] \<and> h x \<noteq> None)"
| "owns h (SExchange x) xs = (xs = [x] \<and> h x \<noteq> None)"
| "owns h (SDecrement x p) xs = (\<exists>ns. xs = x # ns \<and> h x \<noteq> None \<and> seg h p ns None)"
| "owns h (SDeleteNodes x p) xs = (\<exists>ns. xs = x # ns \<and> h x \<noteq> None \<and> seg h p ns None)"
| "owns h (SChainWalk x f l) xs = (\<exists>ns. xs = x # ns \<and> h x \<noteq> None \<and> seg h (Some f) ns None \<and> l \<in> set ns)"
| "owns h (SChainLink (Some x) f l) xs =
     (\<exists>ns. xs = x # ns @ [l] \<and> h x \<noteq> None \<and> open_seg h (Some f) (ns @ [l]))"
| "owns h (SChainLink None f l) xs = (xs = [l] \<and> f = l \<and> h l \<noteq> None)"
| "owns h (SChainCas (Some x) f l) xs =
     (\<exists>ns. xs = x # ns @ [l] \<and> h x \<noteq> None \<and> open_seg h (Some f) (ns @ [l]))"
| "owns h (SChainCas None f l) xs = (xs = [l] \<and> f = l \<and> h l \<noteq> None)"
| "owns h (SDeleteOld x) xs = (xs = [x] \<and> h x \<noteq> None)"
| "owns h c xs = (xs = [])"

text \<open>The owned nodes no other thread holds a pointer to.\<close>

fun exclusive :: "'a lfs_pc \<Rightarrow> nat list \<Rightarrow> nat set" where
  "exclusive (SPushLoad a) xs = {a}"
| "exclusive (SPushCas a) xs = {a}"
| "exclusive (SExchange x) xs = {x}"
| "exclusive (SDecrement x p) xs = {x}"
| "exclusive (SDeleteNodes x p) xs = set xs"
| "exclusive (SChainWalk x f l) xs = {x}"
| "exclusive (SChainLink (Some x) f l) xs = {x}"
| "exclusive (SChainCas (Some x) f l) xs = {x}"
| "exclusive (SDeleteOld x) xs = {x}"
| "exclusive c xs = {}"

text \<open>The pointer a thread dereferences without owning the node.\<close>

fun borrowed :: "'a lfs_pc \<Rightarrow> nat set" where
  "borrowed (SPopNext x) = {x}"
| "borrowed (SPopCas x p) = {x}"
| "borrowed c = {}"

text \<open>The points at which a thread is counted in \<open>threads_in_pop\<close>.\<close>

fun counted :: "'a lfs_pc \<Rightarrow> bool" where
  "counted SPopLoad = True"
| "counted SPopEmpty = True"
| "counted (SPopNext x) = True"
| "counted (SPopCas x p) = True"
| "counted (SPopSwap x v) = True"
| "counted (SReclaim x) = True"
| "counted (SExchange x) = True"
| "counted (SDecrement x p) = True"
| "counted (SChainLink None f l) = True"
| "counted (SChainCas None f l) = True"
| "counted SLeave = True"
| "counted c = False"

definition lfs_rep :: "'a heap \<Rightarrow> nat option \<Rightarrow> nat option \<Rightarrow> (nat \<Rightarrow> 'a lfs_pc) \<Rightarrow>
    nat list \<Rightarrow> nat list \<Rightarrow> (nat \<Rightarrow> nat list) \<Rightarrow> bool" where
  "lfs_rep h tp td pc S P L \<longleftrightarrow>
     seg h tp S None \<and> seg h td P None \<and> (\<forall>i. owns h (pc i) (L i)) \<and>
     distinct (S @ P) \<and> (\<forall>i. distinct (L i)) \<and>
     (\<forall>i. set (L i) \<inter> set (S @ P) = {}) \<and> (\<forall>i j. i \<noteq> j \<longrightarrow> set (L i) \<inter> set (L j) = {}) \<and>
     (\<forall>i j. borrowed (pc i) \<inter> exclusive (pc j) (L j) = {}) \<and> (\<forall>i. borrowed (pc i) \<subseteq> dom h) \<and>
     (\<forall>i x p. pc i = SPopCas x p \<and> x \<in> set S \<longrightarrow> (\<exists>n. h x = Some n \<and> nnext n = p)) \<and>
     (\<forall>x\<in>set S. has_val h x)"

definition lfs_inv :: "'a lfs \<Rightarrow> bool" where
  "lfs_inv s \<longleftrightarrow> \<not> sbad s \<and> finite {i. counted (spc s i)} \<and>
     threads_in_pop s = int (card {i. counted (spc s i)}) \<and>
     (\<exists>S P L. lfs_rep (sheap s) (shead s) (to_be_deleted s) (spc s) S P L \<and>
        stack_log (slog s) (map (node_val (sheap s)) S))"

lemma owns_frame:
  assumes "owns h c xs" and f: "\<And>x. x \<in> set xs \<Longrightarrow> h' x = h x"
  shows "owns h' c xs"
proof -
  have "seg h' p ys q = seg h p ys q" if "set ys \<subseteq> set xs" for p ys q
    by (rule seg_frame) (use f that in auto)
  moreover have "open_seg h' p ys = open_seg h p ys" if "set ys \<subseteq> set xs" for p ys
    by (rule open_seg_frame) (use f that in auto)
  ultimately show ?thesis
    using assms by (cases "(h, c, xs)" rule: owns.cases) (auto simp: has_val_def subset_insertI)
qed

lemma owns_dom: "owns h c xs \<Longrightarrow> set xs \<subseteq> dom h"
  by (cases "(h, c, xs)" rule: owns.cases) (auto simp: has_val_def dest!: seg_dom open_seg_dom)

lemma exclusive_sub: "owns h c xs \<Longrightarrow> exclusive c xs \<subseteq> set xs"
  by (cases "(h, c, xs)" rule: owns.cases) auto

lemma repD:
  assumes "lfs_rep h tp td pc S P L"
  shows "seg h tp S None" "seg h td P None" "owns h (pc i) (L i)" "distinct (S @ P)" "distinct (L i)"
    "set (L i) \<inter> set (S @ P) = {}" "i \<noteq> j \<Longrightarrow> set (L i) \<inter> set (L j) = {}"
    "borrowed (pc i) \<inter> exclusive (pc j) (L j) = {}" "borrowed (pc i) \<subseteq> dom h"
    "pc i = SPopCas x p \<Longrightarrow> x \<in> set S \<Longrightarrow> \<exists>n. h x = Some n \<and> nnext n = p"
    "\<forall>x\<in>set S. has_val h x"
    "set S \<subseteq> dom h" "set P \<subseteq> dom h" "set (L i) \<subseteq> dom h"
  using assms by (auto simp: lfs_rep_def dest: owns_dom seg_dom)

lemma repE:
  assumes "lfs_rep h tp td pc S P L"
  shows "x \<in> set (L i) \<Longrightarrow> x \<notin> set S" "x \<in> set (L i) \<Longrightarrow> x \<notin> set P"
    "x \<in> set (L i) \<Longrightarrow> j \<noteq> i \<Longrightarrow> x \<notin> set (L j)" "x \<in> set (L i) \<Longrightarrow> h x \<noteq> None"
    "x \<in> set S \<Longrightarrow> h x \<noteq> None" "x \<in> set P \<Longrightarrow> h x \<noteq> None"
    "x \<in> borrowed (pc i) \<Longrightarrow> h x \<noteq> None" "x \<in> borrowed (pc i) \<Longrightarrow> x \<notin> exclusive (pc j) (L j)"
    "x \<in> set S \<Longrightarrow> x \<notin> set P"
  using repD [OF assms] by (auto dest!: subsetD) blast+

text \<open>
  A step of thread \<open>i\<close>: it changes the heap at nodes of its own or at a fresh address, and
  moves nodes between the lists and itself.
\<close>

lemma rep_step:
  assumes rep: "lfs_rep h tp td pc S P L"
    and heap: "\<And>x. x \<notin> set (L i) \<Longrightarrow> x \<notin> F \<Longrightarrow> h' x = h x" and F: "F \<inter> dom h = {}"
    and segs: "seg h' tp' S' None" "seg h' td' P' None" and own: "owns h' c' Li"
    and dist: "distinct (S' @ P')" "distinct Li" "set Li \<inter> set (S' @ P') = {}"
    and sub: "set S' \<union> set P' \<union> set Li \<subseteq> set S \<union> set P \<union> set (L i) \<union> F"
    and excl: "\<And>j. j \<noteq> i \<Longrightarrow> borrowed (pc j) \<inter> exclusive c' Li = {}"
    and bor: "borrowed c' \<subseteq> dom h'" "\<And>j. j \<noteq> i \<Longrightarrow> borrowed c' \<inter> exclusive (pc j) (L j) = {}"
      "borrowed c' \<inter> exclusive c' Li = {}"
    and gone: "\<And>j x. j \<noteq> i \<Longrightarrow> x \<in> borrowed (pc j) \<Longrightarrow> h' x \<noteq> None"
    and news: "set S' \<subseteq> set S \<union> exclusive (pc i) (L i)"
    and cas: "\<And>x p. c' = SPopCas x p \<Longrightarrow> x \<in> set S' \<Longrightarrow> \<exists>n. h' x = Some n \<and> nnext n = p"
    and vals: "\<forall>x\<in>set S'. has_val h' x"
  shows "lfs_rep h' tp' td' (pc(i := c')) S' P' (L(i := Li))"
  unfolding lfs_rep_def
proof (intro conjI allI impI)
  note r = repD [OF rep]
  have other: "set (L j) \<inter> (set S \<union> set P \<union> set (L i) \<union> F) = {}" if "j \<noteq> i" for j
    using r(6,14) [of j] r(7) [OF that] F by auto
  show "owns h' ((pc(i := c')) j) ((L(i := Li)) j)" for j
  proof (cases "j = i")
    case False
    have "h' x = h x" if "x \<in> set (L j)" for x
      using that other [OF False] by (intro heap) auto
    with r(3) [of j] False show ?thesis by (simp add: owns_frame)
  qed (simp add: own)
  show "set ((L(i := Li)) j) \<inter> set (S' @ P') = {}" for j
    using other [of j] sub dist(3) by (cases "j = i") auto
  show "set ((L(i := Li)) j) \<inter> set ((L(i := Li)) k) = {}" if "j \<noteq> k" for j k
    using other [of j] other [of k] sub r(7) [OF that] that by (cases "j = i"; cases "k = i") auto
  show "borrowed ((pc(i := c')) j) \<inter> exclusive ((pc(i := c')) k) ((L(i := Li)) k) = {}" for j k
    using excl [of j] bor r(8) [of j k] by (cases "j = i"; cases "k = i") auto
  show "\<exists>n. h' x = Some n \<and> nnext n = p" if "(pc(i := c')) j = SPopCas x p \<and> x \<in> set S'" for j x p
  proof (cases "j = i")
    case False
    with that have j: "pc j = SPopCas x p" "x \<in> borrowed (pc j)" by auto
    then have "x \<notin> exclusive (pc i) (L i)" using r(8) [of j i] by auto
    then have "x \<in> set S" using news that by auto
    moreover from this have "x \<notin> set (L i)" "x \<notin> F" using r(6) [of i] r(12) F by auto
    ultimately show ?thesis using r(10) [OF j(1)] heap [of x] by simp
  qed (use that cas in auto)
qed (use segs dist vals bor gone repD [OF rep] in \<open>auto split: if_splits\<close>)

text \<open>The same when neither the heap nor the two lists change.\<close>

lemma rep_go:
  assumes rep: "lfs_rep h tp td pc S P L" and own: "owns h c' Li" "distinct Li" "set Li \<subseteq> set (L i)"
    and excl: "\<And>j. j \<noteq> i \<Longrightarrow> borrowed (pc j) \<inter> exclusive c' Li = {}"
    and bor: "borrowed c' \<subseteq> dom h" "\<And>j. borrowed c' \<inter> exclusive (pc j) (L j) = {}"
      "borrowed c' \<inter> exclusive c' Li = {}"
    and cas: "\<And>x p. c' = SPopCas x p \<Longrightarrow> x \<in> set S \<Longrightarrow> \<exists>n. h x = Some n \<and> nnext n = p"
  shows "lfs_rep h tp td (pc(i := c')) S P (L(i := Li))"
proof (rule rep_step [OF rep, where F = "{}"])
  show "set Li \<inter> set (S @ P) = {}"
    using own(3) repE(1,2) [OF rep, of _ i] by auto
  show "set S \<union> set P \<union> set Li \<subseteq> set S \<union> set P \<union> set (L i) \<union> {}"
    using own(3) by auto
qed (use repD [OF rep] repE(7) [OF rep] assms in auto)

lemma card_counted:
  assumes "finite {j. counted (pc j)}"
  shows "finite {j. counted ((pc(i := c)) j)}"
    and "int (card {j. counted ((pc(i := c)) j)}) =
      int (card {j. counted (pc j)}) + of_bool (counted c) - of_bool (counted (pc i))"
proof -
  let ?A = "{j. counted (pc j)}" and ?B = "{j. counted ((pc(i := c)) j)}"
  have B: "?B = (if counted c then insert i (?A - {i}) else ?A - {i})" by auto
  then show "finite ?B" using assms by (auto split: if_splits)
  have "int (card (?A - {i})) = int (card ?A) - of_bool (counted (pc i))"
  proof (cases "counted (pc i)")
    case True
    then have "Suc (card (?A - {i})) = card ?A" using assms by (intro card_Suc_Diff1) auto
    with True show ?thesis by simp
  qed simp
  then show "int (card ?B) = int (card ?A) + of_bool (counted c) - of_bool (counted (pc i))"
    unfolding B using assms by (simp add: card.insert_remove)
qed

lemma counted_alone:
  assumes "finite {j. counted (pc j)}" "card {j. counted (pc j)} = 1" "counted (pc i)" "j \<noteq> i"
  shows "\<not> counted (pc j)"
proof
  assume "counted (pc j)"
  then have "{i, j} \<subseteq> {j. counted (pc j)}" using assms(3) by auto
  then have "card {i, j} \<le> 1" using assms(1,2) card_mono by metis
  with \<open>j \<noteq> i\<close> show False by auto
qed

lemma borrowed_counted: "\<not> counted c \<Longrightarrow> borrowed c = {}"
  by (cases c) auto

lemma inv_repI:
  assumes inv: "lfs_inv s"
    and rep: "lfs_rep (sheap t) (shead t) (to_be_deleted t) ((spc s)(i := c')) S' P' L'"
    and t: "spc t = (spc s)(i := c')" "sbad t = sbad s" "stack_log (slog t) vs"
      "map (node_val (sheap t)) S' = vs"
      "threads_in_pop t = threads_in_pop s + of_bool (counted c') - of_bool (counted (spc s i))"
  shows "lfs_inv t"
  using assms card_counted [of "spc s" i c'] by (auto simp: lfs_inv_def)

lemma lfs_alloc_inv:
  assumes inv: "lfs_inv s" and st: "lfs_alloc_step i a s = Some t"
  shows "lfs_inv t"
proof -
  obtain S P L where rep: "lfs_rep (sheap s) (shead s) (to_be_deleted s) (spc s) S P L"
    and log: "stack_log (slog s) (map (node_val (sheap s)) S)"
    using inv by (auto simp: lfs_inv_def)
  obtain v where c: "spc s i = SPushNew v" and a: "sheap s a = None"
    and t: "t = lgo i (SPushLoad a) (s\<lparr>sheap := (sheap s)(a \<mapsto> \<lparr>ndata = Some v, nnext = None\<rparr>)\<rparr>)"
    using st by (auto simp: lfs_alloc_step_def split: lfs_pc.splits if_splits)
  note r = repD [OF rep] and e = repE [OF rep]
  have na: "a \<notin> set S" "a \<notin> set P" "\<And>j. a \<notin> borrowed (spc s j)"
    using a e(5,6,7) by metis+
  have L: "L i = []" using r(3) [of i] c by simp
  let ?h = "(sheap s)(a \<mapsto> \<lparr>ndata = Some v, nnext = None\<rparr>)"
  have rep': "lfs_rep ?h (shead s) (to_be_deleted s) ((spc s)(i := SPushLoad a)) S P (L(i := [a]))"
  proof (rule rep_step [OF rep, where F = "{a}"])
    show "seg ?h (shead s) S None" "seg ?h (to_be_deleted s) P None"
      using r(1,2) na by (auto elim!: seg_same)
    show "\<forall>x\<in>set S. has_val ?h x"
      using r(11) na by (auto simp: has_val_def)
    show "j \<noteq> i \<Longrightarrow> x \<in> borrowed (spc s j) \<Longrightarrow> ?h x \<noteq> None" for j x
      using e(7) by simp
  qed (use r na a L in \<open>auto simp: has_val_def\<close>)
  have vals: "map (node_val ?h) S = map (node_val (sheap s)) S"
    using na by (intro node_vals_frame) auto
  show ?thesis
    by (rule inv_repI [OF inv, of _ i "SPushLoad a" S P "L(i := [a])" "map (node_val (sheap s)) S"])
      (use rep' log vals in \<open>simp_all add: t lgo_def c\<close>)
qed

lemma invE:
  assumes "lfs_inv s"
  obtains S P L where "lfs_rep (sheap s) (shead s) (to_be_deleted s) (spc s) S P L"
    "stack_log (slog s) (map (node_val (sheap s)) S)"
  using assms by (auto simp: lfs_inv_def)

text \<open>A write of the next pointer of an owned node.\<close>

lemma inv_set_next:
  assumes inv: "lfs_inv s"
    and own: "\<And>L. owns (sheap s) (spc s i) L \<Longrightarrow> distinct L \<Longrightarrow> a \<in> set L \<and>
      (\<forall>n. sheap s a = Some n \<longrightarrow> owns ((sheap s)(a \<mapsto> n\<lparr>nnext := p\<rparr>)) c' L \<and>
         exclusive c' L \<subseteq> exclusive (spc s i) L)"
    and c': "borrowed c' = {}" "counted c' = counted (spc s i)"
  shows "lfs_inv (lgo i c' (set_next a p s))"
proof -
  obtain S P L where rep: "lfs_rep (sheap s) (shead s) (to_be_deleted s) (spc s) S P L"
    and log: "stack_log (slog s) (map (node_val (sheap s)) S)"
    using inv by (rule invE)
  note r = repD [OF rep] and e = repE [OF rep]
  have a: "a \<in> set (L i)" using own [OF r(3) r(5)] by simp
  then obtain n where n: "sheap s a = Some n" using e(4) by blast
  let ?h = "(sheap s)(a \<mapsto> n\<lparr>nnext := p\<rparr>)"
  have na: "a \<notin> set S" "a \<notin> set P" using e(1,2) a by auto
  have rep': "lfs_rep ?h (shead s) (to_be_deleted s) ((spc s)(i := c')) S P (L(i := L i))"
  proof (rule rep_step [OF rep, where F = "{}"])
    show "seg ?h (shead s) S None" "seg ?h (to_be_deleted s) P None"
      using r(1,2) na by (auto elim!: seg_same)
    show "owns ?h c' (L i)" using own [OF r(3) r(5)] n by simp
    show "\<forall>x\<in>set S. has_val ?h x" using r(11) na by (auto simp: has_val_def)
    show "j \<noteq> i \<Longrightarrow> borrowed (spc s j) \<inter> exclusive c' (L i) = {}" for j
      using own [OF r(3) r(5)] n r(8) [of j i] by auto
    show "j \<noteq> i \<Longrightarrow> x \<in> borrowed (spc s j) \<Longrightarrow> ?h x \<noteq> None" for j x using e(7) by simp
    show "x \<notin> set (L i) \<Longrightarrow> ?h x = sheap s x" for x using a by auto
  qed (use r(4-6) c' in \<open>auto\<close>)
  have "map (node_val ?h) S = map (node_val (sheap s)) S"
    using na by (intro node_vals_frame) auto
  then show ?thesis
    by (intro inv_repI [OF inv, of _ i c' S P "L(i := L i)" "map (node_val (sheap s)) S"])
      (use rep' log c' n in \<open>simp_all add: lgo_def set_next_def at_node_def\<close>)
qed

lemma lfs_push_inv:
  assumes inv: "lfs_inv s" and st: "lfs_push_step i s = Some t"
  shows "lfs_inv t"
proof (cases "spc s i")
  case (SPushLoad a)
  with st have t: "t = lgo i (SPushCas a) (set_next a (shead s) s)" by (simp add: lfs_push_step_def)
  show ?thesis
    unfolding t using inv by (rule inv_set_next) (auto simp: SPushLoad has_val_def)
next
  case (SPushCas a)
  obtain S P L where rep: "lfs_rep (sheap s) (shead s) (to_be_deleted s) (spc s) S P L"
    and log: "stack_log (slog s) (map (node_val (sheap s)) S)"
    using inv by (rule invE)
  note r = repD [OF rep] and e = repE [OF rep]
  have L: "L i = [a]" "has_val (sheap s) a" using r(3) [of i] SPushCas by auto
  then obtain n where n: "sheap s a = Some n" by (auto simp: has_val_def)
  show ?thesis
  proof (cases "shead s = nnext n")
    case True
    let ?t = "lgo i SIdle (s\<lparr>shead := Some a, slog := slog s @ [(QPush (node_val (sheap s) a), Pushed True)]\<rparr>)"
    have "a \<notin> set S" "a \<notin> set P" using e(1,2) [of a i] L by auto
    then have "lfs_rep (sheap s) (Some a) (to_be_deleted s) ((spc s)(i := SIdle)) (a # S) P (L(i := []))"
      by (intro rep_step [OF rep, where F = "{}"]) (use r(1,2,4,11) e(7) n L True SPushCas in auto)
    moreover have "stack_log (slog s @ [(QPush (node_val (sheap s) a), Pushed True)])
        (node_val (sheap s) a # map (node_val (sheap s)) S)"
      by (rule stack_log_snoc [OF log]) simp
    ultimately have "lfs_inv ?t"
      by (intro inv_repI [OF inv, of _ i SIdle "a # S" P "L(i := [])" "node_val (sheap s) a # map (node_val (sheap s)) S"])
        (simp_all add: lgo_def SPushCas)
    then show ?thesis using st SPushCas n True by (simp add: lfs_push_step_def at_node_def)
  next
    case False
    then have "t = set_next a (shead s) s"
      using st SPushCas n by (simp add: lfs_push_step_def at_node_def)
    moreover have "lfs_inv (lgo i (SPushCas a) (set_next a (shead s) s))"
      using inv by (rule inv_set_next) (auto simp: SPushCas has_val_def)
    ultimately show ?thesis
      using SPushCas n by (simp add: lgo_def set_next_def at_node_def fun_upd_idem)
  qed
qed (use st in \<open>simp_all add: lfs_push_step_def\<close>)

text \<open>A step that moves nothing: only the point of the thread, the counter and the log change.\<close>

lemma inv_go:
  assumes inv: "lfs_inv s"
    and own: "\<And>L. owns (sheap s) (spc s i) L \<Longrightarrow> owns (sheap s) c' L \<and> exclusive c' L \<subseteq> exclusive (spc s i) L"
    and bor: "borrowed c' \<subseteq> borrowed (spc s i)"
    and cas: "\<And>x p. c' = SPopCas x p \<Longrightarrow> \<exists>n. sheap s x = Some n \<and> nnext n = p"
    and t: "sheap t = sheap s" "shead t = shead s" "to_be_deleted t = to_be_deleted s"
      "spc t = (spc s)(i := c')" "sbad t = sbad s" "slog t = slog s"
      "threads_in_pop t = threads_in_pop s + of_bool (counted c') - of_bool (counted (spc s i))"
  shows "lfs_inv t"
proof -
  obtain S P L where rep: "lfs_rep (sheap s) (shead s) (to_be_deleted s) (spc s) S P L"
    and log: "stack_log (slog s) (map (node_val (sheap s)) S)"
    using inv by (rule invE)
  note r = repD [OF rep] and e = repE [OF rep]
  have "lfs_rep (sheap s) (shead s) (to_be_deleted s) ((spc s)(i := c')) S P (L(i := L i))"
  proof (rule rep_go [OF rep])
    show "j \<noteq> i \<Longrightarrow> borrowed (spc s j) \<inter> exclusive c' (L i) = {}" for j
      using own [OF r(3)] r(8) [of j i] by auto
    show "borrowed c' \<inter> exclusive (spc s j) (L j) = {}" for j
      using bor r(8) [of i j] by auto
    show "borrowed c' \<inter> exclusive c' (L i) = {}"
      using bor own [OF r(3)] r(8) [of i i] by auto
    show "borrowed c' \<subseteq> dom (sheap s)" using bor r(9) [of i] by auto
  qed (use own [OF r(3)] r(5) cas in auto)
  then show ?thesis
    by (intro inv_repI [OF inv, of _ i c' S P "L(i := L i)" "map (node_val (sheap s)) S"])
      (use log t in simp_all)
qed

lemma lfs_pop_inv:
  assumes inv: "lfs_inv s" and st: "lfs_pop_step i s = Some t"
  shows "lfs_inv t"
proof -
  obtain S P L where rep: "lfs_rep (sheap s) (shead s) (to_be_deleted s) (spc s) S P L"
    and log: "stack_log (slog s) (map (node_val (sheap s)) S)"
    using inv by (rule invE)
  note r = repD [OF rep] and e = repE [OF rep]
  show ?thesis
  proof (cases "spc s i")
    case SPopInc
    with st show ?thesis
      by (intro inv_go [OF inv, of i SPopLoad]) (auto simp: lfs_pop_step_def lgo_def)
  next
    case SPopLoad
    have L: "L i = []" using r(3) [of i] SPopLoad by simp
    show ?thesis
    proof (cases "shead s")
      case None
      then have S: "S = []" using r(1) by simp
      have rep': "lfs_rep (sheap s) (shead s) (to_be_deleted s) ((spc s)(i := SPopEmpty)) S P (L(i := []))"
        by (rule rep_go [OF rep]) auto
      have "stack_log (slog s @ [(QPop, Popped None)]) (map (node_val (sheap s)) S)"
        using log by (rule stack_log_snoc) (simp add: S)
      with rep' None SPopLoad st show ?thesis
        by (intro inv_repI [OF inv, of _ i SPopEmpty S P "L(i := [])" "map (node_val (sheap s)) S"])
          (auto simp: lfs_pop_step_def lgo_def)
    next
      case (Some x)
      then have x: "x \<in> set S" using r(1) by (cases S) auto
      then have "x \<notin> exclusive (spc s j) (L j)" for j
        using exclusive_sub [OF r(3) [of j]] e(1) [of x j] by blast
      moreover have "sheap s x \<noteq> None" using e(5) x by simp
      ultimately have "lfs_rep (sheap s) (shead s) (to_be_deleted s) ((spc s)(i := SPopNext x)) S P (L(i := []))"
        by (intro rep_go [OF rep]) auto
      with Some SPopLoad st log show ?thesis
        by (intro inv_repI [OF inv, of _ i "SPopNext x" S P "L(i := [])" "map (node_val (sheap s)) S"])
          (auto simp: lfs_pop_step_def lgo_def)
    qed
  next
    case SPopEmpty
    with st show ?thesis
      by (intro inv_go [OF inv, of i SIdle]) (auto simp: lfs_pop_step_def lgo_def)
  next
    case (SPopNext x)
    then have "sheap s x \<noteq> None" using e(7) [of x i] by simp
    with SPopNext st show ?thesis
      by (auto simp: lfs_pop_step_def at_node_def intro!: inv_go [OF inv, of i "SPopCas x p" for p])
        (auto simp: lgo_def)
  next
    case (SPopCas x p)
    show ?thesis
    proof (cases "shead s = Some x")
      case False
      with SPopCas st show ?thesis
        by (intro inv_go [OF inv, of i SPopLoad]) (auto simp: lfs_pop_step_def lgo_def)
    next
      case True
      then obtain S' n where S: "S = x # S'" "sheap s x = Some n" "seg (sheap s) (nnext n) S' None"
        using r(1) by (cases S) auto
      have p: "nnext n = p" using r(10) [OF SPopCas] S by auto
      obtain v where v: "ndata n = Some v" using r(11) S by (auto simp: has_val_def)
      have L: "L i = []" using r(3) [of i] SPopCas by simp
      have nv: "node_val (sheap s) x = v" using S v by (simp add: node_val_def)
      have rep': "lfs_rep (sheap s) p (to_be_deleted s) ((spc s)(i := SPopSwap x v)) S' P (L(i := [x]))"
        by (rule rep_step [OF rep, where F = "{}"]) (use S p r(2,4,11) e(7) v in auto)
      have "stack_log (slog s @ [(QPop, Popped (Some v))]) (map (node_val (sheap s)) S')"
        using log by (rule stack_log_snoc) (simp add: S nv)
      with rep' True SPopCas st nv show ?thesis
        by (intro inv_repI [OF inv, of _ i "SPopSwap x v" S' P "L(i := [x])" "map (node_val (sheap s)) S'"])
          (auto simp: lfs_pop_step_def lgo_def)
    qed
  next
    case (SPopSwap x v)
    then obtain n where n: "L i = [x]" "sheap s x = Some n" "ndata n = Some v"
      using r(3) [of i] by auto
    let ?h = "(sheap s)(x \<mapsto> n\<lparr>ndata := None\<rparr>)"
    have nx: "x \<notin> set S" "x \<notin> set P" using e(1,2) [of x i] n by auto
    have rep': "lfs_rep ?h (shead s) (to_be_deleted s) ((spc s)(i := SReclaim x)) S P (L(i := [x]))"
    proof (rule rep_step [OF rep, where F = "{}"])
      show "seg ?h (shead s) S None" "seg ?h (to_be_deleted s) P None"
        using r(1,2) nx by (auto elim!: seg_same)
      show "\<forall>x\<in>set S. has_val ?h x" using r(11) nx by (auto simp: has_val_def)
      show "j \<noteq> i \<Longrightarrow> x \<in> borrowed (spc s j) \<Longrightarrow> ?h x \<noteq> None" for j x using e(7) by simp
    qed (use r(4) nx n in auto)
    have "map (node_val ?h) S = map (node_val (sheap s)) S"
      using nx by (intro node_vals_frame) auto
    with rep' SPopSwap st n log show ?thesis
      by (intro inv_repI [OF inv, of _ i "SReclaim x" S P "L(i := [x])" "map (node_val (sheap s)) S"])
        (auto simp: lfs_pop_step_def at_node_def lgo_def)
  qed (use st in \<open>simp_all add: lfs_pop_step_def\<close>)
qed

text \<open>
  The test \<open>threads_in_pop == 1\<close> and the decrement to zero: no other thread is inside \<open>pop\<close>, so
  none holds a pointer to the nodes of this one.
\<close>

lemma alone_borrows:
  assumes "lfs_inv s" "counted (spc s i)" "threads_in_pop s = 1" "j \<noteq> i"
  shows "borrowed (spc s j) = {}"
  using assms counted_alone [of "spc s" i j] by (intro borrowed_counted) (auto simp: lfs_inv_def)

text \<open>A node of the thread is deleted; it was exclusive.\<close>

lemma inv_delete:
  assumes inv: "lfs_inv s"
    and own: "\<And>L. owns (sheap s) (spc s i) L \<Longrightarrow> a \<in> exclusive (spc s i) L \<and>
      (\<forall>h'. (\<forall>x. x \<noteq> a \<longrightarrow> h' x = sheap s x) \<longrightarrow> distinct L \<longrightarrow> owns h' c' (remove1 a L)) \<and>
      exclusive c' (remove1 a L) \<subseteq> exclusive (spc s i) L"
    and c': "borrowed c' = {}" "counted c' = counted (spc s i)"
  shows "lfs_inv (lgo i c' (delete_node a s))"
proof -
  obtain S P L where rep: "lfs_rep (sheap s) (shead s) (to_be_deleted s) (spc s) S P L"
    and log: "stack_log (slog s) (map (node_val (sheap s)) S)"
    using inv by (rule invE)
  note r = repD [OF rep] and e = repE [OF rep]
  have a: "a \<in> exclusive (spc s i) (L i)" "a \<in> set (L i)"
    using own [OF r(3)] exclusive_sub [OF r(3) [of i]] by auto
  then obtain n where n: "sheap s a = Some n" using e(4) by blast
  let ?h = "(sheap s)(a := None)"
  have na: "a \<notin> set S" "a \<notin> set P" using e(1,2) a by auto
  have rep': "lfs_rep ?h (shead s) (to_be_deleted s) ((spc s)(i := c')) S P (L(i := remove1 a (L i)))"
  proof (rule rep_step [OF rep, where F = "{}"])
    show "seg ?h (shead s) S None" "seg ?h (to_be_deleted s) P None"
      using r(1,2) na by (auto elim!: seg_same)
    show "owns ?h c' (remove1 a (L i))" using own [OF r(3)] r(5) [of i] by auto
    show "\<forall>x\<in>set S. has_val ?h x" using r(11) na by (auto simp: has_val_def)
    show "j \<noteq> i \<Longrightarrow> borrowed (spc s j) \<inter> exclusive c' (remove1 a (L i)) = {}" for j
      using own [OF r(3)] r(8) [of j i] by auto
    show "j \<noteq> i \<Longrightarrow> x \<in> borrowed (spc s j) \<Longrightarrow> ?h x \<noteq> None" for j x
      using e(7) e(8) [of x j i] a by auto
    show "x \<notin> set (L i) \<Longrightarrow> ?h x = sheap s x" for x using a by auto
    show "set (remove1 a (L i)) \<inter> set (S @ P) = {}"
      using r(6) [of i] set_remove1_subset [of a "L i"] by blast
    show "set S \<union> set P \<union> set (remove1 a (L i)) \<subseteq> set S \<union> set P \<union> set (L i) \<union> {}"
      using set_remove1_subset [of a "L i"] by blast
  qed (use r(4-6) c' in auto)
  have "map (node_val ?h) S = map (node_val (sheap s)) S"
    using na by (intro node_vals_frame) auto
  with rep' log c' n show ?thesis
    by (intro inv_repI [OF inv, of _ i c' S P "L(i := remove1 a (L i))" "map (node_val (sheap s)) S"])
      (simp_all add: lgo_def delete_node_def at_node_def)
qed

lemma try_reclaim_inv:
  assumes inv: "lfs_inv s" and st: "try_reclaim_step i s = Some t"
  shows "lfs_inv t"
proof -
  obtain S P L where rep: "lfs_rep (sheap s) (shead s) (to_be_deleted s) (spc s) S P L"
    and log: "stack_log (slog s) (map (node_val (sheap s)) S)"
    using inv by (rule invE)
  note r = repD [OF rep] and e = repE [OF rep]
  note vs = inv_repI [OF inv, of _ i _ S _ _ "map (node_val (sheap s)) S"]
  show ?thesis
  proof (cases "spc s i")
    case (SReclaim x)
    have L: "L i = [x]" "sheap s x \<noteq> None" using r(3) [of i] SReclaim by auto
    show ?thesis
    proof (cases "threads_in_pop s = 1")
      case True
      have "lfs_rep (sheap s) (shead s) (to_be_deleted s) ((spc s)(i := SExchange x)) S P (L(i := [x]))"
        by (rule rep_go [OF rep]) (use L alone_borrows [OF inv _ True, of i] SReclaim in auto)
      with True SReclaim st log show ?thesis
        by (intro vs [of t "SExchange x" P "L(i := [x])"]) (auto simp: try_reclaim_step_def lgo_def)
    next
      case False
      with SReclaim st show ?thesis
        by (intro inv_go [OF inv, of i "SChainLink None x x"]) (auto simp: try_reclaim_step_def lgo_def)
    qed
  next
    case (SExchange x)
    have L: "L i = [x]" "sheap s x \<noteq> None" using r(3) [of i] SExchange by auto
    have "lfs_rep (sheap s) (shead s) None ((spc s)(i := SDecrement x (to_be_deleted s))) S [] (L(i := x # P))"
    proof (rule rep_step [OF rep, where F = "{}"])
      show "j \<noteq> i \<Longrightarrow> borrowed (spc s j) \<inter> exclusive (SDecrement x (to_be_deleted s)) (x # P) = {}" for j
        using r(8) [of j i] SExchange by auto
      show "j \<noteq> i \<Longrightarrow> y \<in> borrowed (spc s j) \<Longrightarrow> sheap s y \<noteq> None" for j y using e(7) by simp
    qed (use L r(1,2,4,11) r(6) [of i] in auto)
    with SExchange st log show ?thesis
      by (intro vs [of t "SDecrement x (to_be_deleted s)" "[]" "L(i := x # P)"])
        (auto simp: try_reclaim_step_def lgo_def)
  next
    case (SDecrement x nodes)
    obtain ns where ns: "L i = x # ns" "sheap s x \<noteq> None" "seg (sheap s) nodes ns None"
      using r(3) [of i] SDecrement by auto
    show ?thesis
    proof (cases "threads_in_pop s - 1 = 0")
      case True
      have "lfs_rep (sheap s) (shead s) (to_be_deleted s) ((spc s)(i := SDeleteNodes x nodes)) S P (L(i := x # ns))"
        by (rule rep_go [OF rep]) (use ns alone_borrows [OF inv, of i] SDecrement True r(5) [of i] in auto)
      with True SDecrement st log show ?thesis
        by (intro vs [of t "SDeleteNodes x nodes" P "L(i := x # ns)"]) (auto simp: try_reclaim_step_def lgo_def Let_def)
    next
      case False
      show ?thesis
      proof (cases nodes)
        case None
        with False SDecrement st show ?thesis
          by (intro inv_go [OF inv, of i "SDeleteOld x"]) (auto simp: try_reclaim_step_def lgo_def Let_def)
      next
        case (Some f)
        with False SDecrement st show ?thesis
          by (intro inv_go [OF inv, of i "SChainWalk x f f"])
            (auto simp: try_reclaim_step_def lgo_def Let_def seg_Some)
      qed
    qed
  next
    case (SDeleteNodes x nodes)
    show ?thesis
    proof (cases nodes)
      case None
      with SDeleteNodes st show ?thesis
        by (intro inv_go [OF inv, of i "SDeleteOld x"]) (auto simp: try_reclaim_step_def lgo_def)
    next
      case (Some a)
      obtain n where n: "sheap s a = Some n"
        using r(3) [of i] SDeleteNodes Some by (auto simp: seg_Some)
      have "lfs_inv (lgo i (SDeleteNodes x (nnext n)) (delete_node a s))"
      proof (rule inv_delete [OF inv])
        fix L assume "owns (sheap s) (spc s i) L"
        then obtain ys where ys: "L = x # a # ys" "sheap s x \<noteq> None" "seg (sheap s) (nnext n) ys None"
          using SDeleteNodes Some n by (auto simp: seg_Some)
        have "owns h' (SDeleteNodes x (nnext n)) (x # ys)"
          if "\<forall>y. y \<noteq> a \<longrightarrow> h' y = sheap s y" "distinct (x # a # ys)" for h'
          using that ys by (auto elim!: seg_same)
        then show "a \<in> exclusive (spc s i) L \<and>
            (\<forall>h'. (\<forall>x. x \<noteq> a \<longrightarrow> h' x = sheap s x) \<longrightarrow> distinct L \<longrightarrow> owns h' (SDeleteNodes x (nnext n)) (remove1 a L)) \<and>
            exclusive (SDeleteNodes x (nnext n)) (remove1 a L) \<subseteq> exclusive (spc s i) L"
          using SDeleteNodes ys(1) by auto
      qed (simp_all add: SDeleteNodes)
      with SDeleteNodes Some st n show ?thesis by (simp add: try_reclaim_step_def at_node_def)
    qed
  next
    case (SChainWalk x f l)
    obtain ns where ns: "L i = x # ns" "seg (sheap s) (Some f) ns None" "l \<in> set ns"
      using r(3) [of i] SChainWalk by auto
    then obtain n where n: "sheap s l = Some n" "case nnext n of Some y \<Rightarrow> y \<in> set ns | None \<Rightarrow> l = last ns"
      using seg_walk by blast
    show ?thesis
    proof (cases "nnext n")
      case (Some m)
      have "owns (sheap s) (SChainWalk x f m) K" if "owns (sheap s) (SChainWalk x f l) K" for K
        using that seg_walk [of "sheap s" "Some f" _ l] n(1) Some by fastforce
      with Some n SChainWalk st show ?thesis
        by (intro inv_go [OF inv, of i "SChainWalk x f m"])
          (auto simp: try_reclaim_step_def at_node_def lgo_def)
    next
      case None
      have "owns (sheap s) (SChainLink (Some x) f l) K" if w: "owns (sheap s) (SChainWalk x f l) K" for K
      proof -
        obtain ks where k: "K = x # ks" "sheap s x \<noteq> None" "seg (sheap s) (Some f) ks None" "l \<in> set ks"
          using w by auto
        then have "l = last ks" using seg_walk [OF k(3,4)] n(1) None by auto
        with k(4) obtain ms where "ks = ms @ [l]" by (cases ks rule: rev_cases) auto
        with k show ?thesis by (auto simp: open_seg_def)
      qed
      with None n SChainWalk st show ?thesis
        by (intro inv_go [OF inv, of i "SChainLink (Some x) f l"])
          (auto simp: try_reclaim_step_def at_node_def lgo_def)
    qed
  next
    case (SChainLink x f l)
    then have t: "t = lgo i (SChainCas x f l) (set_next l (to_be_deleted s) s)"
      using st by (simp add: try_reclaim_step_def)
    have "owns ((sheap s)(l \<mapsto> n\<lparr>nnext := p\<rparr>)) (SChainCas x f l) K" "l \<in> set K"
      if "owns (sheap s) (SChainLink x f l) K" "distinct K" "sheap s l = Some n" for K n p
      using that by (cases x; auto simp: open_seg_set_last)+
    with SChainLink show ?thesis
      unfolding t by (intro inv_set_next [OF inv]) (cases x; auto)+
  next
    case (SChainCas x f l)
    have "sheap s l \<noteq> None"
      using r(3) [of i] SChainCas by (cases x) (auto dest: open_seg_dom)
    then obtain n where n: "sheap s l = Some n" by blast
    show ?thesis
    proof (cases "to_be_deleted s = nnext n")
      case False
      have "owns ((sheap s)(l \<mapsto> n\<lparr>nnext := p\<rparr>)) (SChainCas x f l) K" "l \<in> set K"
        if "owns (sheap s) (SChainCas x f l) K" "distinct K" "sheap s l = Some n" for K n p
        using that by (cases x; auto simp: open_seg_set_last)+
      then have "lfs_inv (lgo i (SChainCas x f l) (set_next l (to_be_deleted s) s))"
        using SChainCas by (intro inv_set_next [OF inv]) (cases x; auto)+
      with False n SChainCas st show ?thesis
        by (auto simp: try_reclaim_step_def at_node_def set_next_def lgo_def fun_upd_idem)
    next
      case True
      define c' :: "'a lfs_pc" where "c' = (case x of Some y \<Rightarrow> SDeleteOld y | None \<Rightarrow> SLeave)"
      obtain xs Li where xs: "L i = Li @ xs" "seg (sheap s) (Some f) xs (nnext n)" "owns (sheap s) c' Li"
        "exclusive c' Li \<subseteq> exclusive (spc s i) (L i)"
      proof (cases x)
        case None
        with SChainCas r(3) [of i] n show thesis
          by (intro that [of "[]" "[l]"]) (auto simp: c'_def)
      next
        case (Some y)
        then obtain ns where "L i = y # ns @ [l]" "sheap s y \<noteq> None" "open_seg (sheap s) (Some f) (ns @ [l])"
          using SChainCas r(3) [of i] by auto
        with Some SChainCas n show thesis
          by (intro that [of "[y]" "ns @ [l]"]) (auto simp: c'_def open_seg_last)
      qed
      have c': "borrowed c' = {}" "counted c' = counted (spc s i)"
        using SChainCas by (cases x; simp add: c'_def)+
      have "lfs_rep (sheap s) (shead s) (Some f) ((spc s)(i := c')) S (xs @ P) (L(i := Li))"
      proof (rule rep_step [OF rep, where F = "{}"])
        show "seg (sheap s) (Some f) (xs @ P) None" using xs(2) r(2) True by (auto simp: seg_append)
        show "distinct (S @ xs @ P)" "distinct Li" "set Li \<inter> set (S @ xs @ P) = {}"
          using r(4) r(5,6) [of i] xs(1) by auto
        show "j \<noteq> i \<Longrightarrow> borrowed (spc s j) \<inter> exclusive c' Li = {}" for j
          using r(8) [of j i] xs(4) by auto
        show "j \<noteq> i \<Longrightarrow> x \<in> borrowed (spc s j) \<Longrightarrow> sheap s x \<noteq> None" for j x using e(7) by simp
      qed (use xs r(1,11) c' in auto)
      with True n SChainCas st log c' show ?thesis
        by (intro vs [of t c' "xs @ P" "L(i := Li)"])
          (auto simp: try_reclaim_step_def at_node_def lgo_def c'_def)
    qed
  next
    case (SDeleteOld x)
    have "lfs_inv (lgo i SIdle (delete_node x s))"
      by (rule inv_delete [OF inv]) (auto simp: SDeleteOld)
    with SDeleteOld st show ?thesis by (simp add: try_reclaim_step_def)
  next
    case SLeave
    with st show ?thesis
      by (intro inv_go [OF inv, of i SIdle]) (auto simp: try_reclaim_step_def lgo_def)
  qed (use st in \<open>simp_all add: try_reclaim_step_def\<close>)
qed

interpretation lfs: inv_machine lfs_exec lfs_inv
proof
  fix s t :: "'a lfs" and e
  assume inv: "lfs_inv s" and st: "lfs_exec e s = Some t"
  show "lfs_inv t"
  proof (cases e)
    case (SPush i v)
    with st show ?thesis
      by (intro inv_go [OF inv, of i "SPushNew v"]) (auto simp: lgo_def split: if_splits)
  next
    case (SPop i)
    with st show ?thesis
      by (intro inv_go [OF inv, of i SPopInc]) (auto simp: lgo_def split: if_splits)
  qed (use st inv lfs_alloc_inv lfs_push_inv lfs_pop_inv try_reclaim_inv in auto)
qed

lemma lfs_start: "lfs_inv lock_free_stack"
  unfolding lfs_inv_def
  by (intro conjI exI [of _ "[]"] exI [of _ "\<lambda>_. []"]) (auto simp: lock_free_stack_def lfs_rep_def)

text \<open>
  C15. Any number of threads, any interleaving, any reuse of freed addresses: no thread touches
  or deletes a node that has been deleted, every \<open>pop\<close> returns the value logged for it, and
  the log of the calls, in the order in which they take effect, is a run of a stack that starts
  empty and holds what the list from \<open>head\<close> holds.
\<close>

theorem lock_free_stack_safe:
  assumes "run lfs_exec es lock_free_stack = Some s"
  shows "\<not> sbad s \<and>
    (\<exists>S. seg (sheap s) (shead s) S None \<and> stack_log (slog s) (map (node_val (sheap s)) S))"
proof -
  have "lfs_inv s" using lfs_start assms by (rule lfs.run_inv)
  then show ?thesis by (auto simp: lfs_inv_def dest: repD(1))
qed

text \<open>Two pops meet: the first node goes to \<open>to_be_deleted\<close> and is reclaimed by a later pop.\<close>

definition two_pops :: "nat lfs_event list" where
  "two_pops = [SPush 0 5, SAlloc 0 0, SPushStep 0, SPushStep 0, SPush 0 6, SAlloc 0 1, SPushStep 0,
     SPushStep 0, SPop 1, SPop 2, SPopStep 1, SPopStep 2, SPopStep 1, SPopStep 2, SPopStep 1, SPopStep 2,
     SPopStep 1, SPopStep 2, SPopStep 1, SReclaimStep 1, SReclaimStep 1, SReclaimStep 1, SReclaimStep 1,
     SPopStep 2, SPopStep 2, SPopStep 2, SPopStep 2] @ replicate 6 (SReclaimStep 2)"

theorem lock_free_stack_safe_witness:
  "\<exists>s. run lfs_exec two_pops lock_free_stack = Some s \<and>
     (\<not> sbad s \<and> (\<exists>S. seg (sheap s) (shead s) S None \<and> stack_log (slog s) (map (node_val (sheap s)) S)))"
proof -
  obtain s where "run lfs_exec two_pops lock_free_stack = Some s"
    by (simp add: two_pops_def numeral_eq_Suc lock_free_stack_def lgo_def lfs_alloc_step_def
        lfs_push_step_def lfs_pop_step_def try_reclaim_step_def at_node_def set_next_def
        delete_node_def node_val_def)
  with lock_free_stack_safe [OF this] show ?thesis by blast
qed

end
