(* ===== verification/RefCountStack.thy ===== *)
theory RefCountStack
  imports Prelude
begin

text \<open>
  The stacks of \<open>src/Concurrent/day17-LockFreeStack/RefCountStack.h\<close> and \<open>SingleRefStack.h\<close>:
  the pointer to a node carries a counter of the threads that have read it, the node a second
  counter of those that have left it, and whoever brings their sum to zero deletes the node. A
  step is one atomic access; the memory orders of \<open>RefCountStack.h\<close> are not modelled (the steps
  are sequentially consistent). The two classes are the same algorithm under other names, so
  they share the machine; they differ in the constructors, see \<open>ref_count_stack\<close> and
  \<open>single_ref_stack\<close> below. Counters are integers: \<open>int\<close> overflow after \<open>2 ^ 31\<close> accesses to
  one head is not modelled.
\<close>

section \<open>The machine\<close>

text \<open>\<open>counted_node_ptr\<close> and \<open>count_node\<close>.\<close>

type_synonym counted = "int \<times> nat option"

record 'a cnode =
  cdata :: "'a option"
  internal_count :: int
  cnext :: counted

type_synonym 'a cheap = "nat \<Rightarrow> 'a cnode option"

datatype 'a ref_pc =
    RIdle
  | RPushNew 'a
  | RPushLoad nat
  | RPushCas nat
  | RPopLoad
  | RIncrease counted               \<comment> \<open>\<open>increase_head_count(old_head)\<close>\<close>
  | RPopNext int nat                \<comment> \<open>reads \<open>ptr->next\<close>; the reference is counted\<close>
  | RPopCas int nat counted
  | RSwap int nat 'a                \<comment> \<open>\<open>res.swap(ptr->data)\<close>; the logged value\<close>
  | RFetchAdd int nat               \<comment> \<open>\<open>internal_count.fetch_add(count_increase)\<close>\<close>
  | RRelease nat counted            \<comment> \<open>\<open>internal_count.fetch_add(-1)\<close> after a failed exchange\<close>
  | RDelete nat "counted option"    \<comment> \<open>\<open>delete ptr\<close>, then return or go on\<close>

record 'a ref_stack =
  rheap :: "'a cheap"
  rhead :: counted
  rpc :: "nat \<Rightarrow> 'a ref_pc"
  rlog :: "'a call_log"
  rbad :: bool

definition ref_count_stack :: "'a ref_stack" where
  "ref_count_stack = \<lparr>rheap = Map.empty, rhead = (0, None), rpc = (\<lambda>_. RIdle), rlog = [], rbad = False\<rparr>"

definition rgo :: "nat \<Rightarrow> 'a ref_pc \<Rightarrow> 'a ref_stack \<Rightarrow> 'a ref_stack" where
  "rgo i c s = s\<lparr>rpc := (rpc s)(i := c)\<rparr>"

definition rnode :: "nat \<Rightarrow> 'a ref_stack \<Rightarrow> ('a cnode \<Rightarrow> 'a ref_stack) \<Rightarrow> 'a ref_stack" where
  "rnode x s f = (case rheap s x of None \<Rightarrow> s\<lparr>rbad := True\<rparr> | Some n \<Rightarrow> f n)"

definition rput :: "nat \<Rightarrow> 'a cnode \<Rightarrow> 'a ref_stack \<Rightarrow> 'a ref_stack" where
  "rput x n s = s\<lparr>rheap := (rheap s)(x \<mapsto> n)\<rparr>"

definition cval :: "'a cheap \<Rightarrow> nat \<Rightarrow> 'a" where
  "cval h x = (case h x of Some n \<Rightarrow> (case cdata n of Some v \<Rightarrow> v | None \<Rightarrow> undefined) | None \<Rightarrow> undefined)"

text \<open>
  \<open>push\<close>; \<open>d\<close> is the initial value of the node's counter, which the constructor of
  \<open>count_node\<close> sets to 0.
\<close>

definition ref_alloc_step :: "int \<Rightarrow> nat \<Rightarrow> nat \<Rightarrow> 'a ref_stack \<Rightarrow> 'a ref_stack option" where
  "ref_alloc_step d i a s = (case rpc s i of
     RPushNew v \<Rightarrow>
       if rheap s a = None
       then Some (rgo i (RPushLoad a) (rput a \<lparr>cdata = Some v, internal_count = d, cnext = (0, None)\<rparr> s))
       else None
   | _ \<Rightarrow> None)"

definition ref_push_step :: "nat \<Rightarrow> 'a ref_stack \<Rightarrow> 'a ref_stack option" where
  "ref_push_step i s = (case rpc s i of
     RPushLoad a \<Rightarrow> Some (rnode a s (\<lambda>n. rgo i (RPushCas a) (rput a (n\<lparr>cnext := rhead s\<rparr>) s)))
   | RPushCas a \<Rightarrow> Some (rnode a s (\<lambda>n.
       if rhead s = cnext n
       then rgo i RIdle (s\<lparr>rhead := (1, Some a), rlog := rlog s @ [(QPush (cval (rheap s) a), Pushed True)]\<rparr>)
       else rput a (n\<lparr>cnext := rhead s\<rparr>) s))
   | _ \<Rightarrow> None)"

text \<open>\<open>increase_head_count\<close>: one turn of its loop.\<close>

definition increase_head_count :: "nat \<Rightarrow> counted \<Rightarrow> 'a ref_stack \<Rightarrow> 'a ref_stack" where
  "increase_head_count i old_counter s =
     (if rhead s = old_counter
      then (case old_counter of
          (e, Some x) \<Rightarrow> rgo i (RPopNext (e + 1) x) (s\<lparr>rhead := (e + 1, Some x)\<rparr>)
        | (e, None) \<Rightarrow> rgo i RIdle (s\<lparr>rhead := (e + 1, None), rlog := rlog s @ [(QPop, Popped None)]\<rparr>))
      else rgo i (RIncrease (rhead s)) s)"

definition ref_pop_step :: "nat \<Rightarrow> 'a ref_stack \<Rightarrow> 'a ref_stack option" where
  "ref_pop_step i s = (case rpc s i of
     RPopLoad \<Rightarrow> Some (rgo i (RIncrease (rhead s)) s)
   | RIncrease old_head \<Rightarrow> Some (increase_head_count i old_head s)
   | RPopNext e x \<Rightarrow> Some (rnode x s (\<lambda>n. rgo i (RPopCas e x (cnext n)) s))
   | RPopCas e x p \<Rightarrow>
       if rhead s = (e, Some x)
       then Some (rgo i (RSwap e x (cval (rheap s) x)) (s\<lparr>rhead := p,
              rlog := rlog s @ [(QPop, Popped (Some (cval (rheap s) x)))]\<rparr>))
       else Some (rgo i (RRelease x (rhead s)) s)
   | RSwap e x v \<Rightarrow> Some (rnode x s (\<lambda>n.
       if cdata n = Some v then rgo i (RFetchAdd e x) (rput x (n\<lparr>cdata := None\<rparr>) s)
       else s\<lparr>rbad := True\<rparr>))
   | RFetchAdd e x \<Rightarrow> Some (rnode x s (\<lambda>n.
       let count_increase = e - 2 in
       rgo i (if internal_count n = - count_increase then RDelete x None else RIdle)
         (rput x (n\<lparr>internal_count := internal_count n + count_increase\<rparr>) s)))
   | RRelease x old_head \<Rightarrow> Some (rnode x s (\<lambda>n.
       rgo i (if internal_count n = 1 then RDelete x (Some old_head) else RIncrease old_head)
         (rput x (n\<lparr>internal_count := internal_count n - 1\<rparr>) s)))
   | RDelete x k \<Rightarrow> Some (rnode x s (\<lambda>n.
       rgo i (case k of None \<Rightarrow> RIdle | Some old_head \<Rightarrow> RIncrease old_head)
         (s\<lparr>rheap := (rheap s)(x := None)\<rparr>)))
   | _ \<Rightarrow> None)"

datatype 'a ref_event = RPush nat 'a | RPop nat | RAlloc nat nat | RPushStep nat | RPopStep nat

fun ref_exec :: "int \<Rightarrow> 'a ref_event \<Rightarrow> 'a ref_stack \<Rightarrow> 'a ref_stack option" where
  "ref_exec d (RPush i v) s = (if rpc s i = RIdle then Some (rgo i (RPushNew v) s) else None)"
| "ref_exec d (RPop i) s = (if rpc s i = RIdle then Some (rgo i RPopLoad s) else None)"
| "ref_exec d (RAlloc i a) s = ref_alloc_step d i a s"
| "ref_exec d (RPushStep i) s = ref_push_step i s"
| "ref_exec d (RPopStep i) s = ref_pop_step i s"

section \<open>The invariant\<close>

text \<open>The nodes of the stack with the external counts of the pointers to them.\<close>

fun cseg :: "'a cheap \<Rightarrow> counted \<Rightarrow> (nat \<times> int) list \<Rightarrow> bool" where
  "cseg h (e, p) [] = (p = None)"
| "cseg h (e, p) ((x, k) # xs) = (p = Some x \<and> e = k \<and> (\<exists>n. h x = Some n \<and> cseg h (cnext n) xs))"

text \<open>The node a thread owns, and the one it holds a counted reference to.\<close>

fun rowns :: "'a ref_pc \<Rightarrow> nat option" where
  "rowns (RPushLoad a) = Some a"
| "rowns (RPushCas a) = Some a"
| "rowns (RSwap e x v) = Some x"
| "rowns (RFetchAdd e x) = Some x"
| "rowns (RDelete x k) = Some x"
| "rowns _ = None"

fun rref :: "'a ref_pc \<Rightarrow> nat option" where
  "rref (RPopNext e x) = Some x"
| "rref (RPopCas e x p) = Some x"
| "rref (RRelease x old_head) = Some x"
| "rref _ = None"

definition refs :: "(nat \<Rightarrow> 'a ref_pc) \<Rightarrow> nat \<Rightarrow> int" where
  "refs pc x = int (card {i. rref (pc i) = Some x})"

fun thread_ok :: "'a cheap \<Rightarrow> int \<Rightarrow> 'a ref_pc \<Rightarrow> bool" where
  "thread_ok h r (RPushLoad a) = (\<exists>n. h a = Some n \<and> internal_count n = 0 \<and> cdata n \<noteq> None \<and> r = 0)"
| "thread_ok h r (RPushCas a) = (\<exists>n. h a = Some n \<and> internal_count n = 0 \<and> cdata n \<noteq> None \<and> r = 0)"
| "thread_ok h r (RSwap e x v) = (\<exists>n. h x = Some n \<and> cdata n = Some v \<and> internal_count n \<le> 0 \<and>
     e - 2 + internal_count n = r)"
| "thread_ok h r (RFetchAdd e x) = (\<exists>n. h x = Some n \<and> internal_count n \<le> 0 \<and> e - 2 + internal_count n = r)"
| "thread_ok h r (RDelete x k) = (h x \<noteq> None \<and> r = 0)"
| "thread_ok h r _ = True"

definition stack_ok :: "'a cheap \<Rightarrow> int \<Rightarrow> nat \<Rightarrow> int \<Rightarrow> bool" where
  "stack_ok h r x k \<longleftrightarrow> (\<exists>n. h x = Some n \<and> cdata n \<noteq> None \<and> internal_count n \<le> 0 \<and> k - 1 + internal_count n = r)"

text \<open>A node that left the stack and has no owner is kept by the references its counter counts.\<close>

definition rrep :: "'a cheap \<Rightarrow> counted \<Rightarrow> (nat \<Rightarrow> 'a ref_pc) \<Rightarrow> (nat \<times> int) list \<Rightarrow> bool" where
  "rrep h tp pc S \<longleftrightarrow>
     cseg h tp S \<and> distinct (map fst S) \<and>
     (\<forall>i x. rowns (pc i) = Some x \<longrightarrow> x \<notin> fst ` set S \<and> (\<forall>j. j \<noteq> i \<longrightarrow> rowns (pc j) \<noteq> Some x) \<and>
        thread_ok h (refs pc x) (pc i)) \<and>
     (\<forall>(x, k)\<in>set S. stack_ok h (refs pc x) x k) \<and>
     (\<forall>x n. h x = Some n \<and> x \<notin> fst ` set S \<and> (\<forall>i. rowns (pc i) \<noteq> Some x) \<longrightarrow>
        internal_count n = refs pc x \<and> refs pc x > 0) \<and>
     (\<forall>i x. rref (pc i) = Some x \<longrightarrow> h x \<noteq> None) \<and>
     (\<forall>i e x p. pc i = RPopCas e x p \<and> x \<in> fst ` set S \<longrightarrow> (\<exists>n. h x = Some n \<and> cnext n = p)) \<and>
     finite {i. pc i \<noteq> RIdle}"

definition ref_inv :: "'a ref_stack \<Rightarrow> bool" where
  "ref_inv s \<longleftrightarrow> \<not> rbad s \<and>
     (\<exists>S. rrep (rheap s) (rhead s) (rpc s) S \<and> stack_log (rlog s) (map (cval (rheap s)) (map fst S)))"

lemma cseg_same: "cseg h p xs \<Longrightarrow> \<forall>x\<in>fst ` set xs. h' x = h x \<Longrightarrow> cseg h' p xs"
  by (induction h p xs rule: cseg.induct) auto

lemma cseg_dom: "cseg h p xs \<Longrightarrow> x \<in> fst ` set xs \<Longrightarrow> h x \<noteq> None"
  by (induction h p xs rule: cseg.induct) auto

lemma cseg_count:
  "cseg h p xs \<Longrightarrow> h x = Some n \<Longrightarrow> cnext n' = cnext n \<Longrightarrow> cseg (h(x \<mapsto> n')) p xs"
  by (induction h p xs rule: cseg.induct) auto

lemma refs_upd:
  assumes "finite {j. pc j \<noteq> RIdle}"
  shows "finite {j. (pc(i := c)) j \<noteq> RIdle}"
    and "refs (pc(i := c)) x = refs pc x + of_bool (rref c = Some x) - of_bool (rref (pc i) = Some x)"
proof -
  have "{j. (pc(i := c)) j \<noteq> RIdle} \<subseteq> insert i {j. pc j \<noteq> RIdle}" by auto
  then show "finite {j. (pc(i := c)) j \<noteq> RIdle}" by (rule finite_subset) (simp add: assms)
  let ?A = "{j. rref (pc j) = Some x}" and ?B = "{j. rref ((pc(i := c)) j) = Some x}"
  have "?A \<subseteq> {j. pc j \<noteq> RIdle}" by auto
  with assms have fA: "finite ?A" by (rule rev_finite_subset)
  have B: "?B = (if rref c = Some x then insert i (?A - {i}) else ?A - {i})" by auto
  have "int (card (?A - {i})) = int (card ?A) - of_bool (rref (pc i) = Some x)"
  proof (cases "rref (pc i) = Some x")
    case True
    then have "Suc (card (?A - {i})) = card ?A" using fA by (intro card_Suc_Diff1) auto
    with True show ?thesis by simp
  qed simp
  then show "refs (pc(i := c)) x = refs pc x + of_bool (rref c = Some x) - of_bool (rref (pc i) = Some x)"
    unfolding refs_def B using fA by (simp add: card.insert_remove)
qed

lemma refs_pos: "finite {j. pc j \<noteq> RIdle} \<Longrightarrow> rref (pc i) = Some x \<Longrightarrow> refs pc x > 0"
proof -
  assume f: "finite {j. pc j \<noteq> RIdle}" and i: "rref (pc i) = Some x"
  have "{j. rref (pc j) = Some x} \<subseteq> {j. pc j \<noteq> RIdle}" by auto
  then have "finite {j. rref (pc j) = Some x}" using f by (rule finite_subset)
  with i show ?thesis by (auto simp: refs_def card_gt_0_iff)
qed

lemma rrepD:
  assumes "rrep h tp pc S"
  shows "cseg h tp S" "distinct (map fst S)"
    "rowns (pc i) = Some x \<Longrightarrow> x \<notin> fst ` set S"
    "rowns (pc i) = Some x \<Longrightarrow> j \<noteq> i \<Longrightarrow> rowns (pc j) \<noteq> Some x"
    "rowns (pc i) = Some x \<Longrightarrow> thread_ok h (refs pc x) (pc i)"
    "(x, k) \<in> set S \<Longrightarrow> stack_ok h (refs pc x) x k"
    "h x = Some n \<Longrightarrow> x \<notin> fst ` set S \<Longrightarrow> \<forall>i. rowns (pc i) \<noteq> Some x \<Longrightarrow>
       internal_count n = refs pc x \<and> refs pc x > 0"
    "rref (pc i) = Some x \<Longrightarrow> h x \<noteq> None"
    "pc i = RPopCas e x p \<Longrightarrow> x \<in> fst ` set S \<Longrightarrow> \<exists>n. h x = Some n \<and> cnext n = p"
    "finite {i. pc i \<noteq> RIdle}"
proof -
  have 1: "\<forall>i x. rowns (pc i) = Some x \<longrightarrow> x \<notin> fst ` set S \<and> (\<forall>j. j \<noteq> i \<longrightarrow> rowns (pc j) \<noteq> Some x) \<and>
        thread_ok h (refs pc x) (pc i)"
    and 2: "\<forall>(x, k)\<in>set S. stack_ok h (refs pc x) x k"
    and 3: "\<forall>x n. h x = Some n \<and> x \<notin> fst ` set S \<and> (\<forall>i. rowns (pc i) \<noteq> Some x) \<longrightarrow>
        internal_count n = refs pc x \<and> refs pc x > 0"
    and 4: "\<forall>i x. rref (pc i) = Some x \<longrightarrow> h x \<noteq> None"
    and 5: "\<forall>i e x p. pc i = RPopCas e x p \<and> x \<in> fst ` set S \<longrightarrow> (\<exists>n. h x = Some n \<and> cnext n = p)"
    using assms unfolding rrep_def by - (elim conjE, assumption)+
  show "rowns (pc i) = Some x \<Longrightarrow> x \<notin> fst ` set S"
    "rowns (pc i) = Some x \<Longrightarrow> j \<noteq> i \<Longrightarrow> rowns (pc j) \<noteq> Some x"
    "rowns (pc i) = Some x \<Longrightarrow> thread_ok h (refs pc x) (pc i)"
    using 1 by blast+
  show "(x, k) \<in> set S \<Longrightarrow> stack_ok h (refs pc x) x k" using 2 by blast
  show "h x = Some n \<Longrightarrow> x \<notin> fst ` set S \<Longrightarrow> \<forall>i. rowns (pc i) \<noteq> Some x \<Longrightarrow>
       internal_count n = refs pc x \<and> refs pc x > 0" using 3 by blast
  show "rref (pc i) = Some x \<Longrightarrow> h x \<noteq> None" using 4 by blast
  show "pc i = RPopCas e x p \<Longrightarrow> x \<in> fst ` set S \<Longrightarrow> \<exists>n. h x = Some n \<and> cnext n = p" using 5 by blast
  show "cseg h tp S" "distinct (map fst S)" "finite {i. pc i \<noteq> RIdle}"
    using assms unfolding rrep_def by - (elim conjE, assumption)+
qed

lemma thread_ok_frame:
  "rowns c = Some x \<Longrightarrow> h' x = h x \<Longrightarrow> thread_ok h' r c = thread_ok h r c"
  by (cases c) auto

text \<open>A step of thread \<open>i\<close> concerns a single node \<open>y\<close>.\<close>

lemma rrep_step:
  assumes rep: "rrep h tp pc S" and heap: "\<And>x. x \<noteq> y \<Longrightarrow> h' x = h x"
    and ref: "rref (pc i) = None \<or> rref (pc i) = Some y" "rref c' = None \<or> rref c' = Some y"
    and own: "rowns (pc i) = None \<or> rowns (pc i) = Some y" "rowns c' = None \<or> rowns c' = Some y"
    and S: "cseg h' tp' S'" "distinct (map fst S')" "\<And>x k. x \<noteq> y \<Longrightarrow> (x, k) \<in> set S' \<longleftrightarrow> (x, k) \<in> set S"
    and ti: "rowns c' = Some y \<Longrightarrow> thread_ok h' (refs (pc(i := c')) y) c' \<and> y \<notin> fst ` set S' \<and>
       (\<forall>j. j \<noteq> i \<longrightarrow> rowns (pc j) \<noteq> Some y)"
    and tj: "\<And>j. j \<noteq> i \<Longrightarrow> rowns (pc j) = Some y \<Longrightarrow>
       thread_ok h' (refs (pc(i := c')) y) (pc j) \<and> y \<notin> fst ` set S'"
    and ys: "\<And>k. (y, k) \<in> set S' \<Longrightarrow> stack_ok h' (refs (pc(i := c')) y) y k"
    and yfree: "\<And>n. h' y = Some n \<Longrightarrow> y \<notin> fst ` set S' \<Longrightarrow> rowns c' \<noteq> Some y \<Longrightarrow>
       (\<forall>j. j \<noteq> i \<longrightarrow> rowns (pc j) \<noteq> Some y) \<Longrightarrow>
       internal_count n = refs (pc(i := c')) y \<and> refs (pc(i := c')) y > 0"
    and yref: "\<And>j. j \<noteq> i \<Longrightarrow> rref (pc j) = Some y \<Longrightarrow> h' y \<noteq> None" "rref c' = Some y \<Longrightarrow> h' y \<noteq> None"
    and cas: "\<And>j e p. j \<noteq> i \<Longrightarrow> pc j = RPopCas e y p \<Longrightarrow> y \<in> fst ` set S' \<Longrightarrow> \<exists>n. h' y = Some n \<and> cnext n = p"
      "\<And>e p. c' = RPopCas e y p \<Longrightarrow> y \<in> fst ` set S' \<Longrightarrow> \<exists>n. h' y = Some n \<and> cnext n = p"
  shows "rrep h' tp' (pc(i := c')) S'"
proof -
  note r = rrepD [OF rep] and R = refs_upd [OF rrepD(10) [OF rep], where i = i and c = c']
  have keep: "refs (pc(i := c')) x = refs pc x" if "x \<noteq> y" for x
    using R(2) [of x] ref that by auto
  have mem: "x \<in> fst ` set S' \<longleftrightarrow> x \<in> fst ` set S" if "x \<noteq> y" for x
    using S(3) [OF that] by force
  let ?pc = "pc(i := c')"
  have A: "x \<notin> fst ` set S' \<and> (\<forall>k. k \<noteq> j \<longrightarrow> rowns (?pc k) \<noteq> Some x) \<and> thread_ok h' (refs ?pc x) (?pc j)"
    if o: "rowns (?pc j) = Some x" for j x
  proof (cases "x = y")
    case True
    show ?thesis
    proof (cases "j = i")
      case False
      then have "rowns c' \<noteq> Some y" using o ti True by auto
      with False o True tj [of j] r(4) [of j y] show ?thesis by auto
    qed (use o True ti in auto)
  next
    case False
    then have "j \<noteq> i" using o own by auto
    with o have pj: "rowns (pc j) = Some x" by simp
    from False \<open>j \<noteq> i\<close> pj show ?thesis
      using r(3-5) [OF pj] mem [OF False] keep [OF False] thread_ok_frame [OF pj, of h' h] heap [of x] own
      by auto
  qed
  have B: "stack_ok h' (refs ?pc x) x k" if "(x, k) \<in> set S'" for x k
    using that ys [of k] S(3) [of x k] r(6) [of x k] keep [of x] heap [of x]
    by (cases "x = y") (auto simp: stack_ok_def)
  have C: "internal_count n = refs ?pc x \<and> refs ?pc x > 0"
    if "h' x = Some n" "x \<notin> fst ` set S'" "\<forall>j. rowns (?pc j) \<noteq> Some x" for x n
  proof (cases "x = y")
    case True
    then have "rowns c' \<noteq> Some y" "\<forall>j. j \<noteq> i \<longrightarrow> rowns (pc j) \<noteq> Some y"
      using that(3) by (metis fun_upd_same) (use that(3) True in \<open>metis fun_upd_other\<close>)
    with True that yfree show ?thesis by blast
  next
    case False
    then have "rowns (pc j) \<noteq> Some x" for j
      using that(3) own by (cases "j = i") (auto dest: spec [of _ j])
    with False that mem [OF False] keep [OF False] heap [OF False] r(7) show ?thesis by metis
  qed
  have D: "h' x \<noteq> None" if "rref (?pc j) = Some x" for j x
    using that yref ref r(8) [of j x] heap [of x] by (cases "x = y"; cases "j = i") auto
  have E: "\<exists>n. h' x = Some n \<and> cnext n = p" if "?pc j = RPopCas e x p \<and> x \<in> fst ` set S'" for j e x p
  proof (cases "x = y")
    case False
    then have "j \<noteq> i" using that ref by auto
    with that False show ?thesis using r(9) [of j e x p] mem [OF False] heap [OF False] by auto
  qed (use that cas in \<open>cases "j = i"; auto\<close>)
  show ?thesis
    unfolding rrep_def using S(1,2) R(1) A B C D E by blast
qed

text \<open>A step that changes neither the heap nor what the thread owns and refers to.\<close>

lemma rrep_same:
  assumes rep: "rrep h tp pc S" and tp: "cseg h tp' S"
    and c': "rref c' = rref (pc i)" "rowns c' = rowns (pc i)"
    and ok: "\<And>y. rowns c' = Some y \<Longrightarrow> thread_ok h (refs pc y) (pc i) \<Longrightarrow> thread_ok h (refs pc y) c'"
    and cas: "\<And>e x p. c' = RPopCas e x p \<Longrightarrow> \<exists>n. h x = Some n \<and> cnext n = p"
  shows "rrep h tp' (pc(i := c')) S"
proof -
  note r = rrepD [OF rep] and R = refs_upd [OF rrepD(10) [OF rep], where i = i and c = c']
  have keep: "refs (pc(i := c')) = refs pc" using R(2) c' by auto
  have o: "rowns ((pc(i := c')) j) = rowns (pc j)" and rr: "rref ((pc(i := c')) j) = rref (pc j)" for j
    using c' by auto
  show ?thesis
    unfolding rrep_def keep o rr
  proof (intro conjI allI impI ballI)
    show "thread_ok h (refs pc x) ((pc(i := c')) j)" if "rowns (pc j) = Some x" for j x
      using that r(5) ok c'(2) by (cases "j = i") auto
    show "\<exists>n. h x = Some n \<and> cnext n = p" if "(pc(i := c')) j = RPopCas e x p \<and> x \<in> fst ` set S" for j e x p
      using that r(9) [of j e x p] cas by (cases "j = i") auto
  qed (use tp r R(1) in auto)
qed

lemma ref_invE:
  assumes "ref_inv s"
  obtains S where "rrep (rheap s) (rhead s) (rpc s) S" "stack_log (rlog s) (map (cval (rheap s)) (map fst S))"
  using assms by (auto simp: ref_inv_def)

lemma ref_invI:
  assumes "ref_inv s" "rrep (rheap t) (rhead t) ((rpc s)(i := c')) S'" "rpc t = (rpc s)(i := c')"
    "rbad t = rbad s" "stack_log (rlog t) vs" "map (cval (rheap t)) (map fst S') = vs"
  shows "ref_inv t"
  using assms by (auto simp: ref_inv_def)

lemma cvals_frame: "(\<And>x. x \<in> fst ` set S \<Longrightarrow> h' x = h x) \<Longrightarrow> map (cval h') (map fst S) = map (cval h) (map fst S)"
  by (simp add: cval_def)

lemma ref_go_inv:
  assumes inv: "ref_inv s"
    and c': "rref c' = rref (rpc s i)" "rowns c' = rowns (rpc s i)"
    and ok: "\<And>y r. rowns c' = Some y \<Longrightarrow> thread_ok (rheap s) r (rpc s i) \<Longrightarrow> thread_ok (rheap s) r c'"
    and cas: "\<And>e x p. c' = RPopCas e x p \<Longrightarrow> \<exists>n. rheap s x = Some n \<and> cnext n = p"
  shows "ref_inv (rgo i c' s)"
proof -
  obtain S where rep: "rrep (rheap s) (rhead s) (rpc s) S"
    and log: "stack_log (rlog s) (map (cval (rheap s)) (map fst S))"
    using inv by (rule ref_invE)
  have "rrep (rheap s) (rhead s) ((rpc s)(i := c')) S"
    using rep rrepD(1) [OF rep] c' ok cas by (rule rrep_same)
  with log show ?thesis by (intro ref_invI [OF inv]) (auto simp: rgo_def)
qed

lemma ref_alloc_inv:
  assumes inv: "ref_inv s" and st: "ref_alloc_step 0 i a s = Some t"
  shows "ref_inv t"
proof -
  obtain S where rep: "rrep (rheap s) (rhead s) (rpc s) S"
    and log: "stack_log (rlog s) (map (cval (rheap s)) (map fst S))"
    using inv by (rule ref_invE)
  note r = rrepD [OF rep]
  obtain v where c: "rpc s i = RPushNew v" and a: "rheap s a = None"
    and t: "t = rgo i (RPushLoad a) (rput a \<lparr>cdata = Some v, internal_count = 0, cnext = (0, None)\<rparr> s)"
    using st by (auto simp: ref_alloc_step_def split: ref_pc.splits if_splits)
  let ?h = "(rheap s)(a \<mapsto> \<lparr>cdata = Some v, internal_count = 0, cnext = (0, None)\<rparr>)"
  have aS: "a \<notin> fst ` set S" using cseg_dom [OF r(1)] a by metis
  have ao: "rowns (rpc s j) \<noteq> Some a" for j
    using r(5) [of j a] a by (cases "rpc s j") auto
  have ar: "rref (rpc s j) \<noteq> Some a" for j using r(8) a by metis
  then have r0: "refs (rpc s) a = 0" by (simp add: refs_def)
  have R: "refs ((rpc s)(i := RPushLoad a)) a = 0"
    using refs_upd(2) [OF r(10), of i "RPushLoad a" a] r0 c by simp
  have "rrep ?h (rhead s) ((rpc s)(i := RPushLoad a)) S"
  proof (rule rrep_step [OF rep, where y = a])
    show "cseg ?h (rhead s) S" using r(1) by (rule cseg_same) (use aS in auto)
    show "\<And>k. (a, k) \<in> set S \<Longrightarrow> stack_ok ?h (refs ((rpc s)(i := RPushLoad a)) a) a k"
      using aS by (metis fst_conv image_eqI)
  qed (use r(2) ao ar aS R c in auto)
  moreover have "map (cval ?h) (map fst S) = map (cval (rheap s)) (map fst S)"
    using aS by (intro cvals_frame) auto
  ultimately show ?thesis
    using log by (intro ref_invI [OF inv, of t i "RPushLoad a" S "map (cval (rheap s)) (map fst S)"]) (simp_all add: t rgo_def rput_def)
qed

lemma ref_push_inv:
  assumes inv: "ref_inv s" and st: "ref_push_step i s = Some t"
  shows "ref_inv t"
proof -
  obtain S where rep: "rrep (rheap s) (rhead s) (rpc s) S"
    and log: "stack_log (rlog s) (map (cval (rheap s)) (map fst S))"
    using inv by (rule ref_invE)
  note r = rrepD [OF rep]
  obtain a where a: "rpc s i = RPushLoad a \<or> rpc s i = RPushCas a"
    using st by (auto simp: ref_push_step_def split: ref_pc.splits)
  then have o: "rowns (rpc s i) = Some a" by auto
  obtain n where n: "rheap s a = Some n" "internal_count n = 0" "cdata n \<noteq> None" "refs (rpc s) a = 0"
    using r(5) [OF o] a by auto
  have aS: "a \<notin> fst ` set S" and ao: "\<And>j. j \<noteq> i \<Longrightarrow> rowns (rpc s j) \<noteq> Some a"
    using r(3,4) [OF o] by auto
  have ar: "rref (rpc s j) \<noteq> Some a" for j using refs_pos [OF r(10), of j a] n(4) by auto
  have R: "refs ((rpc s)(i := c)) a = 0" if "rref c = None" for c
    using refs_upd(2) [OF r(10), of i c a] n(4) ar that by simp
  let ?h = "(rheap s)(a \<mapsto> n\<lparr>cnext := rhead s\<rparr>)"
  have "rrep ?h (rhead s) ((rpc s)(i := RPushCas a)) S"
  proof (rule rrep_step [OF rep, where y = a])
    show "cseg ?h (rhead s) S" using r(1) by (rule cseg_same) (use aS in auto)
    show "\<And>k. (a, k) \<in> set S \<Longrightarrow> stack_ok ?h (refs ((rpc s)(i := RPushCas a)) a) a k"
      using aS by (metis fst_conv image_eqI)
  qed (use r(2) ao ar aS R n a in auto)
  moreover have "map (cval ?h) (map fst S) = map (cval (rheap s)) (map fst S)"
    using aS by (intro cvals_frame) auto
  ultimately have link: "ref_inv (rgo i (RPushCas a) (rput a (n\<lparr>cnext := rhead s\<rparr>) s))"
    using log by (intro ref_invI [OF inv, of _ i "RPushCas a" S "map (cval (rheap s)) (map fst S)"]) (simp_all add: rgo_def rput_def)
  show ?thesis
  proof (cases "rpc s i = RPushLoad a")
    case True
    with st n link show ?thesis by (simp add: ref_push_step_def rnode_def)
  next
    case False
    with a have c: "rpc s i = RPushCas a" by simp
    show ?thesis
    proof (cases "rhead s = cnext n")
      case False
      with st n c have "t = rput a (n\<lparr>cnext := rhead s\<rparr>) s" by (simp add: ref_push_step_def rnode_def)
      with link c show ?thesis by (auto simp: rgo_def rput_def fun_upd_idem)
    next
      case True
      let ?S = "(a, 1) # S"
      have "rrep (rheap s) (1, Some a) ((rpc s)(i := RIdle)) ?S"
      proof (rule rrep_step [OF rep, where y = a])
        show "cseg (rheap s) (1, Some a) ?S" using r(1) n True by simp
        show "\<And>k. (a, k) \<in> set ?S \<Longrightarrow> stack_ok (rheap s) (refs ((rpc s)(i := RIdle)) a) a k"
          using aS n R by (force simp: stack_ok_def)
        show "\<And>j e p. j \<noteq> i \<Longrightarrow> rpc s j = RPopCas e a p \<Longrightarrow> \<exists>n. rheap s a = Some n \<and> cnext n = p"
          using ar by (metis rref.simps(2))
      qed (use r(2) ao ar aS n c in \<open>auto simp: image_iff\<close>)
      moreover have "stack_log (rlog s @ [(QPush (cval (rheap s) a), Pushed True)])
          (cval (rheap s) a # map (cval (rheap s)) (map fst S))"
        by (rule stack_log_snoc [OF log]) simp
      ultimately have "ref_inv (rgo i RIdle (s\<lparr>rhead := (1, Some a),
          rlog := rlog s @ [(QPush (cval (rheap s) a), Pushed True)]\<rparr>))"
        by (intro ref_invI [OF inv, of _ i RIdle ?S]) (simp_all add: rgo_def)
      with st n c True show ?thesis by (simp add: ref_push_step_def rnode_def)
    qed
  qed
qed

text \<open>Deletion: the owner of a node nobody refers to.\<close>

lemma ref_delete_inv:
  assumes inv: "ref_inv s" and c: "rpc s i = RDelete x k"
    and c': "rowns c' = None" "rref c' = None"
  shows "ref_inv (rgo i c' (s\<lparr>rheap := (rheap s)(x := None)\<rparr>))"
proof -
  obtain S where rep: "rrep (rheap s) (rhead s) (rpc s) S"
    and log: "stack_log (rlog s) (map (cval (rheap s)) (map fst S))"
    using inv by (rule ref_invE)
  note r = rrepD [OF rep]
  have o: "rowns (rpc s i) = Some x" using c by simp
  have z: "refs (rpc s) x = 0" using r(5) [OF o] c by simp
  have xS: "x \<notin> fst ` set S" and xo: "\<And>j. j \<noteq> i \<Longrightarrow> rowns (rpc s j) \<noteq> Some x"
    using r(3,4) [OF o] by auto
  have xr: "rref (rpc s j) \<noteq> Some x" for j using refs_pos [OF r(10), of j x] z by auto
  have "rrep ((rheap s)(x := None)) (rhead s) ((rpc s)(i := c')) S"
  proof (rule rrep_step [OF rep, where y = x])
    show "cseg ((rheap s)(x := None)) (rhead s) S" using r(1) by (rule cseg_same) (use xS in auto)
    show "\<And>k. (x, k) \<in> set S \<Longrightarrow> stack_ok ((rheap s)(x := None)) (refs ((rpc s)(i := c')) x) x k"
      using xS by (metis fst_conv image_eqI)
  qed (use r(2) xo xr xS c c' in auto)
  moreover have "map (cval ((rheap s)(x := None))) (map fst S) = map (cval (rheap s)) (map fst S)"
    using xS by (intro cvals_frame) auto
  ultimately show ?thesis
    using log by (intro ref_invI [OF inv, of _ i c' S "map (cval (rheap s)) (map fst S)"]) (simp_all add: rgo_def)
qed

text \<open>\<open>increase_head_count\<close>: the first node of the stack gets a reference.\<close>

lemma increase_inv:
  assumes inv: "ref_inv s" and c: "rpc s i = RIncrease old"
  shows "ref_inv (increase_head_count i old s)"
proof (cases "rhead s = old")
  case False
  with c show ?thesis
    using ref_go_inv [OF inv, of "RIncrease (rhead s)" i] by (simp add: increase_head_count_def)
next
  case True
  obtain S where rep: "rrep (rheap s) (rhead s) (rpc s) S"
    and log: "stack_log (rlog s) (map (cval (rheap s)) (map fst S))"
    using inv by (rule ref_invE)
  note r = rrepD [OF rep]
  obtain e p where old: "old = (e, p)" by fastforce
  show ?thesis
  proof (cases p)
    case None
    then have S: "S = []" using r(1) True old by (cases S) auto
    have "rrep (rheap s) (e + 1, None) ((rpc s)(i := RIdle)) S"
      by (rule rrep_same [OF rep]) (simp_all add: S c)
    moreover have "stack_log (rlog s @ [(QPop, Popped None)]) []"
      using stack_log_snoc [of "rlog s" "[]" QPop "Popped None" "[]"] log by (simp add: S)
    ultimately show ?thesis
      using True old None S
      by (intro ref_invI [OF inv, of _ i RIdle S "[]"]) (simp_all add: increase_head_count_def rgo_def)
  next
    case (Some x)
    then obtain S' n where S: "S = (x, e) # S'" "rheap s x = Some n" "cseg (rheap s) (cnext n) S'"
      using r(1) True old by (cases S) auto
    let ?c = "RPopNext (e + 1) x" and ?S = "(x, e + 1) # S'"
    have R: "refs ((rpc s)(i := ?c)) x = refs (rpc s) x + 1"
      using refs_upd(2) [OF r(10), of i ?c x] c by simp
    have ok: "stack_ok (rheap s) (refs (rpc s) x) x e" using r(6) S by simp
    have xS: "x \<notin> fst ` set S'" using r(2) S by simp
    have xo: "rowns (rpc s j) \<noteq> Some x" for j using r(3) [of j x] S by auto
    have "rrep (rheap s) (e + 1, Some x) ((rpc s)(i := ?c)) ?S"
    proof (rule rrep_step [OF rep, where y = x])
      show "cseg (rheap s) (e + 1, Some x) ?S" using S by simp
      show "distinct (map fst ?S)" using r(2) S by simp
      show "\<And>k. (x, k) \<in> set ?S \<Longrightarrow> stack_ok (rheap s) (refs ((rpc s)(i := ?c)) x) x k"
        using ok xS R by (force simp: stack_ok_def)
      show "\<exists>n. rheap s x = Some n \<and> cnext n = p" if "rpc s j = RPopCas e' x p" for j e' p
        using r(9) [OF that] S by simp
    qed (use S xo c in auto)
    then show ?thesis
      using True old Some log S
      by (intro ref_invI [OF inv, of _ i ?c ?S "map (cval (rheap s)) (map fst S)"])
        (simp_all add: increase_head_count_def rgo_def)
  qed
qed

text \<open>One turn of \<open>pop\<close>: the successful exchange takes the node out of the stack.\<close>

lemma ref_take_inv:
  assumes inv: "ref_inv s" and c: "rpc s i = RPopCas e x p" and h: "rhead s = (e, Some x)"
  shows "ref_inv (rgo i (RSwap e x (cval (rheap s) x)) (s\<lparr>rhead := p,
      rlog := rlog s @ [(QPop, Popped (Some (cval (rheap s) x)))]\<rparr>))"
proof -
  obtain S where rep: "rrep (rheap s) (rhead s) (rpc s) S"
    and log: "stack_log (rlog s) (map (cval (rheap s)) (map fst S))"
    using inv by (rule ref_invE)
  note r = rrepD [OF rep]
  obtain S' n where S: "S = (x, e) # S'" "rheap s x = Some n" "cseg (rheap s) (cnext n) S'"
    using r(1) h by (cases S) auto
  have p: "cnext n = p" using r(9) [OF c] S by simp
  let ?c = "RSwap e x (cval (rheap s) x)"
  have ok: "stack_ok (rheap s) (refs (rpc s) x) x e" using r(6) S by simp
  have R: "refs ((rpc s)(i := ?c)) x = refs (rpc s) x - 1"
    using refs_upd(2) [OF r(10), of i ?c x] c by simp
  have xS: "x \<notin> fst ` set S'" using r(2) S by simp
  have xo: "rowns (rpc s j) \<noteq> Some x" for j using r(3) [of j x] S by auto
  have "rrep (rheap s) p ((rpc s)(i := ?c)) S'"
  proof (rule rrep_step [OF rep, where y = x])
    show "rowns ?c = Some x \<Longrightarrow> thread_ok (rheap s) (refs ((rpc s)(i := ?c)) x) ?c \<and> x \<notin> fst ` set S' \<and>
        (\<forall>j. j \<noteq> i \<longrightarrow> rowns (rpc s j) \<noteq> Some x)"
      using ok xS xo unfolding R by (auto simp: stack_ok_def cval_def)
    show "\<And>k. (x, k) \<in> set S' \<Longrightarrow> stack_ok (rheap s) (refs ((rpc s)(i := ?c)) x) x k"
      using xS by (metis fst_conv image_eqI)
  qed (use S p xo xS r(2) c in auto)
  moreover have "stack_log (rlog s @ [(QPop, Popped (Some (cval (rheap s) x)))])
      (map (cval (rheap s)) (map fst S'))"
    by (rule stack_log_snoc [OF log]) (simp add: S)
  ultimately show ?thesis
    by (intro ref_invI [OF inv, of _ i ?c S' "map (cval (rheap s)) (map fst S')"]) (simp_all add: rgo_def)
qed

text \<open>A thread that owns the node changes its data or its counter.\<close>

lemma ref_owner_inv:
  assumes inv: "ref_inv s" and o: "rowns (rpc s i) = Some x" and n: "rheap s x = Some n"
    and c': "rref c' = None" "rref (rpc s i) = None" "rowns c' = None \<or> rowns c' = Some x"
    and own: "rowns c' = Some x \<Longrightarrow> thread_ok ((rheap s)(x \<mapsto> n')) (refs (rpc s) x) c'"
    and free: "rowns c' = None \<Longrightarrow> internal_count n' = refs (rpc s) x \<and> refs (rpc s) x > 0"
  shows "ref_inv (rgo i c' (rput x n' s))"
proof -
  obtain S where rep: "rrep (rheap s) (rhead s) (rpc s) S"
    and log: "stack_log (rlog s) (map (cval (rheap s)) (map fst S))"
    using inv by (rule ref_invE)
  note r = rrepD [OF rep]
  have R: "refs ((rpc s)(i := c')) x = refs (rpc s) x"
    using refs_upd(2) [OF r(10), of i c' x] c' by simp
  have xS: "x \<notin> fst ` set S" and xo: "\<And>j. j \<noteq> i \<Longrightarrow> rowns (rpc s j) \<noteq> Some x"
    using r(3,4) [OF o] by auto
  let ?h = "(rheap s)(x \<mapsto> n')"
  have "rrep ?h (rhead s) ((rpc s)(i := c')) S"
  proof (rule rrep_step [OF rep, where y = x])
    show "cseg ?h (rhead s) S" using r(1) by (rule cseg_same) (use xS in auto)
    show "\<And>k. (x, k) \<in> set S \<Longrightarrow> stack_ok ?h (refs ((rpc s)(i := c')) x) x k"
      using xS by (metis fst_conv image_eqI)
    show "\<And>n. ?h x = Some n \<Longrightarrow> x \<notin> fst ` set S \<Longrightarrow> rowns c' \<noteq> Some x \<Longrightarrow>
       (\<forall>j. j \<noteq> i \<longrightarrow> rowns (rpc s j) \<noteq> Some x) \<Longrightarrow>
       internal_count n = refs ((rpc s)(i := c')) x \<and> refs ((rpc s)(i := c')) x > 0"
      unfolding R using free c'(3) by auto
    show "rowns c' = Some x \<Longrightarrow> thread_ok ?h (refs ((rpc s)(i := c')) x) c' \<and> x \<notin> fst ` set S \<and>
        (\<forall>j. j \<noteq> i \<longrightarrow> rowns (rpc s j) \<noteq> Some x)"
      unfolding R using own xS xo by auto
  qed (use r(2) xo xS c' o in auto)
  moreover have "map (cval ?h) (map fst S) = map (cval (rheap s)) (map fst S)"
    using xS by (intro cvals_frame) auto
  ultimately show ?thesis
    using log by (intro ref_invI [OF inv, of _ i c' S "map (cval (rheap s)) (map fst S)"])
      (simp_all add: rgo_def rput_def)
qed

text \<open>A thread that lost the exchange gives its reference back.\<close>

lemma ref_release_inv:
  assumes inv: "ref_inv s" and c: "rpc s i = RRelease x old" and n: "rheap s x = Some n"
  shows "ref_inv (rgo i (if internal_count n = 1 then RDelete x (Some old) else RIncrease old)
     (rput x (n\<lparr>internal_count := internal_count n - 1\<rparr>) s))"
proof -
  obtain S where rep: "rrep (rheap s) (rhead s) (rpc s) S"
    and log: "stack_log (rlog s) (map (cval (rheap s)) (map fst S))"
    using inv by (rule ref_invE)
  note r = rrepD [OF rep]
  define c' :: "'a ref_pc" where "c' = (if internal_count n = 1 then RDelete x (Some old) else RIncrease old)"
  have cc: "rref c' = None" "rowns c' = (if internal_count n = 1 then Some x else None)"
    by (simp_all add: c'_def)
  let ?n = "n\<lparr>internal_count := internal_count n - 1\<rparr>" and ?r = "refs (rpc s) x"
  let ?h = "(rheap s)(x \<mapsto> ?n)" and ?pc = "(rpc s)(i := c')"
  have R: "refs ?pc x = ?r - 1"
    using refs_upd(2) [OF r(10), of i c' x] c by (simp add: c'_def)
  have pos: "?r > 0" using refs_pos [OF r(10), of i x] c by simp
  have inS: "stack_ok ?h (refs ?pc x) x k \<and> internal_count n \<noteq> 1" if "(x, k) \<in> set S" for k
    using r(6) [OF that] n unfolding R by (auto simp: stack_ok_def)
  have own: "thread_ok ?h (refs ?pc x) (rpc s j) \<and> internal_count n \<noteq> 1 \<and> x \<notin> fst ` set S"
    if "rowns (rpc s j) = Some x" for j
    using r(5) [OF that] r(3) [OF that] that n pos unfolding R by (cases "rpc s j") auto
  have free: "internal_count n = ?r"
    if "x \<notin> fst ` set S" "\<forall>j. j \<noteq> i \<longrightarrow> rowns (rpc s j) \<noteq> Some x"
  proof -
    have "rowns (rpc s j) \<noteq> Some x" for j using that(2) c by (cases "j = i") auto
    with n that(1) show ?thesis using r(7) by blast
  qed
  have "rrep ?h (rhead s) ?pc S"
  proof (rule rrep_step [OF rep, where y = x])
    show "cseg ?h (rhead s) S" using r(1) n by (rule cseg_count) simp
    show "rowns c' = Some x \<Longrightarrow> thread_ok ?h (refs ?pc x) c' \<and> x \<notin> fst ` set S \<and>
        (\<forall>j. j \<noteq> i \<longrightarrow> rowns (rpc s j) \<noteq> Some x)"
    proof -
      assume "rowns c' = Some x"
      then have one: "internal_count n = 1" by (simp add: cc split: if_splits)
      then have xS: "x \<notin> fst ` set S" and xo: "\<forall>j. j \<noteq> i \<longrightarrow> rowns (rpc s j) \<noteq> Some x"
        using inS own by auto
      with free one R show ?thesis by (auto simp: c'_def)
    qed
    show "\<And>j. j \<noteq> i \<Longrightarrow> rowns (rpc s j) = Some x \<Longrightarrow> thread_ok ?h (refs ?pc x) (rpc s j) \<and> x \<notin> fst ` set S"
      using own by blast
    show "\<And>k. (x, k) \<in> set S \<Longrightarrow> stack_ok ?h (refs ?pc x) x k" using inS by blast
    show "internal_count m = refs ?pc x \<and> refs ?pc x > 0"
      if "?h x = Some m" "x \<notin> fst ` set S" "rowns c' \<noteq> Some x" "\<forall>j. j \<noteq> i \<longrightarrow> rowns (rpc s j) \<noteq> Some x" for m
      using that free pos R by (auto simp: cc split: if_splits)
    show "\<exists>m. ?h x = Some m \<and> cnext m = p" if "rpc s j = RPopCas e x p" "x \<in> fst ` set S" for j e p
      using r(9) [OF that] n by simp
  qed (use r(2) c cc in \<open>auto simp: c'_def\<close>)
  moreover have "map (cval ?h) (map fst S) = map (cval (rheap s)) (map fst S)"
    using n by (auto simp: cval_def)
  ultimately show ?thesis
    using log unfolding c'_def [symmetric]
    by (intro ref_invI [OF inv, of _ i c' S "map (cval (rheap s)) (map fst S)"])
      (simp_all add: rgo_def rput_def)
qed

lemma ref_pop_inv:
  assumes inv: "ref_inv s" and st: "ref_pop_step i s = Some t"
  shows "ref_inv t"
proof -
  obtain S where rep: "rrep (rheap s) (rhead s) (rpc s) S"
    using inv by (rule ref_invE)
  note r = rrepD [OF rep]
  show ?thesis
  proof (cases "rpc s i")
    case RPopLoad
    with st show ?thesis
      using ref_go_inv [OF inv, of "RIncrease (rhead s)" i] by (simp add: ref_pop_step_def)
  next
    case (RIncrease old)
    with st increase_inv [OF inv RIncrease] show ?thesis by (simp add: ref_pop_step_def)
  next
    case (RPopNext e x)
    obtain n where n: "rheap s x = Some n" using r(8) [of i x] RPopNext by auto
    have "ref_inv (rgo i (RPopCas e x (cnext n)) s)"
      by (rule ref_go_inv [OF inv]) (simp_all add: RPopNext n)
    with st n RPopNext show ?thesis by (simp add: ref_pop_step_def rnode_def)
  next
    case (RPopCas e x p)
    then show ?thesis
      using st ref_take_inv [OF inv RPopCas] ref_go_inv [OF inv, of "RRelease x (rhead s)" i]
      by (auto simp: ref_pop_step_def split: if_splits)
  next
    case (RSwap e x v)
    then obtain n where n: "rheap s x = Some n" "cdata n = Some v" "internal_count n \<le> 0"
      "e - 2 + internal_count n = refs (rpc s) x"
      using r(5) [of i x] by auto
    have "ref_inv (rgo i (RFetchAdd e x) (rput x (n\<lparr>cdata := None\<rparr>) s))"
      by (rule ref_owner_inv [OF inv _ n(1)]) (simp_all add: RSwap n)
    with st n RSwap show ?thesis by (simp add: ref_pop_step_def rnode_def)
  next
    case (RFetchAdd e x)
    then obtain n where n: "rheap s x = Some n" "internal_count n \<le> 0"
      "e - 2 + internal_count n = refs (rpc s) x"
      using r(5) [of i x] by auto
    have nn: "refs (rpc s) x \<ge> 0" by (simp add: refs_def)
    have "ref_inv (rgo i (if internal_count n = - (e - 2) then RDelete x None else RIdle)
       (rput x (n\<lparr>internal_count := internal_count n + (e - 2)\<rparr>) s))"
      by (rule ref_owner_inv [OF inv _ n(1)]) (use RFetchAdd n nn in \<open>auto split: if_splits\<close>)
    with st n RFetchAdd show ?thesis by (simp add: ref_pop_step_def rnode_def Let_def)
  next
    case (RRelease x old)
    obtain n where n: "rheap s x = Some n" using r(8) [of i x] RRelease by auto
    with st RRelease ref_release_inv [OF inv RRelease n] show ?thesis
      by (simp add: ref_pop_step_def rnode_def)
  next
    case (RDelete x k)
    then have "rheap s x \<noteq> None" using r(5) [of i x] by auto
    with st RDelete show ?thesis
      using ref_delete_inv [OF inv RDelete, of "case k of None \<Rightarrow> RIdle | Some old_head \<Rightarrow> RIncrease old_head"]
      by (auto simp: ref_pop_step_def rnode_def split: option.splits)
  qed (use st in \<open>simp_all add: ref_pop_step_def\<close>)
qed

interpretation rcs: inv_machine "ref_exec 0" ref_inv
proof
  fix s t :: "'a ref_stack" and e
  assume inv: "ref_inv s" and st: "ref_exec 0 e s = Some t"
  show "ref_inv t"
  proof (cases e)
    case (RPush i v)
    with st show ?thesis
      using ref_go_inv [OF inv, of "RPushNew v" i] by (auto split: if_splits)
  next
    case (RPop i)
    with st show ?thesis
      using ref_go_inv [OF inv, of RPopLoad i] by (auto split: if_splits)
  qed (use st inv ref_alloc_inv ref_push_inv ref_pop_inv in auto)
qed

lemma ref_start: "ref_inv ref_count_stack"
  unfolding ref_inv_def
  by (intro conjI exI [of _ "[]"]) (auto simp: ref_count_stack_def rrep_def)

text \<open>The counters are exact: what is left in the heap when every thread has returned is the stack.\<close>

lemma rrep_quiet:
  assumes "rrep h tp pc S" "\<forall>i. pc i = RIdle"
  shows "dom h = fst ` set S"
proof -
  note r = rrepD [OF assms(1)]
  have "refs pc x = 0" for x using assms(2) by (simp add: refs_def)
  moreover have "rowns (pc i) \<noteq> Some x" for i x using assms(2) by simp
  ultimately have "x \<in> fst ` set S" if "h x = Some n" for x n
    using r(7) [OF that] by fastforce
  moreover have "x \<in> dom h" if "x \<in> fst ` set S" for x using cseg_dom [OF r(1) that] by auto
  ultimately show ?thesis by blast
qed


text \<open>Two pops take a reference to the same node; the loser gives its own back and deletes it.\<close>

definition two_ref_pops :: "nat ref_event list" where
  "two_ref_pops = [RPush 0 5, RAlloc 0 0, RPushStep 0, RPushStep 0, RPop 1, RPop 2, RPopStep 1, RPopStep 2,
     RPopStep 1, RPopStep 2, RPopStep 2, RPopStep 1, RPopStep 2, RPopStep 1, RPopStep 1, RPopStep 1] @
     replicate 7 (RPopStep 2) @ replicate 5 (RPopStep 1)"

lemmas ref_defs = ref_count_stack_def rgo_def rnode_def rput_def ref_alloc_step_def ref_push_step_def
  ref_pop_step_def increase_head_count_def cval_def Let_def


section \<open>\<open>SingleRefStack.h\<close>\<close>

text \<open>
  The same operations under other names, and compared with \<open>compare_exchange_weak\<close>, whose
  spurious failures repeat a turn with the same values. The constructor of its \<open>node\<close> does not
  name \<open>_dec_count\<close>, so the counter starts with an indeterminate value (before C++20, where a
  default-constructed \<open>atomic\<close> became zero): the argument \<open>d\<close>.
\<close>

definition single_ref_stack :: "'a ref_stack" where
  "single_ref_stack = ref_count_stack"

definition single_ref_exec :: "int \<Rightarrow> 'a ref_event \<Rightarrow> 'a ref_stack \<Rightarrow> 'a ref_stack option" where
  "single_ref_exec d e s = (case e of
     RPush i v \<Rightarrow> if rpc s i = RIdle then Some (rgo i (RPushNew v) s) else None
   | RPop i \<Rightarrow> if rpc s i = RIdle then Some (rgo i RPopLoad s) else None
   | RAlloc i a \<Rightarrow> ref_alloc_step d i a s
   | RPushStep i \<Rightarrow> ref_push_step i s
   | RPopStep i \<Rightarrow> ref_pop_step i s)"

lemma single_ref_exec_eq [simp]: "single_ref_exec d e s = ref_exec d e s"
  by (cases e) (simp_all add: single_ref_exec_def)

text \<open>One thread, without contention: \<open>push(v)\<close>, then \<open>pop()\<close>.\<close>

definition push_pop_run :: "'a \<Rightarrow> 'a ref_event list" where
  "push_pop_run v = [RPush 0 v, RAlloc 0 0, RPushStep 0, RPushStep 0] @ RPop 0 # replicate 6 (RPopStep 0)"

text \<open>
  C39. The uninitialised counter: after a \<open>push\<close> and a \<open>pop\<close> of one thread, the call has
  returned the value, and the node has been given back if the counter happened to start at 0;
  from any other value it stays allocated for good.
\<close>

theorem single_ref_counter_uninitialised:
  "\<exists>s. run (single_ref_exec d) (push_pop_run v @ (if d = 0 then [RPopStep 0] else [])) single_ref_stack = Some s \<and>
     rlog s = [(QPush v, Pushed True), (QPop, Popped (Some v))] \<and> (\<forall>i. rpc s i = RIdle) \<and>
     (rheap s 0 = None \<longleftrightarrow> d = 0)"
  by (simp add: push_pop_run_def single_ref_stack_def numeral_eq_Suc ref_defs)

end
