(* ===== verification/Tlv.thy ===== *)
theory Tlv
  imports Prelude
begin

text \<open>
  The message nodes of the servers: \<open>src/Network/asyncServer/src/MsgNode.cpp\<close> (a header of a
  16 bit id and a 16 bit length, both in network byte order, then the body), the variant of
  \<open>src/Network/coroutineServer\<close> and that of \<open>src/Network/asycApi\<close>. The theory proves the
  layout a send node puts on the wire, that reading the header back gives the id and the
  length that were sent, and exactly when the coroutine server's header does so.
\<close>

section \<open>Byte order\<close>

text \<open>
  \<open>memcpy\<close> from and to a \<open>short\<close> on a little-endian host, and \<open>host_to_network_short\<close> /
  \<open>network_to_host_short\<close>, which both swap the two bytes of an unsigned 16 bit value there.
\<close>

definition short_bytes :: "int \<Rightarrow> byte list" where
  "short_bytes x = [word_of_int x, word_of_int (x div 256)]"

definition load_short :: "byte list \<Rightarrow> int" where
  "load_short bs = to_short (uint (bs ! 0) + 256 * uint (bs ! 1))"

definition swap16 :: "int \<Rightarrow> int" where
  "swap16 x = (let u = x mod 65536 in (u mod 256) * 256 + u div 256)"

text \<open>The two bytes of a short in network order: what the wire format promises.\<close>

definition be16 :: "int \<Rightarrow> byte list" where
  "be16 x = [word_of_int (x div 256), word_of_int x]"

lemma uint_byte: "uint (word_of_int x :: byte) = x mod 256"
  by (simp add: uint_word_of_int)

lemma word_of_int_byte_mod: "(word_of_int (x mod 256) :: byte) = word_of_int x"
  by (rule word_uint_eqI) (simp add: uint_byte)

lemma length_be16 [simp]: "length (be16 x) = 2"
  by (simp add: be16_def)

lemma length_short_bytes [simp]: "length (short_bytes x) = 2"
  by (simp add: short_bytes_def)

lemma swap16_mod [simp]: "swap16 (x mod 65536) = swap16 x"
  by (simp add: swap16_def)

lemma swap16_to_short [simp]: "swap16 (to_short x) = swap16 x"
  by (simp add: swap16_def to_short_def mod_simps)

lemma mod_65536: "x mod 65536 = 256 * (x div 256 mod 256) + x mod (256 :: int)"
  using zmod_zmult2_eq [of 256 x 256] by simp

lemma div_mod_256: "x mod 65536 div 256 = x div 256 mod (256 :: int)"
  by (simp add: mod_65536)

lemma mod_mod_256: "x mod 65536 mod 256 = x mod (256 :: int)"
  by (simp add: mod_65536)

lemma swap16_parts: "swap16 x = (x mod 256) * 256 + x div 256 mod 256"
  by (simp add: swap16_def Let_def div_mod_256 mod_mod_256)

lemma swap16_hi: "swap16 x div 256 = x mod 256"
  by (simp add: swap16_parts)

lemma swap16_lo: "swap16 x mod 256 = x div 256 mod 256"
  by (simp add: swap16_parts)

lemma swap16_swap16: "swap16 (swap16 x) = x mod 65536"
  unfolding swap16_parts [of "swap16 x"] swap16_hi swap16_lo by (simp add: mod_65536)

lemma short_bytes_cong: "x mod 65536 = y mod 65536 \<Longrightarrow> short_bytes x = short_bytes y"
proof -
  assume eq: "x mod 65536 = y mod 65536"
  have "x mod 256 = y mod 256" "x div 256 mod 256 = y div 256 mod 256"
    using eq by (metis mod_mod_256, metis div_mod_256)
  then show ?thesis
    unfolding short_bytes_def
    using word_of_int_byte_mod [of x] word_of_int_byte_mod [of y]
      word_of_int_byte_mod [of "x div 256"] word_of_int_byte_mod [of "y div 256"] by simp
qed

lemma short_bytes_to_short: "short_bytes (to_short x) = short_bytes x"
  by (rule short_bytes_cong) (simp add: to_short_def mod_simps)

text \<open>Storing a swapped short writes it in network order.\<close>

lemma short_bytes_swap16: "short_bytes (swap16 x) = be16 x"
proof -
  have "(word_of_int (swap16 x) :: byte) = word_of_int (x div 256)"
    using word_of_int_byte_mod [of "swap16 x"] word_of_int_byte_mod [of "x div 256"]
    by (simp add: swap16_lo)
  then show ?thesis
    using word_of_int_byte_mod [of x] by (simp add: short_bytes_def be16_def swap16_hi)
qed

lemma load_short_bytes: "load_short (short_bytes x @ r) = to_short x"
proof -
  have "x mod 256 + 256 * (x div 256 mod 256) = x mod 65536"
    by (simp add: mod_65536)
  then show ?thesis
    by (simp add: load_short_def short_bytes_def uint_byte)
qed

lemma load_swap_be16: "to_short (swap16 (load_short (be16 x @ r))) = to_short x"
  unfolding short_bytes_swap16 [symmetric] load_short_bytes
  by (simp add: swap16_swap16)

section \<open>Nodes\<close>

record msg_node =
  cur_len :: int
  total_len :: int
  ndata :: "byte list"

text \<open>\<open>RecvNode\<close> and \<open>SendNode\<close> add the message id.\<close>

record typed_node = msg_node +
  msg_id :: int

definition HEAD_TOTAL_LEN :: int where "HEAD_TOTAL_LEN = 4"
definition HEAD_ID_LEN :: int where "HEAD_ID_LEN = 2"
definition HEAD_DATA_LEN :: int where "HEAD_DATA_LEN = 2"
definition MAX_LENGTH :: int where "MAX_LENGTH = 1024 * 2"
definition MAX_SENDQUE :: nat where "MAX_SENDQUE = 1000"

lemmas tlv_consts = HEAD_TOTAL_LEN_def HEAD_ID_LEN_def HEAD_DATA_LEN_def MAX_LENGTH_def
  MAX_SENDQUE_def

text \<open>
  \<open>MsgNode(short total_len)\<close>: allocates \<open>total_len + 1\<close> zeroed bytes and stores the final
  zero. A negative size throws; \<open>total_len = -1\<close> stores before the array.
\<close>

definition MsgNode :: "int \<Rightarrow> msg_node res" where
  "MsgNode tlen =
     (if tlen + 1 < 0 then Inl BadArrayNewLength
      else rbind (store_at (replicate (nat (tlen + 1)) 0) tlen 0)
        (\<lambda>d. Inr \<lparr>cur_len = 0, total_len = tlen, ndata = d\<rparr>))"

definition MsgNode_Clear :: "'r msg_node_scheme \<Rightarrow> 'r msg_node_scheme res" where
  "MsgNode_Clear n = rbind (memzero (ndata n) (total_len n))
     (\<lambda>d. Inr (n\<lparr>ndata := d, cur_len := 0\<rparr>))"

definition RecvNode :: "int \<Rightarrow> int \<Rightarrow> typed_node res" where
  "RecvNode tlen mid = rbind (MsgNode tlen)
     (\<lambda>n. Inr (msg_node.extend n (typed_node.fields mid)))"

definition SendNode :: "byte list \<Rightarrow> int \<Rightarrow> int \<Rightarrow> typed_node res" where
  "SendNode msg tlen mid =
     rbind (MsgNode (to_short (tlen + HEAD_TOTAL_LEN))) (\<lambda>n.
     rbind (memcpy (ndata n) 0 (short_bytes (to_short (swap16 mid))) 0 HEAD_ID_LEN) (\<lambda>d1.
     rbind (memcpy d1 HEAD_ID_LEN (short_bytes (to_short (swap16 tlen))) 0 HEAD_DATA_LEN) (\<lambda>d2.
     rbind (memcpy d2 HEAD_TOTAL_LEN msg 0 tlen) (\<lambda>d3.
     Inr (msg_node.extend (n\<lparr>ndata := d3\<rparr>) (typed_node.fields mid))))))"

text \<open>The coroutine server's node: \<open>Clear\<close> wipes one byte more, and \<open>SendNode\<close> copies
  \<open>msg_id\<close> where it computed \<open>msg_id_net\<close>.\<close>

definition co_MsgNode :: "int \<Rightarrow> msg_node res" where
  "co_MsgNode tlen =
     (if tlen + 1 < 0 then Inl BadArrayNewLength
      else Inr \<lparr>cur_len = 0, total_len = tlen, ndata = replicate (nat (tlen + 1)) 0\<rparr>)"

definition co_MsgNode_Clear :: "'r msg_node_scheme \<Rightarrow> 'r msg_node_scheme res" where
  "co_MsgNode_Clear n = rbind (memzero (ndata n) (total_len n + 1))
     (\<lambda>d. Inr (n\<lparr>cur_len := 0, ndata := d\<rparr>))"

definition co_RecvNode :: "int \<Rightarrow> int \<Rightarrow> typed_node res" where
  "co_RecvNode tlen mid = rbind (co_MsgNode tlen)
     (\<lambda>n. Inr (msg_node.extend n (typed_node.fields mid)))"

definition co_SendNode :: "byte list \<Rightarrow> int \<Rightarrow> int \<Rightarrow> typed_node res" where
  "co_SendNode msg tlen mid =
     rbind (co_MsgNode (to_short (tlen + HEAD_TOTAL_LEN))) (\<lambda>n.
     (let msg_id_net = to_short (swap16 mid) in
     rbind (memcpy (ndata n) 0 (short_bytes mid) 0 HEAD_ID_LEN) (\<lambda>d1.
     (let head_data_len_net = to_short (swap16 tlen) in
     rbind (memcpy d1 HEAD_ID_LEN (short_bytes head_data_len_net) 0 HEAD_DATA_LEN) (\<lambda>d2.
     rbind (memcpy d2 HEAD_TOTAL_LEN msg 0 tlen) (\<lambda>d3.
     Inr (msg_node.extend (n\<lparr>ndata := d3\<rparr>) (typed_node.fields mid))))))))"

text \<open>What \<open>async_write\<close> sends of a node: its first \<open>total_len\<close> bytes.\<close>

definition node_wire :: "'r msg_node_scheme \<Rightarrow> byte list" where
  "node_wire n = take (nat (total_len n)) (ndata n)"

text \<open>The wire format of a message.\<close>

definition encode :: "int \<Rightarrow> byte list \<Rightarrow> byte list" where
  "encode mid body = be16 mid @ be16 (int (length body)) @ body"

lemma length_encode [simp]: "length (encode mid body) = length body + 4"
  by (simp add: encode_def)

section \<open>Constructors\<close>

lemma replicate_update_same [simp]: "(replicate n x)[i := x] = replicate n x"
  by (cases "i < n") (simp_all add: list_eq_iff_nth_eq nth_list_update)

lemma MsgNode_ok:
  "0 \<le> tlen \<Longrightarrow>
   MsgNode tlen = Inr \<lparr>cur_len = 0, total_len = tlen, ndata = replicate (nat (tlen + 1)) 0\<rparr>"
  by (simp add: MsgNode_def store_at_def)

lemma MsgNode_negative: "tlen < 0 \<Longrightarrow> \<exists>e. MsgNode tlen = Inl e"
  by (cases "tlen = - 1") (auto simp: MsgNode_def store_at_def)

lemma RecvNode_ok:
  "0 \<le> tlen \<Longrightarrow> RecvNode tlen mid =
     Inr \<lparr>cur_len = 0, total_len = tlen, ndata = replicate (nat (tlen + 1)) 0, msg_id = mid\<rparr>"
  by (simp add: RecvNode_def MsgNode_ok msg_node.defs typed_node.defs)

lemma RecvNode_fails_iff: "(\<exists>e. RecvNode tlen mid = Inl e) \<longleftrightarrow> tlen < 0"
proof (cases "tlen < 0")
  case True
  then show ?thesis using MsgNode_negative [OF True] by (auto simp: RecvNode_def)
next
  case False
  then show ?thesis by (simp add: RecvNode_ok)
qed

lemma memcpy_front [res_simps]:
  "length src = n \<Longrightarrow> n \<le> length dst \<Longrightarrow> k = int n \<Longrightarrow>
   memcpy dst 0 src 0 k = Inr (src @ drop n dst)"
  by (simp add: memcpy_def)

text \<open>The three copies of a \<open>SendNode\<close> constructor over a zeroed buffer.\<close>

lemma send_copies:
  assumes "length i = 2" "length l = 2" "len \<le> length msg"
  shows "rbind (memcpy (replicate (len + 5) (0 :: byte)) 0 i 0 2) (\<lambda>d1.
         rbind (memcpy d1 2 l 0 2) (\<lambda>d2. memcpy d2 4 msg 0 (int len)))
         = Inr (i @ l @ take len msg @ [0])"
proof -
  obtain a b c d where [simp]: "i = [a, b]" "l = [c, d]"
    using assms by (auto simp: length_Suc_conv numeral_2_eq_2)
  have n: "len + 5 = Suc (Suc (Suc (Suc (Suc len))))"
    by simp
  have "drop len (0 # replicate len (0 :: byte)) = [0]"
    using drop_replicate [of len "Suc len" "0 :: byte"] by simp
  then show ?thesis
    using assms by (simp add: n memcpy_def nat_add_distrib)
      (simp add: numeral_2_eq_2 numeral_eq_Suc)
qed

lemma rbind_assoc: "rbind (rbind m f) g = rbind m (\<lambda>x. rbind (f x) g)"
  by (cases m) simp_all

lemma SendNode_ok:
  assumes "len \<le> 32763" "len \<le> length msg"
  shows "SendNode msg (int len) mid =
    Inr \<lparr>cur_len = 0, total_len = int len + 4,
         ndata = be16 mid @ be16 (int len) @ take len msg @ [0], msg_id = mid\<rparr>"
proof -
  have "to_short (int len + 4) = int len + 4"
    using assms(1) by (intro to_short_id) simp_all
  moreover have "nat (5 + int len) = len + 5" by simp
  ultimately show ?thesis
    using send_copies [of "be16 mid" "be16 (int len)" len msg] assms(2)
    by (simp add: SendNode_def tlv_consts MsgNode_ok short_bytes_to_short short_bytes_swap16
        rbind_Inr_iff msg_node.defs typed_node.defs)
qed

lemma co_SendNode_ok:
  assumes "len \<le> 32763" "len \<le> length msg"
  shows "co_SendNode msg (int len) mid =
    Inr \<lparr>cur_len = 0, total_len = int len + 4,
         ndata = short_bytes mid @ be16 (int len) @ take len msg @ [0], msg_id = mid\<rparr>"
proof -
  have "to_short (int len + 4) = int len + 4"
    using assms(1) by (intro to_short_id) simp_all
  moreover have "nat (5 + int len) = len + 5" by simp
  ultimately show ?thesis
    using send_copies [of "short_bytes mid" "be16 (int len)" len msg] assms(2)
    by (simp add: co_SendNode_def co_MsgNode_def tlv_consts short_bytes_to_short
        short_bytes_swap16 Let_def msg_node.defs typed_node.defs)
      (auto simp: rbind_def split: sum.splits)
qed

text \<open>A size out of range never yields a node.\<close>

lemma SendNode_bad_size:
  assumes "- 32768 \<le> tlen" "tlen < 0 \<or> 32763 < tlen" "tlen \<le> 32767"
  shows "\<exists>e. SendNode msg tlen mid = Inl e"
proof (cases "tlen < 0")
  case False
  then have "to_short (tlen + 4) = tlen + 4 - 65536"
    using assms False minus_mod_self2 [of "tlen + 32772" 65536]
    by (simp add: to_short_def add.commute)
  then have "to_short (tlen + 4) < 0" using assms by simp
  from MsgNode_negative [OF this] show ?thesis
    by (auto simp: SendNode_def tlv_consts)
next
  case True
  show ?thesis
  proof (cases "SendNode msg tlen mid")
    case (Inr n)
    then have "\<exists>d d3. memcpy d 4 msg 0 tlen = Inr d3"
      by (auto simp: SendNode_def rbind_Inr_iff tlv_consts)
    with True show ?thesis by (auto simp: memcpy_def)
  qed simp
qed

section \<open>Properties\<close>

text \<open>The id and the length a receiver reads from the start of a wire.\<close>

definition wire_id :: "byte list \<Rightarrow> int" where
  "wire_id w = to_short (swap16 (load_short w))"

definition wire_len :: "byte list \<Rightarrow> int" where
  "wire_len w = to_short (swap16 (load_short (drop 2 w)))"

lemma wire_encode:
  "wire_id (encode mid body) = to_short mid"
  "wire_len (encode mid body) = to_short (int (length body))"
  by (simp_all add: wire_id_def wire_len_def encode_def load_swap_be16)

text \<open>
  C5. A send node puts the id and the length in network order in front of the body: a receiver
  reads back exactly what was sent. A length that is negative, or leaves no room for the
  header in a short, gives no node at all.
\<close>

theorem send_node_on_wire:
  assumes "- 32768 \<le> mid" "mid \<le> 32767" and "- 32768 \<le> tlen" "tlen \<le> 32767"
    and "tlen \<le> int (length msg)"
  shows "(0 \<le> tlen \<and> tlen \<le> 32763 \<longrightarrow>
      (\<exists>n. SendNode msg tlen mid = Inr n \<and> node_wire n = encode mid (take (nat tlen) msg) \<and>
         wire_id (node_wire n) = mid \<and> wire_len (node_wire n) = tlen)) \<and>
    (tlen < 0 \<or> 32763 < tlen \<longrightarrow> (\<exists>e. SendNode msg tlen mid = Inl e))"
proof (intro conjI impI)
  assume t: "0 \<le> tlen \<and> tlen \<le> 32763"
  then obtain len where len: "tlen = int len" "len \<le> 32763" "len \<le> length msg"
    using assms(5) by (cases tlen) auto
  then show "\<exists>n. SendNode msg tlen mid = Inr n \<and> node_wire n = encode mid (take (nat tlen) msg) \<and>
         wire_id (node_wire n) = mid \<and> wire_len (node_wire n) = tlen"
    using SendNode_ok [of len msg mid] wire_encode [of mid "take len msg"] assms(1,2)
    by (simp add: node_wire_def encode_def nat_add_distrib to_short_id)
next
  assume "tlen < 0 \<or> 32763 < tlen"
  then show "\<exists>e. SendNode msg tlen mid = Inl e"
    using SendNode_bad_size assms(3,4) by blast
qed

theorem send_node_on_wire_witness:
  "(\<exists>n. SendNode [104, 105] 2 1001 = Inr n \<and> node_wire n = encode 1001 [104, 105] \<and>
      wire_id (node_wire n) = 1001 \<and> wire_len (node_wire n) = 2) \<and>
   (\<exists>e. SendNode [104, 105] (- 3) 1001 = Inl e)"
  using send_node_on_wire [of 1001 2 "[104, 105]"] send_node_on_wire [of 1001 "- 3" "[104, 105]"]
  by simp

lemma to_short_eq_iff:
  assumes "0 \<le> u" "u < 65536" "- 32768 \<le> x" "x < 32768"
  shows "to_short u = x \<longleftrightarrow> u = x mod 65536"
proof -
  have "to_short (x mod 65536) = x" using assms by (simp add: to_short_id)
  moreover have "to_short u = to_short (x mod 65536) \<Longrightarrow> u = x mod 65536"
  proof -
    assume "to_short u = to_short (x mod 65536)"
    then have "(u + 32768) mod 65536 = (x mod 65536 + 32768) mod 65536"
      by (simp add: to_short_def)
    then have "(u + 32768 - 32768) mod 65536 = (x mod 65536 + 32768 - 32768) mod 65536"
      by (rule mod_diff_cong) simp
    then show ?thesis using assms by simp
  qed
  ultimately show ?thesis by metis
qed

lemma swap16_same_iff: "swap16 x = x mod 65536 \<longleftrightarrow> x mod 256 = x div 256 mod 256"
proof -
  have b: "0 \<le> x mod 256" "x mod 256 < 256" "0 \<le> x div 256 mod 256" "x div 256 mod 256 < 256"
    by simp_all
  show ?thesis
    using b unfolding swap16_parts mod_65536 by presburger
qed

text \<open>
  C14. The coroutine server's send node stores the id as the host keeps it: a receiver that reads
  the header in network order gets the id with its bytes swapped, which is the id that was sent
  only when both bytes are equal (1001 arrives as -5885). The length and the body are right.
\<close>

theorem coroutine_id_swapped:
  assumes "- 32768 \<le> mid" "mid \<le> 32767" and "length msg \<le> 32763"
  shows "\<exists>n. co_SendNode msg (int (length msg)) mid = Inr n \<and>
    wire_id (node_wire n) = to_short (swap16 mid) \<and>
    (wire_id (node_wire n) = mid \<longleftrightarrow> mid mod 256 = mid div 256 mod 256) \<and>
    wire_len (node_wire n) = int (length msg) \<and> drop 4 (node_wire n) = msg"
proof -
  let ?w = "short_bytes mid @ be16 (int (length msg)) @ msg"
  have "wire_id ?w = to_short (swap16 mid)"
    unfolding wire_id_def load_short_bytes by (simp add: swap16_to_short)
  moreover have "to_short (swap16 mid) = mid \<longleftrightarrow> mid mod 256 = mid div 256 mod 256"
  proof -
    have "0 \<le> swap16 mid" "swap16 mid < 65536"
      using pos_mod_bound [of 256 mid] pos_mod_bound [of 256 "mid div 256"]
      unfolding swap16_parts by (simp_all add: add_nonneg_nonneg)
    then show ?thesis
      using to_short_eq_iff [of "swap16 mid" mid] assms(1,2) swap16_same_iff [of mid] by simp
  qed
  moreover have "wire_len ?w = int (length msg)"
    using load_swap_be16 [of "int (length msg)" msg] assms(3)
    by (simp add: wire_len_def to_short_id)
  ultimately show ?thesis
    using co_SendNode_ok [of "length msg" msg mid] assms(3)
    by (simp add: node_wire_def nat_add_distrib)
qed

theorem coroutine_id_swapped_witness:
  "\<exists>n. co_SendNode [104, 105] 2 1001 = Inr n \<and> wire_id (node_wire n) = - 5885"
  using coroutine_id_swapped [of 1001 "[104, 105]"]
  by (auto simp: to_short_def swap16_def)

end
