(* ===== verification/CSession.thy ===== *)
theory CSession
  imports Tlv
begin

text \<open>
  One connection of the asynchronous servers: \<open>CSession\<close> of
  \<open>src/Network/asyncServer/src/CSession.cpp\<close> and of
  \<open>src/Network/asyncServer_ThreadPool/src/CSession.cpp\<close>, which differ in the executor their
  completion handlers run on and in what \<open>HandleReadMsg\<close> does with a message. The state is the
  session's fields, the receive nodes it has allocated (\<open>shared_ptr<RecvNode>\<close>: the session and
  the logic queue hold the same node, so nodes live in a store and are named by their address)
  and the list of the asynchronous operations and calls it has issued, in order.
\<close>

section \<open>State\<close>

text \<open>Where a completion handler runs: on the session's \<open>io_context\<close>, or on its strand.\<close>

datatype executor = IoContext | Strand

datatype action =
    AsyncReadSome executor             \<comment> \<open>\<open>async_read_some\<close> into \<open>_data\<close>, then \<open>HandleRead\<close>\<close>
  | AsyncReadHead executor             \<comment> \<open>\<open>async_read\<close> of a header, then \<open>HandleReadHead\<close>\<close>
  | AsyncReadMsg executor int          \<comment> \<open>\<open>async_read\<close> of a body of that length, then \<open>HandleReadMsg\<close>\<close>
  | AsyncWrite executor "byte list"    \<comment> \<open>\<open>async_write\<close> of these bytes, then \<open>HandleWrite\<close>\<close>
  | PostMsg nat                        \<comment> \<open>\<open>PostMsgToQue\<close> of the node at that address\<close>
  | ClearSession string                \<comment> \<open>\<open>_server->ClearSession(_uuid)\<close>\<close>
  | SocketClose

record csession =
  s_data :: "byte list"
  s_uuid :: string
  send_que :: "typed_node list"
  recv_msg_node :: "nat option"
  b_head_parse :: bool
  recv_head_node :: msg_node
  b_close :: bool

record conn = csession +
  nodes :: "typed_node list"
  acts :: "action list"

definition act :: "action \<Rightarrow> conn \<Rightarrow> conn" where
  "act a c = c\<lparr>acts := acts c @ [a]\<rparr>"

definition new_CSession :: "string \<Rightarrow> conn res" where
  "new_CSession uuid = rbind (MsgNode HEAD_TOTAL_LEN) (\<lambda>h.
     Inr \<lparr>s_data = replicate (nat MAX_LENGTH) 0, s_uuid = uuid, send_que = [],
          recv_msg_node = None, b_head_parse = False, recv_head_node = h, b_close = False,
          nodes = [], acts = []\<rparr>)"

section \<open>Sending\<close>

definition Send :: "executor \<Rightarrow> byte list \<Rightarrow> int \<Rightarrow> int \<Rightarrow> conn \<Rightarrow> conn res" where
  "Send ex msg len mid c =
     (if length (send_que c) > MAX_SENDQUE then Inr c
      else (let pending = (send_que c \<noteq> []) in
        rbind (SendNode msg (to_short len) mid) (\<lambda>n.
        (let c1 = c\<lparr>send_que := send_que c @ [n]\<rparr> in
         if pending then Inr c1
         else Inr (act (AsyncWrite ex (node_wire (hd (send_que c1)))) c1)))))"

text \<open>The overload for \<open>std::string\<close>; the buffer of a string ends with a zero byte.\<close>

definition Send_string :: "executor \<Rightarrow> byte list \<Rightarrow> int \<Rightarrow> conn \<Rightarrow> conn res" where
  "Send_string ex str mid c = Send ex (str @ [0]) (int (length str)) mid c"

definition Close :: "conn \<Rightarrow> conn" where
  "Close c = (act SocketClose c)\<lparr>b_close := True\<rparr>"

definition HandleWrite :: "executor \<Rightarrow> bool \<Rightarrow> conn \<Rightarrow> conn res" where
  "HandleWrite ex ec c =
     (if \<not> ec then
        (case send_que c of
           [] \<Rightarrow> Inl EmptyContainer
         | _ # q \<Rightarrow>
             (let c1 = c\<lparr>send_que := q\<rparr> in
              case q of [] \<Rightarrow> Inr c1
              | n # _ \<Rightarrow> Inr (act (AsyncWrite ex (node_wire n)) c1)))
      else Inr (act (ClearSession (s_uuid c)) c))"

section \<open>Receiving\<close>

text \<open>\<open>memset(_data, 0, MAX_LENGTH)\<close> and a new \<open>async_read_some\<close>.\<close>

definition rearm :: "executor \<Rightarrow> conn \<Rightarrow> conn res" where
  "rearm ex c = rbind (memzero (s_data c) MAX_LENGTH)
     (\<lambda>d. Inr (act (AsyncReadSome ex) (c\<lparr>s_data := d\<rparr>)))"

definition Start :: "executor \<Rightarrow> conn \<Rightarrow> conn res" where
  "Start ex c = rearm ex c"

text \<open>
  A completed \<open>async_read_some\<close>: the socket has written the received bytes at the start of
  \<open>_data\<close>.
\<close>

definition recv_into :: "byte list \<Rightarrow> conn \<Rightarrow> conn" where
  "recv_into bs c = c\<lparr>s_data := bs @ drop (length bs) (s_data c)\<rparr>"

text \<open>Conversion to \<open>size_t\<close>, and \<open>memcpy\<close> of a \<open>short\<close> out of a buffer in network order.\<close>

definition usize :: "int \<Rightarrow> nat" where
  "usize x = nat (x mod 2 ^ 64)"

definition read_short :: "byte list \<Rightarrow> int \<Rightarrow> int res" where
  "read_short d off = rbind (memcpy (short_bytes 0) 0 d off 2)
     (\<lambda>b. Inr (to_short (swap16 (load_short b))))"

datatype 'a flow = Return conn | Continue 'a

text \<open>
  The loop body of \<open>HandleRead\<close> while the header is incomplete, on the locals \<open>copy_len\<close> and
  \<open>bytes_transferred\<close>.
\<close>

definition head_step :: "executor \<Rightarrow> int \<Rightarrow> nat \<Rightarrow> conn \<Rightarrow> (int \<times> nat \<times> conn) flow res" where
  "head_step ex copy_len n c =
    (let h = recv_head_node c in
     if usize (int n + cur_len h) < nat HEAD_TOTAL_LEN then
       rbind (memcpy (ndata h) (cur_len h) (s_data c) copy_len (int n)) (\<lambda>d.
       rbind (rearm ex (c\<lparr>recv_head_node :=
                h\<lparr>ndata := d, cur_len := to_short (cur_len h + int n)\<rparr>\<rparr>)) (\<lambda>c1.
       Inr (Return c1)))
     else
       (let head_remain = HEAD_TOTAL_LEN - cur_len h in
        rbind (memcpy (ndata h) (cur_len h) (s_data c) copy_len head_remain) (\<lambda>hd.
        (let c1 = c\<lparr>recv_head_node := h\<lparr>ndata := hd\<rparr>\<rparr>;
             copy1 = copy_len + head_remain;
             n1 = usize (int n - head_remain) in
         rbind (read_short hd 0) (\<lambda>mid.
         if mid > MAX_LENGTH then Inr (Return (act (ClearSession (s_uuid c1)) c1))
         else
         rbind (read_short hd HEAD_ID_LEN) (\<lambda>data_len.
         if data_len > MAX_LENGTH then Inr (Return (act (ClearSession (s_uuid c1)) c1))
         else
         rbind (RecvNode data_len mid) (\<lambda>m.
         (let a = length (nodes c1);
              c2 = c1\<lparr>nodes := nodes c1 @ [m], recv_msg_node := Some a\<rparr> in
          if n1 < usize data_len then
            rbind (memcpy (ndata m) (cur_len m) (s_data c2) copy1 (int n1)) (\<lambda>d.
            rbind (rearm ex (c2\<lparr>nodes := (nodes c2)[a :=
                     m\<lparr>ndata := d, cur_len := to_short (cur_len m + int n1)\<rparr>]\<rparr>)) (\<lambda>c3.
            Inr (Return (c3\<lparr>b_head_parse := True\<rparr>))))
          else
            rbind (memcpy (ndata m) (cur_len m) (s_data c2) copy1 data_len) (\<lambda>d.
            rbind (store_at d (total_len m) 0) (\<lambda>d'.
            (let n2 = usize (int n1 - data_len);
                 c3 = act (PostMsg a) (c2\<lparr>nodes := (nodes c2)[a :=
                        m\<lparr>ndata := d', cur_len := to_short (cur_len m + data_len)\<rparr>]\<rparr>) in
             rbind (MsgNode_Clear (recv_head_node c3)) (\<lambda>h'.
             (let c4 = c3\<lparr>b_head_parse := False, recv_head_node := h'\<rparr> in
              if n2 = 0 then rbind (rearm ex c4) (\<lambda>c5. Inr (Return c5))
              else Inr (Continue (copy1 + data_len, n2, c4)))))))))))))))"

text \<open>
  The loop body while a message body is incomplete. The code neither advances \<open>_cur_len\<close> when
  the body stays incomplete nor \<open>copy_len\<close> when it completes, and it clears the receive node
  after posting it.
\<close>

definition body_step :: "executor \<Rightarrow> int \<Rightarrow> nat \<Rightarrow> conn \<Rightarrow> (int \<times> nat \<times> conn) flow res" where
  "body_step ex copy_len n c =
    (case recv_msg_node c of None \<Rightarrow> Inl NullDeref
     | Some a \<Rightarrow>
      (if length (nodes c) \<le> a then Inl UseAfterFree
       else
       (let m = nodes c ! a; remain_msg = to_int (total_len m - cur_len m) in
        if n < usize remain_msg then
          rbind (memcpy (ndata m) (cur_len m) (s_data c) copy_len (int n)) (\<lambda>d.
          rbind (rearm ex (c\<lparr>nodes := (nodes c)[a := m\<lparr>ndata := d\<rparr>]\<rparr>)) (\<lambda>c1.
          Inr (Return c1)))
        else
          rbind (memcpy (ndata m) (cur_len m) (s_data c) copy_len remain_msg) (\<lambda>d.
          rbind (store_at d (total_len m) 0) (\<lambda>d'.
          (let n1 = usize (int n - remain_msg);
               m1 = m\<lparr>ndata := d', cur_len := to_short (cur_len m + remain_msg)\<rparr>;
               c1 = act (PostMsg a) (c\<lparr>nodes := (nodes c)[a := m1]\<rparr>) in
           rbind (MsgNode_Clear (recv_head_node c1)) (\<lambda>h'.
           rbind (MsgNode_Clear m1) (\<lambda>m2.
           (let c2 = c1\<lparr>b_head_parse := False, recv_head_node := h',
                       nodes := (nodes c1)[a := m2]\<rparr> in
            if n1 = 0 then rbind (rearm ex c2) (\<lambda>c3. Inr (Return c3))
            else Inr (Continue (copy_len, n1, c2)))))))))))"

definition read_step :: "executor \<Rightarrow> int \<Rightarrow> nat \<Rightarrow> conn \<Rightarrow> (int \<times> nat \<times> conn) flow res" where
  "read_step ex copy_len n c =
     (if \<not> b_head_parse c then head_step ex copy_len n c else body_step ex copy_len n c)"

text \<open>Each turn of the loop consumes bytes or leaves a fresh header behind.\<close>

lemma usize_diff_le: "0 \<le> k \<Longrightarrow> k \<le> int n \<Longrightarrow> usize (int n - k) \<le> n - nat k"
  unfolding usize_def using zmod_le_nonneg_dividend [of "int n - k" "2 ^ 64"]
  by (simp add: nat_le_iff)

lemma usize_le: "0 \<le> x \<Longrightarrow> usize x \<le> nat x"
  unfolding usize_def using zmod_le_nonneg_dividend [of x "2 ^ 64"] by simp

lemma memcpy_args: "memcpy dst i src j k = Inr d \<Longrightarrow> 0 \<le> i \<and> 0 \<le> j \<and> 0 \<le> k"
  by (auto simp: memcpy_def split: if_splits)

lemma Clear_cur_len: "MsgNode_Clear h = Inr h' \<Longrightarrow> cur_len h' = 0"
  by (auto simp: MsgNode_Clear_def rbind_Inr_iff)

lemma usize_small: "0 \<le> x \<Longrightarrow> x < 2 ^ 64 \<Longrightarrow> usize x = nat x"
  by (simp add: usize_def)

lemma act_fields [simp]:
  "s_data (act a c) = s_data c" "s_uuid (act a c) = s_uuid c" "send_que (act a c) = send_que c"
  "recv_msg_node (act a c) = recv_msg_node c" "b_head_parse (act a c) = b_head_parse c"
  "recv_head_node (act a c) = recv_head_node c" "b_close (act a c) = b_close c"
  "nodes (act a c) = nodes c" "acts (act a c) = acts c @ [a]"
  by (simp_all add: act_def)

lemma head_arith:
  assumes "memcpy dst cur src cl (4 - cur) = Inr x" "memcpy dst' i src cl' dl = Inr y"
    "\<not> usize (int n + cur) < 4" "\<not> 2048 < dl" "\<not> usize (int n - (4 - cur)) < usize dl"
  shows "usize (int (usize (int n - (4 - cur))) - dl) + nat (4 - cur) \<le> n"
proof -
  have pos: "0 \<le> cur" "0 \<le> 4 - cur" "0 \<le> dl"
    using memcpy_args [OF assms(1)] memcpy_args [OF assms(2)] by simp_all
  have le: "4 - cur \<le> int n"
    using assms(3) usize_le [of "int n + cur"] pos by linarith
  have n1: "usize (int n - (4 - cur)) \<le> n - nat (4 - cur)"
    using usize_diff_le [OF pos(2) le] .
  have "usize dl = nat dl"
    using assms(4) pos by (intro usize_small) simp_all
  then have "usize (int (usize (int n - (4 - cur))) - dl) \<le> usize (int n - (4 - cur))"
    using usize_diff_le [OF pos(3), of "usize (int n - (4 - cur))"] assms(5) by linarith
  with n1 le show ?thesis by linarith
qed

lemma head_step_Continue:
  assumes "head_step ex cl n c = Inr (Continue (cl', n', c'))"
  shows "\<not> b_head_parse c' \<and> cur_len (recv_head_node c') = 0 \<and>
    n' + nat (4 - cur_len (recv_head_node c)) \<le> n"
  using assms
  by (auto simp: head_step_def Let_def rbind_Inr_iff tlv_consts
      intro: head_arith dest: Clear_cur_len split: if_splits)

lemma body_arith:
  assumes "\<not> n < usize (to_int r)" "0 \<le> to_int r"
  shows "usize (int n - to_int r) \<le> n"
proof -
  have "usize (to_int r) = nat (to_int r)"
    using assms(2) to_int_range [of r] by (intro usize_small) simp_all
  then show ?thesis
    using assms usize_diff_le [OF assms(2), of n] by linarith
qed

lemma body_step_Continue:
  assumes "body_step ex cl n c = Inr (Continue (cl', n', c'))"
  shows "\<not> b_head_parse c' \<and> cur_len (recv_head_node c') = 0 \<and> n' \<le> n"
  using assms
  by (auto simp: body_step_def Let_def rbind_Inr_iff tlv_consts
      dest: Clear_cur_len memcpy_args body_arith split: if_splits option.splits)

text \<open>\<open>while (bytes_transferred)\<close>.\<close>

function read_loop :: "executor \<Rightarrow> int \<Rightarrow> nat \<Rightarrow> conn \<Rightarrow> conn res" where
  "read_loop ex copy_len n c =
     (if n = 0 then Inr c
      else case read_step ex copy_len n c of
        Inl e \<Rightarrow> Inl e
      | Inr (Return c1) \<Rightarrow> Inr c1
      | Inr (Continue (copy1, n1, c1)) \<Rightarrow> read_loop ex copy1 n1 c1)"
  by pat_completeness auto
termination
proof (relation "measure (\<lambda>(ex, cl, n, c).
    2 * n + (if b_head_parse c \<or> cur_len (recv_head_node c) \<noteq> 0 then 1 else 0))")
  fix ex copy_len n c fl x y copy1 n1 c1
  assume "n \<noteq> 0" "read_step ex copy_len n c = Inr fl" "fl = Continue x"
    "(copy1, y) = x" "(n1, c1) = y"
  then have "read_step ex copy_len n c = Inr (Continue (copy1, n1, c1))" by simp
  then show "((ex, copy1, n1, c1), (ex, copy_len, n, c)) \<in> measure (\<lambda>(ex, cl, n, c).
    2 * n + (if b_head_parse c \<or> cur_len (recv_head_node c) \<noteq> 0 then 1 else 0))"
    using head_step_Continue [of ex copy_len n c copy1 n1 c1]
      body_step_Continue [of ex copy_len n c copy1 n1 c1]
    by (auto simp: read_step_def split: if_splits)
qed simp

declare read_loop.simps [simp del]

definition HandleRead :: "executor \<Rightarrow> bool \<Rightarrow> nat \<Rightarrow> conn \<Rightarrow> conn res" where
  "HandleRead ex ec bytes_transferred c =
     (if \<not> ec then read_loop ex 0 bytes_transferred c
      else Inr (act (ClearSession (s_uuid c)) c))"

section \<open>Receiving with exact reads\<close>

text \<open>
  The other receive path: \<open>async_read\<close> fills the header buffer, then the body buffer, before
  its handler runs.
\<close>

definition head_into :: "byte list \<Rightarrow> conn \<Rightarrow> conn" where
  "head_into bs c = c\<lparr>recv_head_node := (recv_head_node c)
     \<lparr>ndata := bs @ drop (length bs) (ndata (recv_head_node c))\<rparr>\<rparr>"

definition body_into :: "byte list \<Rightarrow> conn \<Rightarrow> conn" where
  "body_into bs c = (case recv_msg_node c of None \<Rightarrow> c
     | Some a \<Rightarrow> c\<lparr>nodes := (nodes c)[a := (nodes c ! a)
         \<lparr>ndata := bs @ drop (length bs) (ndata (nodes c ! a))\<rparr>]\<rparr>)"

definition HandleReadHead :: "executor \<Rightarrow> bool \<Rightarrow> nat \<Rightarrow> conn \<Rightarrow> conn res" where
  "HandleReadHead ex ec n c =
    (if \<not> ec then
       (if n < nat HEAD_TOTAL_LEN then Inr (act (ClearSession (s_uuid c)) (Close c))
        else
          rbind (read_short (ndata (recv_head_node c)) 0) (\<lambda>mid.
          rbind (read_short (ndata (recv_head_node c)) HEAD_ID_LEN) (\<lambda>data_len.
          if data_len > MAX_LENGTH then Inr (act (ClearSession (s_uuid c)) c)
          else rbind (RecvNode data_len mid) (\<lambda>m.
            Inr (act (AsyncReadMsg ex data_len)
              (c\<lparr>nodes := nodes c @ [m], recv_msg_node := Some (length (nodes c))\<rparr>))))))
     else Inr (act (ClearSession (s_uuid c)) (Close c)))"

text \<open>The thread-pool server (strand) also posts the message to the logic queue.\<close>

definition HandleReadMsg :: "executor \<Rightarrow> bool \<Rightarrow> nat \<Rightarrow> conn \<Rightarrow> conn res" where
  "HandleReadMsg ex ec n c =
    (if \<not> ec then
       (case recv_msg_node c of None \<Rightarrow> Inl NullDeref
        | Some a \<Rightarrow>
          if length (nodes c) \<le> a then Inl UseAfterFree
          else
            rbind (store_at (ndata (nodes c ! a)) (total_len (nodes c ! a)) 0) (\<lambda>d.
            (let m = (nodes c ! a)\<lparr>ndata := d\<rparr> in
             rbind (Send ex (ndata m) (total_len m) (msg_id m) (c\<lparr>nodes := (nodes c)[a := m]\<rparr>)) (\<lambda>c1.
             (let c2 = (if ex = Strand then act (PostMsg a) c1 else c1) in
              rbind (MsgNode_Clear (recv_head_node c2)) (\<lambda>h.
              Inr (act (AsyncReadHead ex) (c2\<lparr>recv_head_node := h\<rparr>))))))))
     else Inr (act (ClearSession (s_uuid c)) (Close c)))"

end
