(* ===== verification/Framing.thy ===== *)
theory Framing
  imports CSession
begin

text \<open>
  Message framing by \<open>HandleRead\<close>: the stream is cut into messages correctly whenever the reads
  end at message boundaries or inside headers, and what goes wrong when a body is cut.
\<close>

section \<open>Between messages\<close>

text \<open>\<open>pend h c\<close>: the session waits for a header of which it has the bytes \<open>h\<close>.\<close>

definition pend :: "byte list \<Rightarrow> conn \<Rightarrow> bool" where
  "pend h c \<longleftrightarrow> \<not> b_head_parse c \<and> length h < 4 \<and> cur_len (recv_head_node c) = int (length h) \<and>
     total_len (recv_head_node c) = 4 \<and> length (ndata (recv_head_node c)) = 5 \<and>
     take (length h) (ndata (recv_head_node c)) = h \<and> length (s_data c) = 2048"

definition good_msg :: "int \<times> byte list \<Rightarrow> bool" where
  "good_msg m \<longleftrightarrow> - 32768 \<le> fst m \<and> fst m \<le> 2048 \<and> length (snd m) \<le> 2048"

definition enc :: "int \<times> byte list \<Rightarrow> byte list" where
  "enc m = encode (fst m) (snd m)"

definition full_node :: "int \<times> byte list \<Rightarrow> typed_node" where
  "full_node m = \<lparr>cur_len = int (length (snd m)), total_len = int (length (snd m)),
     ndata = snd m @ [0], msg_id = fst m\<rparr>"

definition head_cleared :: "msg_node \<Rightarrow> msg_node" where
  "head_cleared h = h\<lparr>ndata := replicate 4 0 @ drop 4 (ndata h), cur_len := 0\<rparr>"

definition posted :: "conn \<Rightarrow> int \<times> byte list \<Rightarrow> conn" where
  "posted c m = (act (PostMsg (length (nodes c)))
     (c\<lparr>recv_msg_node := Some (length (nodes c)), nodes := nodes c @ [full_node m]\<rparr>))
     \<lparr>b_head_parse := False, recv_head_node := head_cleared (recv_head_node c)\<rparr>"

definition rearmed :: "executor \<Rightarrow> conn \<Rightarrow> conn" where
  "rearmed ex c = act (AsyncReadSome ex) (c\<lparr>s_data := replicate 2048 0\<rparr>)"

lemma enc_Pair: "enc (mid, body) = be16 mid @ be16 (int (length body)) @ body"
  by (simp add: enc_def encode_def)

lemma new_CSession_pend: "new_CSession uuid = Inr c \<Longrightarrow> pend [] c \<and> nodes c = [] \<and> acts c = []"
  by (auto simp: new_CSession_def rbind_Inr_iff MsgNode_ok tlv_consts pend_def)

lemma rearm_ok: "length (s_data c) = 2048 \<Longrightarrow> rearm ex c = Inr (rearmed ex c)"
  by (simp add: rearm_def memzero_def tlv_consts rearmed_def)

lemma usize_nat [simp]: "n < 2 ^ 64 \<Longrightarrow> usize (int n) = n"
  by (simp add: usize_def)

lemma read_short_id: "read_short (be16 x @ r) 0 = Inr (to_short x)"
proof -
  have "memcpy (short_bytes 0) 0 (be16 x @ r) 0 2 = Inr (be16 x)"
    by (simp add: memcpy_def)
  then show ?thesis
    using load_swap_be16 [of x "[]"] by (simp add: read_short_def)
qed

lemma read_short_len: "read_short (be16 x @ be16 y @ r) 2 = Inr (to_short y)"
proof -
  have "memcpy (short_bytes 0) 0 (be16 x @ be16 y @ r) 2 2 = Inr (be16 y)"
    by (simp add: memcpy_def)
  then show ?thesis
    using load_swap_be16 [of y "[]"] by (simp add: read_short_def)
qed

text \<open>Copying a piece of the receive buffer behind what a node already holds.\<close>

lemma memcpy_piece:
  assumes "src = pre @ t @ post" "i = length a" "take i dst = a" "i + length t \<le> length dst"
    "j = length pre"
  shows "memcpy dst (int i) src (int j) (int (length t)) = Inr (a @ t @ drop (i + length t) dst)"
  using assms by (simp add: memcpy_Inr)

section \<open>One turn of the loop\<close>

lemma head_partial:
  assumes p: "pend h c" and d: "s_data c = pre @ t @ post" and t: "length h + length t < 4"
  shows "\<exists>c'. head_step ex (int (length pre)) (length t) c = Inr (Return (rearmed ex c')) \<and>
    pend (h @ t) c' \<and> nodes c' = nodes c \<and> acts c' = acts c \<and> send_que c' = send_que c"
proof -
  let ?h = "recv_head_node c"
  let ?c = "c\<lparr>recv_head_node := ?h\<lparr>ndata := h @ t @ drop (length h + length t) (ndata ?h),
              cur_len := int (length h + length t)\<rparr>\<rparr>"
  have cpy: "memcpy (ndata ?h) (int (length h)) (s_data c) (int (length pre)) (int (length t)) =
      Inr (h @ t @ drop (length h + length t) (ndata ?h))"
    using p t by (intro memcpy_piece [OF d]) (auto simp: pend_def)
  have "usize (int (length t) + int (length h)) = length t + length h"
    using t unfolding of_nat_add [symmetric] by (subst usize_nat) simp_all
  moreover have "to_short (int (length h) + int (length t)) = int (length h + length t)"
    using t by (subst to_short_id) simp_all
  ultimately have "head_step ex (int (length pre)) (length t) c = Inr (Return (rearmed ex ?c))"
    using p t cpy by (simp add: head_step_def Let_def tlv_consts pend_def rearm_ok)
  moreover have "pend (h @ t) ?c"
    using p t by (auto simp: pend_def)
  ultimately show ?thesis by (intro exI [of _ ?c]) simp
qed

lemma body_copy:
  assumes "src = pre @ body @ post"
  shows "memcpy (replicate (Suc (length body)) 0) 0 src (int (length pre)) (int (length body)) =
    Inr (body @ [0])"
  using memcpy_piece [of src pre body post 0 "[]" "replicate (Suc (length body)) 0"] assms
    drop_replicate [of "length body" "Suc (length body)" "0 :: 'a"] replicate_0 [of "0 :: 'a"]
  by (simp del: replicate_Suc) (simp add: replicate_Suc)

lemma store_last: "length xs = n \<Longrightarrow> store_at (xs @ [b]) (int n) b' = Inr (xs @ [b'])"
  by (auto simp: store_at_def list_update_append)

lemma Clear_head:
  "length (ndata h) = 5 \<Longrightarrow> total_len h = 4 \<Longrightarrow>
   MsgNode_Clear h = Inr (h\<lparr>ndata := replicate 4 0 @ drop 4 (ndata h), cur_len := 0\<rparr>)"
  by (simp add: MsgNode_Clear_def memzero_def)

lemma head_complete:
  assumes p: "pend h c" and d: "s_data c = pre @ t @ body @ rest @ post"
    and ht: "h @ t = be16 mid @ be16 (int (length body))" and g: "good_msg (mid, body)"
  shows "head_step ex (int (length pre)) (length t + length body + length rest) c =
    (if rest = [] then Inr (Return (rearmed ex (posted c (mid, body))))
     else Inr (Continue (int (length pre + length t + length body), length rest, posted c (mid, body))))"
proof -
  let ?h = "recv_head_node c" and ?len = "length body"
  have l4: "length h + length t = 4"
    using arg_cong [OF ht, of length] by simp
  have small: "length t + length body + length rest \<le> 2048"
    using p d by (auto simp: pend_def)
  define e where "e = drop 4 (ndata ?h)"
  have cpy: "memcpy (ndata ?h) (int (length h)) (s_data c) (int (length pre)) (int (length t)) =
      Inr (be16 mid @ be16 (int ?len) @ e)"
    using memcpy_piece [of "s_data c" pre t "body @ rest @ post" "length h" h "ndata ?h"] p d l4 ht
    by (simp add: pend_def e_def flip: append_assoc)
  have rem: "4 - int (length h) = int (length t)"
    using l4 by simp
  have u0: "usize (int (length t + length body + length rest) + int (length h)) =
      length t + length body + length rest + length h"
    using small l4 unfolding of_nat_add [symmetric] by (subst usize_nat) simp_all
  have u1: "usize (int (length t + length body + length rest) - int (length t)) =
      length body + length rest"
    using small by (simp add: usize_def)
  have u2: "usize (int (length body + length rest) - int ?len) = length rest"
    using small by (simp add: usize_def)
  have ids: "read_short (be16 mid @ be16 (int ?len) @ e) 0 = Inr mid"
    "read_short (be16 mid @ be16 (int ?len) @ e) 2 = Inr (int ?len)"
    using g by (simp_all add: read_short_id read_short_len good_msg_def to_short_id)
  have rn: "RecvNode (int ?len) mid = Inr \<lparr>cur_len = 0, total_len = int ?len,
      ndata = replicate (Suc ?len) 0, msg_id = mid\<rparr>"
    by (simp add: RecvNode_ok nat_add_distrib)
  have cb: "memcpy (replicate (Suc ?len) 0) 0 (s_data c) (int (length pre) + int (length t)) (int ?len)
      = Inr (body @ [0])"
    using body_copy [of "s_data c" "pre @ t" body "rest @ post"] d by (simp del: replicate_Suc)
  have st: "store_at (body @ [0]) (int ?len) 0 = Inr (body @ [0])"
    by (simp add: store_last)
  have cl: "MsgNode_Clear (?h\<lparr>ndata := be16 mid @ be16 (int ?len) @ e\<rparr>) = Inr (head_cleared ?h)"
    using p by (subst Clear_head) (auto simp: pend_def e_def head_cleared_def)
  have ul: "usize (int ?len) = ?len"
    using small by (subst usize_nat) simp_all
  have sh: "to_short (int ?len) = int ?len"
    using g by (intro to_short_id) (simp_all add: good_msg_def)
  have good: "mid \<le> 2048" "?len \<le> 2048" "length (s_data c) = 2048" "\<not> b_head_parse c"
    using g p by (simp_all add: good_msg_def pend_def)
  have cur: "cur_len ?h = int (length h)" using p by (simp add: pend_def)
  show ?thesis
    unfolding head_step_def Let_def tlv_consts cur rem u0 u1
    using l4 good
    by (simp add: cpy ids rn cb st ul u2 sh cl rearm_ok posted_def full_node_def act_def
        del: replicate_Suc of_nat_add)
qed

section \<open>The loop\<close>

lemma pend_posted: "pend h c \<Longrightarrow> pend [] (posted c m)"
  by (simp add: pend_def posted_def head_cleared_def)

lemma s_data_posted [simp]: "s_data (posted c m) = s_data c"
  by (simp add: posted_def)

lemma pend_rearmed: "pend h c \<Longrightarrow> pend h (rearmed ex c)"
  by (simp add: pend_def rearmed_def)

text \<open>The bytes \<open>data\<close> that remain of a read, after \<open>pre\<close>; together with the pending header
  bytes they are whole messages and a header prefix.\<close>

lemma read_loop_messages:
  assumes "pend h c" "s_data c = pre @ data @ post" "data \<noteq> []"
    "h @ data = concat (map enc ms) @ h'" "length h' < 4" "list_all good_msg ms"
  shows "\<exists>c'. read_loop ex (int (length pre)) (length data) c = Inr (rearmed ex c') \<and> pend h' c' \<and>
    nodes c' = nodes c @ map full_node ms \<and>
    acts c' = acts c @ map PostMsg [length (nodes c) ..< length (nodes c) + length ms] \<and>
    send_que c' = send_que c"
  using assms
proof (induction ms arbitrary: h c pre data)
  case Nil
  have l: "length h + length data < 4" and hd: "h @ data = h'"
    using Nil.prems(4,5) by (auto dest: arg_cong [of _ _ length])
  from head_partial [OF Nil.prems(1,2) l, of ex] hd obtain c' where
    "head_step ex (int (length pre)) (length data) c = Inr (Return (rearmed ex c'))"
    "pend h' c'" "nodes c' = nodes c" "acts c' = acts c" "send_que c' = send_que c"
    by blast
  then show ?case
    using Nil.prems(1,3) by (subst read_loop.simps) (auto simp: read_step_def pend_def)
next
  case (Cons m ms)
  obtain mid body where m: "m = (mid, body)" by fastforce
  have lh: "length h < 4" using Cons.prems(1) by (simp add: pend_def)
  define t where "t = take (4 - length h) data"
  define rest where "rest = concat (map enc ms) @ h'"
  have eq: "h @ data = (be16 mid @ be16 (int (length body))) @ body @ rest"
    using Cons.prems(4) by (simp add: m enc_Pair rest_def)
  have ht: "h @ t = be16 mid @ be16 (int (length body))"
    using arg_cong [OF eq, of "take 4"] lh by (simp add: t_def)
  have dt: "data = t @ body @ rest"
    using eq unfolding ht [symmetric] by simp
  have g: "good_msg (mid, body)" and gs: "list_all good_msg ms"
    using Cons.prems(6) by (simp_all add: m)
  have d: "s_data c = pre @ t @ body @ rest @ post"
    using Cons.prems(2) by (simp add: dt)
  note step = head_complete [OF Cons.prems(1) d ht g, of ex]
  let ?c = "posted c (mid, body)"
  show ?case
  proof (cases "rest = []")
    case True
    then have "ms = [] \<and> h' = []"
      by (cases ms) (auto simp: rest_def enc_def encode_def be16_def)
    with step True Cons.prems(1,3) show ?thesis
      by (subst read_loop.simps)
        (auto simp: read_step_def pend_def dt m posted_def head_cleared_def)
  next
    case False
    have "read_loop ex (int (length pre)) (length data) c =
        read_loop ex (int (length (pre @ t @ body))) (length rest) ?c"
      using step False Cons.prems(1,3)
      by (subst read_loop.simps) (simp add: read_step_def pend_def dt add.assoc)
    moreover have "\<exists>c'. read_loop ex (int (length (pre @ t @ body))) (length rest) ?c =
        Inr (rearmed ex c') \<and> pend h' c' \<and> nodes c' = nodes ?c @ map full_node ms \<and>
        acts c' = acts ?c @ map PostMsg [length (nodes ?c) ..< length (nodes ?c) + length ms] \<and>
        send_que c' = send_que ?c"
      using False Cons.prems(5) gs d
      by (intro Cons.IH [of "[]"] pend_posted [OF Cons.prems(1)]) (simp_all add: rest_def)
    ultimately show ?thesis
      by (auto simp: posted_def m upt_conv_Cons simp del: upt_Suc)
  qed
qed

section \<open>A sequence of reads\<close>

text \<open>The reads of a connection: each completes with the bytes \<open>bs\<close>.\<close>

fun recv_chunks :: "executor \<Rightarrow> byte list list \<Rightarrow> conn \<Rightarrow> conn res" where
  "recv_chunks ex [] c = Inr c"
| "recv_chunks ex (bs # r) c =
     rbind (HandleRead ex False (length bs) (recv_into bs c)) (recv_chunks ex r)"

text \<open>
  A plan pairs each read with the messages that end in it; \<open>header_cuts h plan\<close> says that,
  after the pending header bytes \<open>h\<close>, the reads are the encoded messages and each read ends at
  the end of a message or inside a header.
\<close>

fun header_cuts :: "byte list \<Rightarrow> (byte list \<times> (int \<times> byte list) list) list \<Rightarrow> bool" where
  "header_cuts h [] = (h = [])"
| "header_cuts h ((bs, ms) # plan) =
     (bs \<noteq> [] \<and> length bs \<le> 2048 \<and> list_all good_msg ms \<and>
      (let w = concat (map enc ms); h' = drop (length w) (h @ bs)
       in h @ bs = w @ h' \<and> length h' < 4 \<and> header_cuts h' plan))"

fun post_addrs :: "action list \<Rightarrow> nat list" where
  "post_addrs [] = []"
| "post_addrs (PostMsg a # as) = a # post_addrs as"
| "post_addrs (_ # as) = post_addrs as"

lemma post_addrs_append [simp]: "post_addrs (as @ bs) = post_addrs as @ post_addrs bs"
  by (induction as rule: post_addrs.induct) simp_all

lemma post_addrs_map [simp]: "post_addrs (map PostMsg xs) = xs"
  by (induction xs) simp_all

lemma pend_recv: "pend h c \<Longrightarrow> length bs \<le> 2048 \<Longrightarrow> pend h (recv_into bs c)"
  by (simp add: pend_def recv_into_def)

lemma recv_into_fields [simp]:
  "nodes (recv_into bs c) = nodes c" "acts (recv_into bs c) = acts c"
  "send_que (recv_into bs c) = send_que c" "s_uuid (recv_into bs c) = s_uuid c"
  "recv_head_node (recv_into bs c) = recv_head_node c"
  "b_head_parse (recv_into bs c) = b_head_parse c"
  "recv_msg_node (recv_into bs c) = recv_msg_node c"
  "s_data (recv_into bs c) = bs @ drop (length bs) (s_data c)"
  by (simp_all add: recv_into_def)

lemma rearmed_fields [simp]:
  "nodes (rearmed ex c) = nodes c" "acts (rearmed ex c) = acts c @ [AsyncReadSome ex]"
  "send_que (rearmed ex c) = send_que c" "s_uuid (rearmed ex c) = s_uuid c"
  "recv_head_node (rearmed ex c) = recv_head_node c"
  "b_head_parse (rearmed ex c) = b_head_parse c"
  "recv_msg_node (rearmed ex c) = recv_msg_node c"
  "s_data (rearmed ex c) = replicate 2048 0"
  by (simp_all add: rearmed_def)

lemma HandleRead_messages:
  assumes "pend h c" "bs \<noteq> []" "length bs \<le> 2048"
    "h @ bs = concat (map enc ms) @ h'" "length h' < 4" "list_all good_msg ms"
  shows "\<exists>c'. HandleRead ex False (length bs) (recv_into bs c) = Inr c' \<and> pend h' c' \<and>
    nodes c' = nodes c @ map full_node ms \<and>
    acts c' = acts c @ map PostMsg [length (nodes c) ..< length (nodes c) + length ms] @
      [AsyncReadSome ex]"
proof -
  obtain c1 where "read_loop ex 0 (length bs) (recv_into bs c) = Inr (rearmed ex c1)"
    "pend h' c1" "nodes c1 = nodes c @ map full_node ms"
    "acts c1 = acts c @ map PostMsg [length (nodes c) ..< length (nodes c) + length ms]"
    using read_loop_messages [of h "recv_into bs c" "[]" bs "drop (length bs) (s_data c)" ms h' ex]
      assms by (auto simp: pend_recv)
  then show ?thesis
    by (intro exI [of _ "rearmed ex c1"]) (simp add: HandleRead_def pend_rearmed)
qed

lemma recv_chunks_messages:
  "pend h c \<Longrightarrow> header_cuts h plan \<Longrightarrow>
   \<exists>c'. recv_chunks ex (map fst plan) c = Inr c' \<and> pend [] c' \<and>
     nodes c' = nodes c @ map full_node (concat (map snd plan)) \<and>
     post_addrs (acts c') = post_addrs (acts c) @
       [length (nodes c) ..< length (nodes c) + length (concat (map snd plan))]"
proof (induction plan arbitrary: h c)
  case Nil
  then show ?case by simp
next
  case (Cons a plan)
  obtain bs ms where a: "a = (bs, ms)" by fastforce
  define h' where "h' = drop (length (concat (map enc ms))) (h @ bs)"
  have cuts: "bs \<noteq> []" "length bs \<le> 2048" "list_all good_msg ms"
    "h @ bs = concat (map enc ms) @ h'" "length h' < 4" "header_cuts h' plan"
    using Cons.prems(2) by (simp_all add: a Let_def h'_def)
  obtain c1 where c1: "HandleRead ex False (length bs) (recv_into bs c) = Inr c1" "pend h' c1"
    "nodes c1 = nodes c @ map full_node ms"
    "acts c1 = acts c @ map PostMsg [length (nodes c) ..< length (nodes c) + length ms] @
      [AsyncReadSome ex]"
    using HandleRead_messages [OF Cons.prems(1) cuts(1,2,4,5,3)] by blast
  obtain c2 where c2: "recv_chunks ex (map fst plan) c1 = Inr c2" "pend [] c2"
    "nodes c2 = nodes c1 @ map full_node (concat (map snd plan))"
    "post_addrs (acts c2) = post_addrs (acts c1) @
       [length (nodes c1) ..< length (nodes c1) + length (concat (map snd plan))]"
    using Cons.IH [OF c1(2) cuts(6)] by blast
  show ?case
    using c1 c2 upt_add_eq_append [of "length (nodes c)" "length (nodes c) + length ms"]
    by (intro exI [of _ c2]) (simp add: a add.assoc)
qed

section \<open>Cut bodies\<close>

text \<open>\<open>in_body m c\<close>: the session waits for the rest of the body of the node \<open>m\<close>.\<close>

definition in_body :: "typed_node \<Rightarrow> conn \<Rightarrow> bool" where
  "in_body m c \<longleftrightarrow> b_head_parse c \<and> length (s_data c) = 2048 \<and>
     total_len (recv_head_node c) = 4 \<and> length (ndata (recv_head_node c)) = 5 \<and>
     (\<exists>a. recv_msg_node c = Some a \<and> a < length (nodes c) \<and> nodes c ! a = m)"

text \<open>The node of a body of length \<open>len\<close> of which the first bytes \<open>b1\<close> have come with the
  header, and the bytes \<open>b2\<close> behind them in the buffer.\<close>

definition part_node :: "int \<Rightarrow> nat \<Rightarrow> byte list \<Rightarrow> byte list \<Rightarrow> typed_node" where
  "part_node mid len b1 b2 = \<lparr>cur_len = int (length b1), total_len = int len,
     ndata = b1 @ b2 @ replicate (Suc len - length b1 - length b2) 0, msg_id = mid\<rparr>"

lemma head_body_partial:
  assumes p: "pend h c" and d: "s_data c = pre @ t @ b1 @ post"
    and ht: "h @ t = be16 mid @ be16 (int len)"
    and g: "- 32768 \<le> mid" "mid \<le> 2048" "len \<le> 2048" "length b1 < len"
  shows "\<exists>c'. head_step ex (int (length pre)) (length t + length b1) c = Inr (Return c') \<and>
    in_body (part_node mid len b1 []) c' \<and> recv_msg_node c' = Some (length (nodes c)) \<and>
    nodes c' = nodes c @ [part_node mid len b1 []] \<and> acts c' = acts c @ [AsyncReadSome ex]"
proof -
  let ?h = "recv_head_node c"
  have l4: "length h + length t = 4"
    using arg_cong [OF ht, of length] by simp
  have small: "length t + length b1 \<le> 2048"
    using p d by (auto simp: pend_def)
  define e where "e = drop 4 (ndata ?h)"
  have cpy: "memcpy (ndata ?h) (int (length h)) (s_data c) (int (length pre)) (int (length t)) =
      Inr (be16 mid @ be16 (int len) @ e)"
    using memcpy_piece [of "s_data c" pre t "b1 @ post" "length h" h "ndata ?h"] p d l4 ht
    by (simp add: pend_def e_def flip: append_assoc)
  have rem: "4 - int (length h) = int (length t)"
    using l4 by simp
  have u0: "usize (int (length t + length b1) + int (length h)) = length t + length b1 + length h"
    using small l4 unfolding of_nat_add [symmetric] by (subst usize_nat) simp_all
  have u1: "usize (int (length t + length b1) - int (length t)) = length b1"
    using small by (simp add: usize_def)
  have ids: "read_short (be16 mid @ be16 (int len) @ e) 0 = Inr mid"
    "read_short (be16 mid @ be16 (int len) @ e) 2 = Inr (int len)"
    using g by (simp_all add: read_short_id read_short_len to_short_id)
  have rn: "RecvNode (int len) mid = Inr \<lparr>cur_len = 0, total_len = int len,
      ndata = replicate (Suc len) 0, msg_id = mid\<rparr>"
    by (simp add: RecvNode_ok nat_add_distrib)
  have cb: "memcpy (replicate (Suc len) 0) 0 (s_data c) (int (length pre) + int (length t))
      (int (length b1)) = Inr (b1 @ replicate (Suc len - length b1) 0)"
    using memcpy_piece [of "s_data c" "pre @ t" b1 post 0 "[]" "replicate (Suc len) 0"] d g
    by (simp add: drop_replicate del: replicate_Suc)
  have ul: "usize (int len) = len"
    using g by (subst usize_nat) simp_all
  have sh: "to_short (int (length b1)) = int (length b1)"
    using g by (intro to_short_id) simp_all
  have good: "length (s_data c) = 2048" "\<not> b_head_parse c" "cur_len ?h = int (length h)"
    "total_len ?h = 4" "length e = 1"
    using p by (simp_all add: pend_def e_def)
  show ?thesis
    unfolding head_step_def Let_def tlv_consts good(3) rem u0 u1
    using l4 good g
    by (simp add: cpy ids rn cb ul sh rearm_ok part_node_def in_body_def
        del: replicate_Suc of_nat_add)
qed

lemma body_partial:
  assumes c: "in_body (part_node mid len b1 b) c" and d: "s_data c = b2 @ post"
    and l: "length b1 + length b2 < len" "length b \<le> length b2" "len \<le> 2048"
  shows "\<exists>c'. body_step ex 0 (length b2) c = Inr (Return c') \<and>
    in_body (part_node mid len b1 b2) c' \<and> recv_msg_node c' = recv_msg_node c \<and>
    acts c' = acts c @ [AsyncReadSome ex]"
proof -
  obtain a where a: "recv_msg_node c = Some a" "a < length (nodes c)"
    "nodes c ! a = part_node mid len b1 b" and s: "length (s_data c) = 2048"
    using c by (auto simp: in_body_def)
  have cpy: "memcpy (ndata (part_node mid len b1 b)) (int (length b1)) (s_data c) 0 (int (length b2))
    = Inr (ndata (part_node mid len b1 b2))"
    using memcpy_piece [of "s_data c" "[]" b2 post "length b1" b1 "ndata (part_node mid len b1 b)"]
      d l by (simp add: part_node_def drop_replicate)
  have r: "to_int (int len - int (length b1)) = int (len - length b1)"
    using l by (subst to_int_id) (simp_all add: of_nat_diff)
  have "usize (int (len - length b1)) = len - length b1"
    using l by (subst usize_nat) simp_all
  moreover have "length b2 < len - length b1" using l by linarith
  ultimately show ?thesis
    using a s c l cpy r
    by (simp add: body_step_def part_node_def rearm_ok in_body_def Let_def)
qed

lemma body_complete:
  assumes c: "in_body (part_node mid len b1 b) c" and d: "s_data c = b2 @ rest @ post"
    and l: "length b \<le> length b2" "length b1 + length b2 = len" "len \<le> 2048"
    and a: "recv_msg_node c = Some a" and n: "length b2 + length rest \<le> 2048"
  defines "c1 \<equiv> (act (PostMsg a) c)\<lparr>b_head_parse := False,
      recv_head_node := head_cleared (recv_head_node c),
      nodes := (nodes c)[a := \<lparr>cur_len = 0, total_len = int len,
                              ndata = replicate (Suc len) 0, msg_id = mid\<rparr>]\<rparr>"
  shows "body_step ex 0 (length b2 + length rest) c =
    (if rest = [] then Inr (Return (rearmed ex c1)) else Inr (Continue (0, length rest, c1)))"
proof -
  have s: "length (s_data c) = 2048" and an: "a < length (nodes c)"
    "nodes c ! a = part_node mid len b1 b"
    and h: "total_len (recv_head_node c) = 4" "length (ndata (recv_head_node c)) = 5"
    using c a by (auto simp: in_body_def)
  have cpy: "memcpy (ndata (part_node mid len b1 b)) (int (length b1)) (s_data c) 0 (int (length b2))
    = Inr (b1 @ b2 @ [0])"
    using memcpy_piece [of "s_data c" "[]" b2 "rest @ post" "length b1" b1
        "ndata (part_node mid len b1 b)"] d l
    by (simp add: part_node_def drop_replicate Suc_diff_le)
  have r: "to_int (int len - int (length b1)) = int (length b2)"
    using l by (subst to_int_id) auto
  have u: "usize (int (length b2)) = length b2"
    using n by (subst usize_nat) simp_all
  have u2: "usize (int (length b2 + length rest) - int (length b2)) = length rest"
    using n by (simp add: usize_def)
  have st: "store_at (b1 @ b2 @ [0]) (int len) 0 = Inr (b1 @ b2 @ [0])"
    using store_last [of "b1 @ b2" len 0 0] l by simp
  have sh: "to_short (int (length b1) + int (length b2)) = int len"
    using l by (subst to_short_id) auto
  have mz: "memzero (b1 @ b2 @ [0]) (int len) = Inr (replicate (Suc len) 0)"
    using l by (simp add: memzero_def replicate_append_same)
  show ?thesis
    using an a s cpy r u u2 st sh mz Clear_head [OF h(2,1)] l
    by (simp add: body_step_def part_node_def rearm_ok MsgNode_Clear_def c1_def head_cleared_def
        act_def Let_def
        del: replicate_Suc of_nat_add)
qed

text \<open>The whole handler on the first part of a cut body, and on its last part.\<close>

definition first_part :: "int \<Rightarrow> nat \<Rightarrow> byte list \<Rightarrow> byte list" where
  "first_part mid len b1 = be16 mid @ be16 (int len) @ b1"

definition wiped_node :: "int \<Rightarrow> nat \<Rightarrow> typed_node" where
  "wiped_node mid len = \<lparr>cur_len = 0, total_len = int len, ndata = replicate (Suc len) 0, msg_id = mid\<rparr>"

lemma length_first_part [simp]: "length (first_part mid len b1) = 4 + length b1"
  by (simp add: first_part_def)

lemma HandleRead_first_part:
  assumes "pend [] c" "- 32768 \<le> mid" "mid \<le> 2048" "len \<le> 2048" "length b1 < len"
    "length b1 \<le> 2044"
  shows "\<exists>c1. HandleRead ex False (4 + length b1) (recv_into (first_part mid len b1) c) = Inr c1 \<and>
    in_body (part_node mid len b1 []) c1 \<and> recv_msg_node c1 = Some (length (nodes c)) \<and>
    nodes c1 = nodes c @ [part_node mid len b1 []] \<and> acts c1 = acts c @ [AsyncReadSome ex]"
proof -
  let ?r = "recv_into (first_part mid len b1) c"
  have p: "pend [] ?r" using assms(1,6) by (intro pend_recv) simp_all
  have "\<exists>c1. head_step ex 0 (4 + length b1) ?r = Inr (Return c1) \<and>
    in_body (part_node mid len b1 []) c1 \<and> recv_msg_node c1 = Some (length (nodes c)) \<and>
    nodes c1 = nodes c @ [part_node mid len b1 []] \<and> acts c1 = acts c @ [AsyncReadSome ex]"
    using head_body_partial [OF p, of "[]" "be16 mid @ be16 (int len)" b1 _ mid len ex] assms
    by (simp add: first_part_def)
  then show ?thesis
    using p by (auto simp: HandleRead_def read_loop.simps read_step_def pend_def)
qed

lemma in_body_recv: "in_body m c \<Longrightarrow> length bs \<le> 2048 \<Longrightarrow> in_body m (recv_into bs c)"
  by (auto simp: in_body_def)

lemma HandleRead_body:
  assumes "in_body m c" "bs \<noteq> []"
  shows "HandleRead ex False (length bs) (recv_into bs c) =
    (case body_step ex 0 (length bs) (recv_into bs c) of
        Inl e \<Rightarrow> Inl e | Inr (Return c1) \<Rightarrow> Inr c1
      | Inr (Continue (copy1, n1, c1)) \<Rightarrow> read_loop ex copy1 n1 c1)"
  using assms by (simp add: HandleRead_def read_loop.simps [of ex 0 "length bs"] read_step_def
      in_body_def)

lemma HandleRead_middle_part:
  assumes "in_body (part_node mid len b1 b) c" "b2 \<noteq> []" "length b1 + length b2 < len"
    "length b \<le> length b2" "len \<le> 2048"
  shows "\<exists>c1. HandleRead ex False (length b2) (recv_into b2 c) = Inr c1 \<and>
    in_body (part_node mid len b1 b2) c1 \<and> recv_msg_node c1 = recv_msg_node c \<and>
    acts c1 = acts c @ [AsyncReadSome ex]"
proof -
  have "in_body (part_node mid len b1 b) (recv_into b2 c)"
    using assms by (intro in_body_recv) simp_all
  from body_partial [OF this, of b2 "drop (length b2) (s_data c)" ex] assms
  show ?thesis by (auto simp: HandleRead_body [OF assms(1,2)])
qed

lemma HandleRead_last_part:
  assumes "in_body (part_node mid len b1 b) c" "b2 \<noteq> []" "length b1 + length b2 = len"
    "length b \<le> length b2" "len \<le> 2048" "recv_msg_node c = Some a"
  shows "\<exists>c1. HandleRead ex False (length b2) (recv_into b2 c) = Inr c1 \<and>
    acts c1 = acts c @ [PostMsg a, AsyncReadSome ex] \<and>
    nodes c1 = (nodes c)[a := wiped_node mid len]"
proof -
  have "in_body (part_node mid len b1 b) (recv_into b2 c)"
    using assms by (intro in_body_recv) simp_all
  from body_complete [OF this, of b2 "[]" "drop (length b2) (s_data c)" a ex] assms
  show ?thesis by (simp add: HandleRead_body [OF assms(1,2)] wiped_node_def)
qed

section \<open>Properties\<close>

text \<open>
  C1. Framing: when every read ends at the end of a message or inside a header, the reads of a
  connection post exactly the encoded messages, in order, each with its id, its length and its
  body, and leave the session waiting for a fresh header.
\<close>

theorem framing_reassembles:
  assumes "pend [] c" and "header_cuts [] plan"
  shows "\<exists>c'. recv_chunks ex (map fst plan) c = Inr c' \<and> pend [] c' \<and>
    nodes c' = nodes c @ map full_node (concat (map snd plan)) \<and>
    post_addrs (acts c') = post_addrs (acts c) @
      [length (nodes c) ..< length (nodes c) + length (concat (map snd plan))]"
  using assms by (rule recv_chunks_messages)

text \<open>Two messages in three reads, the first and the second cut inside a header.\<close>

definition demo_conn :: conn where
  "demo_conn = \<lparr>s_data = replicate 2048 0, s_uuid = ''u'', send_que = [], recv_msg_node = None,
     b_head_parse = False,
     recv_head_node = \<lparr>cur_len = 0, total_len = 4, ndata = [0, 0, 0, 0, 0]\<rparr>,
     b_close = False, nodes = [], acts = []\<rparr>"

lemma demo_pend: "pend [] demo_conn"
  by (simp add: pend_def demo_conn_def)

theorem framing_reassembles_witness:
  "\<exists>c'. recv_chunks Strand [[3], [233, 0, 2, 104, 105, 3], [233, 0, 1, 33]] demo_conn = Inr c' \<and>
    pend [] c' \<and> nodes c' = nodes demo_conn @ map full_node [(1001, [104, 105]), (1001, [33])] \<and>
    post_addrs (acts c') = post_addrs (acts demo_conn) @
      [length (nodes demo_conn) ..< length (nodes demo_conn) + 2]"
proof -
  have "header_cuts [] [([3], []), ([233, 0, 2, 104, 105, 3], [(1001, [104, 105])]),
      ([233, 0, 1, 33], [(1001, [33])])]"
    by (simp add: enc_Pair be16_def good_msg_def)
  from framing_reassembles [OF demo_pend this, of Strand] show ?thesis by simp
qed

text \<open>
  C6. A body that does not arrive with its header is lost: when it is completed by the next
  read, the receive node is posted and then cleared, so the logic queue holds a node with no
  data (\<open>_cur_len = 0\<close>, zeroed bytes) in place of the message.
\<close>

theorem split_body_is_wiped:
  assumes "pend [] c" and "good_msg (mid, b1 @ b2)" and "b2 \<noteq> []" and "length b1 \<le> 2044"
  shows "\<exists>c'. recv_chunks ex [first_part mid (length (b1 @ b2)) b1, b2] c = Inr c' \<and>
    acts c' = acts c @ [AsyncReadSome ex, PostMsg (length (nodes c)), AsyncReadSome ex] \<and>
    nodes c' = nodes c @ [wiped_node mid (length (b1 @ b2))]"
proof -
  let ?len = "length (b1 @ b2)"
  have g: "- 32768 \<le> mid" "mid \<le> 2048" "?len \<le> 2048" "length b1 < ?len"
    using assms(2,3) by (auto simp: good_msg_def)
  obtain c1 where r1: "HandleRead ex False (4 + length b1) (recv_into (first_part mid ?len b1) c) = Inr c1"
    "in_body (part_node mid ?len b1 []) c1" "recv_msg_node c1 = Some (length (nodes c))"
    "nodes c1 = nodes c @ [part_node mid ?len b1 []]" "acts c1 = acts c @ [AsyncReadSome ex]"
    using HandleRead_first_part [OF assms(1) g assms(4)] by blast
  obtain c2 where r2: "HandleRead ex False (length b2) (recv_into b2 c1) = Inr c2"
    "acts c2 = acts c1 @ [PostMsg (length (nodes c)), AsyncReadSome ex]"
    "nodes c2 = (nodes c1)[length (nodes c) := wiped_node mid ?len]"
    using HandleRead_last_part [OF r1(2) assms(3) _ _ g(3) r1(3), of ex] by auto
  show ?thesis using r1 r2 by (simp del: length_append)
qed

theorem split_body_is_wiped_witness:
  "\<exists>c'. recv_chunks IoContext [first_part 1001 2 [], [104, 105]] demo_conn = Inr c' \<and>
    acts c' = acts demo_conn @ [AsyncReadSome IoContext, PostMsg 0, AsyncReadSome IoContext] \<and>
    nodes c' = nodes demo_conn @ [wiped_node 1001 2]"
  using split_body_is_wiped [OF demo_pend, of 1001 "[]" "[104, 105]" IoContext]
  by (simp add: good_msg_def demo_conn_def numeral_2_eq_2)

text \<open>
  C7. A body cut into three reads is never completed: the second read is not counted, so after
  the third one, when every byte of the message has come, nothing has been posted and the
  session still waits for as many body bytes as before the second read.
\<close>

theorem body_in_three_reads_not_posted:
  assumes "pend [] c" and "good_msg (mid, b1 @ b2 @ b3)" and "b2 \<noteq> []" and "b3 \<noteq> []"
    and "length b2 \<le> length b3" and "length b1 \<le> 2044"
  shows "\<exists>c'. recv_chunks ex [first_part mid (length (b1 @ b2 @ b3)) b1, b2, b3] c = Inr c' \<and>
    post_addrs (acts c') = post_addrs (acts c) \<and>
    in_body (part_node mid (length (b1 @ b2 @ b3)) b1 b3) c'"
proof -
  let ?len = "length (b1 @ b2 @ b3)"
  have g: "- 32768 \<le> mid" "mid \<le> 2048" "?len \<le> 2048" "length b1 < ?len"
    using assms(2,3) by (auto simp: good_msg_def)
  have l: "length b1 + length b2 < ?len" "length b1 + length b3 < ?len"
    using assms(3,4) by simp_all
  obtain c1 where r1: "HandleRead ex False (4 + length b1) (recv_into (first_part mid ?len b1) c) = Inr c1"
    "in_body (part_node mid ?len b1 []) c1" "acts c1 = acts c @ [AsyncReadSome ex]"
    using HandleRead_first_part [OF assms(1) g assms(6)] by blast
  obtain c2 where r2: "HandleRead ex False (length b2) (recv_into b2 c1) = Inr c2"
    "in_body (part_node mid ?len b1 b2) c2" "acts c2 = acts c1 @ [AsyncReadSome ex]"
    using HandleRead_middle_part [OF r1(2) assms(3) l(1) _ g(3)] by auto
  obtain c3 where r3: "HandleRead ex False (length b3) (recv_into b3 c2) = Inr c3"
    "in_body (part_node mid ?len b1 b3) c3" "acts c3 = acts c2 @ [AsyncReadSome ex]"
    using HandleRead_middle_part [OF r2(2) assms(4) l(2) assms(5) g(3)] by auto
  show ?thesis using r1 r2 r3 by (simp del: length_append)
qed

theorem body_in_three_reads_not_posted_witness:
  "\<exists>c'. recv_chunks IoContext [first_part 1001 3 [1], [2], [3]] demo_conn = Inr c' \<and>
    post_addrs (acts c') = post_addrs (acts demo_conn) \<and> in_body (part_node 1001 3 [1] [3]) c'"
  using body_in_three_reads_not_posted [OF demo_pend, of 1001 "[1]" "[2]" "[3]" IoContext]
  by (simp add: good_msg_def numeral_3_eq_3)

end
