(* ===== verification/SendQueue.thy ===== *)
theory SendQueue
  imports CSession "HOL-Library.Sublist"
begin

text \<open>
  The outgoing side of a session as a machine: calls of \<open>Send\<close> from any thread, under the send
  lock, interleaved with the completions of the asynchronous writes
  (\<open>CSession::Send\<close> and \<open>CSession::HandleWrite\<close>). The ghost fields count the writes in flight and
  record the messages \<open>Send\<close> took into the queue.
\<close>

section \<open>The machine\<close>

record sender =
  sconn :: conn
  in_flight :: nat
  taken :: "byte list list"
  lost :: bool

datatype send_event =
    SendMsg "byte list" int
  | WriteDone bool          \<comment> \<open>completion of the write in flight; true when it failed\<close>

definition writes :: "action list \<Rightarrow> byte list list" where
  "writes as = concat (map (\<lambda>a. case a of AsyncWrite _ bs \<Rightarrow> [bs] | _ \<Rightarrow> []) as)"

definition new_sender :: "conn \<Rightarrow> sender" where
  "new_sender c = \<lparr>sconn = c, in_flight = 0, taken = [], lost = False\<rparr>"

text \<open>
  A \<open>Send\<close> whose node cannot be allocated throws to its caller and leaves the session as it
  was. A handler can only run when a write is in flight.
\<close>

fun send_exec :: "executor \<Rightarrow> send_event \<Rightarrow> sender \<Rightarrow> sender option" where
  "send_exec ex (SendMsg body mid) s =
     (case Send_string ex body mid (sconn s) of
        Inl BadArrayNewLength \<Rightarrow> Some s
      | Inl e \<Rightarrow> None
      | Inr c \<Rightarrow> Some (s\<lparr>sconn := c,
          in_flight := in_flight s + (length (writes (acts c)) - length (writes (acts (sconn s)))),
          taken := taken s @ (if length (send_que c) > length (send_que (sconn s))
                              then [node_wire (last (send_que c))] else [])\<rparr>))"
| "send_exec ex (WriteDone ec) s =
     (if in_flight s = 0 then None
      else case HandleWrite ex ec (sconn s) of
        Inl e \<Rightarrow> None
      | Inr c \<Rightarrow> Some (s\<lparr>sconn := c, lost := (lost s \<or> ec),
          in_flight := in_flight s - 1 + (length (writes (acts c)) - length (writes (acts (sconn s))))\<rparr>))"

text \<open>
  At most one write is in flight; until a write fails, one is in flight exactly when the queue
  is not empty, and what was written is what was taken, less the waiting tail of the queue.
\<close>

definition send_inv :: "sender \<Rightarrow> bool" where
  "send_inv s \<longleftrightarrow>
     in_flight s = (if lost s \<or> send_que (sconn s) = [] then 0 else 1) \<and>
     (lost s \<longrightarrow> send_que (sconn s) \<noteq> []) \<and>
     length (send_que (sconn s)) \<le> 1001 \<and>
     writes (acts (sconn s)) @ map node_wire (tl (send_que (sconn s))) = taken s"

lemma writes_simps [simp]:
  "writes [] = []"
  "writes (as @ [AsyncWrite ex bs]) = writes as @ [bs]"
  "writes (as @ [ClearSession u]) = writes as"
  by (simp_all add: writes_def)

lemma Send_cases:
  assumes "Send ex msg len mid c = Inr c'"
  obtains (full) "length (send_que c) > 1000" "c' = c"
  | (queued) n where "send_que c \<noteq> []" "length (send_que c) \<le> 1000"
      "SendNode msg (to_short len) mid = Inr n" "c' = c\<lparr>send_que := send_que c @ [n]\<rparr>"
  | (written) n where "send_que c = []" "SendNode msg (to_short len) mid = Inr n"
      "c' = act (AsyncWrite ex (node_wire n)) (c\<lparr>send_que := [n]\<rparr>)"
proof (cases "length (send_que c) > 1000")
  case True
  show ?thesis
    by (rule full) (use assms True in \<open>simp_all add: Send_def tlv_consts\<close>)
next
  case False
  then obtain n where n: "SendNode msg (to_short len) mid = Inr n"
    using assms by (cases "SendNode msg (to_short len) mid") (simp_all add: Send_def tlv_consts)
  show ?thesis
  proof (cases "send_que c = []")
    case True
    show ?thesis
      by (rule written) (use assms False True n in \<open>auto simp: Send_def tlv_consts Let_def\<close>)
  next
    case ne: False
    show ?thesis
      by (rule queued) (use assms False ne n in \<open>auto simp: Send_def tlv_consts Let_def\<close>)
  qed
qed

lemma send_inv_step:
  assumes "send_inv s" and "send_exec ex e s = Some t"
  shows "send_inv t"
proof (cases e)
  case (SendMsg body mid)
  show ?thesis
  proof (cases "Send_string ex body mid (sconn s)")
    case (Inl err)
    with SendMsg assms show ?thesis by (cases err) simp_all
  next
    case (Inr c')
    then have "Send ex (body @ [0]) (int (length body)) mid (sconn s) = Inr c'"
      by (simp add: Send_string_def)
    then show ?thesis
    proof (cases rule: Send_cases)
      case full
      with SendMsg assms Inr show ?thesis by (auto simp: send_inv_def)
    next
      case (queued n)
      with SendMsg assms Inr show ?thesis
        by (auto simp: send_inv_def act_def)
    next
      case (written n)
      with SendMsg assms Inr show ?thesis
        by (auto simp: send_inv_def)
    qed
  qed
next
  case (WriteDone ec)
  with assms show ?thesis
    by (auto simp: send_inv_def HandleWrite_def Let_def neq_Nil_conv
        split: if_splits list.splits)
qed

interpretation sendq: inv_machine "send_exec ex" send_inv for ex
  by unfold_locales (rule send_inv_step)

lemma new_sender_inv: "acts c = [] \<Longrightarrow> send_que c = [] \<Longrightarrow> send_inv (new_sender c)"
  by (simp add: new_sender_def send_inv_def)

section \<open>What is sent\<close>

text \<open>The wire form of the messages of a schedule that fit a node.\<close>

fun offered :: "send_event list \<Rightarrow> byte list list" where
  "offered [] = []"
| "offered (SendMsg body mid # es) =
     (if length body \<le> 32763 then encode mid body # offered es else offered es)"
| "offered (WriteDone ec # es) = offered es"

fun short_body :: "send_event \<Rightarrow> bool" where
  "short_body (SendMsg body mid) = (length body \<le> 32767)"
| "short_body (WriteDone ec) = True"

lemma node_wire_SendNode:
  "length body \<le> 32763 \<Longrightarrow> SendNode (body @ [0]) (int (length body)) mid = Inr n \<Longrightarrow>
   node_wire n = encode mid body"
  by (auto simp: SendNode_ok node_wire_def encode_def nat_add_distrib)

lemma taken_step:
  assumes "send_exec ex e s = Some t" and "short_body e"
  shows "taken t = taken s \<or> (\<exists>x. offered [e] = [x] \<and> taken t = taken s @ [x])"
proof (cases e)
  case (SendMsg body mid)
  show ?thesis
  proof (cases "Send_string ex body mid (sconn s)")
    case (Inl err)
    with SendMsg assms show ?thesis by (cases err) simp_all
  next
    case (Inr c')
    have len: "to_short (int (length body)) = int (length body)"
      using assms(2) SendMsg by (intro to_short_id) simp_all
    have fits: "length body \<le> 32763" if "SendNode (body @ [0]) (int (length body)) mid = Inr n" for n
      using that assms(2) SendMsg SendNode_bad_size [of "int (length body)" "body @ [0]" mid]
      by (cases "length body \<le> 32763") auto
    from Inr have "Send ex (body @ [0]) (int (length body)) mid (sconn s) = Inr c'"
      by (simp add: Send_string_def)
    then show ?thesis
    proof (cases rule: Send_cases)
      case full
      with SendMsg assms Inr show ?thesis by auto
    next
      case (queued n)
      with SendMsg assms Inr len fits [of n] node_wire_SendNode [of body mid n]
      show ?thesis by auto
    next
      case (written n)
      with SendMsg assms Inr len fits [of n] node_wire_SendNode [of body mid n]
      show ?thesis by auto
    qed
  qed
next
  case (WriteDone ec)
  with assms show ?thesis by (auto split: if_splits sum.splits)
qed

lemma taken_subseq:
  "run (send_exec ex) es s = Some t \<Longrightarrow> list_all short_body es \<Longrightarrow>
   \<exists>zs. taken t = taken s @ zs \<and> subseq zs (offered es)"
proof (induction es arbitrary: s)
  case Nil
  then show ?case by simp
next
  case (Cons e es)
  then obtain u where u: "send_exec ex e s = Some u" "run (send_exec ex) es u = Some t"
    by (auto split: option.splits)
  obtain zs where z: "taken t = taken u @ zs" "subseq zs (offered es)"
    using Cons u by auto
  have off: "offered (e # es) = offered [e] @ offered es"
    by (cases e) simp_all
  have "taken u = taken s \<or> (\<exists>x. offered [e] = [x] \<and> taken u = taken s @ [x])"
    using taken_step [OF u(1)] Cons.prems(2) by simp
  then show ?case
  proof
    assume "taken u = taken s"
    then show ?thesis
      using z off by (auto intro: list_emb_append2)
  next
    assume "\<exists>x. offered [e] = [x] \<and> taken u = taken s @ [x]"
    then show ?thesis
      using z off by auto
  qed
qed

text \<open>Completions drain the queue.\<close>

lemma drain_writes:
  "send_inv s \<Longrightarrow> \<not> lost s \<Longrightarrow>
   \<exists>t. run (send_exec ex) (replicate (length (send_que (sconn s))) (WriteDone False)) s = Some t \<and>
     send_que (sconn t) = [] \<and> taken t = taken s \<and> in_flight t = 0 \<and> \<not> lost t"
proof (induction "length (send_que (sconn s))" arbitrary: s)
  case 0
  then show ?case by (simp add: send_inv_def)
next
  case (Suc k)
  then obtain n q where q: "send_que (sconn s) = n # q" "length q = k"
    by (cases "send_que (sconn s)") simp_all
  have f: "in_flight s = 1" using Suc.prems q by (simp add: send_inv_def)
  obtain u where u: "send_exec ex (WriteDone False) s = Some u" "send_que (sconn u) = q"
    "taken u = taken s" "lost u = lost s"
    using q f by (cases q) (simp_all add: HandleWrite_def Let_def)
  obtain t where t: "run (send_exec ex) (replicate k (WriteDone False)) u = Some t"
    "send_que (sconn t) = []" "taken t = taken u" "in_flight t = 0" "\<not> lost t"
    using Suc.hyps(1) [of u] u q(2) send_inv_step [OF Suc.prems(1) u(1)] Suc.prems(2) by auto
  show ?case
    using t u q by (auto simp del: send_exec.simps)
qed

section \<open>Properties\<close>

text \<open>
  C2. Sending: in every interleaving of sends and write completions, at most one write is in
  flight, the queue never exceeds its bound, what has been written so far is a prefix of the
  messages taken, in the order they were sent and each whole and encoded, and while no write
  has failed the completions of the writes drain the queue.
\<close>

theorem sends_in_order:
  assumes "acts c = []" and "send_que c = []" and "list_all short_body es"
    and "run (send_exec ex) es (new_sender c) = Some s"
  shows "in_flight s \<le> 1 \<and> length (send_que (sconn s)) \<le> 1001 \<and>
    prefix (writes (acts (sconn s))) (taken s) \<and> subseq (taken s) (offered es) \<and>
    (\<not> lost s \<longrightarrow> (\<exists>k t. run (send_exec ex) (replicate k (WriteDone False)) s = Some t \<and>
       writes (acts (sconn t)) = taken s \<and> send_que (sconn t) = []))"
proof -
  have i: "send_inv s"
    using sendq.run_inv [OF new_sender_inv [OF assms(1,2)] assms(4)] .
  obtain zs where z: "taken s = taken (new_sender c) @ zs" "subseq zs (offered es)"
    using taken_subseq [OF assms(4,3)] by blast
  have d: "\<exists>k t. run (send_exec ex) (replicate k (WriteDone False)) s = Some t \<and>
       writes (acts (sconn t)) = taken s \<and> send_que (sconn t) = []" if nl: "\<not> lost s"
  proof -
    obtain k t where t: "run (send_exec ex) (replicate k (WriteDone False)) s = Some t"
      "send_que (sconn t) = []" "taken t = taken s"
      using drain_writes [OF i nl, of ex] by blast
    then show ?thesis
      using sendq.run_inv [OF i t(1)] by (auto simp: send_inv_def)
  qed
  have "prefix (writes (acts (sconn s))) (taken s)" "length (send_que (sconn s)) \<le> 1001"
    "in_flight s \<le> 1"
    using i prefixI [of "taken s" "writes (acts (sconn s))" "map node_wire (tl (send_que (sconn s)))"]
    by (simp_all add: send_inv_def)
  with z d show ?thesis by (simp add: new_sender_def)
qed

definition idle_conn :: conn where
  "idle_conn = \<lparr>s_data = replicate 2048 0, s_uuid = ''u'', send_que = [], recv_msg_node = None,
     b_head_parse = False,
     recv_head_node = \<lparr>cur_len = 0, total_len = 4, ndata = [0, 0, 0, 0, 0]\<rparr>,
     b_close = False, nodes = [], acts = []\<rparr>"

theorem sends_in_order_witness:
  "\<exists>s. run (send_exec IoContext) [SendMsg [1] 7, SendMsg [2, 3] 8, WriteDone False]
      (new_sender idle_conn) = Some s \<and> \<not> lost s \<and>
    in_flight s \<le> 1 \<and> prefix (writes (acts (sconn s))) (taken s) \<and>
    subseq (taken s) [encode 7 [1], encode 8 [2, 3]] \<and> taken s \<noteq> []"
proof -
  let ?es = "[SendMsg [1] 7, SendMsg [2, 3] 8, WriteDone False]"
  have c: "acts idle_conn = []" "send_que idle_conn = []" "list_all short_body ?es"
    by (simp_all add: idle_conn_def)
  have "\<exists>s. run (send_exec IoContext) ?es (new_sender idle_conn) = Some s \<and> \<not> lost s \<and> taken s \<noteq> []"
    using SendNode_ok [of 1 "[1, 0]" 7] SendNode_ok [of 2 "[2, 3, 0]" 8]
    by (simp add: new_sender_def Send_string_def Send_def HandleWrite_def c tlv_consts to_short_id writes_def)
  then show ?thesis
    using sends_in_order [OF c, of IoContext] by fastforce
qed

text \<open>
  C7. \<open>Send\<close> narrows the length of the message to a short: on an idle session, of a string of
  \<open>65536 + k\<close> bytes only the first \<open>k\<close> are sent, as a complete message.
\<close>

theorem long_message_truncated:
  assumes "send_que c = []" and "length str = 65536 + k" and "k \<le> 32763"
  shows "\<exists>c'. Send_string ex str mid c = Inr c' \<and>
    writes (acts c') = writes (acts c) @ [encode mid (take k str)]"
proof -
  have "to_short (65536 + int k) = int k"
    using assms(3) minus_mod_self2 [of "65536 + int k + 32768" 65536]
    by (simp add: to_short_def)
  then show ?thesis
    using assms SendNode_ok [of k "str @ [0]" mid]
    by (simp add: Send_string_def Send_def tlv_consts Let_def node_wire_def encode_def nat_add_distrib)
qed

theorem long_message_truncated_witness:
  "\<exists>c'. Send_string IoContext (replicate 65538 7) 1001 idle_conn = Inr c' \<and>
    writes (acts c') = [encode 1001 (take 2 (replicate 65538 7))]"
  using long_message_truncated [of idle_conn "replicate 65538 7" 2 IoContext 1001]
  by (simp add: idle_conn_def)

end
