(* ===== verification/ReadPaths.thy ===== *)
theory ReadPaths
  imports Framing SendQueue
begin

text \<open>
  More on the receive handlers of \<open>CSession\<close>: each completed read continues the session exactly
  once; what malformed headers do; the bytes behind a completed cut body; and the receive path
  of exact reads (\<open>HandleReadHead\<close>, \<open>HandleReadMsg\<close>).
\<close>

section \<open>One continuation\<close>

text \<open>What a read handler may add to the actions: posts, then a new read or the end.\<close>

definition ends_turn :: "executor \<Rightarrow> string \<Rightarrow> action list \<Rightarrow> action list \<Rightarrow> bool" where
  "ends_turn ex u as as' \<longleftrightarrow>
     (\<exists>ps a. as' = as @ map PostMsg ps @ [a] \<and> (a = AsyncReadSome ex \<or> a = ClearSession u))"

definition continued :: "executor \<Rightarrow> conn \<Rightarrow> conn \<Rightarrow> bool" where
  "continued ex c c' \<longleftrightarrow> ends_turn ex (s_uuid c) (acts c) (acts c') \<and> s_uuid c' = s_uuid c"

lemma ends_turn_simps [simp]:
  "ends_turn ex u as (as @ [AsyncReadSome ex])"
  "ends_turn ex u as (as @ [ClearSession u])"
  "ends_turn ex u as (as @ [PostMsg a, AsyncReadSome ex])"
  unfolding ends_turn_def
  by (metis append_Nil list.map(1), metis append_Nil list.map(1),
      metis append_Cons append_Nil list.map(1,2))

lemma ends_turn_post:
  "ends_turn ex u (as @ [PostMsg a]) bs \<Longrightarrow> ends_turn ex u as bs"
  unfolding ends_turn_def by (metis append.assoc append_Cons append_Nil list.map(2))

lemma rearm_acts:
  "rearm ex c = Inr c' \<Longrightarrow> acts c' = acts c @ [AsyncReadSome ex] \<and> s_uuid c' = s_uuid c"
  by (auto simp: rearm_def rbind_Inr_iff)

definition step_result :: "executor \<Rightarrow> conn \<Rightarrow> (int \<times> nat \<times> conn) flow \<Rightarrow> bool" where
  "step_result ex c fl = (case fl of Return c' \<Rightarrow> continued ex c c'
     | Continue (p, n, c') \<Rightarrow>
         n \<noteq> 0 \<and> (\<exists>a. acts c' = acts c @ [PostMsg a]) \<and> s_uuid c' = s_uuid c)"

lemma head_step_result:
  assumes "head_step ex p n c = Inr fl"
  shows "step_result ex c fl"
  using assms
  by (auto simp: head_step_def Let_def rbind_Inr_iff step_result_def continued_def
      dest!: rearm_acts split: if_splits)

lemma body_step_result:
  assumes "body_step ex p n c = Inr fl"
  shows "step_result ex c fl"
  using assms
  by (auto simp: body_step_def Let_def rbind_Inr_iff step_result_def continued_def
      dest!: rearm_acts split: if_splits option.splits)

lemma read_loop_continued:
  "n \<noteq> 0 \<Longrightarrow> read_loop ex p n c = Inr c' \<Longrightarrow> continued ex c c'"
proof (induction ex p n c rule: read_loop.induct)
  case (1 ex p n c)
  obtain fl where fl: "read_step ex p n c = Inr fl"
    using "1.prems" by (cases "read_step ex p n c") (simp_all add: read_loop.simps [of ex p n c])
  have r: "step_result ex c fl"
    using fl head_step_result body_step_result by (auto simp: read_step_def split: if_splits)
  show ?case
  proof (cases fl)
    case (Return d)
    with r fl "1.prems" show ?thesis
      by (simp add: step_result_def read_loop.simps [of ex p n c])
  next
    case (Continue x)
    obtain p1 n1 c1 where x: "x = (p1, n1, c1)" by (cases x)
    have "continued ex c1 c'"
      using "1.IH" [OF "1.prems"(1) fl Continue x [symmetric] refl] "1.prems" fl Continue x r
      by (simp add: step_result_def read_loop.simps [of ex p n c])
    moreover obtain a0 where "acts c1 = acts c @ [PostMsg a0]" "s_uuid c1 = s_uuid c"
      using r Continue x by (auto simp: step_result_def)
    ultimately show ?thesis
      by (auto simp: continued_def intro: ends_turn_post)
  qed
qed

section \<open>Malformed headers\<close>

text \<open>A read that starts with a whole header, at the start of the buffer.\<close>

lemma head_step_bad:
  assumes "memcpy (ndata (recv_head_node r)) 0 (s_data r) 0 4 = Inr hb" "read_short hb 0 = Inr mid"
    "read_short hb 2 = Inr len" "cur_len (recv_head_node r) = 0" "4 \<le> n" "n < 2 ^ 64"
  shows "mid > 2048 \<or> len > 2048 \<Longrightarrow> head_step ex 0 n r =
      Inr (Return (act (ClearSession (s_uuid r)) (r\<lparr>recv_head_node := (recv_head_node r)\<lparr>ndata := hb\<rparr>\<rparr>)))"
    and "\<not> (mid > 2048 \<or> len > 2048) \<Longrightarrow> RecvNode len mid = Inl e \<Longrightarrow> head_step ex 0 n r = Inl e"
proof -
  have u: "usize (int n) = n" using assms(6) by simp
  show "mid > 2048 \<or> len > 2048 \<Longrightarrow> head_step ex 0 n r =
      Inr (Return (act (ClearSession (s_uuid r)) (r\<lparr>recv_head_node := (recv_head_node r)\<lparr>ndata := hb\<rparr>\<rparr>)))"
    using assms u by (cases "mid > 2048") (simp_all add: head_step_def tlv_consts Let_def)
  show "\<not> (mid > 2048 \<or> len > 2048) \<Longrightarrow> RecvNode len mid = Inl e \<Longrightarrow> head_step ex 0 n r = Inl e"
    using assms u by (simp add: head_step_def tlv_consts Let_def)
qed

lemma head_read:
  assumes "pend [] c" "length rest \<le> 2044" "r = recv_into (be16 mid @ be16 len @ rest) c"
  shows "\<exists>hb. memcpy (ndata (recv_head_node r)) 0 (s_data r) 0 4 = Inr hb \<and>
    read_short hb 0 = Inr (to_short mid) \<and> read_short hb 2 = Inr (to_short len)"
proof -
  have "memcpy (ndata (recv_head_node r)) 0 (s_data r) 0 4 =
      Inr (be16 mid @ be16 len @ drop 4 (ndata (recv_head_node c)))"
    using assms by (simp add: pend_def memcpy_def)
  then show ?thesis
    by (simp add: read_short_id read_short_len)
qed

lemma HandleRead_header:
  assumes "pend [] c" "r = recv_into (be16 mid @ be16 len @ rest) c"
  shows "HandleRead ex False (4 + length rest) r =
    (case head_step ex 0 (4 + length rest) r of Inl e \<Rightarrow> Inl e | Inr (Return c1) \<Rightarrow> Inr c1
     | Inr (Continue (p, n, c1)) \<Rightarrow> read_loop ex p n c1)"
  using assms by (simp add: HandleRead_def read_loop.simps [of ex 0 "4 + length rest"] read_step_def pend_def)

lemma HandleRead_bad_header:
  assumes p: "pend [] c" and n: "length rest \<le> 2044" and m: "to_short mid = mid" "to_short len = len"
    and bad: "mid > 2048 \<or> len > 2048"
  shows "\<exists>c'. HandleRead ex False (4 + length rest) (recv_into (be16 mid @ be16 len @ rest) c) = Inr c' \<and>
    acts c' = acts c @ [ClearSession (s_uuid c)] \<and> nodes c' = nodes c"
proof -
  obtain r where r: "r = recv_into (be16 mid @ be16 len @ rest) c" by blast
  obtain hb where "memcpy (ndata (recv_head_node r)) 0 (s_data r) 0 4 = Inr hb"
    "read_short hb 0 = Inr mid" "read_short hb 2 = Inr len"
    using head_read [OF p n r] m by auto
  then have "head_step ex 0 (4 + length rest) r =
      Inr (Return (act (ClearSession (s_uuid r)) (r\<lparr>recv_head_node := (recv_head_node r)\<lparr>ndata := hb\<rparr>\<rparr>)))"
    using n p bad by (intro head_step_bad(1)) (simp_all add: r pend_def)
  then show ?thesis
    using HandleRead_header [OF p r, of ex] by (simp add: r)
qed

lemma HandleRead_negative_length:
  assumes p: "pend [] c" and n: "length rest \<le> 2044" and m: "to_short mid = mid" "to_short len = len"
    and bad: "mid \<le> 2048" "len < 0"
  shows "\<exists>e. HandleRead ex False (4 + length rest) (recv_into (be16 mid @ be16 len @ rest) c) = Inl e"
proof -
  obtain r where r: "r = recv_into (be16 mid @ be16 len @ rest) c" by blast
  obtain hb where h: "memcpy (ndata (recv_head_node r)) 0 (s_data r) 0 4 = Inr hb"
    "read_short hb 0 = Inr mid" "read_short hb 2 = Inr len"
    using head_read [OF p n r] m by auto
  obtain e where "RecvNode len mid = Inl e"
    using RecvNode_fails_iff [of len mid] bad by auto
  with h have "head_step ex 0 (4 + length rest) r = Inl e"
    using n p bad by (intro head_step_bad(2)) (simp_all add: r pend_def)
  then show ?thesis
    using HandleRead_header [OF p r, of ex] by (simp add: r)
qed

section \<open>Exact reads\<close>

lemma HandleReadHead_ok:
  assumes "length (ndata (recv_head_node c)) = 5" and "good_msg (mid, body)"
  shows "HandleReadHead ex False 4 (head_into (be16 mid @ be16 (int (length body))) c) =
    (let c1 = head_into (be16 mid @ be16 (int (length body))) c in
     Inr (act (AsyncReadMsg ex (int (length body)))
       (c1\<lparr>nodes := nodes c @ [\<lparr>cur_len = 0, total_len = int (length body),
             ndata = replicate (Suc (length body)) 0, msg_id = mid\<rparr>],
           recv_msg_node := Some (length (nodes c))\<rparr>)))"
  using assms
  by (simp add: HandleReadHead_def head_into_def tlv_consts good_msg_def read_short_id read_short_len
      to_short_id RecvNode_ok nat_add_distrib Let_def del: replicate_Suc)

lemma HandleReadMsg_ok:
  assumes n: "recv_msg_node c = Some a" "a < length (nodes c)"
    "nodes c ! a = \<lparr>cur_len = 0, total_len = int (length body),
             ndata = replicate (Suc (length body)) 0, msg_id = mid\<rparr>"
    and h: "length (ndata (recv_head_node c)) = 5" "total_len (recv_head_node c) = 4"
    and q: "send_que c = []" "length body \<le> 2048"
  shows "\<exists>c'. HandleReadMsg ex False (length body) (body_into body c) = Inr c' \<and>
    acts c' = acts c @ [AsyncWrite ex (encode mid body)] @
      (if ex = Strand then [PostMsg a] else []) @ [AsyncReadHead ex] \<and>
    nodes c' = (nodes c)[a := \<lparr>cur_len = 0, total_len = int (length body), ndata = body @ [0], msg_id = mid\<rparr>]"
proof -
  have s: "store_at (body @ [0]) (int (length body)) 0 = Inr (body @ [0 :: byte])"
    by (simp add: store_last)
  have ts: "to_short (int (length body)) = int (length body)"
    using q by (intro to_short_id) simp_all
  show ?thesis
    using assms SendNode_ok [of "length body" "body @ [0]" mid] ts s Clear_head [OF h]
    by (simp add: HandleReadMsg_def body_into_def Send_def tlv_consts Let_def node_wire_def encode_def
        nat_add_distrib)
qed

section \<open>Properties\<close>

text \<open>
  C7. A read handler that returns normally ends its turn exactly once: after posting the
  messages it completed, it either starts the next read on the session's executor or asks the
  server to drop the session, never both and never neither.
\<close>

theorem read_continues_once:
  assumes "HandleRead ex ec n c = Inr c'" and "n \<noteq> 0 \<or> ec"
  shows "continued ex c c'"
proof (cases ec)
  case True
  with assms show ?thesis by (auto simp: HandleRead_def continued_def)
next
  case False
  with assms show ?thesis
    by (auto simp: HandleRead_def intro: read_loop_continued)
qed

text \<open>
  C7. Malformed headers: an id or a length above the maximum ends the session without posting
  anything; but a negative length, which the check \<open>data_len > MAX_LENGTH\<close> lets through, makes the
  handler fail when it allocates the receive node, so any peer can raise an exception in the
  thread that runs the server's event loop.
\<close>

theorem bad_header:
  assumes "pend [] c" and "length rest \<le> 2044" and "- 32768 \<le> mid" "mid \<le> 32767"
    and "- 32768 \<le> len" "len \<le> 32767"
  shows "(mid > 2048 \<or> len > 2048 \<longrightarrow>
      (\<exists>c'. HandleRead ex False (4 + length rest) (recv_into (be16 mid @ be16 len @ rest) c) = Inr c' \<and>
         acts c' = acts c @ [ClearSession (s_uuid c)] \<and> nodes c' = nodes c)) \<and>
    (mid \<le> 2048 \<and> len < 0 \<longrightarrow>
      (\<exists>e. HandleRead ex False (4 + length rest) (recv_into (be16 mid @ be16 len @ rest) c) = Inl e))"
  using HandleRead_bad_header [OF assms(1,2), of mid len ex]
    HandleRead_negative_length [OF assms(1,2), of mid len ex] assms
  by (auto simp: to_short_id)

theorem bad_header_witness:
  "(\<exists>c'. HandleRead IoContext False 4 (recv_into (be16 1001 @ be16 2049 @ []) demo_conn) = Inr c' \<and>
      acts c' = [ClearSession ''u''] \<and> nodes c' = []) \<and>
   (\<exists>e. HandleRead IoContext False 4 (recv_into (be16 1001 @ be16 (- 2) @ []) demo_conn) = Inl e)"
  using bad_header [OF demo_pend, of "[]" 1001 2049 IoContext]
    bad_header [OF demo_pend, of "[]" 1001 "- 2" IoContext]
  by (simp add: demo_conn_def)

theorem read_continues_once_witness:
  "\<exists>c'. HandleRead Strand False 2 (recv_into [3, 233] demo_conn) = Inr c' \<and>
    continued Strand (recv_into [3, 233] demo_conn) c'"
proof -
  have "\<exists>c'. HandleRead Strand False 2 (recv_into [3, 233] demo_conn) = Inr c'"
    using HandleRead_messages [OF demo_pend, of "[3, 233]" "[]" "[3, 233]" Strand]
    by (auto simp: numeral_2_eq_2)
  then obtain c' where c: "HandleRead Strand False 2 (recv_into [3, 233] demo_conn) = Inr c'" by blast
  from read_continues_once [OF c] c show ?thesis by simp
qed

text \<open>
  C9. With exact reads a message is received whole: reading the header allocates a node of the
  announced length and starts a read of exactly that many bytes; reading the body writes the
  encoded message back, posts it to the logic queue in the thread-pool server, and starts the
  next header read.
\<close>

theorem exact_reads_echo:
  assumes "pend [] c" and "send_que c = []" and "good_msg (mid, body)"
  shows "\<exists>c1 c2. HandleReadHead ex False 4 (head_into (be16 mid @ be16 (int (length body))) c) = Inr c1 \<and>
    acts c1 = acts c @ [AsyncReadMsg ex (int (length body))] \<and>
    HandleReadMsg ex False (length body) (body_into body c1) = Inr c2 \<and>
    acts c2 = acts c1 @ [AsyncWrite ex (encode mid body)] @
      (if ex = Strand then [PostMsg (length (nodes c))] else []) @ [AsyncReadHead ex] \<and>
    ndata (nodes c2 ! length (nodes c)) = body @ [0]"
proof -
  have h: "length (ndata (recv_head_node c)) = 5" "total_len (recv_head_node c) = 4"
    using assms(1) by (simp_all add: pend_def)
  obtain c1 where r1: "HandleReadHead ex False 4 (head_into (be16 mid @ be16 (int (length body))) c) = Inr c1"
    and c1: "acts c1 = acts c @ [AsyncReadMsg ex (int (length body))]" "send_que c1 = []"
      "recv_msg_node c1 = Some (length (nodes c))"
      "nodes c1 = nodes c @ [\<lparr>cur_len = 0, total_len = int (length body),
             ndata = replicate (Suc (length body)) 0, msg_id = mid\<rparr>]"
      "length (ndata (recv_head_node c1)) = 5" "total_len (recv_head_node c1) = 4"
    using HandleReadHead_ok [OF h(1) assms(3), of ex] assms(2) h
    by (simp add: Let_def head_into_def del: replicate_Suc)
  have "length body \<le> 2048" using assms(3) by (simp add: good_msg_def)
  from HandleReadMsg_ok [OF c1(3) _ _ c1(5,6,2) this, of mid ex] c1(1,4)
  obtain c2 where "HandleReadMsg ex False (length body) (body_into body c1) = Inr c2"
    "acts c2 = acts c1 @ [AsyncWrite ex (encode mid body)] @
      (if ex = Strand then [PostMsg (length (nodes c))] else []) @ [AsyncReadHead ex]"
    "ndata (nodes c2 ! length (nodes c)) = body @ [0]"
    by auto
  with r1 c1(1) show ?thesis by blast
qed

theorem exact_reads_echo_witness:
  "\<exists>c1 c2. HandleReadHead Strand False 4 (head_into (be16 1001 @ be16 2) demo_conn) = Inr c1 \<and>
    HandleReadMsg Strand False 2 (body_into [104, 105] c1) = Inr c2 \<and>
    acts c2 = [AsyncReadMsg Strand 2, AsyncWrite Strand (encode 1001 [104, 105]), PostMsg 0,
      AsyncReadHead Strand]"
proof -
  have "send_que demo_conn = []" "good_msg (1001, [104, 105])"
    by (simp_all add: demo_conn_def good_msg_def)
  from exact_reads_echo [OF demo_pend this, of Strand] show ?thesis
    by (auto simp: demo_conn_def numeral_2_eq_2)
qed

text \<open>
  C8. Bytes that follow a completed cut body in the same read are not read: the handler goes on
  at the start of the buffer, so the bytes of the body just completed are taken for the next
  header, as if \<open>length rest\<close> bytes had been received there.
\<close>

theorem bytes_after_cut_body_misread:
  assumes "in_body (part_node mid len b1 b) c" and "b2 \<noteq> []" and "rest \<noteq> []"
    and "length b \<le> length b2" and "length b1 + length b2 = len" and "len \<le> 2048"
    and "length b2 + length rest \<le> 2048"
  shows "\<exists>c1 junk. pend [] c1 \<and> length junk = length rest \<and> prefix junk (b2 @ rest) \<and>
    HandleRead ex False (length (b2 @ rest)) (recv_into (b2 @ rest) c) =
    HandleRead ex False (length junk) (recv_into junk c1)"
proof -
  let ?r = "recv_into (b2 @ rest) c"
  have i: "in_body (part_node mid len b1 b) ?r"
    using assms by (intro in_body_recv) simp_all
  obtain a where a: "recv_msg_node ?r = Some a"
    using i by (auto simp: in_body_def)
  define c1 where "c1 = (act (PostMsg a) ?r)\<lparr>b_head_parse := False,
      recv_head_node := head_cleared (recv_head_node ?r),
      nodes := (nodes ?r)[a := \<lparr>cur_len = 0, total_len = int len,
                              ndata = replicate (Suc len) 0, msg_id = mid\<rparr>]\<rparr>"
  have d: "s_data ?r = b2 @ rest @ drop (length b2 + length rest) (s_data c)" by simp
  have b: "body_step ex 0 (length b2 + length rest) ?r = Inr (Continue (0, length rest, c1))"
    unfolding c1_def using body_complete [OF i d assms(4,5,6) a assms(7), of ex] assms(3) by simp
  have p: "pend [] c1"
    using i by (auto simp: in_body_def pend_def c1_def head_cleared_def)
  have s: "s_data c1 = s_data ?r" by (simp add: c1_def)
  obtain junk where j: "junk = take (length rest) (b2 @ rest)" by blast
  have l: "length junk = length rest" by (simp add: j)
  have "junk = take (length rest) (s_data c1)"
    unfolding s d j by simp
  then have "junk @ drop (length junk) (s_data c1) = s_data c1"
    using l by simp
  then have "recv_into junk c1 = c1"
    by (simp add: recv_into_def)
  moreover have "HandleRead ex False (length (b2 @ rest)) ?r = read_loop ex 0 (length rest) c1"
    using HandleRead_body [OF assms(1), of "b2 @ rest" ex] assms(2) b by simp
  ultimately have "HandleRead ex False (length (b2 @ rest)) ?r =
      HandleRead ex False (length junk) (recv_into junk c1)"
    by (simp add: HandleRead_def l)
  moreover have "prefix junk (b2 @ rest)" unfolding j by (rule take_is_prefix)
  ultimately show ?thesis
    using p l by blast
qed

text \<open>A connection in the middle of a body of three bytes, the first of which has come.\<close>

definition demo_body :: conn where
  "demo_body = demo_conn\<lparr>b_head_parse := True, recv_msg_node := Some 0,
     nodes := [part_node 1001 3 [1] []]\<rparr>"

theorem bytes_after_cut_body_misread_witness:
  "\<exists>c1 junk. pend [] c1 \<and> length junk = 4 \<and> prefix junk [2, 3, 3, 233, 0, 0] \<and>
    HandleRead IoContext False 6 (recv_into [2, 3, 3, 233, 0, 0] demo_body) =
    HandleRead IoContext False (length junk) (recv_into junk c1)"
proof -
  have "in_body (part_node 1001 3 [1] []) demo_body"
    by (simp add: in_body_def demo_body_def demo_conn_def)
  from bytes_after_cut_body_misread [OF this, of "[2, 3]" "[3, 233, 0, 0]" IoContext]
  show ?thesis by (simp add: numeral_eq_Suc)
qed

end
