(* ===== verification/LogicSys.thy ===== *)
theory LogicSys
  imports CSession
begin

text \<open>
  The logic system (\<open>LogicSystem.cpp\<close>): a queue of posted messages, a mutex with a condition
  variable, and one worker thread that runs the callbacks while it holds the mutex. The machine
  interleaves the posting threads, the worker, and the destructor at the points where they hold
  or do not hold the mutex. Two critical sections never overlap, so each is one event; the
  destructor writes \<open>_b_stop\<close> without the mutex, so it may come between the worker's test of the
  wait condition and its going to sleep.
\<close>

section \<open>Dispatch\<close>

text \<open>
  The JSON library is a parameter: its operations on a value type \<open>'j\<close>.
\<close>

record 'j json =
  parse :: "byte list \<Rightarrow> 'j"
  get_int :: "string \<Rightarrow> 'j \<Rightarrow> int"
  get_str :: "string \<Rightarrow> 'j \<Rightarrow> byte list"
  set_str :: "string \<Rightarrow> byte list \<Rightarrow> 'j \<Rightarrow> 'j"
  styled :: "'j \<Rightarrow> byte list"

datatype callback = HelloWord

definition MSG_HELLO_WORD :: int where "MSG_HELLO_WORD = 1001"

definition RegisterCallbacks :: "int \<Rightarrow> callback option" where
  "RegisterCallbacks = Map.empty(MSG_HELLO_WORD \<mapsto> HelloWord)"

definition ascii :: "string \<Rightarrow> byte list" where
  "ascii s = map of_char s"

definition HelloWordCallBack ::
  "'j json \<Rightarrow> executor \<Rightarrow> int \<Rightarrow> byte list \<Rightarrow> conn \<Rightarrow> conn res" where
  "HelloWordCallBack js ex mid data session =
     (let root = parse js data;
          root1 = set_str js ''data''
            (ascii ''server has receive msg, msg data is '' @ get_str js ''data'' root) root
      in Send_string ex (styled js root1) (to_short (get_int js ''id'' root1)) session)"

text \<open>The string a callback gets: the first \<open>_cur_len\<close> bytes of the node.\<close>

definition msg_string :: "typed_node \<Rightarrow> byte list" where
  "msg_string m = take (nat (cur_len m)) (ndata m)"

text \<open>The call the worker makes for a node, if its id has a callback.\<close>

definition dispatch :: "typed_node \<Rightarrow> (callback \<times> int \<times> byte list) option" where
  "dispatch m = (case RegisterCallbacks (msg_id m) of None \<Rightarrow> None
     | Some f \<Rightarrow> Some (f, msg_id m, msg_string m))"

section \<open>The machine\<close>

datatype wpc =
    Ready       \<comment> \<open>before the wait, not holding the mutex\<close>
  | Deciding    \<comment> \<open>holds the mutex, has found the condition false\<close>
  | Asleep      \<comment> \<open>blocked in \<open>wait\<close>, mutex released\<close>
  | Exited

record 'm logic =
  msg_que :: "'m list"
  b_stop :: bool
  worker :: wpc
  stop_due :: bool       \<comment> \<open>ghost: the destructor has still to notify\<close>
  notifies :: nat        \<comment> \<open>ghost: \<open>notify_one\<close> calls due after an unlock\<close>
  processed :: "'m list" \<comment> \<open>ghost: messages taken by the worker\<close>
  all_posted :: "'m list"    \<comment> \<open>ghost\<close>

definition LogicSystem :: "'m logic" where
  "LogicSystem = \<lparr>msg_que = [], b_stop = False, worker = Ready, stop_due = False,
     notifies = 0, processed = [], all_posted = []\<rparr>"

datatype 'm logic_event =
    Post 'm        \<comment> \<open>the locked part of \<open>PostMsgToQue\<close>\<close>
  | Notify         \<comment> \<open>its \<open>notify_one\<close>, after the unlock\<close>
  | Turn           \<comment> \<open>one turn of \<open>DealMsg\<close> up to the wait or the unlock\<close>
  | Sleep          \<comment> \<open>\<open>wait\<close> releases the mutex and blocks\<close>
  | Spurious       \<comment> \<open>a wake-up without a notification\<close>
  | SetStop        \<comment> \<open>\<open>_b_stop = true\<close> in the destructor\<close>
  | StopNotify     \<comment> \<open>\<open>notify_one\<close> in the destructor\<close>

definition PostMsgToQue :: "'m \<Rightarrow> 'm logic \<Rightarrow> 'm logic" where
  "PostMsgToQue m s =
     (let q = msg_que s @ [m] in
      s\<lparr>msg_que := q, all_posted := all_posted s @ [m],
        notifies := notifies s + (if length q = 1 then 1 else 0)\<rparr>)"

definition wake :: "'m logic \<Rightarrow> 'm logic" where
  "wake s = (if worker s = Asleep then s\<lparr>worker := Ready\<rparr> else s)"

text \<open>One turn of the worker that holds the mutex.\<close>

definition DealMsg :: "'m logic \<Rightarrow> 'm logic" where
  "DealMsg s =
     (if msg_que s = [] \<and> \<not> b_stop s then s\<lparr>worker := Deciding\<rparr>
      else if b_stop s then
        s\<lparr>msg_que := [], processed := processed s @ msg_que s, worker := Exited\<rparr>
      else s\<lparr>msg_que := tl (msg_que s), processed := processed s @ [hd (msg_que s)]\<rparr>)"

fun logic_exec :: "'m logic_event \<Rightarrow> 'm logic \<Rightarrow> 'm logic option" where
  "logic_exec (Post m) s = (if worker s = Deciding then None else Some (PostMsgToQue m s))"
| "logic_exec Notify s =
     (if notifies s = 0 then None else Some (wake (s\<lparr>notifies := notifies s - 1\<rparr>)))"
| "logic_exec Turn s = (if worker s = Ready then Some (DealMsg s) else None)"
| "logic_exec Sleep s = (if worker s = Deciding then Some (s\<lparr>worker := Asleep\<rparr>) else None)"
| "logic_exec Spurious s = (if worker s = Asleep then Some (s\<lparr>worker := Ready\<rparr>) else None)"
| "logic_exec SetStop s = (if b_stop s then None else Some (s\<lparr>b_stop := True, stop_due := True\<rparr>))"
| "logic_exec StopNotify s = (if stop_due s then Some (wake (s\<lparr>stop_due := False\<rparr>)) else None)"

section \<open>The invariant\<close>

text \<open>
  Messages are processed in the order of posting, none lost or repeated; a sleeping worker with
  work has a notification coming; a worker that exits leaves nothing of what was posted before.
\<close>

definition logic_inv :: "'m logic \<Rightarrow> bool" where
  "logic_inv s \<longleftrightarrow> processed s @ msg_que s = all_posted s \<and>
     (worker s = Asleep \<and> msg_que s \<noteq> [] \<longrightarrow> 0 < notifies s) \<and>
     (worker s = Deciding \<longrightarrow> msg_que s = []) \<and> (worker s = Exited \<longrightarrow> b_stop s)"

lemma logic_inv_step: "logic_inv s \<Longrightarrow> logic_exec e s = Some t \<Longrightarrow> logic_inv t"
  by (cases e)
    (auto simp: logic_inv_def PostMsgToQue_def DealMsg_def wake_def Let_def neq_Nil_conv
      split: if_splits)

interpretation logic: inv_machine logic_exec logic_inv
  by unfold_locales (rule logic_inv_step)

lemma logic_init: "logic_inv LogicSystem"
  by (simp add: logic_inv_def LogicSystem_def)

text \<open>Bringing the worker to its turn, and letting it work until the queue is empty.\<close>

lemma wake_up:
  assumes "logic_inv s" "msg_que s \<noteq> []" "worker s \<noteq> Exited"
  shows "\<exists>es t. run logic_exec es s = Some t \<and> worker t = Ready \<and> msg_que t = msg_que s \<and>
    processed t = processed s \<and> b_stop t = b_stop s \<and> set es \<subseteq> {Notify}"
proof (cases "worker s")
  case Ready
  then show ?thesis by (intro exI [of _ "[]"]) simp
next
  case Asleep
  with assms show ?thesis
    by (intro exI [of _ "[Notify]"]) (simp add: logic_inv_def wake_def)
qed (use assms in \<open>simp_all add: logic_inv_def\<close>)

lemma work_off:
  "worker s = Ready \<Longrightarrow> \<not> b_stop s \<Longrightarrow>
   \<exists>t. run logic_exec (replicate (length (msg_que s)) Turn) s = Some t \<and> msg_que t = [] \<and>
     processed t = processed s @ msg_que s"
proof (induction "msg_que s" arbitrary: s)
  case Nil
  then show ?case by (metis append_Nil2 list.size(3) replicate_0 run.simps(1))
next
  case (Cons m q)
  have d: "DealMsg s = s\<lparr>msg_que := q, processed := processed s @ [m]\<rparr>"
    using Cons by (simp add: DealMsg_def flip: Cons.hyps(2))
  show ?case
    using Cons.hyps(1) [of "DealMsg s"] Cons.prems d by (simp flip: Cons.hyps(2))
qed

section \<open>Properties\<close>

fun posts :: "'m logic_event list \<Rightarrow> 'm list" where
  "posts [] = []"
| "posts (Post m # es) = m # posts es"
| "posts (_ # es) = posts es"

lemma all_posted_step:
  "logic_exec e s = Some t \<Longrightarrow> all_posted t = all_posted s @ posts [e]"
  by (cases e) (auto simp: PostMsgToQue_def DealMsg_def wake_def Let_def split: if_splits)

lemma posts_Cons: "posts (e # es) = posts [e] @ posts es"
  by (cases e) simp_all

lemma all_posted_run:
  "run logic_exec es s = Some t \<Longrightarrow> all_posted t = all_posted s @ posts es"
proof (induction es arbitrary: s)
  case Nil
  then show ?case by simp
next
  case (Cons e es)
  then show ?case
    using all_posted_step [of e s] posts_Cons [of e es] by (auto split: option.splits)
qed

text \<open>
  C4. The logic queue: in every interleaving of posting threads, the worker and the destructor,
  the worker takes the posted messages in their order, each once; and as long as the system is
  not being stopped, whatever is queued gets processed by notifications already due and turns
  of the worker alone, although \<open>PostMsgToQue\<close> notifies only for the first message of a queue.
\<close>

theorem logic_processes_all:
  assumes "run logic_exec es LogicSystem = Some s"
  shows "processed s @ msg_que s = posts es \<and>
    (\<not> b_stop s \<longrightarrow> (\<exists>fs t. run logic_exec fs s = Some t \<and> set fs \<subseteq> {Notify, Turn} \<and>
       processed t = posts es \<and> msg_que t = []))"
proof -
  have i: "logic_inv s"
    using logic.run_inv [OF logic_init assms] .
  have p: "processed s @ msg_que s = posts es"
    using i all_posted_run [OF assms] by (simp add: logic_inv_def LogicSystem_def)
  have "\<exists>fs t. run logic_exec fs s = Some t \<and> set fs \<subseteq> {Notify, Turn} \<and>
       processed t = posts es \<and> msg_que t = []" if ns: "\<not> b_stop s"
  proof (cases "msg_que s = []")
    case True
    with p show ?thesis by (intro exI [of _ "[]"] exI [of _ s]) simp
  next
    case False
    obtain fs u where u: "run logic_exec fs s = Some u" "worker u = Ready"
      "msg_que u = msg_que s" "processed u = processed s" "b_stop u = b_stop s" "set fs \<subseteq> {Notify}"
      using wake_up [OF i False] ns i unfolding logic_inv_def by blast
    obtain t where t: "run logic_exec (replicate (length (msg_que u)) Turn) u = Some t"
      "msg_que t = []" "processed t = processed u @ msg_que u"
      using work_off u(2,5) ns by metis
    have "run logic_exec (fs @ replicate (length (msg_que u)) Turn) s = Some t"
      using u(1) t(1) by (simp add: run_append)
    moreover have "set (fs @ replicate (length (msg_que u)) Turn) \<subseteq> {Notify, Turn}"
      using u(6) by auto
    ultimately show ?thesis using t(2,3) u(3,4) p by metis
  qed
  with p show ?thesis by blast
qed

theorem logic_processes_all_witness:
  "\<exists>s. run logic_exec [Turn, Sleep, Post (1 :: nat), Post 2, Notify, Turn] LogicSystem = Some s \<and>
    processed s @ msg_que s = [1, 2] \<and>
    (\<exists>fs t. run logic_exec fs s = Some t \<and> processed t = [1, 2] \<and> msg_que t = [])"
proof -
  obtain s where s: "run logic_exec [Turn, Sleep, Post (1 :: nat), Post 2, Notify, Turn] LogicSystem = Some s"
    "\<not> b_stop s"
    by (simp add: LogicSystem_def DealMsg_def PostMsgToQue_def wake_def Let_def)
  from logic_processes_all [OF s(1)] s show ?thesis by auto
qed

text \<open>
  C9. Shutdown can hang: the destructor may set \<open>_b_stop\<close> and notify between the worker's test of
  the wait condition and its blocking. The worker then sleeps with \<open>_b_stop\<close> set and no
  notification due, nothing the worker or the destructor still does changes that, and
  \<open>_worket_thread.join()\<close> waits unless a spurious wake-up happens.
\<close>

theorem stop_can_be_missed:
  "\<exists>s. run logic_exec [Turn, SetStop, StopNotify, Sleep] (LogicSystem :: 'm logic) = Some s \<and>
    worker s = Asleep \<and> b_stop s \<and> notifies s = 0 \<and>
    (\<forall>e. e = Spurious \<or> (\<exists>m. e = Post m) \<or> logic_exec e s = None)"
proof -
  let ?s = "\<lparr>msg_que = [], b_stop = True, worker = Asleep, stop_due = False,
     notifies = 0, processed = [], all_posted = []\<rparr> :: 'm logic"
  have "e = Spurious \<or> (\<exists>m. e = Post m) \<or> logic_exec e ?s = None" for e
    by (cases e) auto
  then show ?thesis
    by (intro exI [of _ ?s]) (auto simp: LogicSystem_def DealMsg_def wake_def)
qed

text \<open>
  C13. A worker that sees \<open>_b_stop\<close> processes the whole queue before it exits.
\<close>

theorem stop_drains_queue:
  assumes "run logic_exec es LogicSystem = Some s" and "worker s = Ready" and "b_stop s"
  shows "\<exists>t. logic_exec Turn s = Some t \<and> worker t = Exited \<and> msg_que t = [] \<and>
    processed t = posts es"
  using logic.run_inv [OF logic_init assms(1)] all_posted_run [OF assms(1)] assms(2,3)
  by (auto simp: logic_inv_def LogicSystem_def DealMsg_def)

theorem stop_drains_queue_witness:
  "\<exists>s t. run logic_exec [Post (1 :: nat), Post 2, SetStop] LogicSystem = Some s \<and>
    logic_exec Turn s = Some t \<and> worker t = Exited \<and> processed t = [1, 2]"
proof -
  obtain s where s: "run logic_exec [Post (1 :: nat), Post 2, SetStop] LogicSystem = Some s"
    "worker s = Ready" "b_stop s"
    by (simp add: LogicSystem_def PostMsgToQue_def Let_def)
  from stop_drains_queue [OF s] s show ?thesis by auto
qed

end
