(* ===== verification/CoSession.thy ===== *)
theory CoSession
  imports Framing LogicSys
begin

text \<open>
  The session of the coroutine server (\<open>src/Network/coroutineServer/src/CSession.cpp\<close>): the loop of
  \<open>Start\<close>, which awaits a header and a body in turn, and its \<open>Send\<close> and \<open>HandleWrite\<close>. The peer is
  the stream of bytes it sends before it closes the connection; \<open>async_read\<close> of \<open>k\<close> bytes takes
  \<open>k\<close> bytes of it, or throws when fewer come, after writing those that did.
\<close>

section \<open>Operations\<close>

definition co_new_CSession :: "string \<Rightarrow> conn res" where
  "co_new_CSession uuid = rbind (co_MsgNode HEAD_TOTAL_LEN) (\<lambda>h.
     Inr \<lparr>s_data = [], s_uuid = uuid, send_que = [], recv_msg_node = None, b_head_parse = False,
          recv_head_node = h, b_close = False, nodes = [], acts = []\<rparr>)"

definition co_Close :: "conn \<Rightarrow> conn" where
  "co_Close c = (act SocketClose c)\<lparr>b_close := True\<rparr>"

text \<open>\<open>Close(); _server->ClearSession(_uuid);\<close>\<close>

definition co_drop :: "conn \<Rightarrow> conn" where
  "co_drop c = act (ClearSession (s_uuid c)) (co_Close c)"

definition co_Send :: "byte list \<Rightarrow> int \<Rightarrow> int \<Rightarrow> conn \<Rightarrow> conn res" where
  "co_Send msg msg_length mid c =
     (if length (send_que c) > MAX_SENDQUE then Inr c
      else if length (send_que c) > 0 then
        rbind (co_SendNode msg msg_length mid) (\<lambda>n. Inr (c\<lparr>send_que := send_que c @ [n]\<rparr>))
      else
        rbind (co_SendNode msg msg_length mid) (\<lambda>n.
        (let c1 = c\<lparr>send_que := send_que c @ [n]\<rparr> in
         Inr (act (AsyncWrite IoContext (node_wire (hd (send_que c1)))) c1))))"

definition co_Send_string :: "byte list \<Rightarrow> int \<Rightarrow> conn \<Rightarrow> conn res" where
  "co_Send_string msg mid c = co_Send (msg @ [0]) (to_short (int (length msg))) mid c"

definition co_HandleWrite :: "bool \<Rightarrow> conn \<Rightarrow> conn res" where
  "co_HandleWrite err c =
     (if \<not> err then
        (case send_que c of
           [] \<Rightarrow> Inl EmptyContainer
         | _ # q \<Rightarrow>
             (let c1 = c\<lparr>send_que := q\<rparr> in
              case q of [] \<Rightarrow> Inr c1
              | n # _ \<Rightarrow> Inr (act (AsyncWrite IoContext (node_wire n)) c1)))
      else Inr (co_drop c))"

text \<open>
  The \<open>catch\<close> of \<open>Start\<close>: an exception closes the session; undefined behaviour is not an
  exception.
\<close>

definition co_catch :: "cpp_error \<Rightarrow> conn \<Rightarrow> conn res" where
  "co_catch e c = (if e = BadArrayNewLength then Inr (co_drop c) else Inl e)"

text \<open>
  One turn of the loop: the rest of the stream when the session goes on, \<open>Return\<close> when the
  coroutine ends.
\<close>

definition co_step :: "byte list \<Rightarrow> conn \<Rightarrow> (byte list \<times> conn) flow res" where
  "co_step str c =
    rbind (co_MsgNode_Clear (recv_head_node c)) (\<lambda>h.
    rbind (memcpy (ndata h) 0 str 0 (min HEAD_TOTAL_LEN (int (length str)))) (\<lambda>d.
    (let c1 = c\<lparr>recv_head_node := h\<lparr>ndata := d\<rparr>\<rparr> in
     if length str < nat HEAD_TOTAL_LEN then Inr (Return (co_drop c1))
     else
       rbind (read_short d 0) (\<lambda>mid.
       if mid > MAX_LENGTH then Inr (Return (co_drop c1))
       else
       rbind (read_short d HEAD_ID_LEN) (\<lambda>len.
       if len > MAX_LENGTH then Inr (Return (co_drop c1))
       else
       (case co_RecvNode len mid of
          Inl e \<Rightarrow> rbind (co_catch e c1) (\<lambda>c2. Inr (Return c2))
        | Inr m \<Rightarrow>
          (let rest = drop (nat HEAD_TOTAL_LEN) str;
               k = usize (total_len m);
               a = length (nodes c1) in
           rbind (memcpy (ndata m) 0 rest 0 (int (min k (length rest)))) (\<lambda>d2.
           (let c2 = c1\<lparr>nodes := nodes c1 @ [m\<lparr>ndata := d2\<rparr>], recv_msg_node := Some a\<rparr> in
            if length rest < k then Inr (Return (co_drop c2))
            else if k = 0 then Inr (Return (co_drop c2))
            else
              rbind (store_at d2 (total_len m) 0) (\<lambda>d3.
              Inr (Continue (drop k rest, act (PostMsg a)
                (c2\<lparr>nodes := (nodes c2)[a := m\<lparr>ndata := d3\<rparr>]\<rparr>)))))))))))))"

lemma co_step_shorter:
  "co_step str c = Inr (Continue (str', c')) \<Longrightarrow> length str' < length str"
  apply (auto simp: co_step_def Let_def rbind_Inr_iff tlv_consts co_catch_def
      split: if_splits sum.splits)
  subgoal for h d mid len by (cases "co_RecvNode len mid") auto
  done

function co_loop :: "byte list \<Rightarrow> conn \<Rightarrow> conn res" where
  "co_loop str c =
     (case co_step str c of
        Inl e \<Rightarrow> Inl e
      | Inr (Return c1) \<Rightarrow> Inr c1
      | Inr (Continue (str1, c1)) \<Rightarrow> co_loop str1 c1)"
  by pat_completeness auto
termination
  by (relation "measure (\<lambda>(str, c). length str)") (auto dest: co_step_shorter)

declare co_loop.simps [simp del]

text \<open>\<open>Start\<close> spawns the coroutine; \<open>str\<close> is what the peer sends.\<close>

definition co_Start :: "byte list \<Rightarrow> conn \<Rightarrow> conn res" where
  "co_Start str c = co_loop str c"

section \<open>One turn\<close>

definition co_ready :: "conn \<Rightarrow> bool" where
  "co_ready c \<longleftrightarrow> total_len (recv_head_node c) = 4 \<and> length (ndata (recv_head_node c)) = 5"

definition co_node :: "int \<times> byte list \<Rightarrow> typed_node" where
  "co_node m = \<lparr>cur_len = 0, total_len = int (length (snd m)), ndata = snd m @ [0], msg_id = fst m\<rparr>"

text \<open>The header of a turn is read into the cleared header node.\<close>

lemma co_head:
  assumes "co_ready c" and "length w = 4"
  shows "\<exists>h d. co_MsgNode_Clear (recv_head_node c) = Inr h \<and> total_len h = 4 \<and>
    memcpy (ndata h) 0 (w @ rest) 0 4 = Inr (w @ [0]) \<and> d = w @ [0]"
  using assms by (auto simp: co_ready_def co_MsgNode_Clear_def memzero_def memcpy_def)

lemma co_RecvNode_cases:
  "0 \<le> len \<Longrightarrow> co_RecvNode len mid = Inr \<lparr>cur_len = 0, total_len = len,
     ndata = replicate (nat (len + 1)) 0, msg_id = mid\<rparr>"
  "co_RecvNode (- 1) mid = Inr \<lparr>cur_len = 0, total_len = - 1, ndata = [], msg_id = mid\<rparr>"
  "len < - 1 \<Longrightarrow> co_RecvNode len mid = Inl BadArrayNewLength"
  by (simp_all add: co_RecvNode_def co_MsgNode_def msg_node.defs typed_node.defs)

lemma header_fields:
  assumes "to_short mid = mid" "to_short len = len"
  shows "read_short (be16 mid @ be16 len @ [0]) 0 = Inr mid"
    "read_short (be16 mid @ be16 len @ [0]) 2 = Inr len"
  using assms by (simp_all add: read_short_id read_short_len)

lemma co_step_msg:
  assumes c: "co_ready c" and g: "good_msg (mid, body)" and ne: "body \<noteq> []"
  shows "\<exists>c'. co_step (enc (mid, body) @ rest) c = Inr (Continue (rest, c')) \<and> co_ready c' \<and>
    nodes c' = nodes c @ [co_node (mid, body)] \<and> acts c' = acts c @ [PostMsg (length (nodes c))] \<and>
    s_uuid c' = s_uuid c"
proof -
  let ?len = "int (length body)"
  let ?w = "be16 mid @ be16 ?len"
  obtain h where h: "co_MsgNode_Clear (recv_head_node c) = Inr h" "total_len h = 4"
    "memcpy (ndata h) 0 (?w @ body @ rest) 0 4 = Inr (?w @ [0])"
    using co_head [OF c, of ?w "body @ rest"] by auto
  have f: "read_short (be16 mid @ be16 ?len @ [0]) 0 = Inr mid"
    "read_short (be16 mid @ be16 ?len @ [0]) 2 = Inr ?len"
    using g by (intro header_fields; simp add: good_msg_def to_short_id)+
  have cp: "memcpy (replicate (Suc (length body)) 0) 0 (body @ rest) 0 ?len = Inr (body @ [0])"
    using body_copy [of "body @ rest" "[]" body rest] by simp
  have u: "usize ?len = length body"
    using g by (intro usize_nat) (simp add: good_msg_def)
  have s: "store_at (body @ [0]) ?len 0 = Inr (body @ [0])"
    by (simp add: store_last)
  have r: "co_RecvNode ?len mid = Inr \<lparr>cur_len = 0, total_len = ?len,
     ndata = replicate (Suc (length body)) 0, msg_id = mid\<rparr>"
    by (simp add: co_RecvNode_cases nat_add_distrib)
  show ?thesis
    using h f cp u s r ne g
    by (simp add: co_step_def enc_Pair tlv_consts good_msg_def co_ready_def co_node_def Let_def
        del: replicate_Suc)
qed

lemma co_step_end: "co_ready c \<Longrightarrow> \<exists>c'. co_step [] c = Inr (Return c') \<and>
    nodes c' = nodes c \<and> acts c' = acts c @ [SocketClose, ClearSession (s_uuid c)]"
  by (auto simp: co_step_def co_ready_def co_MsgNode_Clear_def memzero_def memcpy_def co_drop_def
      co_Close_def tlv_consts Let_def)

lemma co_loop_messages:
  "co_ready c \<Longrightarrow> list_all good_msg ms \<Longrightarrow> list_all (\<lambda>m. snd m \<noteq> []) ms \<Longrightarrow>
   \<exists>c'. co_loop (concat (map enc ms) @ tail) c = co_loop tail c' \<and> co_ready c' \<and>
     nodes c' = nodes c @ map co_node ms \<and> s_uuid c' = s_uuid c \<and>
     acts c' = acts c @ map PostMsg [length (nodes c) ..< length (nodes c) + length ms]"
proof (induction ms arbitrary: c)
  case Nil
  then show ?case by auto
next
  case (Cons m ms)
  obtain c1 where c1: "co_step (enc m @ concat (map enc ms) @ tail) c =
      Inr (Continue (concat (map enc ms) @ tail, c1))"
    "co_ready c1" "nodes c1 = nodes c @ [co_node m]" "acts c1 = acts c @ [PostMsg (length (nodes c))]"
    "s_uuid c1 = s_uuid c"
    using co_step_msg [of c "fst m" "snd m" "concat (map enc ms) @ tail"] Cons.prems by auto
  from Cons.IH [OF c1(2)] Cons.prems c1 show ?case
    by (auto simp: co_loop.simps [of "enc m @ _"] upt_conv_Cons simp del: upt_Suc)
qed

text \<open>Turns that end the session, or the program.\<close>

lemma co_turn_header:
  assumes c: "co_ready c" and "to_short mid = mid" "to_short len = len" "mid \<le> 2048" "len \<le> 2048"
  shows "\<exists>h. let c1 = c\<lparr>recv_head_node := h\<rparr> in
    co_step (be16 mid @ be16 len @ rest) c =
      (case co_RecvNode len mid of
          Inl e \<Rightarrow> rbind (co_catch e c1) (\<lambda>c2. Inr (Return c2))
        | Inr m \<Rightarrow>
           rbind (memcpy (ndata m) 0 rest 0 (int (min (usize (total_len m)) (length rest)))) (\<lambda>d2.
           (let c2 = c1\<lparr>nodes := nodes c @ [m\<lparr>ndata := d2\<rparr>], recv_msg_node := Some (length (nodes c))\<rparr> in
            if length rest < usize (total_len m) then Inr (Return (co_drop c2))
            else if usize (total_len m) = 0 then Inr (Return (co_drop c2))
            else
              rbind (store_at d2 (total_len m) 0) (\<lambda>d3.
              Inr (Continue (drop (usize (total_len m)) rest, act (PostMsg (length (nodes c)))
                (c2\<lparr>nodes := nodes c @ [m\<lparr>ndata := d3\<rparr>]\<rparr>)))))))"
proof -
  obtain h where h: "co_MsgNode_Clear (recv_head_node c) = Inr h"
    "memcpy (ndata h) 0 (be16 mid @ be16 len @ rest) 0 4 = Inr (be16 mid @ be16 len @ [0])"
    using co_head [OF c, of "be16 mid @ be16 len" rest] by auto
  show ?thesis
    using h header_fields [of mid len] assms
    by (intro exI [of _ "h\<lparr>ndata := be16 mid @ be16 len @ [0]\<rparr>"], cases "co_RecvNode len mid")
      (simp_all add: co_step_def tlv_consts Let_def cong: if_cong)
qed

lemma co_drop_fields [simp]:
  "acts (co_drop c) = acts c @ [SocketClose, ClearSession (s_uuid c)]" "nodes (co_drop c) = nodes c"
  by (simp_all add: co_drop_def co_Close_def)

lemma co_turn_empty:
  assumes "co_ready c" "good_msg (mid, [])"
  shows "\<exists>c'. co_step (enc (mid, []) @ rest) c = Inr (Return c') \<and>
    acts c' = acts c @ [SocketClose, ClearSession (s_uuid c)]"
  using co_turn_header [of c mid 0 rest] assms
  by (auto simp: enc_Pair co_RecvNode_cases memcpy_def usize_def good_msg_def to_short_id Let_def)

lemma co_turn_negative:
  assumes "co_ready c" "- 32768 \<le> mid" "mid \<le> 2048"
  shows "- 32768 \<le> len \<Longrightarrow> len < - 1 \<Longrightarrow> \<exists>c'. co_step (be16 mid @ be16 len @ rest) c = Inr (Return c') \<and>
      acts c' = acts c @ [SocketClose, ClearSession (s_uuid c)]"
    and "rest \<noteq> [] \<Longrightarrow> co_step (be16 mid @ be16 (- 1) @ rest) c = Inl OutOfBounds"
proof -
  show "\<exists>c'. co_step (be16 mid @ be16 len @ rest) c = Inr (Return c') \<and>
      acts c' = acts c @ [SocketClose, ClearSession (s_uuid c)]" if "- 32768 \<le> len" "len < - 1"
    using co_turn_header [of c mid len rest] assms that
    by (auto simp: co_RecvNode_cases to_short_id co_catch_def Let_def)
  have u: "usize (- 1) = 2 ^ 64 - 1" by (simp add: usize_def)
  have "0 < min (usize (- 1)) (length rest)" if "rest \<noteq> []"
    using that unfolding u by simp
  then show "co_step (be16 mid @ be16 (- 1) @ rest) c = Inl OutOfBounds" if "rest \<noteq> []"
    using co_turn_header [of c mid "- 1" rest] assms that
    by (auto simp: co_RecvNode_cases to_short_id memcpy_def Let_def)
qed

section \<open>Properties\<close>

text \<open>
  C6. The coroutine server posts every message of a stream of messages with non-empty bodies, in
  order and whole, however the network cuts the stream, and drops the session at its end. But a
  message with an empty body, which the other servers take, makes \<open>n == 0\<close> look like a closed
  connection: the session is dropped and nothing of what follows is read.
\<close>

theorem coroutine_reads_stream:
  assumes "co_ready c" and "list_all good_msg ms" and "list_all (\<lambda>m. snd m \<noteq> []) ms"
    and "good_msg (mid, [])"
  shows "(\<exists>c'. co_Start (concat (map enc ms)) c = Inr c' \<and> nodes c' = nodes c @ map co_node ms \<and>
      acts c' = acts c @ map PostMsg [length (nodes c) ..< length (nodes c) + length ms] @
        [SocketClose, ClearSession (s_uuid c)]) \<and>
    (\<exists>c'. co_Start (concat (map enc ms) @ enc (mid, []) @ later) c = Inr c' \<and>
      acts c' = acts c @ map PostMsg [length (nodes c) ..< length (nodes c) + length ms] @
        [SocketClose, ClearSession (s_uuid c)])"
proof
  obtain c1 where c1: "co_loop (concat (map enc ms) @ []) c = co_loop [] c1" "co_ready c1"
    "nodes c1 = nodes c @ map co_node ms" "s_uuid c1 = s_uuid c"
    "acts c1 = acts c @ map PostMsg [length (nodes c) ..< length (nodes c) + length ms]"
    using co_loop_messages [OF assms(1-3), of "[]"] by blast
  show "\<exists>c'. co_Start (concat (map enc ms)) c = Inr c' \<and> nodes c' = nodes c @ map co_node ms \<and>
      acts c' = acts c @ map PostMsg [length (nodes c) ..< length (nodes c) + length ms] @
        [SocketClose, ClearSession (s_uuid c)]"
    using co_step_end [OF c1(2)] c1 by (auto simp: co_Start_def co_loop.simps [of "[]"])
next
  let ?tail = "enc (mid, []) @ later"
  obtain c1 where c1: "co_loop (concat (map enc ms) @ ?tail) c = co_loop ?tail c1" "co_ready c1"
    "nodes c1 = nodes c @ map co_node ms" "s_uuid c1 = s_uuid c"
    "acts c1 = acts c @ map PostMsg [length (nodes c) ..< length (nodes c) + length ms]"
    using co_loop_messages [OF assms(1-3), of ?tail] by blast
  show "\<exists>c'. co_Start (concat (map enc ms) @ ?tail) c = Inr c' \<and>
      acts c' = acts c @ map PostMsg [length (nodes c) ..< length (nodes c) + length ms] @
        [SocketClose, ClearSession (s_uuid c)]"
    using co_turn_empty [OF c1(2) assms(4), of later] c1
    by (auto simp: co_Start_def co_loop.simps [of ?tail])
qed

definition demo_co :: conn where
  "demo_co = demo_conn\<lparr>s_data := []\<rparr>"

theorem coroutine_reads_stream_witness:
  "(\<exists>c'. co_Start (enc (1001, [104, 105]) @ enc (7, [1])) demo_co = Inr c' \<and>
      acts c' = [PostMsg 0, PostMsg 1, SocketClose, ClearSession ''u'']) \<and>
   (\<exists>c'. co_Start (enc (1001, [104, 105]) @ enc (7, [1]) @ enc (7, []) @ enc (7, [1])) demo_co = Inr c' \<and>
      acts c' = [PostMsg 0, PostMsg 1, SocketClose, ClearSession ''u''])"
proof -
  have "co_ready demo_co" "good_msg (7, [])"
    "list_all good_msg [(1001, [104, 105]), (7, [1])]"
    "list_all (\<lambda>m. snd m \<noteq> []) [(1001 :: int, [104, 105 :: byte]), (7, [1])]"
    by (simp_all add: co_ready_def demo_co_def demo_conn_def good_msg_def)
  from coroutine_reads_stream [OF this(1,3,4,2), of "enc (7, [1])"] show ?thesis
    by (auto simp: demo_co_def demo_conn_def upt_rec)
qed

text \<open>
  C12. A header with length -1 overflows the heap of the coroutine server: the check lets it
  through, the node gets an empty allocation, and the body read is given \<open>(size_t)(-1)\<close> bytes of
  room, so the very next byte of the peer is written outside it. Any other negative length
  only closes the session.
\<close>

theorem coroutine_negative_length:
  assumes "co_ready c" and "- 32768 \<le> mid" "mid \<le> 2048"
  shows "(rest \<noteq> [] \<longrightarrow> co_Start (be16 mid @ be16 (- 1) @ rest) c = Inl OutOfBounds) \<and>
    (\<forall>len. - 32768 \<le> len \<and> len < - 1 \<longrightarrow>
       (\<exists>c'. co_Start (be16 mid @ be16 len @ rest) c = Inr c' \<and>
          acts c' = acts c @ [SocketClose, ClearSession (s_uuid c)]))"
  using co_turn_negative [OF assms, where rest = rest]
  by (force simp: co_Start_def co_loop.simps [of "be16 mid @ _"])

theorem coroutine_negative_length_witness:
  "co_Start (be16 1001 @ be16 (- 1) @ [65]) demo_co = Inl OutOfBounds"
  using coroutine_negative_length [of demo_co 1001 "[65]"]
  by (simp add: co_ready_def demo_co_def demo_conn_def)

end
