(* ===== verification/Server.thy ===== *)
theory Server
  imports ReadPaths CoSession
begin

text \<open>
  What connects the parts: the servers' session tables and accept loops (\<open>CServer.cpp\<close> of the
  three servers), the pool of event loops (\<open>AsioIOServicePool.cpp\<close>), the strand-bound session of
  the thread-pool server, and the path of a message from the socket to its callback.
\<close>

section \<open>The session of the thread-pool server\<close>

text \<open>
  \<open>src/Network/asyncServer_ThreadPool/src/CSession.cpp\<close> is the session of \<open>asyncServer\<close> with every
  completion handler bound to the session's strand.
\<close>

definition tp_Send :: "byte list \<Rightarrow> int \<Rightarrow> int \<Rightarrow> conn \<Rightarrow> conn res" where
  "tp_Send = Send Strand"

definition tp_Start :: "conn \<Rightarrow> conn res" where
  "tp_Start = Start Strand"

definition tp_HandleRead :: "bool \<Rightarrow> nat \<Rightarrow> conn \<Rightarrow> conn res" where
  "tp_HandleRead = HandleRead Strand"

definition tp_HandleWrite :: "bool \<Rightarrow> conn \<Rightarrow> conn res" where
  "tp_HandleWrite = HandleWrite Strand"

definition tp_HandleReadHead :: "bool \<Rightarrow> nat \<Rightarrow> conn \<Rightarrow> conn res" where
  "tp_HandleReadHead = HandleReadHead Strand"

definition tp_HandleReadMsg :: "bool \<Rightarrow> nat \<Rightarrow> conn \<Rightarrow> conn res" where
  "tp_HandleReadMsg = HandleReadMsg Strand"

section \<open>Accepting and dropping sessions\<close>

record server =
  sessions :: "string set"
  accepts :: nat            \<comment> \<open>\<open>async_accept\<close> operations pending\<close>

definition start_accept :: "server \<Rightarrow> server" where
  "start_accept s = s\<lparr>accepts := accepts s + 1\<rparr>"

definition CServer :: server where
  "CServer = start_accept \<lparr>sessions = {}, accepts = 0\<rparr>"

definition handle_accept :: "string \<Rightarrow> bool \<Rightarrow> server \<Rightarrow> server" where
  "handle_accept uuid error s =
     start_accept (if \<not> error then s\<lparr>sessions := insert uuid (sessions s)\<rparr> else s)"

definition server_ClearSession :: "string \<Rightarrow> server \<Rightarrow> server" where
  "server_ClearSession uuid s = s\<lparr>sessions := sessions s - {uuid}\<rparr>"

text \<open>The coroutine server's handler does not start another accept.\<close>

definition co_StartAccept :: "server \<Rightarrow> server" where
  "co_StartAccept s = s\<lparr>accepts := accepts s + 1\<rparr>"

definition co_CServer :: server where
  "co_CServer = co_StartAccept \<lparr>sessions = {}, accepts = 0\<rparr>"

definition co_HandleAccept :: "string \<Rightarrow> bool \<Rightarrow> server \<Rightarrow> server" where
  "co_HandleAccept uuid error s =
     (if \<not> error then s\<lparr>sessions := insert uuid (sessions s)\<rparr> else s)"

definition co_ClearSession :: "string \<Rightarrow> server \<Rightarrow> server" where
  "co_ClearSession uuid s = s\<lparr>sessions := sessions s - {uuid}\<rparr>"

datatype server_event =
    Accepted string bool    \<comment> \<open>an accept completes, for a session with that id; true on error\<close>
  | Cleared string          \<comment> \<open>a session asks to be dropped\<close>

definition server_exec ::
  "(string \<Rightarrow> bool \<Rightarrow> server \<Rightarrow> server) \<Rightarrow> (string \<Rightarrow> server \<Rightarrow> server) \<Rightarrow>
   server_event \<Rightarrow> server \<Rightarrow> server option" where
  "server_exec acc clr e s = (case e of
     Accepted u err \<Rightarrow> if accepts s = 0 then None else Some (acc u err (s\<lparr>accepts := accepts s - 1\<rparr>))
   | Cleared u \<Rightarrow> Some (clr u s))"

text \<open>The sessions that are still connected after a history of events.\<close>

fun live :: "server_event list \<Rightarrow> string set \<Rightarrow> string set" where
  "live [] us = us"
| "live (Accepted u err # es) us = live es (if err then us else insert u us)"
| "live (Cleared u # es) us = live es (us - {u})"

lemma server_run:
  "accepts s = 1 \<Longrightarrow>
   \<exists>t. run (server_exec handle_accept server_ClearSession) es s = Some t \<and> accepts t = 1 \<and>
     sessions t = live es (sessions s)"
proof (induction es arbitrary: s)
  case Nil
  then show ?case by simp
next
  case (Cons e es)
  have "\<exists>u. server_exec handle_accept server_ClearSession e s = Some u \<and> accepts u = 1 \<and>
      live (e # es) (sessions s) = live es (sessions u)"
    using Cons.prems
    by (cases e) (auto simp: server_exec_def handle_accept_def start_accept_def server_ClearSession_def)
  then obtain u where u: "server_exec handle_accept server_ClearSession e s = Some u"
    "accepts u = 1" "live (e # es) (sessions s) = live es (sessions u)" by blast
  from Cons.IH [OF u(2)] u show ?case by auto
qed

definition accepted_events :: "server_event list \<Rightarrow> nat" where
  "accepted_events es = length (filter (\<lambda>e. case e of Accepted _ _ \<Rightarrow> True | _ \<Rightarrow> False) es)"

lemma co_server_run:
  "run (server_exec co_HandleAccept co_ClearSession) es s = Some t \<Longrightarrow>
   accepted_events es + accepts t = accepts s"
proof (induction es arbitrary: s)
  case Nil
  then show ?case by (simp add: accepted_events_def)
next
  case (Cons e es)
  then obtain u where "server_exec co_HandleAccept co_ClearSession e s = Some u"
    "run (server_exec co_HandleAccept co_ClearSession) es u = Some t"
    by (auto split: option.splits)
  moreover from this(1) have "accepted_events [e] + accepts u = accepts s"
    by (cases e) (auto simp: server_exec_def co_HandleAccept_def co_ClearSession_def
        accepted_events_def split: if_splits)
  moreover have "accepted_events (e # es) = accepted_events [e] + accepted_events es"
    by (simp add: accepted_events_def)
  ultimately show ?case using Cons.IH [of u] by simp
qed

section \<open>The pool of event loops\<close>

record io_pool =
  ioServices :: nat     \<comment> \<open>size of \<open>_ioServices\<close>; its elements are named by their index\<close>
  nextIOService :: nat

definition AsioIOServicePool :: "nat \<Rightarrow> io_pool" where
  "AsioIOServicePool n = \<lparr>ioServices = n, nextIOService = 0\<rparr>"

definition GetIOService :: "io_pool \<Rightarrow> (nat \<times> io_pool) res" where
  "GetIOService p =
     (let service = nextIOService p; p1 = p\<lparr>nextIOService := nextIOService p + 1\<rparr> in
      if service \<ge> ioServices p then Inl OutOfBounds
      else Inr (service, if nextIOService p1 = ioServices p then p1\<lparr>nextIOService := 0\<rparr> else p1))"

fun take_services :: "nat \<Rightarrow> io_pool \<Rightarrow> nat list res" where
  "take_services 0 p = Inr []"
| "take_services (Suc k) p = rbind (GetIOService p) (\<lambda>(i, p1).
     rbind (take_services k p1) (\<lambda>is. Inr (i # is)))"

lemma take_services_from:
  "i < n \<Longrightarrow> take_services k \<lparr>ioServices = n, nextIOService = i\<rparr> =
     Inr (map (\<lambda>j. (i + j) mod n) [0 ..< k])"
proof (induction k arbitrary: i)
  case 0
  then show ?case by simp
next
  case (Suc k)
  have g: "GetIOService \<lparr>ioServices = n, nextIOService = i\<rparr> =
      Inr (i, \<lparr>ioServices = n, nextIOService = Suc i mod n\<rparr>)"
    using Suc.prems by (auto simp: GetIOService_def Let_def)
  have "map (\<lambda>j. (Suc i mod n + j) mod n) [0 ..< k] = map (\<lambda>j. (i + j) mod n) [1 ..< Suc k]"
    by (rule nth_equalityI) (simp_all add: mod_simps del: upt_Suc)
  moreover have "map (\<lambda>j. (i + j) mod n) [0 ..< Suc k] = i # map (\<lambda>j. (i + j) mod n) [1 ..< Suc k]"
    using Suc.prems by (simp add: upt_conv_Cons del: upt_Suc)
  ultimately show ?case
    using Suc by (simp add: g)
qed

section \<open>Properties\<close>

text \<open>
  C11. After any history of accepts and drops the asynchronous server knows exactly the sessions
  that were accepted without error and not dropped since, and has exactly one accept pending,
  so it can always take another connection. The coroutine server's handler never accepts
  again: it takes at most one connection in its life.
\<close>

theorem server_keeps_accepting:
  "(\<exists>t. run (server_exec handle_accept server_ClearSession) es CServer = Some t \<and>
      accepts t = 1 \<and> sessions t = live es {}) \<and>
   (\<forall>t. run (server_exec co_HandleAccept co_ClearSession) es co_CServer = Some t \<longrightarrow>
      accepted_events es \<le> 1)"
  using server_run [of CServer es] co_server_run [of es co_CServer]
  by (fastforce simp: CServer_def start_accept_def co_CServer_def co_StartAccept_def)

theorem server_keeps_accepting_witness:
  "\<exists>t u. run (server_exec handle_accept server_ClearSession)
      [Accepted ''a'' False, Accepted ''b'' False, Cleared ''a''] CServer = Some t \<and>
    sessions t = {''b''} \<and>
    run (server_exec co_HandleAccept co_ClearSession) [Accepted ''a'' False] co_CServer = Some u \<and>
    accepted_events [Accepted ''a'' False] \<le> 1"
proof -
  let ?e1 = "[Accepted ''a'' False, Accepted ''b'' False, Cleared ''a'']"
  obtain u where u: "run (server_exec co_HandleAccept co_ClearSession) [Accepted ''a'' False] co_CServer = Some u"
    by (simp add: co_CServer_def co_StartAccept_def server_exec_def)
  have "live ?e1 {} = {''b''}" by auto
  with u server_keeps_accepting [of ?e1] server_keeps_accepting [of "[Accepted ''a'' False]"]
  show ?thesis by fastforce
qed

text \<open>
  C17. The pool hands out its event loops in turn: the \<open>k\<close>-th request of a pool of \<open>n > 0\<close> loops
  gets loop \<open>k mod n\<close>, so the sessions are spread evenly; a pool of size 0, which
  \<open>hardware_concurrency()\<close> may ask for, is read out of bounds by the first request.
\<close>

theorem pool_round_robin:
  "(0 < n \<longrightarrow> take_services k (AsioIOServicePool n) = Inr (map (\<lambda>j. j mod n) [0 ..< k])) \<and>
   GetIOService (AsioIOServicePool 0) = Inl OutOfBounds"
  using take_services_from [of 0 n k] by (simp add: AsioIOServicePool_def GetIOService_def)

theorem pool_round_robin_witness:
  "take_services 5 (AsioIOServicePool 2) = Inr [0, 1, 0, 1, 0]"
  using pool_round_robin [of 2 5] by (simp add: upt_rec)



end
