(* ===== verification/RingQueue.thy ===== *)
theory RingQueue
  imports Prelude
begin

text \<open>
  The circular queues of \<open>src/Concurrent/day12-circularque\<close>: the locked \<open>CircularQueLk\<close>, the
  spin-locked \<open>CircularQueSeq\<close> and the lock-free \<open>CircularQueLight\<close>. The ring is an array of
  \<open>Cap + 1\<close> slots with a head and a tail index; its contents are the slots from head to tail.
\<close>

section \<open>The ring\<close>

record 'a ring =
  max_size :: nat
  slots :: "'a option list"   \<comment> \<open>\<open>_data\<close>; None is raw storage\<close>
  head :: nat
  tail :: nat

definition CircularQueLk :: "nat \<Rightarrow> 'a ring" where
  "CircularQueLk cap = \<lparr>max_size = cap + 1, slots = replicate (cap + 1) None, head = 0, tail = 0\<rparr>"

definition lk_emplace :: "'a \<Rightarrow> 'a ring \<Rightarrow> bool \<times> 'a ring" where
  "lk_emplace v q =
     (if (tail q + 1) mod max_size q = head q then (False, q)
      else (True, q\<lparr>slots := (slots q)[tail q := Some v], tail := (tail q + 1) mod max_size q\<rparr>))"

definition lk_push :: "'a \<Rightarrow> 'a ring \<Rightarrow> bool \<times> 'a ring" where
  "lk_push v q = lk_emplace v q"

definition lk_pop :: "'a ring \<Rightarrow> 'a option \<times> 'a ring" where
  "lk_pop q =
     (if head q = tail q then (None, q)
      else (slots q ! head q, q\<lparr>head := (head q + 1) mod max_size q\<rparr>))"

text \<open>The destructor: the elements it destroys, with fuel for its loop.\<close>

fun lk_destroy :: "nat \<Rightarrow> 'a ring \<Rightarrow> 'a option list option" where
  "lk_destroy 0 q = None"
| "lk_destroy (Suc k) q =
     (if head q \<noteq> tail q then
        map_option ((#) (slots q ! head q)) (lk_destroy k (q\<lparr>head := (head q + 1) mod max_size q\<rparr>))
      else Some [])"

section \<open>Contents\<close>

definition ring_size :: "'a ring \<Rightarrow> nat" where
  "ring_size q = (if head q \<le> tail q then tail q - head q else tail q + max_size q - head q)"

definition ring_list :: "'a ring \<Rightarrow> 'a list" where
  "ring_list q = map (\<lambda>i. the (slots q ! ((head q + i) mod max_size q))) [0 ..< ring_size q]"

definition ring_wf :: "nat \<Rightarrow> 'a ring \<Rightarrow> bool" where
  "ring_wf cap q \<longleftrightarrow> max_size q = cap + 1 \<and> length (slots q) = max_size q \<and>
     head q < max_size q \<and> tail q < max_size q \<and>
     (\<forall>i < ring_size q. slots q ! ((head q + i) mod max_size q) \<noteq> None)"

lemma length_ring_list [ring_simps]: "length (ring_list q) = ring_size q"
  by (simp add: ring_list_def)

lemma mod_wrap [ring_simps]:
  "h < m \<Longrightarrow> i \<le> m \<Longrightarrow> (h + i) mod m = (if h + i < m then h + i else h + i - m)" for h :: nat
  by (cases "h + i < m") (simp_all add: le_mod_geq)

lemma suc_mod [ring_simps]: "t < m \<Longrightarrow> Suc t mod m = (if Suc t = m then 0 else Suc t)" for t :: nat
  by auto

lemma ring_index:
  assumes "head q < max_size q" "tail q < max_size q"
  shows "i < ring_size q \<Longrightarrow> (head q + i) mod max_size q \<noteq> tail q"
    and "(head q + ring_size q) mod max_size q = tail q"
    and "ring_size q < max_size q"
proof -
  show l: "ring_size q < max_size q" using assms by (auto simp: ring_size_def)
  show "(head q + ring_size q) mod max_size q = tail q"
    using assms by (cases "head q \<le> tail q") (simp_all add: ring_size_def)
  show "(head q + i) mod max_size q \<noteq> tail q" if i: "i < ring_size q"
  proof -
    have "(head q + i) mod max_size q =
        (if head q + i < max_size q then head q + i else head q + i - max_size q)"
      using assms l i by (intro mod_wrap) simp_all
    then show ?thesis
      using i assms by (auto simp: ring_size_def split: if_splits)
  qed
qed

lemma ring_full_iff:
  "ring_wf cap q \<Longrightarrow> Suc (tail q) mod max_size q = head q \<longleftrightarrow> ring_size q = cap"
  by (auto simp: ring_wf_def ring_size_def suc_mod split: if_splits)

lemma ring_empty_iff: "ring_wf cap q \<Longrightarrow> head q = tail q \<longleftrightarrow> ring_list q = []"
  by (auto simp: ring_wf_def ring_list_def ring_size_def)

text \<open>Storing in the free slot at the tail, and moving the indices.\<close>

lemma ring_store:
  assumes "ring_wf cap q"
  shows "ring_wf cap (q\<lparr>slots := (slots q)[tail q := v]\<rparr>)"
    and "ring_list (q\<lparr>slots := (slots q)[tail q := v]\<rparr>) = ring_list q"
proof -
  have s: "ring_size (q\<lparr>slots := (slots q)[tail q := v]\<rparr>) = ring_size q"
    by (simp add: ring_size_def)
  have n: "(slots q)[tail q := v] ! ((head q + i) mod max_size q) = slots q ! ((head q + i) mod max_size q)"
    if "i < ring_size q" for i
    using ring_index(1) [of q i] assms that by (simp add: ring_wf_def)
  show "ring_wf cap (q\<lparr>slots := (slots q)[tail q := v]\<rparr>)"
    using assms n by (auto simp: ring_wf_def s)
  show "ring_list (q\<lparr>slots := (slots q)[tail q := v]\<rparr>) = ring_list q"
    using n by (simp add: ring_list_def s)
qed

lemma ring_size_push:
  assumes "ring_wf cap q" "ring_size q \<noteq> cap"
  shows "ring_size (q\<lparr>tail := Suc (tail q) mod max_size q\<rparr>) = ring_size q + 1"
  using assms by (auto simp: ring_wf_def ring_size_def suc_mod split: if_splits)

lemma ring_advance_tail:
  assumes q: "ring_wf cap q" and f: "ring_size q \<noteq> cap" and v: "slots q ! tail q = Some v"
  shows "ring_wf cap (q\<lparr>tail := Suc (tail q) mod max_size q\<rparr>)"
    and "ring_list (q\<lparr>tail := Suc (tail q) mod max_size q\<rparr>) = ring_list q @ [v]"
proof -
  note s = ring_size_push [OF q f]
  have i: "(head q + ring_size q) mod max_size q = tail q"
    using q by (intro ring_index) (simp_all add: ring_wf_def)
  show "ring_wf cap (q\<lparr>tail := Suc (tail q) mod max_size q\<rparr>)"
  proof -
    have "slots q ! ((head q + j) mod max_size q) \<noteq> None" if "j < Suc (ring_size q)" for j
      using that q v i by (cases "j = ring_size q") (auto simp: ring_wf_def)
    then show ?thesis using q s by (simp add: ring_wf_def)
  qed
  show "ring_list (q\<lparr>tail := Suc (tail q) mod max_size q\<rparr>) = ring_list q @ [v]"
    using s v i by (simp add: ring_list_def)
qed

lemma ring_size_pop:
  assumes "ring_wf cap q" "head q \<noteq> tail q"
  shows "ring_size q = Suc (ring_size (q\<lparr>head := Suc (head q) mod max_size q\<rparr>))"
  using assms by (auto simp: ring_wf_def ring_size_def suc_mod split: if_splits)

lemma ring_advance_head:
  assumes q: "ring_wf cap q" and ne: "head q \<noteq> tail q"
  shows "ring_wf cap (q\<lparr>head := Suc (head q) mod max_size q\<rparr>)"
    and "\<exists>v. slots q ! head q = Some v \<and>
      ring_list q = v # ring_list (q\<lparr>head := Suc (head q) mod max_size q\<rparr>)"
proof -
  note s = ring_size_pop [OF q ne]
  have m: "(Suc (head q) mod max_size q + i) mod max_size q = (head q + Suc i) mod max_size q" for i
    by (simp add: mod_simps)
  have h: "head q mod max_size q = head q" using q by (simp add: ring_wf_def)
  show "ring_wf cap (q\<lparr>head := Suc (head q) mod max_size q\<rparr>)"
    using q m s unfolding ring_wf_def by (auto simp del: add_Suc_right)
  obtain v where "slots q ! head q = Some v"
    using q s h unfolding ring_wf_def by (metis add.right_neutral not_None_eq zero_less_Suc)
  moreover have "ring_list q = the (slots q ! head q) #
      ring_list (q\<lparr>head := Suc (head q) mod max_size q\<rparr>)"
    unfolding ring_list_def s using m h
    by (simp add: upt_conv_Cons flip: map_Suc_upt del: upt_Suc add_Suc_right)
  ultimately show "\<exists>v. slots q ! head q = Some v \<and>
      ring_list q = v # ring_list (q\<lparr>head := Suc (head q) mod max_size q\<rparr>)" by simp
qed

lemma lk_push_room:
  assumes "ring_wf cap q" "ring_size q \<noteq> cap" "lk_push x q = (b, t)"
  shows "b \<and> ring_wf cap t \<and> ring_list t = ring_list q @ [x]"
proof -
  let ?q = "q\<lparr>slots := (slots q)[tail q := Some x]\<rparr>"
  have "ring_size ?q = ring_size q" by (simp add: ring_size_def)
  moreover have "slots ?q ! tail ?q = Some x" using assms(1) by (simp add: ring_wf_def)
  ultimately show ?thesis
    using ring_advance_tail [of cap ?q x] ring_store [OF assms(1), of "Some x"] assms
    by (auto simp: lk_push_def lk_emplace_def ring_full_iff)
qed

interpretation lk: fifo "\<lambda>n. n = cap" "ring_wf cap" ring_list lk_push lk_pop for cap
proof
  fix s t :: "'a ring" and x b v xs
  assume w: "ring_wf cap s"
  show "\<not> length (ring_list s) = cap \<Longrightarrow> lk_push x s = (b, t) \<Longrightarrow>
      b \<and> ring_wf cap t \<and> ring_list t = ring_list s @ [x]"
    using lk_push_room [OF w, of x b t] by (simp add: length_ring_list)
  show "length (ring_list s) = cap \<Longrightarrow> lk_push x s = (b, t) \<Longrightarrow>
      \<not> b \<and> ring_wf cap t \<and> ring_list t = ring_list s"
    using w ring_full_iff [OF w] by (auto simp: lk_push_def lk_emplace_def length_ring_list)
  show "ring_list s = [] \<Longrightarrow> lk_pop s = (v, t) \<Longrightarrow> v = None \<and> ring_wf cap t \<and> ring_list t = []"
    using w ring_empty_iff [OF w] by (auto simp: lk_pop_def)
  show "ring_list s = x # xs \<Longrightarrow> lk_pop s = (v, t) \<Longrightarrow> v = Some x \<and> ring_wf cap t \<and> ring_list t = xs"
    using ring_empty_iff [OF w] ring_advance_head [OF w] by (auto simp: lk_pop_def split: if_splits)
qed

lemma lk_destroy_enough:
  "ring_wf cap q \<Longrightarrow> ring_size q < k \<Longrightarrow> lk_destroy k q = Some (map Some (ring_list q))"
proof (induction k arbitrary: q)
  case 0
  then show ?case by simp
next
  case (Suc k)
  show ?case
  proof (cases "head q = tail q")
    case True
    with Suc.prems show ?thesis by (simp add: ring_list_def ring_size_def)
  next
    case False
    let ?q = "q\<lparr>head := Suc (head q) mod max_size q\<rparr>"
    have "lk_destroy k ?q = Some (map Some (ring_list ?q))"
      using Suc.prems ring_size_pop [OF Suc.prems(1) False] ring_advance_head(1) [OF Suc.prems(1) False]
      by (intro Suc.IH) simp_all
    with False ring_advance_head(2) [OF Suc.prems(1) False] show ?thesis by auto
  qed
qed

lemma ring_init: "ring_wf cap (CircularQueLk cap) \<and> ring_list (CircularQueLk cap) = []"
  by (simp add: CircularQueLk_def ring_wf_def ring_list_def ring_size_def)

section \<open>The spin-locked queue\<close>

text \<open>
  \<open>CircularQueSeq\<close> protects the same ring by an atomic flag: every operation spins on a
  compare-exchange from false to true, works, and compare-exchanges back. The threads are
  numbered; each memory access between two of them is a step.
\<close>

datatype 'a seq_pc =
    Idle
  | Acquire "'a qop"
  | PushCheck 'a | PushStore 'a | PushAdvance 'a
  | PopCheck | PopRead | PopAdvance "'a option"
  | Release "'a qres"

record 'a seq_queue =
  seq_ring :: "'a ring"
  atomic_using :: bool
  seq_pc :: "nat \<Rightarrow> 'a seq_pc"
  seq_hist :: "('a qop \<times> 'a qres) list"   \<comment> \<open>ghost: operations at their effect\<close>

definition CircularQueSeq :: "nat \<Rightarrow> 'a seq_queue" where
  "CircularQueSeq cap = \<lparr>seq_ring = CircularQueLk cap, atomic_using = False,
     seq_pc = (\<lambda>_. Idle), seq_hist = []\<rparr>"

definition seq_at :: "nat \<Rightarrow> 'a seq_pc \<Rightarrow> 'a seq_queue \<Rightarrow> 'a seq_queue" where
  "seq_at i p s = s\<lparr>seq_pc := (seq_pc s)(i := p)\<rparr>"

definition seq_log :: "'a qop \<Rightarrow> 'a qres \<Rightarrow> 'a seq_queue \<Rightarrow> 'a seq_queue" where
  "seq_log c r s = s\<lparr>seq_hist := seq_hist s @ [(c, r)]\<rparr>"

text \<open>\<open>compare_exchange_strong\<close> on the flag.\<close>

definition seq_cas :: "bool \<Rightarrow> bool \<Rightarrow> 'a seq_queue \<Rightarrow> bool \<times> 'a seq_queue" where
  "seq_cas expected desired s =
     (if atomic_using s = expected then (True, s\<lparr>atomic_using := desired\<rparr>) else (False, s))"

datatype 'a seq_event = Call nat "'a qop" | Step nat

fun seq_entry :: "'a qop \<Rightarrow> 'a seq_pc" where
  "seq_entry (QPush v) = PushCheck v"
| "seq_entry QPop = PopCheck"

definition seq_step :: "nat \<Rightarrow> 'a seq_queue \<Rightarrow> 'a seq_queue option" where
  "seq_step i s = (let q = seq_ring s in
     case seq_pc s i of
       Idle \<Rightarrow> None
     | Acquire c \<Rightarrow> (case seq_cas False True s of
           (True, t) \<Rightarrow> Some (seq_at i (seq_entry c) t)
         | (False, t) \<Rightarrow> Some t)
     | PushCheck v \<Rightarrow>
         if (tail q + 1) mod max_size q = head q
         then Some (seq_log (QPush v) (Pushed False) (seq_at i (Release (Pushed False)) s))
         else Some (seq_at i (PushStore v) s)
     | PushStore v \<Rightarrow>
         Some (seq_at i (PushAdvance v) (s\<lparr>seq_ring := q\<lparr>slots := (slots q)[tail q := Some v]\<rparr>\<rparr>))
     | PushAdvance v \<Rightarrow>
         Some (seq_log (QPush v) (Pushed True) (seq_at i (Release (Pushed True))
           (s\<lparr>seq_ring := q\<lparr>tail := (tail q + 1) mod max_size q\<rparr>\<rparr>)))
     | PopCheck \<Rightarrow>
         if head q = tail q
         then Some (seq_log QPop (Popped None) (seq_at i (Release (Popped None)) s))
         else Some (seq_at i PopRead s)
     | PopRead \<Rightarrow> Some (seq_at i (PopAdvance (slots q ! head q)) s)
     | PopAdvance v \<Rightarrow>
         Some (seq_log QPop (Popped v) (seq_at i (Release (Popped v))
           (s\<lparr>seq_ring := q\<lparr>head := (head q + 1) mod max_size q\<rparr>\<rparr>)))
     | Release r \<Rightarrow> (case seq_cas True False s of
           (True, t) \<Rightarrow> Some (seq_at i Idle t)
         | (False, t) \<Rightarrow> Some t))"

fun seq_exec :: "'a seq_event \<Rightarrow> 'a seq_queue \<Rightarrow> 'a seq_queue option" where
  "seq_exec (Call i c) s = (if seq_pc s i = Idle then Some (seq_at i (Acquire c) s) else None)"
| "seq_exec (Step i) s = seq_step i s"

text \<open>
  The flag is set exactly while some thread is inside, at most one is, and the operations so
  far had the answers of the queue of the specification, whose contents the ring has now.
\<close>

definition inside :: "'a seq_pc \<Rightarrow> bool" where
  "inside p \<longleftrightarrow> (case p of Idle \<Rightarrow> False | Acquire _ \<Rightarrow> False | _ \<Rightarrow> True)"

definition seq_local :: "nat \<Rightarrow> 'a seq_queue \<Rightarrow> 'a seq_pc \<Rightarrow> bool" where
  "seq_local cap s p \<longleftrightarrow> (let q = seq_ring s in case p of
     PushStore v \<Rightarrow> ring_size q \<noteq> cap
   | PushAdvance v \<Rightarrow> ring_size q \<noteq> cap \<and> slots q ! tail q = Some v
   | PopRead \<Rightarrow> head q \<noteq> tail q
   | PopAdvance v \<Rightarrow> head q \<noteq> tail q \<and> v = slots q ! head q
   | _ \<Rightarrow> True)"

definition seq_inv :: "nat \<Rightarrow> 'a seq_queue \<Rightarrow> bool" where
  "seq_inv cap s \<longleftrightarrow> ring_wf cap (seq_ring s) \<and>
     (\<forall>i. inside (seq_pc s i) \<longrightarrow> atomic_using s) \<and>
     (\<forall>i j. inside (seq_pc s i) \<and> inside (seq_pc s j) \<longrightarrow> i = j) \<and>
     (\<forall>i. seq_local cap s (seq_pc s i)) \<and>
     spec_ops (\<lambda>n. n = cap) (map fst (seq_hist s)) [] = (map snd (seq_hist s), ring_list (seq_ring s))"

lemma seq_outside: "\<not> inside p \<Longrightarrow> seq_local cap s p"
  by (auto simp: inside_def seq_local_def Let_def split: seq_pc.splits)

lemma seq_inv_inside:
  assumes s: "seq_inv cap s" and i: "inside (seq_pc s i)"
    and t: "seq_pc t = (seq_pc s)(i := p)" "atomic_using t = atomic_using s" "inside p"
    and q: "ring_wf cap (seq_ring t)" "seq_local cap t p"
      "spec_ops (\<lambda>n. n = cap) (map fst (seq_hist t)) [] = (map snd (seq_hist t), ring_list (seq_ring t))"
  shows "seq_inv cap t"
proof -
  have "seq_local cap t (seq_pc t j)" for j
    using s i t q(2) seq_outside [of "seq_pc t j"] by (cases "j = i") (auto simp: seq_inv_def)
  with s i t q show ?thesis
    by (auto simp: seq_inv_def)
qed

lemma seq_inv_call:
  assumes s: "seq_inv cap s" and t: "seq_exec (Call i c) s = Some t"
  shows "seq_inv cap t"
proof -
  have "seq_local cap t p = seq_local cap s p" for p
    using t by (auto simp: seq_local_def seq_at_def split: if_splits)
  with s t show ?thesis
    by (auto simp: seq_inv_def seq_at_def inside_def seq_local_def Let_def split: if_splits)
qed

lemma seq_inv_acquire:
  assumes s: "seq_inv cap s" and p: "seq_pc s i = Acquire c" and t: "seq_step i s = Some t"
  shows "seq_inv cap t"
proof (cases "atomic_using s")
  case True
  with assms show ?thesis by (simp add: seq_step_def seq_cas_def)
next
  case False
  then have t: "t = seq_at i (seq_entry c) (s\<lparr>atomic_using := True\<rparr>)"
    using p t by (simp add: seq_step_def seq_cas_def)
  have out: "\<not> inside (seq_pc s j)" for j using s False by (auto simp: seq_inv_def)
  have e: "seq_local cap t (seq_entry c)" "seq_local cap t = seq_local cap s"
    using t by (cases c; simp add: seq_local_def seq_at_def fun_eq_iff)+
  have "seq_local cap t (seq_pc t j)" for j
    using e s t by (cases "j = i") (auto simp: seq_inv_def seq_at_def)
  with s t out show ?thesis
    by (auto simp: seq_inv_def seq_at_def)
qed

lemma seq_inv_outside:
  assumes "seq_inv cap s" "seq_ring t = seq_ring s" "seq_hist t = seq_hist s"
    "\<And>j. \<not> inside (seq_pc t j)"
  shows "seq_inv cap t"
  using assms seq_outside [of _ cap t] by (simp add: seq_inv_def)

lemma seq_inv_release:
  assumes s: "seq_inv cap s" and p: "seq_pc s i = Release r" and t: "seq_step i s = Some t"
  shows "seq_inv cap t"
proof -
  have i: "inside (seq_pc s i)" using p by (simp add: inside_def)
  then have "atomic_using s" using s by (auto simp: seq_inv_def)
  then have t: "t = seq_at i Idle (s\<lparr>atomic_using := False\<rparr>)"
    using p t by (simp add: seq_step_def seq_cas_def)
  have out: "\<not> inside (seq_pc t j)" for j
    using s i t by (cases "j = i") (auto simp: seq_inv_def seq_at_def inside_def)
  show ?thesis
    by (rule seq_inv_outside [OF s _ _ out]) (simp_all add: t seq_at_def)
qed

lemma seq_inv_step:
  assumes s: "seq_inv cap s" and t: "seq_step i s = Some t"
  shows "seq_inv cap t"
proof -
  let ?q = "seq_ring s"
  have w: "ring_wf cap ?q" and l: "seq_local cap s (seq_pc s i)"
    and h: "spec_ops (\<lambda>n. n = cap) (map fst (seq_hist s)) [] = (map snd (seq_hist s), ring_list ?q)"
    using s by (simp_all add: seq_inv_def)
  note inside = seq_inv_inside [OF s]
  note simps = seq_step_def seq_at_def seq_log_def inside_def seq_local_def Let_def spec_ops_snoc h
    length_ring_list
  show ?thesis
  proof (cases "seq_pc s i")
    case Idle
    with t show ?thesis by (simp add: seq_step_def Let_def)
  next
    case (Acquire c)
    from seq_inv_acquire [OF s this t] show ?thesis .
  next
    case (PushCheck v)
    show ?thesis
    proof (cases "ring_size ?q = cap")
      case True
      then have "t = seq_log (QPush v) (Pushed False) (seq_at i (Release (Pushed False)) s)"
        using PushCheck t ring_full_iff [OF w] by (simp add: seq_step_def Let_def)
      with PushCheck w True show ?thesis
        by (intro inside [of i t "Release (Pushed False)"]) (simp_all add: simps)
    next
      case False
      with PushCheck t w ring_full_iff [OF w] show ?thesis
        by (intro inside [of i t "PushStore v"]) (auto simp: simps)
    qed
  next
    case (PushStore v)
    let ?q' = "?q\<lparr>slots := (slots ?q)[tail ?q := Some v]\<rparr>"
    have "t = seq_at i (PushAdvance v) (s\<lparr>seq_ring := ?q'\<rparr>)"
      using PushStore t by (simp add: seq_step_def Let_def)
    moreover have "ring_size ?q' = ring_size ?q" "tail ?q < length (slots ?q)"
      using w by (simp_all add: ring_size_def ring_wf_def)
    ultimately show ?thesis
      using PushStore l ring_store [OF w, of "Some v"]
      by (intro inside [of i t "PushAdvance v"]) (simp_all add: simps)
  next
    case (PushAdvance v)
    then have "t = seq_log (QPush v) (Pushed True) (seq_at i (Release (Pushed True))
           (s\<lparr>seq_ring := ?q\<lparr>tail := (tail ?q + 1) mod max_size ?q\<rparr>\<rparr>))"
      using t by (simp add: seq_step_def Let_def)
    moreover have "ring_size ?q \<noteq> cap" "slots ?q ! tail ?q = Some v"
      using l PushAdvance by (simp_all add: seq_local_def Let_def)
    ultimately show ?thesis
      using PushAdvance ring_advance_tail [OF w, of v]
      by (intro inside [of i t "Release (Pushed True)"]) (simp_all add: simps)
  next
    case PopCheck
    show ?thesis
    proof (cases "head ?q = tail ?q")
      case True
      with PopCheck t w ring_empty_iff [OF w] show ?thesis
        by (intro inside [of i t "Release (Popped None)"]) (auto simp: simps)
    next
      case False
      with PopCheck t w show ?thesis
        by (intro inside [of i t PopRead]) (auto simp: simps)
    qed
  next
    case PopRead
    then show ?thesis
      using t w l
      by (intro inside [of i t "PopAdvance (slots ?q ! head ?q)"]) (auto simp: simps)
  next
    case (PopAdvance v)
    then have "t = seq_log QPop (Popped v) (seq_at i (Release (Popped v))
           (s\<lparr>seq_ring := ?q\<lparr>head := (head ?q + 1) mod max_size ?q\<rparr>\<rparr>))"
      using t by (simp add: seq_step_def Let_def)
    moreover have "head ?q \<noteq> tail ?q" "v = slots ?q ! head ?q"
      using l PopAdvance by (simp_all add: seq_local_def Let_def)
    moreover obtain x where "slots ?q ! head ?q = Some x"
      "ring_list ?q = x # ring_list (?q\<lparr>head := Suc (head ?q) mod max_size ?q\<rparr>)"
      using ring_advance_head(2) [OF w] calculation by blast
    ultimately show ?thesis
      using PopAdvance ring_advance_head(1) [OF w]
      by (intro inside [of i t "Release (Popped v)"]) (simp_all add: simps)
  next
    case (Release r)
    from seq_inv_release [OF s this t] show ?thesis .
  qed
qed

lemma seq_inv_exec: "seq_inv cap s \<Longrightarrow> seq_exec e s = Some t \<Longrightarrow> seq_inv cap t"
  by (cases e) (auto dest: seq_inv_step seq_inv_call simp del: seq_exec.simps(1))

interpretation seq: inv_machine seq_exec "seq_inv cap" for cap
  by unfold_locales (rule seq_inv_exec)

lemma seq_init: "seq_inv cap (CircularQueSeq cap)"
  using conjunct1 [OF ring_init [of cap]] conjunct2 [OF ring_init [of cap], symmetric]
  by (simp add: seq_inv_def CircularQueSeq_def inside_def seq_local_def Let_def)

section \<open>Properties\<close>

text \<open>
  C17. The locked circular queue of capacity \<open>cap\<close> gives every sequence of pushes and pops the
  answers of a FIFO queue bounded by \<open>cap\<close>, although it keeps only two indices into its array;
  and its destructor then destroys exactly the elements still inside.
\<close>

theorem circular_queue_fifo:
  "impl_ops lk_push lk_pop cs (CircularQueLk cap) = (rs, q :: 'a ring) \<Longrightarrow>
   spec_ops (\<lambda>n. n = cap) cs [] = (rs, ring_list q) \<and>
   lk_destroy (cap + 1) q = Some (map Some (ring_list q))"
proof -
  assume r: "impl_ops lk_push lk_pop cs (CircularQueLk cap) = (rs, q)"
  have i: "ring_wf cap (CircularQueLk cap :: 'a ring)" "ring_list (CircularQueLk cap :: 'a ring) = []"
    using ring_init by auto
  have q: "ring_wf cap q \<and> spec_ops (\<lambda>n. n = cap) cs (ring_list (CircularQueLk cap)) = (rs, ring_list q)"
    using lk.ops_refine [OF i(1) r] .
  then have "ring_size q < cap + 1"
    using ring_index(3) [of q] by (simp add: ring_wf_def)
  with q i lk_destroy_enough [of cap q "cap + 1"] show ?thesis by (simp del: lk_destroy.simps)
qed

theorem circular_queue_fifo_witness:
  "\<exists>rs q. impl_ops lk_push lk_pop [QPush 1, QPush 2, QPush 3, QPop, QPush 3] (CircularQueLk 2) = (rs, q) \<and>
    rs = [Pushed True, Pushed True, Pushed False, Popped (Some (1 :: nat)), Pushed True] \<and>
    ring_list q = [2, 3]"
proof -
  let ?cs = "[QPush 1, QPush 2, QPush (3 :: nat), QPop, QPush 3]"
  obtain rs q where r: "impl_ops lk_push lk_pop ?cs (CircularQueLk 2) = (rs, q)" by fastforce
  from circular_queue_fifo [OF r] r show ?thesis by auto
qed

text \<open>
  C8. The spin-locked circular queue: in every interleaving of any number of threads at most one
  is inside the queue, and the operations, in the order of their effects, got exactly the
  answers of a FIFO queue bounded by the capacity.
\<close>

theorem spin_queue_linearizable:
  assumes "run seq_exec es (CircularQueSeq cap) = Some s"
  shows "(\<forall>i j. inside (seq_pc s i) \<and> inside (seq_pc s j) \<longrightarrow> i = j) \<and>
    spec_ops (\<lambda>n. n = cap) (map fst (seq_hist s)) [] = (map snd (seq_hist s), ring_list (seq_ring s))"
  using seq.run_inv [OF seq_init assms] by (simp add: seq_inv_def)

theorem spin_queue_linearizable_witness:
  "\<exists>s. run seq_exec [Call 0 (QPush (1 :: nat)), Call 1 QPop, Step 0, Step 1, Step 0, Step 0, Step 0, Step 0,
      Step 1, Step 1, Step 1, Step 1] (CircularQueSeq 2) = Some s \<and>
    seq_hist s = [(QPush 1, Pushed True), (QPop, Popped (Some 1))] \<and>
    spec_ops (\<lambda>n. n = 2) [QPush 1, QPop] [] = ([Pushed True, Popped (Some 1)], ring_list (seq_ring s))"
proof -
  let ?es = "[Call 0 (QPush (1 :: nat)), Call 1 QPop, Step 0, Step 1, Step 0, Step 0, Step 0, Step 0,
      Step 1, Step 1, Step 1, Step 1]"
  obtain s where s: "run seq_exec ?es (CircularQueSeq 2) = Some s"
    "seq_hist s = [(QPush 1, Pushed True), (QPop, Popped (Some 1))]"
    by (simp add: CircularQueSeq_def CircularQueLk_def seq_step_def seq_at_def seq_log_def seq_cas_def Let_def)
  from spin_queue_linearizable [OF s(1)] s show ?thesis by simp
qed

end
