(* ===== verification/LightQueue.thy ===== *)
theory LightQueue
  imports RingQueue "HOL-Library.Sublist"
begin

text \<open>
  The lock-free circular queue \<open>CircularQueLight\<close> of \<open>src/Concurrent/day12-circularque\<close>
  (\<open>CircularQueSync\<close> is the same code with weaker memory orders): every atomic access is one step
  of its thread, in a sequentially consistent interleaving. With one producer and one consumer
  it is a FIFO queue; with more threads the compare-exchange on an index that has wrapped
  around lets an element be popped twice and another be lost.
\<close>

section \<open>The machine\<close>

datatype 'a light_pc =
    LIdle
  | LPop                 \<comment> \<open>\<open>h = _head.load()\<close>\<close>
  | LPopTail nat         \<comment> \<open>\<open>h == _tail.load()\<close>\<close>
  | LPopUpdate nat       \<comment> \<open>\<open>h == _tail_update.load()\<close>\<close>
  | LPopRead nat         \<comment> \<open>\<open>val = _data[h]\<close>\<close>
  | LPopCas nat "'a option"
  | LPush 'a             \<comment> \<open>\<open>t = _tail.load()\<close>\<close>
  | LPushHead nat 'a     \<comment> \<open>\<open>(t + 1) % _max_size == _head.load()\<close>\<close>
  | LPushCas nat 'a
  | LPushStore nat 'a    \<comment> \<open>\<open>_data[t] = val\<close>\<close>
  | LPushUpdate nat      \<comment> \<open>the loop on \<open>_tail_update\<close>\<close>

record 'a light =
  lring :: "'a ring"
  tail_upd :: nat
  lpc :: "nat \<Rightarrow> 'a light_pc"
  claimed :: "'a list"            \<comment> \<open>ghost: values of the successful pushes, by tail slot\<close>
  updated :: nat                  \<comment> \<open>ghost: how many of them are stored\<close>
  popped :: "'a option list"      \<comment> \<open>ghost: what the successful pops returned\<close>

definition CircularQueLight :: "nat \<Rightarrow> 'a light" where
  "CircularQueLight cap = \<lparr>lring = CircularQueLk cap, tail_upd = 0, lpc = (\<lambda>_. LIdle),
     claimed = [], updated = 0, popped = []\<rparr>"

definition at_pc :: "nat \<Rightarrow> 'a light_pc \<Rightarrow> 'a light \<Rightarrow> 'a light" where
  "at_pc i p s = s\<lparr>lpc := (lpc s)(i := p)\<rparr>"

definition light_pop_step :: "nat \<Rightarrow> 'a light \<Rightarrow> 'a light option" where
  "light_pop_step i s = (let q = lring s in
     case lpc s i of
       LPop \<Rightarrow> Some (at_pc i (LPopTail (head q)) s)
     | LPopTail h \<Rightarrow> Some (at_pc i (if h = tail q then LIdle else LPopUpdate h) s)
     | LPopUpdate h \<Rightarrow> Some (at_pc i (if h = tail_upd s then LIdle else LPopRead h) s)
     | LPopRead h \<Rightarrow> Some (at_pc i (LPopCas h (slots q ! h)) s)
     | LPopCas h v \<Rightarrow>
         if head q = h
         then Some (at_pc i LIdle (s\<lparr>lring := q\<lparr>head := (h + 1) mod max_size q\<rparr>,
                popped := popped s @ [v]\<rparr>))
         else Some (at_pc i LPop s)
     | _ \<Rightarrow> None)"

definition light_push_step :: "nat \<Rightarrow> 'a light \<Rightarrow> 'a light option" where
  "light_push_step i s = (let q = lring s in
     case lpc s i of
       LPush v \<Rightarrow> Some (at_pc i (LPushHead (tail q) v) s)
     | LPushHead t v \<Rightarrow>
         Some (at_pc i (if (t + 1) mod max_size q = head q then LIdle else LPushCas t v) s)
     | LPushCas t v \<Rightarrow>
         if tail q = t
         then Some (at_pc i (LPushStore t v) (s\<lparr>lring := q\<lparr>tail := (t + 1) mod max_size q\<rparr>,
                claimed := claimed s @ [v]\<rparr>))
         else Some (at_pc i (LPush v) s)
     | LPushStore t v \<Rightarrow>
         Some (at_pc i (LPushUpdate t) (s\<lparr>lring := q\<lparr>slots := (slots q)[t := Some v]\<rparr>\<rparr>))
     | LPushUpdate t \<Rightarrow>
         if tail_upd s = t
         then Some (at_pc i LIdle (s\<lparr>tail_upd := (t + 1) mod max_size q, updated := updated s + 1\<rparr>))
         else Some s
     | _ \<Rightarrow> None)"

datatype 'a light_event = CallPush nat 'a | CallPop nat | StepPush nat | StepPop nat

fun light_exec :: "'a light_event \<Rightarrow> 'a light \<Rightarrow> 'a light option" where
  "light_exec (CallPush i v) s = (if lpc s i = LIdle then Some (at_pc i (LPush v) s) else None)"
| "light_exec (CallPop i) s = (if lpc s i = LIdle then Some (at_pc i LPop s) else None)"
| "light_exec (StepPush i) s = light_push_step i s"
| "light_exec (StepPop i) s = light_pop_step i s"

section \<open>One producer and one consumer\<close>

text \<open>Thread 0 pushes, thread 1 pops.\<close>

fun spsc :: "'a light_event \<Rightarrow> bool" where
  "spsc (CallPush i v) = (i = 0)"
| "spsc (CallPop i) = (i = 1)"
| "spsc (StepPush i) = (i = 0)"
| "spsc (StepPop i) = (i = 1)"

text \<open>
  With \<open>T\<close> values claimed, \<open>U\<close> of them stored and \<open>H\<close> popped, the indices are these counts modulo
  the size.
\<close>

definition light_shared :: "nat \<Rightarrow> 'a light \<Rightarrow> bool" where
  "light_shared cap s \<longleftrightarrow> (let q = lring s; T = length (claimed s); U = updated s; H = length (popped s) in
     max_size q = cap + 1 \<and> length (slots q) = cap + 1 \<and>
     head q = H mod (cap + 1) \<and> tail q = T mod (cap + 1) \<and> tail_upd s = U mod (cap + 1) \<and>
     H \<le> U \<and> U \<le> T \<and> T \<le> H + cap \<and>
     (\<forall>k. H \<le> k \<and> k < U \<longrightarrow> slots q ! (k mod (cap + 1)) = Some (claimed s ! k)) \<and>
     popped s = map Some (take H (claimed s)))"

definition producer_ok :: "nat \<Rightarrow> 'a light \<Rightarrow> 'a light_pc \<Rightarrow> bool" where
  "producer_ok cap s p \<longleftrightarrow>
     (let T = length (claimed s); U = updated s; H = length (popped s) in
      case p of
        LIdle \<Rightarrow> T = U
      | LPush v \<Rightarrow> T = U
      | LPushHead t v \<Rightarrow> T = U \<and> t = T mod (cap + 1)
      | LPushCas t v \<Rightarrow> T = U \<and> t = T mod (cap + 1) \<and> T < H + cap
      | LPushStore t v \<Rightarrow> T = U + 1 \<and> t = U mod (cap + 1) \<and> claimed s ! U = v
      | LPushUpdate t \<Rightarrow> T = U + 1 \<and> t = U mod (cap + 1) \<and> slots (lring s) ! t = Some (claimed s ! U)
      | _ \<Rightarrow> False)"

definition consumer_ok :: "nat \<Rightarrow> 'a light \<Rightarrow> 'a light_pc \<Rightarrow> bool" where
  "consumer_ok cap s p \<longleftrightarrow>
     (let U = updated s; H = length (popped s) in
      case p of
        LIdle \<Rightarrow> True
      | LPop \<Rightarrow> True
      | LPopTail h \<Rightarrow> h = H mod (cap + 1)
      | LPopUpdate h \<Rightarrow> h = H mod (cap + 1)
      | LPopRead h \<Rightarrow> h = H mod (cap + 1) \<and> H < U
      | LPopCas h v \<Rightarrow> h = H mod (cap + 1) \<and> H < U \<and> v = Some (claimed s ! H)
      | _ \<Rightarrow> False)"

definition spsc_inv :: "nat \<Rightarrow> 'a light \<Rightarrow> bool" where
  "spsc_inv cap s \<longleftrightarrow> light_shared cap s \<and> producer_ok cap s (lpc s 0) \<and> consumer_ok cap s (lpc s 1)"

lemma mod_neq_near: "k < u \<Longrightarrow> u < k + m \<Longrightarrow> u mod m \<noteq> k mod m" for k u m :: nat
  by (metis add_less_cancel_left le_add_diff_inverse less_imp_le mod_eq_dvd_iff_nat nat_dvd_not_less
      zero_less_diff)

lemma Suc_mod_mod: "(t mod m + 1) mod m = (t + 1) mod m" for t m :: nat
  by (simp add: mod_simps)

lemma light_pc_other [simp]: "j \<noteq> i \<Longrightarrow> lpc (at_pc i p s) j = lpc s j"
  and light_pc_same [simp]: "lpc (at_pc i p s) i = p"
  by (simp_all add: at_pc_def)

lemma at_pc_fields [simp]:
  "lring (at_pc i p s) = lring s" "tail_upd (at_pc i p s) = tail_upd s"
  "claimed (at_pc i p s) = claimed s" "updated (at_pc i p s) = updated s"
  "popped (at_pc i p s) = popped s"
  by (simp_all add: at_pc_def)

lemma at_pc_ok [simp]:
  "light_shared cap (at_pc i p s) = light_shared cap s"
  "producer_ok cap (at_pc i p s) = producer_ok cap s"
  "consumer_ok cap (at_pc i p s) = consumer_ok cap s"
  by (simp_all add: light_shared_def producer_ok_def consumer_ok_def fun_eq_iff Let_def
      split: light_pc.split)

text \<open>The effect of each step on the shared part.\<close>

lemma consumer_step:
  assumes i: "spsc_inv cap s" and t: "light_pop_step 1 s = Some t"
  shows "spsc_inv cap t"
proof -
  let ?m = "cap + 1" and ?H = "length (popped s)" and ?U = "updated s" and ?T = "length (claimed s)"
  have sh: "light_shared cap s" and pr: "producer_ok cap s (lpc s 0)" and co: "consumer_ok cap s (lpc s 1)"
    using i by (simp_all add: spsc_inv_def)
  have hd: "head (lring s) = ?H mod ?m" and le: "?H \<le> ?U" "?U \<le> ?T" "?T \<le> ?H + cap"
    and sz: "max_size (lring s) = ?m"
    and sl: "?H < ?U \<Longrightarrow> slots (lring s) ! (?H mod ?m) = Some (claimed s ! ?H)"
    and pp: "popped s = map Some (take ?H (claimed s))"
    using sh by (simp_all add: light_shared_def Let_def)
  show ?thesis
  proof (cases "lpc s 1")
    case LPop
    then have "t = at_pc 1 (LPopTail (head (lring s))) s"
      using t by (simp add: light_pop_step_def)
    with sh pr hd show ?thesis
      by (simp add: spsc_inv_def) (simp add: consumer_ok_def)
  next
    case (LPopTail h)
    then have "t = at_pc 1 (if h = tail (lring s) then LIdle else LPopUpdate h) s"
      using t by (simp add: light_pop_step_def)
    with sh pr co LPopTail show ?thesis
      by (simp add: spsc_inv_def) (simp add: consumer_ok_def)
  next
    case (LPopUpdate h)
    then have "t = at_pc 1 (if h = tail_upd s then LIdle else LPopRead h) s"
      using t by (simp add: light_pop_step_def)
    moreover have "?H < ?U" if "?H mod ?m \<noteq> tail_upd s"
      using that le sh by (cases "?H = ?U") (auto simp: light_shared_def Let_def)
    ultimately show ?thesis
      using sh pr co LPopUpdate by (simp add: spsc_inv_def) (simp add: consumer_ok_def Let_def)
  next
    case (LPopRead h)
    then have "t = at_pc 1 (LPopCas h (slots (lring s) ! h)) s"
      using t by (simp add: light_pop_step_def)
    with sh pr co LPopRead sl show ?thesis
      by (simp add: spsc_inv_def) (simp add: consumer_ok_def Let_def)
  next
    case (LPopCas h v)
    then have v: "h = ?H mod ?m" "?H < ?U" "v = Some (claimed s ! ?H)"
      using co by (simp_all add: consumer_ok_def Let_def)
    have t: "t = at_pc 1 LIdle (s\<lparr>lring := (lring s)\<lparr>head := (h + 1) mod max_size (lring s)\<rparr>,
                popped := popped s @ [v]\<rparr>)" (is "t = at_pc 1 LIdle ?s")
      using t LPopCas hd v(1) by (auto simp: light_pop_step_def Let_def)
    have "map Some (take (Suc ?H) (claimed s)) = popped s @ [v]"
      using pp v(2,3) le(2) by (simp add: take_Suc_conv_app_nth)
    then have "light_shared cap ?s"
      using sh v sz by (auto simp: light_shared_def Let_def mod_Suc_eq)
    moreover have "producer_ok cap ?s (lpc s 0)"
      using pr by (cases "lpc s 0") (auto simp: producer_ok_def Let_def)
    ultimately show ?thesis
      unfolding t spsc_inv_def by (simp add: consumer_ok_def)
  qed (use t in \<open>simp_all add: light_pop_step_def\<close>)
qed

lemma producer_step:
  assumes i: "spsc_inv cap s" and t: "light_push_step 0 s = Some t"
  shows "spsc_inv cap t"
proof -
  let ?m = "cap + 1" and ?H = "length (popped s)" and ?U = "updated s" and ?T = "length (claimed s)"
  have sh: "light_shared cap s" and pr: "producer_ok cap s (lpc s 0)" and co: "consumer_ok cap s (lpc s 1)"
    using i by (simp_all add: spsc_inv_def)
  have tl: "tail (lring s) = ?T mod ?m" "head (lring s) = ?H mod ?m" "tail_upd s = ?U mod ?m"
    and le: "?H \<le> ?U" "?U \<le> ?T" "?T \<le> ?H + cap"
    and sz: "max_size (lring s) = ?m" "length (slots (lring s)) = ?m"
    using sh by (simp_all add: light_shared_def Let_def)
  show ?thesis
  proof (cases "lpc s 0")
    case (LPush v)
    then have "t = at_pc 0 (LPushHead (tail (lring s)) v) s"
      using t by (simp add: light_push_step_def)
    with sh pr co tl LPush show ?thesis
      by (simp add: spsc_inv_def) (simp add: producer_ok_def Let_def)
  next
    case (LPushHead u v)
    then have "t = at_pc 0 (if (u + 1) mod max_size (lring s) = head (lring s) then LIdle else LPushCas u v) s"
      using t by (auto simp: light_push_step_def Let_def)
    moreover have "?T < ?H + cap" if "(?T mod ?m + 1) mod ?m \<noteq> ?H mod ?m"
    proof -
      have "(?H + cap + 1) mod ?m = ?H mod ?m" by (metis add.assoc mod_add_self2)
      with that le(3) show ?thesis
        by (cases "?T = ?H + cap") (auto simp: mod_Suc_eq)
    qed
    ultimately show ?thesis
      using sh pr co LPushHead tl sz
      by (simp add: spsc_inv_def) (simp add: producer_ok_def Let_def)
  next
    case (LPushCas u v)
    then have v: "u = ?T mod ?m" "?T = ?U" "?T < ?H + cap"
      using pr by (simp_all add: producer_ok_def Let_def)
    have t: "t = at_pc 0 (LPushStore u v) (s\<lparr>lring := (lring s)\<lparr>tail := (u + 1) mod max_size (lring s)\<rparr>,
                claimed := claimed s @ [v]\<rparr>)" (is "t = at_pc 0 _ ?s")
      using t LPushCas tl v(1) by (auto simp: light_push_step_def Let_def)
    have "light_shared cap ?s"
      using sh v sz by (auto simp: light_shared_def Let_def mod_Suc_eq nth_append)
    moreover have "consumer_ok cap ?s (lpc s 1)"
      using co v(2) by (cases "lpc s 1") (auto simp: consumer_ok_def Let_def nth_append)
    ultimately show ?thesis
      unfolding t spsc_inv_def using v by (simp add: producer_ok_def nth_append)
  next
    case (LPushStore u v)
    then have v: "u = ?U mod ?m" "?T = ?U + 1" "claimed s ! ?U = v"
      using pr by (simp_all add: producer_ok_def Let_def)
    have t: "t = at_pc 0 (LPushUpdate u) (s\<lparr>lring := (lring s)\<lparr>slots := (slots (lring s))[u := Some v]\<rparr>\<rparr>)"
      (is "t = at_pc 0 _ ?s")
      using t LPushStore by (auto simp: light_push_step_def Let_def)
    have "?U mod ?m \<noteq> k mod ?m" if "?H \<le> k" "k < ?U" for k
      using that le v(2) by (intro mod_neq_near) simp_all
    then have "light_shared cap ?s"
      using sh v sz by (auto simp: light_shared_def Let_def nth_list_update)
    moreover have "consumer_ok cap ?s (lpc s 1)"
      using co by (cases "lpc s 1") (auto simp: consumer_ok_def Let_def)
    moreover have "u < length (slots (lring s))" using v(1) sz(2) by simp
    ultimately show ?thesis
      unfolding t spsc_inv_def using v by (simp add: producer_ok_def)
  next
    case (LPushUpdate u)
    then have v: "u = ?U mod ?m" "?T = ?U + 1" "slots (lring s) ! u = Some (claimed s ! ?U)"
      using pr unfolding LPushUpdate by (auto simp: producer_ok_def Let_def)
    have t: "t = at_pc 0 LIdle (s\<lparr>tail_upd := (u + 1) mod max_size (lring s), updated := updated s + 1\<rparr>)"
      (is "t = at_pc 0 _ ?s")
      using t LPushUpdate tl v(1) by (auto simp: light_push_step_def Let_def)
    have "light_shared cap ?s"
      using sh v sz by (auto simp: light_shared_def Let_def mod_Suc_eq less_Suc_eq)
    moreover have "consumer_ok cap ?s (lpc s 1)"
      using co by (cases "lpc s 1") (auto simp: consumer_ok_def Let_def)
    ultimately show ?thesis
      unfolding t spsc_inv_def using v by (simp add: producer_ok_def)
  qed (use t in \<open>simp_all add: light_push_step_def\<close>)
qed

definition spsc_exec :: "'a light_event \<Rightarrow> 'a light \<Rightarrow> 'a light option" where
  "spsc_exec e s = (if spsc e then light_exec e s else None)"

lemma spsc_inv_exec: "spsc_inv cap s \<Longrightarrow> spsc_exec e s = Some t \<Longrightarrow> spsc_inv cap t"
proof (cases e)
  case (CallPush i v)
  assume "spsc_inv cap s" "spsc_exec e s = Some t"
  with CallPush show ?thesis
    by (auto simp: spsc_exec_def spsc_inv_def split: if_splits) (simp add: producer_ok_def)
next
  case (CallPop i)
  assume "spsc_inv cap s" "spsc_exec e s = Some t"
  with CallPop show ?thesis
    by (auto simp: spsc_exec_def spsc_inv_def split: if_splits) (simp add: consumer_ok_def)
qed (auto simp: spsc_exec_def split: if_splits dest: producer_step consumer_step [simplified])

interpretation spsc: inv_machine spsc_exec "spsc_inv cap" for cap
  by unfold_locales (rule spsc_inv_exec)

lemma spsc_init: "spsc_inv cap (CircularQueLight cap)"
  by (simp add: spsc_inv_def CircularQueLight_def CircularQueLk_def light_shared_def producer_ok_def
      consumer_ok_def)

section \<open>Properties\<close>

text \<open>
  C14. With one producer and one consumer thread, in every interleaving of their atomic steps, the
  lock-free queue returns the pushed values in order, none lost, repeated or read before it was
  stored, and never holds more than its capacity.
\<close>

theorem light_spsc_fifo:
  assumes "run spsc_exec es (CircularQueLight cap) = Some s"
  shows "prefix (popped s) (map Some (claimed s)) \<and>
    length (claimed s) \<le> length (popped s) + cap"
proof -
  have "light_shared cap s"
    using spsc.run_inv [OF spsc_init assms] by (simp add: spsc_inv_def)
  then have "popped s = map Some (take (length (popped s)) (claimed s))"
    "length (claimed s) \<le> length (popped s) + cap"
    by (simp_all add: light_shared_def Let_def)
  then show ?thesis by (metis take_map take_is_prefix)
qed

definition push_events :: "nat \<Rightarrow> 'a \<Rightarrow> 'a light_event list" where
  "push_events i v = CallPush i v # replicate 5 (StepPush i)"

definition pop_events :: "nat \<Rightarrow> 'a light_event list" where
  "pop_events i = CallPop i # replicate 5 (StepPop i)"

lemmas light_eval = push_events_def pop_events_def light_push_step_def light_pop_step_def
  at_pc_def CircularQueLight_def CircularQueLk_def Let_def numeral_eq_Suc

theorem light_spsc_fifo_witness:
  "\<exists>s. run spsc_exec (push_events 0 (7 :: nat) @ pop_events 1) (CircularQueLight 1) = Some s \<and>
    popped s = [Some 7] \<and> prefix (popped s) (map Some (claimed s))"
proof -
  obtain s where s: "run spsc_exec (push_events 0 (7 :: nat) @ pop_events 1) (CircularQueLight 1) = Some s"
    "popped s = [Some 7]"
    by (simp add: light_eval spsc_exec_def)
  from light_spsc_fifo [OF s(1)] s show ?thesis by auto
qed

text \<open>
  C20. With two consumers the lock-free queue is not a queue: a consumer that is delayed between
  reading the element and its compare-exchange succeeds when the head has come round to the same
  index. Here 1, 2 and 3 are pushed and the pops return 1, 2 and 1: one element twice, one never.
\<close>

theorem light_aba:
  "\<exists>es s. run light_exec es (CircularQueLight 1) = Some s \<and> claimed s = [1, 2, 3 :: nat] \<and>
    popped s = [Some 1, Some 2, Some 1] \<and> head (lring s) = tail (lring s)"
proof -
  let ?es = "push_events 0 (1 :: nat) @ CallPop 1 # replicate 4 (StepPop 1) @ pop_events 2 @
    push_events 0 2 @ pop_events 2 @ push_events 0 3 @ [StepPop 1]"
  obtain s where "run light_exec ?es (CircularQueLight 1) = Some s"
    "claimed s = [1, 2, 3]" "popped s = [Some 1, Some 2, Some 1]" "head (lring s) = tail (lring s)"
    by (simp add: light_eval)
  then show ?thesis by blast
qed

end
