(* ===== verification/ThreadSafe.thy ===== *)
theory ThreadSafe
  imports Prelude
begin

text \<open>
  The containers of \<open>src/Concurrent/day14-ThreadSafeContainer\<close> that keep a standard container
  under one mutex: \<open>threadsafe_queue\<close>, \<open>threadsafe_queue_ptr\<close>, \<open>threadsafe_stack\<close> and
  \<open>threadsafe_stack_waitable\<close>. Each operation is one critical section, so it is one function on
  the contents; an operation that waits is a partial function that has no result while it
  waits. The contents come with the number of waiting threads, which \<open>notify_one\<close> lowers.
\<close>

section \<open>Queues\<close>

record 'a monitor =
  data_queue :: "'a list"
  waiting :: nat          \<comment> \<open>threads blocked in \<open>data_cond.wait\<close>\<close>
  woken :: nat            \<comment> \<open>threads notified that have not yet run\<close>

definition notify_one :: "'a monitor \<Rightarrow> 'a monitor" where
  "notify_one s = (if waiting s = 0 then s else s\<lparr>waiting := waiting s - 1, woken := woken s + 1\<rparr>)"

definition threadsafe_queue :: "'a monitor" where
  "threadsafe_queue = \<lparr>data_queue = [], waiting = 0, woken = 0\<rparr>"

definition tsq_push :: "'a \<Rightarrow> 'a monitor \<Rightarrow> bool \<times> 'a monitor" where
  "tsq_push v s = (True, notify_one (s\<lparr>data_queue := data_queue s @ [v]\<rparr>))"

definition tsq_try_pop :: "'a monitor \<Rightarrow> 'a option \<times> 'a monitor" where
  "tsq_try_pop s = (case data_queue s of [] \<Rightarrow> (None, s)
     | v # q \<Rightarrow> (Some v, s\<lparr>data_queue := q\<rparr>))"

definition tsq_empty :: "'a monitor \<Rightarrow> bool" where
  "tsq_empty s = (data_queue s = [])"

text \<open>
  \<open>wait_and_pop\<close>: the call tests the condition with the mutex held, and either takes the front or
  joins the waiting threads; a woken thread tests again.
\<close>

definition tsq_take :: "'a monitor \<Rightarrow> 'a option \<times> 'a monitor" where
  "tsq_take s = (case data_queue s of [] \<Rightarrow> (None, s\<lparr>waiting := waiting s + 1\<rparr>)
     | v # q \<Rightarrow> (Some v, s\<lparr>data_queue := q\<rparr>))"

definition tsq_wait_and_pop :: "'a monitor \<Rightarrow> 'a option \<times> 'a monitor" where
  "tsq_wait_and_pop s = tsq_take s"

datatype 'a monitor_event = MPush 'a | MTryPop | MWaitPop | MRetry

definition monitor_exec :: "'a monitor_event \<Rightarrow> 'a monitor \<Rightarrow> 'a monitor option" where
  "monitor_exec e s = (case e of
     MPush v \<Rightarrow> Some (snd (tsq_push v s))
   | MTryPop \<Rightarrow> Some (snd (tsq_try_pop s))
   | MWaitPop \<Rightarrow> Some (snd (tsq_wait_and_pop s))
   | MRetry \<Rightarrow> if woken s = 0 then None else Some (snd (tsq_take (s\<lparr>woken := woken s - 1\<rparr>))))"

text \<open>No thread sleeps on an element that nobody is on the way to fetch.\<close>

definition monitor_inv :: "'a monitor \<Rightarrow> bool" where
  "monitor_inv s \<longleftrightarrow> (waiting s = 0 \<or> length (data_queue s) \<le> woken s)"

lemma monitor_inv_step: "monitor_inv s \<Longrightarrow> monitor_exec e s = Some t \<Longrightarrow> monitor_inv t"
  by (cases e)
    (auto simp: monitor_exec_def monitor_inv_def tsq_push_def tsq_try_pop_def tsq_take_def
      tsq_wait_and_pop_def notify_one_def split: if_splits list.splits)

interpretation monitor: inv_machine monitor_exec monitor_inv
  by unfold_locales (rule monitor_inv_step)

interpretation tsq: fifo "\<lambda>_. False" "\<lambda>_. True" data_queue tsq_push tsq_try_pop
  by unfold_locales
    (auto simp: tsq_push_def tsq_try_pop_def notify_one_def split: list.splits if_splits)

text \<open>\<open>threadsafe_queue_ptr\<close> allocates the element before it takes the mutex, and stores pointers:
  addresses into a heap of values.\<close>

record 'a ptr_monitor = "nat monitor" +
  pheap :: "'a list"

definition threadsafe_queue_ptr :: "'a ptr_monitor" where
  "threadsafe_queue_ptr = \<lparr>data_queue = [], waiting = 0, woken = 0, pheap = []\<rparr>"

definition tsqp_push :: "'a \<Rightarrow> 'a ptr_monitor \<Rightarrow> bool \<times> 'a ptr_monitor" where
  "tsqp_push v s =
     (let s1 = s\<lparr>pheap := pheap s @ [v]\<rparr>;
          s2 = s1\<lparr>data_queue := data_queue s1 @ [length (pheap s)]\<rparr> in
      (True, if waiting s2 = 0 then s2 else s2\<lparr>waiting := waiting s2 - 1, woken := woken s2 + 1\<rparr>))"

definition tsqp_try_pop :: "'a ptr_monitor \<Rightarrow> 'a option \<times> 'a ptr_monitor" where
  "tsqp_try_pop s = (case data_queue s of [] \<Rightarrow> (None, s)
     | a # q \<Rightarrow> (Some (pheap s ! a), s\<lparr>data_queue := q\<rparr>))"

definition tsqp_wait_and_pop :: "'a ptr_monitor \<Rightarrow> 'a option \<times> 'a ptr_monitor" where
  "tsqp_wait_and_pop s = (case data_queue s of [] \<Rightarrow> (None, s\<lparr>waiting := waiting s + 1\<rparr>)
     | a # q \<Rightarrow> (Some (pheap s ! a), s\<lparr>data_queue := q\<rparr>))"

definition ptr_list :: "'a ptr_monitor \<Rightarrow> 'a list" where
  "ptr_list s = map ((!) (pheap s)) (data_queue s)"

definition ptr_wf :: "'a ptr_monitor \<Rightarrow> bool" where
  "ptr_wf s = list_all (\<lambda>a. a < length (pheap s)) (data_queue s)"

interpretation tsqp: fifo "\<lambda>_. False" ptr_wf ptr_list tsqp_push tsqp_try_pop
proof
  fix s t :: "'a ptr_monitor" and x b v xs
  assume w: "ptr_wf s"
  have n: "map ((!) (pheap s @ [x])) (data_queue s) = map ((!) (pheap s)) (data_queue s)"
    using w by (auto simp: ptr_wf_def list_all_iff nth_append)
  show "\<not> False \<Longrightarrow> tsqp_push x s = (b, t) \<Longrightarrow> b \<and> ptr_wf t \<and> ptr_list t = ptr_list s @ [x]"
    using w n by (auto simp: tsqp_push_def ptr_wf_def ptr_list_def Let_def list_all_iff less_Suc_eq
        split: if_splits)
  show "False \<Longrightarrow> tsqp_push x s = (b, t) \<Longrightarrow> \<not> b \<and> ptr_wf t \<and> ptr_list t = ptr_list s"
    by simp
  show "ptr_list s = [] \<Longrightarrow> tsqp_try_pop s = (v, t) \<Longrightarrow> v = None \<and> ptr_wf t \<and> ptr_list t = []"
    using w by (auto simp: ptr_list_def tsqp_try_pop_def)
  show "ptr_list s = x # xs \<Longrightarrow> tsqp_try_pop s = (v, t) \<Longrightarrow> v = Some x \<and> ptr_wf t \<and> ptr_list t = xs"
    using w by (auto simp: ptr_list_def ptr_wf_def tsqp_try_pop_def)
qed

section \<open>Stacks\<close>

text \<open>\<open>std::stack\<close> as a list with its top first.\<close>

definition tss_push :: "'a \<Rightarrow> 'a list \<Rightarrow> 'a list" where
  "tss_push v s = v # s"

definition tss_pop :: "'a list \<Rightarrow> 'a res \<times> 'a list" where
  "tss_pop s = (case s of [] \<Rightarrow> (Inl EmptyStack, []) | v # r \<Rightarrow> (Inr v, r))"

definition tss_copy :: "'a list \<Rightarrow> 'a list" where
  "tss_copy other = other"

definition tss_empty :: "'a list \<Rightarrow> bool" where
  "tss_empty s = (s = [])"

definition tssw_push :: "'a \<Rightarrow> 'a monitor \<Rightarrow> 'a monitor" where
  "tssw_push v s = notify_one (s\<lparr>data_queue := v # data_queue s\<rparr>)"

definition tssw_try_pop :: "'a monitor \<Rightarrow> 'a option \<times> 'a monitor" where
  "tssw_try_pop s = (case data_queue s of [] \<Rightarrow> (None, s)
     | v # q \<Rightarrow> (Some v, s\<lparr>data_queue := q\<rparr>))"

definition tssw_wait_and_pop :: "'a monitor \<Rightarrow> 'a option \<times> 'a monitor" where
  "tssw_wait_and_pop s = (case data_queue s of [] \<Rightarrow> (None, s\<lparr>waiting := waiting s + 1\<rparr>)
     | v # q \<Rightarrow> (Some v, s\<lparr>data_queue := q\<rparr>))"

definition res_option :: "'a res \<times> 's \<Rightarrow> 'a option \<times> 's" where
  "res_option p = (case fst p of Inl _ \<Rightarrow> None | Inr v \<Rightarrow> Some v, snd p)"

interpretation tss: lifo "\<lambda>_. True" "\<lambda>s. s" tss_push "\<lambda>s. res_option (tss_pop s)"
  by unfold_locales (auto simp: tss_push_def tss_pop_def res_option_def)

interpretation tssw: lifo "\<lambda>_. True" data_queue tssw_push tssw_try_pop
  by unfold_locales (auto simp: tssw_push_def tssw_try_pop_def notify_one_def)

section \<open>Properties\<close>

text \<open>
  C23. The one-mutex queues: whatever a client calls, \<open>threadsafe_queue\<close> and \<open>threadsafe_queue_ptr\<close>
  answer as an unbounded FIFO queue (the latter through its pointers); and because they notify
  under the mutex, in every interleaving no thread sleeps while there are more elements than
  threads already woken to take them.
\<close>

theorem monitor_queues_fifo:
  fixes cs :: "'a qop list"
  assumes "impl_ops tsq_push tsq_try_pop cs threadsafe_queue = (rs, q)"
    and "impl_ops tsqp_push tsqp_try_pop cs threadsafe_queue_ptr = (rs', p)"
    and "run monitor_exec es threadsafe_queue = Some m"
  shows "spec_ops (\<lambda>_. False) cs [] = (rs, data_queue q) \<and>
    spec_ops (\<lambda>_. False) cs [] = (rs', ptr_list p) \<and>
    (waiting m = 0 \<or> length (data_queue m) \<le> woken m)"
proof -
  have w: "ptr_wf (threadsafe_queue_ptr :: 'a ptr_monitor)" "ptr_list (threadsafe_queue_ptr :: 'a ptr_monitor) = []"
    by (simp_all add: threadsafe_queue_ptr_def ptr_wf_def ptr_list_def)
  show ?thesis
    using tsq.ops_refine [OF TrueI assms(1)] tsqp.ops_refine [OF w(1) assms(2)] w(2)
      monitor.run_inv [OF _ assms(3)]
    by (simp add: threadsafe_queue_def monitor_inv_def)
qed

theorem monitor_queues_fifo_witness:
  "\<exists>rs q rs' p m. impl_ops tsq_push tsq_try_pop [QPush (1 :: nat), QPush 2, QPop] threadsafe_queue = (rs, q) \<and>
    impl_ops tsqp_push tsqp_try_pop [QPush (1 :: nat), QPush 2, QPop] threadsafe_queue_ptr = (rs', p) \<and>
    run monitor_exec [MWaitPop, MPush (5 :: nat), MRetry] threadsafe_queue = Some m \<and>
    rs = rs' \<and> data_queue q = [2] \<and> ptr_list p = [2] \<and> waiting m = 0"
proof -
  let ?cs = "[QPush (1 :: nat), QPush 2, QPop]"
  obtain rs q where a: "impl_ops tsq_push tsq_try_pop ?cs threadsafe_queue = (rs, q)" by fastforce
  obtain rs' p where b: "impl_ops tsqp_push tsqp_try_pop ?cs threadsafe_queue_ptr = (rs', p)" by fastforce
  obtain m :: "nat monitor" where c: "run monitor_exec [MWaitPop, MPush 5, MRetry] threadsafe_queue = Some m"
    "waiting m = 0"
    by (simp add: monitor_exec_def tsq_wait_and_pop_def tsq_take_def tsq_push_def threadsafe_queue_def
        notify_one_def)
  from monitor_queues_fifo [OF a b c(1)] a b c show ?thesis by auto
qed

text \<open>
  C25. The stacks return what was pushed in reverse order, whatever was there before, and a pop of
  an empty \<open>threadsafe_stack\<close> throws and changes nothing.
\<close>

theorem stacks_reverse:
  "fst (drain (\<lambda>s. res_option (tss_pop s)) (length xs + 1) (fold tss_push xs [])) = rev xs \<and>
   fst (drain tssw_try_pop (length xs + 1) (fold tssw_push xs \<lparr>data_queue = [], waiting = w, woken = 0\<rparr>)) = rev xs \<and>
   tss_pop [] = (Inl EmptyStack, [])"
  using tss.reverse_all [of "[]" xs "length xs + 1"]
    tssw.reverse_all [of "\<lparr>data_queue = [], waiting = w, woken = 0\<rparr>" xs "length xs + 1"]
  by (simp add: tss_pop_def)

end
