(* ===== verification/HtQueue.thy ===== *)
theory HtQueue
  imports Prelude "HOL-Library.Sublist"
begin

text \<open>
  \<open>threadsafe_queue_ht\<close> of \<open>day14-ThreadSafeContainer/ThreadSafeQue.h\<close>: a linked list with a dummy
  last node, a mutex for its head and one for its tail. The nodes live in a heap of addresses
  (so a use of a deleted node shows), and every access under a mutex is a step of its thread.
\<close>

section \<open>The machine\<close>

record 'a qnode =
  ndat :: "'a option"
  nnext :: "nat option"

datatype 'a ht_pc =
    HIdle
  | HPushLock 'a          \<comment> \<open>wants \<open>tail_mutex\<close>\<close>
  | HPushData 'a          \<comment> \<open>\<open>tail->data = new_data\<close>\<close>
  | HPushNext             \<comment> \<open>\<open>tail->next = std::move(p)\<close>\<close>
  | HPushTail nat         \<comment> \<open>\<open>tail = new_tail\<close>, unlock\<close>
  | HNotify               \<comment> \<open>\<open>data_cond.notify_one()\<close>\<close>
  | HWaitLock             \<comment> \<open>wants \<open>head_mutex\<close>\<close>
  | HWaitCheck            \<comment> \<open>\<open>head.get() != get_tail()\<close>\<close>
  | HWaitBlock            \<comment> \<open>\<open>wait\<close> releases the mutex and blocks\<close>
  | HAsleep
  | HTryLock
  | HTryCheck             \<comment> \<open>\<open>head.get() == get_tail()\<close>\<close>
  | HPopData              \<comment> \<open>\<open>value = std::move(*head->data)\<close>\<close>
  | HPopHead "'a option"  \<comment> \<open>\<open>pop_head\<close>, unlock, delete the node\<close>

record 'a ht =
  hheap :: "nat \<Rightarrow> 'a qnode option"
  hfresh :: nat
  hhead :: nat
  htail :: nat
  head_mutex :: "nat option"     \<comment> \<open>the thread that holds it\<close>
  tail_mutex :: "nat option"
  sleepers :: "nat list"
  hpc :: "nat \<Rightarrow> 'a ht_pc"
  fault :: bool                  \<comment> \<open>a null or dangling pointer was used\<close>
  hpushed :: "'a list"           \<comment> \<open>ghost: values in the order of \<open>tail = new_tail\<close>\<close>
  hpopped :: "'a option list"    \<comment> \<open>ghost: what the pops returned\<close>

definition threadsafe_queue_ht :: "'a ht" where
  "threadsafe_queue_ht = \<lparr>hheap = [0 \<mapsto> \<lparr>ndat = None, nnext = None\<rparr>], hfresh = 1, hhead = 0, htail = 0,
     head_mutex = None, tail_mutex = None, sleepers = [], hpc = (\<lambda>_. HIdle), fault = False,
     hpushed = [], hpopped = []\<rparr>"

definition go :: "nat \<Rightarrow> 'a ht_pc \<Rightarrow> 'a ht \<Rightarrow> 'a ht" where
  "go i p s = s\<lparr>hpc := (hpc s)(i := p)\<rparr>"

definition crash :: "'a ht \<Rightarrow> 'a ht" where
  "crash s = s\<lparr>fault := True\<rparr>"

text \<open>\<open>push\<close>, one step.\<close>

definition ht_push_step :: "nat \<Rightarrow> 'a ht \<Rightarrow> 'a ht option" where
  "ht_push_step i s = (case hpc s i of
     HPushLock v \<Rightarrow>
       if tail_mutex s = None then Some (go i (HPushData v) (s\<lparr>tail_mutex := Some i\<rparr>)) else None
   | HPushData v \<Rightarrow> (case hheap s (htail s) of
         None \<Rightarrow> Some (crash s)
       | Some n \<Rightarrow> Some (go i HPushNext (s\<lparr>hheap := (hheap s)(htail s \<mapsto> n\<lparr>ndat := Some v\<rparr>)\<rparr>)))
   | HPushNext \<Rightarrow> (case hheap s (htail s) of
         None \<Rightarrow> Some (crash s)
       | Some n \<Rightarrow> Some (go i (HPushTail (hfresh s)) (s\<lparr>
            hheap := (hheap s)(htail s \<mapsto> n\<lparr>nnext := Some (hfresh s)\<rparr>,
                               hfresh s \<mapsto> \<lparr>ndat = None, nnext = None\<rparr>),
            hfresh := hfresh s + 1\<rparr>)))
   | HPushTail p \<Rightarrow> Some (go i HNotify (s\<lparr>htail := p, tail_mutex := None,
        hpushed := hpushed s @ (case hheap s (htail s) of Some n \<Rightarrow> (case ndat n of Some v \<Rightarrow> [v] | _ \<Rightarrow> [])
                                | None \<Rightarrow> [])\<rparr>))
   | _ \<Rightarrow> None)"

text \<open>\<open>notify_one\<close> wakes some sleeping thread, if there is one.\<close>

definition ht_notify_step :: "nat \<Rightarrow> nat \<Rightarrow> 'a ht \<Rightarrow> 'a ht option" where
  "ht_notify_step i j s =
     (if hpc s i \<noteq> HNotify then None
      else if sleepers s = [] then Some (go i HIdle s)
      else if j \<in> set (sleepers s)
        then Some (go i HIdle (go j HWaitLock (s\<lparr>sleepers := remove1 j (sleepers s)\<rparr>)))
      else None)"

text \<open>\<open>wait_and_pop\<close> and \<open>try_pop\<close>, one step.\<close>

definition ht_pop_step :: "nat \<Rightarrow> 'a ht \<Rightarrow> 'a ht option" where
  "ht_pop_step i s = (case hpc s i of
     HWaitLock \<Rightarrow>
       if head_mutex s = None then Some (go i HWaitCheck (s\<lparr>head_mutex := Some i\<rparr>)) else None
   | HWaitCheck \<Rightarrow>
       if tail_mutex s = None
       then Some (go i (if hhead s \<noteq> htail s then HPopData else HWaitBlock) s) else None
   | HWaitBlock \<Rightarrow>
       Some (go i HAsleep (s\<lparr>head_mutex := None, sleepers := sleepers s @ [i]\<rparr>))
   | HTryLock \<Rightarrow>
       if head_mutex s = None then Some (go i HTryCheck (s\<lparr>head_mutex := Some i\<rparr>)) else None
   | HTryCheck \<Rightarrow>
       if tail_mutex s = None
       then Some (if hhead s = htail s then go i HIdle (s\<lparr>head_mutex := None\<rparr>) else go i HPopData s)
       else None
   | HPopData \<Rightarrow> (case hheap s (hhead s) of
         None \<Rightarrow> Some (crash s)
       | Some n \<Rightarrow> Some (go i (HPopHead (ndat n)) s))
   | HPopHead v \<Rightarrow> (case hheap s (hhead s) of
         None \<Rightarrow> Some (crash s)
       | Some n \<Rightarrow> (case nnext n of
             None \<Rightarrow> Some (crash s)
           | Some a \<Rightarrow> Some (go i HIdle (s\<lparr>hhead := a, hheap := (hheap s)(hhead s := None),
                head_mutex := None, hpopped := hpopped s @ [v]\<rparr>))))
   | _ \<Rightarrow> None)"

datatype 'a ht_event =
    HPush nat 'a | HWaitPop nat | HTryPop nat | HPushStep nat | HPopStep nat | HWake nat nat

fun ht_exec :: "'a ht_event \<Rightarrow> 'a ht \<Rightarrow> 'a ht option" where
  "ht_exec (HPush i v) s = (if hpc s i = HIdle then Some (go i (HPushLock v) s) else None)"
| "ht_exec (HWaitPop i) s = (if hpc s i = HIdle then Some (go i HWaitLock s) else None)"
| "ht_exec (HTryPop i) s = (if hpc s i = HIdle then Some (go i HTryLock s) else None)"
| "ht_exec (HPushStep i) s = ht_push_step i s"
| "ht_exec (HPopStep i) s = ht_pop_step i s"
| "ht_exec (HWake i j) s = ht_notify_step i j s"

section \<open>The list\<close>

text \<open>\<open>chain h a vs z\<close>: from the node \<open>a\<close> the links lead through nodes holding \<open>vs\<close> to \<open>z\<close>.\<close>

fun chain :: "(nat \<Rightarrow> 'a qnode option) \<Rightarrow> nat \<Rightarrow> 'a list \<Rightarrow> nat list \<Rightarrow> nat \<Rightarrow> bool" where
  "chain h a [] as z = (a = z \<and> as = [])"
| "chain h a (v # vs) as z =
     (\<exists>b bs. as = a # bs \<and> h a = Some \<lparr>ndat = Some v, nnext = Some b\<rparr> \<and> chain h b vs bs z)"

fun tail_holder :: "'a ht_pc \<Rightarrow> bool" where
  "tail_holder (HPushData _) = True"
| "tail_holder HPushNext = True"
| "tail_holder (HPushTail _) = True"
| "tail_holder _ = False"

fun head_holder :: "'a ht_pc \<Rightarrow> bool" where
  "head_holder HWaitCheck = True"
| "head_holder HWaitBlock = True"
| "head_holder HTryCheck = True"
| "head_holder HPopData = True"
| "head_holder (HPopHead _) = True"
| "head_holder _ = False"

definition blank :: "'a qnode" where
  "blank = \<lparr>ndat = None, nnext = None\<rparr>"

text \<open>What the thread that holds a mutex has done so far.\<close>

definition tail_ok :: "'a ht \<Rightarrow> nat list \<Rightarrow> 'a ht_pc \<Rightarrow> bool" where
  "tail_ok s as p \<longleftrightarrow> (case p of
     HPushNext \<Rightarrow> \<exists>v. hheap s (htail s) = Some \<lparr>ndat = Some v, nnext = None\<rparr>
   | HPushTail q \<Rightarrow> (\<exists>v. hheap s (htail s) = Some \<lparr>ndat = Some v, nnext = Some q\<rparr>) \<and>
        hheap s q = Some blank \<and> q < hfresh s \<and> q \<notin> set as \<and> q \<noteq> htail s
   | _ \<Rightarrow> hheap s (htail s) = Some blank)"

definition head_ok :: "'a list \<Rightarrow> 'a ht_pc \<Rightarrow> bool" where
  "head_ok vs p \<longleftrightarrow> (case p of HPopData \<Rightarrow> vs \<noteq> [] | HPopHead v \<Rightarrow> vs \<noteq> [] \<and> v = Some (hd vs) | _ \<Rightarrow> True)"

definition holder_pc :: "'a ht \<Rightarrow> 'a ht_pc" where
  "holder_pc s = (case tail_mutex s of None \<Rightarrow> HIdle | Some i \<Rightarrow> hpc s i)"

definition ht_rep :: "'a ht \<Rightarrow> nat list \<Rightarrow> 'a list \<Rightarrow> bool" where
  "ht_rep s as vs \<longleftrightarrow>
     chain (hheap s) (hhead s) vs as (htail s) \<and> distinct (as @ [htail s]) \<and>
     (\<forall>a \<in> set (as @ [htail s]). a < hfresh s) \<and>
     (\<exists>ps. hpopped s = map Some ps \<and> hpushed s = ps @ vs)"

definition ht_locks :: "'a ht \<Rightarrow> bool" where
  "ht_locks s \<longleftrightarrow> (\<forall>i. tail_holder (hpc s i) \<longleftrightarrow> tail_mutex s = Some i) \<and>
     (\<forall>i. head_holder (hpc s i) \<longleftrightarrow> head_mutex s = Some i)"

definition ht_inv :: "'a ht \<Rightarrow> bool" where
  "ht_inv s \<longleftrightarrow> \<not> fault s \<and> ht_locks s \<and>
     (\<exists>as vs. ht_rep s as vs \<and> tail_ok s as (holder_pc s) \<and> (\<forall>i. head_ok vs (hpc s i)))"

lemma chain_upd [simp]: "a \<notin> set as \<Longrightarrow> chain (h(a := x)) b vs as z = chain h b vs as z"
  by (induction vs arbitrary: b as) auto

lemma chain_snoc:
  "chain h a vs as z \<Longrightarrow> h z = Some \<lparr>ndat = Some v, nnext = Some p\<rparr> \<Longrightarrow> chain h a (vs @ [v]) (as @ [z]) p"
  by (induction vs arbitrary: a as) auto

lemma chain_empty: "chain h a vs as z \<Longrightarrow> distinct (as @ [z]) \<Longrightarrow> a = z \<longleftrightarrow> vs = []"
  by (cases vs) auto

lemma go_fields [simp]:
  "hheap (go i p s) = hheap s" "hfresh (go i p s) = hfresh s" "hhead (go i p s) = hhead s"
  "htail (go i p s) = htail s" "head_mutex (go i p s) = head_mutex s"
  "tail_mutex (go i p s) = tail_mutex s" "sleepers (go i p s) = sleepers s"
  "fault (go i p s) = fault s" "hpushed (go i p s) = hpushed s" "hpopped (go i p s) = hpopped s"
  "hpc (go i p s) = (hpc s)(i := p)"
  by (simp_all add: go_def)

lemma rep_cong [simp]:
  "ht_rep (go i p s) = ht_rep s" "ht_rep (s\<lparr>sleepers := l\<rparr>) = ht_rep s"
  "ht_rep (s\<lparr>head_mutex := m\<rparr>) = ht_rep s" "ht_rep (s\<lparr>tail_mutex := m\<rparr>) = ht_rep s"
  by (simp_all add: ht_rep_def fun_eq_iff)

lemma tail_ok_cong [simp]:
  "tail_ok (go i p s) = tail_ok s" "tail_ok (s\<lparr>sleepers := l\<rparr>) = tail_ok s"
  "tail_ok (s\<lparr>head_mutex := m\<rparr>) = tail_ok s" "tail_ok (s\<lparr>tail_mutex := m\<rparr>) = tail_ok s"
  by (simp_all add: tail_ok_def fun_eq_iff split: ht_pc.split)

lemma head_ok_outside: "\<not> head_holder p \<Longrightarrow> head_ok vs p"
  by (cases p) (simp_all add: head_ok_def)

lemma ht_inv_cases:
  assumes "ht_inv s"
  obtains as vs where "\<not> fault s" "ht_locks s" "ht_rep s as vs" "tail_ok s as (holder_pc s)"
    "\<And>i. head_ok vs (hpc s i)"
  using assms unfolding ht_inv_def by blast

lemma ht_invI:
  "\<not> fault s \<Longrightarrow> ht_locks s \<Longrightarrow> ht_rep s as vs \<Longrightarrow> tail_ok s as (holder_pc s) \<Longrightarrow>
   (\<And>i. head_ok vs (hpc s i)) \<Longrightarrow> ht_inv s"
  unfolding ht_inv_def by blast

text \<open>A thread that holds no mutex before or after its move changes nothing of the rest.\<close>

lemma move_outside:
  assumes s: "ht_inv s" and "\<not> tail_holder (hpc s i)" "\<not> head_holder (hpc s i)"
    and p: "\<not> tail_holder p" "\<not> head_holder p"
  shows "ht_inv (go i p (s\<lparr>sleepers := l\<rparr>))"
proof -
  obtain as vs where r: "\<not> fault s" "ht_locks s" "ht_rep s as vs" "tail_ok s as (holder_pc s)"
    "\<And>i. head_ok vs (hpc s i)"
    using ht_inv_cases [OF s] by blast
  have "tail_mutex s \<noteq> Some i" using r(2) assms(2) by (auto simp: ht_locks_def)
  then have h: "holder_pc (go i p (s\<lparr>sleepers := l\<rparr>)) = holder_pc s"
    by (auto simp: holder_pc_def split: option.splits)
  have lk: "ht_locks (go i p (s\<lparr>sleepers := l\<rparr>))"
    using assms(2-5) r(2) by (simp add: ht_locks_def)
  show ?thesis
    by (rule ht_invI [where as = as and vs = vs]) (use r h p lk head_ok_outside [OF p(2), of vs] in simp_all)
qed

text \<open>Taking and leaving the head mutex, and moves of its holder.\<close>

lemma move_head:
  assumes s: "ht_inv s" and own: "head_mutex s = None \<or> head_mutex s = Some i"
    and nt: "\<not> tail_holder (hpc s i)" "\<not> tail_holder p"
    and m: "m = (if head_holder p then Some i else None)"
    and ok: "\<And>as vs. ht_rep s as vs \<Longrightarrow> head_ok vs (hpc s i) \<Longrightarrow> head_ok vs p"
  shows "ht_inv (go i p (s\<lparr>head_mutex := m\<rparr>))"
proof -
  obtain as vs where r: "\<not> fault s" "ht_locks s" "ht_rep s as vs" "tail_ok s as (holder_pc s)"
    "\<And>i. head_ok vs (hpc s i)"
    using ht_inv_cases [OF s] by blast
  have "tail_mutex s \<noteq> Some i" using r(2) nt by (auto simp: ht_locks_def)
  then have h: "holder_pc (go i p (s\<lparr>head_mutex := m\<rparr>)) = holder_pc s"
    by (auto simp: holder_pc_def split: option.splits)
  have lk: "ht_locks (go i p (s\<lparr>head_mutex := m\<rparr>))"
    using own nt m r(2) by (auto simp: ht_locks_def)
  show ?thesis
    by (rule ht_invI [where as = as and vs = vs]) (use r h ok lk in simp_all)
qed

text \<open>The steps of a pop.\<close>

lemma pop_data:
  assumes s: "ht_inv s" and p: "hpc s i = HPopData" and t: "ht_pop_step i s = Some t"
  shows "ht_inv t"
proof -
  obtain as vs where r: "ht_locks s" "ht_rep s as vs" "\<And>i. head_ok vs (hpc s i)"
    using ht_inv_cases [OF s] by blast
  have ne: "vs \<noteq> []" using r(3) [of i] p by (simp add: head_ok_def)
  then obtain v ws where "vs = v # ws" by (cases vs) auto
  then obtain b where n: "hheap s (hhead s) = Some \<lparr>ndat = Some v, nnext = Some b\<rparr>"
    using r(2) by (auto simp: ht_rep_def)
  have t: "t = go i (HPopHead (Some v)) (s\<lparr>head_mutex := head_mutex s\<rparr>)"
    using t p n by (simp add: ht_pop_step_def)
  have own: "head_mutex s = Some i"
    using r(1) p by (metis ht_locks_def head_holder.simps(4))
  have "head_ok ws' (HPopHead (Some v))" if "ht_rep s bs ws'" "head_ok ws' (hpc s i)" for bs ws'
    using that p n by (cases ws') (auto simp: head_ok_def ht_rep_def)
  then show ?thesis
    unfolding t using own p by (intro move_head [OF s]) auto
qed

lemma pop_head:
  assumes s: "ht_inv s" and p: "hpc s i = HPopHead v" and t: "ht_pop_step i s = Some t"
  shows "ht_inv t"
proof -
  obtain as vs where r: "\<not> fault s" "ht_locks s" "ht_rep s as vs" "tail_ok s as (holder_pc s)"
    "\<And>i. head_ok vs (hpc s i)"
    using ht_inv_cases [OF s] by blast
  obtain x ws where v: "vs = x # ws" "v = Some x"
    using r(5) [of i] p by (cases vs) (auto simp: head_ok_def)
  obtain b bs where n: "hheap s (hhead s) = Some \<lparr>ndat = Some x, nnext = Some b\<rparr>"
    "as = hhead s # bs" "chain (hheap s) b ws bs (htail s)"
    using r(3) v by (auto simp: ht_rep_def)
  have t: "t = go i HIdle (s\<lparr>hhead := b, hheap := (hheap s)(hhead s := None),
                head_mutex := None, hpopped := hpopped s @ [v]\<rparr>)"
    using t p n by (simp add: ht_pop_step_def)
  have nt: "\<not> tail_holder (hpc s i)" and nh: "tail_mutex s \<noteq> Some i"
    using p r(2) by (simp, metis ht_locks_def tail_holder.simps(14))
  have d: "hhead s \<notin> set bs" "hhead s \<noteq> htail s"
    using r(3) n(2) by (auto simp: ht_rep_def)
  have own: "head_mutex s = Some i"
    using r(2) p by (metis ht_locks_def head_holder.simps(5))
  have "ht_rep t bs ws"
    using r(3) n v d unfolding t by (auto simp: ht_rep_def)
  moreover have "ht_locks t"
    using r(2) own nt unfolding t by (auto simp: ht_locks_def)
  moreover have "holder_pc t = holder_pc s"
    using nh unfolding t by (auto simp: holder_pc_def split: option.splits)
  moreover have "tail_ok t bs (holder_pc s)"
    using r(4) d n(2) unfolding t
    by (cases "holder_pc s") (auto simp: tail_ok_def blank_def)
  moreover have "head_ok ws (hpc t j)" for j
    using r(2) own unfolding t by (auto simp: ht_locks_def intro: head_ok_outside)
  ultimately show ?thesis
    using r(1) by (intro ht_invI [of t bs ws]) (simp_all add: t)
qed

lemma ht_inv_pop_step:
  assumes s: "ht_inv s" and t: "ht_pop_step i s = Some t"
  shows "ht_inv t"
proof -
  have same: "s = s\<lparr>head_mutex := head_mutex s\<rparr>" by simp
  have lk: "ht_locks s" using s by (simp add: ht_inv_def)
  have own: "head_mutex s = Some i" if "head_holder (hpc s i)"
    using lk that by (simp add: ht_locks_def)
  show ?thesis
  proof (cases "hpc s i")
    case HWaitLock
    then have "t = go i HWaitCheck (s\<lparr>head_mutex := Some i\<rparr>)" "head_mutex s = None"
      using t by (auto simp: ht_pop_step_def split: if_splits)
    then show ?thesis
      using HWaitLock by (auto intro!: move_head [OF s] simp: head_ok_def)
  next
    case HTryLock
    then have "t = go i HTryCheck (s\<lparr>head_mutex := Some i\<rparr>)" "head_mutex s = None"
      using t by (auto simp: ht_pop_step_def split: if_splits)
    then show ?thesis
      using HTryLock by (auto intro!: move_head [OF s] simp: head_ok_def)
  next
    case HWaitCheck
    then have t: "t = go i (if hhead s \<noteq> htail s then HPopData else HWaitBlock) (s\<lparr>head_mutex := Some i\<rparr>)"
      using t own by (auto simp: ht_pop_step_def split: if_splits)
    have "head_ok vs (if hhead s \<noteq> htail s then HPopData else HWaitBlock)" if "ht_rep s as vs" for as vs
      using that chain_empty by (auto simp: head_ok_def ht_rep_def)
    then show ?thesis
      unfolding t using HWaitCheck own by (intro move_head [OF s]) auto
  next
    case HTryCheck
    then have t: "t = go i (if hhead s \<noteq> htail s then HPopData else HIdle)
        (s\<lparr>head_mutex := (if hhead s \<noteq> htail s then Some i else None)\<rparr>)"
      using t own by (auto simp: ht_pop_step_def split: if_splits)
    have "head_ok vs (if hhead s \<noteq> htail s then HPopData else HIdle)" if "ht_rep s as vs" for as vs
      using that chain_empty by (auto simp: head_ok_def ht_rep_def)
    then show ?thesis
      unfolding t using HTryCheck own by (intro move_head [OF s]) auto
  next
    case HWaitBlock
    let ?u = "go i HIdle (s\<lparr>head_mutex := None\<rparr>)"
    have "ht_inv ?u"
      using HWaitBlock own by (intro move_head [OF s]) (auto simp: head_ok_def)
    moreover have "t = go i HAsleep (?u\<lparr>sleepers := sleepers s @ [i]\<rparr>)"
      using t HWaitBlock by (simp add: ht_pop_step_def go_def)
    ultimately show ?thesis
      using move_outside [of ?u i HAsleep] by simp
  next
    case HPopData
    from pop_data [OF s this t] show ?thesis .
  next
    case (HPopHead v)
    from pop_head [OF s this t] show ?thesis .
  qed (use t in \<open>simp_all add: ht_pop_step_def\<close>)
qed

text \<open>The steps of a push.\<close>

lemma push_rep:
  "ht_rep s as vs \<Longrightarrow> ht_rep (s\<lparr>hheap := (hheap s)(htail s \<mapsto> n)\<rparr>) as vs"
  by (auto simp: ht_rep_def)

lemma ht_inv_push_step:
  assumes s: "ht_inv s" and t: "ht_push_step i s = Some t"
  shows "ht_inv t"
proof -
  obtain as vs where r: "\<not> fault s" "ht_locks s" "ht_rep s as vs" "tail_ok s as (holder_pc s)"
    "\<And>i. head_ok vs (hpc s i)"
    using ht_inv_cases [OF s] by blast
  have own: "tail_mutex s = Some i" if "tail_holder (hpc s i)"
    using r(2) that by (simp add: ht_locks_def)
  have hp: "holder_pc s = hpc s i" if "tail_holder (hpc s i)"
    using own [OF that] by (simp add: holder_pc_def)
  have hd: "head_mutex s \<noteq> Some i" if "\<not> head_holder (hpc s i)"
    using r(2) that by (simp add: ht_locks_def)
  show ?thesis
  proof (cases "hpc s i")
    case (HPushLock v)
    then have t: "t = go i (HPushData v) (s\<lparr>tail_mutex := Some i\<rparr>)" and n: "tail_mutex s = None"
      using t by (auto simp: ht_push_step_def split: if_splits)
    have "tail_ok s as (HPushData v)"
      using r(4) n by (simp add: holder_pc_def tail_ok_def)
    moreover have "ht_locks t"
      using r(2) n hd HPushLock unfolding t by (auto simp: ht_locks_def)
    ultimately show ?thesis
      using r n by (intro ht_invI [of t as vs]) (simp_all add: t holder_pc_def head_ok_outside)
  next
    case (HPushData v)
    then have n: "hheap s (htail s) = Some blank"
      using r(4) hp by (simp add: tail_ok_def)
    have t: "t = go i HPushNext (s\<lparr>hheap := (hheap s)(htail s \<mapsto> blank\<lparr>ndat := Some v\<rparr>)\<rparr>)"
      using t HPushData n by (simp add: ht_push_step_def)
    have "tail_ok t as HPushNext" by (simp add: t tail_ok_def blank_def)
    moreover have "ht_locks t"
      using r(2) own hd HPushData unfolding t by (auto simp: ht_locks_def)
    moreover have "ht_rep t as vs" using push_rep [OF r(3)] by (simp add: t)
    ultimately show ?thesis
      using r own HPushData
      by (intro ht_invI [of t as vs]) (simp_all add: t holder_pc_def head_ok_outside)
  next
    case HPushNext
    then obtain v where n: "hheap s (htail s) = Some \<lparr>ndat = Some v, nnext = None\<rparr>"
      using r(4) hp by (auto simp: tail_ok_def)
    have t: "t = go i (HPushTail (hfresh s)) (s\<lparr>
            hheap := (hheap s)(htail s \<mapsto> \<lparr>ndat = Some v, nnext = Some (hfresh s)\<rparr>,
                               hfresh s \<mapsto> blank),
            hfresh := hfresh s + 1\<rparr>)"
      using t HPushNext n by (simp add: ht_push_step_def blank_def)
    have f: "htail s \<noteq> hfresh s" "hfresh s \<notin> set as"
      using r(3) by (auto simp: ht_rep_def)
    have "tail_ok t as (HPushTail (hfresh s))" using f by (simp add: t tail_ok_def)
    moreover have "ht_locks t"
      using r(2) own hd HPushNext unfolding t by (auto simp: ht_locks_def)
    moreover have "ht_rep t as vs"
      using r(3) f by (auto simp: t ht_rep_def less_SucI)
    ultimately show ?thesis
      using r own HPushNext
      by (intro ht_invI [of t as vs]) (simp_all add: t holder_pc_def head_ok_outside)
  next
    case (HPushTail p)
    then obtain v where n: "hheap s (htail s) = Some \<lparr>ndat = Some v, nnext = Some p\<rparr>"
      "hheap s p = Some blank" "p < hfresh s" "p \<notin> set as" "p \<noteq> htail s"
      using r(4) hp by (auto simp: tail_ok_def)
    have t: "t = go i HNotify (s\<lparr>htail := p, tail_mutex := None, hpushed := hpushed s @ [v]\<rparr>)"
      using t HPushTail n by (simp add: ht_push_step_def)
    have own: "tail_mutex s = Some i" using own HPushTail by simp
    have "chain (hheap s) (hhead s) (vs @ [v]) (as @ [htail s]) p"
      using r(3) n(1) by (intro chain_snoc) (simp_all add: ht_rep_def)
    then have "ht_rep t (as @ [htail s]) (vs @ [v])"
      using r(3) n by (auto simp: t ht_rep_def)
    moreover have "ht_locks t"
      using r(2) own hd HPushTail unfolding t by (auto simp: ht_locks_def)
    moreover have "tail_ok t (as @ [htail s]) HIdle" using n by (simp add: t tail_ok_def)
    moreover have "head_ok (vs @ [v]) (hpc t j)" for j
      using r(5) [of j] by (cases "hpc s j") (auto simp: t head_ok_def)
    ultimately show ?thesis
      using r(1) by (intro ht_invI [of t "as @ [htail s]" "vs @ [v]"]) (simp_all add: t holder_pc_def)
  qed (use t in \<open>simp_all add: ht_push_step_def\<close>)
qed

lemma move_idle:
  assumes "ht_inv s" "\<not> tail_holder (hpc s i)" "\<not> head_holder (hpc s i)"
    "\<not> tail_holder p" "\<not> head_holder p"
  shows "ht_inv (go i p s)"
  using move_outside [OF assms, of "sleepers s"] by simp

text \<open>Only threads that sleep are in the wait queue.\<close>

definition asleep_ok :: "'a ht \<Rightarrow> bool" where
  "asleep_ok s \<longleftrightarrow> distinct (sleepers s) \<and> (\<forall>i. i \<in> set (sleepers s) \<longleftrightarrow> hpc s i = HAsleep)"

lemma asleep_ok_step:
  assumes "asleep_ok s" "ht_exec e s = Some t"
  shows "asleep_ok t"
proof -
  show ?thesis
    using assms
    by (cases e)
      (auto simp: asleep_ok_def ht_push_step_def ht_pop_step_def ht_notify_step_def crash_def
        split: if_splits ht_pc.splits option.splits)
qed

definition ht_full_inv :: "'a ht \<Rightarrow> bool" where
  "ht_full_inv s \<longleftrightarrow> ht_inv s \<and> asleep_ok s"

lemma ht_inv_exec:
  assumes s: "ht_inv s" "asleep_ok s" and t: "ht_exec e s = Some t"
  shows "ht_inv t"
proof (cases e)
  case (HWake i j)
  then have n: "ht_notify_step i j s = Some t" "hpc s i = HNotify"
    using t by (auto simp: ht_notify_step_def split: if_splits)
  show ?thesis
  proof (cases "sleepers s = []")
    case True
    with n show ?thesis
      by (auto simp: ht_notify_step_def intro: move_idle [OF s(1)] split: if_splits)
  next
    case False
    then have j: "hpc s j = HAsleep"
      and t: "t = go i HIdle (go j HWaitLock (s\<lparr>sleepers := remove1 j (sleepers s)\<rparr>))"
      using n s(2) by (auto simp: ht_notify_step_def asleep_ok_def split: if_splits)
    have "ht_inv (go j HWaitLock (s\<lparr>sleepers := remove1 j (sleepers s)\<rparr>))"
      using j by (intro move_outside [OF s(1)]) simp_all
    then show ?thesis
      unfolding t using n(2) j by (cases "i = j") (auto intro!: move_idle simp del: go_fields(1-10))
  qed
qed (use t in \<open>auto split: if_splits intro: move_idle [OF s(1)] ht_inv_push_step [OF s(1)]
    ht_inv_pop_step [OF s(1)]\<close>)

lemma ht_full_inv_step: "ht_full_inv s \<Longrightarrow> ht_exec e s = Some t \<Longrightarrow> ht_full_inv t"
  unfolding ht_full_inv_def using ht_inv_exec asleep_ok_step by blast

interpretation ht: inv_machine ht_exec ht_full_inv
  by unfold_locales (rule ht_full_inv_step)

lemma ht_init: "ht_full_inv threadsafe_queue_ht"
proof -
  have "ht_rep (threadsafe_queue_ht :: 'a ht) [] []"
    by (simp add: ht_rep_def threadsafe_queue_ht_def)
  then have "ht_inv (threadsafe_queue_ht :: 'a ht)"
    by (rule ht_invI [rotated 2])
      (simp_all add: threadsafe_queue_ht_def ht_locks_def tail_ok_def holder_pc_def blank_def head_ok_def)
  then show ?thesis
    by (simp add: ht_full_inv_def asleep_ok_def threadsafe_queue_ht_def)
qed

section \<open>Properties\<close>

text \<open>
  C9. The two-lock queue: in every interleaving of any number of pushing and popping threads, with
  one mutex for the head and one for the tail, no null or deleted node is ever used, and the
  pops return the pushed values in order, each once.
\<close>

theorem two_lock_queue_fifo:
  assumes "run ht_exec es threadsafe_queue_ht = Some s"
  shows "\<not> fault s \<and> prefix (hpopped s) (map Some (hpushed s))"
proof -
  have "ht_inv s" using ht.run_inv [OF ht_init assms] by (simp add: ht_full_inv_def)
  then show ?thesis by (auto simp: ht_inv_def ht_rep_def)
qed

lemmas ht_eval = threadsafe_queue_ht_def ht_push_step_def ht_pop_step_def ht_notify_step_def go_def
  numeral_eq_Suc

theorem two_lock_queue_fifo_witness:
  "\<exists>s. run ht_exec ([HPush 0 (7 :: nat), HTryPop 1] @ replicate 3 (HPushStep 0) @ [HPopStep 1, HPushStep 0] @
      replicate 3 (HPopStep 1)) threadsafe_queue_ht = Some s \<and>
    hpopped s = [Some 7] \<and> \<not> fault s \<and> prefix (hpopped s) (map Some (hpushed s))"
proof -
  obtain s where s: "run ht_exec ([HPush 0 (7 :: nat), HTryPop 1] @ replicate 3 (HPushStep 0) @
      [HPopStep 1, HPushStep 0] @ replicate 3 (HPopStep 1)) threadsafe_queue_ht = Some s" "hpopped s = [Some 7]"
    by (simp add: ht_eval)
  from two_lock_queue_fifo [OF s(1)] s show ?thesis by blast
qed

text \<open>
  C22. The two-lock queue loses wake-ups: \<open>push\<close> notifies without \<open>head_mutex\<close>, so the notification
  can fall between a waiting thread's test of the condition and its blocking. Here thread 1 ends
  up asleep although the queue holds an element, and every other thread has finished.
\<close>

theorem two_lock_queue_lost_wakeup:
  "\<exists>es s. run ht_exec es threadsafe_queue_ht = Some s \<and> hpc s 1 = HAsleep \<and>
    hpushed s = [7 :: nat] \<and> hpopped s = [] \<and> hhead s \<noteq> htail s \<and> (\<forall>i. i = 1 \<or> hpc s i = HIdle)"
proof -
  let ?es = "[HWaitPop 1, HPopStep 1, HPopStep 1, HPush 0 (7 :: nat)] @ replicate 4 (HPushStep 0) @
    [HWake 0 0, HPopStep 1]"
  obtain s where "run ht_exec ?es threadsafe_queue_ht = Some s" "hpc s 1 = HAsleep"
    "hpushed s = [7]" "hpopped s = []" "hhead s \<noteq> htail s" "\<forall>i. i = 1 \<or> hpc s i = HIdle"
    by (simp add: ht_eval)
  then show ?thesis by blast
qed

end
