(* ===== verification/HashTable.thy ===== *)
theory HashTable
  imports Prelude
begin

text \<open>
  \<open>threadsafe_lookup_table\<close> of \<open>src/Concurrent/day15-threadsafehash/threadsafetable.h\<close>: a vector of
  buckets, each a list of pairs under its own shared mutex. Every public operation works on one
  bucket under that bucket's mutex (\<open>get_map\<close> takes them all), so it is one function. The hash
  function is a parameter, as it is in the code.
\<close>

section \<open>The table interface\<close>

datatype ('k, 'v) table_op = TValue 'k 'v | TAdd 'k 'v | TRemove 'k

text \<open>The specification: a finite map; \<open>TValue\<close> gives the value or the default.\<close>

fun spec_table :: "('k, 'v) table_op list \<Rightarrow> ('k \<Rightarrow> 'v option) \<Rightarrow> 'v list \<times> ('k \<Rightarrow> 'v option)" where
  "spec_table [] m = ([], m)"
| "spec_table (TValue k d # cs) m =
     (let (vs, m') = spec_table cs m in ((case m k of None \<Rightarrow> d | Some v \<Rightarrow> v) # vs, m'))"
| "spec_table (TAdd k v # cs) m = spec_table cs (m(k \<mapsto> v))"
| "spec_table (TRemove k # cs) m = spec_table cs (m(k := None))"

fun impl_table ::
  "('k \<Rightarrow> 'v \<Rightarrow> 's \<Rightarrow> 'v res) \<Rightarrow> ('k \<Rightarrow> 'v \<Rightarrow> 's \<Rightarrow> 's res) \<Rightarrow> ('k \<Rightarrow> 's \<Rightarrow> 's res) \<Rightarrow>
   ('k, 'v) table_op list \<Rightarrow> 's \<Rightarrow> ('v list \<times> 's) res" where
  "impl_table val add del [] s = Inr ([], s)"
| "impl_table val add del (TValue k d # cs) s =
     rbind (val k d s) (\<lambda>v. rbind (impl_table val add del cs s) (\<lambda>(vs, t). Inr (v # vs, t)))"
| "impl_table val add del (TAdd k v # cs) s =
     rbind (add k v s) (impl_table val add del cs)"
| "impl_table val add del (TRemove k # cs) s =
     rbind (del k s) (impl_table val add del cs)"

locale lookup_table =
  fixes wf :: "'s \<Rightarrow> bool"
    and abs :: "'s \<Rightarrow> 'k \<Rightarrow> 'v option"
    and val :: "'k \<Rightarrow> 'v \<Rightarrow> 's \<Rightarrow> 'v res"
    and add :: "'k \<Rightarrow> 'v \<Rightarrow> 's \<Rightarrow> 's res"
    and del :: "'k \<Rightarrow> 's \<Rightarrow> 's res"
  assumes val_ok: "wf s \<Longrightarrow> val k d s = Inr (case abs s k of None \<Rightarrow> d | Some v \<Rightarrow> v)"
    and add_ok: "wf s \<Longrightarrow> \<exists>t. add k v s = Inr t \<and> wf t \<and> abs t = (abs s)(k \<mapsto> v)"
    and del_ok: "wf s \<Longrightarrow> \<exists>t. del k s = Inr t \<and> wf t \<and> abs t = (abs s)(k := None)"
begin

lemma table_refine:
  "wf s \<Longrightarrow> \<exists>vs t. impl_table val add del cs s = Inr (vs, t) \<and> wf t \<and> spec_table cs (abs s) = (vs, abs t)"
proof (induction cs arbitrary: s)
  case Nil
  then show ?case by simp
next
  case (Cons c cs)
  show ?case
  proof (cases c)
    case (TValue k d)
    then show ?thesis using val_ok [OF Cons.prems, of k d] Cons by fastforce
  next
    case (TAdd k v)
    obtain u where "add k v s = Inr u" "wf u" "abs u = (abs s)(k \<mapsto> v)"
      using add_ok [OF Cons.prems] by blast
    then show ?thesis using Cons.IH [of u] TAdd by (simp add: fun_upd_def)
  next
    case (TRemove k)
    obtain u where "del k s = Inr u" "wf u" "abs u = (abs s)(k := None)"
      using del_ok [OF Cons.prems] by blast
    then show ?thesis using Cons.IH [of u] TRemove by (simp add: fun_upd_def)
  qed
qed

end

section \<open>A bucket\<close>

type_synonym ('k, 'v) bucket = "('k \<times> 'v) list"

text \<open>\<open>find_entry_for\<close>: the position of the first pair with that key, or the length.\<close>

fun find_entry_for :: "'k \<Rightarrow> ('k, 'v) bucket \<Rightarrow> nat" where
  "find_entry_for key [] = 0"
| "find_entry_for key (item # b) = (if fst item = key then 0 else Suc (find_entry_for key b))"

definition bucket_value_for :: "'k \<Rightarrow> 'v \<Rightarrow> ('k, 'v) bucket \<Rightarrow> 'v" where
  "bucket_value_for key dflt b =
     (let found = find_entry_for key b in if found = length b then dflt else snd (b ! found))"

definition bucket_add_or_update :: "'k \<Rightarrow> 'v \<Rightarrow> ('k, 'v) bucket \<Rightarrow> ('k, 'v) bucket" where
  "bucket_add_or_update key v b =
     (let found = find_entry_for key b in
      if found = length b then b @ [(key, v)] else b[found := (fst (b ! found), v)])"

definition bucket_remove :: "'k \<Rightarrow> ('k, 'v) bucket \<Rightarrow> ('k, 'v) bucket" where
  "bucket_remove key b =
     (let found = find_entry_for key b in
      if found \<noteq> length b then take found b @ drop (found + 1) b else b)"

lemma bucket_value_Cons:
  "bucket_value_for key d (p # b) = (if fst p = key then snd p else bucket_value_for key d b)"
  by (simp add: bucket_value_for_def Let_def)

lemma bucket_add_Cons:
  "bucket_add_or_update key v (p # b) =
     (if fst p = key then (fst p, v) # b else p # bucket_add_or_update key v b)"
  by (simp add: bucket_add_or_update_def Let_def)

lemma bucket_remove_Cons:
  "bucket_remove key (p # b) = (if fst p = key then b else p # bucket_remove key b)"
  by (simp add: bucket_remove_def Let_def)

lemmas bucket_Nil = bucket_value_for_def [of _ _ "[]"] bucket_add_or_update_def [of _ _ "[]"]
  bucket_remove_def [of _ "[]"]

lemma bucket_value_map:
  "bucket_value_for key d b = (case map_of b key of None \<Rightarrow> d | Some v \<Rightarrow> v)"
  by (induction b) (auto simp: bucket_value_Cons bucket_Nil)

lemma bucket_add_map: "map_of (bucket_add_or_update key v b) = (map_of b)(key \<mapsto> v)"
  by (induction b) (auto simp: bucket_add_Cons bucket_Nil fun_upd_twist)

lemma bucket_add_keys:
  "distinct (map fst b) \<Longrightarrow> distinct (map fst (bucket_add_or_update key v b)) \<and>
   fst ` set (bucket_add_or_update key v b) = insert key (fst ` set b)"
  by (induction b) (auto simp: bucket_add_Cons bucket_Nil)

lemma bucket_remove_keys: "set (bucket_remove key b) \<subseteq> set b"
  by (induction b) (auto simp: bucket_remove_Cons bucket_Nil)

lemma bucket_remove_distinct:
  "distinct (map fst b) \<Longrightarrow> distinct (map fst (bucket_remove key b))"
  using bucket_remove_keys by (induction b) (fastforce simp: bucket_remove_Cons bucket_Nil)+

lemma bucket_remove_map:
  "distinct (map fst b) \<Longrightarrow> map_of (bucket_remove key b) = (map_of b)(key := None)"
proof (induction b)
  case Nil
  then show ?case by (simp add: bucket_Nil)
next
  case (Cons p b)
  then show ?case
    by (auto simp: bucket_remove_Cons fun_upd_twist map_of_eq_None_iff intro!: ext)
qed

section \<open>The table\<close>

type_synonym ('k, 'v) table = "('k, 'v) bucket list"

definition threadsafe_lookup_table :: "nat \<Rightarrow> ('k, 'v) table" where
  "threadsafe_lookup_table num_buckets = replicate num_buckets []"

definition get_bucket :: "('k \<Rightarrow> nat) \<Rightarrow> 'k \<Rightarrow> ('k, 'v) table \<Rightarrow> nat res" where
  "get_bucket hasher key t = (if length t = 0 then Inl DivByZero else Inr (hasher key mod length t))"

definition value_for :: "('k \<Rightarrow> nat) \<Rightarrow> 'k \<Rightarrow> 'v \<Rightarrow> ('k, 'v) table \<Rightarrow> 'v res" where
  "value_for hasher key dflt t =
     rbind (get_bucket hasher key t) (\<lambda>i. Inr (bucket_value_for key dflt (t ! i)))"

definition add_or_update_mapping :: "('k \<Rightarrow> nat) \<Rightarrow> 'k \<Rightarrow> 'v \<Rightarrow> ('k, 'v) table \<Rightarrow> ('k, 'v) table res" where
  "add_or_update_mapping hasher key v t =
     rbind (get_bucket hasher key t) (\<lambda>i. Inr (t[i := bucket_add_or_update key v (t ! i)]))"

definition remove_mapping :: "('k \<Rightarrow> nat) \<Rightarrow> 'k \<Rightarrow> ('k, 'v) table \<Rightarrow> ('k, 'v) table res" where
  "remove_mapping hasher key t =
     rbind (get_bucket hasher key t) (\<lambda>i. Inr (t[i := bucket_remove key (t ! i)]))"

text \<open>\<open>res.insert(*it)\<close> keeps an entry that is already there.\<close>

definition map_insert :: "('k \<times> 'v) \<Rightarrow> ('k \<Rightarrow> 'v option) \<Rightarrow> ('k \<Rightarrow> 'v option)" where
  "map_insert p m = (if m (fst p) = None then m(fst p \<mapsto> snd p) else m)"

definition get_map :: "('k, 'v) table \<Rightarrow> ('k \<Rightarrow> 'v option)" where
  "get_map t = fold (\<lambda>b m. fold map_insert b m) t Map.empty"

definition table_wf :: "('k \<Rightarrow> nat) \<Rightarrow> ('k, 'v) table \<Rightarrow> bool" where
  "table_wf hasher t \<longleftrightarrow> t \<noteq> [] \<and>
     (\<forall>i < length t. distinct (map fst (t ! i)) \<and>
        (\<forall>k \<in> fst ` set (t ! i). hasher k mod length t = i))"

definition table_map :: "('k \<Rightarrow> nat) \<Rightarrow> ('k, 'v) table \<Rightarrow> 'k \<Rightarrow> 'v option" where
  "table_map hasher t k = map_of (t ! (hasher k mod length t)) k"

lemma table_replace:
  assumes w: "table_wf h t" and b: "distinct (map fst b)" "\<forall>k \<in> fst ` set b. h k mod length t = i"
    and i: "i < length t"
  shows "table_wf h (t[i := b])"
    and "table_map h (t[i := b]) k = (if h k mod length t = i then map_of b k else table_map h t k)"
  using assms by (auto simp: table_wf_def table_map_def nth_list_update)

lemma bucket_wf:
  "table_wf h t \<Longrightarrow> i < length t \<Longrightarrow>
   distinct (map fst (t ! i)) \<and> (\<forall>k \<in> fst ` set (t ! i). h k mod length t = i)"
  by (simp add: table_wf_def)

lemma add_mapping_ok:
  assumes w: "table_wf h t"
  shows "\<exists>u. add_or_update_mapping h k v t = Inr u \<and> table_wf h u \<and> table_map h u = (table_map h t)(k \<mapsto> v)"
proof -
  obtain i where idx: "h k mod length t = i" by blast
  have ne: "t \<noteq> []" using w by (simp add: table_wf_def)
  have i: "i < length t" using ne idx by auto
  let ?b = "bucket_add_or_update k v (t ! i)"
  note d = bucket_wf [OF w i]
  have b: "distinct (map fst ?b)" "\<forall>k' \<in> fst ` set ?b. h k' mod length t = i"
    using bucket_add_keys [OF conjunct1 [OF d], of k v] conjunct2 [OF d] idx by auto
  have "table_map h (t[i := ?b]) k' = ((table_map h t)(k \<mapsto> v)) k'" for k'
    unfolding table_replace(2) [OF w b i] using idx
    by (cases "k' = k") (simp_all add: bucket_add_map table_map_def)
  moreover have "add_or_update_mapping h k v t = Inr (t[i := ?b])"
    using ne by (simp add: add_or_update_mapping_def get_bucket_def idx)
  ultimately show ?thesis
    using table_replace(1) [OF w b i] by blast
qed

lemma remove_mapping_ok:
  assumes w: "table_wf h t"
  shows "\<exists>u. remove_mapping h k t = Inr u \<and> table_wf h u \<and> table_map h u = (table_map h t)(k := None)"
proof -
  obtain i where idx: "h k mod length t = i" by blast
  have ne: "t \<noteq> []" using w by (simp add: table_wf_def)
  have i: "i < length t" using ne idx by auto
  let ?b = "bucket_remove k (t ! i)"
  note d = bucket_wf [OF w i]
  have "fst ` set ?b \<subseteq> fst ` set (t ! i)"
    by (intro image_mono bucket_remove_keys)
  then have b2: "\<forall>k' \<in> fst ` set ?b. h k' mod length t = i"
    using conjunct2 [OF d] by (auto dest!: subsetD)
  note b = bucket_remove_distinct [OF conjunct1 [OF d]] b2
  have "table_map h (t[i := ?b]) k' = ((table_map h t)(k := None)) k'" for k'
    unfolding table_replace(2) [OF w b i] using idx
    by (cases "k' = k") (simp_all add: bucket_remove_map [OF conjunct1 [OF d]] table_map_def)
  moreover have "remove_mapping h k t = Inr (t[i := ?b])"
    using ne by (simp add: remove_mapping_def get_bucket_def idx)
  ultimately show ?thesis
    using table_replace(1) [OF w b i] by blast
qed

lemma value_for_ok:
  "table_wf h s \<Longrightarrow> value_for h k d s = Inr (case table_map h s k of None \<Rightarrow> d | Some v \<Rightarrow> v)"
  by (auto simp: value_for_def get_bucket_def table_wf_def table_map_def bucket_value_map)

interpretation hash: lookup_table "table_wf h" "table_map h" "value_for h" "add_or_update_mapping h"
    "remove_mapping h" for h
  by unfold_locales (fact value_for_ok, fact add_mapping_ok, fact remove_mapping_ok)

lemma table_wf_init: "0 < n \<Longrightarrow> table_wf h (threadsafe_lookup_table n)"
  by (auto simp: table_wf_def threadsafe_lookup_table_def)

lemma table_map_init: "0 < n \<Longrightarrow> table_map h (threadsafe_lookup_table n) = Map.empty"
  by (auto simp: table_map_def threadsafe_lookup_table_def)

text \<open>\<open>get_map\<close> collects every bucket.\<close>

lemma fold_insert_map: "fold map_insert b m = map_of b ++ m" if "distinct (map fst b)"
  using that
proof (induction b arbitrary: m)
  case Nil
  then show ?case by simp
next
  case (Cons p b)
  have "map_of b (fst p) = None" using Cons.prems by (simp add: map_of_eq_None_iff)
  with Cons show ?case
    by (auto simp: map_insert_def map_add_def fun_eq_iff split: option.splits)
qed

lemma get_map_prefix:
  assumes "table_wf h t" "n \<le> length t"
  shows "fold (\<lambda>b m. fold map_insert b m) (take n t) Map.empty =
    (\<lambda>k. if h k mod length t < n then table_map h t k else None)"
  using assms(2)
proof (induction n)
  case 0
  then show ?case by simp
next
  case (Suc n)
  then have n: "n < length t" by simp
  note d = bucket_wf [OF assms(1) n]
  have m: "map_of (t ! n) k = (if h k mod length t = n then table_map h t k else None)" for k
  proof (cases "h k mod length t = n")
    case True
    then show ?thesis by (simp add: table_map_def)
  next
    case False
    then have "k \<notin> fst ` set (t ! n)" using d by blast
    then show ?thesis using False by (simp add: map_of_eq_None_iff)
  qed
  have "fold (\<lambda>b m. fold map_insert b m) (take (Suc n) t) Map.empty =
      map_of (t ! n) ++ (\<lambda>k. if h k mod length t < n then table_map h t k else None)"
    using Suc d n by (simp add: take_Suc_conv_app_nth fold_insert_map)
  then show ?case
    by (auto simp: map_add_def m fun_eq_iff less_Suc_eq split: option.splits)
qed

lemma get_map_eq: "table_wf h t \<Longrightarrow> get_map t = table_map h t"
  using get_map_prefix [of h t "length t"]
  by (auto simp: get_map_def table_wf_def fun_eq_iff)

section \<open>Properties\<close>

text \<open>
  C10. The hash table is a map: whatever the hash function and the number \<open>n > 0\<close> of buckets, every
  sequence of look-ups, updates and removals is answered as by a finite map, \<open>get_map\<close> then
  returns that map, and no operation fails; with no bucket every operation divides by zero.
\<close>

theorem lookup_table_is_map:
  "(0 < n \<longrightarrow> (\<exists>vs t. impl_table (value_for h) (add_or_update_mapping h) (remove_mapping h) cs
        (threadsafe_lookup_table n) = Inr (vs, t) \<and> spec_table cs Map.empty = (vs, get_map t))) \<and>
   value_for h k d (threadsafe_lookup_table 0) = Inl DivByZero"
proof -
  have "\<exists>vs t. impl_table (value_for h) (add_or_update_mapping h) (remove_mapping h) cs
        (threadsafe_lookup_table n) = Inr (vs, t) \<and> spec_table cs Map.empty = (vs, get_map t)" if n: "0 < n"
  proof -
    obtain vs t where "impl_table (value_for h) (add_or_update_mapping h) (remove_mapping h) cs
        (threadsafe_lookup_table n) = Inr (vs, t)" "table_wf h t"
      "spec_table cs (table_map h (threadsafe_lookup_table n)) = (vs, table_map h t)"
      using hash.table_refine [of h "threadsafe_lookup_table n" cs] table_wf_init [OF n] by blast
    then show ?thesis
      using n by (auto simp: get_map_eq table_map_init)
  qed
  then show ?thesis
    by (simp add: value_for_def get_bucket_def threadsafe_lookup_table_def)
qed

theorem lookup_table_is_map_witness:
  "\<exists>vs t. impl_table (value_for (\<lambda>k. k)) (add_or_update_mapping (\<lambda>k. k)) (remove_mapping (\<lambda>k. k))
      [TAdd 1 10, TAdd (20 :: nat) (5 :: nat), TAdd 1 11, TRemove 20, TValue 1 0, TValue 20 7]
      (threadsafe_lookup_table 19) = Inr (vs, t) \<and> vs = [11, 7] \<and> get_map t = [1 \<mapsto> 11]"
proof -
  let ?cs = "[TAdd 1 10, TAdd (20 :: nat) (5 :: nat), TAdd 1 11, TRemove 20, TValue 1 0, TValue 20 7]"
  have s: "spec_table ?cs Map.empty = ([11, 7], [1 \<mapsto> 11])"
    by (auto simp: fun_eq_iff)
  obtain vs t where "impl_table (value_for (\<lambda>k. k)) (add_or_update_mapping (\<lambda>k. k)) (remove_mapping (\<lambda>k. k))
      ?cs (threadsafe_lookup_table 19) = Inr (vs, t)" "spec_table ?cs Map.empty = (vs, get_map t)"
    using lookup_table_is_map [of 19 "\<lambda>k. k" ?cs 0 "0 :: nat"] by (auto simp del: impl_table.simps spec_table.simps)
  with s show ?thesis by (metis prod.inject)
qed

end
