(* ===== verification/SafeList.thy ===== *)
theory SafeList
  imports Prelude "HOL-Library.Sublist"
begin

text \<open>
  The node-locking lists of \<open>src/Concurrent/day16-threadsafelist\<close>: \<open>threadsafe_list\<close> and
  \<open>double_push_list\<close>, which keeps a pointer to its last node. The operations walk the list hand
  over hand, so threads do not overtake each other and each operation is a function on the
  chain of nodes; only \<open>push_back\<close>, which reads \<open>last_node_ptr\<close> before it locks anything, is
  taken apart into its steps.
\<close>

section \<open>threadsafe_list\<close>

definition tsl_push_front :: "'a \<Rightarrow> 'a list \<Rightarrow> 'a list" where
  "tsl_push_front value l = value # l"

text \<open>\<open>for_each\<close> with a function on a state that it may change.\<close>

fun tsl_for_each :: "('a \<Rightarrow> 's \<Rightarrow> 'a \<times> 's) \<Rightarrow> 'a list \<Rightarrow> 's \<Rightarrow> 'a list \<times> 's" where
  "tsl_for_each f [] s = ([], s)"
| "tsl_for_each f (v # l) s = (let (v', s1) = f v s; (l', s2) = tsl_for_each f l s1 in (v' # l', s2))"

fun tsl_find_first_if :: "('a \<Rightarrow> bool) \<Rightarrow> 'a list \<Rightarrow> 'a option" where
  "tsl_find_first_if p [] = None"
| "tsl_find_first_if p (v # l) = (if p v then Some v else tsl_find_first_if p l)"

fun tsl_remove_if :: "('a \<Rightarrow> bool) \<Rightarrow> 'a list \<Rightarrow> 'a list" where
  "tsl_remove_if p [] = []"
| "tsl_remove_if p (v # l) = (if p v then tsl_remove_if p l else v # tsl_remove_if p l)"

section \<open>double_push_list\<close>

text \<open>
  The chain after the head node, as addresses with their values; address 0 is the head node.
\<close>

record 'a dlist =
  dchain :: "(nat \<times> 'a) list"
  last_node_ptr :: nat
  dfresh :: nat

definition double_push_list :: "'a dlist" where
  "double_push_list = \<lparr>dchain = [], last_node_ptr = 0, dfresh = 1\<rparr>"

definition dl_push_front :: "'a \<Rightarrow> 'a dlist \<Rightarrow> 'a dlist" where
  "dl_push_front value l =
     (let a = dfresh l;
          l1 = l\<lparr>dchain := (a, value) # dchain l, dfresh := a + 1\<rparr> in
      if dchain l = [] then l1\<lparr>last_node_ptr := a\<rparr> else l1)"

text \<open>
  \<open>last_node_ptr->next = std::move(new_node)\<close> drops whatever followed that node; a pointer to a
  node that is gone is a use after free.
\<close>

fun link_after :: "nat \<Rightarrow> (nat \<times> 'a) \<Rightarrow> (nat \<times> 'a) list \<Rightarrow> (nat \<times> 'a) list res" where
  "link_after p n [] = Inl UseAfterFree"
| "link_after p n (m # l) =
     (if fst m = p then Inr [m, n] else rbind (link_after p n l) (\<lambda>l'. Inr (m # l')))"

definition dl_push_back :: "'a \<Rightarrow> 'a dlist \<Rightarrow> 'a dlist res" where
  "dl_push_back value l =
     (let a = dfresh l in
      rbind (if last_node_ptr l = 0 then Inr [(a, value)]
             else link_after (last_node_ptr l) (a, value) (dchain l)) (\<lambda>c.
      Inr (l\<lparr>dchain := c, last_node_ptr := a, dfresh := a + 1\<rparr>)))"

text \<open>The walk of \<open>remove_if\<close>: \<open>current\<close> is the node before the rest of the chain.\<close>

fun remove_walk :: "('a \<Rightarrow> bool) \<Rightarrow> nat \<Rightarrow> (nat \<times> 'a) list \<Rightarrow> nat \<Rightarrow> (nat \<times> 'a) list \<times> nat" where
  "remove_walk p current [] lst = ([], lst)"
| "remove_walk p current (n # l) lst =
     (if p (snd n) then remove_walk p current l (if l = [] then current else lst)
      else (let (l', lst') = remove_walk p (fst n) l lst in (n # l', lst')))"

definition dl_remove_if :: "('a \<Rightarrow> bool) \<Rightarrow> 'a dlist \<Rightarrow> 'a dlist" where
  "dl_remove_if p l = (let (c, lst) = remove_walk p 0 (dchain l) (last_node_ptr l) in
     l\<lparr>dchain := c, last_node_ptr := lst\<rparr>)"

fun remove_first_walk ::
  "('a \<Rightarrow> bool) \<Rightarrow> nat \<Rightarrow> (nat \<times> 'a) list \<Rightarrow> nat \<Rightarrow> bool \<times> (nat \<times> 'a) list \<times> nat" where
  "remove_first_walk p current [] lst = (False, [], lst)"
| "remove_first_walk p current (n # l) lst =
     (if p (snd n) then (True, l, if l = [] then current else lst)
      else (let (b, l', lst') = remove_first_walk p (fst n) l lst in (b, n # l', lst')))"

definition dl_remove_first :: "('a \<Rightarrow> bool) \<Rightarrow> 'a dlist \<Rightarrow> bool \<times> 'a dlist" where
  "dl_remove_first p l = (let (b, c, lst) = remove_first_walk p 0 (dchain l) (last_node_ptr l) in
     (b, l\<lparr>dchain := c, last_node_ptr := lst\<rparr>))"

fun insert_walk :: "('a \<Rightarrow> bool) \<Rightarrow> (nat \<times> 'a) \<Rightarrow> (nat \<times> 'a) list \<Rightarrow> (nat \<times> 'a) list" where
  "insert_walk p new [] = []"
| "insert_walk p new (n # l) = (if p (snd n) then new # n # l else n # insert_walk p new l)"

definition dl_insert_if :: "('a \<Rightarrow> bool) \<Rightarrow> 'a \<Rightarrow> 'a dlist \<Rightarrow> 'a dlist" where
  "dl_insert_if p value l =
     l\<lparr>dchain := insert_walk p (dfresh l, value) (dchain l), dfresh := dfresh l + 1\<rparr>"

fun dl_find_first_if :: "('a \<Rightarrow> bool) \<Rightarrow> (nat \<times> 'a) list \<Rightarrow> 'a option" where
  "dl_find_first_if p [] = None"
| "dl_find_first_if p (n # l) = (if p (snd n) then Some (snd n) else dl_find_first_if p l)"

fun dl_for_each :: "('a \<Rightarrow> 's \<Rightarrow> 'a \<times> 's) \<Rightarrow> (nat \<times> 'a) list \<Rightarrow> 's \<Rightarrow> (nat \<times> 'a) list \<times> 's" where
  "dl_for_each f [] s = ([], s)"
| "dl_for_each f (n # l) s =
     (let (v, s1) = f (snd n) s; (l', s2) = dl_for_each f l s1 in ((fst n, v) # l', s2))"

section \<open>The last pointer\<close>

definition dl_values :: "'a dlist \<Rightarrow> 'a list" where
  "dl_values l = map snd (dchain l)"

definition last_addr :: "nat \<Rightarrow> (nat \<times> 'a) list \<Rightarrow> nat" where
  "last_addr current c = (if c = [] then current else fst (last c))"

definition dl_wf :: "'a dlist \<Rightarrow> bool" where
  "dl_wf l \<longleftrightarrow> last_node_ptr l = last_addr 0 (dchain l) \<and> distinct (map fst (dchain l)) \<and>
     (\<forall>n \<in> set (dchain l). 0 < fst n \<and> fst n < dfresh l) \<and> 0 < dfresh l"

lemma link_after_last:
  "c \<noteq> [] \<Longrightarrow> distinct (map fst c) \<Longrightarrow> link_after (fst (last c)) n c = Inr (c @ [n])"
  by (induction c) auto

lemma last_addr_Cons: "last_addr cur (n # l) = last_addr (fst n) l"
  by (simp add: last_addr_def)

lemma remove_walk_ok:
  "remove_walk p cur l (last_addr cur l) =
     (filter (\<lambda>n. \<not> p (snd n)) l, last_addr cur (filter (\<lambda>n. \<not> p (snd n)) l))"
proof (induction l arbitrary: cur)
  case Nil
  then show ?case by simp
next
  case (Cons n l)
  have "last_addr (fst n) l = last_addr cur l" if "l \<noteq> []"
    using that by (simp add: last_addr_def)
  with Cons show ?case
    by (cases "l = []") (auto simp: last_addr_Cons, auto simp: last_addr_def)
qed

fun drop_first :: "('a \<Rightarrow> bool) \<Rightarrow> 'a list \<Rightarrow> 'a list" where
  "drop_first p [] = []"
| "drop_first p (v # l) = (if p v then l else v # drop_first p l)"

lemma remove_first_walk_ok:
  "remove_first_walk p cur l (last_addr cur l) =
     (list_ex (\<lambda>n. p (snd n)) l, drop_first (\<lambda>n. p (snd n)) l,
      last_addr cur (drop_first (\<lambda>n. p (snd n)) l))"
proof (induction l arbitrary: cur)
  case Nil
  then show ?case by simp
next
  case (Cons n l)
  have "last_addr (fst n) l = last_addr cur l" if "l \<noteq> []"
    using that by (simp add: last_addr_def)
  with Cons show ?case
    by (cases "l = []") (auto simp: last_addr_Cons, auto simp: last_addr_def)
qed

section \<open>Refinement to lists\<close>

datatype 'a list_op =
    PushFront 'a | PushBack 'a | RemoveIf "'a \<Rightarrow> bool" | RemoveFirst "'a \<Rightarrow> bool"
  | InsertIf "'a \<Rightarrow> bool" 'a

fun dl_op :: "'a list_op \<Rightarrow> 'a dlist \<Rightarrow> 'a dlist res" where
  "dl_op (PushFront v) l = Inr (dl_push_front v l)"
| "dl_op (PushBack v) l = dl_push_back v l"
| "dl_op (RemoveIf p) l = Inr (dl_remove_if p l)"
| "dl_op (RemoveFirst p) l = Inr (snd (dl_remove_first p l))"
| "dl_op (InsertIf p v) l = Inr (dl_insert_if p v l)"

fun dl_ops :: "'a list_op list \<Rightarrow> 'a dlist \<Rightarrow> 'a dlist res" where
  "dl_ops [] l = Inr l"
| "dl_ops (c # cs) l = rbind (dl_op c l) (dl_ops cs)"

text \<open>Insertion before the first element that satisfies \<open>p\<close>, if there is one.\<close>

definition insert_before :: "('a \<Rightarrow> bool) \<Rightarrow> 'a \<Rightarrow> 'a list \<Rightarrow> 'a list" where
  "insert_before p v xs =
     (if list_ex p xs then takeWhile (\<lambda>x. \<not> p x) xs @ v # dropWhile (\<lambda>x. \<not> p x) xs else xs)"

fun list_spec :: "'a list_op \<Rightarrow> 'a list \<Rightarrow> 'a list" where
  "list_spec (PushFront v) xs = v # xs"
| "list_spec (PushBack v) xs = xs @ [v]"
| "list_spec (RemoveIf p) xs = filter (\<lambda>x. \<not> p x) xs"
| "list_spec (RemoveFirst p) xs = takeWhile (\<lambda>x. \<not> p x) xs @ tl (dropWhile (\<lambda>x. \<not> p x) xs)"
| "list_spec (InsertIf p v) xs = insert_before p v xs"

lemma drop_first_spec:
  "map f (drop_first (\<lambda>x. p (f x)) l) = takeWhile (\<lambda>x. \<not> p x) (map f l) @ tl (dropWhile (\<lambda>x. \<not> p x) (map f l))"
  by (induction l) auto

lemma drop_first_subseq: "subseq (drop_first p l) l"
  by (induction l) auto

lemma insert_walk_values: "map snd (insert_walk p n l) = insert_before p (snd n) (map snd l)"
  by (induction l) (auto simp: insert_before_def)

lemma insert_walk_set: "set (insert_walk p n l) \<subseteq> insert n (set l)"
  by (induction l) auto

lemma insert_walk_distinct:
  "distinct (map fst (n # l)) \<Longrightarrow> distinct (map fst (insert_walk p n l))"
proof (induction l)
  case Nil
  then show ?case by simp
next
  case (Cons m l)
  have "fst ` set (insert_walk p n l) \<subseteq> insert (fst n) (fst ` set l)"
    using insert_walk_set [of p n l] by auto
  with Cons show ?case by auto
qed

lemma insert_walk_last: "last_addr cur (insert_walk p n l) = last_addr cur l"
  by (induction l arbitrary: cur) (auto simp: last_addr_Cons)

lemma subseq_keys:
  "subseq c d \<Longrightarrow> set c \<subseteq> set d \<and> (distinct (map fst d) \<longrightarrow> distinct (map fst c))"
  by (induction rule: list_emb.induct) auto

lemma wf_subseq:
  assumes "dl_wf l" and "subseq c (dchain l)"
  shows "dl_wf (l\<lparr>dchain := c, last_node_ptr := last_addr 0 c\<rparr>)"
proof -
  have "set c \<subseteq> set (dchain l)" "distinct (map fst c)"
    using subseq_keys [OF assms(2)] assms(1) by (auto simp: dl_wf_def)
  then show ?thesis using assms(1) by (auto simp: dl_wf_def)
qed

lemma dl_op_ok:
  assumes w: "dl_wf l"
  shows "\<exists>l'. dl_op c l = Inr l' \<and> dl_wf l' \<and> dl_values l' = list_spec c (dl_values l)"
proof (cases c)
  case (PushFront v)
  have "dfresh l \<notin> fst ` set (dchain l)" using w by (auto simp: dl_wf_def)
  with w PushFront show ?thesis
    by (auto simp: dl_push_front_def dl_wf_def dl_values_def Let_def last_addr_def less_SucI)
next
  case (PushBack v)
  have f: "dfresh l \<notin> fst ` set (dchain l)" using w by (auto simp: dl_wf_def)
  have "dl_push_back v l = Inr (l\<lparr>dchain := dchain l @ [(dfresh l, v)], last_node_ptr := dfresh l,
      dfresh := dfresh l + 1\<rparr>)"
  proof (cases "dchain l = []")
    case True
    with w show ?thesis by (simp add: dl_push_back_def dl_wf_def last_addr_def Let_def)
  next
    case False
    then have "last (dchain l) \<in> set (dchain l)" by simp
    then have "last_node_ptr l \<noteq> 0" "last_node_ptr l = fst (last (dchain l))"
      using w False by (fastforce simp: dl_wf_def last_addr_def)+
    moreover have "link_after (fst (last (dchain l))) (dfresh l, v) (dchain l) = Inr (dchain l @ [(dfresh l, v)])"
      using False w by (intro link_after_last) (simp_all add: dl_wf_def)
    ultimately show ?thesis
      by (simp add: dl_push_back_def Let_def)
  qed
  with w f PushBack show ?thesis
    by (auto simp: dl_wf_def dl_values_def last_addr_def less_SucI)
next
  case (RemoveIf p)
  have "dl_remove_if p l = l\<lparr>dchain := filter (\<lambda>n. \<not> p (snd n)) (dchain l),
      last_node_ptr := last_addr 0 (filter (\<lambda>n. \<not> p (snd n)) (dchain l))\<rparr>"
    using w remove_walk_ok [of p 0 "dchain l"] by (simp add: dl_remove_if_def dl_wf_def)
  with wf_subseq [OF w, of "filter (\<lambda>n. \<not> p (snd n)) (dchain l)"] RemoveIf show ?thesis
    by (simp add: subseq_filter_left dl_values_def filter_map comp_def)
next
  case (RemoveFirst p)
  let ?c = "drop_first (\<lambda>n. p (snd n)) (dchain l)"
  have "snd (dl_remove_first p l) = l\<lparr>dchain := ?c, last_node_ptr := last_addr 0 ?c\<rparr>"
    using w remove_first_walk_ok [of p 0 "dchain l"] by (simp add: dl_remove_first_def dl_wf_def)
  with wf_subseq [OF w, of ?c] RemoveFirst show ?thesis
    by (simp add: drop_first_subseq dl_values_def drop_first_spec)
next
  case (InsertIf p v)
  have f: "dfresh l \<notin> fst ` set (dchain l)" using w by (auto simp: dl_wf_def)
  have "dl_wf (dl_insert_if p v l)"
    using w f insert_walk_distinct [of "(dfresh l, v)" "dchain l" p]
      insert_walk_set [of p "(dfresh l, v)" "dchain l"]
    by (fastforce simp: dl_wf_def dl_insert_if_def insert_walk_last)
  with InsertIf show ?thesis
    by (simp add: dl_insert_if_def dl_values_def insert_walk_values)
qed

section \<open>The steps of \<open>push_back\<close>\<close>

text \<open>
  \<open>std::lock(last_node_ptr->m, last_ptr_mtx)\<close> reads \<open>last_node_ptr\<close> before it holds a mutex; the
  next line reads it again and adopts the mutex of the node it finds then.
\<close>

datatype 'a pb_pc =
    PBIdle
  | PBRead 'a              \<comment> \<open>evaluates \<open>last_node_ptr->m\<close>\<close>
  | PBLock 'a nat          \<comment> \<open>waits for that mutex and \<open>last_ptr_mtx\<close>\<close>
  | PBLink 'a              \<comment> \<open>adopts, links, unlocks\<close>

record 'a pb =
  pblist :: "'a dlist"
  node_mutex :: "nat \<Rightarrow> nat option"   \<comment> \<open>owner of a node's mutex; node 0 is the head\<close>
  last_mutex :: "nat option"
  pbpc :: "nat \<Rightarrow> 'a pb_pc"

definition pb_init :: "'a pb" where
  "pb_init = \<lparr>pblist = double_push_list, node_mutex = (\<lambda>_. None), last_mutex = None, pbpc = (\<lambda>_. PBIdle)\<rparr>"

definition pb_step :: "nat \<Rightarrow> 'a pb \<Rightarrow> 'a pb option" where
  "pb_step i s = (case pbpc s i of
     PBIdle \<Rightarrow> None
   | PBRead v \<Rightarrow> Some (s\<lparr>pbpc := (pbpc s)(i := PBLock v (last_node_ptr (pblist s)))\<rparr>)
   | PBLock v a \<Rightarrow>
       if node_mutex s a = None \<and> last_mutex s = None
       then Some (s\<lparr>node_mutex := (node_mutex s)(a := Some i), last_mutex := Some i,
              pbpc := (pbpc s)(i := PBLink v)\<rparr>)
       else None
   | PBLink v \<Rightarrow> (case dl_push_back v (pblist s) of
         Inl e \<Rightarrow> None
       | Inr l \<Rightarrow> Some (s\<lparr>pblist := l,
              node_mutex := (node_mutex s)(last_node_ptr (pblist s) := None), last_mutex := None,
              pbpc := (pbpc s)(i := PBIdle)\<rparr>)))"

datatype 'a pb_event =
    CallPushBack nat 'a | StepPushBack nat
  | LockHead nat       \<comment> \<open>the first step of every other operation\<close>

fun pb_exec :: "'a pb_event \<Rightarrow> 'a pb \<Rightarrow> 'a pb option" where
  "pb_exec (CallPushBack i v) s = (if pbpc s i = PBIdle then Some (s\<lparr>pbpc := (pbpc s)(i := PBRead v)\<rparr>) else None)"
| "pb_exec (StepPushBack i) s = pb_step i s"
| "pb_exec (LockHead i) s = (if node_mutex s 0 = None then Some (s\<lparr>node_mutex := (node_mutex s)(0 := Some i)\<rparr>) else None)"

lemma dl_wf_init: "dl_wf (double_push_list :: 'a dlist)" "dl_values (double_push_list :: 'a dlist) = []"
  by (simp_all add: dl_wf_def double_push_list_def last_addr_def dl_values_def)

lemma dl_ops_ok:
  "dl_wf l \<Longrightarrow> \<exists>l'. dl_ops cs l = Inr l' \<and> dl_wf l' \<and> dl_values l' = fold list_spec cs (dl_values l)"
proof (induction cs arbitrary: l)
  case (Cons c cs)
  obtain u where "dl_op c l = Inr u" "dl_wf u" "dl_values u = list_spec c (dl_values l)"
    using dl_op_ok [OF Cons.prems] by blast
  with Cons.IH [of u] show ?case by simp
qed simp

section \<open>Properties\<close>

text \<open>
  C13. \<open>double_push_list\<close> keeps its pointer to the last node right: in every sequence of insertions
  at both ends, insertions before an element and removals, no operation uses a node that is
  gone, and the values are those of the same operations on a list.
\<close>

theorem double_list_refines:
  "\<exists>l. dl_ops cs double_push_list = Inr l \<and> dl_values l = fold list_spec cs [] \<and>
    last_node_ptr l = last_addr 0 (dchain l)"
  using dl_ops_ok [OF dl_wf_init(1), of cs, unfolded dl_wf_init(2)] by (fastforce simp: dl_wf_def)

text \<open>
  C30. The representation of \<open>double_push_list\<close> stays well formed under every sequence of operations:
  the nodes have different addresses, all of them live, none is the head, and \<open>last_node_ptr\<close> is
  the address of the last of them, the head when there is none.
\<close>

theorem double_list_well_formed:
  "case dl_ops cs (double_push_list :: 'a dlist) of Inl e \<Rightarrow> False | Inr l \<Rightarrow> dl_wf l"
  using dl_ops_ok [OF dl_wf_init(1), of cs] by auto

text \<open>
  C25. Two concurrent calls of \<open>push_back\<close> can leave the list locked for ever: one thread reads
  \<open>last_node_ptr\<close>, the other completes a \<open>push_back\<close>, and the first then locks the old node but
  adopts and unlocks the new one. Both calls return, no thread is inside, yet the head node's
  mutex stays locked, so no later operation can start.
\<close>

theorem push_back_leaves_lock:
  "\<exists>es s. run pb_exec es pb_init = Some s \<and> dl_values (pblist s) = [2, 1 :: nat] \<and>
    (\<forall>i. pbpc s i = PBIdle) \<and> node_mutex s 0 = Some 1 \<and> (\<forall>i. pb_exec (LockHead i) s = None)"
proof -
  let ?es = "[CallPushBack 1 (1 :: nat), StepPushBack 1, CallPushBack 2 2, StepPushBack 2, StepPushBack 2,
    StepPushBack 2, StepPushBack 1, StepPushBack 1]"
  obtain s where "run pb_exec ?es pb_init = Some s" "dl_values (pblist s) = [2, 1]"
    "\<forall>i. pbpc s i = PBIdle" "node_mutex s 0 = Some 1"
    by (simp add: pb_init_def pb_step_def dl_push_back_def double_push_list_def dl_values_def Let_def)
  then show ?thesis by (intro exI [of _ ?es] exI [of _ s]) simp
qed

end
