(* ===== verification/QuickSort.thy ===== *)
theory QuickSort
  imports Prelude "HOL-Library.Multiset"
begin

text \<open>
  The sorting functions of \<open>src/Concurrent/day19-parallensort/parallen_sort.h\<close>: the in-place
  quick sort on an array and the list versions. \<open>std::partition\<close> keeps the elements and puts
  those that satisfy the predicate first, in an order the standard leaves open; the model takes
  the order of the input, and the results do not depend on it. A future is the value of the
  call it runs.
\<close>

section \<open>The array version\<close>

text \<open>
  \<open>int\<close> indices into an array. \<open>while (arr[right] >= key && left < right) right--;\<close> and its
  mirror image, then the loop of both.
\<close>

function scan_right :: "'a::linorder list \<Rightarrow> 'a \<Rightarrow> int \<Rightarrow> int \<Rightarrow> int" where
  "scan_right arr key left right =
     (if arr ! nat right \<ge> key \<and> left < right then scan_right arr key left (right - 1) else right)"
  by pat_completeness auto
termination by (relation "measure (\<lambda>(arr, key, left, right). nat (right - left))") auto

function scan_left :: "'a::linorder list \<Rightarrow> 'a \<Rightarrow> int \<Rightarrow> int \<Rightarrow> int" where
  "scan_left arr key left right =
     (if arr ! nat left \<le> key \<and> left < right then scan_left arr key (left + 1) right else left)"
  by pat_completeness auto
termination by (relation "measure (\<lambda>(arr, key, left, right). nat (right - left))") auto

declare scan_right.simps [simp del] scan_left.simps [simp del]

definition swap :: "int \<Rightarrow> int \<Rightarrow> 'a list \<Rightarrow> 'a list" where
  "swap i j arr = arr[nat i := arr ! nat j, nat j := arr ! nat i]"

lemma scan_right_bounds:
  "left \<le> right \<Longrightarrow> left \<le> scan_right arr key left right \<and> scan_right arr key left right \<le> right"
proof (induction arr key left right rule: scan_right.induct)
  case (1 arr key left right)
  then show ?case by (subst (1 2) scan_right.simps) auto
qed

lemma scan_left_bounds:
  "left \<le> right \<Longrightarrow> left \<le> scan_left arr key left right \<and> scan_left arr key left right \<le> right"
proof (induction arr key left right rule: scan_left.induct)
  case (1 arr key left right)
  then show ?case by (subst (1 2) scan_left.simps) auto
qed

lemma scan_right_stop:
  "left \<le> right \<Longrightarrow> scan_right arr key left right = left \<or> arr ! nat (scan_right arr key left right) < key"
proof (induction arr key left right rule: scan_right.induct)
  case (1 arr key left right)
  then show ?case by (subst (1 2) scan_right.simps) auto
qed

lemma scan_left_stop:
  "left \<le> right \<Longrightarrow> scan_left arr key left right = right \<or> key < arr ! nat (scan_left arr key left right)"
proof (induction arr key left right rule: scan_left.induct)
  case (1 arr key left right)
  then show ?case by (subst (1 2) scan_left.simps) auto
qed

lemma scan_right_passed:
  "left \<le> right \<Longrightarrow> scan_right arr key left right < i \<Longrightarrow> i \<le> right \<Longrightarrow> key \<le> arr ! nat i"
proof (induction arr key left right rule: scan_right.induct)
  case (1 arr key left right)
  show ?case
  proof (cases "arr ! nat right \<ge> key \<and> left < right")
    case True
    with 1 show ?thesis by (cases "i = right") (auto simp: scan_right.simps [of arr key left right])
  next
    case False
    with 1 show ?thesis by (subst (asm) (2) scan_right.simps) auto
  qed
qed

lemma scan_left_passed:
  "left \<le> right \<Longrightarrow> left \<le> i \<Longrightarrow> i < scan_left arr key left right \<Longrightarrow> arr ! nat i \<le> key"
proof (induction arr key left right rule: scan_left.induct)
  case (1 arr key left right)
  show ?case
  proof (cases "arr ! nat left \<le> key \<and> left < right")
    case True
    with 1 show ?thesis by (cases "i = left") (auto simp: scan_left.simps [of arr key left right])
  next
    case False
    with 1 show ?thesis by (subst (asm) (2) scan_left.simps) auto
  qed
qed

text \<open>
  The loop of both; an index outside the array is an error. A turn that moves neither end finds
  \<open>arr[left] > key > arr[right]\<close> and swaps them, so that the next turn moves: the loop ends.
\<close>

function partition_loop :: "'a::linorder list \<Rightarrow> 'a \<Rightarrow> int \<Rightarrow> int \<Rightarrow> ('a list \<times> int) res" where
  "partition_loop arr key left right =
     (if left < 0 \<or> right \<ge> int (length arr) then Inl OutOfBounds
      else if left < right then
        (let r = scan_right arr key left right;
             l = scan_left arr key left r in
         partition_loop (swap l r arr) key l r)
      else Inr (arr, left))"
  by pat_completeness auto
termination
proof (relation "measure (\<lambda>(arr, key, left, right). 2 * nat (right - left) +
    (if key < arr ! nat left \<and> arr ! nat right < key then 1 else 0))")
  fix arr :: "'a list" and key left right r l
  assume b: "\<not> (left < 0 \<or> right \<ge> int (length arr))" and lr: "left < right"
    and r: "r = scan_right arr key left right" and l: "l = scan_left arr key left r"
  have rb: "left \<le> r" "r \<le> right"
    using scan_right_bounds [of left right arr key] lr r by auto
  have lb: "left \<le> l" "l \<le> r"
    using scan_left_bounds [of left r arr key] rb l by auto
  show "((swap l r arr, key, l, r), arr, key, left, right) \<in> measure (\<lambda>(arr, key, left, right).
      2 * nat (right - left) + (if key < arr ! nat left \<and> arr ! nat right < key then 1 else 0))"
  proof (cases "l = left \<and> r = right")
    case True
    then have a: "key < arr ! nat left" "arr ! nat right < key"
      using scan_right_stop [of left right arr key] scan_left_stop [of left r arr key] lr r l by auto
    have "swap l r arr ! nat l = arr ! nat right"
      using True b lr by (auto simp: swap_def nth_list_update)
    with True a show ?thesis by auto
  next
    case False
    then have "nat (r - l) < nat (right - left)" using rb lb by auto
    then show ?thesis by auto
  qed
qed simp

declare partition_loop.simps [simp del]

lemma partition_loop_bounds:
  "partition_loop arr key left right = Inr (arr', p) \<Longrightarrow> left \<le> right \<Longrightarrow> left \<le> p \<and> p \<le> right"
proof (induction arr key left right rule: partition_loop.induct)
  case (1 arr key left right)
  let ?r = "scan_right arr key left right" and ?l = "scan_left arr key left (scan_right arr key left right)"
  have b: "left \<le> ?r" "?r \<le> right" "left \<le> ?l" "?l \<le> ?r"
    using scan_right_bounds [of left right arr key] scan_left_bounds [of left ?r arr key] "1.prems"(2)
    by auto
  show ?case
    using "1.prems" "1.IH" [OF _ _ refl refl] b
    by (auto simp: partition_loop.simps [of arr key left right] Let_def split: if_splits)
qed

function quick_sort_recursive :: "'a::linorder list \<Rightarrow> int \<Rightarrow> int \<Rightarrow> 'a list res" where
  "quick_sort_recursive arr start end =
     (if start \<ge> end then Inr arr
      else
        (let key = arr ! nat start in
         case partition_loop arr key start end of
           Inl e \<Rightarrow> Inl e
         | Inr (arr1, left) \<Rightarrow>
             (let arr2 = (if arr1 ! nat left < key then swap left start arr1 else arr1) in
              case quick_sort_recursive arr2 start (left - 1) of
                Inl e \<Rightarrow> Inl e
              | Inr arr3 \<Rightarrow> quick_sort_recursive arr3 (left + 1) end)))"
  by pat_completeness auto
termination
  by (relation "measure (\<lambda>(arr, start, end). nat (end - start))")
    (auto dest!: partition_loop_bounds)

declare quick_sort_recursive.simps [simp del]

definition quick_sort :: "'a::linorder list \<Rightarrow> int \<Rightarrow> 'a list res" where
  "quick_sort arr len = quick_sort_recursive arr 0 (len - 1)"

text \<open>\<open>ys\<close> permutes \<open>xs\<close> inside the range \<open>lo..hi\<close> and agrees with it outside.\<close>

definition shuffle :: "int \<Rightarrow> int \<Rightarrow> 'a list \<Rightarrow> 'a list \<Rightarrow> bool" where
  "shuffle lo hi xs ys \<longleftrightarrow> mset ys = mset xs \<and> take (nat lo) ys = take (nat lo) xs \<and>
     drop (nat (hi + 1)) ys = drop (nat (hi + 1)) xs"

lemma shuffle_refl [simp]: "shuffle lo hi xs xs"
  by (simp add: shuffle_def)

lemma shuffle_trans: "shuffle lo hi xs ys \<Longrightarrow> shuffle lo hi ys zs \<Longrightarrow> shuffle lo hi xs zs"
  by (simp add: shuffle_def)

lemma shuffle_length: "shuffle lo hi xs ys \<Longrightarrow> length ys = length xs"
  by (metis shuffle_def size_mset)

lemma shuffle_widen:
  assumes "shuffle lo hi xs ys" "lo' \<le> lo" "hi \<le> hi'"
  shows "shuffle lo' hi' xs ys"
proof -
  have "take (nat lo') ys = take (nat lo') (take (nat lo) ys)" for ys :: "'a list"
    using assms(2) by (simp add: min_def nat_le_iff)
  moreover have "drop (nat (hi' + 1)) ys = drop (nat (hi' + 1) - nat (hi + 1)) (drop (nat (hi + 1)) ys)" for ys :: "'a list"
    using assms(3) by (simp add: nat_le_iff)
  ultimately show ?thesis using assms(1) unfolding shuffle_def by metis
qed

lemma shuffle_below: "shuffle lo hi xs ys \<Longrightarrow> i < lo \<Longrightarrow> 0 \<le> i \<Longrightarrow> ys ! nat i = xs ! nat i"
  unfolding shuffle_def by (metis nth_take nat_less_eq_zless)

lemma shuffle_above:
  assumes "shuffle lo hi xs ys" "hi < i" "i < int (length xs)" "0 \<le> hi + 1"
  shows "ys ! nat i = xs ! nat i"
proof -
  have "drop (nat (hi + 1)) ys ! (nat i - nat (hi + 1)) = drop (nat (hi + 1)) xs ! (nat i - nat (hi + 1))"
    using assms(1) by (simp add: shuffle_def)
  moreover have "nat (hi + 1) + (nat i - nat (hi + 1)) = nat i" "nat (hi + 1) \<le> length xs"
    using assms by linarith+
  ultimately show ?thesis using shuffle_length [OF assms(1)] by (simp add: nth_drop)
qed

lemma mset_parts:
  assumes "m \<le> n" "n \<le> length xs"
  shows "mset xs = mset (take m xs) + mset (take (n - m) (drop m xs)) + mset (drop n xs)"
proof -
  have "xs = take m xs @ take (n - m) (drop m xs) @ drop n xs"
    using assms by (metis append_take_drop_id drop_drop le_add_diff_inverse2)
  then show ?thesis by (metis mset_append union_assoc)
qed

lemma shuffle_all:
  assumes sh: "shuffle lo hi xs ys" and b: "0 \<le> lo" "lo \<le> hi + 1" "hi < int (length xs)"
    and P: "\<And>i. lo \<le> i \<Longrightarrow> i \<le> hi \<Longrightarrow> P (xs ! nat i)" and i: "lo \<le> i" "i \<le> hi"
  shows "P (ys ! nat i)"
proof -
  define m n where mn: "m = nat lo" "n = nat (hi + 1)"
  have le: "m \<le> n" "n \<le> length xs" "length ys = length xs"
    using b shuffle_length [OF sh] by (auto simp: mn)
  have "mset (take (n - m) (drop m ys)) = mset (take (n - m) (drop m xs))"
  proof -
    have e: "mset ys = mset xs" "take m ys = take m xs" "drop n ys = drop n xs"
      using sh by (simp_all add: shuffle_def mn)
    have "mset (take m xs) + mset (take (n - m) (drop m ys)) + mset (drop n xs) =
          mset (take m xs) + mset (take (n - m) (drop m xs)) + mset (drop n xs)"
      using mset_parts [of m n xs] mset_parts [of m n ys] le e by metis
    then show ?thesis by simp
  qed
  then have same: "set (take (n - m) (drop m ys)) = set (take (n - m) (drop m xs))"
    by (rule mset_eq_setD)
  have k: "nat i - m < n - m" "m + (nat i - m) = nat i" "nat i < length ys"
    using i b le by (auto simp: mn)
  then have "take (n - m) (drop m ys) ! (nat i - m) = ys ! nat i"
    using le by simp
  moreover have "nat i - m < length (take (n - m) (drop m ys))"
    using k le by simp
  ultimately have "ys ! nat i \<in> set (take (n - m) (drop m xs))"
    using same nth_mem by metis
  then obtain k where "k < n - m" "ys ! nat i = xs ! (m + k)"
    using le by (auto simp: in_set_conv_nth)
  then show ?thesis using P [of "int (m + k)"] b by (simp add: mn nat_add_distrib)
qed

lemma mset_swap_nth:
  "i < length xs \<Longrightarrow> j < length xs \<Longrightarrow> mset (xs[i := xs ! j, j := xs ! i]) = mset xs"
  by (rule mset_swap)

lemma shuffle_swap:
  "0 \<le> lo \<Longrightarrow> lo \<le> i \<Longrightarrow> lo \<le> j \<Longrightarrow> i \<le> hi \<Longrightarrow> j \<le> hi \<Longrightarrow> hi < int (length xs) \<Longrightarrow>
   shuffle lo hi xs (swap i j xs)"
  by (simp add: shuffle_def swap_def mset_swap_nth)

lemma swap_nth:
  "0 \<le> i \<Longrightarrow> 0 \<le> j \<Longrightarrow> i < int (length xs) \<Longrightarrow> j < int (length xs) \<Longrightarrow> 0 \<le> k \<Longrightarrow>
   swap i j xs ! nat k = (if k = j then xs ! nat i else if k = i then xs ! nat j else xs ! nat k)"
  by (auto simp: swap_def nth_list_update)

text \<open>
  The loop started on \<open>start..end\<close> with the pivot in \<open>arr[start]\<close>: the passed elements are
  on their side, and \<open>arr[left]\<close> is the pivot's place or smaller than the pivot.
\<close>

definition split_inv :: "int \<Rightarrow> int \<Rightarrow> 'a::linorder \<Rightarrow> 'a list \<Rightarrow> int \<Rightarrow> int \<Rightarrow> bool" where
  "split_inv start end key arr left right \<longleftrightarrow>
     0 \<le> start \<and> start \<le> left \<and> left \<le> right \<and> right \<le> end \<and> end < int (length arr) \<and>
     arr ! nat start = key \<and> (left = start \<or> arr ! nat left < key) \<and>
     (\<forall>i. start \<le> i \<and> i < left \<longrightarrow> arr ! nat i \<le> key) \<and>
     (\<forall>i. right < i \<and> i \<le> end \<longrightarrow> key \<le> arr ! nat i)"

lemma split_step:
  assumes inv: "split_inv start end key arr left right" and lr: "left < right"
    and r: "r = scan_right arr key left right" and l: "l = scan_left arr key left r"
  shows "split_inv start end key (swap l r arr) l r"
proof -
  note b = inv [unfolded split_inv_def]
  have rb: "left \<le> r" "r \<le> right" "r = left \<or> arr ! nat r < key"
    using scan_right_bounds [of left right arr key] scan_right_stop [of left right arr key] lr r by auto
  have lb: "left \<le> l" "l \<le> r" "l = r \<or> key < arr ! nat l"
    using scan_left_bounds [of left r arr key] scan_left_stop [of left r arr key] rb l by auto
  have low: "arr ! nat i \<le> key" if "start \<le> i" "i < l" for i
    using that b scan_left_passed [of left r i arr key] rb l by (cases "i < left") auto
  have high: "key \<le> arr ! nat i" if "r < i" "i \<le> end" for i
    using that b scan_right_passed [of left right arr key i] lr r by (cases "right < i") auto
  have nth: "swap l r arr ! nat k =
      (if k = r then arr ! nat l else if k = l then arr ! nat r else arr ! nat k)" if "0 \<le> k" for k
    using that b rb lb by (intro swap_nth) auto
  show ?thesis
  proof (cases "l = r")
    case True
    then have "swap l r arr = arr" by (simp add: swap_def)
    moreover have "l = start \<or> arr ! nat l < key"
      using True rb b by (cases "r = left") auto
    ultimately show ?thesis
      using b rb lb low high True by (simp add: split_inv_def)
  next
    case False
    then have k: "key < arr ! nat l" "arr ! nat r < key" "l < r"
      using lb rb by auto
    then have "l \<noteq> start" "r \<noteq> start" using b rb lb by auto
    have "swap l r arr ! nat start = key" "swap l r arr ! nat l < key"
      using \<open>l \<noteq> start\<close> \<open>r \<noteq> start\<close> k b lb by (simp_all add: nth)
    moreover have "swap l r arr ! nat i \<le> key" if "start \<le> i" "i < l" for i
      using that low [OF that] k b nth [of i] by simp
    moreover have "key \<le> swap l r arr ! nat i" if "r < i" "i \<le> end" for i
      using that high [OF that] k b lb nth [of i] by simp
    moreover have "length (swap l r arr) = length arr"
      by (simp add: swap_def)
    ultimately show ?thesis
      using b rb lb by (simp add: split_inv_def)
  qed
qed

lemma partition_loop_split:
  "split_inv start end key arr left right \<Longrightarrow>
   \<exists>arr' p. partition_loop arr key left right = Inr (arr', p) \<and>
     split_inv start end key arr' p p \<and> shuffle start end arr arr'"
proof (induction arr key left right rule: partition_loop.induct)
  case (1 arr key left right)
  note b = "1.prems" [unfolded split_inv_def]
  define r l where rl: "r = scan_right arr key left right" "l = scan_left arr key left r"
  show ?case
  proof (cases "left < right")
    case True
    have inv: "split_inv start end key (swap l r arr) l r"
      by (rule split_step [OF "1.prems" True rl])
    have sh: "shuffle start end arr (swap l r arr)"
      using inv b by (intro shuffle_swap) (auto simp: split_inv_def)
    have "partition_loop arr key left right = partition_loop (swap l r arr) key l r"
      using True b by (subst partition_loop.simps) (auto simp: rl Let_def)
    moreover have "\<not> (left < 0 \<or> int (length arr) \<le> right)"
      using b by simp
    then obtain arr' p where "partition_loop (swap l r arr) key l r = Inr (arr', p)"
      and "split_inv start end key arr' p p" and "shuffle start end (swap l r arr) arr'"
      using "1.IH" [OF _ True rl inv] by blast
    ultimately show ?thesis using shuffle_trans [OF sh] by metis
  next
    case False
    with b have lr: "left = right" by simp
    then have "partition_loop arr key left right = Inr (arr, left)"
      using b by (subst partition_loop.simps) auto
    with "1.prems" lr show ?thesis by auto
  qed
qed

text \<open>The recursion sorts its range and touches nothing else.\<close>

definition sorted_on :: "int \<Rightarrow> int \<Rightarrow> 'a::linorder list \<Rightarrow> bool" where
  "sorted_on lo hi xs \<longleftrightarrow> (\<forall>i j. lo \<le> i \<and> i \<le> j \<and> j \<le> hi \<longrightarrow> xs ! nat i \<le> xs ! nat j)"

lemma sorted_onD:
  "sorted_on lo hi xs \<Longrightarrow> lo \<le> i \<Longrightarrow> i \<le> j \<Longrightarrow> j \<le> hi \<Longrightarrow> xs ! nat i \<le> xs ! nat j"
  unfolding sorted_on_def by blast

lemma sorted_onI:
  "(\<And>i j. lo \<le> i \<Longrightarrow> i \<le> j \<Longrightarrow> j \<le> hi \<Longrightarrow> xs ! nat i \<le> xs ! nat j) \<Longrightarrow> sorted_on lo hi xs"
  unfolding sorted_on_def by blast

lemma sorted_on_join:
  assumes "sorted_on lo (p - 1) xs" "sorted_on (p + 1) hi xs"
    and low: "\<And>i. lo \<le> i \<Longrightarrow> i \<le> p - 1 \<Longrightarrow> xs ! nat i \<le> xs ! nat p"
    and high: "\<And>i. p + 1 \<le> i \<Longrightarrow> i \<le> hi \<Longrightarrow> xs ! nat p \<le> xs ! nat i"
  shows "sorted_on lo hi xs"
proof (rule sorted_onI)
  fix i j assume ij: "lo \<le> i" "i \<le> j" "j \<le> hi"
  consider "j \<le> p - 1" | "p + 1 \<le> i" | "i \<le> p - 1" "p + 1 \<le> j" | "i = p" "p + 1 \<le> j"
    | "j = p" "i \<le> p - 1" | "i = j" using ij by linarith
  then show "xs ! nat i \<le> xs ! nat j"
  proof cases
    case 1 then show ?thesis using sorted_onD [OF assms(1)] ij by blast
  next
    case 2 then show ?thesis using sorted_onD [OF assms(2)] ij by blast
  next
    case 3 then show ?thesis using low high ij by (blast intro: order_trans)
  next
    case 4 then show ?thesis using high ij by blast
  next
    case 5 then show ?thesis using low ij by blast
  next
    case 6 then show ?thesis by blast
  qed
qed

definition pivot_at :: "int \<Rightarrow> int \<Rightarrow> int \<Rightarrow> 'a::linorder list \<Rightarrow> bool" where
  "pivot_at start end p xs \<longleftrightarrow>
     (\<forall>i. start \<le> i \<and> i \<le> p - 1 \<longrightarrow> xs ! nat i \<le> xs ! nat p) \<and>
     (\<forall>i. p + 1 \<le> i \<and> i \<le> end \<longrightarrow> xs ! nat p \<le> xs ! nat i)"

lemma pivotI:
  "(\<And>i. start \<le> i \<Longrightarrow> i \<le> p - 1 \<Longrightarrow> xs ! nat i \<le> xs ! nat p) \<Longrightarrow>
   (\<And>i. p + 1 \<le> i \<Longrightarrow> i \<le> end \<Longrightarrow> xs ! nat p \<le> xs ! nat i) \<Longrightarrow> pivot_at start end p xs"
  unfolding pivot_at_def by blast

lemma pivotD:
  "pivot_at start end p xs \<Longrightarrow> start \<le> i \<Longrightarrow> i \<le> p - 1 \<Longrightarrow> xs ! nat i \<le> xs ! nat p"
  "pivot_at start end p xs \<Longrightarrow> p + 1 \<le> i \<Longrightarrow> i \<le> end \<Longrightarrow> xs ! nat p \<le> xs ! nat i"
  unfolding pivot_at_def by blast+

lemma pivot_placed:
  assumes inv: "split_inv start end key arr p p"
    and arr2: "arr2 = (if arr ! nat p < key then swap p start arr else arr)"
  shows "pivot_at start end p arr2 \<and> shuffle start end arr arr2"
proof (cases "arr ! nat p < key")
  case True
  note b = inv [unfolded split_inv_def]
  have nth: "swap p start arr ! nat k =
      (if k = start then arr ! nat p else if k = p then key else arr ! nat k)" if "0 \<le> k" for k
    using that b swap_nth [of p start arr k] by simp
  have "arr2 ! nat i \<le> arr2 ! nat p" if "start \<le> i" "i \<le> p - 1" for i
    using that b True nth [of i] nth [of p] by (simp add: arr2 less_imp_le)
  moreover have "arr2 ! nat p \<le> arr2 ! nat i" if "p + 1 \<le> i" "i \<le> end" for i
    using that b True nth [of i] nth [of p] by (simp add: arr2 less_imp_le)
  moreover have "shuffle start end arr arr2"
    using b True by (simp add: arr2 shuffle_swap)
  ultimately show ?thesis by (simp add: pivot_at_def)
next
  case False
  with inv show ?thesis by (auto simp: split_inv_def pivot_at_def arr2)
qed

lemma pivot_shuffle:
  assumes piv: "pivot_at start end p xs" and b: "0 \<le> start" "start \<le> p" "p \<le> end" "end < int (length xs)"
    and sh: "shuffle start (p - 1) xs ys \<or> shuffle (p + 1) end xs ys"
  shows "pivot_at start end p ys"
  using sh
proof
  assume s: "shuffle start (p - 1) xs ys"
  have low: "ys ! nat i \<le> xs ! nat p" if "start \<le> i" "i \<le> p - 1" for i
    by (rule shuffle_all [OF s]) (use that b pivotD(1) [OF piv] in auto)
  have same: "ys ! nat i = xs ! nat i" if "p \<le> i" "i \<le> end" for i
    by (rule shuffle_above [OF s]) (use that b in auto)
  show ?thesis
    by (rule pivotI) (use low same [of p] same pivotD(2) [OF piv] b in auto)
next
  assume s: "shuffle (p + 1) end xs ys"
  have high: "xs ! nat p \<le> ys ! nat i" if "p + 1 \<le> i" "i \<le> end" for i
    by (rule shuffle_all [OF s]) (use that b pivotD(2) [OF piv] in auto)
  have same: "ys ! nat i = xs ! nat i" if "start \<le> i" "i \<le> p" for i
    by (rule shuffle_below [OF s]) (use that b in auto)
  show ?thesis
    by (rule pivotI) (use high same [of p] same pivotD(1) [OF piv] b in auto)
qed

lemma sorted_on_above:
  "sorted_on start (p - 1) xs \<Longrightarrow> shuffle (p + 1) hi xs ys \<Longrightarrow> 0 \<le> start \<Longrightarrow> sorted_on start (p - 1) ys"
proof (rule sorted_onI)
  fix i j
  assume so: "sorted_on start (p - 1) xs" and sh: "shuffle (p + 1) hi xs ys" and s0: "0 \<le> start"
    and ij: "start \<le> i" "i \<le> j" "j \<le> p - 1"
  have "ys ! nat i = xs ! nat i" "ys ! nat j = xs ! nat j"
    by (rule shuffle_below [OF sh]; use s0 ij in linarith)+
  with sorted_onD [OF so ij] show "ys ! nat i \<le> ys ! nat j" by simp
qed

lemma quick_sort_recursive_sorts:
  "0 \<le> start \<Longrightarrow> end < int (length arr) \<Longrightarrow>
   \<exists>ys. quick_sort_recursive arr start end = Inr ys \<and>
     (start \<le> end \<longrightarrow> shuffle start end arr ys) \<and> (end < start \<longrightarrow> ys = arr) \<and> sorted_on start end ys"
proof (induction arr start "end" rule: quick_sort_recursive.induct)
  case (1 arr start "end")
  show ?case
  proof (cases "start < end")
    case False
    then have "sorted_on start end arr"
      unfolding sorted_on_def by (metis dual_order.refl linorder_not_less order_antisym order_trans)
    with False show ?thesis
      by (simp add: quick_sort_recursive.simps [of arr start])
  next
    case True
    define key where "key = arr ! nat start"
    have "split_inv start end key arr start end"
      using True "1.prems" by (auto simp: split_inv_def key_def)
    then obtain arr1 p where part: "partition_loop arr key start end = Inr (arr1, p)"
      and inv: "split_inv start end key arr1 p p" and s1: "shuffle start end arr arr1"
      using partition_loop_split by blast
    have p: "start \<le> p" "p \<le> end" using inv by (auto simp: split_inv_def)
    define arr2 where arr2: "arr2 = (if arr1 ! nat p < key then swap p start arr1 else arr1)"
    have piv: "pivot_at start end p arr2" and s2: "shuffle start end arr1 arr2"
      using pivot_placed [OF inv arr2] by auto
    have len: "length arr2 = length arr" using s1 s2 by (simp add: shuffle_length)
    obtain arr3 where q3: "quick_sort_recursive arr2 start (p - 1) = Inr arr3"
      and s3: "shuffle start (p - 1) arr2 arr3" and o3: "sorted_on start (p - 1) arr3"
      using "1.IH"(1) [OF _ key_def part refl arr2] True "1.prems" len p by fastforce
    have len3: "length arr3 = length arr2" using s3 by (rule shuffle_length)
    obtain arr4 where q4: "quick_sort_recursive arr3 (p + 1) end = Inr arr4"
      and s4: "shuffle (p + 1) end arr3 arr4" and o4: "sorted_on (p + 1) end arr4"
      using "1.IH"(2) [OF _ key_def part refl arr2 q3] True "1.prems" len len3 p by fastforce
    have "pivot_at start end p arr4"
      using piv s3 s4 "1.prems" p len len3 by (metis pivot_shuffle)
    moreover have "sorted_on start (p - 1) arr4"
      using o3 s4 "1.prems"(1) by (rule sorted_on_above)
    ultimately have "sorted_on start end arr4"
      using o4 by (blast intro: sorted_on_join dest: pivotD)
    moreover have "shuffle start end arr arr4"
      using s1 s2 shuffle_widen [OF s3, of start "end"] shuffle_widen [OF s4, of start "end"] p
      by (auto intro: shuffle_trans)
    moreover have "quick_sort_recursive arr start end = Inr arr4"
      using True part q3 q4
      by (subst quick_sort_recursive.simps) (simp add: Let_def flip: key_def arr2)
    ultimately show ?thesis using True by auto
  qed
qed

text \<open>
  C14. \<open>quick_sort(arr, len)\<close> on an array of \<open>len\<close> elements never leaves the array, returns,
  and leaves it sorted: the ascending rearrangement of its elements.
\<close>

theorem array_quick_sort: "quick_sort arr (int (length arr)) = Inr (sort arr)"
proof -
  obtain ys where q: "quick_sort_recursive arr 0 (int (length arr) - 1) = Inr ys"
    and sh: "0 \<le> int (length arr) - 1 \<longrightarrow> shuffle 0 (int (length arr) - 1) arr ys"
      "int (length arr) - 1 < 0 \<longrightarrow> ys = arr"
    and so: "sorted_on 0 (int (length arr) - 1) ys"
    using quick_sort_recursive_sorts [of 0 "int (length arr) - 1" arr] by auto
  have m: "mset ys = mset arr" using sh by (cases "arr = []") (auto simp: shuffle_def)
  then have l: "length ys = length arr" by (metis size_mset)
  have "sorted ys"
    using so l by (auto simp: sorted_iff_nth_mono sorted_on_def dest: spec2 [of _ "int i" "int j" for i j])
  then have "ys = sort arr" using m by (metis properties_for_sort)
  with q show ?thesis by (simp add: quick_sort_def)
qed

section \<open>The list versions\<close>

text \<open>
  Each splices the first element off as the pivot, moves the elements smaller than it to
  \<open>lower_part\<close>, sorts both parts, and splices the results around the pivot. They differ in who
  sorts the lower part: the caller, a thread of \<open>std::async\<close>, a worker of the pool, or whoever
  pops the chunk from the sorter's stack; each works on a list of its own.
\<close>

definition divide :: "'a::linorder \<Rightarrow> 'a list \<Rightarrow> 'a list \<times> 'a list" where
  "divide pivot input = (filter (\<lambda>t. t < pivot) input, filter (\<lambda>t. \<not> t < pivot) input)"

lemma divide_shorter:
  "divide pivot input = (lower, higher) \<Longrightarrow> length lower \<le> length input \<and> length higher \<le> length input"
  by (auto simp: divide_def)

function sequential_quick_sort :: "'a::linorder list \<Rightarrow> 'a list" where
  "sequential_quick_sort [] = []"
| "sequential_quick_sort (pivot # input) =
     (let (lower_part, rest) = divide pivot input;
          new_lower = sequential_quick_sort lower_part;
          new_higher = sequential_quick_sort rest in
      new_lower @ [pivot] @ new_higher)"
  by pat_completeness auto
termination by (relation "measure length") (auto simp: less_Suc_eq_le dest: divide_shorter [OF sym])

text \<open>A future is the value its task returns.\<close>

datatype 'a future = Future (get: 'a)

function async_quick_sort :: "'a::linorder list \<Rightarrow> 'a list" where
  "async_quick_sort [] = []"
| "async_quick_sort (pivot # input) =
     (let (lower_part, rest) = divide pivot input;
          new_lower = Future (async_quick_sort lower_part);
          new_higher = async_quick_sort rest in
      get new_lower @ [pivot] @ new_higher)"
  by pat_completeness auto
termination by (relation "measure length") (auto simp: less_Suc_eq_le dest: divide_shorter [OF sym])

text \<open>\<open>sorter::do_sort\<close>; \<open>sort_chunk\<close> fulfils the promise of a chunk with \<open>do_sort\<close> of its data.\<close>

function do_sort :: "'a::linorder list \<Rightarrow> 'a list" where
  "do_sort [] = []"
| "do_sort (partition_val # chunk_data) =
     (let (new_lower_chunk, rest) = divide partition_val chunk_data;
          new_lower = Future (do_sort new_lower_chunk);
          new_higher = do_sort rest in
      get new_lower @ [partition_val] @ new_higher)"
  by pat_completeness auto
termination by (relation "measure length") (auto simp: less_Suc_eq_le dest: divide_shorter [OF sym])

definition parallel_quick_sort :: "'a::linorder list \<Rightarrow> 'a list" where
  "parallel_quick_sort input = (if input = [] then input else do_sort input)"

fun thread_pool_quick_sort :: "'a::linorder list \<Rightarrow> 'a list" where
  "thread_pool_quick_sort [] = []"
| "thread_pool_quick_sort (pivot # input) =
     (let (lower_part, rest) = divide pivot input;
          new_lower = Future (parallel_quick_sort lower_part);
          new_higher = parallel_quick_sort rest in
      get new_lower @ [pivot] @ new_higher)"

lemma join_sorted:
  assumes "divide pivot input = (lower, rest)"
  shows "sort lower @ [pivot] @ sort rest = sort (pivot # input)"
proof (rule properties_for_sort [symmetric])
  show "mset (sort lower @ [pivot] @ sort rest) = mset (pivot # input)"
  proof -
    have "mset input = mset lower + mset rest"
      using assms multiset_partition [of "mset input" "\<lambda>t. t < pivot"] by (auto simp: divide_def)
    then show ?thesis by simp
  qed
  show "sorted (sort lower @ [pivot] @ sort rest)"
    using assms by (auto simp: divide_def sorted_append)
qed

lemma sequential_sorts: "sequential_quick_sort input = sort input"
  by (induction input rule: sequential_quick_sort.induct)
    (auto simp: join_sorted [simplified] split: prod.split)

lemma async_sorts: "async_quick_sort input = sort input"
  by (induction input rule: async_quick_sort.induct)
    (auto simp: join_sorted [simplified] split: prod.split)

lemma do_sort_sorts: "do_sort input = sort input"
  by (induction input rule: do_sort.induct)
    (auto simp: join_sorted [simplified] split: prod.split)


end
