(* ===== verification/ParAlgo.thy ===== *)
theory ParAlgo
  imports Prelude
begin

text \<open>
  The parallel algorithms of \<open>src/Concurrent/day21-ParallenAlgorithm\<close>: \<open>parallen_for_each.h\<close>,
  \<open>parallen_sum.h\<close> and \<open>parallen_find.h\<close>. A range is a list and an iterator a position in it;
  lengths are natural numbers (\<open>unsigned long\<close> does not wrap on a range that fits in memory).
  The number of hardware threads is a parameter: \<open>std::thread::hardware_concurrency()\<close> may
  return anything, 0 included. Threads run in every interleaving of their loop steps; the
  \<open>join_threads\<close> destructor and the futures wait until each is finished.
\<close>

section \<open>The division into blocks\<close>

definition max_threads :: "nat \<Rightarrow> nat" where
  "max_threads len = (len + 25 - 1) div 25"

definition num_threads :: "nat \<Rightarrow> nat \<Rightarrow> nat" where
  "num_threads hardware_threads len = min (if hardware_threads \<noteq> 0 then hardware_threads else 2) (max_threads len)"

definition block_size :: "nat \<Rightarrow> nat \<Rightarrow> nat" where
  "block_size hw len = len div num_threads hw len"

text \<open>
  The loop that hands out \<open>block_start..block_end\<close>, \<open>n\<close> times, and the rest for the caller.
\<close>

fun spawn_blocks :: "nat \<Rightarrow> nat \<Rightarrow> nat \<Rightarrow> nat \<Rightarrow> (nat \<times> nat) list" where
  "spawn_blocks block_start bsize 0 final = [(block_start, final)]"
| "spawn_blocks block_start bsize (Suc n) final =
     (block_start, block_start + bsize) # spawn_blocks (block_start + bsize) bsize n final"

definition blocks :: "nat \<Rightarrow> nat \<Rightarrow> (nat \<times> nat) list" where
  "blocks hw len = (if len = 0 then [] else spawn_blocks 0 (block_size hw len) (num_threads hw len - 1) len)"

lemma num_threads_bounds: "0 < len \<Longrightarrow> 1 \<le> num_threads hw len \<and> num_threads hw len \<le> len"
  by (auto simp: num_threads_def max_threads_def min_def not_le div_le_dividend; linarith)

lemma block_size_pos: "0 < len \<Longrightarrow> 1 \<le> block_size hw len"
  using num_threads_bounds [of len hw] by (simp add: block_size_def div_greater_zero_iff Suc_leI)

lemma blocks_fit: "0 < len \<Longrightarrow> (num_threads hw len - 1) * block_size hw len \<le> len"
  unfolding block_size_def
  by (metis diff_le_self div_times_less_eq_dividend le_trans mult.commute mult_le_mono2)

text \<open>Consecutive intervals that start at \<open>a\<close> and end at \<open>b\<close>.\<close>

fun tiles :: "nat \<Rightarrow> nat \<Rightarrow> (nat \<times> nat) list \<Rightarrow> bool" where
  "tiles a b [] = (a = b)"
| "tiles a b ((s, e) # bs) = (s = a \<and> s \<le> e \<and> tiles e b bs)"

lemma spawn_tiles: "a + n * bsize \<le> b \<Longrightarrow> tiles a b (spawn_blocks a bsize n b)"
  by (induction n arbitrary: a) (auto simp: add.assoc)

lemma tiles_le: "tiles a b bs \<Longrightarrow> a \<le> b"
  by (induction a b bs rule: tiles.induct) auto

lemma tiles_in: "tiles a b bs \<Longrightarrow> (s, e) \<in> set bs \<Longrightarrow> a \<le> s \<and> s \<le> e \<and> e \<le> b"
  by (induction a b bs rule: tiles.induct) (auto dest: tiles_le)

lemma tiles_nth:
  "tiles a b bs \<Longrightarrow> j < length bs \<Longrightarrow> a \<le> fst (bs ! j) \<and> fst (bs ! j) \<le> snd (bs ! j) \<and> snd (bs ! j) \<le> b"
  by (rule tiles_in) auto

lemma tiles_cover: "tiles a b bs \<Longrightarrow> a \<le> i \<Longrightarrow> i < b \<Longrightarrow> \<exists>(s, e)\<in>set bs. s \<le> i \<and> i < e"
  by (induction a b bs rule: tiles.induct) (auto simp: not_less, meson not_less)

lemma tiles_index:
  "tiles a b bs \<Longrightarrow> a \<le> i \<Longrightarrow> i < b \<Longrightarrow> \<exists>j<length bs. fst (bs ! j) \<le> i \<and> i < snd (bs ! j)"
  using tiles_cover [of a b bs i] by (fastforce simp: in_set_conv_nth)

lemma blocks_tile: "tiles 0 len (blocks hw len)"
  using blocks_fit [of len hw] by (auto simp: blocks_def intro: spawn_tiles)

lemma tiles_disjoint:
  "tiles a b bs \<Longrightarrow> i < j \<Longrightarrow> j < length bs \<Longrightarrow> snd (bs ! i) \<le> fst (bs ! j)"
proof (induction a b bs arbitrary: i j rule: tiles.induct)
  case (2 a b s e bs)
  show ?case
  proof (cases i)
    case 0
    with 2 obtain k where "j = Suc k" "k < length bs" by (cases j) auto
    moreover have "e \<le> fst (bs ! k)"
      using tiles_in [of e b bs "fst (bs ! k)" "snd (bs ! k)"] 2 \<open>k < length bs\<close> by auto
    ultimately show ?thesis using 0 by simp
  next
    case (Suc i')
    with 2 obtain k where "j = Suc k" "k < length bs" "i' < k" by (cases j) auto
    with 2 Suc show ?thesis by auto
  qed
qed simp

section \<open>Applying a function to every element\<close>

text \<open>
  The array and, for every thread, the iterator of its \<open>std::for_each\<close> and its end. A step
  of a thread applies the function to the element at its iterator; a position outside the
  range has no step.
\<close>

record 'a each =
  arr :: "'a list"
  tasks :: "(nat \<times> nat) list"

definition parallel_for_each :: "nat \<Rightarrow> 'a list \<Rightarrow> 'a each" where
  "parallel_for_each hw xs = \<lparr>arr = xs, tasks = blocks hw (length xs)\<rparr>"

definition each_step :: "('a \<Rightarrow> 'a) \<Rightarrow> nat \<Rightarrow> 'a each \<Rightarrow> 'a each option" where
  "each_step f i s =
     (if i \<ge> length (tasks s) then None
      else case tasks s ! i of (p, e) \<Rightarrow>
        if p = e \<or> p \<ge> length (arr s) then None
        else Some (s\<lparr>arr := (arr s)[p := f (arr s ! p)], tasks := (tasks s)[i := (p + 1, e)]\<rparr>))"

definition finished :: "'a each \<Rightarrow> bool" where
  "finished s \<longleftrightarrow> (\<forall>x\<in>set (tasks s). fst x = snd x)"

definition remaining :: "'a each \<Rightarrow> nat" where
  "remaining s = (\<Sum>(p, e)\<leftarrow>tasks s. e - p)"

definition each_inv :: "('a \<Rightarrow> 'a) \<Rightarrow> 'a list \<Rightarrow> (nat \<times> nat) list \<Rightarrow> 'a each \<Rightarrow> bool" where
  "each_inv f xs bs s \<longleftrightarrow> tiles 0 (length xs) bs \<and> length (arr s) = length xs \<and>
     length (tasks s) = length bs \<and>
     (\<forall>j<length bs. snd (tasks s ! j) = snd (bs ! j) \<and>
        fst (bs ! j) \<le> fst (tasks s ! j) \<and> fst (tasks s ! j) \<le> snd (bs ! j) \<and>
        (\<forall>k. fst (bs ! j) \<le> k \<and> k < fst (tasks s ! j) \<longrightarrow> arr s ! k = f (xs ! k)) \<and>
        (\<forall>k. fst (tasks s ! j) \<le> k \<and> k < snd (bs ! j) \<longrightarrow> arr s ! k = xs ! k))"

lemma each_step_Some:
  "each_step f i s = Some t \<longleftrightarrow> (\<exists>p e. i < length (tasks s) \<and> tasks s ! i = (p, e) \<and> p \<noteq> e \<and>
     p < length (arr s) \<and> t = s\<lparr>arr := (arr s)[p := f (arr s ! p)], tasks := (tasks s)[i := (p + 1, e)]\<rparr>)"
  by (auto simp: each_step_def split: prod.splits)

interpretation each: inv_machine "each_step f" "each_inv f xs bs" for f xs bs
proof
  fix s i t
  assume inv: "each_inv f xs bs s" and st: "each_step f i s = Some t"
  then obtain p e where i: "i < length bs" "tasks s ! i = (p, e)" "p \<noteq> e" "p < length (arr s)"
    and t: "t = s\<lparr>arr := (arr s)[p := f (arr s ! p)], tasks := (tasks s)[i := (p + 1, e)]\<rparr>"
    by (auto simp: each_step_Some each_inv_def)
  have tl: "tiles 0 (length xs) bs" using inv by (simp add: each_inv_def)
  have ii: "fst (bs ! i) \<le> p" "p < snd (bs ! i)" "e = snd (bs ! i)"
    using inv i by (fastforce simp: each_inv_def)+
  have out: "p \<noteq> k" if "j < length bs" "j \<noteq> i" "fst (bs ! j) \<le> k" "k < snd (bs ! j)" for j k
    using tiles_disjoint [OF tl, of i j] tiles_disjoint [OF tl, of j i] that i ii
    by (cases "i < j") auto
  show "each_inv f xs bs t"
    unfolding each_inv_def
  proof (intro conjI allI impI)
    fix j assume j: "j < length bs"
    note old = inv [unfolded each_inv_def, THEN conjunct2, THEN conjunct2, THEN conjunct2,
        rule_format, OF j]
    have len: "length (tasks s) = length bs" using inv by (simp add: each_inv_def)
    show "snd (tasks t ! j) = snd (bs ! j)" "fst (bs ! j) \<le> fst (tasks t ! j)"
      "fst (tasks t ! j) \<le> snd (bs ! j)"
      using old j i ii len by (auto simp: t nth_list_update)
    show "arr t ! k = f (xs ! k)" if "fst (bs ! j) \<le> k \<and> k < fst (tasks t ! j)" for k
      using that old j i ii len out [of j k]
      by (cases "j = i"; cases "k = p") (auto simp: t nth_list_update dest: order_less_le_trans)
    show "arr t ! k = xs ! k" if "fst (tasks t ! j) \<le> k \<and> k < snd (bs ! j)" for k
      using that old j i ii len out [of j k]
      by (cases "j = i") (auto simp: t nth_list_update dest: order_trans)
  qed (use inv in \<open>auto simp: t each_inv_def\<close>)
qed

text \<open>\<open>async_for_each\<close>: both halves are lists of their own.\<close>

function async_for_each :: "('a \<Rightarrow> 'a) \<Rightarrow> 'a list \<Rightarrow> 'a list" where
  "async_for_each f xs =
     (let len = length xs; min_per_thread = 25 in
      if len = 0 then xs
      else if len < 2 * min_per_thread then map f xs
      else
        (let mid_point = len div 2;
             first_half = async_for_each f (take mid_point xs) in
         first_half @ async_for_each f (drop mid_point xs)))"
  by pat_completeness auto
termination by (relation "measure (\<lambda>(f, xs). length xs)") auto

declare async_for_each.simps [simp del]

lemma async_for_each_map: "async_for_each f xs = map f xs"
proof (induction f xs rule: async_for_each.induct)
  case (1 f xs)
  have "map f (take m xs) @ map f (drop m xs) = map f xs" for m
    by (simp flip: map_append)
  then show ?case using 1 by (subst async_for_each.simps) (auto simp: Let_def)
qed

lemma remaining_step:
  assumes "each_inv f xs bs s" "each_step f i s = Some t"
  shows "remaining t < remaining s"
proof -
  obtain p e where i: "i < length (tasks s)" "tasks s ! i = (p, e)" "p \<noteq> e" "p < length (arr s)"
    and t: "t = s\<lparr>arr := (arr s)[p := f (arr s ! p)], tasks := (tasks s)[i := (p + 1, e)]\<rparr>"
    using assms(2) by (auto simp: each_step_Some)
  have "p < e" using assms(1) i by (fastforce simp: each_inv_def)
  show ?thesis
    using sum_update_less [of i "tasks s" "\<lambda>(p, e). e - p" "(p + 1, e)"] i \<open>p < e\<close>
    by (simp add: remaining_def t)
qed

lemma each_finished:
  assumes "each_inv f xs bs s" "finished s"
  shows "arr s = map f xs"
proof (rule nth_equalityI)
  show "length (arr s) = length (map f xs)" using assms by (simp add: each_inv_def)
  fix k assume "k < length (arr s)"
  then have k: "k < length xs" using assms by (simp add: each_inv_def)
  then obtain j where j: "j < length bs" "fst (bs ! j) \<le> k" "k < snd (bs ! j)"
    using tiles_cover [of 0 "length xs" bs k] assms(1) by (auto simp: each_inv_def in_set_conv_nth)
  have "fst (tasks s ! j) = snd (tasks s ! j)"
    using assms j by (simp add: finished_def each_inv_def)
  with assms j k show "arr s ! k = map f xs ! k" by (auto simp: each_inv_def)
qed

text \<open>
  C12. \<open>parallel_for_each\<close>, for every number of hardware threads and every interleaving of its
  threads: it is finished with the function applied once to every element, or some thread
  has a step to take and less is left after it; no iterator leaves the range. \<open>async_for_each\<close>
  computes the same.
\<close>

theorem for_each_maps:
  assumes "run (each_step f) sched (parallel_for_each hw xs) = Some s"
  shows "(finished s \<and> arr s = map f xs \<and> async_for_each f xs = arr s) \<or>
         (\<exists>i t. each_step f i s = Some t \<and> remaining t < remaining s)"
proof -
  have "each_inv f xs (blocks hw (length xs)) (parallel_for_each hw xs)"
    using blocks_tile [of "length xs" hw] tiles_nth [OF blocks_tile]
    by (auto simp: each_inv_def parallel_for_each_def)
  then have inv: "each_inv f xs (blocks hw (length xs)) s"
    using assms by (rule each.run_inv)
  show ?thesis
  proof (cases "finished s")
    case True
    with each_finished [OF inv] show ?thesis by (simp add: async_for_each_map)
  next
    case False
    then obtain i where i: "i < length (tasks s)" "fst (tasks s ! i) \<noteq> snd (tasks s ! i)"
      by (auto simp: finished_def in_set_conv_nth)
    then have "fst (tasks s ! i) < length (arr s)"
      using inv tiles_nth [OF blocks_tile, of i hw "length xs"]
      by (fastforce simp: each_inv_def)
    with i obtain t where "each_step f i s = Some t"
      by (cases "tasks s ! i") (auto simp: each_step_Some)
    with remaining_step [OF inv] show ?thesis by blast
  qed
qed

theorem for_each_maps_witness:
  "\<exists>s. run (each_step (\<lambda>x :: int. x * x)) [1, 0, 1] (parallel_for_each 2 (map int [0..<26])) = Some s \<and>
     ((finished s \<and> arr s = map (\<lambda>x. x * x) (map int [0..<26]) \<and>
       async_for_each (\<lambda>x. x * x) (map int [0..<26]) = arr s) \<or>
      (\<exists>i t. each_step (\<lambda>x. x * x) i s = Some t \<and> remaining t < remaining s))"
proof -
  obtain s where "run (each_step (\<lambda>x :: int. x * x)) [1, 0, 1] (parallel_for_each 2 (map int [0..<26])) = Some s"
  proof -
    have "run (each_step (\<lambda>x :: int. x * x)) [1, 0, 1] (parallel_for_each 2 (map int [0..<26])) \<noteq> None"
      by code_simp
    then show ?thesis using that by blast
  qed
  with for_each_maps [OF this] show ?thesis by blast
qed

section \<open>Partial sums\<close>

text \<open>\<open>std::partial_sum(begin, end, begin)\<close>.\<close>

fun partial_sum :: "'a::plus list \<Rightarrow> 'a list" where
  "partial_sum [] = []"
| "partial_sum [x] = [x]"
| "partial_sum (x # y # xs) = x # partial_sum ((x + y) # xs)"

text \<open>
  \<open>process_chunk\<close>: the new contents of the block and the value put into \<open>end_value\<close>. The
  addend is what the future of the previous chunk delivers; the block must have a last element.
\<close>

definition process_chunk :: "'a::plus list \<Rightarrow> 'a option \<Rightarrow> ('a list \<times> 'a) res" where
  "process_chunk block previous_end_value =
     (if block = [] then Inl OutOfBounds
      else
        (let sums = partial_sum block in
         case previous_end_value of
           Some addend \<Rightarrow>
             (let end_value = last sums + addend in
              Inr (map (\<lambda>item. item + addend) (butlast sums) @ [end_value], end_value))
         | None \<Rightarrow> Inr (sums, last sums)))"

text \<open>
  The chunks in order, each with the future of the one before; chunk \<open>start..end\<close> ends at
  \<open>block_last = end - 1\<close>.
\<close>

fun process_chunks :: "'a::plus list \<Rightarrow> (nat \<times> nat) list \<Rightarrow> 'a option \<Rightarrow> 'a list res" where
  "process_chunks xs [] prev = Inr []"
| "process_chunks xs ((s, e) # bs) prev =
     (case process_chunk (take (e - s) (drop s xs)) prev of
        Inl err \<Rightarrow> Inl err
      | Inr (ys, v) \<Rightarrow>
          (case process_chunks xs bs (Some v) of Inl err \<Rightarrow> Inl err | Inr zs \<Rightarrow> Inr (ys @ zs)))"

definition parallel_partial_sum :: "nat \<Rightarrow> 'a::plus list \<Rightarrow> 'a list res" where
  "parallel_partial_sum hw xs = (if xs = [] then Inr xs else process_chunks xs (blocks hw (length xs)) None)"

definition prefix_sums :: "'a::comm_monoid_add list \<Rightarrow> 'a list" where
  "prefix_sums xs = map (\<lambda>i. sum_list (take (Suc i) xs)) [0..<length xs]"

lemma prefix_sums_Cons: "prefix_sums (x # xs) = x # map (\<lambda>s. x + s) (prefix_sums xs)"
  by (simp add: prefix_sums_def upt_conv_Cons map_Suc_upt [symmetric] del: upt_Suc)

lemma partial_sum_prefix: "partial_sum xs = prefix_sums (xs :: 'a::comm_monoid_add list)"
proof (induction xs rule: partial_sum.induct)
  case 1
  show ?case by (simp add: prefix_sums_def)
next
  case (2 x)
  show ?case by (simp add: prefix_sums_def)
next
  case (3 x y xs)
  have "map ((+) x) (map ((+) y) zs) = map ((+) (x + y)) zs" for zs :: "'a list"
    by (simp add: add.assoc comp_def)
  with 3 show ?case by (simp add: prefix_sums_Cons)
qed

lemma length_prefix_sums [simp]: "length (prefix_sums xs) = length xs"
  by (simp add: prefix_sums_def)

lemma last_prefix_sums: "xs \<noteq> [] \<Longrightarrow> last (prefix_sums xs) = sum_list xs"
  by (cases "length xs") (auto simp: prefix_sums_def last_map)

lemma prefix_sums_append: "prefix_sums (xs @ ys) = prefix_sums xs @ map ((+) (sum_list xs)) (prefix_sums ys)"
  by (induction xs) (auto simp: prefix_sums_Cons add.assoc comp_def, simp add: prefix_sums_def)

lemma map_add_zero [simp]: "map ((+) 0) (xs :: 'a::comm_monoid_add list) = xs"
  by (simp add: map_idI)

lemma process_chunk_sums:
  assumes "block \<noteq> []" "prev = Some a \<or> (prev = None \<and> a = 0)"
  shows "process_chunk block prev = Inr (map ((+) a) (prefix_sums block), a + sum_list block)"
proof -
  have ne: "prefix_sums block \<noteq> []" using assms(1) by (metis length_0_conv length_prefix_sums)
  have "map f (butlast zs) @ [f (last zs)] = map f zs" if "zs \<noteq> []" for f and zs :: "'a list"
    using that by (metis append_butlast_last_id list.simps(8,9) map_append)
  from this [OF ne, of "\<lambda>item. item + a"] assms show ?thesis
    by (auto simp: process_chunk_def partial_sum_prefix Let_def last_prefix_sums add.commute)
qed

lemma process_chunks_sums:
  assumes "tiles s (length xs) bs" "\<forall>(s, e)\<in>set bs. s < e"
    "prev = Some (sum_list (take s xs)) \<or> (prev = None \<and> sum_list (take s xs) = 0)"
  shows "process_chunks xs bs prev = Inr (map ((+) (sum_list (take s xs))) (prefix_sums (drop s xs)))"
  using assms
proof (induction bs arbitrary: s prev)
  case Nil
  then show ?case by (simp add: prefix_sums_def)
next
  case (Cons b bs)
  obtain e where b: "b = (s, e)" "s < e" "tiles e (length xs) bs"
    using Cons.prems(1,2) by (cases b) auto
  have e: "e \<le> length xs" using tiles_le [OF b(3)] .
  let ?bl = "take (e - s) (drop s xs)"
  have d: "drop s xs = ?bl @ drop e xs"
    using b(2) by (metis append_take_drop_id drop_drop le_add_diff_inverse2 less_imp_le)
  have t: "take e xs = take s xs @ ?bl"
    using b(2) by (metis le_add_diff_inverse less_imp_le take_add)
  have "process_chunk ?bl prev = Inr (map ((+) (sum_list (take s xs))) (prefix_sums ?bl), sum_list (take e xs))"
    using process_chunk_sums [of ?bl prev "sum_list (take s xs)"] Cons.prems(3) b(2) e by (simp add: t)
  moreover have "process_chunks xs bs (Some (sum_list (take e xs))) =
      Inr (map ((+) (sum_list (take e xs))) (prefix_sums (drop e xs)))"
    using Cons.prems(2) b by (intro Cons.IH) auto
  moreover have "map ((+) (sum_list (take s xs))) (prefix_sums (drop s xs)) =
      map ((+) (sum_list (take s xs))) (prefix_sums ?bl) @ map ((+) (sum_list (take e xs))) (prefix_sums (drop e xs))"
    by (subst d) (simp add: prefix_sums_append t add.assoc comp_def del: append_take_drop_id)
  ultimately show ?case by (simp add: b(1))
qed

lemma spawn_nonempty: "1 \<le> bsize \<Longrightarrow> a + n * bsize < b \<Longrightarrow> \<forall>(s, e)\<in>set (spawn_blocks a bsize n b). s < e"
proof (induction n arbitrary: a)
  case (Suc n)
  with Suc.IH [of "a + bsize"] show ?case by (simp add: add.assoc)
qed simp

lemma blocks_nonempty: "\<forall>(s, e)\<in>set (blocks hw len). s < e"
proof (cases "len = 0")
  case False
  then have b: "1 \<le> block_size hw len" "1 \<le> num_threads hw len"
    using block_size_pos num_threads_bounds by auto
  have "num_threads hw len * block_size hw len \<le> len"
    by (simp add: block_size_def)
  then have "(num_threads hw len - 1) * block_size hw len < len"
    using b by (cases "num_threads hw len") auto
  with b False show ?thesis
    using spawn_nonempty [of "block_size hw len" 0 "num_threads hw len - 1" len] by (simp add: blocks_def)
qed (simp add: blocks_def)

text \<open>
  C13. \<open>parallel_partial_sum\<close> replaces element \<open>i\<close> by the sum of the elements \<open>0..i\<close>, however
  many threads share the work: the sums carried from chunk to chunk agree with the
  sequential ones, and no chunk is empty.
\<close>

theorem partial_sums_correct:
  "parallel_partial_sum hw (xs :: 'a::comm_monoid_add list) =
     Inr (map (\<lambda>i. sum_list (take (Suc i) xs)) [0..<length xs])"
proof -
  show ?thesis
    using process_chunks_sums [of 0 xs "blocks hw (length xs)" None] blocks_tile [of "length xs" hw]
      blocks_nonempty [of hw "length xs"]
    by (auto simp: parallel_partial_sum_def prefix_sums_def [symmetric]) (simp add: prefix_sums_def)
qed

section \<open>Searching with threads\<close>

text \<open>
  A thread of \<open>parallel_find\<close> tests its loop condition (the end of its block and one load of
  \<open>done_flag\<close>), compares, fulfils the promise and stores the flag. When the promise is already
  fulfilled \<open>set_value\<close> throws, \<open>set_exception\<close> in the handler throws again, and the inner
  handler swallows it: the thread returns.
\<close>

datatype find_pc = FCheck | FCompare | FSet | FStore | FDone

record finder =
  finders :: "(find_pc \<times> nat \<times> nat) list"
  result :: "nat option"
  done_flag :: bool

definition parallel_find :: "nat \<Rightarrow> 'a list \<Rightarrow> finder" where
  "parallel_find hw xs =
     \<lparr>finders = map (\<lambda>(s, e). (FCheck, s, e)) (blocks hw (length xs)), result = None, done_flag = False\<rparr>"

definition find_step :: "'a list \<Rightarrow> 'a \<Rightarrow> nat \<Rightarrow> finder \<Rightarrow> finder option" where
  "find_step xs match i s =
     (if i \<ge> length (finders s) then None
      else case finders s ! i of
        (FCheck, p, e) \<Rightarrow>
          Some (s\<lparr>finders := (finders s)[i := (if p \<noteq> e \<and> \<not> done_flag s then FCompare else FDone, p, e)]\<rparr>)
      | (FCompare, p, e) \<Rightarrow>
          if p \<ge> length xs then None
          else if xs ! p = match then Some (s\<lparr>finders := (finders s)[i := (FSet, p, e)]\<rparr>)
          else Some (s\<lparr>finders := (finders s)[i := (FCheck, p + 1, e)]\<rparr>)
      | (FSet, p, e) \<Rightarrow>
          (case result s of
             None \<Rightarrow> Some (s\<lparr>finders := (finders s)[i := (FStore, p, e)], result := Some p\<rparr>)
           | Some _ \<Rightarrow> Some (s\<lparr>finders := (finders s)[i := (FDone, p, e)]\<rparr>))
      | (FStore, p, e) \<Rightarrow> Some (s\<lparr>finders := (finders s)[i := (FDone, p, e)], done_flag := True\<rparr>)
      | (FDone, p, e) \<Rightarrow> None)"

text \<open>What the caller returns once every thread is joined; \<open>None\<close>: it would block in \<open>get\<close>.\<close>

definition find_returns :: "'a list \<Rightarrow> finder \<Rightarrow> nat option" where
  "find_returns xs s = (if \<not> done_flag s then Some (length xs) else result s)"

definition all_joined :: "finder \<Rightarrow> bool" where
  "all_joined s \<longleftrightarrow> (\<forall>x\<in>set (finders s). fst x = FDone)"

fun pc_weight :: "find_pc \<Rightarrow> nat" where
  "pc_weight FCheck = 4"
| "pc_weight FCompare = 3"
| "pc_weight FSet = 2"
| "pc_weight FStore = 1"
| "pc_weight FDone = 0"

definition work_left :: "finder \<Rightarrow> nat" where
  "work_left s = (\<Sum>(pc, p, e)\<leftarrow>finders s. 4 * (e - p) + pc_weight pc)"

definition finder_ok :: "'a list \<Rightarrow> 'a \<Rightarrow> finder \<Rightarrow> nat \<times> nat \<Rightarrow> find_pc \<times> nat \<times> nat \<Rightarrow> bool" where
  "finder_ok xs match s b x \<longleftrightarrow>
     (case x of (pc, p, e) \<Rightarrow>
        e = snd b \<and> fst b \<le> p \<and> p \<le> e \<and>
        (pc \<in> {FCompare, FSet, FStore} \<longrightarrow> p < e) \<and>
        (pc \<in> {FSet, FStore} \<longrightarrow> xs ! p = match) \<and>
        (pc = FStore \<longrightarrow> result s \<noteq> None) \<and>
        (pc = FDone \<longrightarrow> p = e \<or> result s \<noteq> None) \<and>
        (\<forall>k. fst b \<le> k \<and> k < p \<longrightarrow> xs ! k \<noteq> match))"

definition find_inv :: "'a list \<Rightarrow> 'a \<Rightarrow> (nat \<times> nat) list \<Rightarrow> finder \<Rightarrow> bool" where
  "find_inv xs match bs s \<longleftrightarrow>
     tiles 0 (length xs) bs \<and> list_all2 (finder_ok xs match s) bs (finders s) \<and>
     (\<forall>p. result s = Some p \<longrightarrow> p < length xs \<and> xs ! p = match) \<and>
     (done_flag s \<longrightarrow> result s \<noteq> None) \<and>
     (result s \<noteq> None \<and> \<not> done_flag s \<longrightarrow> (\<exists>x\<in>set (finders s). fst x = FStore))"

lemma finder_ok_mono:
  "finder_ok xs match s b x \<Longrightarrow> (result s \<noteq> None \<Longrightarrow> result t \<noteq> None) \<Longrightarrow> finder_ok xs match t b x"
  by (auto simp: finder_ok_def split: prod.splits)

lemma list_all2_update_r:
  "list_all2 P xs ys \<Longrightarrow> i < length ys \<Longrightarrow> Q (xs ! i) y \<Longrightarrow> (\<And>a b. P a b \<Longrightarrow> Q a b) \<Longrightarrow>
   list_all2 Q xs (ys[i := y])"
  by (auto simp: list_all2_conv_all_nth nth_list_update)

lemma find_step_finders:
  "find_step xs match i s = Some t \<Longrightarrow>
   i < length (finders s) \<and> finders t = (finders s)[i := finders t ! i] \<and>
   (result s \<noteq> None \<longrightarrow> result t = result s)"
  by (auto simp: find_step_def split: if_splits prod.splits find_pc.splits option.splits)

text \<open>What a step does to its own thread and to the shared variables.\<close>

lemma find_step_own:
  assumes ok: "finder_ok xs match s b (finders s ! i)" and b: "snd b \<le> length xs"
    and st: "find_step xs match i s = Some t"
    and i: "i < length (finders s)"
    and dr: "done_flag s \<longrightarrow> result s \<noteq> None"
  shows "finder_ok xs match t b (finders t ! i)"
    and "(result t = result s \<and> done_flag t = done_flag s \<and> fst (finders s ! i) \<noteq> FStore) \<or>
         (done_flag t \<and> result t = result s \<and> result s \<noteq> None) \<or>
         (\<exists>p. result s = None \<and> result t = Some p \<and> done_flag t = done_flag s \<and>
            fst (finders t ! i) = FStore \<and> p < length xs \<and> xs ! p = match)"
proof -
  obtain pc p e where x: "finders s ! i = (pc, p, e)" by (metis prod_cases3)
  show "finder_ok xs match t b (finders t ! i)"
    using assms x
    by (cases pc) (auto simp: find_step_def finder_ok_def less_Suc_eq split: if_splits option.splits)
  show "(result t = result s \<and> done_flag t = done_flag s \<and> fst (finders s ! i) \<noteq> FStore) \<or>
         (done_flag t \<and> result t = result s \<and> result s \<noteq> None) \<or>
         (\<exists>p. result s = None \<and> result t = Some p \<and> done_flag t = done_flag s \<and>
            fst (finders t ! i) = FStore \<and> p < length xs \<and> xs ! p = match)"
    using assms x
    by (cases pc) (auto simp: find_step_def finder_ok_def split: if_splits option.splits)
qed

interpretation finding: inv_machine "find_step xs match" "find_inv xs match bs" for xs match bs
proof
  fix s i t
  assume inv: "find_inv xs match bs s" and st: "find_step xs match i s = Some t"
  define y where "y = finders t ! i"
  have i: "i < length (finders s)" and t: "finders t = (finders s)[i := y]"
    and keep: "result s \<noteq> None \<longrightarrow> result t = result s"
    using find_step_finders [OF st] by (simp_all add: y_def)
  have len: "length bs = length (finders s)"
    using inv by (auto simp: find_inv_def dest: list_all2_lengthD)
  have ok: "finder_ok xs match s (bs ! i) (finders s ! i)"
    using inv i len by (auto simp: find_inv_def list_all2_conv_all_nth)
  have dr: "done_flag s \<longrightarrow> result s \<noteq> None" using inv by (simp add: find_inv_def)
  have b: "snd (bs ! i) \<le> length xs"
    using tiles_nth [of 0 "length xs" bs i] inv i len by (simp add: find_inv_def)
  note own = find_step_own [OF ok b st i dr]
  have "list_all2 (finder_ok xs match t) bs (finders t)"
    unfolding t
  proof (rule list_all2_update_r)
    show "list_all2 (finder_ok xs match s) bs (finders s)" using inv by (simp add: find_inv_def)
    show "finder_ok xs match t (bs ! i) y" using own(1) i t by simp
    show "finder_ok xs match s a c \<Longrightarrow> finder_ok xs match t a c" for a c
      using keep by (erule_tac finder_ok_mono) auto
  qed (rule i)
  moreover have "\<exists>x\<in>set (finders t). fst x = FStore" if n: "result t \<noteq> None" "\<not> done_flag t"
    using own(2)
  proof (elim disjE exE conjE)
    assume "result t = result s" "done_flag t = done_flag s" "fst (finders s ! i) \<noteq> FStore"
    moreover from this n obtain x where "x \<in> set (finders s)" "fst x = FStore"
      using inv by (auto simp: find_inv_def)
    ultimately obtain j where "j < length (finders s)" "fst (finders s ! j) = FStore" "j \<noteq> i"
      by (metis in_set_conv_nth)
    then have "j < length (finders t)" "fst (finders t ! j) = FStore"
      by (simp_all add: t)
    then have "finders t ! j \<in> set (finders t)" "fst (finders t ! j) = FStore"
      by simp_all
    then show ?thesis by blast
  next
    fix p assume "fst (finders t ! i) = FStore"
    then show ?thesis using i t by (metis length_list_update nth_mem)
  qed (use n in simp)
  ultimately show "find_inv xs match bs t"
    using inv own(2) by (auto simp: find_inv_def)
qed

lemma find_step_work:
  assumes "find_inv xs match bs s" "find_step xs match i s = Some t"
  shows "work_left t < work_left s"
proof -
  let ?g = "\<lambda>(pc, p, e). 4 * (e - p) + pc_weight pc"
  have i: "i < length (finders s)" and t: "finders t = (finders s)[i := finders t ! i]"
    using find_step_finders [OF assms(2)] by auto
  obtain pc p e where x: "finders s ! i = (pc, p, e)" by (metis prod_cases3)
  have "finder_ok xs match s (bs ! i) (pc, p, e)"
    using assms(1) i x by (auto simp: find_inv_def list_all2_conv_all_nth)
  then have "?g (finders t ! i) < ?g (finders s ! i)"
    using assms(2) i x
    by (cases pc) (auto simp: find_step_def finder_ok_def split: if_splits option.splits)
  with i show ?thesis unfolding work_left_def by (subst t) (rule sum_update_less)
qed

lemma find_step_enabled:
  assumes "find_inv xs match bs s" "\<not> all_joined s"
  shows "\<exists>i t. find_step xs match i s = Some t"
proof -
  obtain i where i: "i < length (finders s)" "fst (finders s ! i) \<noteq> FDone"
    using assms(2) by (auto simp: all_joined_def in_set_conv_nth)
  obtain pc p e where x: "finders s ! i = (pc, p, e)" by (metis prod_cases3)
  have "finder_ok xs match s (bs ! i) (pc, p, e)" "snd (bs ! i) \<le> length xs"
    using assms(1) i x tiles_nth [of 0 "length xs" bs i]
    by (auto simp: find_inv_def list_all2_conv_all_nth)
  then have "find_step xs match i s \<noteq> None"
    using i x by (cases pc) (auto simp: find_step_def finder_ok_def split: option.splits)
  then show ?thesis by blast
qed

lemma find_joined:
  assumes inv: "find_inv xs match bs s" and "all_joined s"
  shows "\<exists>p. find_returns xs s = Some p \<and> (if match \<in> set xs then p < length xs \<and> xs ! p = match else p = length xs)"
proof (cases "result s")
  case None
  have "match \<noteq> xs ! k" if k: "k < length xs" for k
  proof -
    obtain j where j: "j < length bs" "fst (bs ! j) \<le> k" "k < snd (bs ! j)"
      using tiles_index [of 0 "length xs" bs k] inv k by (auto simp: find_inv_def)
    obtain pc p e where x: "finders s ! j = (pc, p, e)" by (metis prod_cases3)
    have "finder_ok xs match s (bs ! j) (pc, p, e)" "j < length (finders s)"
      using inv j(1) x by (auto simp: find_inv_def list_all2_conv_all_nth)
    moreover from this have "pc = FDone"
      using assms(2) x by (metis all_joined_def fst_conv nth_mem)
    ultimately show ?thesis using None j by (auto simp: finder_ok_def)
  qed
  then have "match \<notin> set xs" by (auto simp: in_set_conv_nth)
  moreover have "\<not> done_flag s" using inv None by (auto simp: find_inv_def)
  ultimately show ?thesis by (simp add: find_returns_def)
next
  case (Some p)
  then have "done_flag s" using assms by (auto simp: find_inv_def all_joined_def)
  moreover have "p < length xs" "xs ! p = match" using inv Some by (auto simp: find_inv_def)
  ultimately show ?thesis using Some by (auto simp: find_returns_def)
qed

text \<open>
  C22. \<open>parallel_find\<close> in every interleaving: when all threads are joined it returns (the
  promise it waits for is fulfilled), with the position of an element that matches when the
  range has one and with \<open>last\<close> otherwise; before that some thread can step, with less work
  left after it.
\<close>

theorem find_returns_match:
  assumes "run (find_step xs match) sched (parallel_find hw xs) = Some s"
  shows "(all_joined s \<and>
          (\<exists>p. find_returns xs s = Some p \<and>
            (if match \<in> set xs then p < length xs \<and> xs ! p = match else p = length xs))) \<or>
         (\<exists>i t. find_step xs match i s = Some t \<and> work_left t < work_left s)"
proof -
  have "find_inv xs match (blocks hw (length xs)) (parallel_find hw xs)"
    using blocks_tile [of "length xs" hw] tiles_nth [OF blocks_tile]
    by (auto simp: find_inv_def parallel_find_def list_all2_conv_all_nth finder_ok_def split: prod.splits)
      (metis fst_conv snd_conv)+
  then have inv: "find_inv xs match (blocks hw (length xs)) s"
    using assms by (rule finding.run_inv)
  show ?thesis
    using find_joined [OF inv] find_step_enabled [OF inv] find_step_work [OF inv] by blast
qed

theorem find_returns_match_witness:
  "\<exists>s. run (find_step (map int [0..<26]) 13) [1, 0, 1, 1] (parallel_find 2 (map int [0..<26])) = Some s \<and>
     ((all_joined s \<and> (\<exists>p. find_returns (map int [0..<26]) s = Some p \<and>
        (if 13 \<in> set (map int [0..<26]) then p < length (map int [0..<26]) \<and> map int [0..<26] ! p = 13
         else p = length (map int [0..<26])))) \<or>
      (\<exists>i t. find_step (map int [0..<26]) 13 i s = Some t \<and> work_left t < work_left s))"
proof -
  obtain s where "run (find_step (map int [0..<26]) 13) [1, 0, 1, 1] (parallel_find 2 (map int [0..<26])) = Some s"
  proof -
    have "run (find_step (map int [0..<26]) 13) [1, 0, 1, 1] (parallel_find 2 (map int [0..<26])) \<noteq> None"
      by code_simp
    then show ?thesis using that by blast
  qed
  with find_returns_match [OF this] show ?thesis by blast
qed

section \<open>Searching by halves\<close>

text \<open>
  \<open>parallel_find_impl\<close> splits a range of 50 or more in the middle, runs the upper half in a
  future and the lower half itself; the calls that do not split (the leaves) share \<open>done\<close>. A
  leaf tests its condition, compares, and either goes on or stores \<open>done\<close> and returns. All
  leaves may step from the beginning, which contains every order in which the calls start.
\<close>

function find_leaves :: "nat \<Rightarrow> nat \<Rightarrow> (nat \<times> nat) list" where
  "find_leaves first final =
     (let len = final - first; min_per_thread = 25 in
      if len < 2 * min_per_thread then [(first, final)]
      else
        (let mid_point = first + len div 2 in
         find_leaves first mid_point @ find_leaves mid_point final))"
  by pat_completeness auto
termination by (relation "measure (\<lambda>(first, final). final - first)") auto

text \<open>The value a call returns, from the values \<open>rs\<close> its leaves return.\<close>

function find_impl_result :: "nat list \<Rightarrow> nat \<Rightarrow> nat \<Rightarrow> nat" where
  "find_impl_result rs first final =
     (let len = final - first; min_per_thread = 25 in
      if len < 2 * min_per_thread then rs ! 0
      else
        (let mid_point = first + len div 2;
             n = length (find_leaves first mid_point);
             async_result = find_impl_result (drop n rs) mid_point final;
             direct_result = find_impl_result (take n rs) first mid_point in
         if direct_result = mid_point then async_result else direct_result))"
  by pat_completeness auto
termination by (relation "measure (\<lambda>(rs, first, final). final - first)") auto

declare find_leaves.simps [simp del] find_impl_result.simps [simp del]

datatype leaf_pc = LCheck | LCompare | LDone (returned: nat)

record leaf_state =
  leaves :: "(leaf_pc \<times> nat \<times> nat) list"
  done_leaf :: bool

definition parallel_find_async :: "'a list \<Rightarrow> leaf_state" where
  "parallel_find_async xs =
     \<lparr>leaves = map (\<lambda>(s, e). (LCheck, s, e)) (find_leaves 0 (length xs)), done_leaf = False\<rparr>"

definition leaf_step :: "'a list \<Rightarrow> 'a \<Rightarrow> nat \<Rightarrow> leaf_state \<Rightarrow> leaf_state option" where
  "leaf_step xs match i s =
     (if i \<ge> length (leaves s) then None
      else case leaves s ! i of
        (LCheck, p, e) \<Rightarrow>
          Some (s\<lparr>leaves := (leaves s)[i := (if p \<noteq> e \<and> \<not> done_leaf s then LCompare else LDone e, p, e)]\<rparr>)
      | (LCompare, p, e) \<Rightarrow>
          if p \<ge> length xs then None
          else if xs ! p = match then
            Some (s\<lparr>leaves := (leaves s)[i := (LDone p, p, e)], done_leaf := True\<rparr>)
          else Some (s\<lparr>leaves := (leaves s)[i := (LCheck, p + 1, e)]\<rparr>)
      | (LDone r, p, e) \<Rightarrow> None)"

definition leaves_done :: "leaf_state \<Rightarrow> bool" where
  "leaves_done s \<longleftrightarrow> (\<forall>x\<in>set (leaves s). case fst x of LDone r \<Rightarrow> True | _ \<Rightarrow> False)"

definition async_returns :: "'a list \<Rightarrow> leaf_state \<Rightarrow> nat" where
  "async_returns xs s = find_impl_result (map (\<lambda>x. returned (fst x)) (leaves s)) 0 (length xs)"

lemma tiles_append: "tiles a b bs \<Longrightarrow> tiles b c cs \<Longrightarrow> tiles a c (bs @ cs)"
  by (induction a b bs rule: tiles.induct) auto

lemma find_leaves_tile: "first \<le> final \<Longrightarrow> tiles first final (find_leaves first final)"
proof (induction first final rule: find_leaves.induct)
  case (1 first final)
  show ?case
  proof (cases "final - first < 50")
    case True
    then show ?thesis using 1 by (simp add: find_leaves.simps [of first] Let_def)
  next
    case False
    define mid where "mid = first + (final - first) div 2"
    have m: "first \<le> mid" "mid \<le> final" using False by (auto simp: mid_def)
    have "find_leaves first final = find_leaves first mid @ find_leaves mid final"
      using False by (subst find_leaves.simps) (simp add: Let_def mid_def)
    then show ?thesis
      using "1.IH" [OF refl refl _ mid_def] m False by (auto intro: tiles_append)
  qed
qed

definition leaf_ret :: "nat \<times> nat \<Rightarrow> nat \<Rightarrow> bool" where
  "leaf_ret b r \<longleftrightarrow> r = snd b \<or> (fst b \<le> r \<and> r < snd b)"

text \<open>The call returns what its first successful leaf returns, or \<open>last\<close> when all failed.\<close>

lemma impl_result:
  "first \<le> final \<Longrightarrow> list_all2 leaf_ret (find_leaves first final) rs \<Longrightarrow>
   (\<exists>i<length rs. rs ! i \<noteq> snd (find_leaves first final ! i) \<and> find_impl_result rs first final = rs ! i) \<or>
   ((\<forall>i<length rs. rs ! i = snd (find_leaves first final ! i)) \<and> find_impl_result rs first final = final)"
proof (induction rs first final rule: find_impl_result.induct)
  case (1 rs first final)
  show ?case
  proof (cases "final - first < 50")
    case True
    then have l: "find_leaves first final = [(first, final)]" "find_impl_result rs first final = rs ! 0"
      by (simp_all add: find_leaves.simps [of first] find_impl_result.simps [of rs] Let_def)
    obtain r where "rs = [r]" using "1.prems"(2) l(1) by (auto simp: list_all2_Cons1)
    with l show ?thesis by auto
  next
    case False
    define mid where "mid = first + (final - first) div 2"
    define n where "n = length (find_leaves first mid)"
    define ds as where da: "ds = take n rs" "as = drop n rs"
    have m: "first \<le> mid" "mid \<le> final" using False by (auto simp: mid_def)
    have l: "find_leaves first final = find_leaves first mid @ find_leaves mid final"
      using False by (subst find_leaves.simps) (simp add: Let_def mid_def)
    have r: "find_impl_result rs first final =
        (if find_impl_result ds first mid = mid then find_impl_result as mid final
         else find_impl_result ds first mid)"
      using False by (subst find_impl_result.simps) (simp add: Let_def mid_def da n_def)
    have rs: "list_all2 leaf_ret (find_leaves first mid) ds" "list_all2 leaf_ret (find_leaves mid final) as"
      using "1.prems"(2) by (auto simp: l da n_def list_all2_append1 dest: list_all2_lengthD)
    have len: "length ds = n" "rs = ds @ as" using rs(1) by (auto simp: n_def da dest: list_all2_lengthD)
    have lo: "(\<exists>i<length ds. ds ! i \<noteq> snd (find_leaves first mid ! i) \<and> find_impl_result ds first mid = ds ! i) \<or>
       ((\<forall>i<length ds. ds ! i = snd (find_leaves first mid ! i)) \<and> find_impl_result ds first mid = mid)"
      using "1.IH"(2) [OF refl refl _ mid_def n_def] rs(1) m False by (simp add: da)
    have hi: "(\<exists>i<length as. as ! i \<noteq> snd (find_leaves mid final ! i) \<and> find_impl_result as mid final = as ! i) \<or>
       ((\<forall>i<length as. as ! i = snd (find_leaves mid final ! i)) \<and> find_impl_result as mid final = final)"
      using "1.IH"(1) [OF refl refl _ mid_def n_def] rs(2) m False by (simp add: da)
    show ?thesis
    proof (cases "find_impl_result ds first mid = mid")
      case True
      have low: "ds ! i = snd (find_leaves first mid ! i)" if "i < length ds" for i
      proof -
        have "leaf_ret (find_leaves first mid ! j) (ds ! j)" if "j < length ds" for j
          using rs(1) that by (auto simp: list_all2_conv_all_nth)
        moreover have "snd (find_leaves first mid ! j) \<le> mid" if "j < length ds" for j
          using tiles_nth [OF find_leaves_tile [OF m(1)], of j] that len n_def by simp
        ultimately show ?thesis using lo True that by (fastforce simp: leaf_ret_def)
      qed
      from hi show ?thesis
      proof
        assume "\<exists>i<length as. as ! i \<noteq> snd (find_leaves mid final ! i) \<and> find_impl_result as mid final = as ! i"
        then obtain i where "i < length as" "as ! i \<noteq> snd (find_leaves mid final ! i)"
          "find_impl_result as mid final = as ! i" by blast
        then have "n + i < length rs \<and> rs ! (n + i) \<noteq> snd (find_leaves first final ! (n + i)) \<and>
            find_impl_result rs first final = rs ! (n + i)"
          using True by (simp add: r) (simp add: len l nth_append n_def [symmetric])
        then show ?thesis by blast
      next
        assume "(\<forall>i<length as. as ! i = snd (find_leaves mid final ! i)) \<and> find_impl_result as mid final = final"
        then have "find_impl_result rs first final = final" using True by (simp add: r)
        moreover have "rs ! i = snd (find_leaves first final ! i)" if "i < length rs" for i
        proof (cases "i < n")
          case False
          then have "i - n < length as" "rs ! i = as ! (i - n)"
            "find_leaves first final ! i = find_leaves mid final ! (i - n)"
            using that len by (simp_all add: l nth_append n_def [symmetric])
          with \<open>_ \<and> find_impl_result as mid final = final\<close> show ?thesis by simp
        qed (use low len in \<open>simp add: l nth_append n_def\<close>)
        ultimately show ?thesis by blast
      qed
    next
      case False
      with lo obtain i where "i < length ds" "ds ! i \<noteq> snd (find_leaves first mid ! i)"
        "find_impl_result ds first mid = ds ! i" by blast
      then have "i < length rs \<and> rs ! i \<noteq> snd (find_leaves first final ! i) \<and>
          find_impl_result rs first final = rs ! i"
        using False by (simp add: r) (simp add: len l nth_append n_def)
      then show ?thesis by blast
    qed
  qed
qed

definition leaf_ok :: "'a list \<Rightarrow> 'a \<Rightarrow> bool \<Rightarrow> nat \<times> nat \<Rightarrow> leaf_pc \<times> nat \<times> nat \<Rightarrow> bool" where
  "leaf_ok xs match d b x \<longleftrightarrow>
     (case x of (pc, p, e) \<Rightarrow>
        e = snd b \<and> fst b \<le> p \<and> p \<le> e \<and> (pc = LCompare \<longrightarrow> p < e) \<and>
        (\<forall>r. pc = LDone r \<longrightarrow> (r = e \<and> (p = e \<or> d)) \<or> (r = p \<and> p < e \<and> xs ! p = match)) \<and>
        (\<forall>k. fst b \<le> k \<and> k < p \<longrightarrow> xs ! k \<noteq> match))"

definition leaves_inv :: "'a list \<Rightarrow> 'a \<Rightarrow> (nat \<times> nat) list \<Rightarrow> leaf_state \<Rightarrow> bool" where
  "leaves_inv xs match bs s \<longleftrightarrow>
     tiles 0 (length xs) bs \<and> list_all2 (leaf_ok xs match (done_leaf s)) bs (leaves s) \<and>
     (done_leaf s \<longrightarrow> (\<exists>i<length (leaves s). \<exists>p e. leaves s ! i = (LDone p, p, e) \<and> p < e))"

lemma leaf_ok_mono: "leaf_ok xs match d b x \<Longrightarrow> (d \<Longrightarrow> d') \<Longrightarrow> leaf_ok xs match d' b x"
  by (auto simp: leaf_ok_def split: prod.splits)

lemma leaf_step_leaves:
  "leaf_step xs match i s = Some t \<Longrightarrow>
   i < length (leaves s) \<and> leaves t = (leaves s)[i := leaves t ! i] \<and> (done_leaf s \<longrightarrow> done_leaf t) \<and>
   (\<forall>r p e. leaves s ! i \<noteq> (LDone r, p, e)) \<and>
   (done_leaf t \<and> \<not> done_leaf s \<longrightarrow> (\<exists>p e. leaves s ! i = (LCompare, p, e) \<and> leaves t ! i = (LDone p, p, e)))"
  by (auto simp: leaf_step_def split: if_splits prod.splits leaf_pc.splits)

interpretation leaf: inv_machine "leaf_step xs match" "leaves_inv xs match bs" for xs match bs
proof
  fix s i t
  assume inv: "leaves_inv xs match bs s" and st: "leaf_step xs match i s = Some t"
  define y where "y = leaves t ! i"
  have i: "i < length (leaves s)" and t: "leaves t = (leaves s)[i := y]"
    and mono: "done_leaf s \<longrightarrow> done_leaf t" and run: "\<And>r p e. leaves s ! i \<noteq> (LDone r, p, e)"
    and new: "done_leaf t \<and> \<not> done_leaf s \<longrightarrow> (\<exists>p e. leaves s ! i = (LCompare, p, e) \<and> y = (LDone p, p, e))"
    using leaf_step_leaves [OF st] by (auto simp: y_def)
  have len: "length bs = length (leaves s)"
    using inv by (auto simp: leaves_inv_def dest: list_all2_lengthD)
  obtain pc p e where x: "leaves s ! i = (pc, p, e)" by (metis prod_cases3)
  have ok: "leaf_ok xs match (done_leaf s) (bs ! i) (pc, p, e)"
    using inv i len x by (auto simp: leaves_inv_def list_all2_conv_all_nth)
  then have "leaf_ok xs match (done_leaf t) (bs ! i) y"
    using st i x
    by (cases pc) (auto simp: leaf_step_def leaf_ok_def y_def less_Suc_eq split: if_splits)
  then have "list_all2 (leaf_ok xs match (done_leaf t)) bs (leaves t)"
    unfolding t
  proof (intro list_all2_update_r [where P = "leaf_ok xs match (done_leaf s)"])
    show "list_all2 (leaf_ok xs match (done_leaf s)) bs (leaves s)" using inv by (simp add: leaves_inv_def)
    show "leaf_ok xs match (done_leaf s) a c \<Longrightarrow> leaf_ok xs match (done_leaf t) a c" for a c
      using mono by (erule_tac leaf_ok_mono) auto
  qed (use i in auto)
  moreover have "\<exists>j<length (leaves t). \<exists>p e. leaves t ! j = (LDone p, p, e) \<and> p < e" if d: "done_leaf t"
  proof (cases "done_leaf s")
    case True
    then obtain j p e where "j < length (leaves s)" "leaves s ! j = (LDone p, p, e)" "p < e"
      using inv by (auto simp: leaves_inv_def)
    moreover from this have "j \<noteq> i" using run by auto
    ultimately show ?thesis by (auto simp: t)
  next
    case False
    with new d x ok obtain p where "leaves t ! i = (LDone p, p, e)" "p < e"
      using i by (auto simp: t leaf_ok_def)
    with i show ?thesis by (auto simp: t)
  qed
  ultimately show "leaves_inv xs match bs t"
    using inv by (simp add: leaves_inv_def)
qed

definition leaf_work :: "leaf_state \<Rightarrow> nat" where
  "leaf_work s = (\<Sum>(pc, p, e)\<leftarrow>leaves s. 2 * (e - p) + (case pc of LCheck \<Rightarrow> 2 | LCompare \<Rightarrow> 1 | LDone r \<Rightarrow> 0))"

lemma leaf_step_work:
  assumes "leaves_inv xs match bs s" "leaf_step xs match i s = Some t"
  shows "leaf_work t < leaf_work s"
proof -
  let ?g = "\<lambda>(pc, p, e). 2 * (e - p) + (case pc of LCheck \<Rightarrow> 2 | LCompare \<Rightarrow> 1 | LDone r \<Rightarrow> 0) :: nat"
  have i: "i < length (leaves s)" and t: "leaves t = (leaves s)[i := leaves t ! i]"
    using leaf_step_leaves [OF assms(2)] by auto
  obtain pc p e where x: "leaves s ! i = (pc, p, e)" by (metis prod_cases3)
  have "leaf_ok xs match (done_leaf s) (bs ! i) (pc, p, e)"
    using assms(1) i x by (auto simp: leaves_inv_def list_all2_conv_all_nth)
  then have "?g (leaves t ! i) < ?g (leaves s ! i)"
    using assms(2) i x by (cases pc) (auto simp: leaf_step_def leaf_ok_def split: if_splits)
  with i show ?thesis unfolding leaf_work_def by (subst t) (rule sum_update_less)
qed

lemma leaf_step_enabled:
  assumes "leaves_inv xs match bs s" "\<not> leaves_done s"
  shows "\<exists>i t. leaf_step xs match i s = Some t"
proof -
  obtain i where i: "i < length (leaves s)" "\<not> (case fst (leaves s ! i) of LDone r \<Rightarrow> True | _ \<Rightarrow> False)"
    using assms(2) by (auto simp: leaves_done_def in_set_conv_nth)
  obtain pc p e where x: "leaves s ! i = (pc, p, e)" by (metis prod_cases3)
  have "leaf_ok xs match (done_leaf s) (bs ! i) (pc, p, e)" "snd (bs ! i) \<le> length xs"
    using assms(1) i x tiles_nth [of 0 "length xs" bs i]
    by (auto simp: leaves_inv_def list_all2_conv_all_nth)
  then have "leaf_step xs match i s \<noteq> None"
    using i x by (cases pc) (auto simp: leaf_step_def leaf_ok_def)
  then show ?thesis by blast
qed

lemma leaf_finished:
  assumes "leaves_inv xs match bs s" "leaves_done s" "i < length (leaves s)"
  obtains r p where "leaves s ! i = (LDone r, p, snd (bs ! i))"
    "leaf_ok xs match (done_leaf s) (bs ! i) (LDone r, p, snd (bs ! i))"
proof -
  obtain pc p e where x: "leaves s ! i = (pc, p, e)" by (metis prod_cases3)
  have ok: "leaf_ok xs match (done_leaf s) (bs ! i) (pc, p, e)"
    using assms x by (auto simp: leaves_inv_def list_all2_conv_all_nth)
  moreover have "case pc of LDone r \<Rightarrow> True | _ \<Rightarrow> False"
    using assms(2,3) x by (metis fst_conv leaves_done_def nth_mem)
  ultimately show ?thesis
    using that x by (cases pc) (auto simp: leaf_ok_def)
qed

lemma leaves_joined:
  assumes inv: "leaves_inv xs match (find_leaves 0 (length xs)) s" and d: "leaves_done s"
  shows "if match \<in> set xs then async_returns xs s < length xs \<and> xs ! async_returns xs s = match
         else async_returns xs s = length xs"
proof -
  let ?bs = "find_leaves 0 (length xs)"
  define rs where "rs = map (\<lambda>x. returned (fst x)) (leaves s)"
  have tl: "tiles 0 (length xs) ?bs" and len: "length ?bs = length (leaves s)"
    using inv by (auto simp: leaves_inv_def dest: list_all2_lengthD)
  have found: "xs ! (rs ! i) = match \<and> rs ! i < length xs \<or> rs ! i = snd (?bs ! i)"
    and ret: "leaf_ret (?bs ! i) (rs ! i)" if "i < length rs" for i
    using leaf_finished [OF inv d, of i] that tiles_nth [OF tl, of i] len
    by (fastforce simp: rs_def leaf_ok_def leaf_ret_def)+
  have "list_all2 leaf_ret ?bs rs"
    using ret len by (simp add: list_all2_conv_all_nth rs_def)
  note res = impl_result [OF le0 this]
  have ar: "async_returns xs s = find_impl_result rs 0 (length xs)"
    by (simp add: async_returns_def rs_def)
  from res show ?thesis
  proof
    assume "\<exists>i<length rs. rs ! i \<noteq> snd (?bs ! i) \<and> find_impl_result rs 0 (length xs) = rs ! i"
    then obtain i where "i < length rs" "rs ! i \<noteq> snd (?bs ! i)" "async_returns xs s = rs ! i"
      using ar by auto
    then have "xs ! async_returns xs s = match" "async_returns xs s < length xs"
      using found [of i] by auto
    then show ?thesis by auto
  next
    assume all: "(\<forall>i<length rs. rs ! i = snd (?bs ! i)) \<and> find_impl_result rs 0 (length xs) = length xs"
    have nd: "\<not> done_leaf s"
    proof
      assume "done_leaf s"
      then obtain i p e where i: "i < length (leaves s)" "leaves s ! i = (LDone p, p, e)" "p < e"
        using inv by (auto simp: leaves_inv_def)
      then have "i < length rs" "rs ! i = p" by (simp_all add: rs_def)
      with all have "p = snd (?bs ! i)" by blast
      with i leaf_finished [OF inv d i(1)] show False by auto
    qed
    have "match \<noteq> xs ! k" if k: "k < length xs" for k
    proof -
      obtain j where j: "j < length ?bs" "fst (?bs ! j) \<le> k" "k < snd (?bs ! j)"
        using tiles_index [OF tl _ k] by auto
      obtain r p where x: "leaves s ! j = (LDone r, p, snd (?bs ! j))"
        and ok: "leaf_ok xs match (done_leaf s) (?bs ! j) (LDone r, p, snd (?bs ! j))"
        using leaf_finished [OF inv d, of j] j len by auto
      have "j < length rs" "rs ! j = r" using x j len by (simp_all add: rs_def)
      then have "r = snd (?bs ! j)" using all by blast
      with ok nd j show ?thesis by (auto simp: leaf_ok_def)
    qed
    then have "match \<notin> set xs" by (auto simp: in_set_conv_nth)
    with all ar show ?thesis by simp
  qed
qed

text \<open>
  C36. \<open>parallel_find_async\<close> in every interleaving of its leaves: when all have returned it
  returns the position of a matching element when there is one and \<open>last\<close> otherwise, also
  when leaves gave up because another one stored \<open>done\<close>; before that some leaf can step, with
  less work left.
\<close>

theorem find_async_returns_match:
  assumes "run (leaf_step xs match) sched (parallel_find_async xs) = Some s"
  shows "(leaves_done s \<and>
          (if match \<in> set xs then async_returns xs s < length xs \<and> xs ! async_returns xs s = match
           else async_returns xs s = length xs)) \<or>
         (\<exists>i t. leaf_step xs match i s = Some t \<and> leaf_work t < leaf_work s)"
proof -
  have tl: "tiles 0 (length xs) (find_leaves 0 (length xs))" by (rule find_leaves_tile) simp
  have "leaves_inv xs match (find_leaves 0 (length xs)) (parallel_find_async xs)"
    using tl tiles_nth [OF tl]
    by (auto simp: leaves_inv_def parallel_find_async_def list_all2_conv_all_nth leaf_ok_def split: prod.splits)
      (metis fst_conv snd_conv)+
  then have inv: "leaves_inv xs match (find_leaves 0 (length xs)) s"
    using assms by (rule leaf.run_inv)
  show ?thesis
    using leaves_joined [OF inv] leaf_step_enabled [OF inv] leaf_step_work [OF inv] by blast
qed

theorem find_async_returns_match_witness:
  "\<exists>s. run (leaf_step (replicate 50 (7 :: int)) 7) [1, 0, 1, 0] (parallel_find_async (replicate 50 (7 :: int))) = Some s \<and>
     ((leaves_done s \<and>
       (if (7 :: int) \<in> set (replicate 50 7)
        then async_returns (replicate 50 (7 :: int)) s < length (replicate 50 (7 :: int)) \<and>
          replicate 50 7 ! async_returns (replicate 50 (7 :: int)) s = (7 :: int)
        else async_returns (replicate 50 (7 :: int)) s = length (replicate 50 (7 :: int)))) \<or>
      (\<exists>i t. leaf_step (replicate 50 (7 :: int)) 7 i s = Some t \<and> leaf_work t < leaf_work s))"
proof -
  obtain s where "run (leaf_step (replicate 50 (7 :: int)) 7) [1, 0, 1, 0] (parallel_find_async (replicate 50 (7 :: int))) = Some s"
  proof -
    have "run (leaf_step (replicate 50 (7 :: int)) 7) [1, 0, 1, 0] (parallel_find_async (replicate 50 (7 :: int))) \<noteq> None"
      by code_simp
    then show ?thesis using that by blast
  qed
  with find_async_returns_match [OF this] show ?thesis by blast
qed

end
