(* ===== verification/Atm.thy ===== *)
theory Atm
  imports Prelude
begin

text \<open>
  The actor example \<open>src/Concurrent/day08-Actor/Actor\<close>: a cash machine (\<open>atm.h\<close>), a bank
  (\<open>bank_matchine.h\<close>) and the hardware interface (\<open>interface_matchine.h\<close>), each a thread with
  a message queue (\<open>message.h\<close>, \<open>dispatcher.h\<close>), and the keyboard loop of \<open>Actor.cpp\<close>.
  An event is one step of one thread; a schedule is any list of them. There is one machine, so
  the senders the messages carry (\<open>atm_queue\<close>) all name its queue.
\<close>

type_synonym uint = "32 word"

section \<open>Messages and state\<close>

datatype message =
    withdraw string uint
  | withdraw_ok
  | withdraw_denied
  | cancel_withdrawal string uint
  | withdrawal_processed string uint
  | card_inserted string
  | digit_pressed char
  | clear_last_pressed
  | eject_card
  | withdraw_pressed uint
  | cancel_pressed
  | issue_money uint
  | verify_pin string string
  | pin_verified
  | pin_incorrect
  | display_enter_pin
  | display_enter_card
  | display_insufficient_funds
  | display_withdrawal_cancelled
  | display_pin_incorrect_message
  | display_withdrawal_options
  | get_balance string
  | balance uint
  | display_balance uint
  | balance_pressed
  | close_queue

text \<open>The member functions \<open>state\<close> may point to.\<close>

datatype atm_state =
    process_withdrawal | process_balance | wait_for_action | verifying_pin | getting_pin
  | waiting_for_card | done_processing

text \<open>
  \<open>waiting\<close>: the state function has done its first sends and is in \<open>incoming.wait()\<close>.
  \<open>printed\<close> holds the messages the interface has shown, oldest first.
\<close>

record atm =
  state :: atm_state
  waiting :: bool
  account :: string
  withdrawal_amount :: uint
  pin :: string
  atm_incoming :: "message list"
  atm_running :: bool
  bank_incoming :: "message list"
  bank_balance :: uint
  bank_running :: bool
  hw_incoming :: "message list"
  hw_running :: bool
  printed :: "message list"
  quit_pressed :: bool

definition atm_start :: atm where
  "atm_start =
     \<lparr>state = waiting_for_card, waiting = False, account = [], withdrawal_amount = 0, pin = [],
      atm_incoming = [], atm_running = True, bank_incoming = [], bank_balance = 199,
      bank_running = True, hw_incoming = [], hw_running = True, printed = [], quit_pressed = False\<rparr>"

definition bank_send :: "message \<Rightarrow> atm \<Rightarrow> atm" where
  "bank_send m s = s\<lparr>bank_incoming := bank_incoming s @ [m]\<rparr>"

definition hw_send :: "message \<Rightarrow> atm \<Rightarrow> atm" where
  "hw_send m s = s\<lparr>hw_incoming := hw_incoming s @ [m]\<rparr>"

definition atm_send :: "message \<Rightarrow> atm \<Rightarrow> atm" where
  "atm_send m s = s\<lparr>atm_incoming := atm_incoming s @ [m]\<rparr>"

lemmas send_defs = bank_send_def hw_send_def atm_send_def

section \<open>The cash machine\<close>

text \<open>
  The handlers each state function chains; \<open>None\<close>: no handler for the message, which the
  dispatcher then discards.
\<close>

definition handle_process_withdrawal :: "message \<Rightarrow> atm \<Rightarrow> atm option" where
  "handle_process_withdrawal m s =
     (case m of
        withdraw_ok \<Rightarrow>
          Some ((bank_send (withdrawal_processed (account s) (withdrawal_amount s))
            (hw_send (issue_money (withdrawal_amount s)) s))\<lparr>state := done_processing\<rparr>)
      | withdraw_denied \<Rightarrow>
          Some ((hw_send display_insufficient_funds s)\<lparr>state := done_processing\<rparr>)
      | cancel_pressed \<Rightarrow>
          Some ((hw_send display_withdrawal_cancelled
            (bank_send (cancel_withdrawal (account s) (withdrawal_amount s)) s))\<lparr>state := done_processing\<rparr>)
      | _ \<Rightarrow> None)"

definition handle_process_balance :: "message \<Rightarrow> atm \<Rightarrow> atm option" where
  "handle_process_balance m s =
     (case m of
        balance amount \<Rightarrow> Some ((hw_send (display_balance amount) s)\<lparr>state := wait_for_action\<rparr>)
      | cancel_pressed \<Rightarrow> Some (s\<lparr>state := done_processing\<rparr>)
      | _ \<Rightarrow> None)"

definition handle_wait_for_action :: "message \<Rightarrow> atm \<Rightarrow> atm option" where
  "handle_wait_for_action m s =
     (case m of
        withdraw_pressed amount \<Rightarrow>
          Some ((bank_send (withdraw (account s) amount) (s\<lparr>withdrawal_amount := amount\<rparr>))
            \<lparr>state := process_withdrawal\<rparr>)
      | balance_pressed \<Rightarrow>
          Some ((bank_send (get_balance (account s)) s)\<lparr>state := process_balance\<rparr>)
      | cancel_pressed \<Rightarrow> Some (s\<lparr>state := done_processing\<rparr>)
      | _ \<Rightarrow> None)"

definition handle_verifying_pin :: "message \<Rightarrow> atm \<Rightarrow> atm option" where
  "handle_verifying_pin m s =
     (case m of
        pin_verified \<Rightarrow> Some (s\<lparr>state := wait_for_action\<rparr>)
      | pin_incorrect \<Rightarrow> Some ((hw_send display_pin_incorrect_message s)\<lparr>state := done_processing\<rparr>)
      | cancel_pressed \<Rightarrow> Some (s\<lparr>state := done_processing\<rparr>)
      | _ \<Rightarrow> None)"

definition handle_getting_pin :: "message \<Rightarrow> atm \<Rightarrow> atm option" where
  "handle_getting_pin m s =
     (case m of
        digit_pressed digit \<Rightarrow>
          (let s1 = s\<lparr>pin := pin s @ [digit]\<rparr> in
           if length (pin s1) = 6
           then Some ((bank_send (verify_pin (account s1) (pin s1)) s1)\<lparr>state := verifying_pin\<rparr>)
           else Some s1)
      | clear_last_pressed \<Rightarrow> Some (if pin s \<noteq> [] then s\<lparr>pin := butlast (pin s)\<rparr> else s)
      | cancel_pressed \<Rightarrow> Some (s\<lparr>state := done_processing\<rparr>)
      | _ \<Rightarrow> None)"

definition handle_waiting_for_card :: "message \<Rightarrow> atm \<Rightarrow> atm option" where
  "handle_waiting_for_card m s =
     (case m of
        card_inserted acc \<Rightarrow>
          Some ((hw_send display_enter_pin (s\<lparr>account := acc, pin := []\<rparr>))\<lparr>state := getting_pin\<rparr>)
      | _ \<Rightarrow> None)"

text \<open>\<open>(this->*state)()\<close>; \<open>done_processing\<close> does not wait.\<close>

fun atm_handle :: "atm_state \<Rightarrow> message \<Rightarrow> atm \<Rightarrow> atm option" where
  "atm_handle process_withdrawal m s = handle_process_withdrawal m s"
| "atm_handle process_balance m s = handle_process_balance m s"
| "atm_handle wait_for_action m s = handle_wait_for_action m s"
| "atm_handle verifying_pin m s = handle_verifying_pin m s"
| "atm_handle getting_pin m s = handle_getting_pin m s"
| "atm_handle waiting_for_card m s = handle_waiting_for_card m s"
| "atm_handle done_processing m s = None"

lemmas handle_defs = handle_process_withdrawal_def handle_process_balance_def
  handle_wait_for_action_def handle_verifying_pin_def handle_getting_pin_def
  handle_waiting_for_card_def

text \<open>What the state function does before it waits.\<close>

fun atm_enter :: "atm_state \<Rightarrow> atm \<Rightarrow> atm" where
  "atm_enter wait_for_action s = (hw_send display_withdrawal_options s)\<lparr>waiting := True\<rparr>"
| "atm_enter waiting_for_card s = (hw_send display_enter_card s)\<lparr>waiting := True\<rparr>"
| "atm_enter done_processing s = (hw_send eject_card s)\<lparr>state := waiting_for_card\<rparr>"
| "atm_enter _ s = s\<lparr>waiting := True\<rparr>"

text \<open>
  \<open>wait_and_dispatch\<close>: a message without handler reaches the \<open>dispatcher\<close> at the start of the
  chain, which throws on \<open>close_queue\<close> and drops anything else; the loop then waits again.
\<close>

definition atm_step :: "atm \<Rightarrow> atm option" where
  "atm_step s =
     (if \<not> atm_running s then None
      else if \<not> waiting s then Some (atm_enter (state s) s)
      else case atm_incoming s of
        [] \<Rightarrow> None
      | m # q \<Rightarrow>
          (let s1 = s\<lparr>atm_incoming := q\<rparr> in
           case atm_handle (state s1) m s1 of
             Some t \<Rightarrow> Some (t\<lparr>waiting := False\<rparr>)
           | None \<Rightarrow> if m = close_queue then Some (s1\<lparr>atm_running := False\<rparr>) else Some s1))"

section \<open>The bank and the interface\<close>

fun bank_handle :: "message \<Rightarrow> atm \<Rightarrow> atm" where
  "bank_handle (verify_pin acc p) s =
     (if p = ''521024'' then atm_send pin_verified s else atm_send pin_incorrect s)"
| "bank_handle (withdraw acc amount) s =
     (if bank_balance s \<ge> amount
      then (atm_send withdraw_ok s)\<lparr>bank_balance := bank_balance s - amount\<rparr>
      else atm_send withdraw_denied s)"
| "bank_handle (get_balance acc) s = atm_send (balance (bank_balance s)) s"
| "bank_handle (withdrawal_processed acc amount) s = s"
| "bank_handle (cancel_withdrawal acc amount) s = s"
| "bank_handle close_queue s = s\<lparr>bank_running := False\<rparr>"
| "bank_handle _ s = s"

definition bank_step :: "atm \<Rightarrow> atm option" where
  "bank_step s =
     (if \<not> bank_running s then None
      else case bank_incoming s of
        [] \<Rightarrow> None
      | m # q \<Rightarrow> Some (bank_handle m (s\<lparr>bank_incoming := q\<rparr>)))"

text \<open>The handlers of the interface print; the others of its messages have none.\<close>

fun shown :: "message \<Rightarrow> bool" where
  "shown (issue_money amount) = True"
| "shown display_insufficient_funds = True"
| "shown display_enter_pin = True"
| "shown display_enter_card = True"
| "shown (display_balance amount) = True"
| "shown display_withdrawal_options = True"
| "shown display_withdrawal_cancelled = True"
| "shown display_pin_incorrect_message = True"
| "shown eject_card = True"
| "shown _ = False"

definition hw_step :: "atm \<Rightarrow> atm option" where
  "hw_step s =
     (if \<not> hw_running s then None
      else case hw_incoming s of
        [] \<Rightarrow> None
      | m # q \<Rightarrow>
          (let s1 = s\<lparr>hw_incoming := q\<rparr> in
           if shown m then Some (s1\<lparr>printed := printed s1 @ [m]\<rparr>)
           else if m = close_queue then Some (s1\<lparr>hw_running := False\<rparr>)
           else Some s1))"

section \<open>The keyboard\<close>

definition key :: "char \<Rightarrow> atm \<Rightarrow> atm option" where
  "key c s =
     (if quit_pressed s then None
      else Some (
        if c \<in> set ''0123456789'' then atm_send (digit_pressed c) s
        else if c = CHR ''b'' then atm_send balance_pressed s
        else if c = CHR ''w'' then atm_send (withdraw_pressed 50) s
        else if c = CHR ''c'' then atm_send cancel_pressed s
        else if c = CHR ''q'' then
          hw_send close_queue (atm_send close_queue (bank_send close_queue (s\<lparr>quit_pressed := True\<rparr>)))
        else if c = CHR ''i'' then atm_send (card_inserted ''acc1234'') s
        else s))"

datatype atm_event = Key char | AtmRuns | BankRuns | HwRuns

fun atm_exec :: "atm_event \<Rightarrow> atm \<Rightarrow> atm option" where
  "atm_exec (Key c) s = key c s"
| "atm_exec AtmRuns s = atm_step s"
| "atm_exec BankRuns s = bank_step s"
| "atm_exec HwRuns s = hw_step s"

section \<open>Money\<close>

text \<open>What a queue of the interface issues, and how many approvals are on their way.\<close>

fun amount_issued :: "message \<Rightarrow> nat" where
  "amount_issued (issue_money amount) = unat amount"
| "amount_issued _ = 0"

definition issued :: "atm \<Rightarrow> nat" where
  "issued s = (\<Sum>m\<leftarrow>printed s @ hw_incoming s. amount_issued m)"

definition approvals :: "atm \<Rightarrow> nat" where
  "approvals s = length (filter (\<lambda>m. m = withdraw_ok) (atm_incoming s))"

text \<open>Withdrawals are of 50, the only amount the keyboard offers.\<close>

fun fifty :: "message \<Rightarrow> bool" where
  "fifty (withdraw acc amount) = (amount = 50)"
| "fifty (withdraw_pressed amount) = (amount = 50)"
| "fifty _ = True"

definition money_inv :: "atm \<Rightarrow> bool" where
  "money_inv s \<longleftrightarrow>
     unat (bank_balance s) + 50 * approvals s + issued s \<le> 199 \<and>
     (\<forall>m\<in>set (atm_incoming s). fifty m) \<and> (\<forall>m\<in>set (bank_incoming s). fifty m) \<and>
     (state s = process_withdrawal \<longrightarrow> withdrawal_amount s = 50)"

lemma issued_simps [simp]:
  "issued (s\<lparr>hw_incoming := hw_incoming s @ [m]\<rparr>) = issued s + amount_issued m"
  by (simp add: issued_def)

text \<open>Sends and field updates that leave the money alone.\<close>

lemma money_atm_handle:
  assumes inv: "money_inv s" and q: "atm_incoming s = m # q" and h: "atm_handle (state s) m (s\<lparr>atm_incoming := q\<rparr>) = Some t"
  shows "money_inv (t\<lparr>waiting := w\<rparr>)"
  using assms
  by (cases "state s"; cases m)
    (auto simp: handle_defs money_inv_def send_defs issued_def approvals_def Let_def split: if_splits)

lemma money_atm_drop:
  assumes "money_inv s" "atm_incoming s = m # q"
  shows "money_inv (s\<lparr>atm_incoming := q\<rparr>)"
  using assms by (auto simp: money_inv_def issued_def approvals_def split: if_splits)

lemma money_atm_enter: "money_inv s \<Longrightarrow> money_inv (atm_enter (state s) s)"
  by (cases "state s") (auto simp: money_inv_def send_defs issued_def approvals_def)

lemma money_bank:
  assumes "money_inv s" "bank_incoming s = m # q"
  shows "money_inv (bank_handle m (s\<lparr>bank_incoming := q\<rparr>))"
  using assms
  by (cases m) (auto simp: money_inv_def send_defs issued_def approvals_def unat_sub word_le_nat_alt)

interpretation money: inv_machine atm_exec money_inv
proof
  fix s e t
  assume inv: "money_inv s" and st: "atm_exec e s = Some t"
  show "money_inv t"
  proof (cases e)
    case (Key c)
    with inv st show ?thesis
      by (auto simp: key_def money_inv_def send_defs issued_def approvals_def split: if_splits)
  next
    case AtmRuns
    with st have st: "atm_step s = Some t" by simp
    show ?thesis
    proof (cases "waiting s")
      case False
      with st inv show ?thesis
        by (auto simp: atm_step_def money_atm_enter split: if_splits)
    next
      case True
      with st obtain m q where q: "atm_incoming s = m # q"
        by (auto simp: atm_step_def split: if_splits list.splits)
      have "money_inv (s\<lparr>atm_incoming := q\<rparr>)" by (rule money_atm_drop [OF inv q])
      then have d: "money_inv (s\<lparr>atm_incoming := q, atm_running := r\<rparr>)" for r
        by (simp add: money_inv_def issued_def approvals_def)
      from True st q d [of "atm_running s"] d [of False] money_atm_handle [OF inv q, of _ False]
      show ?thesis
        by (auto simp: atm_step_def Let_def split: if_splits option.splits)
    qed
  next
    case BankRuns
    with st inv money_bank [OF inv] show ?thesis
      by (auto simp: bank_step_def split: if_splits list.splits)
  next
    case HwRuns
    with st inv show ?thesis
      by (auto simp: hw_step_def money_inv_def issued_def approvals_def Let_def split: if_splits list.splits)
  qed
qed



section \<open>Sessions\<close>

text \<open>
  A patient customer: after each key every thread runs until nothing is left to do
  (\<open>settle\<close>; eight rounds are enough for one key).
\<close>

definition settle_step :: "(atm \<Rightarrow> atm option) \<Rightarrow> atm \<Rightarrow> atm" where
  "settle_step f s = (case f s of None \<Rightarrow> s | Some t \<Rightarrow> t)"

fun settle :: "nat \<Rightarrow> atm \<Rightarrow> atm" where
  "settle 0 s = s"
| "settle (Suc n) s = settle n (settle_step hw_step (settle_step bank_step (settle_step atm_step s)))"

definition press :: "char \<Rightarrow> atm \<Rightarrow> atm" where
  "press c s = settle 8 (settle_step (key c) s)"

definition digits :: "char set" where
  "digits = set ''0123456789''"

text \<open>The machine with nothing to do, in one of its states.\<close>

definition quiet :: "atm_state \<Rightarrow> string \<Rightarrow> uint \<Rightarrow> string \<Rightarrow> uint \<Rightarrow> message list \<Rightarrow> atm" where
  "quiet st acc amount p b out =
     \<lparr>state = st, waiting = True, account = acc, withdrawal_amount = amount, pin = p,
      atm_incoming = [], atm_running = True, bank_incoming = [], bank_balance = b,
      bank_running = True, hw_incoming = [], hw_running = True, printed = out, quit_pressed = False\<rparr>"

lemmas session_simps = press_def settle_step_def key_def atm_step_def bank_step_def hw_step_def
  send_defs handle_defs quiet_def

lemma press_card:
  "press CHR ''i'' (quiet waiting_for_card acc amount p b out) =
   quiet getting_pin ''acc1234'' amount [] b (out @ [display_enter_pin])"
  by (simp add: session_simps numeral_eq_Suc cong: if_cong)

lemma press_digit:
  "d \<in> digits \<Longrightarrow> length p < 5 \<Longrightarrow>
   press d (quiet getting_pin acc amount p b out) = quiet getting_pin acc amount (p @ [d]) b out"
  by (simp add: digits_def session_simps numeral_eq_Suc Let_def cong: if_cong)

lemma press_right_pin:
  "press CHR ''4'' (quiet getting_pin acc amount ''52102'' b out) =
   quiet wait_for_action acc amount ''521024'' b (out @ [display_withdrawal_options])"
  by (simp add: session_simps numeral_eq_Suc Let_def cong: if_cong)

lemma settle_Suc8: "settle 8 s = settle 7 (settle_step hw_step (settle_step bank_step (settle_step atm_step s)))"
  using settle.simps(2) [of 7 s] by simp

lemma press_last_digit:
  assumes "d \<in> digits" "length p = 5"
  shows "press d (quiet getting_pin acc amount p b out) =
   settle 7 (settle_step hw_step (settle_step bank_step
     ((quiet verifying_pin acc amount (p @ [d]) b out)
       \<lparr>waiting := False, bank_incoming := [verify_pin acc (p @ [d])]\<rparr>)))"
proof -
  have "settle_step (key d) (quiet getting_pin acc amount p b out) =
      (quiet getting_pin acc amount p b out)\<lparr>atm_incoming := [digit_pressed d]\<rparr>"
    using assms(1) by (simp add: digits_def session_simps)
  moreover have "settle_step atm_step ((quiet getting_pin acc amount p b out)\<lparr>atm_incoming := [digit_pressed d]\<rparr>) =
      (quiet verifying_pin acc amount (p @ [d]) b out)
       \<lparr>waiting := False, bank_incoming := [verify_pin acc (p @ [d])]\<rparr>"
    using assms(2) by (simp add: session_simps Let_def)
  ultimately show ?thesis by (simp only: press_def settle_Suc8)
qed

lemma settle_wrong_pin:
  "q \<noteq> ''521024'' \<Longrightarrow>
   settle 7 (settle_step hw_step (settle_step bank_step
     ((quiet verifying_pin acc amount q b out) \<lparr>waiting := False, bank_incoming := [verify_pin acc q]\<rparr>))) =
   quiet waiting_for_card acc amount q b (out @ [display_pin_incorrect_message, eject_card, display_enter_card])"
  by (simp add: session_simps numeral_eq_Suc Let_def cong: if_cong)

lemma press_wrong_pin:
  "d \<in> digits \<Longrightarrow> length p = 5 \<Longrightarrow> p @ [d] \<noteq> ''521024'' \<Longrightarrow>
   press d (quiet getting_pin acc amount p b out) =
   quiet waiting_for_card acc amount (p @ [d]) b
     (out @ [display_pin_incorrect_message, eject_card, display_enter_card])"
  by (rule trans [OF press_last_digit settle_wrong_pin])

lemma press_withdraw:
  "50 \<le> b \<Longrightarrow> press CHR ''w'' (quiet wait_for_action acc amount p b out) =
    quiet waiting_for_card acc 50 p (b - 50) (out @ [issue_money 50, eject_card, display_enter_card])"
  "\<not> 50 \<le> b \<Longrightarrow> press CHR ''w'' (quiet wait_for_action acc amount p b out) =
    quiet waiting_for_card acc 50 p b (out @ [display_insufficient_funds, eject_card, display_enter_card])"
  by (simp_all add: session_simps numeral_eq_Suc Let_def cong: if_cong)

lemma press_withdraw_early:
  "press CHR ''w'' (quiet waiting_for_card acc amount p b out) = quiet waiting_for_card acc amount p b out"
  by (simp add: session_simps numeral_eq_Suc Let_def cong: if_cong)

lemma press_digits:
  "set ds \<subseteq> digits \<Longrightarrow> length p + length ds \<le> 5 \<Longrightarrow>
   fold press ds (quiet getting_pin acc amount p b out) = quiet getting_pin acc amount (p @ ds) b out"
  by (induction ds arbitrary: p) (auto simp: press_digit)

definition session :: "string \<Rightarrow> string" where
  "session ds = ''i'' @ ds @ ''w''"

text \<open>
  C25. A session on a quiet machine: card, six digits, withdrawal. With the right number and 50
  or more in the account, 50 is issued and debited; with less the refusal is shown; with the
  wrong number nothing happens to the account. The card is ejected in each case and the
  machine is ready for the next one.
\<close>

theorem atm_session:
  assumes "length ds = 6" "set ds \<subseteq> digits"
  shows "fold press (session ds) (quiet waiting_for_card acc amount p b out) =
    (if ds \<noteq> ''521024'' then
       quiet waiting_for_card ''acc1234'' amount ds b
         (out @ [display_enter_pin, display_pin_incorrect_message, eject_card, display_enter_card])
     else if b \<ge> 50 then
       quiet waiting_for_card ''acc1234'' 50 ds (b - 50)
         (out @ [display_enter_pin, display_withdrawal_options, issue_money 50, eject_card, display_enter_card])
     else
       quiet waiting_for_card ''acc1234'' 50 ds b
         (out @ [display_enter_pin, display_withdrawal_options, display_insufficient_funds,
            eject_card, display_enter_card]))"
proof -
  obtain es d where ds: "ds = es @ [d]" "length es = 5"
    using assms(1) by (cases ds rule: rev_cases) auto
  have es: "set es \<subseteq> digits" and d: "d \<in> digits"
    using assms(2) ds(1) by auto
  have "fold press (''i'' @ es) (quiet waiting_for_card acc amount p b out) =
      quiet getting_pin ''acc1234'' amount es b (out @ [display_enter_pin])"
    using press_digits [OF es, of "[]"] ds(2) by (simp add: press_card)
  then have f: "fold press (session ds) (quiet waiting_for_card acc amount p b out) =
      press CHR ''w'' (press d (quiet getting_pin ''acc1234'' amount es b (out @ [display_enter_pin])))"
    by (simp add: session_def ds(1))
  show ?thesis
  proof (cases "ds = ''521024''")
    case True
    then have "es = ''52102''" "d = CHR ''4''" using ds by auto
    with True show ?thesis unfolding f by (simp add: press_right_pin press_withdraw)
  next
    case False
    then have ne: "es @ [d] \<noteq> ''521024''" unfolding ds(1) .
    show ?thesis unfolding f press_wrong_pin [OF d ds(2) ne] press_withdraw_early
      using False by (simp add: ds(1) del: append1_eq_conv)
  qed
qed

theorem atm_session_witness:
  "fold press (session ''521024'') (quiet waiting_for_card [] 0 [] 199 []) =
     quiet waiting_for_card ''acc1234'' 50 ''521024'' 149
       [display_enter_pin, display_withdrawal_options, issue_money 50, eject_card, display_enter_card]"
  using atm_session [of "''521024''" "[]" 0 "[]" 199 "[]"] by (simp add: digits_def)

text \<open>
  C33. Replies of the bank are not tied to the session that asked. A customer who cancels while
  the right number is being checked leaves a \<open>pin_verified\<close> behind; when the bank is slow, the
  next session takes it for its own and offers the withdrawal to someone who entered the
  number 000000, and the money is issued. And a withdrawal cancelled before the answer is
  debited without being issued: the bank ignores \<open>cancel_withdrawal\<close>.
\<close>

definition wrong_pin_trace :: "atm_event list" where
  "wrong_pin_trace =
     map Key ''i521024ci000000'' @ replicate 32 AtmRuns @ [BankRuns, AtmRuns, AtmRuns, Key CHR ''w'',
       AtmRuns, AtmRuns, BankRuns, BankRuns, AtmRuns, AtmRuns] @ replicate 7 HwRuns"

definition cancelled_trace :: "atm_event list" where
  "cancelled_trace =
     map Key ''i521024'' @ replicate 15 AtmRuns @ [BankRuns, AtmRuns, AtmRuns, Key CHR ''w'',
       AtmRuns, Key CHR ''c'', AtmRuns, AtmRuns, AtmRuns, BankRuns, BankRuns, AtmRuns, AtmRuns] @
       replicate 6 HwRuns"

theorem atm_replies_outlive_sessions:
  "map_option (\<lambda>s. (pin s, printed s, bank_balance s)) (run atm_exec wrong_pin_trace atm_start) =
     Some (''000000'', [display_enter_card, display_enter_pin, eject_card, display_enter_card,
       display_enter_pin, display_withdrawal_options, issue_money 50], 149) \<and>
   map_option (\<lambda>s. (printed s, bank_incoming s, atm_incoming s, bank_balance s, issued s))
       (run atm_exec cancelled_trace atm_start) =
     Some ([display_enter_card, display_enter_pin, display_withdrawal_options,
       display_withdrawal_cancelled, eject_card, display_enter_card], [], [], 149, 0)"
  by code_simp

end
