(* ===== verification/Hierarchy.thy ===== *)
theory Hierarchy
  imports Prelude
begin

text \<open>
  \<open>hierachical_mutex\<close> of \<open>day02-lockmutex.cpp\<close>: a mutex with a level, which a thread may lock
  only below the level it is on, so that no threads wait for each other in a circle.

  Mutexes and threads are numbers. \<open>hv m\<close> is the constructor argument
  \<open>_hierachy_value\<close> of mutex \<open>m\<close>. \<open>lock\<close> is two steps, the check with the call of
  \<open>_internal_mutex.lock()\<close>, which may block, and its return; \<open>update_hierachy_value\<close> touches the
  thread's own variable and a member that only the owner of \<open>_internal_mutex\<close> touches, so it is
  part of the second step. Steps of different threads interleave freely.
\<close>

type_synonym level = "64 word"

record hm_state =
  hm_owner :: "nat \<Rightarrow> nat option"     \<comment> \<open>\<open>_internal_mutex\<close>\<close>
  hm_prev :: "nat \<Rightarrow> level"           \<comment> \<open>\<open>_previous_hierachy_value\<close>\<close>
  hm_cur :: "nat \<Rightarrow> level"            \<comment> \<open>\<open>_this_thread_hierachy_value\<close>, one per thread\<close>
  hm_wait :: "nat \<Rightarrow> nat option"      \<comment> \<open>the mutex in whose \<open>lock()\<close> a thread is\<close>

text \<open>The constructor, and \<open>ULLONG_MAX\<close> for every thread.\<close>

definition hm_init :: hm_state where
  "hm_init = \<lparr>hm_owner = \<lambda>m. None, hm_prev = \<lambda>m. 0, hm_cur = \<lambda>t. - 1, hm_wait = \<lambda>t. None\<rparr>"

text \<open>The check: true when it throws \<open>std::logic_error\<close>.\<close>

definition chech_for_hierachy_violation :: "(nat \<Rightarrow> level) \<Rightarrow> nat \<Rightarrow> nat \<Rightarrow> hm_state \<Rightarrow> bool" where
  "chech_for_hierachy_violation hv t m s \<longleftrightarrow> hm_cur s t \<le> hv m"

definition update_hierachy_value :: "(nat \<Rightarrow> level) \<Rightarrow> nat \<Rightarrow> nat \<Rightarrow> hm_state \<Rightarrow> hm_state" where
  "update_hierachy_value hv t m s =
     s\<lparr>hm_prev := (hm_prev s)(m := hm_cur s t), hm_cur := (hm_cur s)(t := hv m)\<rparr>"

datatype hm_result = Returned | Threw | NotLocked

definition hm_lock_call :: "(nat \<Rightarrow> level) \<Rightarrow> nat \<Rightarrow> nat \<Rightarrow> hm_state \<Rightarrow> hm_result \<times> hm_state" where
  "hm_lock_call hv t m s =
     (if chech_for_hierachy_violation hv t m s then (Threw, s)
      else (Returned, s\<lparr>hm_wait := (hm_wait s)(t := Some m)\<rparr>))"

definition hm_locked :: "(nat \<Rightarrow> level) \<Rightarrow> nat \<Rightarrow> nat \<Rightarrow> hm_state \<Rightarrow> hm_state" where
  "hm_locked hv t m s =
     update_hierachy_value hv t m
       (s\<lparr>hm_owner := (hm_owner s)(m := Some t), hm_wait := (hm_wait s)(t := None)\<rparr>)"

definition hm_unlock :: "(nat \<Rightarrow> level) \<Rightarrow> nat \<Rightarrow> nat \<Rightarrow> hm_state \<Rightarrow> hm_result \<times> hm_state" where
  "hm_unlock hv t m s =
     (if hm_cur s t \<noteq> hv m then (Threw, s)
      else (Returned, s\<lparr>hm_cur := (hm_cur s)(t := hm_prev s m), hm_owner := (hm_owner s)(m := None)\<rparr>))"

definition hm_try_lock :: "(nat \<Rightarrow> level) \<Rightarrow> nat \<Rightarrow> nat \<Rightarrow> hm_state \<Rightarrow> hm_result \<times> hm_state" where
  "hm_try_lock hv t m s =
     (if chech_for_hierachy_violation hv t m s then (Threw, s)
      else if hm_owner s m \<noteq> None then (NotLocked, s)
      else (Returned, hm_locked hv t m s))"

text \<open>
  What the threads do, in the order it happens. A thread inside \<open>lock()\<close> does nothing else, and
  \<open>unlock()\<close> is called by the owner, which is what \<open>std::mutex\<close> requires of its user.
\<close>

datatype hm_event = HLock nat nat | HAcquire nat | HUnlock nat nat | HTryLock nat nat

fun hm_step :: "(nat \<Rightarrow> level) \<Rightarrow> hm_event \<Rightarrow> hm_state \<Rightarrow> (hm_result \<times> hm_state) option" where
  "hm_step hv (HLock t m) s = (if hm_wait s t = None then Some (hm_lock_call hv t m s) else None)"
| "hm_step hv (HAcquire t) s =
     (case hm_wait s t of
        None \<Rightarrow> None
      | Some m \<Rightarrow> if hm_owner s m = None then Some (Returned, hm_locked hv t m s) else None)"
| "hm_step hv (HUnlock t m) s =
     (if hm_wait s t = None \<and> hm_owner s m = Some t then Some (hm_unlock hv t m s) else None)"
| "hm_step hv (HTryLock t m) s = (if hm_wait s t = None then Some (hm_try_lock hv t m s) else None)"

fun hm_run :: "(nat \<Rightarrow> level) \<Rightarrow> hm_event list \<Rightarrow> hm_state \<Rightarrow> hm_state option" where
  "hm_run hv [] s = Some s"
| "hm_run hv (e # es) s = (case hm_step hv e s of None \<Rightarrow> None | Some (r, s') \<Rightarrow> hm_run hv es s')"

section \<open>The invariant\<close>

text \<open>
  The mutexes a thread holds form a stack of increasing levels: its own variable is the level
  of the top one, and the \<open>_previous_hierachy_value\<close> of each is the level of the one below.
\<close>

fun level_chain :: "(nat \<Rightarrow> level) \<Rightarrow> (nat \<Rightarrow> level) \<Rightarrow> level \<Rightarrow> nat list \<Rightarrow> bool" where
  "level_chain hv prev c [] \<longleftrightarrow> c = - 1"
| "level_chain hv prev c (m # ms) \<longleftrightarrow> c = hv m \<and> hv m < prev m \<and> level_chain hv prev (prev m) ms"

definition hm_inv :: "(nat \<Rightarrow> level) \<Rightarrow> (nat \<Rightarrow> nat list) \<Rightarrow> hm_state \<Rightarrow> bool" where
  "hm_inv hv held s \<longleftrightarrow>
     (\<forall>t. level_chain hv (hm_prev s) (hm_cur s t) (held t)) \<and>
     (\<forall>t m. hm_owner s m = Some t \<longleftrightarrow> m \<in> set (held t)) \<and>
     (\<forall>t m. hm_wait s t = Some m \<longrightarrow> hv m < hm_cur s t)"

lemma hm_inv_parts:
  assumes "hm_inv hv held s"
  shows "level_chain hv (hm_prev s) (hm_cur s t) (held t)"
    and "hm_owner s m = Some t \<longleftrightarrow> m \<in> set (held t)"
    and "hm_wait s t = Some m \<Longrightarrow> hv m < hm_cur s t"
  using assms by (auto simp: hm_inv_def)

lemma level_chain_le: "level_chain hv prev c ms \<Longrightarrow> m \<in> set ms \<Longrightarrow> c \<le> hv m"
proof (induction ms arbitrary: c)
  case (Cons x xs)
  then have "m = x \<or> prev x \<le> hv m" by auto
  with Cons.prems show ?case by auto
qed simp

lemma level_chain_frame: "(\<And>m. m \<in> set ms \<Longrightarrow> prev' m = prev m) \<Longrightarrow> level_chain hv prev' c ms = level_chain hv prev c ms"
  by (induction ms arbitrary: c) auto

lemma level_chain_tail_less: "level_chain hv prev c (x # xs) \<Longrightarrow> m \<in> set xs \<Longrightarrow> hv x < hv m"
  using level_chain_le [of hv prev "prev x" xs m] by auto

lemma level_chain_last: "level_chain hv prev c ms \<Longrightarrow> ms \<noteq> [] \<Longrightarrow> m \<in> set ms \<Longrightarrow> c = hv m \<Longrightarrow> hd ms = m"
  by (cases ms) (use level_chain_tail_less in fastforce)+

lemma hm_inv_init: "hm_inv hv (\<lambda>t. []) hm_init"
  by (simp add: hm_inv_def hm_init_def)

lemma hm_inv_locked:
  assumes "hm_inv hv held s" "hm_owner s m = None" "hv m < hm_cur s t"
  shows "hm_inv hv (held(t := m # held t)) (hm_locked hv t m s)"
proof -
  have "m \<notin> set (held u)" for u
    using hm_inv_parts(2) [OF assms(1), of m u] assms(2) by simp
  note fresh = this
  then have "level_chain hv ((hm_prev s)(m := x)) c (held u) = level_chain hv (hm_prev s) c (held u)" for x c u
    by (intro level_chain_frame) auto
  moreover have "m \<notin> set (held u)" for u by (rule fresh)
  ultimately show ?thesis
    using assms unfolding hm_inv_def by (auto simp: hm_locked_def update_hierachy_value_def)
qed

lemma hm_inv_unlock:
  assumes i: "hm_inv hv held s" and o: "hm_owner s m = Some t" and "hm_wait s t = None" "hm_cur s t = hv m"
  shows "hm_inv hv (held(t := tl (held t))) (snd (hm_unlock hv t m s))"
proof -
  have m: "m \<in> set (held t)" using hm_inv_parts(2) [OF i] o by simp
  have c: "level_chain hv (hm_prev s) (hm_cur s t) (held t)" by (rule hm_inv_parts(1) [OF i])
  from m obtain ms where h: "held t = m # ms"
    using level_chain_last [OF c _ m] assms(4) by (cases "held t") auto
  have ms: "m \<notin> set ms"
    using level_chain_tail_less [of hv "hm_prev s" "hm_cur s t" m ms m] c h by auto
  have ow: "hm_owner s x = Some u \<longleftrightarrow> x \<in> set (held u)" for x u by (rule hm_inv_parts(2) [OF i])
  have "m \<notin> set (held u)" if "u \<noteq> t" for u
    using ow [of m u] o that by auto
  then show ?thesis
    using i assms(3,4) c h ms ow unfolding hm_inv_def by (auto simp: hm_unlock_def)
qed

lemma hm_inv_step:
  assumes i: "hm_inv hv held s" and st: "hm_step hv e s = Some (r, s')"
  shows "\<exists>held'. hm_inv hv held' s'"
proof (cases e)
  case (HLock t m)
  then have "hm_inv hv held s'"
    using assms by (auto simp: hm_lock_call_def chech_for_hierachy_violation_def hm_inv_def not_le split: if_splits)
  then show ?thesis by blast
next
  case (HAcquire t)
  with st obtain m where m: "hm_wait s t = Some m" "hm_owner s m = None" "s' = hm_locked hv t m s"
    by (auto split: option.splits if_splits)
  show ?thesis
    using hm_inv_locked [OF i m(2) hm_inv_parts(3) [OF i m(1)]] m(3) by blast
next
  case (HUnlock t m)
  show ?thesis
  proof (cases "hm_cur s t = hv m")
    case True
    with HUnlock st show ?thesis using hm_inv_unlock [OF i, of m t] by (auto split: if_splits)
  next
    case False
    with HUnlock st i show ?thesis by (auto simp: hm_unlock_def split: if_splits)
  qed
next
  case (HTryLock t m)
  then show ?thesis
    using assms hm_inv_locked [OF i, of m t]
    by (auto simp: hm_try_lock_def chech_for_hierachy_violation_def not_le split: if_splits)
qed

lemma hm_inv_run: "hm_run hv es s = Some s' \<Longrightarrow> hm_inv hv held s \<Longrightarrow> \<exists>held'. hm_inv hv held' s'"
proof (induction es arbitrary: s held)
  case (Cons e es)
  then show ?case using hm_inv_step by (fastforce split: option.splits prod.splits)
qed auto

lemma hm_inv_reached: "hm_run hv es hm_init = Some s \<Longrightarrow> \<exists>held. hm_inv hv held s"
  using hm_inv_run hm_inv_init by blast

section \<open>No deadlock\<close>

text \<open>Thread \<open>t\<close> is inside \<open>lock()\<close> of a mutex that thread \<open>u\<close> holds.\<close>

definition waits_for :: "hm_state \<Rightarrow> (nat \<times> nat) set" where
  "waits_for s = {(t, u). \<exists>m. hm_wait s t = Some m \<and> hm_owner s m = Some u}"

definition wait_rank :: "(nat \<Rightarrow> level) \<Rightarrow> hm_state \<Rightarrow> nat \<Rightarrow> nat" where
  "wait_rank hv s t = (case hm_wait s t of None \<Rightarrow> 0 | Some m \<Rightarrow> Suc (unat (hv m)))"

lemma waits_for_rank:
  assumes "hm_inv hv held s" "(t, u) \<in> waits_for s"
  shows "wait_rank hv s u < wait_rank hv s t"
proof -
  obtain m where m: "hm_wait s t = Some m" "hm_owner s m = Some u"
    using assms(2) by (auto simp: waits_for_def)
  have "hm_cur s u \<le> hv m"
    using level_chain_le [OF hm_inv_parts(1) [OF assms(1)]] hm_inv_parts(2) [OF assms(1)] m(2) by blast
  moreover have "hm_wait s u = Some m' \<Longrightarrow> hv m' < hm_cur s u" for m'
    by (rule hm_inv_parts(3) [OF assms(1)])
  ultimately have "hm_wait s u = Some m' \<Longrightarrow> unat (hv m') < unat (hv m)" for m'
    by (metis order_less_le_trans word_less_nat_alt)
  with m(1) show ?thesis by (auto simp: wait_rank_def split: option.splits)
qed

lemma waits_for_acyclic:
  assumes "hm_inv hv held s" shows "acyclic (waits_for s)" "wf ((waits_for s)\<inverse>)"
proof -
  have "(waits_for s)\<inverse> \<subseteq> measure (wait_rank hv s)"
    using waits_for_rank [OF assms] by auto
  then show w: "wf ((waits_for s)\<inverse>)" by (rule wf_subset [OF wf_measure])
  then show "acyclic (waits_for s)" using wf_acyclic acyclic_converse by blast
qed

text \<open>
  C24. No deadlock: however threads lock, unlock and try, they never wait for each other in a
  circle, and from every thread the chain of owners leads to one that can go on: one that is
  not waiting, or one whose mutex is free.
\<close>

theorem hierarchy_no_deadlock:
  assumes "hm_run hv es hm_init = Some s"
  shows "acyclic (waits_for s) \<and>
    (\<forall>t. \<exists>u. (t, u) \<in> (waits_for s)\<^sup>* \<and>
       (case hm_wait s u of None \<Rightarrow> True | Some m \<Rightarrow> hm_step hv (HAcquire u) s = Some (Returned, hm_locked hv u m s)))"
proof -
  obtain held where i: "hm_inv hv held s" using hm_inv_reached [OF assms] by blast
  have "\<exists>u. (t, u) \<in> (waits_for s)\<^sup>* \<and>
       (case hm_wait s u of None \<Rightarrow> True | Some m \<Rightarrow> hm_step hv (HAcquire u) s = Some (Returned, hm_locked hv u m s))" for t
  proof -
    have "t \<in> {u. (t, u) \<in> (waits_for s)\<^sup>*}" by simp
    from wfE_min [OF waits_for_acyclic(2) [OF i] this]
    obtain u where u: "(t, u) \<in> (waits_for s)\<^sup>*" "\<And>v. (u, v) \<notin> waits_for s"
      by (metis converse_iff mem_Collect_eq rtrancl.rtrancl_into_rtrancl)
    then have "hm_wait s u = Some m \<Longrightarrow> hm_owner s m = None" for m
      by (auto simp: waits_for_def)
    with u(1) show ?thesis by (intro exI [of _ u]) (auto split: option.splits)
  qed
  then show ?thesis using waits_for_acyclic(1) [OF i] by blast
qed

text \<open>The two threads of \<open>test_hierarchy_lock\<close>, the first one blocked on the second.\<close>

lemma hierarchy_no_deadlock_witness:
  "\<exists>s. hm_run (\<lambda>m. if m = 1 then 1000 else 500) [HLock 1 1, HAcquire 1, HLock 2 2, HAcquire 2, HLock 1 2] hm_init = Some s \<and>
     hm_wait s 1 = Some 2 \<and> acyclic (waits_for s)"
proof -
  have "map_option (\<lambda>s. hm_wait s 1) (hm_run (\<lambda>m. if m = 1 then 1000 else 500) [HLock 1 1, HAcquire 1, HLock 2 2, HAcquire 2, HLock 1 2] hm_init) = Some (Some 2)"
    by code_simp
  then obtain s where "hm_run (\<lambda>m. if m = 1 then 1000 else 500) [HLock 1 1, HAcquire 1, HLock 2 2, HAcquire 2, HLock 1 2] hm_init = Some s" "hm_wait s 1 = Some 2"
    by auto
  then show ?thesis using hierarchy_no_deadlock by blast
qed

text \<open>
  C37. What the mutex enforces: \<open>lock\<close> throws exactly when the thread holds a mutex of the same
  or a lower level (or the level is the largest value of the type), in particular when it holds
  this mutex already; \<open>unlock\<close> throws, and leaves the mutex locked, exactly when the thread
  took another one later and still holds it; and a thread that has given all of its mutexes
  back is on the top level again.
\<close>

theorem hierarchy_enforced:
  assumes "hm_run hv es hm_init = Some s" "hm_wait s t = None"
  shows "(hm_step hv (HLock t m) s = Some (Threw, s) \<longleftrightarrow> hv m = - 1 \<or> (\<exists>k. hm_owner s k = Some t \<and> hv k \<le> hv m)) \<and>
    (hm_owner s m = Some t \<longrightarrow>
       (hm_step hv (HUnlock t m) s = Some (Threw, s) \<longleftrightarrow> (\<exists>k. hm_owner s k = Some t \<and> hv k < hv m))) \<and>
    ((\<forall>k. hm_owner s k \<noteq> Some t) \<longrightarrow> hm_cur s t = - 1)"
proof -
  obtain held where i: "hm_inv hv held s" using hm_inv_reached [OF assms(1)] by blast
  have c: "level_chain hv (hm_prev s) (hm_cur s t) (held t)" by (rule hm_inv_parts(1) [OF i])
  have o: "hm_owner s k = Some t \<longleftrightarrow> k \<in> set (held t)" for k by (rule hm_inv_parts(2) [OF i])
  have le: "k \<in> set (held t) \<Longrightarrow> hm_cur s t \<le> hv k" for k by (rule level_chain_le [OF c])
  have top: "held t = [] \<and> hm_cur s t = - 1 \<or> (\<exists>k\<in>set (held t). hm_cur s t = hv k)"
    using c by (cases "held t") auto
  have "hm_cur s t \<le> hv m \<longleftrightarrow> hv m = - 1 \<or> (\<exists>k\<in>set (held t). hv k \<le> hv m)"
    using top le by (auto intro: order_trans simp: word_order.extremum_uniqueI)
  moreover have "hm_cur s t \<noteq> hv m \<longleftrightarrow> (\<exists>k\<in>set (held t). hv k < hv m)" if "m \<in> set (held t)"
    using top le that by (metis empty_iff empty_set leD order_le_less)
  moreover have "held t = [] \<Longrightarrow> hm_cur s t = - 1" using c by simp
  ultimately show ?thesis
    using assms(2) o
    by (auto simp: hm_lock_call_def hm_unlock_def chech_for_hierachy_violation_def Bex_def neq_Nil_conv)
qed

lemma hierarchy_enforced_witness:
  "\<exists>s. hm_run (\<lambda>m. if m = 1 then 1000 else 500) [HLock 1 1, HAcquire 1, HTryLock 1 2] hm_init = Some s \<and>
     hm_step (\<lambda>m. if m = 1 then 1000 else 500) (HUnlock 1 1) s = Some (Threw, s)"
proof -
  have "map_option (\<lambda>s. (hm_wait s 1, hm_owner s 1, hm_owner s 2)) (hm_run (\<lambda>m. if m = 1 then 1000 else 500) [HLock 1 1, HAcquire 1, HTryLock 1 2] hm_init) = Some (None, Some 1, Some 1)"
    by code_simp
  then obtain s where s: "hm_run (\<lambda>m. if m = 1 then 1000 else 500) [HLock 1 1, HAcquire 1, HTryLock 1 2] hm_init = Some s"
      "hm_wait s 1 = None" "hm_owner s 1 = Some 1" "hm_owner s 2 = Some 1"
    by auto
  have "(500 :: level) < 1000" by code_simp
  then have "\<exists>k. hm_owner s k = Some 1 \<and> (if k = 1 then 1000 else 500 :: level) < (if 1 = (1 :: nat) then 1000 else 500)"
    using s(4) by (intro exI [of _ 2]) simp
  then show ?thesis using s hierarchy_enforced [OF s(1,2), where m = 1] by blast
qed

end
