(* ===== verification/LockOrder.thy ===== *)
theory LockOrder
  imports Prelude
begin

text \<open>
  Threads that take several mutexes: \<open>dead_lock1\<close>, \<open>dead_lock2\<close>, \<open>danger_swap\<close>, \<open>safe_swap\<close>,
  \<open>safe_swap_scope\<close> and \<open>atomic_lock1/2\<close> of \<open>day02-lockmutex.cpp\<close>, and \<open>deadlockdemo\<close> of
  \<open>deadlock.cpp\<close>. A thread is the list of what it has left to do; threads interleave
  operation by operation. \<open>std::lock(a, b)\<close> and \<open>std::scoped_lock\<close> return when they have both
  mutexes and keep none while they wait, which is what the standard says of them; this is the
  operation \<open>AcquireBoth\<close>. The object a mutex guards has the number of its mutex.
\<close>

datatype lock_op =
    Acquire nat
  | AcquireBoth nat nat
  | Release nat
  | Assign nat int
  | SwapObjs nat nat
  | Spawn nat "lock_op list"     \<comment> \<open>\<open>std::async\<close>: thread and its code\<close>
  | Join nat                     \<comment> \<open>the destructor of its future\<close>

record lock_state =
  lp_code :: "nat \<Rightarrow> lock_op list"
  lp_owner :: "nat \<Rightarrow> nat option"
  lp_data :: "nat \<Rightarrow> int"

text \<open>\<open>swap(some_big_object&, some_big_object&)\<close>: three moves through a temporary.\<close>

definition swap_objects :: "nat \<Rightarrow> nat \<Rightarrow> (nat \<Rightarrow> int) \<Rightarrow> (nat \<Rightarrow> int)" where
  "swap_objects a b d = (let temp = d a; d1 = d(a := d b) in d1(b := temp))"

fun lock_op_step :: "nat \<Rightarrow> lock_op \<Rightarrow> lock_state \<Rightarrow> lock_state option" where
  "lock_op_step t (Acquire m) s =
     (if lp_owner s m = None then Some (s\<lparr>lp_owner := (lp_owner s)(m := Some t)\<rparr>) else None)"
| "lock_op_step t (AcquireBoth a b) s =
     (if lp_owner s a = None \<and> lp_owner s b = None
      then Some (s\<lparr>lp_owner := (lp_owner s)(a := Some t, b := Some t)\<rparr>) else None)"
| "lock_op_step t (Release m) s = Some (s\<lparr>lp_owner := (lp_owner s)(m := None)\<rparr>)"
| "lock_op_step t (Assign m v) s = Some (s\<lparr>lp_data := (lp_data s)(m := v)\<rparr>)"
| "lock_op_step t (SwapObjs a b) s = Some (s\<lparr>lp_data := swap_objects a b (lp_data s)\<rparr>)"
| "lock_op_step t (Spawn u p) s = Some (s\<lparr>lp_code := (lp_code s)(u := p)\<rparr>)"
| "lock_op_step t (Join u) s = (if lp_code s u = [] then Some s else None)"

text \<open>The next operation of thread \<open>t\<close>: \<open>None\<close> when it is blocked or has ended.\<close>

definition thread_step :: "nat \<Rightarrow> lock_state \<Rightarrow> lock_state option" where
  "thread_step t s =
     (case lp_code s t of
        [] \<Rightarrow> None
      | p # ps \<Rightarrow> lock_op_step t p (s\<lparr>lp_code := (lp_code s)(t := ps)\<rparr>))"

fun lock_run :: "nat list \<Rightarrow> lock_state \<Rightarrow> lock_state option" where
  "lock_run [] s = Some s"
| "lock_run (t # ts) s = (case thread_step t s of None \<Rightarrow> None | Some s' \<Rightarrow> lock_run ts s')"

definition lock_start :: "lock_op list list \<Rightarrow> (nat \<Rightarrow> int) \<Rightarrow> lock_state" where
  "lock_start ps d =
     \<lparr>lp_code = \<lambda>t. if t < length ps then ps ! t else [], lp_owner = \<lambda>m. None, lp_data = d\<rparr>"

definition all_ended :: "lock_state \<Rightarrow> bool" where
  "all_ended s \<longleftrightarrow> (\<forall>t. lp_code s t = [])"

definition stuck :: "lock_state \<Rightarrow> bool" where
  "stuck s \<longleftrightarrow> \<not> all_ended s \<and> (\<forall>t. thread_step t s = None)"

section \<open>The functions\<close>

text \<open>The two mutexes \<open>t_lock1\<close>, \<open>t_lock2\<close> and their variables \<open>m_1\<close>, \<open>m_2\<close> are 1 and 2.\<close>

definition dead_lock1 :: "lock_op list" where
  "dead_lock1 = [Acquire 1, Assign 1 1024, Acquire 2, Assign 2 2048, Release 2, Release 1]"

definition dead_lock2 :: "lock_op list" where
  "dead_lock2 = [Acquire 2, Assign 2 2048, Acquire 1, Assign 1 1024, Release 1, Release 2]"

definition atomic_lock1 :: "lock_op list" where
  "atomic_lock1 = [Acquire 1, Assign 1 1024, Release 1]"

definition atomic_lock2 :: "lock_op list" where
  "atomic_lock2 = [Acquire 2, Assign 2 2048, Release 2]"

definition danger_swap :: "nat \<Rightarrow> nat \<Rightarrow> lock_op list" where
  "danger_swap a b = (if a = b then [] else [Acquire a, Acquire b, SwapObjs a b, Release b, Release a])"

definition safe_swap :: "nat \<Rightarrow> nat \<Rightarrow> lock_op list" where
  "safe_swap a b = (if a = b then [] else [AcquireBoth a b, SwapObjs a b, Release b, Release a])"

definition safe_swap_scope :: "nat \<Rightarrow> nat \<Rightarrow> lock_op list" where
  "safe_swap_scope a b = (if a = b then [] else [AcquireBoth a b, SwapObjs a b, Release a, Release b])"

text \<open>The thread of \<open>deadlockdemo\<close>: the temporary future is destroyed with the lock held.\<close>

definition deadlockdemo :: "lock_op list" where
  "deadlockdemo =
     [Acquire 1, Assign 1 1, Spawn 1 [Acquire 1, Assign 1 2, Release 1], Join 1, Release 1]"

text \<open>What the safe threads of the file do: any sequence of these calls.\<close>

datatype safe_call = SafeSwap nat nat | SafeSwapScope nat nat | AtomicLock1 | AtomicLock2

fun safe_call_ops :: "safe_call \<Rightarrow> lock_op list" where
  "safe_call_ops (SafeSwap a b) = safe_swap a b"
| "safe_call_ops (SafeSwapScope a b) = safe_swap_scope a b"
| "safe_call_ops AtomicLock1 = atomic_lock1"
| "safe_call_ops AtomicLock2 = atomic_lock2"

definition safe_thread :: "safe_call list \<Rightarrow> lock_op list" where
  "safe_thread cs = concat (map safe_call_ops cs)"

section \<open>Threads that acquire only when they hold nothing\<close>

fun one_shot :: "nat set \<Rightarrow> lock_op list \<Rightarrow> bool" where
  "one_shot H [] \<longleftrightarrow> H = {}"
| "one_shot H (Acquire m # ps) \<longleftrightarrow> H = {} \<and> one_shot {m} ps"
| "one_shot H (AcquireBoth a b # ps) \<longleftrightarrow> H = {} \<and> one_shot {a, b} ps"
| "one_shot H (Release m # ps) \<longleftrightarrow> m \<in> H \<and> one_shot (H - {m}) ps"
| "one_shot H (Assign m v # ps) \<longleftrightarrow> m \<in> H \<and> one_shot H ps"
| "one_shot H (SwapObjs a b # ps) \<longleftrightarrow> a \<in> H \<and> b \<in> H \<and> one_shot H ps"
| "one_shot H (Spawn u p # ps) \<longleftrightarrow> False"
| "one_shot H (Join u # ps) \<longleftrightarrow> False"

lemma one_shot_call: "one_shot {} (safe_call_ops c @ ps) \<longleftrightarrow> one_shot {} ps"
  by (cases c) (auto simp: safe_swap_def safe_swap_scope_def atomic_lock1_def atomic_lock2_def insert_Diff_if)

lemma one_shot_thread: "one_shot {} (safe_thread cs)"
  by (induction cs) (simp_all add: safe_thread_def one_shot_call)

definition holds :: "lock_state \<Rightarrow> nat \<Rightarrow> nat set" where
  "holds s t = {m. lp_owner s m = Some t}"

definition lock_inv :: "lock_state \<Rightarrow> bool" where
  "lock_inv s \<longleftrightarrow> (\<forall>t. one_shot (holds s t) (lp_code s t))"

lemma lock_invD: "lock_inv s \<Longrightarrow> one_shot (holds s t) (lp_code s t)"
  by (simp add: lock_inv_def)

lemma lock_inv_step:
  assumes i: "lock_inv s" and st: "thread_step t s = Some s'"
  shows "lock_inv s'"
proof -
  obtain p ps where c: "lp_code s t = p # ps"
    and st': "lock_op_step t p (s\<lparr>lp_code := (lp_code s)(t := ps)\<rparr>) = Some s'"
    using st by (auto simp: thread_step_def split: list.splits)
  have t: "one_shot (holds s t) (p # ps)" using lock_invD [OF i, of t] c by simp
  have others: "holds s' u = holds s u \<and> lp_code s' u = lp_code s u" if "u \<noteq> t" for u
    using st' t that by (cases p) (auto simp: holds_def split: if_splits)
  have "one_shot (holds s' t) (lp_code s' t)"
  proof (cases p)
    case (Acquire m)
    then have "holds s' t = insert m (holds s t)" "lp_code s' t = ps"
      using st' by (auto simp: holds_def split: if_splits)
    with t Acquire show ?thesis by simp
  next
    case (AcquireBoth a b)
    then have "holds s' t = insert a (insert b (holds s t))" "lp_code s' t = ps"
      using st' by (auto simp: holds_def split: if_splits)
    with t AcquireBoth show ?thesis by simp
  next
    case (Release m)
    then have "holds s' t = holds s t - {m}" "lp_code s' t = ps"
      using st' by (auto simp: holds_def split: if_splits)
    with t Release show ?thesis by simp
  qed (use t st' in \<open>auto simp: holds_def\<close>)
  with others i show ?thesis unfolding lock_inv_def by metis
qed

lemma lock_run_inv: "lock_run ts s = Some s' \<Longrightarrow> lock_inv s \<Longrightarrow> lock_inv s'"
  by (induction ts arbitrary: s) (auto split: option.splits dest: lock_inv_step)

lemma lock_inv_start: "(\<And>p. p \<in> set ps \<Longrightarrow> one_shot {} p) \<Longrightarrow> lock_inv (lock_start ps d)"
  by (simp add: lock_inv_def lock_start_def holds_def)

text \<open>A thread that holds a mutex is not blocked, so there is always one that is not.\<close>

lemma holder_steps: "lock_inv s \<Longrightarrow> lp_owner s m = Some u \<Longrightarrow> thread_step u s \<noteq> None"
proof -
  assume i: "lock_inv s" and o: "lp_owner s m = Some u"
  have h: "m \<in> holds s u" using o by (simp add: holds_def)
  with lock_invD [OF i, of u] obtain p ps where c: "lp_code s u = p # ps"
    by (cases "lp_code s u") auto
  with lock_invD [OF i, of u] h show ?thesis
    by (cases p) (auto simp: thread_step_def)
qed

lemma not_stuck: "lock_inv s \<Longrightarrow> \<not> all_ended s \<Longrightarrow> \<exists>t. thread_step t s \<noteq> None"
proof -
  assume i: "lock_inv s" and "\<not> all_ended s"
  then obtain t p ps where c: "lp_code s t = p # ps"
    by (auto simp: all_ended_def neq_Nil_conv)
  show ?thesis
  proof (cases "\<exists>m u. lp_owner s m = Some u")
    case True
    then show ?thesis using holder_steps [OF i] by blast
  next
    case False
    then have "lp_owner s = (\<lambda>m. None)" by auto
    with c lock_invD [OF i, of t] have "thread_step t s \<noteq> None"
      by (cases p) (auto simp: thread_step_def)
    then show ?thesis by blast
  qed
qed

text \<open>Every step uses up an operation.\<close>

definition ops_left :: "nat \<Rightarrow> lock_state \<Rightarrow> nat" where
  "ops_left n s = (\<Sum>t<n. length (lp_code s t))"

lemma step_code:
  "lock_inv s \<Longrightarrow> thread_step t s = Some s' \<Longrightarrow> lp_code s' = (lp_code s)(t := tl (lp_code s t)) \<and> lp_code s t \<noteq> []"
proof -
  assume i: "lock_inv s" and st: "thread_step t s = Some s'"
  then obtain p ps where c: "lp_code s t = p # ps"
    by (auto simp: thread_step_def split: list.splits)
  with st lock_invD [OF i, of t] show ?thesis
    by (cases p) (auto simp: thread_step_def split: if_splits)
qed

lemma ops_left_step:
  assumes "lock_inv s" "thread_step t s = Some s'" "t < n"
  shows "ops_left n s = Suc (ops_left n s')"
proof -
  note c = step_code [OF assms(1,2)]
  have "ops_left n s = length (lp_code s t) + (\<Sum>u\<in>{..<n} - {t}. length (lp_code s u))"
    using assms(3) by (simp add: ops_left_def sum.remove)
  moreover have "ops_left n s' = length (lp_code s' t) + (\<Sum>u\<in>{..<n} - {t}. length (lp_code s' u))"
    using assms(3) by (simp add: ops_left_def sum.remove)
  moreover have "(\<Sum>u\<in>{..<n} - {t}. length (lp_code s' u)) = (\<Sum>u\<in>{..<n} - {t}. length (lp_code s u))"
    using c by (intro sum.cong) auto
  ultimately show ?thesis using c by simp
qed

lemma run_length:
  "lock_run ts s = Some s' \<Longrightarrow> lock_inv s \<Longrightarrow> \<forall>t\<ge>n. lp_code s t = [] \<Longrightarrow>
   ops_left n s = length ts + ops_left n s' \<and> (\<forall>t\<ge>n. lp_code s' t = [])"
proof (induction ts arbitrary: s)
  case (Cons t ts)
  then obtain s1 where s1: "thread_step t s = Some s1" "lock_run ts s1 = Some s'"
    by (auto split: option.splits)
  note c = step_code [OF Cons.prems(2) s1(1)]
  then have "t < n" using Cons.prems(3) by (meson not_le)
  moreover have "\<forall>u\<ge>n. lp_code s1 u = []" using c Cons.prems(3) by simp
  ultimately show ?case
    using Cons.IH [OF s1(2) lock_inv_step [OF Cons.prems(2) s1(1)]] ops_left_step [OF Cons.prems(2) s1(1)] by simp
qed simp

lemma run_extends:
  "lock_inv s \<Longrightarrow> \<forall>t\<ge>n. lp_code s t = [] \<Longrightarrow> \<exists>ts s'. lock_run ts s = Some s' \<and> all_ended s'"
proof (induction "ops_left n s" arbitrary: s)
  case 0
  then have "all_ended s" by (auto simp: all_ended_def ops_left_def not_less) (metis lessThan_iff not_le)
  then have "lock_run [] s = Some s \<and> all_ended s" by simp
  then show ?case by blast
next
  case (Suc k)
  show ?case
  proof (cases "all_ended s")
    case True
    then have "lock_run [] s = Some s \<and> all_ended s" by simp
    then show ?thesis by blast
  next
    case False
    with not_stuck Suc.prems(1) obtain t s1 where s1: "thread_step t s = Some s1" by blast
    note c = step_code [OF Suc.prems(1) s1]
    with Suc.prems(2) have "t < n" by (meson not_le)
    then have "k = ops_left n s1" using ops_left_step [OF Suc.prems(1) s1] Suc.hyps(2) by simp
    moreover have "\<forall>u\<ge>n. lp_code s1 u = []" using c Suc.prems(2) by simp
    ultimately obtain ts s' where "lock_run ts s1 = Some s' \<and> all_ended s'"
      using Suc.hyps(1) lock_inv_step [OF Suc.prems(1) s1] by blast
    with s1 have "lock_run (t # ts) s = Some s' \<and> all_ended s'" by simp
    then show ?thesis by blast
  qed
qed

text \<open>
  C31. The safe variants cannot deadlock: whatever number of threads call \<open>safe_swap\<close>,
  \<open>safe_swap_scope\<close>, \<open>atomic_lock1\<close> and \<open>atomic_lock2\<close> on whatever managers and in whatever order,
  every schedule can go on until all threads have ended, every schedule is at most as long as
  the operations are many, and a thread swaps or assigns only objects whose mutexes it holds.
\<close>

theorem safe_locks_finish:
  assumes "lock_run ts (lock_start (map safe_thread progs) d) = Some s"
  shows "\<not> stuck s \<and> (\<exists>us s'. lock_run us s = Some s' \<and> all_ended s') \<and>
    length ts \<le> sum_list (map (length \<circ> safe_thread) progs) \<and>
    (\<forall>t a b ps. lp_code s t = SwapObjs a b # ps \<longrightarrow> lp_owner s a = Some t \<and> lp_owner s b = Some t) \<and>
    (\<forall>t m v ps. lp_code s t = Assign m v # ps \<longrightarrow> lp_owner s m = Some t)"
proof -
  define s0 where "s0 = lock_start (map safe_thread progs) d"
  have run: "lock_run ts s0 = Some s" using assms by (simp add: s0_def)
  have i0: "lock_inv s0" unfolding s0_def by (rule lock_inv_start) (auto simp: one_shot_thread)
  have e0: "\<forall>t\<ge>length progs. lp_code s0 t = []" by (simp add: s0_def lock_start_def)
  have i: "lock_inv s" by (rule lock_run_inv [OF run i0])
  note len = run_length [OF run i0 e0]
  have "ops_left (length progs) s0 = sum_list (map (length \<circ> safe_thread) progs)"
    by (simp add: ops_left_def s0_def lock_start_def sum_list_sum_nth atLeast0LessThan)
  with len have 3: "length ts \<le> sum_list (map (length \<circ> safe_thread) progs)" by simp
  have 4: "lp_code s t = SwapObjs a b # ps \<Longrightarrow> lp_owner s a = Some t \<and> lp_owner s b = Some t" for t a b ps
    using lock_invD [OF i, of t] by (simp add: holds_def)
  have 5: "lp_code s t = Assign m v # ps \<Longrightarrow> lp_owner s m = Some t" for t m v ps
    using lock_invD [OF i, of t] by (simp add: holds_def)
  have 1: "\<not> stuck s" using not_stuck [OF i] by (auto simp: stuck_def)
  show ?thesis using 1 3 4 5 run_extends [OF i conjunct2 [OF len]] by blast
qed

lemma safe_locks_finish_witness:
  "\<exists>s. lock_run [0, 0, 0, 0, 1] (lock_start (map safe_thread [[SafeSwap 0 1], [SafeSwapScope 1 0]]) (\<lambda>m. 5)) = Some s \<and> \<not> stuck s"
proof -
  have "lock_run [0, 0, 0, 0, 1] (lock_start (map safe_thread [[SafeSwap 0 1], [SafeSwapScope 1 0]]) (\<lambda>m. 5)) \<noteq> None"
    by (simp add: lock_start_def thread_step_def safe_thread_def safe_swap_def safe_swap_scope_def)
  then show ?thesis using safe_locks_finish by blast
qed

section \<open>The unsafe ones\<close>

lemma stuckI:
  "lp_code s t \<noteq> [] \<Longrightarrow> (\<And>u. lp_code s u \<noteq> [] \<Longrightarrow> thread_step u s = None) \<Longrightarrow> stuck s"
  unfolding stuck_def all_ended_def by (metis list.simps(4) thread_step_def)

text \<open>
  The others deadlock. \<open>danger_swap\<close> on the same two managers in both orders, \<open>dead_lock1\<close>
  beside \<open>dead_lock2\<close>, and \<open>deadlockdemo\<close>, where a thread waits, with the mutex held, for the
  task that needs it, each have a schedule after which no thread can go on.
\<close>

theorem unsafe_locks_deadlock:
  "a \<noteq> b \<longrightarrow> (\<exists>s. lock_run [0, 1] (lock_start [danger_swap a b, danger_swap b a] d) = Some s \<and> stuck s)
   \<and> (\<exists>s. lock_run [0, 0, 1, 1] (lock_start [dead_lock1, dead_lock2] d) = Some s \<and> stuck s)
   \<and> (\<exists>s. lock_run [0, 0, 0] (lock_start [deadlockdemo] d) = Some s \<and> stuck s)"
proof (intro conjI impI)
  assume "a \<noteq> b"
  then show "\<exists>s. lock_run [0, 1] (lock_start [danger_swap a b, danger_swap b a] d) = Some s \<and> stuck s"
    by (simp add: lock_start_def thread_step_def danger_swap_def)
       (rule stuckI [of _ 0], auto simp: thread_step_def split: if_splits)
next
  show "\<exists>s. lock_run [0, 0, 1, 1] (lock_start [dead_lock1, dead_lock2] d) = Some s \<and> stuck s"
    by (simp add: lock_start_def thread_step_def dead_lock1_def dead_lock2_def)
       (rule stuckI [of _ 0], auto simp: thread_step_def split: if_splits)
next
  show "\<exists>s. lock_run [0, 0, 0] (lock_start [deadlockdemo] d) = Some s \<and> stuck s"
    by (simp add: lock_start_def thread_step_def deadlockdemo_def)
       (rule stuckI [of _ 0], auto simp: thread_step_def split: if_splits)
qed

lemma unsafe_locks_deadlock_witness:
  "\<exists>s. lock_run [0, 1] (lock_start [danger_swap 3 4, danger_swap 4 3] (\<lambda>m. 0)) = Some s \<and> stuck s"
  using unsafe_locks_deadlock [of 3 4 "\<lambda>m. 0"] by simp

end
