(* ===== verification/Channel.thy ===== *)
theory Channel
  imports Prelude
begin

text \<open>
  \<open>Channel<T>\<close> of \<open>CppCSP.cpp\<close>: a bounded queue under one mutex with a condition variable for
  producers and one for consumers, which can be closed. A call is one critical section unless
  it has to wait; then the thread sleeps, is moved to the woken threads by a notification (or
  for no reason, which condition variables permit), and tests its predicate again when it gets
  the mutex. Which sleeping thread \<open>notify_one\<close> wakes, and when a woken thread runs, is the
  schedule's choice. Threads are numbers; the returns of the calls are logged in their order.
\<close>

datatype 'a chan_return = Sent 'a | SendFailed 'a | Received 'a | ReceiveFailed

record 'a channel =
  ch_queue :: "'a list"
  ch_capacity :: nat
  ch_closed :: bool
  send_sleep :: "(nat \<times> 'a) list"    \<comment> \<open>asleep in \<open>cv_producer_.wait\<close>, with the value to send\<close>
  send_woken :: "(nat \<times> 'a) list"    \<comment> \<open>woken, not yet running\<close>
  recv_sleep :: "nat list"           \<comment> \<open>asleep in \<open>cv_consumer_.wait\<close>\<close>
  recv_woken :: "nat list"
  returns :: "'a chan_return list"

definition make_channel :: "nat \<Rightarrow> 'a channel" where
  "make_channel capacity = \<lparr>ch_queue = [], ch_capacity = capacity, ch_closed = False, send_sleep = [],
     send_woken = [], recv_sleep = [], recv_woken = [], returns = []\<rparr>"

text \<open>The predicates of the two waits.\<close>

definition may_send :: "'a channel \<Rightarrow> bool" where
  "may_send s \<longleftrightarrow> (ch_capacity s = 0 \<and> ch_queue s = []) \<or> length (ch_queue s) < ch_capacity s \<or> ch_closed s"

definition may_receive :: "'a channel \<Rightarrow> bool" where
  "may_receive s \<longleftrightarrow> ch_queue s \<noteq> [] \<or> ch_closed s"

text \<open>\<open>notify_one\<close>: of the sleeping threads, if any, the one that \<open>k\<close> picks.\<close>

definition remove_nth :: "nat \<Rightarrow> 'b list \<Rightarrow> 'b list" where
  "remove_nth k xs = take k xs @ drop (Suc k) xs"

definition notify_consumer :: "nat \<Rightarrow> 'a channel \<Rightarrow> 'a channel" where
  "notify_consumer k s =
     (if recv_sleep s = [] then s
      else let i = k mod length (recv_sleep s) in
        s\<lparr>recv_sleep := remove_nth i (recv_sleep s), recv_woken := recv_woken s @ [recv_sleep s ! i]\<rparr>)"

definition notify_producer :: "nat \<Rightarrow> 'a channel \<Rightarrow> 'a channel" where
  "notify_producer k s =
     (if send_sleep s = [] then s
      else let i = k mod length (send_sleep s) in
        s\<lparr>send_sleep := remove_nth i (send_sleep s), send_woken := send_woken s @ [send_sleep s ! i]\<rparr>)"

text \<open>\<open>send\<close> from the test of its predicate on, and \<open>receive\<close>.\<close>

definition chan_send :: "nat \<Rightarrow> 'a \<Rightarrow> nat \<Rightarrow> 'a channel \<Rightarrow> 'a channel" where
  "chan_send t v k s =
     (if \<not> may_send s then s\<lparr>send_sleep := send_sleep s @ [(t, v)]\<rparr>
      else if ch_closed s then s\<lparr>returns := returns s @ [SendFailed v]\<rparr>
      else notify_consumer k (s\<lparr>ch_queue := ch_queue s @ [v], returns := returns s @ [Sent v]\<rparr>))"

definition chan_receive :: "nat \<Rightarrow> nat \<Rightarrow> 'a channel \<Rightarrow> 'a channel" where
  "chan_receive t k s =
     (if \<not> may_receive s then s\<lparr>recv_sleep := recv_sleep s @ [t]\<rparr>
      else (case ch_queue s of
          [] \<Rightarrow> s\<lparr>returns := returns s @ [ReceiveFailed]\<rparr>
        | v # q \<Rightarrow> notify_producer k (s\<lparr>ch_queue := q, returns := returns s @ [Received v]\<rparr>)))"

text \<open>\<open>close\<close>, with both \<open>notify_all\<close>.\<close>

definition chan_close :: "'a channel \<Rightarrow> 'a channel" where
  "chan_close s = s\<lparr>ch_closed := True,
     send_sleep := [], send_woken := send_woken s @ send_sleep s,
     recv_sleep := [], recv_woken := recv_woken s @ recv_sleep s\<rparr>"

datatype 'a chan_event =
    CSend nat 'a nat | CSendAgain nat nat | CSendSpurious nat
  | CReceive nat nat | CReceiveAgain nat nat | CReceiveSpurious nat
  | CClose

fun chan_exec :: "'a chan_event \<Rightarrow> 'a channel \<Rightarrow> 'a channel option" where
  "chan_exec (CSend t v k) s = Some (chan_send t v k s)"
| "chan_exec (CSendAgain i k) s =
     (if i < length (send_woken s)
      then Some (chan_send (fst (send_woken s ! i)) (snd (send_woken s ! i)) k
             (s\<lparr>send_woken := remove_nth i (send_woken s)\<rparr>))
      else None)"
| "chan_exec (CSendSpurious k) s = (if send_sleep s = [] then None else Some (notify_producer k s))"
| "chan_exec (CReceive t k) s = Some (chan_receive t k s)"
| "chan_exec (CReceiveAgain i k) s =
     (if i < length (recv_woken s)
      then Some (chan_receive (recv_woken s ! i) k (s\<lparr>recv_woken := remove_nth i (recv_woken s)\<rparr>))
      else None)"
| "chan_exec (CReceiveSpurious k) s = (if recv_sleep s = [] then None else Some (notify_consumer k s))"
| "chan_exec CClose s = Some (chan_close s)"

section \<open>The invariant\<close>

text \<open>The values that sends put in and that receives took out, in the order of their returns.\<close>

fun sent_of :: "'a chan_return list \<Rightarrow> 'a list" where
  "sent_of [] = []"
| "sent_of (Sent v # rs) = v # sent_of rs"
| "sent_of (r # rs) = sent_of rs"

fun received_of :: "'a chan_return list \<Rightarrow> 'a list" where
  "received_of [] = []"
| "received_of (Received v # rs) = v # received_of rs"
| "received_of (r # rs) = received_of rs"

lemma sent_of_append [simp]: "sent_of (rs @ rs') = sent_of rs @ sent_of rs'"
  by (induction rs rule: sent_of.induct) auto

lemma received_of_append [simp]: "received_of (rs @ rs') = received_of rs @ received_of rs'"
  by (induction rs rule: received_of.induct) auto

text \<open>The room there is: a channel of capacity 0 has room for one element.\<close>

definition room :: "nat \<Rightarrow> nat" where
  "room c = max 1 c"

lemma may_send_room: "may_send s \<longleftrightarrow> length (ch_queue s) < room (ch_capacity s) \<or> ch_closed s"
  by (cases "ch_queue s") (auto simp: may_send_def room_def)

text \<open>
  A thread sleeps only if the woken ones are enough for what is there: as many consumers as
  elements, as many producers as free places. After \<open>close\<close> nobody sleeps.
\<close>

definition chan_inv :: "nat \<Rightarrow> 'a channel \<Rightarrow> bool" where
  "chan_inv c s \<longleftrightarrow> ch_capacity s = c \<and>
     sent_of (returns s) = received_of (returns s) @ ch_queue s \<and>
     length (ch_queue s) \<le> room c \<and>
     (recv_sleep s = [] \<or> length (ch_queue s) \<le> length (recv_woken s) \<and> \<not> ch_closed s) \<and>
     (send_sleep s = [] \<or> room c - length (ch_queue s) \<le> length (send_woken s) \<and> \<not> ch_closed s)"

lemma length_remove_nth [simp]: "i < length xs \<Longrightarrow> length (remove_nth i xs) = length xs - 1"
  by (simp add: remove_nth_def)

lemma remove_nth_Nil [simp]: "remove_nth i [] = []"
  by (simp add: remove_nth_def)

text \<open>
  A call that gives up one woken thread, or none: the invariant before the call may miss the
  thread that is about to run.
\<close>

lemma notify_consumer_fields [simp]:
  "ch_queue (notify_consumer k s) = ch_queue s" "ch_capacity (notify_consumer k s) = ch_capacity s"
  "ch_closed (notify_consumer k s) = ch_closed s" "returns (notify_consumer k s) = returns s"
  "send_sleep (notify_consumer k s) = send_sleep s" "send_woken (notify_consumer k s) = send_woken s"
  by (simp_all add: notify_consumer_def Let_def)

lemma notify_producer_fields [simp]:
  "ch_queue (notify_producer k s) = ch_queue s" "ch_capacity (notify_producer k s) = ch_capacity s"
  "ch_closed (notify_producer k s) = ch_closed s" "returns (notify_producer k s) = returns s"
  "recv_sleep (notify_producer k s) = recv_sleep s" "recv_woken (notify_producer k s) = recv_woken s"
  by (simp_all add: notify_producer_def Let_def)

lemma notify_consumer_wakes:
  "recv_sleep (notify_consumer k s) = [] \<or> length (recv_woken (notify_consumer k s)) = Suc (length (recv_woken s))"
  "recv_sleep s = [] \<Longrightarrow> recv_sleep (notify_consumer k s) = []"
  by (simp_all add: notify_consumer_def Let_def)

lemma notify_producer_wakes:
  "send_sleep (notify_producer k s) = [] \<or> length (send_woken (notify_producer k s)) = Suc (length (send_woken s))"
  "send_sleep s = [] \<Longrightarrow> send_sleep (notify_producer k s) = []"
  by (simp_all add: notify_producer_def Let_def)

lemma chan_send_inv:
  assumes "ch_capacity s = c" "sent_of (returns s) = received_of (returns s) @ ch_queue s" "length (ch_queue s) \<le> room c"
    and "recv_sleep s = [] \<or> length (ch_queue s) \<le> length (recv_woken s) \<and> \<not> ch_closed s"
    and "send_sleep s = [] \<or> room c - length (ch_queue s) \<le> Suc (length (send_woken s)) \<and> \<not> ch_closed s"
  shows "chan_inv c (chan_send t v k s)"
  using assms notify_consumer_wakes [where k = k and s = "s\<lparr>ch_queue := ch_queue s @ [v], returns := returns s @ [Sent v]\<rparr>"]
  by (auto simp: chan_send_def chan_inv_def may_send_room)

lemma chan_receive_inv:
  assumes "ch_capacity s = c" "sent_of (returns s) = received_of (returns s) @ ch_queue s" "length (ch_queue s) \<le> room c"
    and "recv_sleep s = [] \<or> length (ch_queue s) \<le> Suc (length (recv_woken s)) \<and> \<not> ch_closed s"
    and "send_sleep s = [] \<or> room c - length (ch_queue s) \<le> length (send_woken s) \<and> \<not> ch_closed s"
  shows "chan_inv c (chan_receive t k s)"
proof (cases "ch_queue s")
  case Nil
  then show ?thesis using assms by (auto simp: chan_receive_def chan_inv_def may_receive_def)
next
  case (Cons v q)
  then show ?thesis
    using assms notify_producer_wakes [where k = k and s = "s\<lparr>ch_queue := q, returns := returns s @ [Received v]\<rparr>"]
    by (auto simp: chan_receive_def chan_inv_def may_receive_def)
qed

lemma chan_inv_exec: "chan_inv c s \<Longrightarrow> chan_exec e s = Some s' \<Longrightarrow> chan_inv c s'"
proof (cases e)
  case (CSend t v k)
  assume i: "chan_inv c s" and s': "chan_exec e s = Some s'"
  have "chan_inv c (chan_send t v k s)"
    by (rule chan_send_inv) (use i in \<open>auto simp: chan_inv_def\<close>)
  with CSend s' show ?thesis by simp
next
  case (CSendAgain j k)
  assume i: "chan_inv c s" and s': "chan_exec e s = Some s'"
  from CSendAgain s' have j: "j < length (send_woken s)" by (simp split: if_splits)
  have "chan_inv c (chan_send t v k (s\<lparr>send_woken := remove_nth j (send_woken s)\<rparr>))" for t v
    by (rule chan_send_inv) (use i j in \<open>auto simp: chan_inv_def\<close>)
  with CSendAgain s' j show ?thesis by auto
next
  case (CSendSpurious k)
  assume "chan_inv c s" "chan_exec e s = Some s'"
  with CSendSpurious notify_producer_wakes [where k = k and s = s] show ?thesis
    by (auto simp: chan_inv_def split: if_splits)
next
  case (CReceive t k)
  assume i: "chan_inv c s" and s': "chan_exec e s = Some s'"
  have "chan_inv c (chan_receive t k s)"
    by (rule chan_receive_inv) (use i in \<open>auto simp: chan_inv_def\<close>)
  with CReceive s' show ?thesis by simp
next
  case (CReceiveAgain j k)
  assume i: "chan_inv c s" and s': "chan_exec e s = Some s'"
  from CReceiveAgain s' have j: "j < length (recv_woken s)" by (simp split: if_splits)
  have "chan_inv c (chan_receive t k (s\<lparr>recv_woken := remove_nth j (recv_woken s)\<rparr>))" for t
    by (rule chan_receive_inv) (use i j in \<open>auto simp: chan_inv_def\<close>)
  with CReceiveAgain s' j show ?thesis by auto
next
  case (CReceiveSpurious k)
  assume "chan_inv c s" "chan_exec e s = Some s'"
  with CReceiveSpurious notify_consumer_wakes [where k = k and s = s] show ?thesis
    by (auto simp: chan_inv_def split: if_splits)
qed (auto simp: chan_inv_def chan_close_def)

interpretation chan: inv_machine chan_exec "chan_inv c"
  by unfold_locales (rule chan_inv_exec)

lemma chan_inv_init: "chan_inv c (make_channel c)"
  by (simp add: chan_inv_def make_channel_def)

section \<open>What a channel promises\<close>



text \<open>
  C40. Closing: once closed, a channel stays closed and nobody sleeps in it; each send returns
  false and leaves it unchanged, and the receives return what is left, in order, and then
  false for ever.
\<close>

theorem channel_closed_drains:
  assumes "run chan_exec es (make_channel c) = Some s" "ch_closed s"
  shows "send_sleep s = [] \<and> recv_sleep s = [] \<and>
    (\<forall>t v k. chan_exec (CSend t v k) s = Some (s\<lparr>returns := returns s @ [SendFailed v]\<rparr>)) \<and>
    (\<exists>s'. run chan_exec (replicate (length (ch_queue s) + n) (CReceive t k)) s = Some s' \<and> ch_closed s' \<and> ch_queue s' = [] \<and>
       returns s' = returns s @ map Received (ch_queue s) @ replicate n ReceiveFailed)"
proof -
  have i: "chan_inv c s" using chan.run_inv [OF chan_inv_init assms(1)] .
  have sl: "send_sleep s = []" "recv_sleep s = []" using i assms(2) by (auto simp: chan_inv_def)
  have empty: "run chan_exec (replicate n (CReceive t k)) x = Some (x\<lparr>returns := returns x @ replicate n ReceiveFailed\<rparr>)"
    if "ch_closed x" "ch_queue x = []" for x :: "'a channel"
    using that by (induction n arbitrary: x) (simp_all add: chan_receive_def may_receive_def)
  have "\<exists>s'. run chan_exec (replicate (length q + n) (CReceive t k)) x = Some s' \<and> ch_closed s' \<and> ch_queue s' = [] \<and>
       returns s' = returns x @ map Received q @ replicate n ReceiveFailed"
    if "ch_closed x" "ch_queue x = q" "send_sleep x = []" for q and x :: "'a channel"
    using that
  proof (induction q arbitrary: x)
    case Nil
    then show ?case by (simp add: empty)
  next
    case (Cons v q)
    with Cons.IH [of "x\<lparr>ch_queue := q, returns := returns x @ [Received v]\<rparr>"] show ?case
      by (simp add: chan_receive_def may_receive_def notify_producer_def)
  qed
  then show ?thesis using assms(2) sl by (simp add: chan_send_def may_send_def)
qed

lemma channel_closed_drains_witness:
  "\<exists>s. run chan_exec [CSend 1 (5 :: nat) 0, CClose] (make_channel 10) = Some s \<and>
     (\<exists>s'. run chan_exec [CReceive 2 0, CReceive 2 0] s = Some s' \<and> returns s' = [Sent 5, Received 5, ReceiveFailed])"
proof -
  obtain s where s: "run chan_exec [CSend 1 (5 :: nat) 0, CClose] (make_channel 10) = Some s" "ch_closed s"
    "ch_queue s = [5]" "returns s = [Sent 5]"
    by (simp add: make_channel_def chan_send_def chan_close_def may_send_def notify_consumer_def)
  from channel_closed_drains [OF s(1,2), of 1 2 0] s(3,4) s(1) show ?thesis
    by (auto simp: numeral_2_eq_2)
qed

text \<open>
  A channel of capacity 0 is meant to make a send wait for a receiver; the first send returns
  at once, with no receiver there.
\<close>

lemma unbuffered_send_returns:
  "chan_exec (CSend t v k) (make_channel 0) = Some s \<Longrightarrow> returns s = [Sent v] \<and> ch_queue s = [v]"
  by (auto simp: chan_send_def may_send_def make_channel_def)

end
