(* ===== verification/StealQueue.thy ===== *)
theory StealQueue
  imports Prelude
begin

text \<open>
  \<open>threadsafe_queue\<close> of \<open>src/Concurrent/day22-ThreadPool\<close> (also in \<open>day24-TroubleShoot\<close>): the queue
  with a lock for each end, extended with a stop flag and with \<open>try_steal\<close>, which takes the
  newest element through the \<open>prev\<close> pointer of the tail node. Nodes live in a heap: \<open>next\<close> is
  the owning pointer, \<open>prev\<close> a plain one. An allocation may return any free address.
\<close>

record 'a dnode =
  ddata :: "'a option"      \<comment> \<open>\<open>None\<close>: no pointer yet, or the value has been moved away\<close>
  dnext :: "nat option"
  dprev :: "nat option"     \<comment> \<open>\<open>None\<close>: not initialised\<close>

text \<open>What the owner of \<open>head_mutex\<close> has seen before its next step.\<close>

datatype look = TryItem | WaitItem | WaitNothing

datatype 'a sq_call = SqPush 'a | SqPop "'a option" | SqSteal "'a option"

record 'a steal_queue =
  sq_heap :: "nat \<Rightarrow> 'a dnode option"
  sq_head :: nat
  sq_tail :: nat
  sq_stop :: bool                        \<comment> \<open>\<open>bstop\<close>\<close>
  sq_owner :: "(nat \<times> look) option"     \<comment> \<open>the thread inside \<open>head_mutex\<close>\<close>
  sq_sleep :: "nat list"                 \<comment> \<open>threads in \<open>data_cond\<close>\<close>
  sq_error :: "cpp_error option"
  sq_log :: "'a sq_call list"            \<comment> \<open>calls in the order of their effects\<close>

text \<open>The constructor leaves \<open>bstop\<close> without a value; it is the argument \<open>b\<close>.\<close>

definition make_steal_queue :: "nat \<Rightarrow> bool \<Rightarrow> 'a steal_queue" where
  "make_steal_queue a b =
     \<lparr>sq_heap = [a \<mapsto> \<lparr>ddata = None, dnext = None, dprev = None\<rparr>], sq_head = a, sq_tail = a,
      sq_stop = b, sq_owner = None, sq_sleep = [], sq_error = None, sq_log = []\<rparr>"

definition deref :: "'a steal_queue \<Rightarrow> nat \<Rightarrow> 'a dnode res" where
  "deref s a = (case sq_heap s a of None \<Rightarrow> Inl UseAfterFree | Some n \<Rightarrow> Inr n)"

definition not_null :: "'b option \<Rightarrow> 'b res" where
  "not_null p = (case p of None \<Rightarrow> Inl NullDeref | Some x \<Rightarrow> Inr x)"

section \<open>The critical sections\<close>

text \<open>\<open>push\<close> under \<open>tail_mutex\<close>, the new node at address \<open>a\<close>.\<close>

definition sq_push :: "nat \<Rightarrow> 'a \<Rightarrow> 'a steal_queue \<Rightarrow> 'a steal_queue res" where
  "sq_push a v s =
     rbind (deref s (sq_tail s)) (\<lambda>n.
       Inr (s\<lparr>sq_heap := (sq_heap s)(sq_tail s \<mapsto> n\<lparr>ddata := Some v, dnext := Some a\<rparr>,
                a \<mapsto> \<lparr>ddata = None, dnext = None, dprev = Some (sq_tail s)\<rparr>),
              sq_tail := a, sq_log := sq_log s @ [SqPush v]\<rparr>))"

text \<open>\<open>pop_head\<close> with the read of the value; the old node dies when the call returns.\<close>

definition sq_pop_head :: "'a steal_queue \<Rightarrow> 'a steal_queue res" where
  "sq_pop_head s =
     rbind (deref s (sq_head s)) (\<lambda>n.
     rbind (not_null (ddata n)) (\<lambda>v.
     rbind (not_null (dnext n)) (\<lambda>h.
       Inr (s\<lparr>sq_heap := (sq_heap s)(sq_head s := None), sq_head := h,
              sq_log := sq_log s @ [SqPop (Some v)]\<rparr>))))"

text \<open>
  \<open>try_steal\<close> under both locks, when the queue is not empty: the assignment \<open>tail->next = nullptr\<close>
  frees the old tail node.
\<close>

definition sq_steal :: "'a steal_queue \<Rightarrow> 'a steal_queue res" where
  "sq_steal s =
     rbind (deref s (sq_tail s)) (\<lambda>t.
     rbind (not_null (dprev t)) (\<lambda>p.
     rbind (deref s p) (\<lambda>n.
     rbind (not_null (ddata n)) (\<lambda>v.
       Inr (s\<lparr>sq_heap := ((sq_heap s)(sq_tail s := None))(p \<mapsto> n\<lparr>ddata := None, dnext := None\<rparr>),
              sq_tail := p, sq_log := sq_log s @ [SqSteal (Some v)]\<rparr>)))))"

definition sq_settle :: "'a steal_queue res \<Rightarrow> 'a steal_queue \<Rightarrow> 'a steal_queue" where
  "sq_settle r s = (case r of Inl e \<Rightarrow> s\<lparr>sq_error := Some e\<rparr> | Inr s' \<Rightarrow> s')"

section \<open>Threads\<close>

text \<open>
  A pop holds \<open>head_mutex\<close> from its look at the tail to the removal; a push can come in between,
  a steal cannot. Notifications come at any time, which covers \<open>push\<close> (after its critical
  section) and spurious wake-ups.
\<close>

datatype 'a sq_event =
    SPush nat 'a           \<comment> \<open>address of the new node, value\<close>
  | STryPop nat            \<comment> \<open>\<open>try_pop\<close> locks and looks\<close>
  | SWaitPop nat           \<comment> \<open>\<open>wait_and_pop\<close> locks and tests its predicate\<close>
  | STake nat              \<comment> \<open>the owner of \<open>head_mutex\<close> goes on\<close>
  | SSteal
  | SNotify nat
  | SExit

fun sq_exec :: "'a sq_event \<Rightarrow> 'a steal_queue \<Rightarrow> 'a steal_queue option" where
  "sq_exec (SPush a v) s = (if sq_heap s a = None then Some (sq_settle (sq_push a v s) s) else None)"
| "sq_exec (STryPop t) s =
     (if sq_owner s \<noteq> None \<or> t \<in> set (sq_sleep s) then None
      else if sq_head s = sq_tail s then Some (s\<lparr>sq_log := sq_log s @ [SqPop None]\<rparr>)
      else Some (s\<lparr>sq_owner := Some (t, TryItem)\<rparr>))"
| "sq_exec (SWaitPop t) s =
     (if sq_owner s \<noteq> None \<or> t \<in> set (sq_sleep s) then None
      else if sq_head s \<noteq> sq_tail s then Some (s\<lparr>sq_owner := Some (t, WaitItem)\<rparr>)
      else if sq_stop s then Some s
      else Some (s\<lparr>sq_owner := Some (t, WaitNothing)\<rparr>))"
| "sq_exec (STake t) s =
     (case sq_owner s of
        None \<Rightarrow> None
      | Some (u, l) \<Rightarrow>
          if u \<noteq> t then None
          else let s1 = s\<lparr>sq_owner := None\<rparr> in
            Some (case l of
                TryItem \<Rightarrow> sq_settle (sq_pop_head s1) s1
              | WaitItem \<Rightarrow> if sq_stop s1 then s1 else sq_settle (sq_pop_head s1) s1
              | WaitNothing \<Rightarrow> s1\<lparr>sq_sleep := sq_sleep s1 @ [t]\<rparr>))"
| "sq_exec SSteal s =
     (if sq_owner s \<noteq> None then None
      else if sq_head s = sq_tail s then Some (s\<lparr>sq_log := sq_log s @ [SqSteal None]\<rparr>)
      else Some (sq_settle (sq_steal s) s))"
| "sq_exec (SNotify t) s = Some (s\<lparr>sq_sleep := remove1 t (sq_sleep s)\<rparr>)"
| "sq_exec SExit s = Some (s\<lparr>sq_stop := True, sq_sleep := []\<rparr>)"

section \<open>Linked nodes\<close>

text \<open>\<open>linked h xs\<close>: the nodes \<open>xs\<close> are chained both ways, the last one is the empty tail node.\<close>

fun linked :: "(nat \<Rightarrow> 'a dnode option) \<Rightarrow> nat list \<Rightarrow> bool" where
  "linked h [] \<longleftrightarrow> False"
| "linked h [x] \<longleftrightarrow> (\<exists>n. h x = Some n \<and> dnext n = None)"
| "linked h (x # y # zs) \<longleftrightarrow>
     (\<exists>n m v. h x = Some n \<and> dnext n = Some y \<and> ddata n = Some v \<and> h y = Some m \<and> dprev m = Some x) \<and>
     linked h (y # zs)"

definition node_value :: "(nat \<Rightarrow> 'a dnode option) \<Rightarrow> nat \<Rightarrow> 'a" where
  "node_value h x = the (ddata (the (h x)))"

definition sq_values :: "(nat \<Rightarrow> 'a dnode option) \<Rightarrow> nat list \<Rightarrow> 'a list" where
  "sq_values h xs = map (node_value h) (butlast xs)"

lemma linked_frame: "(\<And>x. x \<in> set xs \<Longrightarrow> h' x = h x) \<Longrightarrow> linked h' xs = linked h xs"
  by (induction h xs rule: linked.induct) auto

lemma sq_values_frame: "(\<And>x. x \<in> set (butlast xs) \<Longrightarrow> h' x = h x) \<Longrightarrow> sq_values h' xs = sq_values h xs"
  by (simp add: sq_values_def node_value_def)

lemma linked_last: "linked h (xs @ [t]) \<Longrightarrow> \<exists>n. h t = Some n \<and> dnext n = None"
  by (induction h "xs @ [t]" arbitrary: xs rule: linked.induct) (auto simp: Cons_eq_append_conv)

text \<open>Adding a node at the end.\<close>

lemma linked_push:
  assumes "linked h (xs @ [t])" "distinct (xs @ [t])" "a \<notin> set (xs @ [t])" "h t = Some n"
  shows "linked (h(t \<mapsto> n\<lparr>ddata := Some v, dnext := Some a\<rparr>, a \<mapsto> \<lparr>ddata = None, dnext = None, dprev = Some t\<rparr>)) (xs @ [t, a])"
  using assms
proof (induction xs)
  case Nil
  then show ?case by auto
next
  case (Cons x xs)
  then show ?case by (cases xs) auto
qed

text \<open>Taking the last one away.\<close>

lemma linked_steal:
  assumes "linked h (xs @ [p, t])" "distinct (xs @ [p, t])" "h p = Some n"
  shows "linked ((h(t := None))(p \<mapsto> n\<lparr>ddata := None, dnext := None\<rparr>)) (xs @ [p])"
  using assms
proof (induction xs)
  case (Cons x xs)
  then show ?case by (cases xs) auto
qed simp

lemma linked_last_two:
  "linked h (xs @ [p, t]) \<Longrightarrow>
   \<exists>n m v. h p = Some n \<and> ddata n = Some v \<and> h t = Some m \<and> dprev m = Some p"
proof (induction xs)
  case (Cons x xs)
  then show ?case by (cases xs) auto
qed auto

section \<open>The invariant\<close>

fun deque_op :: "'a sq_call \<Rightarrow> 'a list \<Rightarrow> 'a list option" where
  "deque_op (SqPush v) q = Some (q @ [v])"
| "deque_op (SqPop None) q = (if q = [] then Some [] else None)"
| "deque_op (SqPop (Some v)) q = (if q \<noteq> [] \<and> hd q = v then Some (tl q) else None)"
| "deque_op (SqSteal None) q = (if q = [] then Some [] else None)"
| "deque_op (SqSteal (Some v)) q = (if q \<noteq> [] \<and> last q = v then Some (butlast q) else None)"

text \<open>The contents of a double-ended queue after calls that return these answers.\<close>

fun deque_calls :: "'a sq_call list \<Rightarrow> 'a list \<Rightarrow> 'a list option" where
  "deque_calls [] q = Some q"
| "deque_calls (c # cs) q = (case deque_op c q of None \<Rightarrow> None | Some q' \<Rightarrow> deque_calls cs q')"

lemma deque_calls_snoc: "deque_calls (cs @ [c]) q = Option.bind (deque_calls cs q) (deque_op c)"
  by (induction cs arbitrary: q) (auto split: option.splits)

text \<open>
  \<open>xs\<close> are the nodes from \<open>head\<close> to \<open>tail\<close>, and the heap holds no others. The calls in the log
  have left in the queue the values of all nodes but the last.
\<close>

definition sq_nodes :: "nat list \<Rightarrow> 'a steal_queue \<Rightarrow> bool" where
  "sq_nodes xs s \<longleftrightarrow> xs \<noteq> [] \<and> sq_head s = hd xs \<and> sq_tail s = last xs \<and> distinct xs \<and>
     linked (sq_heap s) xs \<and> dom (sq_heap s) = set xs"

definition sq_inv :: "'a steal_queue \<Rightarrow> bool" where
  "sq_inv s \<longleftrightarrow> (\<exists>xs. sq_nodes xs s \<and> sq_error s = None \<and>
     deque_calls (sq_log s) [] = Some (sq_values (sq_heap s) xs)) \<and>
     (\<forall>t l. sq_owner s = Some (t, l) \<and> l \<noteq> WaitNothing \<longrightarrow> sq_head s \<noteq> sq_tail s)"

lemma sq_nodes_one: "sq_nodes xs s \<Longrightarrow> sq_head s = sq_tail s \<longleftrightarrow> (\<exists>t. xs = [t])"
  by (cases xs) (auto simp: sq_nodes_def)

lemma sq_push_nodes:
  assumes "sq_nodes xs s" "sq_heap s a = None"
  shows "\<exists>s'. sq_push a v s = Inr s' \<and> sq_nodes (xs @ [a]) s' \<and>
    sq_values (sq_heap s') (xs @ [a]) = sq_values (sq_heap s) xs @ [v] \<and>
    s' = s\<lparr>sq_heap := sq_heap s', sq_tail := a, sq_log := sq_log s @ [SqPush v]\<rparr> \<and> sq_head s \<noteq> a"
proof -
  obtain ys t where xs: "xs = ys @ [t]" using assms(1) by (cases xs rule: rev_cases) (auto simp: sq_nodes_def)
  have n: "sq_tail s = t" "linked (sq_heap s) (ys @ [t])" "distinct (ys @ [t])" "dom (sq_heap s) = set (ys @ [t])"
    using assms(1) xs by (auto simp: sq_nodes_def)
  have a: "a \<notin> set (ys @ [t])" using n(4) assms(2) by (metis domIff)
  obtain m where m: "sq_heap s t = Some m" using linked_last [OF n(2)] by blast
  define h where "h = (sq_heap s)(t \<mapsto> m\<lparr>ddata := Some v, dnext := Some a\<rparr>, a \<mapsto> \<lparr>ddata = None, dnext = None, dprev = Some t\<rparr>)"
  have l: "linked h (ys @ [t, a])" unfolding h_def by (rule linked_push [OF n(2,3) a m])
  have d: "dom h = set (ys @ [t, a])" using n(4) by (auto simp: h_def)
  have v: "sq_values h (xs @ [a]) = sq_values (sq_heap s) xs @ [v]"
    using a n(3) by (auto simp: sq_values_def node_value_def h_def xs butlast_append)
  have p: "sq_push a v s = Inr (s\<lparr>sq_heap := h, sq_tail := a, sq_log := sq_log s @ [SqPush v]\<rparr>)"
    by (simp add: sq_push_def deref_def n(1) m h_def)
  have "hd (ys @ [t]) \<noteq> a" "hd (ys @ [t, a]) = hd (ys @ [t])" using a by (cases ys; auto)+
  then show ?thesis
    using p l d v a n(3) assms(1) by (auto simp: sq_nodes_def xs)
qed

lemma sq_pop_nodes:
  assumes "sq_nodes xs s" "sq_head s \<noteq> sq_tail s"
  shows "\<exists>s' x y zs v. xs = x # y # zs \<and> sq_pop_head s = Inr s' \<and> sq_nodes (y # zs) s' \<and>
    sq_values (sq_heap s) xs = v # sq_values (sq_heap s') (y # zs) \<and>
    s' = s\<lparr>sq_heap := sq_heap s', sq_head := y, sq_log := sq_log s @ [SqPop (Some v)]\<rparr>"
proof -
  from assms(1) obtain x ys where "xs = x # ys" by (cases xs) (auto simp: sq_nodes_def)
  with assms obtain y zs where xs: "xs = x # y # zs" by (cases ys) (auto simp: sq_nodes_def)
  then obtain n v where n: "sq_heap s x = Some n" "dnext n = Some y" "ddata n = Some v" "sq_head s = x"
    using assms(1) by (auto simp: sq_nodes_def)
  define h where "h = (sq_heap s)(x := None)"
  have f: "z \<in> set (y # zs) \<Longrightarrow> h z = sq_heap s z" for z using assms(1) by (auto simp: h_def xs sq_nodes_def)
  have l: "linked h (y # zs)" using assms(1) linked_frame [of "y # zs" h, OF f] by (auto simp: xs sq_nodes_def)
  have vs: "sq_values h (y # zs) = sq_values (sq_heap s) (y # zs)"
    by (rule sq_values_frame) (meson f in_set_butlastD)
  have p: "sq_pop_head s = Inr (s\<lparr>sq_heap := h, sq_head := y, sq_log := sq_log s @ [SqPop (Some v)]\<rparr>)"
    by (simp add: sq_pop_head_def deref_def not_null_def n h_def)
  have "dom h = set (y # zs)" using assms(1) by (auto simp: h_def xs sq_nodes_def)
  then show ?thesis
    using xs p l vs n assms(1) by (auto simp: sq_nodes_def sq_values_def node_value_def)
qed

lemma sq_steal_nodes:
  assumes "sq_nodes xs s" "sq_head s \<noteq> sq_tail s"
  shows "\<exists>s' ys p v. xs = ys @ [p, sq_tail s] \<and> sq_steal s = Inr s' \<and> sq_nodes (ys @ [p]) s' \<and>
    sq_values (sq_heap s) xs = sq_values (sq_heap s') (ys @ [p]) @ [v] \<and>
    s' = s\<lparr>sq_heap := sq_heap s', sq_tail := p, sq_log := sq_log s @ [SqSteal (Some v)]\<rparr>"
proof -
  obtain zs t where z: "xs = zs @ [t]" using assms(1) by (cases xs rule: rev_cases) (auto simp: sq_nodes_def)
  with assms obtain ys p where xs: "xs = ys @ [p, t]"
    by (cases zs rule: rev_cases) (auto simp: sq_nodes_def)
  have n: "sq_tail s = t" "linked (sq_heap s) (ys @ [p, t])" "distinct (ys @ [p, t])" "dom (sq_heap s) = set (ys @ [p, t])"
    using assms(1) xs by (auto simp: sq_nodes_def)
  obtain m k v where m: "sq_heap s p = Some m" "ddata m = Some v" "sq_heap s t = Some k" "dprev k = Some p"
    using linked_last_two [OF n(2)] by blast
  define h where "h = ((sq_heap s)(t := None))(p \<mapsto> m\<lparr>ddata := None, dnext := None\<rparr>)"
  have l: "linked h (ys @ [p])" unfolding h_def by (rule linked_steal [OF n(2,3) m(1)])
  have d: "dom h = set (ys @ [p])" using n(3,4) by (auto simp: h_def)
  have vs: "sq_values (sq_heap s) xs = sq_values h (ys @ [p]) @ [v]"
    using n(3) m(1,2) by (auto simp: xs sq_values_def node_value_def h_def butlast_append)
  have q: "sq_steal s = Inr (s\<lparr>sq_heap := h, sq_tail := p, sq_log := sq_log s @ [SqSteal (Some v)]\<rparr>)"
    by (simp add: sq_steal_def deref_def not_null_def n(1) m h_def)
  have "hd (ys @ [p]) = hd xs" by (cases ys) (auto simp: xs)
  then show ?thesis
    using q l d vs n(1,3) xs assms(1) by (auto simp: sq_nodes_def)
qed

lemma sq_invE:
  assumes "sq_inv s"
  obtains xs where "sq_nodes xs s" "sq_error s = None" "deque_calls (sq_log s) [] = Some (sq_values (sq_heap s) xs)"
    "\<forall>t l. sq_owner s = Some (t, l) \<and> l \<noteq> WaitNothing \<longrightarrow> sq_head s \<noteq> sq_tail s"
  using assms unfolding sq_inv_def by blast

lemma sq_inv_push:
  assumes "sq_inv s" "sq_heap s a = None"
  shows "sq_inv (sq_settle (sq_push a v s) s)"
proof -
  from assms(1) obtain xs where xs: "sq_nodes xs s" "sq_error s = None" "deque_calls (sq_log s) [] = Some (sq_values (sq_heap s) xs)"
    "\<forall>t l. sq_owner s = Some (t, l) \<and> l \<noteq> WaitNothing \<longrightarrow> sq_head s \<noteq> sq_tail s"
    by (rule sq_invE) blast
  from sq_push_nodes [OF xs(1) assms(2), of v]
  obtain s' where s': "sq_push a v s = Inr s'" "sq_nodes (xs @ [a]) s'"
      "sq_values (sq_heap s') (xs @ [a]) = sq_values (sq_heap s) xs @ [v]"
      "s' = s\<lparr>sq_heap := sq_heap s', sq_tail := a, sq_log := sq_log s @ [SqPush v]\<rparr>" "sq_head s \<noteq> a"
    by blast
  have "sq_error s' = None" "sq_log s' = sq_log s @ [SqPush v]" "sq_head s' = sq_head s" "sq_tail s' = a"
    using xs(2) by (subst s'(4), simp)+
  then have "sq_inv s'"
    using s'(2,3,5) xs(3) unfolding sq_inv_def by (intro conjI exI [of _ "xs @ [a]"]) (auto simp: deque_calls_snoc)
  with s'(1) show ?thesis by (simp add: sq_settle_def)
qed

lemma sq_inv_pop:
  assumes "sq_inv s" "sq_head s \<noteq> sq_tail s" "sq_owner s = None"
  shows "sq_inv (sq_settle (sq_pop_head s) s)"
proof -
  from assms(1) obtain xs where xs: "sq_nodes xs s" "sq_error s = None" "deque_calls (sq_log s) [] = Some (sq_values (sq_heap s) xs)"
    by (rule sq_invE) blast
  from sq_pop_nodes [OF xs(1) assms(2)]
  obtain s' x y zs v where s': "sq_pop_head s = Inr s'" "sq_nodes (y # zs) s'"
      "sq_values (sq_heap s) xs = v # sq_values (sq_heap s') (y # zs)"
      "s' = s\<lparr>sq_heap := sq_heap s', sq_head := y, sq_log := sq_log s @ [SqPop (Some v)]\<rparr>"
    by blast
  have "sq_error s' = None" "sq_log s' = sq_log s @ [SqPop (Some v)]" "sq_owner s' = None"
    using xs(2) assms(3) by (subst s'(4), simp)+
  then have "sq_inv s'"
    using s'(2,3) xs(3) unfolding sq_inv_def by (intro conjI exI [of _ "y # zs"]) (auto simp: deque_calls_snoc)
  with s'(1) show ?thesis by (simp add: sq_settle_def)
qed

lemma sq_inv_steal:
  assumes "sq_inv s" "sq_head s \<noteq> sq_tail s" "sq_owner s = None"
  shows "sq_inv (sq_settle (sq_steal s) s)"
proof -
  from assms(1) obtain xs where xs: "sq_nodes xs s" "sq_error s = None" "deque_calls (sq_log s) [] = Some (sq_values (sq_heap s) xs)"
    by (rule sq_invE) blast
  from sq_steal_nodes [OF xs(1) assms(2)]
  obtain s' ys p v where s': "sq_steal s = Inr s'" "sq_nodes (ys @ [p]) s'"
      "sq_values (sq_heap s) xs = sq_values (sq_heap s') (ys @ [p]) @ [v]"
      "s' = s\<lparr>sq_heap := sq_heap s', sq_tail := p, sq_log := sq_log s @ [SqSteal (Some v)]\<rparr>"
    by blast
  have "sq_error s' = None" "sq_log s' = sq_log s @ [SqSteal (Some v)]" "sq_owner s' = None"
    using xs(2) assms(3) by (subst s'(4), simp)+
  then have "sq_inv s'"
    using s'(2,3) xs(3) unfolding sq_inv_def by (intro conjI exI [of _ "ys @ [p]"]) (auto simp: deque_calls_snoc)
  with s'(1) show ?thesis by (simp add: sq_settle_def)
qed

text \<open>What a step may change without touching the nodes.\<close>

lemma sq_inv_same:
  assumes "sq_inv s" "sq_heap s' = sq_heap s" "sq_head s' = sq_head s" "sq_tail s' = sq_tail s"
    and "sq_error s' = sq_error s" "sq_log s' = sq_log s"
    and "\<And>t l. sq_owner s' = Some (t, l) \<Longrightarrow> l \<noteq> WaitNothing \<Longrightarrow> sq_head s \<noteq> sq_tail s"
  shows "sq_inv s'"
  using assms unfolding sq_inv_def sq_nodes_def by metis

lemma sq_inv_empty_log:
  assumes "sq_inv s" "sq_head s = sq_tail s" "\<And>q. deque_op c q = (if q = [] then Some [] else None)"
  shows "sq_inv (s\<lparr>sq_log := sq_log s @ [c]\<rparr>)"
proof -
  from assms(1) obtain xs where xs: "sq_nodes xs s" "sq_error s = None" "deque_calls (sq_log s) [] = Some (sq_values (sq_heap s) xs)"
    "\<forall>t l. sq_owner s = Some (t, l) \<and> l \<noteq> WaitNothing \<longrightarrow> sq_head s \<noteq> sq_tail s"
    by (rule sq_invE) blast
  from xs(1) assms(2) have v: "sq_values (sq_heap s) xs = []"
    using sq_nodes_one [OF xs(1)] by (auto simp: sq_values_def)
  show ?thesis
    unfolding sq_inv_def
    by (intro conjI exI [of _ xs]) (use xs v assms(3) in \<open>auto simp: sq_nodes_def deque_calls_snoc\<close>)
qed

lemma sq_inv_exec: "sq_inv s \<Longrightarrow> sq_exec e s = Some s' \<Longrightarrow> sq_inv s'"
proof (cases e)
  case (SPush a v)
  assume "sq_inv s" "sq_exec e s = Some s'"
  with SPush show ?thesis by (auto split: if_splits intro: sq_inv_push)
next
  case (STryPop t)
  assume i: "sq_inv s" and st: "sq_exec e s = Some s'"
  show ?thesis
  proof (cases "sq_head s = sq_tail s")
    case True
    with STryPop st have "s' = s\<lparr>sq_log := sq_log s @ [SqPop None]\<rparr>" by (auto split: if_splits)
    with sq_inv_empty_log [OF i True, of "SqPop None"] show ?thesis by simp
  next
    case False
    with STryPop st have "s' = s\<lparr>sq_owner := Some (t, TryItem)\<rparr>" by (auto split: if_splits)
    with i False show ?thesis by (auto intro: sq_inv_same [of s])
  qed
next
  case (SWaitPop t)
  assume i: "sq_inv s" and st: "sq_exec e s = Some s'"
  with SWaitPop show ?thesis by (auto split: if_splits intro: sq_inv_same [OF i])
next
  case (STake t)
  assume i: "sq_inv s" and st: "sq_exec e s = Some s'"
  then obtain l where l: "sq_owner s = Some (t, l)" using STake by (auto split: option.splits if_splits)
  define s1 where "s1 = s\<lparr>sq_owner := None\<rparr>"
  have s1: "sq_inv s1" "sq_owner s1 = None" by (auto simp: s1_def intro: sq_inv_same [OF i])
  have ne: "l \<noteq> WaitNothing \<Longrightarrow> sq_head s1 \<noteq> sq_tail s1"
    using i l unfolding sq_inv_def by (auto simp: s1_def)
  show ?thesis
  proof (cases l)
    case TryItem
    then show ?thesis using sq_inv_pop [OF s1(1) ne s1(2)] st STake l by (simp add: s1_def [symmetric] Let_def)
  next
    case WaitItem
    then show ?thesis using sq_inv_pop [OF s1(1) ne s1(2)] s1(1) st STake l
      by (auto simp: s1_def [symmetric] Let_def split: if_splits)
  next
    case WaitNothing
    then have "s' = s1\<lparr>sq_sleep := sq_sleep s1 @ [t]\<rparr>" using st STake l by (simp add: s1_def Let_def)
    then show ?thesis by (auto intro: sq_inv_same [OF s1(1)] simp: s1(2))
  qed
next
  case SSteal
  assume i: "sq_inv s" and st: "sq_exec e s = Some s'"
  show ?thesis
  proof (cases "sq_head s = sq_tail s")
    case True
    with SSteal st have "s' = s\<lparr>sq_log := sq_log s @ [SqSteal None]\<rparr>" by (auto split: if_splits)
    with sq_inv_empty_log [OF i True, of "SqSteal None"] show ?thesis by simp
  next
    case False
    from SSteal st False have "sq_owner s = None" "s' = sq_settle (sq_steal s) s"
      by (cases "sq_owner s"; simp)+
    with sq_inv_steal [OF i False] show ?thesis by simp
  qed
next
  case (SNotify t)
  assume i: "sq_inv s" and st: "sq_exec e s = Some s'"
  with SNotify have "s' = s\<lparr>sq_sleep := remove1 t (sq_sleep s)\<rparr>" by simp
  moreover have "sq_owner s = Some (t, l) \<Longrightarrow> l \<noteq> WaitNothing \<Longrightarrow> sq_head s \<noteq> sq_tail s" for t l
    using i by (rule sq_invE) blast
  ultimately show ?thesis by (auto intro: sq_inv_same [OF i])
next
  case SExit
  assume i: "sq_inv s" and st: "sq_exec e s = Some s'"
  with SExit have "s' = s\<lparr>sq_stop := True, sq_sleep := []\<rparr>" by simp
  moreover have "sq_owner s = Some (t, l) \<Longrightarrow> l \<noteq> WaitNothing \<Longrightarrow> sq_head s \<noteq> sq_tail s" for t l
    using i by (rule sq_invE) blast
  ultimately show ?thesis by (auto intro: sq_inv_same [OF i])
qed

interpretation sq: inv_machine sq_exec sq_inv
  by unfold_locales (rule sq_inv_exec)

lemma sq_inv_init: "sq_inv (make_steal_queue a b)"
  by (auto simp: sq_inv_def sq_nodes_def make_steal_queue_def sq_values_def intro!: exI [of _ "[a]"])

section \<open>What the queue promises\<close>

text \<open>The contents, read along the \<open>next\<close> pointers; the heap has \<open>card (dom (sq_heap s))\<close> nodes.\<close>

fun sq_walk :: "nat \<Rightarrow> (nat \<Rightarrow> 'a dnode option) \<Rightarrow> nat \<Rightarrow> nat \<Rightarrow> 'a list" where
  "sq_walk 0 h x t = []"
| "sq_walk (Suc k) h x t =
     (if x = t then []
      else case h x of None \<Rightarrow> [] | Some n \<Rightarrow>
        (case dnext n of None \<Rightarrow> [] | Some y \<Rightarrow>
          (case ddata n of None \<Rightarrow> [] | Some v \<Rightarrow> v # sq_walk k h y t)))"

lemma sq_walk_values:
  "linked h xs \<Longrightarrow> distinct xs \<Longrightarrow> length xs \<le> Suc k \<Longrightarrow> sq_walk k h (hd xs) (last xs) = sq_values h xs"
proof (induction h xs arbitrary: k rule: linked.induct)
  case (3 h x y zs)
  then obtain j where "k = Suc j" by (cases k) auto
  moreover have "x \<noteq> last (y # zs)" using "3.prems"(2) by (metis distinct.simps(2) last_in_set list.distinct(1))
  ultimately show ?case using 3 by (auto simp: sq_values_def node_value_def)
qed (auto simp: sq_values_def gr0_conv_Suc split: nat.splits, (case_tac k; simp))

text \<open>
  C22. Whatever the interleaving of pushes, pops and steals, and whatever \<open>bstop\<close> starts as: no
  step follows a null or dangling pointer, although \<open>try_steal\<close> frees the tail node and reads
  \<open>prev\<close>, which a pop leaves dangling in the new head; the answers are those of a
  double-ended queue, so no element is lost or handed out twice; and the nodes in the heap
  are exactly the empty one and one for each element.
\<close>

theorem steal_queue_linearizable:
  "run sq_exec es (make_steal_queue a b) = Some s \<Longrightarrow>
   sq_error s = None \<and>
   (\<exists>q. deque_calls (sq_log s) [] = Some q \<and> sq_walk (length q) (sq_heap s) (sq_head s) (sq_tail s) = q \<and>
        card (dom (sq_heap s)) = Suc (length q))"
proof -
  assume r: "run sq_exec es (make_steal_queue a b) = Some s"
  from sq.run_inv [OF sq_inv_init r]
  obtain xs where xs: "sq_nodes xs s" "sq_error s = None" "deque_calls (sq_log s) [] = Some (sq_values (sq_heap s) xs)"
    by (rule sq_invE) blast
  have n: "sq_head s = hd xs" "sq_tail s = last xs" "distinct xs" "linked (sq_heap s) xs" "dom (sq_heap s) = set xs" "xs \<noteq> []"
    using xs(1) by (auto simp: sq_nodes_def)
  have len: "length (sq_values (sq_heap s) xs) = length xs - 1" by (simp add: sq_values_def)
  have "sq_walk (length xs - 1) (sq_heap s) (hd xs) (last xs) = sq_values (sq_heap s) xs"
    by (rule sq_walk_values [OF n(4,3)]) simp
  moreover have "card (dom (sq_heap s)) = Suc (length xs - 1)"
    using n(3,5,6) by (simp add: distinct_card)
  ultimately show ?thesis using xs(2,3) n(1,2) len by auto
qed

lemma steal_queue_linearizable_witness:
  "\<exists>s. run sq_exec [SPush 1 (10 :: nat), STryPop 0, SPush 2 20, STake 0, SPush 0 30, SSteal] (make_steal_queue 0 True) = Some s \<and>
     sq_log s = [SqPush 10, SqPush 20, SqPop (Some 10), SqPush 30, SqSteal (Some 30)] \<and> sq_error s = None"
proof -
  have "\<exists>s. run sq_exec [SPush 1 (10 :: nat), STryPop 0, SPush 2 20, STake 0, SPush 0 30, SSteal] (make_steal_queue 0 True) = Some s \<and>
     sq_log s = [SqPush 10, SqPush 20, SqPop (Some 10), SqPush 30, SqSteal (Some 30)]"
    by (simp add: make_steal_queue_def sq_push_def sq_pop_head_def sq_steal_def deref_def not_null_def sq_settle_def)
  then show ?thesis using steal_queue_linearizable by blast
qed

end
