(* ===== verification/ThreadPool.thy ===== *)
theory ThreadPool
  imports StealQueue "HOL-Library.Multiset"
begin

text \<open>
  The thread pools of \<open>src/Concurrent/day22-ThreadPool\<close> that keep their tasks in
  \<open>threadsafe_queue\<close>s: \<open>simple_thread_pool\<close>, \<open>future_thread_pool\<close>, \<open>notify_thread_pool\<close>,
  \<open>parrallen_thread_pool\<close> and \<open>steal_thread_pool\<close>. A task is a value; running it is a step. A
  queue operation is one step, which the theory of the queue justifies; the wait of
  \<open>wait_and_pop\<close> is split where its predicate has been tested and the thread not yet asleep.
\<close>

section \<open>The interface of a work queue\<close>

locale work_queue =
  fixes wf :: "'s \<Rightarrow> bool"
    and abs :: "'s \<Rightarrow> 'a list"
    and push :: "nat \<Rightarrow> 'a \<Rightarrow> 's \<Rightarrow> 's option"
    and take :: "'s \<Rightarrow> 'a option \<times> 's"
    and steal :: "'s \<Rightarrow> 'a option \<times> 's"
  assumes push_end: "wf s \<Longrightarrow> push a v s = Some t \<Longrightarrow> wf t \<and> abs t = abs s @ [v]"
    and take_none: "wf s \<Longrightarrow> abs s = [] \<Longrightarrow> take s = (r, t) \<Longrightarrow> r = None \<and> t = s"
    and take_first: "wf s \<Longrightarrow> abs s = x # xs \<Longrightarrow> take s = (r, t) \<Longrightarrow> r = Some x \<and> wf t \<and> abs t = xs"
    and steal_none: "wf s \<Longrightarrow> abs s = [] \<Longrightarrow> steal s = (r, t) \<Longrightarrow> r = None \<and> t = s"
    and steal_last: "wf s \<Longrightarrow> abs s = xs @ [x] \<Longrightarrow> steal s = (r, t) \<Longrightarrow> r = Some x \<and> wf t \<and> abs t = xs"
begin

text \<open>All the tasks in a vector of queues, and what the operations do to them.\<close>

definition tasks_in :: "'s list \<Rightarrow> 'a multiset" where
  "tasks_in qs = (\<Sum>q\<leftarrow>qs. mset (abs q))"

lemma tasks_in_update:
  "i < length qs \<Longrightarrow> tasks_in (qs[i := q]) + mset (abs (qs ! i)) = tasks_in qs + mset (abs q)"
  by (induction qs arbitrary: i) (auto simp: tasks_in_def nth_Cons ac_simps split: nat.splits)

lemma push_tasks:
  assumes "list_all wf qs" "i < length qs" "push a v (qs ! i) = Some q"
  shows "list_all wf (qs[i := q]) \<and> tasks_in (qs[i := q]) = add_mset v (tasks_in qs)"
proof -
  have "wf (qs ! i)" using assms(1,2) by (simp add: list_all_length)
  then have "wf q \<and> abs q = abs (qs ! i) @ [v]" using push_end assms(3) by blast
  with tasks_in_update [OF assms(2), of q] assms(1,2) show ?thesis
    by (auto simp: list_all_length nth_list_update)
qed

lemma take_tasks:
  assumes "list_all wf qs" "i < length qs" "take (qs ! i) = (r, q)"
  shows "list_all wf (qs[i := q]) \<and> (case r of None \<Rightarrow> abs (qs ! i) = [] \<and> tasks_in (qs[i := q]) = tasks_in qs
     | Some v \<Rightarrow> tasks_in qs = add_mset v (tasks_in (qs[i := q])))"
proof (cases "abs (qs ! i)")
  case Nil
  with take_none [OF _ Nil assms(3)] assms(1,2) show ?thesis by (simp add: list_all_length)
next
  case (Cons x xs)
  with take_first [OF _ Cons assms(3)] assms(1,2) tasks_in_update [OF assms(2), of q] show ?thesis
    by (auto simp: list_all_length nth_list_update)
qed

lemma steal_tasks:
  assumes "list_all wf qs" "i < length qs" "steal (qs ! i) = (r, q)"
  shows "list_all wf (qs[i := q]) \<and> (case r of None \<Rightarrow> abs (qs ! i) = [] \<and> tasks_in (qs[i := q]) = tasks_in qs
     | Some v \<Rightarrow> tasks_in qs = add_mset v (tasks_in (qs[i := q])))"
proof (cases "abs (qs ! i)" rule: rev_cases)
  case Nil
  with steal_none [OF _ Nil assms(3)] assms(1,2) show ?thesis by (simp add: list_all_length)
next
  case (snoc xs x)
  with steal_last [OF _ snoc assms(3)] assms(1,2) tasks_in_update [OF assms(2), of q] show ?thesis
    by (auto simp: list_all_length nth_list_update)
qed

end

text \<open>The operations of \<open>threadsafe_queue\<close> as the pools call them.\<close>

definition wq_push :: "nat \<Rightarrow> 'a \<Rightarrow> 'a steal_queue \<Rightarrow> 'a steal_queue option" where
  "wq_push a v s = sq_exec (SPush a v) s"

definition wq_try_pop :: "'a steal_queue \<Rightarrow> 'a option \<times> 'a steal_queue" where
  "wq_try_pop s =
     (if sq_head s = sq_tail s then (None, s)
      else case sq_pop_head s of Inl e \<Rightarrow> (None, s\<lparr>sq_error := Some e\<rparr>)
        | Inr s' \<Rightarrow> (case last (sq_log s') of SqPop r \<Rightarrow> (r, s') | _ \<Rightarrow> (None, s')))"

definition wq_try_steal :: "'a steal_queue \<Rightarrow> 'a option \<times> 'a steal_queue" where
  "wq_try_steal s =
     (if sq_head s = sq_tail s then (None, s)
      else case sq_steal s of Inl e \<Rightarrow> (None, s\<lparr>sq_error := Some e\<rparr>)
        | Inr s' \<Rightarrow> (case last (sq_log s') of SqSteal r \<Rightarrow> (r, s') | _ \<Rightarrow> (None, s')))"

definition wq_wf :: "'a steal_queue \<Rightarrow> bool" where
  "wq_wf s \<longleftrightarrow> sq_error s = None \<and> (\<exists>xs. sq_nodes xs s)"

definition wq_list :: "'a steal_queue \<Rightarrow> 'a list" where
  "wq_list s = sq_walk (card (dom (sq_heap s))) (sq_heap s) (sq_head s) (sq_tail s)"

lemma wq_list_values: "sq_nodes xs s \<Longrightarrow> wq_list s = sq_values (sq_heap s) xs"
  unfolding wq_list_def sq_nodes_def
  using sq_walk_values [of "sq_heap s" xs "card (set xs)"] by (simp add: distinct_card)

lemma wq_list_Nil: "sq_nodes xs s \<Longrightarrow> wq_list s = [] \<longleftrightarrow> sq_head s = sq_tail s"
proof -
  assume n: "sq_nodes xs s"
  then have "wq_list s = [] \<longleftrightarrow> length xs = 1"
    using wq_list_values [OF n] by (cases xs) (auto simp: sq_nodes_def sq_values_def)
  then show ?thesis using sq_nodes_one [OF n] by (auto simp: length_Suc_conv)
qed

lemma wq_push_ok:
  assumes "wq_wf s" "wq_push a v s = Some t"
  shows "wq_wf t \<and> wq_list t = wq_list s @ [v]"
proof -
  obtain xs where xs: "sq_nodes xs s" using assms(1) by (auto simp: wq_wf_def)
  have a: "sq_heap s a = None" and t: "t = sq_settle (sq_push a v s) s"
    using assms(2) by (auto simp: wq_push_def split: if_splits)
  from sq_push_nodes [OF xs a, of v] obtain s' where s': "sq_push a v s = Inr s'" "sq_nodes (xs @ [a]) s'"
    "sq_values (sq_heap s') (xs @ [a]) = sq_values (sq_heap s) xs @ [v]"
    "s' = s\<lparr>sq_heap := sq_heap s', sq_tail := a, sq_log := sq_log s @ [SqPush v]\<rparr>" by blast
  have "sq_error s' = None" using assms(1) by (subst s'(4)) (simp add: wq_wf_def)
  moreover from s'(1) t have "t = s'" by (simp add: sq_settle_def)
  ultimately show ?thesis using s' wq_list_values [OF s'(2)] wq_list_values [OF xs] by (auto simp: wq_wf_def)
qed

lemma wq_pop_ok:
  assumes "wq_wf s" "sq_head s \<noteq> sq_tail s"
  shows "\<exists>v s'. wq_try_pop s = (Some v, s') \<and> wq_wf s' \<and> wq_list s = v # wq_list s'"
proof -
  obtain xs where xs: "sq_nodes xs s" using assms(1) by (auto simp: wq_wf_def)
  from sq_pop_nodes [OF xs assms(2)] obtain s' x y zs v where s': "sq_pop_head s = Inr s'" "sq_nodes (y # zs) s'"
    "sq_values (sq_heap s) xs = v # sq_values (sq_heap s') (y # zs)"
    "s' = s\<lparr>sq_heap := sq_heap s', sq_head := y, sq_log := sq_log s @ [SqPop (Some v)]\<rparr>" by blast
  have "sq_log s' = sq_log s @ [SqPop (Some v)]" "sq_error s' = None"
    using assms(1) by (subst s'(4), simp add: wq_wf_def)+
  with s' assms(2) wq_list_values [OF s'(2)] wq_list_values [OF xs] show ?thesis
    by (auto simp: wq_try_pop_def wq_wf_def)
qed

lemma wq_steal_ok:
  assumes "wq_wf s" "sq_head s \<noteq> sq_tail s"
  shows "\<exists>v s'. wq_try_steal s = (Some v, s') \<and> wq_wf s' \<and> wq_list s = wq_list s' @ [v]"
proof -
  obtain xs where xs: "sq_nodes xs s" using assms(1) by (auto simp: wq_wf_def)
  from sq_steal_nodes [OF xs assms(2)] obtain s' ys p v where s': "sq_steal s = Inr s'" "sq_nodes (ys @ [p]) s'"
    "sq_values (sq_heap s) xs = sq_values (sq_heap s') (ys @ [p]) @ [v]"
    "s' = s\<lparr>sq_heap := sq_heap s', sq_tail := p, sq_log := sq_log s @ [SqSteal (Some v)]\<rparr>" by blast
  have "sq_log s' = sq_log s @ [SqSteal (Some v)]" "sq_error s' = None"
    using assms(1) by (subst s'(4), simp add: wq_wf_def)+
  with s' assms(2) wq_list_values [OF s'(2)] wq_list_values [OF xs] show ?thesis
    by (auto simp: wq_try_steal_def wq_wf_def)
qed

interpretation wq: work_queue wq_wf wq_list wq_push wq_try_pop wq_try_steal
proof
  fix s t :: "'a steal_queue" and a v x xs r
  assume w: "wq_wf s"
  then have e: "wq_list s = [] \<longleftrightarrow> sq_head s = sq_tail s"
    using wq_list_Nil by (auto simp: wq_wf_def)
  show "wq_push a v s = Some t \<Longrightarrow> wq_wf t \<and> wq_list t = wq_list s @ [v]"
    using wq_push_ok [OF w] by blast
  show "wq_list s = [] \<Longrightarrow> wq_try_pop s = (r, t) \<Longrightarrow> r = None \<and> t = s"
    using e by (simp add: wq_try_pop_def)
  show "wq_list s = [] \<Longrightarrow> wq_try_steal s = (r, t) \<Longrightarrow> r = None \<and> t = s"
    using e by (simp add: wq_try_steal_def)
  show "wq_list s = x # xs \<Longrightarrow> wq_try_pop s = (r, t) \<Longrightarrow> r = Some x \<and> wq_wf t \<and> wq_list t = xs"
    using wq_pop_ok [OF w] e by auto
  show "wq_list s = xs @ [x] \<Longrightarrow> wq_try_steal s = (r, t) \<Longrightarrow> r = Some x \<and> wq_wf t \<and> wq_list t = xs"
    using wq_steal_ok [OF w] e by auto
qed

section \<open>Workers\<close>

datatype 'a worker =
    WLoop            \<comment> \<open>about to test \<open>done\<close>\<close>
  | WOwn             \<comment> \<open>about to call the pop of its queue\<close>
  | WScan nat        \<comment> \<open>about to look at queue \<open>i\<close> for something to steal\<close>
  | WDoze            \<comment> \<open>in \<open>wait_and_pop\<close>, predicate false, not yet asleep\<close>
  | WAsleep
  | WRun 'a
  | WExit

record 'a thread_pool =
  pool_done :: bool
  pool_queues :: "'a steal_queue list"
  pool_workers :: "'a worker list"
  pool_index :: nat                      \<comment> \<open>\<open>atm_index\<close>\<close>
  pool_clients :: "nat \<Rightarrow> nat option"   \<comment> \<open>the \<open>index\<close> of a thread inside \<open>submit\<close>\<close>
  pool_submitted :: "'a list"
  pool_ran :: "'a list"

definition set_worker :: "nat \<Rightarrow> 'a worker \<Rightarrow> 'a thread_pool \<Rightarrow> 'a thread_pool" where
  "set_worker w p s = s\<lparr>pool_workers := (pool_workers s)[w := p]\<rparr>"

definition set_queue :: "nat \<Rightarrow> 'a steal_queue \<Rightarrow> 'a thread_pool \<Rightarrow> 'a thread_pool" where
  "set_queue i q s = s\<lparr>pool_queues := (pool_queues s)[i := q]\<rparr>"

text \<open>The head of the loop, and the end of a task.\<close>

definition loop_head :: "nat \<Rightarrow> 'a thread_pool \<Rightarrow> 'a thread_pool" where
  "loop_head w s = set_worker w (if pool_done s then WExit else WOwn) s"

definition run_task :: "nat \<Rightarrow> 'a \<Rightarrow> 'a thread_pool \<Rightarrow> 'a thread_pool" where
  "run_task w v s = set_worker w WLoop (s\<lparr>pool_ran := pool_ran s @ [v]\<rparr>)"

text \<open>
  \<open>worker_thread\<close> of \<open>simple_thread_pool\<close> and \<open>future_thread_pool\<close>: \<open>try_pop\<close>, or \<open>yield\<close>.
\<close>

fun simple_worker :: "nat \<Rightarrow> 'a worker \<Rightarrow> 'a thread_pool \<Rightarrow> 'a thread_pool option" where
  "simple_worker w WLoop s = Some (loop_head w s)"
| "simple_worker w WOwn s =
     (case wq_try_pop (pool_queues s ! 0) of
        (None, q) \<Rightarrow> Some (set_worker w WLoop (set_queue 0 q s))
      | (Some v, q) \<Rightarrow> Some (set_worker w (WRun v) (set_queue 0 q s)))"
| "simple_worker w (WRun v) s = Some (run_task w v s)"
| "simple_worker w _ s = None"

text \<open>
  \<open>worker_thread\<close> of \<open>notify_thread_pool\<close> (\<open>i\<close> is 0) and \<open>parrallen_thread_pool\<close> (\<open>i\<close> is the
  worker's own queue): \<open>wait_and_pop\<close>, which returns \<open>nullptr\<close> once the queue is stopped.
\<close>

fun waiting_worker :: "nat \<Rightarrow> nat \<Rightarrow> 'a worker \<Rightarrow> 'a thread_pool \<Rightarrow> 'a thread_pool option" where
  "waiting_worker i w WLoop s = Some (loop_head w s)"
| "waiting_worker i w WOwn s =
     (let q = pool_queues s ! i in
      if sq_stop q then Some (set_worker w WLoop s)
      else (case wq_try_pop q of
          (None, q') \<Rightarrow> Some (set_worker w WDoze (set_queue i q' s))
        | (Some v, q') \<Rightarrow> Some (set_worker w (WRun v) (set_queue i q' s))))"
| "waiting_worker i w WDoze s = Some (set_worker w WAsleep s)"
| "waiting_worker i w (WRun v) s = Some (run_task w v s)"
| "waiting_worker i w _ s = None"

text \<open>
  \<open>worker_thread\<close> of \<open>steal_thread_pool\<close>: its own queue first, then the others in turn.
\<close>

fun steal_worker :: "nat \<Rightarrow> 'a worker \<Rightarrow> 'a thread_pool \<Rightarrow> 'a thread_pool option" where
  "steal_worker w WLoop s = Some (loop_head w s)"
| "steal_worker w WOwn s =
     (case wq_try_pop (pool_queues s ! w) of
        (None, q) \<Rightarrow> Some (set_worker w (WScan 0) (set_queue w q s))
      | (Some v, q) \<Rightarrow> Some (set_worker w (WRun v) (set_queue w q s)))"
| "steal_worker w (WScan i) s =
     (if i \<ge> length (pool_queues s) then Some (set_worker w WLoop s)
      else if i = w then Some (set_worker w (WScan (i + 1)) s)
      else (case wq_try_steal (pool_queues s ! i) of
          (None, q) \<Rightarrow> Some (set_worker w (WScan (i + 1)) (set_queue i q s))
        | (Some v, q) \<Rightarrow> Some (set_worker w (WRun v) (set_queue i q s))))"
| "steal_worker w (WRun v) s = Some (run_task w v s)"
| "steal_worker w _ s = None"

datatype pool_kind = SimplePool | NotifyPool | ParallelPool | StealPool

definition worker_step :: "pool_kind \<Rightarrow> nat \<Rightarrow> 'a thread_pool \<Rightarrow> 'a thread_pool option" where
  "worker_step k w s =
     (if w \<ge> length (pool_workers s) then None
      else case k of
          SimplePool \<Rightarrow> simple_worker w (pool_workers s ! w) s
        | NotifyPool \<Rightarrow> waiting_worker 0 w (pool_workers s ! w) s
        | ParallelPool \<Rightarrow> waiting_worker w w (pool_workers s ! w) s
        | StealPool \<Rightarrow> steal_worker w (pool_workers s ! w) s)"

section \<open>Submitting and stopping\<close>

text \<open>
  \<open>submit\<close> of the pools with one queue, and of the pools with a queue per worker: the load of
  \<open>atm_index\<close> with the computation of the next index, the store, and the push are three steps,
  between which other threads may submit. With no queue the remainder is undefined, and no step.
\<close>

definition submit_one :: "nat \<Rightarrow> 'a \<Rightarrow> 'a thread_pool \<Rightarrow> 'a thread_pool option" where
  "submit_one a v s =
     (case wq_push a v (pool_queues s ! 0) of
        None \<Rightarrow> None
      | Some q \<Rightarrow> Some ((set_queue 0 q s)\<lparr>pool_submitted := pool_submitted s @ [v]\<rparr>))"

definition submit_load :: "nat \<Rightarrow> 'a thread_pool \<Rightarrow> 'a thread_pool option" where
  "submit_load c s =
     (if pool_queues s = [] then None
      else Some (s\<lparr>pool_clients := (pool_clients s)(c := Some ((pool_index s + 1) mod length (pool_queues s)))\<rparr>))"

definition submit_store :: "nat \<Rightarrow> 'a thread_pool \<Rightarrow> 'a thread_pool option" where
  "submit_store c s =
     (case pool_clients s c of None \<Rightarrow> None | Some i \<Rightarrow> Some (s\<lparr>pool_index := i\<rparr>))"

definition submit_push :: "nat \<Rightarrow> nat \<Rightarrow> 'a \<Rightarrow> 'a thread_pool \<Rightarrow> 'a thread_pool option" where
  "submit_push c a v s =
     (case pool_clients s c of
        None \<Rightarrow> None
      | Some i \<Rightarrow> (case wq_push a v (pool_queues s ! i) of
          None \<Rightarrow> None
        | Some q \<Rightarrow> Some ((set_queue i q s)\<lparr>pool_clients := (pool_clients s)(c := None),
                       pool_submitted := pool_submitted s @ [v]\<rparr>)))"

text \<open>
  The destructor: \<open>done = true\<close>, then \<open>Exit\<close> of each queue, which stops it and wakes the workers
  asleep on it (all of them when there is one queue); then the joins, which wait for \<open>WExit\<close>.
\<close>

definition pool_set_done :: "'a thread_pool \<Rightarrow> 'a thread_pool" where
  "pool_set_done s = s\<lparr>pool_done := True\<rparr>"

definition sleeps_on :: "pool_kind \<Rightarrow> nat \<Rightarrow> nat \<Rightarrow> bool" where
  "sleeps_on k i w \<longleftrightarrow> (if k = ParallelPool then i = w else i = 0)"

definition pool_exit :: "pool_kind \<Rightarrow> nat \<Rightarrow> 'a thread_pool \<Rightarrow> 'a thread_pool option" where
  "pool_exit k i s =
     (if i \<ge> length (pool_queues s) then None
      else Some (s\<lparr>pool_queues := (pool_queues s)[i := (pool_queues s ! i)\<lparr>sq_stop := True\<rparr>],
             pool_workers := map (\<lambda>w. if pool_workers s ! w = WAsleep \<and> sleeps_on k i w then WOwn else pool_workers s ! w)
               [0..<length (pool_workers s)]\<rparr>))"

text \<open>A notification, or a spurious wake-up, of worker \<open>w\<close>.\<close>

definition pool_wake :: "nat \<Rightarrow> 'a thread_pool \<Rightarrow> 'a thread_pool option" where
  "pool_wake w s =
     (if w < length (pool_workers s) \<and> pool_workers s ! w = WAsleep then Some (set_worker w WOwn s) else None)"

datatype 'a pool_event =
    PWork nat | PSubmit nat 'a | PLoad nat | PStore nat | PPush nat nat 'a
  | PWake nat | PDone | PExit nat

definition one_queue :: "pool_kind \<Rightarrow> bool" where
  "one_queue k \<longleftrightarrow> k = SimplePool \<or> k = NotifyPool"

fun pool_exec :: "pool_kind \<Rightarrow> 'a pool_event \<Rightarrow> 'a thread_pool \<Rightarrow> 'a thread_pool option" where
  "pool_exec k (PWork w) s = worker_step k w s"
| "pool_exec k (PSubmit a v) s = (if one_queue k then submit_one a v s else None)"
| "pool_exec k (PLoad c) s = (if one_queue k then None else submit_load c s)"
| "pool_exec k (PStore c) s = submit_store c s"
| "pool_exec k (PPush c a v) s = submit_push c a v s"
| "pool_exec k (PWake w) s = pool_wake w s"
| "pool_exec k PDone s = Some (pool_set_done s)"
| "pool_exec k (PExit i) s = (if k = SimplePool then None else pool_exit k i s)"

text \<open>
  The constructors, for \<open>n\<close> hardware threads. The queues' stop flags are taken as false, which
  their constructor does not ensure.
\<close>

definition make_thread_pool :: "pool_kind \<Rightarrow> nat \<Rightarrow> 'a thread_pool" where
  "make_thread_pool k n =
     \<lparr>pool_done = False, pool_queues = replicate (if one_queue k then 1 else n) (make_steal_queue 0 False),
      pool_workers = replicate n WLoop, pool_index = 0, pool_clients = \<lambda>c. None,
      pool_submitted = [], pool_ran = []\<rparr>"

section \<open>Every task runs at most once, and none is lost\<close>

fun task_of :: "'a worker \<Rightarrow> 'a multiset" where
  "task_of (WRun v) = {#v#}"
| "task_of _ = {#}"

definition running :: "'a worker list \<Rightarrow> 'a multiset" where
  "running ws = (\<Sum>p\<leftarrow>ws. task_of p)"

lemma running_update: "w < length ws \<Longrightarrow> running (ws[w := p]) + task_of (ws ! w) = running ws + task_of p"
  by (induction ws arbitrary: w) (auto simp: running_def nth_Cons ac_simps split: nat.splits)

definition queue_count :: "pool_kind \<Rightarrow> nat \<Rightarrow> nat" where
  "queue_count k n = (if one_queue k then 1 else n)"

definition pool_inv :: "pool_kind \<Rightarrow> nat \<Rightarrow> 'a thread_pool \<Rightarrow> bool" where
  "pool_inv k n s \<longleftrightarrow>
     length (pool_queues s) = queue_count k n \<and> length (pool_workers s) = n \<and>
     list_all wq_wf (pool_queues s) \<and>
     (\<forall>c i. pool_clients s c = Some i \<longrightarrow> i < queue_count k n) \<and>
     (pool_index s < queue_count k n \<or> pool_index s = 0) \<and>
     mset (pool_submitted s) = wq.tasks_in (pool_queues s) + running (pool_workers s) + mset (pool_ran s)"

lemmas pool_defs = set_worker_def set_queue_def loop_head_def run_task_def pool_set_done_def

text \<open>The three kinds of step of a worker.\<close>

lemma pool_inv_move:
  assumes "pool_inv k n s" "w < n" "task_of p = task_of (pool_workers s ! w)"
  shows "pool_inv k n (set_worker w p s)"
  using assms running_update [of w "pool_workers s" p] by (simp add: pool_inv_def pool_defs)

lemma pool_inv_run:
  assumes "pool_inv k n s" "w < n" "pool_workers s ! w = WRun v"
  shows "pool_inv k n (run_task w v s)"
  using assms running_update [of w "pool_workers s" WLoop] by (simp add: pool_inv_def pool_defs)

lemma pool_inv_queue:
  assumes i: "pool_inv k n s" and w: "w < n" "task_of (pool_workers s ! w) = {#}"
    and q: "list_all wq_wf ((pool_queues s)[i := q])"
      "wq.tasks_in (pool_queues s) = task_of p + wq.tasks_in ((pool_queues s)[i := q])"
  shows "pool_inv k n (set_worker w p (set_queue i q s))"
  using assms running_update [of w "pool_workers s" p] by (simp add: pool_inv_def pool_defs)

lemma pool_inv_pop:
  assumes i: "pool_inv k n s" and w: "w < n" "task_of (pool_workers s ! w) = {#}" "j < queue_count k n"
    and r: "wq_try_pop (pool_queues s ! j) = (r, q) \<or> wq_try_steal (pool_queues s ! j) = (r, q)"
    and p: "task_of p = (case r of None \<Rightarrow> {#} | Some v \<Rightarrow> {#v#})"
  shows "pool_inv k n (set_worker w p (set_queue j q s))"
proof -
  have l: "list_all wq_wf (pool_queues s)" "j < length (pool_queues s)" using i w(3) by (auto simp: pool_inv_def)
  have "list_all wq_wf ((pool_queues s)[j := q]) \<and>
     wq.tasks_in (pool_queues s) = task_of p + wq.tasks_in ((pool_queues s)[j := q])"
    using r wq.take_tasks [OF l, of r q] wq.steal_tasks [OF l, of r q] p by (cases r) auto
  with pool_inv_queue [OF i w(1,2)] show ?thesis by blast
qed

lemma simple_worker_inv:
  assumes i: "pool_inv k n s" "w < n" "0 < queue_count k n" "simple_worker w (pool_workers s ! w) s = Some t"
  shows "pool_inv k n t"
proof (cases "pool_workers s ! w")
  case WLoop
  then show ?thesis using i pool_inv_move [OF i(1,2)] by (auto simp: loop_head_def)
next
  case WOwn
  obtain r q where r: "wq_try_pop (pool_queues s ! 0) = (r, q)" by fastforce
  show ?thesis using i(4) WOwn r pool_inv_pop [OF i(1,2) _ i(3) disjI1 [OF r]] by (cases r) auto
next
  case (WRun v)
  then show ?thesis using i pool_inv_run [OF i(1,2) WRun] by simp
qed (use i in auto)

lemma waiting_worker_inv:
  assumes i: "pool_inv k n s" "w < n" "j < queue_count k n" "waiting_worker j w (pool_workers s ! w) s = Some t"
  shows "pool_inv k n t"
proof (cases "pool_workers s ! w")
  case WLoop
  then show ?thesis using i pool_inv_move [OF i(1,2)] by (auto simp: loop_head_def)
next
  case WOwn
  obtain r q where r: "wq_try_pop (pool_queues s ! j) = (r, q)" by fastforce
  show ?thesis using i(4) WOwn r pool_inv_pop [OF i(1,2) _ i(3) disjI1 [OF r]] pool_inv_move [OF i(1,2), of WLoop]
    by (cases r) (auto simp: Let_def split: if_splits)
next
  case WDoze
  then show ?thesis using i pool_inv_move [OF i(1,2)] by auto
next
  case (WRun v)
  then show ?thesis using i pool_inv_run [OF i(1,2) WRun] by simp
qed (use i in auto)

lemma steal_worker_inv:
  assumes i: "pool_inv k n s" "w < n" "n = queue_count k n" "steal_worker w (pool_workers s ! w) s = Some t"
  shows "pool_inv k n t"
proof (cases "pool_workers s ! w")
  case WLoop
  then show ?thesis using i pool_inv_move [OF i(1,2)] by (auto simp: loop_head_def)
next
  case WOwn
  obtain r q where r: "wq_try_pop (pool_queues s ! w) = (r, q)" by fastforce
  have "w < queue_count k n" using i(2,3) by simp
  with WOwn r pool_inv_pop [OF i(1,2) _ _ disjI1 [OF r]] show ?thesis using i(4) by (cases r) auto
next
  case (WScan j)
  have len: "length (pool_queues s) = n" using i(1,3) by (simp add: pool_inv_def)
  show ?thesis
  proof (cases "j < n \<and> j \<noteq> w")
    case True
    obtain r q where r: "wq_try_steal (pool_queues s ! j) = (r, q)" by fastforce
    have "j < queue_count k n" using True i(3) by simp
    with WScan r pool_inv_pop [OF i(1,2) _ _ disjI2 [OF r]] True len show ?thesis using i(4) by (cases r) auto
  next
    case False
    then show ?thesis using i(4) WScan len pool_inv_move [OF i(1,2)] by (auto split: if_splits)
  qed
next
  case (WRun v)
  then show ?thesis using i pool_inv_run [OF i(1,2) WRun] by simp
qed (use i in auto)

lemma worker_step_inv: "pool_inv k n s \<Longrightarrow> worker_step k w s = Some t \<Longrightarrow> pool_inv k n t"
proof -
  assume i: "pool_inv k n s" and st: "worker_step k w s = Some t"
  have w: "w < n" using i st by (auto simp: worker_step_def pool_inv_def split: if_splits)
  show ?thesis
  proof (cases k)
    case SimplePool
    then show ?thesis using simple_worker_inv [OF i w] st by (auto simp: worker_step_def queue_count_def one_queue_def split: if_splits)
  next
    case NotifyPool
    then show ?thesis using waiting_worker_inv [OF i w, of 0] st by (auto simp: worker_step_def queue_count_def one_queue_def split: if_splits)
  next
    case ParallelPool
    then show ?thesis using waiting_worker_inv [OF i w, of w] st w by (auto simp: worker_step_def queue_count_def one_queue_def split: if_splits)
  next
    case StealPool
    then show ?thesis using steal_worker_inv [OF i w] st by (auto simp: worker_step_def queue_count_def one_queue_def split: if_splits)
  qed
qed

lemma submit_inv:
  assumes i: "pool_inv k n s" and j: "j < queue_count k n" and q: "wq_push a v (pool_queues s ! j) = Some q"
  shows "pool_inv k n ((set_queue j q s)\<lparr>pool_submitted := pool_submitted s @ [v]\<rparr>)"
    and "pool_inv k n ((set_queue j q s)\<lparr>pool_clients := (pool_clients s)(c := None), pool_submitted := pool_submitted s @ [v]\<rparr>)"
proof -
  have l: "list_all wq_wf (pool_queues s)" "j < length (pool_queues s)" using i j by (auto simp: pool_inv_def)
  note p = wq.push_tasks [OF l q]
  show "pool_inv k n ((set_queue j q s)\<lparr>pool_submitted := pool_submitted s @ [v]\<rparr>)"
    using i p by (simp add: pool_inv_def pool_defs)
  show "pool_inv k n ((set_queue j q s)\<lparr>pool_clients := (pool_clients s)(c := None), pool_submitted := pool_submitted s @ [v]\<rparr>)"
    using i p by (simp add: pool_inv_def pool_defs)
qed

lemma wq_stop_same: "wq_wf (q\<lparr>sq_stop := b\<rparr>) = wq_wf q" "wq_list (q\<lparr>sq_stop := b\<rparr>) = wq_list q"
  by (simp_all add: wq_wf_def wq_list_def sq_nodes_def)

lemma pool_exit_inv: "pool_inv k n s \<Longrightarrow> pool_exit k i s = Some t \<Longrightarrow> pool_inv k n t"
proof -
  assume i: "pool_inv k n s" and t: "pool_exit k i s = Some t"
  then have li: "i < length (pool_queues s)" by (auto simp: pool_exit_def split: if_splits)
  define q where "q = (pool_queues s ! i)\<lparr>sq_stop := True\<rparr>"
  define ws where "ws = map (\<lambda>w. if pool_workers s ! w = WAsleep \<and> sleeps_on k i w then WOwn else pool_workers s ! w) [0..<length (pool_workers s)]"
  have t': "t = s\<lparr>pool_queues := (pool_queues s)[i := q], pool_workers := ws\<rparr>"
    using t li by (simp add: pool_exit_def q_def ws_def)
  have "list_all wq_wf ((pool_queues s)[i := q])"
    using i li unfolding pool_inv_def list_all_length by (metis length_list_update nth_list_update q_def wq_stop_same(1))
  moreover have "wq.tasks_in ((pool_queues s)[i := q]) = wq.tasks_in (pool_queues s)"
    using wq.tasks_in_update [OF li, of q] by (simp add: q_def wq_stop_same)
  moreover have "map task_of ws = map task_of (pool_workers s)"
    by (rule nth_equalityI) (auto simp: ws_def)
  ultimately show ?thesis using i by (simp add: pool_inv_def t' running_def) (simp add: ws_def)
qed

lemma pool_inv_exec: "pool_inv k n s \<Longrightarrow> pool_exec k e s = Some t \<Longrightarrow> pool_inv k n t"
proof (cases e)
  case (PWork w)
  assume "pool_inv k n s" "pool_exec k e s = Some t"
  with PWork show ?thesis using worker_step_inv by auto
next
  case (PSubmit a v)
  assume i: "pool_inv k n s" and st: "pool_exec k e s = Some t"
  then have "0 < queue_count k n" using PSubmit by (simp add: queue_count_def split: if_splits)
  with PSubmit st submit_inv(1) [OF i this] show ?thesis by (auto simp: submit_one_def split: option.splits if_splits)
next
  case (PLoad c)
  assume i: "pool_inv k n s" and st: "pool_exec k e s = Some t"
  define j where "j = (pool_index s + 1) mod length (pool_queues s)"
  from PLoad st have t: "t = s\<lparr>pool_clients := (pool_clients s)(c := Some j)\<rparr>" "pool_queues s \<noteq> []"
    by (auto simp: submit_load_def j_def split: if_splits)
  have "j < length (pool_queues s)" using t(2) by (simp add: j_def)
  then show ?thesis using i by (auto simp: t(1) pool_inv_def)
next
  case (PStore c)
  assume i: "pool_inv k n s" and st: "pool_exec k e s = Some t"
  with PStore show ?thesis by (auto simp: submit_store_def pool_inv_def split: option.splits)
next
  case (PPush c a v)
  assume i: "pool_inv k n s" and st: "pool_exec k e s = Some t"
  then obtain j q where j: "pool_clients s c = Some j" "wq_push a v (pool_queues s ! j) = Some q"
      "t = (set_queue j q s)\<lparr>pool_clients := (pool_clients s)(c := None), pool_submitted := pool_submitted s @ [v]\<rparr>"
    using PPush by (auto simp: submit_push_def split: option.splits)
  then have "j < queue_count k n" using i by (simp add: pool_inv_def)
  with submit_inv(2) [OF i this j(2), of c] j(3) show ?thesis by simp
next
  case (PWake w)
  assume i: "pool_inv k n s" and st: "pool_exec k e s = Some t"
  with PWake pool_inv_move [OF i, of w WOwn] show ?thesis by (auto simp: pool_wake_def pool_inv_def split: if_splits)
next
  case PDone
  assume i: "pool_inv k n s" and st: "pool_exec k e s = Some t"
  with PDone show ?thesis by (auto simp: pool_set_done_def pool_inv_def)
next
  case (PExit i)
  assume "pool_inv k n s" "pool_exec k e s = Some t"
  with PExit show ?thesis by (auto split: if_splits intro: pool_exit_inv)
qed

interpretation pool: inv_machine "pool_exec k" "pool_inv k n"
  by unfold_locales (rule pool_inv_exec)

lemma wq_init: "wq_wf (make_steal_queue a b)" "wq_list (make_steal_queue a b) = []"
proof -
  have n: "sq_nodes [a] (make_steal_queue a b)" by (simp add: sq_nodes_def make_steal_queue_def)
  then show "wq_wf (make_steal_queue a b)" by (auto simp: wq_wf_def make_steal_queue_def)
  show "wq_list (make_steal_queue a b) = []" using wq_list_values [OF n] by (simp add: sq_values_def)
qed

lemma pool_inv_init: "pool_inv k n (make_thread_pool k n)"
proof -
  have z: "sum_list (replicate m {#}) = ({#} :: 'a multiset)" for m
    by (induction m) auto
  show ?thesis
    by (auto simp: pool_inv_def make_thread_pool_def queue_count_def wq.tasks_in_def running_def wq_init list_all_length z)
qed

text \<open>
  C20. In every pool, under every interleaving of workers, submitters and the destructor: each
  submitted task is exactly once in a queue, or being run, or has been run, so no task is run
  twice and none disappears; no queue is accessed out of its nodes; and the index of the next
  queue stays in range even when several threads submit at once.
\<close>

theorem pool_tasks_once:
  "run (pool_exec k) es (make_thread_pool k n) = Some s \<Longrightarrow>
   mset (pool_submitted s) =
     (\<Sum>q\<leftarrow>pool_queues s. mset (wq_list q)) + (\<Sum>p\<leftarrow>pool_workers s. task_of p) + mset (pool_ran s) \<and>
   (\<forall>q\<in>set (pool_queues s). sq_error q = None) \<and>
   (pool_index s = 0 \<or> pool_index s < length (pool_queues s)) \<and>
   (\<forall>c i. pool_clients s c = Some i \<longrightarrow> i < length (pool_queues s))"
  using pool.run_inv [OF pool_inv_init, of k es n s]
  by (auto simp: pool_inv_def wq.tasks_in_def running_def list_all_iff wq_wf_def)

lemma pool_tasks_once_witness:
  "\<exists>s. run (pool_exec StealPool) [PLoad 7, PStore 7, PPush 7 1 (42 :: nat), PWork 0, PWork 0, PWork 0, PWork 0, PWork 0]
       (make_thread_pool StealPool 2) = Some s \<and> pool_ran s = [42] \<and>
     mset [42] = (\<Sum>q\<leftarrow>pool_queues s. mset (wq_list q)) + (\<Sum>p\<leftarrow>pool_workers s. task_of p) + mset (pool_ran s)"
proof -
  have "map_option (\<lambda>s. (pool_ran s, pool_submitted s)) (run (pool_exec StealPool)
       [PLoad 7, PStore 7, PPush 7 1 (42 :: nat), PWork 0, PWork 0, PWork 0, PWork 0, PWork 0] (make_thread_pool StealPool 2)) = Some ([42], [42])"
    by code_simp
  then have "\<exists>s. run (pool_exec StealPool) [PLoad 7, PStore 7, PPush 7 1 (42 :: nat), PWork 0, PWork 0, PWork 0, PWork 0, PWork 0]
       (make_thread_pool StealPool 2) = Some s \<and> pool_ran s = [42] \<and> pool_submitted s = [42]"
    by auto
  then show ?thesis using pool_tasks_once by metis
qed

section \<open>Stealing finds work\<close>

lemma scan_finds:
  assumes "pool_inv StealPool n s" "w < n" "pool_workers s ! w = WScan j" "j \<le> i" "i < n" "i \<noteq> w"
    and "wq_list (pool_queues s ! i) \<noteq> []"
  shows "\<exists>m s' v. m \<le> Suc (i - j) \<and> run (pool_exec StealPool) (replicate m (PWork w)) s = Some s' \<and> pool_workers s' ! w = WRun v"
  using assms
proof (induction "i - j" arbitrary: j s)
  case (0 j s)
  have q: "length (pool_queues s) = n" "length (pool_workers s) = n" "wq_wf (pool_queues s ! i)"
    using 0 by (auto simp: pool_inv_def queue_count_def one_queue_def list_all_length)
  obtain xs x where x: "wq_list (pool_queues s ! i) = xs @ [x]" using 0 by (cases "wq_list (pool_queues s ! i)" rule: rev_cases) auto
  obtain r t where r: "wq_try_steal (pool_queues s ! i) = (r, t)" by fastforce
  have "r = Some x" using wq.steal_last [OF q(3) x r] by simp
  with r q 0 have "run (pool_exec StealPool) (replicate 1 (PWork w)) s = Some (set_worker w (WRun x) (set_queue i t s))"
    by (simp add: worker_step_def)
  moreover have "pool_workers (set_worker w (WRun x) (set_queue i t s)) ! w = WRun x"
    using 0 q by (simp add: pool_defs)
  moreover have "1 \<le> Suc (i - j)" by simp
  ultimately show ?case by blast
next
  case (Suc d j s)
  have q: "length (pool_queues s) = n" "length (pool_workers s) = n" "wq_wf (pool_queues s ! j)"
    using Suc by (auto simp: pool_inv_def queue_count_def one_queue_def list_all_length)
  have ji: "j < i" using Suc.hyps(2) by simp
  obtain r t where r: "wq_try_steal (pool_queues s ! j) = (r, t)" by fastforce
  show ?case
  proof (cases "j \<noteq> w \<and> r \<noteq> None")
    case True
    then obtain x where "r = Some x" by blast
    with r q Suc.prems True ji have "run (pool_exec StealPool) (replicate 1 (PWork w)) s = Some (set_worker w (WRun x) (set_queue j t s))"
      by (simp add: worker_step_def)
    moreover have "pool_workers (set_worker w (WRun x) (set_queue j t s)) ! w = WRun x"
      using Suc.prems q by (simp add: pool_defs)
    moreover have "1 \<le> Suc (i - j)" by simp
    ultimately show ?thesis by blast
  next
    case False
    define s1 where "s1 = set_worker w (WScan (Suc j)) s"
    have e: "worker_step StealPool w s = Some s1"
    proof (cases "j = w")
      case True
      then show ?thesis using Suc.prems q by (simp add: worker_step_def s1_def)
    next
      case jw: False
      with False have rn: "r = None" by simp
      have "wq_list (pool_queues s ! j) = []"
        using wq.steal_last [OF q(3) _ r] rn by (cases "wq_list (pool_queues s ! j)" rule: rev_cases) auto
      then have "t = pool_queues s ! j" using wq.steal_none [OF q(3) _ r] by simp
      then have "set_queue j t s = s" by (simp add: set_queue_def)
      then show ?thesis using jw rn r Suc.prems q ji by (simp add: worker_step_def s1_def)
    qed
    have i1: "pool_inv StealPool n s1" by (rule worker_step_inv [OF Suc.prems(1) e])
    have "\<exists>m s' v. m \<le> Suc (i - Suc j) \<and> run (pool_exec StealPool) (replicate m (PWork w)) s1 = Some s' \<and> pool_workers s' ! w = WRun v"
      by (rule Suc.hyps(1) [of "Suc j" s1])
         (use Suc.hyps(2) Suc.prems ji q i1 in \<open>auto simp: s1_def pool_defs\<close>)
    then obtain m s' v where m: "m \<le> Suc (i - Suc j)" "run (pool_exec StealPool) (replicate m (PWork w)) s1 = Some s'" "pool_workers s' ! w = WRun v"
      by blast
    then have "run (pool_exec StealPool) (replicate (Suc m) (PWork w)) s = Some s'" using e by simp
    moreover have "Suc m \<le> Suc (i - j)" using m(1) ji by simp
    ultimately show ?thesis using m(3) by blast
  qed
qed



section \<open>Stopping\<close>

text \<open>
  The destructor of \<open>notify_thread_pool\<close> and of \<open>parrallen_thread_pool\<close> can hang: \<open>Exit\<close> stores
  the flag without the mutex of the condition variable, so a worker that has just found
  nothing to do misses the notification, and goes to sleep after it; no worker can go on, and
  the join of that one waits for ever.
\<close>

theorem pool_shutdown_can_hang:
  "\<exists>s. run (pool_exec NotifyPool) [PWork 0, PWork 0, PDone, PExit 0, PWork 0] (make_thread_pool NotifyPool 1) = Some s \<and>
     pool_done s \<and> sq_stop (pool_queues s ! 0) \<and> pool_workers s = [WAsleep] \<and> (\<forall>w. pool_exec NotifyPool (PWork w) s = None) \<and>
   (\<exists>t. run (pool_exec ParallelPool) [PWork 0, PWork 0, PDone, PExit 0, PWork 0] (make_thread_pool ParallelPool 1) = Some t \<and>
     pool_done t \<and> pool_workers t = [WAsleep] \<and> (\<forall>w. pool_exec ParallelPool (PWork w) t = None))"
  by (simp add: make_thread_pool_def one_queue_def worker_step_def loop_head_def set_worker_def set_queue_def
      wq_try_pop_def make_steal_queue_def pool_set_done_def pool_exit_def sleeps_on_def not_le)

text \<open>A submission can miss the worker in the same way: the task stays while the worker sleeps.\<close>

lemma pool_submit_can_be_missed:
  "\<exists>s. run (pool_exec NotifyPool) [PWork 0, PWork 0, PSubmit 1 v, PWork 0] (make_thread_pool NotifyPool 1) = Some s \<and>
     pool_submitted s = [v] \<and> pool_ran s = [] \<and> pool_workers s = [WAsleep]"
  by (simp add: make_thread_pool_def one_queue_def worker_step_def loop_head_def set_worker_def set_queue_def
      wq_try_pop_def make_steal_queue_def submit_one_def wq_push_def sq_push_def deref_def sq_settle_def)

text \<open>A pool that is destroyed drops the tasks it has not started; their futures are broken.\<close>

lemma pool_drops_tasks:
  "\<exists>s. run (pool_exec SimplePool) [PSubmit 1 v, PDone, PWork 0] (make_thread_pool SimplePool 1) = Some s \<and>
     pool_workers s = [WExit] \<and> pool_submitted s = [v] \<and> pool_ran s = []"
  by (simp add: make_thread_pool_def one_queue_def worker_step_def loop_head_def set_worker_def set_queue_def
      make_steal_queue_def submit_one_def wq_push_def sq_push_def deref_def sq_settle_def pool_set_done_def)

end
