(* ===== verification/CommitPool.thy ===== *)
theory CommitPool
  imports Prelude "HOL-Library.Multiset"
begin

text \<open>
  The class \<open>ThreadPool\<close> of \<open>ThreadPool.h\<close>: one task queue, mutex \<open>cv_mt_\<close> and condition variable,
  and a counter of idle threads. The state of a worker says where it is; \<open>PDoze\<close> is the thread
  that has found nothing to wait for no longer and still has the mutex, \<open>PAsleep\<close> has given it
  back. A commit tests \<open>stop_\<close>, then pushes with the mutex held, then notifies: three steps.
\<close>

datatype 'a pworker =
    PLoop              \<comment> \<open>about to test \<open>stop_\<close>\<close>
  | PTest              \<comment> \<open>about to take the mutex and test the predicate\<close>
  | PDoze
  | PAsleep
  | PGot 'a            \<comment> \<open>has a task, about to lower \<open>thread_num_\<close>\<close>
  | PRun 'a
  | PFinished          \<comment> \<open>about to raise \<open>thread_num_\<close>\<close>
  | PGone              \<comment> \<open>the thread has ended\<close>

record 'a commit_pool =
  cp_stop :: bool
  cp_num :: int                      \<comment> \<open>\<open>thread_num_\<close>\<close>
  cp_tasks :: "'a list"
  cp_workers :: "'a pworker list"
  cp_clients :: "nat \<Rightarrow> 'a option"  \<comment> \<open>a commit that has seen \<open>stop_\<close> false\<close>
  cp_notifies :: nat                 \<comment> \<open>pushes whose \<open>notify_one\<close> is still to come\<close>
  cp_committed :: "'a list"
  cp_refused :: "'a list"
  cp_ran :: "'a list"

text \<open>
  The constructor and \<open>start\<close>. No task exists before the constructor returns, so no worker
  lowers \<open>thread_num_\<close> while the loop of \<open>start\<close> is bounded by it.
\<close>

definition make_commit_pool :: "nat \<Rightarrow> 'a commit_pool" where
  "make_commit_pool num = (let n = if num \<le> 1 then 2 else num in
     \<lparr>cp_stop = False, cp_num = int n, cp_tasks = [], cp_workers = replicate n PLoop, cp_clients = \<lambda>c. None,
      cp_notifies = 0, cp_committed = [], cp_refused = [], cp_ran = []\<rparr>)"

definition set_pworker :: "nat \<Rightarrow> 'a pworker \<Rightarrow> 'a commit_pool \<Rightarrow> 'a commit_pool" where
  "set_pworker w p s = s\<lparr>cp_workers := (cp_workers s)[w := p]\<rparr>"

text \<open>\<open>cv_mt_\<close> is taken between the steps of a wait.\<close>

definition cv_mt_taken :: "'a commit_pool \<Rightarrow> bool" where
  "cv_mt_taken s \<longleftrightarrow> PDoze \<in> set (cp_workers s)"

text \<open>The thread function.\<close>

fun pworker_step :: "nat \<Rightarrow> 'a pworker \<Rightarrow> 'a commit_pool \<Rightarrow> 'a commit_pool option" where
  "pworker_step w PLoop s = Some (set_pworker w (if cp_stop s then PGone else PTest) s)"
| "pworker_step w PTest s =
     (if cv_mt_taken s then None
      else (case cp_tasks s of
          [] \<Rightarrow> Some (set_pworker w (if cp_stop s then PGone else PDoze) s)
        | v # vs \<Rightarrow> Some (set_pworker w (PGot v) (s\<lparr>cp_tasks := vs\<rparr>))))"
| "pworker_step w PDoze s = Some (set_pworker w PAsleep s)"
| "pworker_step w (PGot v) s = Some (set_pworker w (PRun v) (s\<lparr>cp_num := cp_num s - 1\<rparr>))"
| "pworker_step w (PRun v) s = Some (set_pworker w PFinished (s\<lparr>cp_ran := cp_ran s @ [v]\<rparr>))"
| "pworker_step w PFinished s = Some (set_pworker w PLoop (s\<lparr>cp_num := cp_num s + 1\<rparr>))"
| "pworker_step w _ s = None"

text \<open>\<open>commit\<close>: an empty future when stopped; otherwise the push, and the notification.\<close>

definition commit_check :: "nat \<Rightarrow> 'a \<Rightarrow> 'a commit_pool \<Rightarrow> 'a commit_pool" where
  "commit_check c v s =
     (if cp_stop s then s\<lparr>cp_refused := cp_refused s @ [v]\<rparr>
      else s\<lparr>cp_clients := (cp_clients s)(c := Some v)\<rparr>)"

definition commit_push :: "nat \<Rightarrow> 'a commit_pool \<Rightarrow> 'a commit_pool option" where
  "commit_push c s =
     (case cp_clients s c of
        None \<Rightarrow> None
      | Some v \<Rightarrow>
          if cv_mt_taken s then None
          else Some (s\<lparr>cp_clients := (cp_clients s)(c := None), cp_tasks := cp_tasks s @ [v],
                 cp_committed := cp_committed s @ [v], cp_notifies := cp_notifies s + 1\<rparr>))"

definition wake_pworker :: "nat \<Rightarrow> 'a commit_pool \<Rightarrow> 'a commit_pool option" where
  "wake_pworker w s =
     (if w < length (cp_workers s) \<and> cp_workers s ! w = PAsleep then Some (set_pworker w PTest s) else None)"

text \<open>\<open>notify_one\<close>: wakes the worker the schedule picks, or nobody if nobody sleeps.\<close>

definition commit_notify :: "nat \<Rightarrow> 'a commit_pool \<Rightarrow> 'a commit_pool option" where
  "commit_notify w s =
     (if cp_notifies s = 0 then None
      else if PAsleep \<notin> set (cp_workers s) then Some (s\<lparr>cp_notifies := cp_notifies s - 1\<rparr>)
      else wake_pworker w (s\<lparr>cp_notifies := cp_notifies s - 1\<rparr>))"

text \<open>\<open>stop\<close>: the store, then \<open>notify_all\<close>; the joins wait for \<open>PGone\<close>.\<close>

definition stop_store :: "'a commit_pool \<Rightarrow> 'a commit_pool" where
  "stop_store s = s\<lparr>cp_stop := True\<rparr>"

definition stop_notify :: "'a commit_pool \<Rightarrow> 'a commit_pool" where
  "stop_notify s = s\<lparr>cp_workers := map (\<lambda>p. if p = PAsleep then PTest else p) (cp_workers s)\<rparr>"

definition idleThreadCount :: "'a commit_pool \<Rightarrow> int" where
  "idleThreadCount s = cp_num s"

datatype 'a cp_event = CWork nat | CCheck nat 'a | CPush nat | CNotify nat | CSpurious nat | CStop | CStopNotify

fun cp_exec :: "'a cp_event \<Rightarrow> 'a commit_pool \<Rightarrow> 'a commit_pool option" where
  "cp_exec (CWork w) s = (if w < length (cp_workers s) then pworker_step w (cp_workers s ! w) s else None)"
| "cp_exec (CCheck c v) s = (if cp_clients s c = None then Some (commit_check c v s) else None)"
| "cp_exec (CPush c) s = commit_push c s"
| "cp_exec (CNotify w) s = commit_notify w s"
| "cp_exec (CSpurious w) s = wake_pworker w s"
| "cp_exec CStop s = Some (stop_store s)"
| "cp_exec CStopNotify s = Some (stop_notify s)"

section \<open>The invariant\<close>

fun busy :: "'a pworker \<Rightarrow> int" where
  "busy (PRun v) = 1"
| "busy PFinished = 1"
| "busy _ = 0"

fun held_task :: "'a pworker \<Rightarrow> 'a multiset" where
  "held_task (PGot v) = {#v#}"
| "held_task (PRun v) = {#v#}"
| "held_task _ = {#}"

fun testing :: "'a pworker \<Rightarrow> nat" where
  "testing PTest = 1"
| "testing _ = 0"

definition worker_total :: "('a pworker \<Rightarrow> 'b::comm_monoid_add) \<Rightarrow> 'a pworker list \<Rightarrow> 'b" where
  "worker_total f ws = (\<Sum>p\<leftarrow>ws. f p)"

lemma worker_total_update: "w < length ws \<Longrightarrow> worker_total f (ws[w := p]) + f (ws ! w) = worker_total f ws + f p"
  by (induction ws arbitrary: w) (auto simp: worker_total_def nth_Cons ac_simps split: nat.splits)

lemma worker_total_Nil [simp]: "worker_total f [] = 0"
  by (simp add: worker_total_def)

text \<open>
  The counter is the number of threads that are not busy; each committed task is in one place;
  while a worker dozes there is no task; and when one sleeps, the tasks are no more than the
  workers about to test and the notifications to come.
\<close>

definition cp_inv :: "nat \<Rightarrow> 'a commit_pool \<Rightarrow> bool" where
  "cp_inv n s \<longleftrightarrow>
     length (cp_workers s) = n \<and>
     cp_num s + worker_total busy (cp_workers s) = int n \<and>
     mset (cp_committed s) = mset (cp_tasks s) + worker_total held_task (cp_workers s) + mset (cp_ran s) \<and>
     (PDoze \<in> set (cp_workers s) \<longrightarrow> cp_tasks s = []) \<and>
     (PAsleep \<in> set (cp_workers s) \<longrightarrow> length (cp_tasks s) \<le> worker_total testing (cp_workers s) + cp_notifies s)"

lemma set_update_ne: "w < length ws \<Longrightarrow> x \<in> set (ws[w := p]) \<Longrightarrow> x \<noteq> p \<Longrightarrow> x \<in> set ws"
  using set_update_subset_insert [of ws w p] by blast

lemma set_update_other: "w < length ws \<Longrightarrow> x \<in> set ws \<Longrightarrow> x \<noteq> ws ! w \<Longrightarrow> x \<in> set (ws[w := p])"
  by (metis in_set_conv_nth length_list_update nth_list_update_neq)

lemma cp_inv_work:
  assumes i: "cp_inv n s" and w: "w < length (cp_workers s)" and st: "pworker_step w (cp_workers s ! w) s = Some t"
  shows "cp_inv n t"
proof -
  note u = worker_total_update [OF w]
  note sub = set_update_ne [OF w]
  show ?thesis
  proof (cases "cp_workers s ! w")
    case PLoop
    define p :: "'a pworker" where "p = (if cp_stop s then PGone else PTest)"
    have t: "t = set_pworker w p s" using st PLoop by (simp add: p_def)
    have p: "busy p = 0" "held_task p = {#}" "p \<noteq> PDoze" "p \<noteq> PAsleep" by (auto simp: p_def)
    show ?thesis
      using i u [of busy p] u [of held_task p] u [of testing p] sub [of _ p] p PLoop
      by (auto simp: cp_inv_def t set_pworker_def)
  next
    case PTest
    show ?thesis
    proof (cases "cp_tasks s")
      case Nil
      define p :: "'a pworker" where "p = (if cp_stop s then PGone else PDoze)"
      have t: "t = set_pworker w p s" using st PTest Nil by (simp add: p_def split: if_splits)
      have p: "busy p = 0" "held_task p = {#}" "p \<noteq> PAsleep" by (auto simp: p_def)
      show ?thesis
        using i u [of busy p] u [of held_task p] Nil p PTest by (auto simp: cp_inv_def t set_pworker_def)
    next
      case (Cons v vs)
      have t: "t = set_pworker w (PGot v) (s\<lparr>cp_tasks := vs\<rparr>)" "PDoze \<notin> set (cp_workers s)"
        using st PTest Cons by (auto simp: cv_mt_taken_def split: if_splits)
      show ?thesis
        using i u [of busy "PGot v"] u [of held_task "PGot v"] u [of testing "PGot v"] sub [of _ "PGot v"] Cons PTest t(2)
        by (auto simp: cp_inv_def t(1) set_pworker_def)
    qed
  next
    case PDoze
    then have "cp_tasks s = []" using i w by (auto simp: cp_inv_def dest: nth_mem)
    then show ?thesis
      using i st PDoze u [of busy PAsleep] u [of held_task PAsleep] by (auto simp: cp_inv_def set_pworker_def)
  next
    case PAsleep
    then show ?thesis using st by simp
  next
    case (PGot v)
    show ?thesis
      using i st PGot u [of busy "PRun v"] u [of held_task "PRun v"] u [of testing "PRun v"] sub [of _ "PRun v"]
      by (auto simp: cp_inv_def set_pworker_def)
  next
    case (PRun v)
    show ?thesis
      using i st PRun u [of busy PFinished] u [of held_task PFinished] u [of testing PFinished] sub [of _ PFinished]
      by (auto simp: cp_inv_def set_pworker_def)
  next
    case PFinished
    show ?thesis
      using i st PFinished u [of busy PLoop] u [of held_task PLoop] u [of testing PLoop] sub [of _ PLoop]
      by (auto simp: cp_inv_def set_pworker_def)
  next
    case PGone
    then show ?thesis using st by simp
  qed
qed

lemma cp_inv_wake:
  assumes "length (cp_workers s) = n" "cp_num s + worker_total busy (cp_workers s) = int n"
    and "mset (cp_committed s) = mset (cp_tasks s) + worker_total held_task (cp_workers s) + mset (cp_ran s)"
    and "PDoze \<in> set (cp_workers s) \<longrightarrow> cp_tasks s = []"
    and "length (cp_tasks s) \<le> Suc (worker_total testing (cp_workers s) + cp_notifies s)"
    and "wake_pworker w s = Some t"
  shows "cp_inv n t"
proof -
  have w: "w < length (cp_workers s)" "cp_workers s ! w = PAsleep" "t = set_pworker w PTest s"
    using assms(6) by (auto simp: wake_pworker_def split: if_splits)
  show ?thesis
    using assms worker_total_update [OF w(1), of busy PTest] worker_total_update [OF w(1), of held_task PTest]
      worker_total_update [OF w(1), of testing PTest] set_update_ne [OF w(1), of _ PTest] w(2)
    by (auto simp: cp_inv_def w(3) set_pworker_def)
qed

lemma cp_inv_exec: "cp_inv n s \<Longrightarrow> cp_exec e s = Some t \<Longrightarrow> cp_inv n t"
proof (cases e)
  case (CWork w)
  assume "cp_inv n s" "cp_exec e s = Some t"
  with CWork show ?thesis by (auto split: if_splits intro: cp_inv_work)
next
  case (CCheck c v)
  assume "cp_inv n s" "cp_exec e s = Some t"
  with CCheck show ?thesis by (auto simp: commit_check_def cp_inv_def split: if_splits)
next
  case (CPush c)
  assume "cp_inv n s" "cp_exec e s = Some t"
  with CPush show ?thesis
    by (auto simp: commit_push_def cp_inv_def cv_mt_taken_def split: option.splits if_splits)
next
  case (CNotify w)
  assume i: "cp_inv n s" and st: "cp_exec e s = Some t"
  show ?thesis
  proof (cases "PAsleep \<in> set (cp_workers s)")
    case True
    define s1 where "s1 = s\<lparr>cp_notifies := cp_notifies s - 1\<rparr>"
    have n: "cp_notifies s \<noteq> 0" and t: "wake_pworker w s1 = Some t"
      using st CNotify True by (auto simp: commit_notify_def s1_def split: if_splits)
    show ?thesis by (rule cp_inv_wake [OF _ _ _ _ _ t]) (use i n True in \<open>auto simp: s1_def cp_inv_def\<close>)
  next
    case False
    with i st CNotify show ?thesis by (auto simp: commit_notify_def cp_inv_def split: if_splits)
  qed
next
  case (CSpurious w)
  assume i: "cp_inv n s" and st: "cp_exec e s = Some t"
  then have t: "wake_pworker w s = Some t" using CSpurious by simp
  then have "PAsleep \<in> set (cp_workers s)" by (auto simp: wake_pworker_def split: if_splits dest: nth_mem)
  with i show ?thesis by (intro cp_inv_wake [OF _ _ _ _ _ t]) (auto simp: cp_inv_def)
next
  case CStop
  assume "cp_inv n s" "cp_exec e s = Some t"
  with CStop show ?thesis by (auto simp: stop_store_def cp_inv_def)
next
  case CStopNotify
  assume i: "cp_inv n s" and st: "cp_exec e s = Some t"
  define g where "g = (\<lambda>p :: 'a pworker. if p = PAsleep then PTest else p)"
  have "busy (g p) = busy p" "held_task (g p) = held_task p" for p by (auto simp: g_def)
  then have "worker_total busy (map g ws) = worker_total busy ws" "worker_total held_task (map g ws) = worker_total held_task ws" for ws
    by (simp_all add: worker_total_def comp_def)
  moreover have "PAsleep \<notin> set (map g ws)" "PDoze \<in> set (map g ws) \<longleftrightarrow> PDoze \<in> set ws" for ws
    by (auto simp: g_def split: if_splits)
  moreover have "t = s\<lparr>cp_workers := map g (cp_workers s)\<rparr>" using st CStopNotify by (simp add: stop_notify_def g_def)
  ultimately show ?thesis using i by (simp add: cp_inv_def)
qed

interpretation cpool: inv_machine cp_exec "cp_inv n"
  by unfold_locales (rule cp_inv_exec)

lemma worker_total_replicate: "f p = 0 \<Longrightarrow> worker_total f (replicate k p) = 0"
  by (induction k) (auto simp: worker_total_def)

lemma cp_inv_init: "cp_inv (if num \<le> 1 then 2 else num) (make_commit_pool num)"
  by (simp add: cp_inv_def make_commit_pool_def Let_def worker_total_replicate)

section \<open>What the pool promises\<close>

text \<open>
  C23. \<open>ThreadPool\<close>: there are at least two threads; \<open>idleThreadCount\<close> is their number less those
  that run a task; every committed task is exactly once in the queue, with a worker, or done;
  and no commit is missed: if a task waits while a worker sleeps, another worker is about to
  look, or a notification is to come.
\<close>

theorem commit_pool_correct:
  "run cp_exec es (make_commit_pool num) = Some s \<Longrightarrow>
   length (cp_workers s) = max 2 num \<and>
   idleThreadCount s = int (max 2 num) - (\<Sum>p\<leftarrow>cp_workers s. busy p) \<and>
   mset (cp_committed s) = mset (cp_tasks s) + (\<Sum>p\<leftarrow>cp_workers s. held_task p) + mset (cp_ran s) \<and>
   (PAsleep \<in> set (cp_workers s) \<and> cp_tasks s \<noteq> [] \<longrightarrow> cp_notifies s > 0 \<or> PTest \<in> set (cp_workers s))"
proof -
  assume "run cp_exec es (make_commit_pool num) = Some s"
  from cpool.run_inv [OF cp_inv_init this] have i: "cp_inv (max 2 num) s"
    by (simp add: max_def split: if_splits)
  have z: "PTest \<notin> set ws \<Longrightarrow> worker_total testing ws = 0" for ws :: "'a pworker list"
  proof (induction ws)
    case (Cons p ps)
    then show ?case by (cases p) (auto simp: worker_total_def)
  qed simp
  have "PAsleep \<in> set (cp_workers s) \<Longrightarrow> cp_tasks s \<noteq> [] \<Longrightarrow> cp_notifies s > 0 \<or> PTest \<in> set (cp_workers s)"
    using i z [of "cp_workers s"] by (cases "cp_tasks s") (auto simp: cp_inv_def)
  with i show ?thesis by (auto simp: cp_inv_def worker_total_def idleThreadCount_def)
qed

lemma commit_pool_correct_witness:
  "\<exists>s. run cp_exec [CWork 0, CWork 0, CWork 0, CCheck 9 (5 :: nat), CPush 9] (make_commit_pool 2) = Some s \<and>
     PAsleep \<in> set (cp_workers s) \<and> cp_tasks s = [5] \<and> (cp_notifies s > 0 \<or> PTest \<in> set (cp_workers s))"
proof -
  have "\<exists>s. run cp_exec [CWork 0, CWork 0, CWork 0, CCheck 9 (5 :: nat), CPush 9] (make_commit_pool 2) = Some s \<and>
     PAsleep \<in> set (cp_workers s) \<and> cp_tasks s = [5]"
    by (simp add: make_commit_pool_def Let_def set_pworker_def cv_mt_taken_def commit_check_def commit_push_def
        numeral_2_eq_2)
  then obtain s where s: "run cp_exec [CWork 0, CWork 0, CWork 0, CCheck 9 (5 :: nat), CPush 9] (make_commit_pool 2) = Some s"
      "PAsleep \<in> set (cp_workers s)" "cp_tasks s = [5]" by blast
  have "cp_notifies s > 0 \<or> PTest \<in> set (cp_workers s)"
    using commit_pool_correct [OF s(1)] s(2,3) by auto
  with s show ?thesis by blast
qed

text \<open>
  \<open>stop\<close> stores the flag without the mutex: a worker between its test and its sleep misses the
  \<open>notify_all\<close>, and \<open>join\<close> waits for it for ever.
\<close>

lemma commit_pool_stop_can_hang:
  "\<exists>s. run cp_exec [CWork 0, CWork 0, CStop, CStopNotify, CWork 0, CWork 1] (make_commit_pool 2) = Some s \<and>
     cp_stop s \<and> cp_workers s = [PAsleep, PGone] \<and> (\<forall>w. cp_exec (CWork w) s = None)"
  by (simp add: make_commit_pool_def Let_def set_pworker_def cv_mt_taken_def stop_store_def stop_notify_def
      numeral_2_eq_2 less_Suc_eq)

end
