(* ===== verification/PoolSort.thy ===== *)
theory PoolSort
  imports QuickSort
begin

text \<open>
  The quick sorts of \<open>day22-ThreadPool/QuickSort.h\<close>: \<open>sorter::do_sort\<close>,
  \<open>sorter::do_sort_parallen_pool\<close>, \<open>pool_thread_quick_sort\<close> and \<open>steal_thread_quick_sort\<close> submit
  the lower part to a pool of a fixed number of workers, sort the higher part themselves, and
  then wait for the future of the lower part, in the pool's own threads too. The four differ in
  the pool; here a worker may take any task of those that wait, which every pool allows or
  restricts. Thread 0 is the caller. A thread is the stack of its calls, the innermost first.
\<close>

datatype 'a frame =
    FCall "'a list"             \<comment> \<open>about to sort this chunk\<close>
  | FHigher 'a nat              \<comment> \<open>pivot, future of the lower part; the call for the higher part is inside\<close>
  | FJoin 'a nat "'a list"      \<comment> \<open>has the higher part, in \<open>get()\<close> of the future\<close>
  | FRet "'a list"              \<comment> \<open>about to return this list\<close>

record 'a sort_pool =
  sp_threads :: "'a frame list list"
  sp_target :: "nat \<Rightarrow> nat"                 \<comment> \<open>the future a thread's task fulfils\<close>
  sp_queue :: "(nat \<times> 'a list) list"
  sp_futures :: "nat \<Rightarrow> 'a list option"
  sp_asked :: "'a list list"                \<comment> \<open>the chunk of each future\<close>

text \<open>The caller with \<open>n\<close> workers; the result of the whole is the future 0.\<close>

definition sort_pool :: "nat \<Rightarrow> 'a list \<Rightarrow> 'a sort_pool" where
  "sort_pool n xs = \<lparr>sp_threads = [FCall xs] # replicate n [], sp_target = \<lambda>t. 0, sp_queue = [],
     sp_futures = \<lambda>f. None, sp_asked = [xs]\<rparr>"

definition set_stack :: "nat \<Rightarrow> 'a frame list \<Rightarrow> 'a sort_pool \<Rightarrow> 'a sort_pool" where
  "set_stack t fs s = s\<lparr>sp_threads := (sp_threads s)[t := fs]\<rparr>"

text \<open>One step of a thread that has something to do.\<close>

fun sort_step :: "nat \<Rightarrow> ('a::linorder) frame list \<Rightarrow> 'a sort_pool \<Rightarrow> 'a sort_pool option" where
  "sort_step t (FCall [] # K) s = Some (set_stack t (FRet [] # K) s)"
| "sort_step t (FCall (partition_val # chunk_data) # K) s =
     (let (new_lower_chunk, rest) = divide partition_val chunk_data; f = length (sp_asked s) in
      Some (set_stack t (FCall rest # FHigher partition_val f # K)
        (s\<lparr>sp_queue := sp_queue s @ [(f, new_lower_chunk)], sp_asked := sp_asked s @ [new_lower_chunk]\<rparr>)))"
| "sort_step t (FRet h # FHigher p f # K) s = Some (set_stack t (FJoin p f h # K) s)"
| "sort_step t (FJoin p f h # K) s =
     (case sp_futures s f of None \<Rightarrow> None | Some l \<Rightarrow> Some (set_stack t (FRet (l @ [p] @ h) # K) s))"
| "sort_step t [FRet r] s =
     Some ((set_stack t [] s)\<lparr>sp_futures := (sp_futures s)(sp_target s t := Some r)\<rparr>)"
| "sort_step t _ s = None"

text \<open>An idle worker takes the task at position \<open>i\<close> of the queue.\<close>

definition take_task :: "nat \<Rightarrow> nat \<Rightarrow> 'a sort_pool \<Rightarrow> 'a sort_pool option" where
  "take_task t i s =
     (if 0 < t \<and> t < length (sp_threads s) \<and> sp_threads s ! t = [] \<and> i < length (sp_queue s)
      then Some ((set_stack t [FCall (snd (sp_queue s ! i))] s)\<lparr>sp_target := (sp_target s)(t := fst (sp_queue s ! i)),
             sp_queue := take i (sp_queue s) @ drop (Suc i) (sp_queue s)\<rparr>)
      else None)"

datatype sort_event = SortStep nat | TakeTask nat nat

fun sort_exec :: "sort_event \<Rightarrow> ('a::linorder) sort_pool \<Rightarrow> 'a sort_pool option" where
  "sort_exec (SortStep t) s = (if t < length (sp_threads s) then sort_step t (sp_threads s ! t) s else None)"
| "sort_exec (TakeTask t i) s = take_task t i s"

section \<open>The result is sorted\<close>

text \<open>
  \<open>returns_to A K ys tgt\<close>: if the innermost call, of the chunk \<open>ys\<close>, returns it sorted, then the
  calls \<open>K\<close> around it return the chunk \<open>tgt\<close> sorted, the futures giving the chunks \<open>A\<close> sorted.
\<close>

fun returns_to :: "'a::linorder list list \<Rightarrow> 'a frame list \<Rightarrow> 'a list \<Rightarrow> 'a list \<Rightarrow> bool" where
  "returns_to A [] ys tgt \<longleftrightarrow> sort ys = sort tgt"
| "returns_to A (FHigher p f # K) ys tgt \<longleftrightarrow> f < length A \<and>
     (\<exists>zs. sort (A ! f) @ [p] @ sort ys = sort zs \<and> returns_to A K zs tgt)"
| "returns_to A (_ # K) ys tgt \<longleftrightarrow> False"

fun stack_ok :: "'a::linorder list list \<Rightarrow> 'a frame list \<Rightarrow> 'a list \<Rightarrow> bool" where
  "stack_ok A [] tgt \<longleftrightarrow> True"
| "stack_ok A (FCall ys # K) tgt \<longleftrightarrow> returns_to A K ys tgt"
| "stack_ok A (FRet r # K) tgt \<longleftrightarrow> (\<exists>ys. r = sort ys \<and> returns_to A K ys tgt)"
| "stack_ok A (FJoin p f h # K) tgt \<longleftrightarrow> f < length A \<and> (\<exists>zs. sort (A ! f) @ [p] @ h = sort zs \<and> returns_to A K zs tgt)"
| "stack_ok A (FHigher p f # K) tgt \<longleftrightarrow> False"

definition sort_inv :: "'a::linorder list \<Rightarrow> 'a sort_pool \<Rightarrow> bool" where
  "sort_inv xs s \<longleftrightarrow>
     sp_asked s \<noteq> [] \<and> sp_asked s ! 0 = xs \<and>
     (\<forall>f r. sp_futures s f = Some r \<longrightarrow> f < length (sp_asked s) \<and> r = sort (sp_asked s ! f)) \<and>
     (\<forall>(f, c)\<in>set (sp_queue s). f < length (sp_asked s) \<and> c = sp_asked s ! f) \<and>
     (\<forall>t<length (sp_threads s). sp_target s t < length (sp_asked s) \<and>
        stack_ok (sp_asked s) (sp_threads s ! t) (sp_asked s ! sp_target s t))"

lemma returns_to_more: "returns_to A K ys tgt \<Longrightarrow> returns_to (A @ B) K ys tgt"
  by (induction A K ys tgt rule: returns_to.induct) (auto simp: nth_append)

lemma stack_ok_more: "stack_ok A fs tgt \<Longrightarrow> stack_ok (A @ B) fs tgt"
  by (induction A fs tgt rule: stack_ok.induct) (auto simp: nth_append intro: returns_to_more)

lemma sort_inv_set_stack:
  "sort_inv xs s \<Longrightarrow> t < length (sp_threads s) \<Longrightarrow> stack_ok (sp_asked s) fs (sp_asked s ! sp_target s t) \<Longrightarrow>
   sort_inv xs (set_stack t fs s)"
  unfolding sort_inv_def set_stack_def by (auto simp: nth_list_update)

lemma sort_inv_step:
  assumes i: "sort_inv xs s" and t: "t < length (sp_threads s)" and st: "sort_step t (sp_threads s ! t) s = Some s'"
  shows "sort_inv xs s'"
proof -
  define fs where "fs = sp_threads s ! t"
  define tgt where "tgt = sp_asked s ! sp_target s t"
  have ok: "stack_ok (sp_asked s) fs tgt" using i t by (auto simp: sort_inv_def fs_def tgt_def)
  have fut: "sp_futures s f = Some r \<Longrightarrow> r = sort (sp_asked s ! f)" for f r using i by (auto simp: sort_inv_def)
  from st have "sort_step t fs s = Some s'" by (simp add: fs_def)
  consider (call) ys K where "fs = FCall ys # K" | (ret) r K where "fs = FRet r # K"
    | (join) p f h K where "fs = FJoin p f h # K" | (none) "fs = [] \<or> (\<exists>p f K. fs = FHigher p f # K)"
    by (metis frame.exhaust list.exhaust)
  then show ?thesis
  proof cases
    case call
    note fs = call
    with ok have r: "returns_to (sp_asked s) K ys tgt" by simp
    show ?thesis
    proof (cases ys)
      case Nil
      then have "s' = set_stack t (FRet [] # K) s" using fs st by (simp add: fs_def)
      moreover have "stack_ok (sp_asked s) (FRet [] # K) tgt" using r Nil by (auto intro!: exI [of _ "[]"])
      ultimately show ?thesis using sort_inv_set_stack [OF i t] by (simp only: tgt_def)
    next
      case (Cons p chunk)
      obtain l h where d: "divide p chunk = (l, h)" by fastforce
      define s1 where "s1 = s\<lparr>sp_queue := sp_queue s @ [(length (sp_asked s), l)], sp_asked := sp_asked s @ [l]\<rparr>"
      have s': "s' = set_stack t (FCall h # FHigher p (length (sp_asked s)) # K) s1"
        using st fs Cons d by (simp add: fs_def s1_def Let_def)
      have i1: "sort_inv xs s1"
        using i stack_ok_more [of "sp_asked s" _ _ "[l]"] by (fastforce simp: sort_inv_def s1_def nth_append)
      have tg: "sp_asked s1 ! sp_target s1 t = tgt"
        using i t by (simp add: sort_inv_def s1_def tgt_def nth_append)
      have "sort l @ [p] @ sort h = sort (p # chunk)" by (rule join_sorted [OF d])
      then have "stack_ok (sp_asked s1) (FCall h # FHigher p (length (sp_asked s)) # K) tgt"
        using returns_to_more [OF r, of "[l]"] Cons by (auto simp: s1_def intro!: exI [of _ "p # chunk"])
      then show ?thesis unfolding s' by (intro sort_inv_set_stack [OF i1]) (use t tg in \<open>auto simp: s1_def\<close>)
    qed
  next
    case ret
    note fs = ret
    with ok obtain ys where ys: "r = sort ys" "returns_to (sp_asked s) K ys tgt" by auto
    show ?thesis
    proof (cases K)
      case Nil
      with ys have "r = sort tgt" by simp
      have s': "s' = (set_stack t [] s)\<lparr>sp_futures := (sp_futures s)(sp_target s t := Some r)\<rparr>"
        using st fs Nil by (simp add: fs_def)
      have "sort_inv xs (set_stack t [] s)" using sort_inv_set_stack [OF i t] by simp
      then show ?thesis using \<open>r = sort tgt\<close> i t unfolding s' by (auto simp: sort_inv_def set_stack_def tgt_def)
    next
      case (Cons g K')
      with ys obtain p f where g: "g = FHigher p f" by (cases g) auto
      have "stack_ok (sp_asked s) (FJoin p f r # K') tgt" using ys Cons g by auto
      moreover have "s' = set_stack t (FJoin p f r # K') s" using Cons g fs st by (simp add: fs_def)
      ultimately show ?thesis using sort_inv_set_stack [OF i t] by (simp only: tgt_def)
    qed
  next
    case join
    note fs = join
    then obtain l where l: "sp_futures s f = Some l" using st by (auto simp: fs_def split: option.splits)
    have "stack_ok (sp_asked s) (FRet (l @ [p] @ h) # K) tgt" using ok fs fut [OF l] by auto
    moreover have "s' = set_stack t (FRet (l @ [p] @ h) # K) s" using l fs st by (simp add: fs_def)
    ultimately show ?thesis using sort_inv_set_stack [OF i t] by (simp only: tgt_def)
  next
    case none
    then show ?thesis using st by (auto simp: fs_def)
  qed
qed

lemma sort_inv_take:
  assumes i: "sort_inv xs s" and st: "take_task t k s = Some s'"
  shows "sort_inv xs s'"
proof -
  obtain f c where fc: "sp_queue s ! k = (f, c)" by fastforce
  have k: "t < length (sp_threads s)" "k < length (sp_queue s)"
    and s': "s' = (set_stack t [FCall c] s)\<lparr>sp_target := (sp_target s)(t := f), sp_queue := take k (sp_queue s) @ drop (Suc k) (sp_queue s)\<rparr>"
    using st fc by (auto simp: take_task_def split: if_splits)
  have "(f, c) \<in> set (sp_queue s)" using k(2) fc by (metis nth_mem)
  then have "f < length (sp_asked s)" "c = sp_asked s ! f" using i by (auto simp: sort_inv_def)
  moreover have "set (take k (sp_queue s) @ drop (Suc k) (sp_queue s)) \<subseteq> set (sp_queue s)"
    using set_take_subset set_drop_subset by fastforce
  ultimately show ?thesis using i k(1) unfolding s' sort_inv_def set_stack_def by (auto simp: nth_list_update)
qed

lemma sort_inv_exec: "sort_inv xs s \<Longrightarrow> sort_exec e s = Some s' \<Longrightarrow> sort_inv xs s'"
  by (cases e) (auto split: if_splits intro: sort_inv_step sort_inv_take)

interpretation psort: inv_machine sort_exec "sort_inv xs"
  by unfold_locales (rule sort_inv_exec)

lemma sort_inv_init: "sort_inv xs (sort_pool n xs)"
  by (auto simp: sort_inv_def sort_pool_def nth_Cons split: nat.splits)

text \<open>
  Whatever the number of workers and the schedule: if the sort on a pool returns, it returns
  the sorted input, and so does each of the tasks it has submitted.
\<close>

theorem pool_sort_sorts:
  "run sort_exec es (sort_pool n xs) = Some s \<Longrightarrow>
   (sp_futures s 0 = None \<or> sp_futures s 0 = Some (sort xs)) \<and>
   (\<forall>f r. sp_futures s f = Some r \<longrightarrow> f < length (sp_asked s) \<and> r = sort (sp_asked s ! f))"
  using psort.run_inv [OF sort_inv_init, of es n xs s] by (cases "sp_futures s 0") (auto simp: sort_inv_def)

lemma pool_sort_sorts_witness:
  "\<exists>s. run sort_exec [SortStep 0, TakeTask 1 0, SortStep 1, SortStep 1, SortStep 0, SortStep 0, SortStep 0, SortStep 0]
      (sort_pool 1 [3 :: nat]) = Some s \<and> sp_futures s 0 = Some [3]"
proof -
  have "\<exists>s. run sort_exec [SortStep 0, TakeTask 1 0, SortStep 1, SortStep 1, SortStep 0, SortStep 0, SortStep 0, SortStep 0]
      (sort_pool 1 [3 :: nat]) = Some s \<and> sp_futures s 0 \<noteq> None"
    by (simp add: sort_pool_def set_stack_def take_task_def divide_def Let_def)
  then obtain s where s: "run sort_exec [SortStep 0, TakeTask 1 0, SortStep 1, SortStep 1, SortStep 0, SortStep 0, SortStep 0, SortStep 0]
      (sort_pool 1 [3 :: nat]) = Some s" "sp_futures s 0 \<noteq> None" by blast
  from pool_sort_sorts [OF s(1)] s show ?thesis by auto
qed

section \<open>The pool runs out of workers\<close>

text \<open>
  On a descending chunk every lower part is the whole rest: the task of future \<open>f\<close> sorts the
  chunk without its first \<open>f\<close> elements, submits that of future \<open>f + 1\<close>, and waits for it. Each
  submitted task is with a thread, but for the newest, which may still be queued.
\<close>

definition busy_threads :: "'a sort_pool \<Rightarrow> nat set" where
  "busy_threads s = {t. t < length (sp_threads s) \<and> sp_threads s ! t \<noteq> []}"

definition chain_stack :: "'a list \<Rightarrow> nat \<Rightarrow> bool \<Rightarrow> nat \<Rightarrow> 'a frame list \<Rightarrow> bool" where
  "chain_stack xs J queued f fs \<longleftrightarrow>
     fs = [FCall (drop f xs)] \<and> Suc f = J \<and> \<not> queued \<or>
     Suc f < J \<and> (\<exists>p. fs = [FCall [], FHigher p (Suc f)] \<or> fs = [FRet [], FHigher p (Suc f)] \<or> fs = [FJoin p (Suc f) []])"

definition chain_inv :: "nat \<Rightarrow> 'a list \<Rightarrow> 'a sort_pool \<Rightarrow> bool" where
  "chain_inv n xs s \<longleftrightarrow> length (sp_threads s) = Suc n \<and> (\<forall>f. sp_futures s f = None) \<and>
     (\<exists>J queued. length (sp_asked s) = J \<and> 0 < J \<and>
        sp_queue s = (if queued then [(J - 1, drop (J - 1) xs)] else []) \<and>
        inj_on (sp_target s) (busy_threads s) \<and>
        sp_target s ` busy_threads s = {..<(if queued then J - 1 else J)} \<and>
        (\<forall>t\<in>busy_threads s. chain_stack xs J queued (sp_target s t) (sp_threads s ! t)))"

lemma chain_invI:
  assumes "length (sp_threads s) = Suc n" "\<And>f. sp_futures s f = None" "length (sp_asked s) = J" "0 < J"
    and "sp_queue s = (if queued then [(J - 1, drop (J - 1) xs)] else [])"
    and "inj_on (sp_target s) (busy_threads s)"
    and "sp_target s ` busy_threads s = {..<(if queued then J - 1 else J)}"
    and "\<And>t. t \<in> busy_threads s \<Longrightarrow> chain_stack xs J queued (sp_target s t) (sp_threads s ! t)"
  shows "chain_inv n xs s"
  unfolding chain_inv_def using assms by blast

lemma busy_set_stack:
  "t < length (sp_threads s) \<Longrightarrow> fs \<noteq> [] \<Longrightarrow> busy_threads (set_stack t fs s) = insert t (busy_threads s)"
  by (auto simp: busy_threads_def set_stack_def nth_list_update)

lemma divide_descending:
  "sorted_wrt (>) (p # xs) \<Longrightarrow> divide p xs = (xs, [])"
  by (simp add: divide_def)

lemma chain_step:
  assumes n: "n < length xs" and so: "sorted_wrt (>) xs"
    and i: "chain_inv n xs s" and t: "t < length (sp_threads s)" and st: "sort_step t (sp_threads s ! t) s = Some s'"
  shows "chain_inv n xs s'"
proof -
  from i obtain J queued where J: "length (sp_threads s) = Suc n" "\<And>f. sp_futures s f = None"
    "length (sp_asked s) = J" "0 < J"
    "sp_queue s = (if queued then [(J - 1, drop (J - 1) xs)] else [])"
    "inj_on (sp_target s) (busy_threads s)" "sp_target s ` busy_threads s = {..<(if queued then J - 1 else J)}"
    "\<And>t. t \<in> busy_threads s \<Longrightarrow> chain_stack xs J queued (sp_target s t) (sp_threads s ! t)"
    unfolding chain_inv_def by blast
  have busy: "t \<in> busy_threads s" using t st by (auto simp: busy_threads_def)
  define f where "f = sp_target s t"
  have same: "chain_inv n xs (set_stack t fs s)" if c: "chain_stack xs J queued f fs" for fs
  proof (rule chain_invI [where J = J and queued = queued])
    have ne: "fs \<noteq> []" using c by (auto simp: chain_stack_def)
    then have b: "busy_threads (set_stack t fs s) = busy_threads s" using busy_set_stack [OF t, of fs] busy by auto
    show "inj_on (sp_target (set_stack t fs s)) (busy_threads (set_stack t fs s))"
      "sp_target (set_stack t fs s) ` busy_threads (set_stack t fs s) = {..<if queued then J - 1 else J}"
      using J(6,7) unfolding b by (simp_all add: set_stack_def)
    show "chain_stack xs J queued (sp_target (set_stack t fs s) u) (sp_threads (set_stack t fs s) ! u)"
      if "u \<in> busy_threads (set_stack t fs s)" for u
      using J(8) [of u] that t c unfolding b by (cases "u = t") (simp_all add: set_stack_def f_def)
  qed (use J(1-5) in \<open>simp_all add: set_stack_def\<close>)
  from J(8) [OF busy] consider
      (call) "sp_threads s ! t = [FCall (drop f xs)]" "Suc f = J" "\<not> queued"
    | (higher) p where "sp_threads s ! t = [FCall [], FHigher p (Suc f)]" "Suc f < J"
    | (ret) p where "sp_threads s ! t = [FRet [], FHigher p (Suc f)]" "Suc f < J"
    | (join) p where "sp_threads s ! t = [FJoin p (Suc f) []]" "Suc f < J"
    unfolding chain_stack_def f_def by blast
  then show ?thesis
  proof cases
    case call
    have "card (busy_threads s) = J" using card_image [OF J(6)] J(7) call(3) by simp
    moreover have "busy_threads s \<subseteq> {..<Suc n}" using J(1) by (auto simp: busy_threads_def)
    then have "card (busy_threads s) \<le> card {..<Suc n}" by (rule card_mono [OF finite_lessThan])
    ultimately have "f < length xs" using call(2) n by simp
    then obtain p where d: "drop f xs = p # drop J xs" using call(2) by (metis Cons_nth_drop_Suc)
    then have "sorted_wrt (>) (p # drop J xs)" using so by (metis sorted_wrt_drop)
    then have dv: "divide p (drop J xs) = (drop J xs, [])" by (rule divide_descending)
    define s1 where "s1 = s\<lparr>sp_queue := [(J, drop J xs)], sp_asked := sp_asked s @ [drop J xs]\<rparr>"
    have s': "s' = set_stack t [FCall [], FHigher p J] s1"
      using st call d dv J(3,5) by (simp add: s1_def Let_def)
    have b: "busy_threads s' = busy_threads s" unfolding s'
      using busy_set_stack [of t s1 "[FCall [], FHigher p J]"] t busy by (auto simp: s1_def busy_threads_def)
    have ta: "sp_target s' = sp_target s" by (simp add: s' set_stack_def s1_def)
    have st': "chain_stack xs (Suc J) True (sp_target s u) (sp_threads s' ! u)" if u: "u \<in> busy_threads s" for u
    proof (cases "u = t")
      case True
      then show ?thesis using t call(2) by (simp add: chain_stack_def s' set_stack_def s1_def f_def)
    next
      case False
      then have "sp_target s u \<noteq> f" using J(6) u busy by (auto simp: f_def inj_on_def)
      with J(8) [OF u] False call(2) show ?thesis by (auto simp: chain_stack_def s' set_stack_def s1_def)
    qed
    have f: "length (sp_threads s') = Suc n" "\<And>f. sp_futures s' f = None" "length (sp_asked s') = Suc J" "sp_queue s' = [(J, drop J xs)]"
      using J(1-3) by (simp_all add: s' set_stack_def s1_def)
    show ?thesis
      by (rule chain_invI [where J = "Suc J" and queued = True])
         (use f J(6,7) call(3) st' in \<open>simp_all add: b ta\<close>)
  next
    case higher
    then have s': "s' = set_stack t [FRet [], FHigher p (Suc f)] s" using st by simp
    have "chain_stack xs J queued f [FRet [], FHigher p (Suc f)]" using higher by (simp add: chain_stack_def)
    with s' show ?thesis using same by blast
  next
    case ret
    then have s': "s' = set_stack t [FJoin p (Suc f) []] s" using st by simp
    have "chain_stack xs J queued f [FJoin p (Suc f) []]" using ret by (simp add: chain_stack_def)
    with s' show ?thesis using same by blast
  next
    case join
    then show ?thesis using st J(2) by simp
  qed
qed

lemma chain_take:
  assumes i: "chain_inv n xs s" and st: "take_task t k s = Some s'"
  shows "chain_inv n xs s'"
proof -
  from i obtain J queued where J: "length (sp_threads s) = Suc n" "\<And>f. sp_futures s f = None"
    "length (sp_asked s) = J" "0 < J"
    "sp_queue s = (if queued then [(J - 1, drop (J - 1) xs)] else [])"
    "inj_on (sp_target s) (busy_threads s)" "sp_target s ` busy_threads s = {..<(if queued then J - 1 else J)}"
    "\<And>t. t \<in> busy_threads s \<Longrightarrow> chain_stack xs J queued (sp_target s t) (sp_threads s ! t)"
    unfolding chain_inv_def by blast
  have t: "t < length (sp_threads s)" "sp_threads s ! t = []" and q: "queued" "k = 0"
    using st J(5) by (auto simp: take_task_def split: if_splits)
  have s': "s' = (set_stack t [FCall (drop (J - 1) xs)] s)\<lparr>sp_target := (sp_target s)(t := J - 1), sp_queue := []\<rparr>"
    using st J(5) q by (auto simp: take_task_def split: if_splits)
  have nb: "t \<notin> busy_threads s" using t by (simp add: busy_threads_def)
  have b: "busy_threads s' = insert t (busy_threads s)"
    using busy_set_stack [OF t(1), of "[FCall (drop (J - 1) xs)]"] by (simp add: s' busy_threads_def)
  have ta: "sp_target s' u = (if u = t then J - 1 else sp_target s u)" for u by (simp add: s')
  have old: "u \<in> busy_threads s \<Longrightarrow> sp_target s u < J - 1" for u using J(7) q by auto
  have "inj_on (sp_target s') (busy_threads s)"
    using J(6) nb by (auto simp: inj_on_def ta)
  moreover have "sp_target s' t \<notin> sp_target s' ` (busy_threads s - {t})"
    using old by (auto simp: ta) (metis less_irrefl)
  ultimately have inj: "inj_on (sp_target s') (busy_threads s')" unfolding b by simp
  have "sp_target s' ` busy_threads s' = insert (J - 1) (sp_target s ` busy_threads s)"
    using nb unfolding b by (auto simp: ta)
  also have "\<dots> = {..<J}" using J(4,7) q by auto
  finally have im: "sp_target s' ` busy_threads s' = {..<J}" .
  have st': "chain_stack xs J False (sp_target s' u) (sp_threads s' ! u)" if u: "u \<in> busy_threads s'" for u
  proof (cases "u = t")
    case True
    then show ?thesis using t J(4) by (simp add: chain_stack_def s' set_stack_def)
  next
    case False
    with u b have "u \<in> busy_threads s" by auto
    from J(8) [OF this] False q show ?thesis by (auto simp: chain_stack_def ta s' set_stack_def)
  qed
  have f: "length (sp_threads s') = Suc n" "\<And>f. sp_futures s' f = None" "length (sp_asked s') = J" "sp_queue s' = []"
    using J(1-3) by (simp_all add: s' set_stack_def)
  show ?thesis
    by (rule chain_invI [where J = J and queued = False]) (use f J(4) st' inj im in simp_all)
qed

lemma chain_inv_exec:
  "n < length xs \<Longrightarrow> sorted_wrt (>) xs \<Longrightarrow> chain_inv n xs s \<Longrightarrow> sort_exec e s = Some s' \<Longrightarrow> chain_inv n xs s'"
  by (cases e) (auto split: if_splits intro: chain_step chain_take)

lemma chain_inv_run:
  "n < length xs \<Longrightarrow> sorted_wrt (>) xs \<Longrightarrow> chain_inv n xs s \<Longrightarrow> run sort_exec es s = Some s' \<Longrightarrow> chain_inv n xs s'"
proof (induction es arbitrary: s)
  case (Cons e es)
  then obtain r where "sort_exec e s = Some r" "run sort_exec es r = Some s'" by (auto split: option.splits)
  with Cons chain_inv_exec show ?case by blast
qed simp

lemma chain_inv_init: "chain_inv n xs (sort_pool n xs)"
proof -
  have "busy_threads (sort_pool n xs) = {0}"
  proof -
    have "sp_threads (sort_pool n xs) ! t = (if t = 0 then [FCall xs] else [])" if "t < Suc n" for t
      using that by (cases t) (simp_all add: sort_pool_def)
    moreover have "length (sp_threads (sort_pool n xs)) = Suc n" by (simp add: sort_pool_def)
    ultimately show ?thesis by (auto simp: busy_threads_def split: if_splits)
  qed
  then show ?thesis
    by (intro chain_invI [where J = 1 and queued = False]) (auto simp: sort_pool_def chain_stack_def)
qed

text \<open>
  C35. The sorts hang on a pool with too few workers: a strictly descending list with more elements
  than the pool has workers is never returned sorted, by any schedule, since every worker ends
  up waiting for a task that no worker is left to run.
\<close>

theorem pool_sort_hangs:
  assumes "sorted_wrt (>) xs" "n < length xs" "run sort_exec es (sort_pool n xs) = Some s"
  shows "sp_futures s f = None"
  using chain_inv_run [OF assms(2,1) chain_inv_init assms(3)] by (simp add: chain_inv_def)

lemma pool_sort_hangs_witness:
  "\<exists>s. run sort_exec [SortStep 0, TakeTask 1 0, SortStep 1, SortStep 1, SortStep 1] (sort_pool 1 [2, 1 :: nat]) = Some s \<and>
     sp_futures s 0 = None"
proof -
  obtain s where s: "run sort_exec [SortStep 0, TakeTask 1 0, SortStep 1, SortStep 1, SortStep 1] (sort_pool 1 [2, 1 :: nat]) = Some s"
    by (simp add: sort_pool_def set_stack_def take_task_def divide_def Let_def)
  from pool_sort_hangs [OF _ _ s, of 0] s show ?thesis by simp
qed

end
