(* ===== verification/PoolForEach.thy ===== *)
theory PoolForEach
  imports ParAlgo
begin

text \<open>
  \<open>day22-ThreadPool/ParallenForeach.h\<close>: the parallel \<open>for_each\<close> on the thread pools. The blocks
  are those of \<open>parallen_for_each.h\<close> without the bound by the hardware threads, since a pool
  queues what it cannot run; the last block is the caller's. A pool runs the blocks in any
  interleaving, which \<open>each_step\<close> allows.
\<close>

definition pool_blocks :: "nat \<Rightarrow> (nat \<times> nat) list" where
  "pool_blocks len =
     (if len = 0 then []
      else let min_per_thread = 25;
               num_threads = (len + min_per_thread - 1) div min_per_thread;
               block_size = len div num_threads in
        spawn_blocks 0 block_size (num_threads - 1) len)"

text \<open>\<open>parallel_for_each\<close>, \<open>future_for_each\<close>, \<open>notify_for_each\<close> and \<open>simple_for_each\<close> start alike.\<close>

definition pool_for_each :: "'a list \<Rightarrow> 'a each" where
  "pool_for_each xs = \<lparr>arr = xs, tasks = pool_blocks (length xs)\<rparr>"

text \<open>
  The first three return when the caller's block is done and \<open>get()\<close> of every future has returned;
  \<open>simple_for_each\<close> sleeps for two seconds after the caller's block and returns.
\<close>

definition futures_got :: "'a each \<Rightarrow> bool" where
  "futures_got s \<longleftrightarrow> list_all (\<lambda>(p, e). p = e) (tasks s)"

definition slept :: "'a each \<Rightarrow> bool" where
  "slept s \<longleftrightarrow> (tasks s = [] \<or> fst (last (tasks s)) = snd (last (tasks s)))"

text \<open>
  \<open>recursion_for_each\<close>: the first half is one task of the pool, the second is the recursion; the
  halves are lists of their own. The mutex is local to each call and guards nothing.
\<close>

function recursion_for_each :: "('a \<Rightarrow> 'a) \<Rightarrow> 'a list \<Rightarrow> 'a list" where
  "recursion_for_each f xs =
     (let len = length xs; min_per_thread = 25 in
      if len = 0 then xs
      else if len < 2 * min_per_thread then map f xs
      else
        (let mid_point = len div 2; future = map f (take mid_point xs) in
         future @ recursion_for_each f (drop mid_point xs)))"
  by pat_completeness auto
termination by (relation "measure (\<lambda>(f, xs). length xs)") auto

declare recursion_for_each.simps [simp del]

lemma recursion_for_each_map: "recursion_for_each f xs = map f xs"
proof (induction f xs rule: recursion_for_each.induct)
  case (1 f xs)
  have "map f (take m xs) @ map f (drop m xs) = map f xs" for m
    by (simp flip: map_append)
  then show ?case using 1 by (subst recursion_for_each.simps) (auto simp: Let_def)
qed

lemma pool_blocks_blocks: "pool_blocks len = blocks (max_threads len) len"
  by (auto simp: pool_blocks_def blocks_def block_size_def num_threads_def max_threads_def Let_def)

lemma pool_each_inv: "each_inv f xs (pool_blocks (length xs)) (pool_for_each xs)"
  using blocks_tile [of "length xs" "max_threads (length xs)"] tiles_nth [OF blocks_tile]
  by (auto simp: each_inv_def pool_for_each_def pool_blocks_blocks)

text \<open>
  The versions with futures are right on every pool and in every interleaving: when all futures
  have been got, the function has been applied once to every element, as \<open>recursion_for_each\<close>
  does; until then some block has a step to take, and each step leaves less to do, so they
  return; and no iterator leaves the range.
\<close>

theorem pool_for_each_maps:
  assumes "run (each_step f) sched (pool_for_each xs) = Some s"
  shows "(futures_got s \<longrightarrow> arr s = map f xs \<and> recursion_for_each f xs = arr s) \<and>
    (\<not> futures_got s \<longrightarrow> (\<exists>i t. each_step f i s = Some t)) \<and>
    (\<forall>i t. each_step f i s = Some t \<longrightarrow> remaining t < remaining s)"
proof -
  have inv: "each_inv f xs (pool_blocks (length xs)) s"
    using assms by (rule each.run_inv [OF pool_each_inv])
  have fg: "futures_got s \<longleftrightarrow> finished s" by (auto simp: futures_got_def finished_def list_all_iff)
  have "\<exists>i t. each_step f i s = Some t" if "\<not> finished s"
  proof -
    obtain i where i: "i < length (tasks s)" "fst (tasks s ! i) \<noteq> snd (tasks s ! i)"
      using \<open>\<not> finished s\<close> by (auto simp: finished_def in_set_conv_nth)
    then have "fst (tasks s ! i) < length (arr s)"
      using inv tiles_nth [OF blocks_tile, of i "max_threads (length xs)" "length xs"]
      by (fastforce simp: each_inv_def pool_blocks_blocks)
    with i show ?thesis by (cases "tasks s ! i") (auto simp: each_step_Some)
  qed
  with fg each_finished [OF inv] remaining_step [OF inv] show ?thesis
    by (simp add: recursion_for_each_map)
qed

lemma pool_for_each_maps_witness:
  "\<exists>s.
     run (each_step (\<lambda>x :: int. x + 1)) [0, 0, 0] (pool_for_each [1, 2, 3]) = Some s \<and> arr s = [2, 3, 4]"
proof -
  have "\<exists>s. run (each_step (\<lambda>x :: int. x + 1)) [0, 0, 0] (pool_for_each [1, 2, 3]) = Some s \<and> futures_got s"
    by (simp add: pool_for_each_def pool_blocks_def each_step_def futures_got_def Let_def)
  then obtain s where s: "run (each_step (\<lambda>x :: int. x + 1)) [0, 0, 0] (pool_for_each [1, 2, 3]) = Some s" "futures_got s"
    by blast
  from pool_for_each_maps [OF s(1)] s show ?thesis by (auto simp: each_step_def)
qed

text \<open>\<open>simple_for_each\<close> may return with other blocks not even started.\<close>

lemma simple_for_each_returns_early:
  "\<exists>s. run (each_step (\<lambda>x :: int. x + 1)) (replicate 13 1) (pool_for_each (replicate 26 0)) = Some s \<and>
     slept s \<and> arr s = replicate 13 0 @ replicate 13 1"
proof -
  have "map_option (\<lambda>s. (slept s, arr s)) (run (each_step (\<lambda>x :: int. x + 1)) (replicate 13 1) (pool_for_each (replicate 26 0))) =
      Some (True, replicate 13 0 @ replicate 13 1)"
    by code_simp
  then show ?thesis by auto
qed

end
