(* ===== verification/Interrupt.thy ===== *)
theory Interrupt
  imports Prelude
begin

text \<open>
  Interruptible threads (\<open>src/Concurrent/day23-interupthread\<close>). First the wait on a
  \<open>condition_variable_any\<close>: one waiting thread, any number of threads that call \<open>set\<close>, step by
  step between their accesses to the flag and to \<open>set_clear_mutex\<close>. \<open>condition_variable_any\<close>
  gives up the lock and falls asleep in one step, as the standard requires.
\<close>

datatype waiter_pc =
    WaitCall           \<comment> \<open>about to lock \<open>set_clear_mutex\<close> in \<open>custom_lock\<close>\<close>
  | WaitFirst          \<comment> \<open>registered, before the first \<open>interruption_point\<close>\<close>
  | WaitSleepNow       \<comment> \<open>before \<open>cv.wait\<close>\<close>
  | WaitAsleep
  | WaitWoken          \<comment> \<open>about to take the locks again\<close>
  | WaitLast           \<comment> \<open>before the last \<open>interruption_point\<close>\<close>
  | WaitThrown         \<comment> \<open>left with \<open>thread_interrupted\<close>\<close>
  | WaitReturned

datatype setter_pc = SetCall | SetStored | SetLocked | SetDone

datatype lock_owner = Waiter | Setter nat

record interrupt_flag =
  if_flag :: bool
  if_cond_any :: bool                  \<comment> \<open>\<open>thread_cond_any\<close> is not null\<close>
  if_mutex :: "lock_owner option"      \<comment> \<open>\<open>set_clear_mutex\<close>\<close>
  if_waiter :: waiter_pc
  if_setter :: "nat \<Rightarrow> setter_pc"

definition interrupt_flag :: interrupt_flag where
  "interrupt_flag = \<lparr>if_flag = False, if_cond_any = False, if_mutex = None, if_waiter = WaitCall, if_setter = \<lambda>n. SetCall\<rparr>"

text \<open>\<open>interrupt_flag::wait\<close>; \<open>~custom_lock\<close> clears the pointer and gives the mutex back.\<close>

definition leave_wait :: "waiter_pc \<Rightarrow> interrupt_flag \<Rightarrow> interrupt_flag" where
  "leave_wait p s = s\<lparr>if_cond_any := False, if_mutex := None, if_waiter := p\<rparr>"

fun waiter_step :: "waiter_pc \<Rightarrow> interrupt_flag \<Rightarrow> interrupt_flag option" where
  "waiter_step WaitCall s =
     (if if_mutex s = None then Some (s\<lparr>if_mutex := Some Waiter, if_cond_any := True, if_waiter := WaitFirst\<rparr>) else None)"
| "waiter_step WaitFirst s =
     Some (if if_flag s then leave_wait WaitThrown s else s\<lparr>if_waiter := WaitSleepNow\<rparr>)"
| "waiter_step WaitSleepNow s = Some (s\<lparr>if_mutex := None, if_waiter := WaitAsleep\<rparr>)"
| "waiter_step WaitWoken s =
     (if if_mutex s = None then Some (s\<lparr>if_mutex := Some Waiter, if_waiter := WaitLast\<rparr>) else None)"
| "waiter_step WaitLast s = Some (leave_wait (if if_flag s then WaitThrown else WaitReturned) s)"
| "waiter_step _ s = None"

definition notify_waiter :: "interrupt_flag \<Rightarrow> interrupt_flag" where
  "notify_waiter s = (if if_waiter s = WaitAsleep then s\<lparr>if_waiter := WaitWoken\<rparr> else s)"

text \<open>\<open>interrupt_flag::set\<close> by thread \<open>n\<close>.\<close>

fun setter_step :: "nat \<Rightarrow> setter_pc \<Rightarrow> interrupt_flag \<Rightarrow> interrupt_flag option" where
  "setter_step n SetCall s = Some (s\<lparr>if_flag := True, if_setter := (if_setter s)(n := SetStored)\<rparr>)"
| "setter_step n SetStored s =
     (if if_mutex s = None then Some (s\<lparr>if_mutex := Some (Setter n), if_setter := (if_setter s)(n := SetLocked)\<rparr>) else None)"
| "setter_step n SetLocked s =
     (let s1 = (if if_cond_any s then notify_waiter s else s) in
      Some (s1\<lparr>if_mutex := None, if_setter := (if_setter s)(n := SetDone)\<rparr>))"
| "setter_step n SetDone s = None"

datatype if_event = IWaiter | ISetter nat | INotify

fun if_exec :: "if_event \<Rightarrow> interrupt_flag \<Rightarrow> interrupt_flag option" where
  "if_exec IWaiter s = waiter_step (if_waiter s) s"
| "if_exec (ISetter n) s = setter_step n (if_setter s n) s"
| "if_exec INotify s = Some (notify_waiter s)"

text \<open>
  The owner of the mutex is where it should be; a thread inside the wait is registered; the flag
  is set once a setter has stored it; and once a setter is done, the waiter does not sleep.
\<close>

definition if_inv :: "interrupt_flag \<Rightarrow> bool" where
  "if_inv s \<longleftrightarrow>
     (if_mutex s = Some Waiter \<longleftrightarrow> if_waiter s \<in> {WaitFirst, WaitSleepNow, WaitLast}) \<and>
     (\<forall>n. if_mutex s = Some (Setter n) \<longleftrightarrow> if_setter s n = SetLocked) \<and>
     (if_waiter s \<in> {WaitFirst, WaitSleepNow, WaitAsleep, WaitWoken, WaitLast} \<longrightarrow> if_cond_any s) \<and>
     (\<forall>n. if_setter s n \<noteq> SetCall \<longrightarrow> if_flag s) \<and>
     (\<forall>n. if_setter s n = SetDone \<longrightarrow> if_waiter s \<noteq> WaitSleepNow \<and> if_waiter s \<noteq> WaitAsleep)"

lemmas if_defs = if_inv_def leave_wait_def notify_waiter_def

lemma if_inv_waiter:
  assumes i: "if_inv s" and st: "waiter_step (if_waiter s) s = Some t"
  shows "if_inv t"
proof (cases "if_waiter s")
  case WaitFirst
  show ?thesis
  proof (cases "if_flag s")
    case True
    then have "t = leave_wait WaitThrown s" using WaitFirst st by simp
    then show ?thesis using i WaitFirst by (auto simp: if_defs)
  next
    case False
    then have "if_setter s n = SetCall" for n using i by (auto simp: if_inv_def)
    then show ?thesis using i st WaitFirst False by (auto simp: if_defs)
  qed
next
  case WaitLast
  then have "t = leave_wait (if if_flag s then WaitThrown else WaitReturned) s" using st by simp
  then show ?thesis using i WaitLast by (auto simp: if_defs)
qed (use i st in \<open>auto simp: if_inv_def split: if_splits\<close>)

lemma if_inv_setter:
  assumes i: "if_inv s" and st: "setter_step n (if_setter s n) s = Some t"
  shows "if_inv t"
proof (cases "if_setter s n")
  case SetCall
  have t: "t = s\<lparr>if_flag := True, if_setter := (if_setter s)(n := SetStored)\<rparr>" using st SetCall by simp
  have "if_mutex s = Some (Setter k) \<longleftrightarrow> if_setter s k = SetLocked" for k using i by (simp add: if_inv_def)
  from this [of n] show ?thesis using i SetCall unfolding if_inv_def t by (simp, blast)
next
  case SetStored
  then have m: "if_mutex s = None"
    and t: "t = s\<lparr>if_mutex := Some (Setter n), if_setter := (if_setter s)(n := SetLocked)\<rparr>"
    using st by (auto split: if_splits)
  have o: "if_setter s k \<noteq> SetLocked" and f: "if_flag s" for k using i SetStored m by (auto simp: if_inv_def)
  have w: "if_waiter s \<notin> {WaitFirst, WaitSleepNow, WaitLast}" using i m by (auto simp: if_inv_def)
  have c: "if_waiter s \<in> {WaitFirst, WaitSleepNow, WaitAsleep, WaitWoken, WaitLast} \<longrightarrow> if_cond_any s"
    using i unfolding if_inv_def by blast
  have d: "if_setter s k = SetDone \<Longrightarrow> if_waiter s \<noteq> WaitSleepNow \<and> if_waiter s \<noteq> WaitAsleep" for k
    using i unfolding if_inv_def by blast
  show ?thesis unfolding if_inv_def t using o f w c d by (simp, blast)
next
  case SetLocked
  have m: "if_mutex s = Some (Setter n)" using i SetLocked by (simp add: if_inv_def)
  then have w: "if_waiter s \<noteq> WaitFirst" "if_waiter s \<noteq> WaitSleepNow" "if_waiter s \<noteq> WaitLast"
    and o: "\<And>k. k \<noteq> n \<Longrightarrow> if_setter s k \<noteq> SetLocked"
    using i by (auto simp: if_inv_def)
  have c: "if_waiter s = WaitAsleep \<Longrightarrow> if_cond_any s" using i by (simp add: if_inv_def)
  let ?w = "if if_waiter s = WaitAsleep then WaitWoken else if_waiter s"
  have t: "t = s\<lparr>if_waiter := ?w, if_mutex := None, if_setter := (if_setter s)(n := SetDone)\<rparr>"
    using st SetLocked c by (auto simp: notify_waiter_def Let_def)
  have w': "?w \<notin> {WaitFirst, WaitSleepNow, WaitAsleep, WaitLast}" using w by simp
  have f: "if_flag s" using i SetLocked unfolding if_inv_def by (metis setter_pc.distinct(3))
  have c': "?w \<in> {WaitFirst, WaitSleepNow, WaitAsleep, WaitWoken, WaitLast} \<longrightarrow> if_cond_any s"
    using i unfolding if_inv_def by simp
  show ?thesis unfolding if_inv_def t using w' f c' o by (simp split del: if_split) (simp split: if_split)
next
  case SetDone
  then show ?thesis using st by simp
qed

lemma if_inv_exec: "if_inv s \<Longrightarrow> if_exec e s = Some t \<Longrightarrow> if_inv t"
proof (cases e)
  case INotify
  assume "if_inv s" "if_exec e s = Some t"
  with INotify show ?thesis by (auto simp: if_defs split: if_splits)
qed (auto intro: if_inv_waiter if_inv_setter)

interpretation intr: inv_machine if_exec if_inv
  by unfold_locales (rule if_inv_exec)

lemma if_inv_init: "if_inv interrupt_flag"
  by (simp add: if_inv_def interrupt_flag_def)

text \<open>
  C26. No interrupt is lost: once a call of \<open>set\<close> has returned, the waiting thread does not sleep
  and is not about to; if it is still in the wait, it leaves it with \<open>thread_interrupted\<close> at its
  next interruption point.
\<close>

theorem interrupt_not_lost:
  assumes "run if_exec es interrupt_flag = Some s" "if_setter s n = SetDone"
  shows "if_waiter s \<noteq> WaitAsleep \<and> if_waiter s \<noteq> WaitSleepNow \<and>
    (if_waiter s = WaitFirst \<or> if_waiter s = WaitLast \<longrightarrow> if_exec IWaiter s = Some (leave_wait WaitThrown s))"
proof -
  have "if_inv s" using intr.run_inv [OF if_inv_init assms(1)] .
  with assms(2) show ?thesis by (auto simp: if_inv_def)
qed

lemma interrupt_not_lost_witness:
  "\<exists>s. run if_exec [IWaiter, IWaiter, ISetter 0, IWaiter, ISetter 0, ISetter 0, IWaiter] interrupt_flag = Some s \<and>
     if_exec IWaiter s = Some (leave_wait WaitThrown s)"
proof -
  obtain s where s: "run if_exec [IWaiter, IWaiter, ISetter 0, IWaiter, ISetter 0, ISetter 0, IWaiter] interrupt_flag = Some s"
      "if_setter s 0 = SetDone" "if_waiter s = WaitLast"
    by (simp add: interrupt_flag_def notify_waiter_def Let_def)
  with interrupt_not_lost [OF s(1,2)] show ?thesis by blast
qed

section \<open>Waits with a timeout\<close>

text \<open>
  \<open>interruptible_wait\<close> with a predicate, and on a future: each round lasts a millisecond and then
  looks again. The argument is what the flag and the predicate are at each look; \<open>None\<close> is a
  wait that is still going on after all of them.
\<close>

datatype wait_result = Interrupted | Satisfied

definition wait_loop :: "(bool \<times> bool) list \<Rightarrow> bool option" where
  "wait_loop looks =
     (case dropWhile (\<lambda>(flag, pred). \<not> flag \<and> \<not> pred) looks of [] \<Rightarrow> None | (flag, pred) # _ \<Rightarrow> Some flag)"

definition interruptible_wait :: "bool \<Rightarrow> (bool \<times> bool) list \<Rightarrow> bool \<Rightarrow> wait_result option" where
  "interruptible_wait before looks after =
     (if before then Some Interrupted
      else (case wait_loop looks of None \<Rightarrow> None | Some flag \<Rightarrow> Some (if flag \<or> after then Interrupted else Satisfied)))"

text \<open>The wait ends with the first look that finds the flag or the predicate.\<close>

lemma interruptible_wait_ends:
  "(f, p) \<in> set looks \<Longrightarrow> f \<or> p \<Longrightarrow> interruptible_wait b looks a \<noteq> None"
  by (induction looks) (auto simp: interruptible_wait_def wait_loop_def)

lemma interruptible_wait_satisfied:
  "interruptible_wait b looks a = Some Satisfied \<Longrightarrow> \<exists>f. (f, True) \<in> set looks"
proof (induction looks)
  case (Cons x looks)
  then show ?case
    by (cases x) (auto simp: interruptible_wait_def wait_loop_def split: if_splits)
qed (simp add: interruptible_wait_def wait_loop_def split: if_splits)

text \<open>The version without a predicate returns after its one timed wait, notified or not.\<close>

definition interruptible_wait_once :: "bool \<Rightarrow> bool \<Rightarrow> bool \<Rightarrow> wait_result" where
  "interruptible_wait_once look1 look2 look3 = (if look1 \<or> look2 \<or> look3 then Interrupted else Satisfied)"

section \<open>The thread\<close>

text \<open>
  \<open>interruptible_thread\<close> keeps a plain pointer to the flag of the thread, a thread-local object
  that ends with the thread.
\<close>

record ithread =
  it_running :: bool
  it_flag :: bool

definition thread_interrupt :: "ithread \<Rightarrow> ithread res" where
  "thread_interrupt t = (if it_running t then Inr (t\<lparr>it_flag := True\<rparr>) else Inl UseAfterFree)"

definition thread_ends :: "ithread \<Rightarrow> ithread" where
  "thread_ends t = t\<lparr>it_running := False\<rparr>"

text \<open>
  \<open>main\<close> interrupts a thread whose wait may have timed out already: the flag is then used after
  its thread's storage has been freed.
\<close>

lemma interrupt_after_end: "thread_interrupt (thread_ends t) = Inl UseAfterFree"
  by (simp add: thread_interrupt_def thread_ends_def)

end
