(* ===== verification/AsycApi.thy ===== *)
theory AsycApi
  imports Prelude
begin

text \<open>
  The \<open>Session\<close> of \<open>src/Network/asycApi\<close>: writes with \<open>async_write_some\<close> and \<open>async_send\<close>, reads
  with \<open>async_read_some\<close>. Either kind of operation may transfer only a part. An operation tries
  the socket when it is started and takes what fits, \<open>k\<close> bytes; only if that is nothing does it
  read its buffer later. The handlers run one at a time.
\<close>

record anode =
  an_msg :: "byte list"     \<comment> \<open>\<open>_msg\<close>, of \<open>_total_len\<close> bytes\<close>
  an_cur :: nat             \<comment> \<open>\<open>_cur_len\<close>\<close>

definition an_total :: "anode \<Rightarrow> nat" where
  "an_total n = length (an_msg n)"

definition an_node :: "byte list \<Rightarrow> anode" where
  "an_node buf = \<lparr>an_msg = buf, an_cur = 0\<rparr>"

section \<open>The queue of messages\<close>

text \<open>
  The outstanding write: it has transferred \<open>n\<close> bytes and its handler is to come, or it waits
  for room with a buffer inside the first node, or with the string argument of \<open>WriteToSocket\<close>,
  which is dead once the function has returned.
\<close>

datatype awrite = ADone nat | AWaitNode | AWaitString

record asess =
  as_queue :: "anode list"          \<comment> \<open>\<open>_send_queue\<close>\<close>
  as_pending :: bool                \<comment> \<open>\<open>_send_pending\<close>\<close>
  as_op :: "awrite option"
  as_wire :: "byte list"            \<comment> \<open>what the peer gets\<close>
  as_posted :: "byte list list"     \<comment> \<open>the messages given to \<open>WriteToSocket\<close>\<close>
  as_error :: "cpp_error option"

definition asess :: asess where
  "asess = \<lparr>as_queue = [], as_pending = False, as_op = None, as_wire = [], as_posted = [], as_error = None\<rparr>"

text \<open>\<open>WriteToSocket\<close>; the socket takes \<open>k\<close> bytes at once (an empty message completes at once).\<close>

definition WriteToSocket :: "byte list \<Rightarrow> nat \<Rightarrow> asess \<Rightarrow> asess" where
  "WriteToSocket buf k s =
     (let s1 = s\<lparr>as_queue := as_queue s @ [an_node buf], as_posted := as_posted s @ [buf]\<rparr> in
      if as_pending s1 then s1
      else s1\<lparr>as_op := Some (if k = 0 \<and> buf \<noteq> [] then AWaitString else ADone (min k (length buf))),
              as_wire := as_wire s1 @ take k buf, as_pending := True\<rparr>)"

text \<open>The buffer of the first node from its position on.\<close>

definition node_rest :: "anode \<Rightarrow> byte list" where
  "node_rest n = drop (an_cur n) (an_msg n)"

definition write_node :: "asess \<Rightarrow> asess" where
  "write_node s = s\<lparr>as_op := Some (if node_rest (hd (as_queue s)) = [] then ADone 0 else AWaitNode)\<rparr>"

text \<open>\<open>WriteCallback\<close> without and with an error.\<close>

definition WriteCallback :: "nat \<Rightarrow> asess \<Rightarrow> asess" where
  "WriteCallback n s =
     (case as_queue s of
        [] \<Rightarrow> s\<lparr>as_error := Some EmptyContainer\<rparr>
      | d # q \<Rightarrow>
          let d1 = d\<lparr>an_cur := an_cur d + n\<rparr> in
          if an_cur d1 < an_total d1 then write_node (s\<lparr>as_queue := d1 # q\<rparr>)
          else let s1 = s\<lparr>as_queue := q\<rparr> in
            if q = [] then s1\<lparr>as_pending := False\<rparr> else write_node s1)"

text \<open>A waiting operation transfers \<open>n\<close> bytes when the socket has room.\<close>

definition transfer :: "nat \<Rightarrow> asess \<Rightarrow> asess option" where
  "transfer n s =
     (case as_op s of
        Some AWaitNode \<Rightarrow>
          (let r = node_rest (hd (as_queue s)) in
           if n = 0 \<or> n > length r then None
           else Some (s\<lparr>as_op := Some (ADone n), as_wire := as_wire s @ take n r\<rparr>))
      | Some AWaitString \<Rightarrow> Some (s\<lparr>as_op := None, as_error := Some UseAfterFree\<rparr>)
      | _ \<Rightarrow> None)"

datatype as_event = AWrite "byte list" nat | ATransfer nat | AHandler | AFail

fun as_exec :: "as_event \<Rightarrow> asess \<Rightarrow> asess option" where
  "as_exec (AWrite buf k) s = Some (WriteToSocket buf k s)"
| "as_exec (ATransfer n) s = transfer n s"
| "as_exec AHandler s =
     (case as_op s of Some (ADone n) \<Rightarrow> Some (WriteCallback n (s\<lparr>as_op := None\<rparr>)) | _ \<Rightarrow> None)"
| "as_exec AFail s = (if as_op s = None then None else Some (s\<lparr>as_op := None\<rparr>))"

subsection \<open>The wire\<close>

text \<open>
  What has been sent is all messages but those in the queue, and of the first of these what its
  node and the outstanding operation say.
\<close>

definition done_of :: "asess \<Rightarrow> nat" where
  "done_of s = (case as_op s of Some (ADone n) \<Rightarrow> n | _ \<Rightarrow> 0)"

definition as_inv :: "asess \<Rightarrow> bool" where
  "as_inv s \<longleftrightarrow>
     (\<exists>fin. as_posted s = fin @ map an_msg (as_queue s) \<and>
       (case as_queue s of
          [] \<Rightarrow> as_wire s = concat fin \<and> \<not> as_pending s \<and> as_op s = None
        | d # q \<Rightarrow> as_wire s = concat fin @ take (an_cur d + done_of s) (an_msg d) \<and>
            an_cur d + done_of s \<le> an_total d \<and> list_all (\<lambda>n. an_cur n = 0) q \<and> as_pending s \<and>
            (as_op s = Some AWaitString \<longrightarrow> an_cur d = 0)))"

lemma as_inv_init: "as_inv asess"
  by (simp add: as_inv_def asess_def)

lemma as_inv_write: "as_inv s \<Longrightarrow> as_inv (WriteToSocket buf k s)"
proof -
  assume "as_inv s"
  then obtain fin where f: "as_posted s = fin @ map an_msg (as_queue s)"
     "case as_queue s of
          [] \<Rightarrow> as_wire s = concat fin \<and> \<not> as_pending s \<and> as_op s = None
        | d # q \<Rightarrow> as_wire s = concat fin @ take (an_cur d + done_of s) (an_msg d) \<and>
            an_cur d + done_of s \<le> an_total d \<and> list_all (\<lambda>n. an_cur n = 0) q \<and> as_pending s \<and>
            (as_op s = Some AWaitString \<longrightarrow> an_cur d = 0)"
    unfolding as_inv_def by blast
  show ?thesis
    unfolding as_inv_def
    by (rule exI [of _ fin])
       (use f in \<open>auto simp: WriteToSocket_def an_node_def an_total_def done_of_def Let_def min_def split: list.splits\<close>)
qed

lemma as_inv_transfer: "as_inv s \<Longrightarrow> transfer n s = Some t \<Longrightarrow> as_error t = None \<Longrightarrow> as_inv t"
  unfolding as_inv_def transfer_def
  by (auto simp: Let_def done_of_def node_rest_def an_total_def take_add split: option.splits awrite.splits if_splits list.splits)

lemma as_inv_handler:
  assumes i: "as_inv s" and op: "as_op s = Some (ADone n)"
  shows "as_inv (WriteCallback n (s\<lparr>as_op := None\<rparr>))"
proof -
  from i op obtain fin d q where q: "as_queue s = d # q" and f: "as_posted s = fin @ map an_msg (d # q)"
     "as_wire s = concat fin @ take (an_cur d + n) (an_msg d)" "an_cur d + n \<le> an_total d"
     "list_all (\<lambda>n. an_cur n = 0) q" "as_pending s"
    unfolding as_inv_def done_of_def by (cases "as_queue s") auto
  show ?thesis
  proof (cases "an_cur d + n < an_total d")
    case True
    show ?thesis
      unfolding as_inv_def
      by (rule exI [of _ fin])
         (use q f True in \<open>auto simp: WriteCallback_def write_node_def done_of_def an_total_def node_rest_def Let_def\<close>)
  next
    case False
    show ?thesis
      unfolding as_inv_def
      by (rule exI [of _ "fin @ [an_msg d]"])
         (use q f False in \<open>auto simp: WriteCallback_def write_node_def done_of_def an_total_def node_rest_def Let_def
            split: list.splits\<close>)
  qed
qed

definition no_failure :: "as_event list \<Rightarrow> bool" where
  "no_failure es \<longleftrightarrow> AFail \<notin> set es"

lemma as_error_stays: "as_exec e s = Some t \<Longrightarrow> as_error t = None \<Longrightarrow> as_error s = None"
  by (cases e)
    (auto simp: WriteToSocket_def transfer_def WriteCallback_def write_node_def Let_def
      split: if_splits option.splits awrite.splits list.splits)

lemma as_inv_exec: "as_inv s \<Longrightarrow> as_exec e s = Some t \<Longrightarrow> as_error t = None \<Longrightarrow> e \<noteq> AFail \<Longrightarrow> as_inv t"
  by (cases e) (auto split: option.splits awrite.splits intro: as_inv_write as_inv_transfer as_inv_handler)

lemma as_run_error: "run as_exec es s = Some t \<Longrightarrow> as_error t = None \<Longrightarrow> as_error s = None"
  by (induction es arbitrary: s) (auto split: option.splits dest: as_error_stays)

lemma as_run_inv:
  "as_inv s \<Longrightarrow> run as_exec es s = Some t \<Longrightarrow> as_error t = None \<Longrightarrow> no_failure es \<Longrightarrow> as_inv t"
proof (induction es arbitrary: s)
  case (Cons e es)
  then obtain r where r: "as_exec e s = Some r" "run as_exec es r = Some t" by (auto split: option.splits)
  have "as_inv r"
    using as_inv_exec [OF Cons.prems(1) r(1) as_run_error [OF r(2) Cons.prems(3)]] Cons.prems(4)
    by (auto simp: no_failure_def)
  with Cons r(2) show ?case by (auto simp: no_failure_def)
qed simp

text \<open>
  C33. \<open>WriteToSocket\<close> sends the messages whole, in order and without gaps, however the socket cuts
  its transfers: without failures, and as long as no operation reads a dead buffer, the wire is
  a prefix of the messages one after the other, and all of them once the queue is empty.
\<close>

theorem asyc_writes_in_order:
  assumes "run as_exec es asess = Some s" "as_error s = None" "no_failure es"
  shows "(\<exists>k. as_wire s = take k (concat (as_posted s))) \<and>
    (as_queue s = [] \<longrightarrow> as_wire s = concat (as_posted s) \<and> \<not> as_pending s)"
proof -
  from as_run_inv [OF as_inv_init assms] obtain fin where f: "as_posted s = fin @ map an_msg (as_queue s)"
     "case as_queue s of
          [] \<Rightarrow> as_wire s = concat fin \<and> \<not> as_pending s \<and> as_op s = None
        | d # q \<Rightarrow> as_wire s = concat fin @ take (an_cur d + done_of s) (an_msg d) \<and>
            an_cur d + done_of s \<le> an_total d \<and> list_all (\<lambda>n. an_cur n = 0) q \<and> as_pending s \<and>
            (as_op s = Some AWaitString \<longrightarrow> an_cur d = 0)"
    unfolding as_inv_def by blast
  show ?thesis
  proof (cases "as_queue s")
    case Nil
    with f have w: "as_wire s = concat (as_posted s)" "\<not> as_pending s" by simp_all
    then have "as_wire s = take (length (concat (as_posted s))) (concat (as_posted s))" by simp
    with w show ?thesis by blast
  next
    case (Cons d q)
    with f have "as_wire s = take (length (concat fin) + (an_cur d + done_of s)) (concat (as_posted s))"
      by (simp add: an_total_def)
    then have "\<exists>k. as_wire s = take k (concat (as_posted s))" by (rule exI)
    then show ?thesis using Cons by simp
  qed
qed

lemma asyc_writes_in_order_witness:
  "\<exists>s. run as_exec [AWrite [1, 2, 3] 2, AWrite [4, 5] 0, AHandler, ATransfer 1, AHandler, ATransfer 2, AHandler] asess = Some s \<and>
     as_wire s = concat (as_posted s) \<and> as_posted s = [[1, 2, 3], [4, 5]]"
proof -
  define es where "es = [AWrite [1, 2, 3] 2, AWrite [4, 5] 0, AHandler, ATransfer 1, AHandler, ATransfer 2, AHandler]"
  have "map_option (\<lambda>s. (as_error s, as_queue s, as_posted s)) (run as_exec es asess) = Some (None, [], [[1, 2, 3], [4, 5]])"
    by (simp add: es_def asess_def WriteToSocket_def WriteCallback_def write_node_def transfer_def node_rest_def an_total_def
        an_node_def Let_def)
  then obtain s where s: "run as_exec es asess = Some s" "as_error s = None" "as_queue s = []" "as_posted s = [[1, 2, 3], [4, 5]]"
    by auto
  have "no_failure es" by (simp add: no_failure_def es_def)
  from asyc_writes_in_order [OF s(1,2) this] s show ?thesis unfolding es_def by blast
qed

subsection \<open>What goes wrong\<close>

text \<open>If the socket has no room for the first message, the operation reads the dead string later.\<close>

lemma dead_string_read:
  "buf \<noteq> [] \<Longrightarrow> \<exists>s. run as_exec [AWrite buf 0, ATransfer n] asess = Some s \<and> as_error s = Some UseAfterFree"
  by (simp add: asess_def WriteToSocket_def transfer_def)

text \<open>After a failed write \<open>_send_pending\<close> stays set: every later message is queued and none is sent.\<close>

lemma failure_blocks_run:
  "as_pending s \<Longrightarrow> as_op s = None \<Longrightarrow> run as_exec es s = Some t \<Longrightarrow> as_wire t = as_wire s \<and> as_pending t"
proof (induction es arbitrary: s)
  case (Cons e es)
  show ?case
  proof (cases e)
    case (AWrite buf k)
    with Cons.prems Cons.IH [of "WriteToSocket buf k s"] show ?thesis by (simp add: WriteToSocket_def Let_def)
  qed (use Cons.prems in \<open>auto simp: transfer_def\<close>)
qed simp

section \<open>Writes without the queue\<close>

text \<open>
  \<open>WriteToSocketErr\<close> and \<open>WriteCallbackErr\<close>: each write has its own node, but the callback goes
  on with the newest one. Nodes are numbered; an operation is the node of its callback, and the
  bytes it still has to transfer. Several may be outstanding; \<open>i\<close> says which one completes.
\<close>

record err_sess =
  es_nodes :: "anode list"
  es_send :: nat                         \<comment> \<open>\<open>_send_node\<close>\<close>
  es_ops :: "(nat \<times> byte list) list"
  es_wire :: "byte list"

definition err_sess :: err_sess where
  "err_sess = \<lparr>es_nodes = [], es_send = 0, es_ops = [], es_wire = []\<rparr>"

definition WriteToSocketErr :: "byte list \<Rightarrow> err_sess \<Rightarrow> err_sess" where
  "WriteToSocketErr buf s =
     (let i = length (es_nodes s) in
      s\<lparr>es_nodes := es_nodes s @ [an_node buf], es_send := i, es_ops := es_ops s @ [(i, buf)]\<rparr>)"

definition WriteCallbackErr :: "nat \<Rightarrow> nat \<Rightarrow> err_sess \<Rightarrow> err_sess" where
  "WriteCallbackErr n i s =
     (if n + an_cur (es_nodes s ! i) < an_total (es_nodes s ! i)
      then let j = es_send s; d = es_nodes s ! j; d1 = d\<lparr>an_cur := an_cur d + n\<rparr> in
        s\<lparr>es_nodes := (es_nodes s)[j := d1], es_ops := es_ops s @ [(j, node_rest d1)]\<rparr>
      else s)"

datatype es_event = EWrite "byte list" | EDone nat nat

fun es_exec :: "es_event \<Rightarrow> err_sess \<Rightarrow> err_sess option" where
  "es_exec (EWrite buf) s = Some (WriteToSocketErr buf s)"
| "es_exec (EDone k n) s =
     (if k < length (es_ops s) \<and> n \<le> length (snd (es_ops s ! k)) then
        (let (i, r) = es_ops s ! k in
         Some (WriteCallbackErr n i
           (s\<lparr>es_ops := take k (es_ops s) @ drop (Suc k) (es_ops s), es_wire := es_wire s @ take n r\<rparr>)))
      else None)"

text \<open>One message at a time is sent whole; two at a time lose bytes and send others twice.\<close>

lemma err_write_interleaves:
  "\<exists>s. run es_exec [EWrite [1, 2], EWrite [3, 4], EDone 0 1, EDone 0 2, EDone 0 1] err_sess = Some s \<and>
     es_ops s = [] \<and> es_wire s = [1, 3, 4, 4]"
  by (simp add: err_sess_def WriteToSocketErr_def WriteCallbackErr_def an_node_def an_total_def node_rest_def Let_def)

lemma err_single_step:
  assumes "es_nodes s = [d]" "es_send s = 0" "es_ops s = [(0, node_rest d)]"
    and "es_wire s = take (an_cur d) (an_msg d)" "0 < n" "n \<le> length (node_rest d)" "es_exec (EDone 0 n) s = Some t"
  shows "\<exists>d'. es_nodes t = [d'] \<and> es_send t = 0 \<and> an_msg d' = an_msg d \<and>
    (es_ops t = [(0, node_rest d')] \<and> es_wire t = take (an_cur d') (an_msg d) \<or> es_ops t = [] \<and> es_wire t = an_msg d)"
  using assms by (auto simp: WriteCallbackErr_def an_total_def node_rest_def Let_def take_add split: if_splits)

section \<open>Reading\<close>

record recv_state =
  rs_node :: "nat option"     \<comment> \<open>\<open>_cur_len\<close> of \<open>_recv_node\<close>, if there is one\<close>
  rs_pending :: bool
  rs_asked :: nat             \<comment> \<open>bytes the outstanding read may deliver, 0 if there is none\<close>

definition RECVSIZE :: nat where
  "RECVSIZE = 1024"

definition recv_state :: recv_state where
  "recv_state = \<lparr>rs_node = None, rs_pending = False, rs_asked = 0\<rparr>"

definition ReadFromSocket :: "recv_state \<Rightarrow> recv_state" where
  "ReadFromSocket s =
     (if rs_pending s then s else \<lparr>rs_node = Some 0, rs_pending = True, rs_asked = RECVSIZE\<rparr>)"

text \<open>\<open>ReadCallback\<close> does not look at the error code; a read that failed has transferred nothing.\<close>

definition ReadCallback :: "nat \<Rightarrow> recv_state \<Rightarrow> recv_state res" where
  "ReadCallback n s =
     (case rs_node s of
        None \<Rightarrow> Inl NullDeref
      | Some cur \<Rightarrow>
          let c = cur + n in
          if c < RECVSIZE then Inr (s\<lparr>rs_node := Some c, rs_asked := RECVSIZE - c\<rparr>)
          else Inr (s\<lparr>rs_node := None, rs_pending := False, rs_asked := 0\<rparr>))"

definition ReadAllCallback :: "nat \<Rightarrow> recv_state \<Rightarrow> recv_state res" where
  "ReadAllCallback n s =
     (case rs_node s of None \<Rightarrow> Inl NullDeref
      | Some cur \<Rightarrow> Inr (s\<lparr>rs_node := None, rs_pending := False, rs_asked := 0\<rparr>))"

definition recv_ok :: "recv_state \<Rightarrow> bool" where
  "recv_ok s \<longleftrightarrow> (case rs_node s of None \<Rightarrow> \<not> rs_pending s \<and> rs_asked s = 0
     | Some c \<Rightarrow> rs_pending s \<and> c < RECVSIZE \<and> rs_asked s = RECVSIZE - c)"

fun recv_run :: "nat list \<Rightarrow> recv_state \<Rightarrow> recv_state res" where
  "recv_run [] s = Inr s"
| "recv_run (n # ns) s = (if n \<le> rs_asked s then rbind (ReadCallback n s) (recv_run ns) else Inl OutOfBounds)"

lemma recv_full:
  "recv_ok s \<Longrightarrow> rs_node s = Some c \<Longrightarrow> list_all ((<) 0) ns \<Longrightarrow> sum_list ns = RECVSIZE - c \<Longrightarrow>
   recv_run ns s = Inr (s\<lparr>rs_node := None, rs_pending := False, rs_asked := 0\<rparr>)"
proof (induction ns arbitrary: s c)
  case Nil
  then show ?case by (simp add: recv_ok_def)
next
  case (Cons n ns)
  have n: "n \<le> rs_asked s" "0 < n" using Cons.prems by (auto simp: recv_ok_def)
  show ?case
  proof (cases "c + n < RECVSIZE")
    case True
    define s1 where "s1 = s\<lparr>rs_node := Some (c + n), rs_asked := RECVSIZE - (c + n)\<rparr>"
    have "recv_run ns s1 = Inr (s1\<lparr>rs_node := None, rs_pending := False, rs_asked := 0\<rparr>)"
      by (rule Cons.IH [of s1 "c + n"]) (use Cons.prems True in \<open>auto simp: s1_def recv_ok_def\<close>)
    with n Cons.prems True show ?thesis by (simp add: ReadCallback_def Let_def s1_def)
  next
    case False
    with Cons.prems have "n + sum_list ns = RECVSIZE - c" "RECVSIZE - c \<le> n" "n \<le> RECVSIZE - c"
      using n by (simp_all add: recv_ok_def)
    then have "sum_list ns = 0" by linarith
    with Cons.prems have "ns = []" by (cases ns) auto
    with n Cons.prems False show ?thesis by (simp add: ReadCallback_def Let_def)
  qed
qed

text \<open>A connection that has ended is read again and again: each failed read starts the next one.\<close>

lemma failed_read_repeats:
  "recv_ok s \<Longrightarrow> rs_node s = Some c \<Longrightarrow> recv_run (replicate k 0) s = Inr s"
proof (induction k)
  case (Suc k)
  then have "ReadCallback 0 s = Inr s" by (simp add: ReadCallback_def recv_ok_def)
  with Suc show ?case by simp
qed simp

text \<open>
  \<open>ReadFromSocket\<close> gathers exactly \<open>RECVSIZE\<close> bytes, in whatever pieces they come, and is then
  ready for the next call; but a read that fails is repeated without end, the session never
  becoming idle, because the callback ignores the error.
\<close>

theorem asyc_read_gathers:
  "(list_all ((<) 0) ns \<and> sum_list ns = RECVSIZE \<longrightarrow> recv_run ns (ReadFromSocket recv_state) = Inr recv_state) \<and>
   recv_run (replicate k 0) (ReadFromSocket recv_state) = Inr (ReadFromSocket recv_state)"
proof -
  define s where "s = ReadFromSocket recv_state"
  have s: "recv_ok s" "rs_node s = Some 0" "s\<lparr>rs_node := None, rs_pending := False, rs_asked := 0\<rparr> = recv_state"
    by (simp_all add: s_def ReadFromSocket_def recv_state_def recv_ok_def RECVSIZE_def)
  show ?thesis
    using recv_full [OF s(1,2), of ns] failed_read_repeats [OF s(1,2), of k] s(3)
    by (simp add: s_def [symmetric])
qed

lemma asyc_read_gathers_witness:
  "recv_run [1000, 24] (ReadFromSocket recv_state) = Inr recv_state"
  using asyc_read_gathers [of "[1000, 24]" 0] by (simp add: RECVSIZE_def)

end
