(* ===== verification/WebSocket.thy ===== *)
theory WebSocket
  imports Prelude
begin

text \<open>
  A \<open>Connection\<close> of \<open>src/Network/beast_websocket\<close>: it echoes each message it reads, through a
  queue of messages of which one is being written, and it stands in the table of
  \<open>ConnectionMgr\<close>. The handlers of a connection run one after the other (its stream is on a
  strand); \<open>AsyncSend\<close> may also be called from elsewhere. An asynchronous operation is a field
  that says what is outstanding; its completion is an event. The payload of a write is taken to
  have been copied when \<open>AsyncSend\<close> returns, although the buffer is the argument, which dies then.
\<close>

record 'a connection =
  ws_que :: "'a list"               \<comment> \<open>\<open>_send_que\<close>\<close>
  ws_writing :: "'a option"         \<comment> \<open>the message of the outstanding \<open>async_write\<close>\<close>
  ws_overlap :: bool                \<comment> \<open>an \<open>async_write\<close> was started during another one\<close>
  ws_reading :: bool                \<comment> \<open>an \<open>async_read\<close> is outstanding\<close>
  ws_received :: "'a list"
  ws_written :: "'a list"           \<comment> \<open>messages whose write has completed\<close>

record 'a ws_state =
  ws_conn :: "'a connection"
  ws_table :: "string \<Rightarrow> bool"     \<comment> \<open>the keys of \<open>_map_conns\<close>\<close>
  ws_accepted :: bool

definition new_connection :: "'a connection" where
  "new_connection = \<lparr>ws_que = [], ws_writing = None, ws_overlap = False, ws_reading = False,
     ws_received = [], ws_written = []\<rparr>"

text \<open>\<open>ConnectionMgr\<close>.\<close>

definition AddConnection :: "string \<Rightarrow> (string \<Rightarrow> bool) \<Rightarrow> (string \<Rightarrow> bool)" where
  "AddConnection uuid m = m(uuid := True)"

definition RemoveConnection :: "string \<Rightarrow> (string \<Rightarrow> bool) \<Rightarrow> (string \<Rightarrow> bool)" where
  "RemoveConnection uuid m = (if m uuid then m(uuid := False) else m)"

text \<open>\<open>AsyncSend\<close>: only a message that finds the queue empty starts a write.\<close>

definition start_write :: "'a \<Rightarrow> 'a connection \<Rightarrow> 'a connection" where
  "start_write msg c =
     c\<lparr>ws_overlap := ws_overlap c \<or> ws_writing c \<noteq> None, ws_writing := Some msg\<rparr>"

definition AsyncSend :: "'a \<Rightarrow> 'a connection \<Rightarrow> 'a connection" where
  "AsyncSend msg c =
     (let que_len = length (ws_que c); c1 = c\<lparr>ws_que := ws_que c @ [msg]\<rparr> in
      if que_len > 0 then c1 else start_write msg c1)"

text \<open>The handler of the write, without an error.\<close>

definition write_done :: "'a connection \<Rightarrow> 'a connection" where
  "write_done c =
     (let c1 = c\<lparr>ws_que := tl (ws_que c)\<rparr> in
      if ws_que c1 = [] then c1 else AsyncSend (hd (ws_que c1)) c1)"

text \<open>The handler of the read: echo the message, then read again.\<close>

definition read_done :: "'a \<Rightarrow> 'a connection \<Rightarrow> 'a connection" where
  "read_done msg c =
     (AsyncSend msg (c\<lparr>ws_received := ws_received c @ [msg], ws_reading := False\<rparr>))\<lparr>ws_reading := True\<rparr>"

datatype 'a ws_event =
    WsAccept | WsRead 'a | WsReadError | WsWritten | WsWriteError | WsSend 'a

fun ws_exec :: "string \<Rightarrow> 'a ws_event \<Rightarrow> 'a ws_state \<Rightarrow> 'a ws_state option" where
  "ws_exec u WsAccept s =
     (if ws_accepted s then None
      else Some (s\<lparr>ws_accepted := True, ws_conn := (ws_conn s)\<lparr>ws_reading := True\<rparr>,
             ws_table := AddConnection u (ws_table s)\<rparr>))"
| "ws_exec u (WsRead msg) s =
     (if \<not> ws_reading (ws_conn s) then None else Some (s\<lparr>ws_conn := read_done msg (ws_conn s)\<rparr>))"
| "ws_exec u WsReadError s =
     (if \<not> ws_reading (ws_conn s) then None
      else Some (s\<lparr>ws_conn := (ws_conn s)\<lparr>ws_reading := False\<rparr>, ws_table := RemoveConnection u (ws_table s)\<rparr>))"
| "ws_exec u WsWritten s =
     (case ws_writing (ws_conn s) of
        None \<Rightarrow> None
      | Some msg \<Rightarrow> Some (s\<lparr>ws_conn :=
             write_done ((ws_conn s)\<lparr>ws_writing := None, ws_written := ws_written (ws_conn s) @ [msg]\<rparr>)\<rparr>))"
| "ws_exec u WsWriteError s =
     (case ws_writing (ws_conn s) of
        None \<Rightarrow> None
      | Some msg \<Rightarrow> Some (s\<lparr>ws_conn := (ws_conn s)\<lparr>ws_writing := None\<rparr>, ws_table := RemoveConnection u (ws_table s)\<rparr>))"
| "ws_exec u (WsSend msg) s = (if ws_accepted s then Some (s\<lparr>ws_conn := AsyncSend msg (ws_conn s)\<rparr>) else None)"

definition ws_init :: "'a ws_state" where
  "ws_init = \<lparr>ws_conn = new_connection, ws_table = \<lambda>u. False, ws_accepted = False\<rparr>"

section \<open>One write at a time\<close>

text \<open>
  The message that is being written is the first of the queue; a queue without a write is never
  served again, so the connection is either empty, or writing, or stalled.
\<close>

definition conn_inv :: "'a connection \<Rightarrow> bool" where
  "conn_inv c \<longleftrightarrow> \<not> ws_overlap c \<and>
     (case ws_writing c of None \<Rightarrow> True | Some m \<Rightarrow> ws_que c \<noteq> [] \<and> hd (ws_que c) = m)"

definition ws_inv :: "'a ws_state \<Rightarrow> bool" where
  "ws_inv s \<longleftrightarrow> conn_inv (ws_conn s)"

lemma AsyncSend_inv: "conn_inv c \<Longrightarrow> conn_inv (AsyncSend m c)"
  by (auto simp: conn_inv_def AsyncSend_def start_write_def Let_def split: option.splits)

lemma write_done_inv: "conn_inv c \<Longrightarrow> ws_writing c = None \<Longrightarrow> conn_inv (write_done c)"
proof -
  assume c: "conn_inv c" "ws_writing c = None"
  then have "conn_inv (c\<lparr>ws_que := tl (ws_que c)\<rparr>)" by (simp add: conn_inv_def)
  from this AsyncSend_inv [OF this] show ?thesis by (cases "tl (ws_que c) = []") (simp_all add: write_done_def Let_def)
qed

lemma conn_inv_same:
  "conn_inv c \<Longrightarrow> ws_que d = ws_que c \<Longrightarrow> ws_writing d = ws_writing c \<or> ws_writing d = None \<Longrightarrow> ws_overlap d = ws_overlap c
   \<Longrightarrow> conn_inv d"
  by (cases "ws_writing c") (auto simp: conn_inv_def)

lemma ws_inv_exec: "ws_inv s \<Longrightarrow> ws_exec u e s = Some t \<Longrightarrow> ws_inv t"
proof (cases e)
  case (WsRead msg)
  assume i: "ws_inv s" and st: "ws_exec u e s = Some t"
  define c where "c = (ws_conn s)\<lparr>ws_received := ws_received (ws_conn s) @ [msg], ws_reading := False\<rparr>"
  have "conn_inv c" using i by (auto simp: ws_inv_def c_def intro: conn_inv_same)
  then have "conn_inv (AsyncSend msg c)" by (rule AsyncSend_inv)
  with WsRead st show ?thesis
    by (auto simp: ws_inv_def read_done_def c_def [symmetric] split: if_splits intro: conn_inv_same)
next
  case WsWritten
  assume i: "ws_inv s" and st: "ws_exec u e s = Some t"
  from WsWritten st obtain m where m: "ws_writing (ws_conn s) = Some m"
    and t: "t = s\<lparr>ws_conn := write_done ((ws_conn s)\<lparr>ws_writing := None, ws_written := ws_written (ws_conn s) @ [m]\<rparr>)\<rparr>"
    by (auto split: option.splits)
  have "conn_inv ((ws_conn s)\<lparr>ws_writing := None, ws_written := ws_written (ws_conn s) @ [m]\<rparr>)"
    using i by (auto simp: ws_inv_def intro: conn_inv_same)
  then show ?thesis unfolding t ws_inv_def by (simp add: write_done_inv)
next
  case (WsSend msg)
  assume "ws_inv s" "ws_exec u e s = Some t"
  with WsSend show ?thesis by (auto simp: ws_inv_def AsyncSend_inv split: if_splits)
qed (auto simp: ws_inv_def split: if_splits option.splits intro: conn_inv_same)

interpretation wsock: inv_machine "ws_exec u" ws_inv
  by unfold_locales (rule ws_inv_exec)

lemma ws_inv_init: "ws_inv ws_init"
  by (simp add: ws_inv_def ws_init_def conn_inv_def new_connection_def)

section \<open>Echoes\<close>

lemma echo_step:
  "ws_reading (ws_conn s) \<Longrightarrow> ws_que (ws_conn s) = [] \<Longrightarrow> ws_writing (ws_conn s) = None \<Longrightarrow>
   \<exists>t. run (ws_exec u) [WsRead m, WsWritten] s = Some t \<and> ws_reading (ws_conn t) \<and> ws_que (ws_conn t) = [] \<and>
     ws_writing (ws_conn t) = None \<and> ws_written (ws_conn t) = ws_written (ws_conn s) @ [m] \<and>
     ws_received (ws_conn t) = ws_received (ws_conn s) @ [m]"
  by (simp add: read_done_def AsyncSend_def start_write_def write_done_def Let_def)

lemma echo_steps:
  "ws_reading (ws_conn s) \<Longrightarrow> ws_que (ws_conn s) = [] \<Longrightarrow> ws_writing (ws_conn s) = None \<Longrightarrow>
   \<exists>t. run (ws_exec u) (concat (map (\<lambda>m. [WsRead m, WsWritten]) ms)) s = Some t \<and> ws_reading (ws_conn t) \<and> ws_que (ws_conn t) = [] \<and>
     ws_writing (ws_conn t) = None \<and> ws_written (ws_conn t) = ws_written (ws_conn s) @ ms \<and>
     ws_received (ws_conn t) = ws_received (ws_conn s) @ ms"
proof (induction ms arbitrary: s)
  case (Cons m ms)
  from echo_step [OF Cons.prems, of u m] obtain t where t:
    "run (ws_exec u) [WsRead m, WsWritten] s = Some t" "ws_reading (ws_conn t)" "ws_que (ws_conn t) = []"
    "ws_writing (ws_conn t) = None" "ws_written (ws_conn t) = ws_written (ws_conn s) @ [m]"
    "ws_received (ws_conn t) = ws_received (ws_conn s) @ [m]" by blast
  from Cons.IH [OF t(2-4)] t(5,6) obtain v where v:
    "run (ws_exec u) (concat (map (\<lambda>m. [WsRead m, WsWritten]) ms)) t = Some v" "ws_reading (ws_conn v)" "ws_que (ws_conn v) = []"
    "ws_writing (ws_conn v) = None" "ws_written (ws_conn v) = ws_written (ws_conn s) @ m # ms"
    "ws_received (ws_conn v) = ws_received (ws_conn s) @ m # ms" by auto
  have "run (ws_exec u) ([WsRead m, WsWritten] @ concat (map (\<lambda>m. [WsRead m, WsWritten]) ms)) s = Some v"
    by (simp only: run_append t(1) option.case v(1))
  then show ?case using v(2-) by (intro exI [of _ v]) simp
qed simp

text \<open>
  A peer that waits for each answer gets each message back, in order: after an accept and any
  number of messages, each written out before the next one comes, all have been echoed, the
  connection is in the table and reads on.
\<close>

theorem websocket_echoes_in_turn:
  fixes ms :: "'a list"
  shows "\<exists>t. run (ws_exec u) (WsAccept # concat (map (\<lambda>m. [WsRead m, WsWritten]) ms)) ws_init = Some t \<and>
     ws_written (ws_conn t) = ms \<and> ws_received (ws_conn t) = ms \<and> ws_que (ws_conn t) = [] \<and> ws_reading (ws_conn t) \<and> \<not> ws_overlap (ws_conn t)"
proof -
  obtain s :: "'a ws_state" where s: "ws_exec u WsAccept ws_init = Some s" "ws_reading (ws_conn s)" "ws_que (ws_conn s) = []"
    "ws_writing (ws_conn s) = None" "ws_written (ws_conn s) = []" "ws_received (ws_conn s) = []"
    by (simp add: ws_init_def new_connection_def)
  from echo_steps [OF s(2-4), of u ms] s(1,5,6) obtain t where t:
    "run (ws_exec u) (WsAccept # concat (map (\<lambda>m. [WsRead m, WsWritten]) ms)) ws_init = Some t"
    "ws_reading (ws_conn t)" "ws_que (ws_conn t) = []" "ws_written (ws_conn t) = ms" "ws_received (ws_conn t) = ms" by auto
  have "\<not> ws_overlap (ws_conn t)"
    using wsock.run_inv [OF ws_inv_init t(1)] by (simp add: ws_inv_def conn_inv_def)
  with t show ?thesis by blast
qed

section \<open>The stall\<close>

definition stalled :: "'a ws_state \<Rightarrow> bool" where
  "stalled s \<longleftrightarrow> ws_que (ws_conn s) \<noteq> [] \<and> ws_writing (ws_conn s) = None"

lemma stalled_stays: "stalled s \<Longrightarrow> ws_exec u e s = Some t \<Longrightarrow> stalled t \<and> ws_written (ws_conn t) = ws_written (ws_conn s)"
  by (cases e) (auto simp: stalled_def read_done_def AsyncSend_def Let_def split: if_splits option.splits)

lemma stalled_run: "stalled s \<Longrightarrow> run (ws_exec u) es s = Some t \<Longrightarrow> stalled t \<and> ws_written (ws_conn t) = ws_written (ws_conn s)"
proof (induction es arbitrary: s)
  case (Cons e es)
  then obtain r where "ws_exec u e s = Some r" "run (ws_exec u) es r = Some t" by (auto split: option.splits)
  with Cons.IH [of r] stalled_stays [OF Cons.prems(1), of u e r] show ?case by auto
qed simp

text \<open>
  C37. A second message during a write stalls the connection for good: the handler of the write
  passes the next message to \<open>AsyncSend\<close> while it is still in the queue, which appends it once
  more and starts no write. Whatever happens after that completion, nothing is written any more.
\<close>

theorem websocket_second_message_stalls:
  assumes "run (ws_exec u) es ws_init = Some s" "length (ws_que (ws_conn s)) \<ge> 2" "ws_exec u WsWritten s = Some t"
    and "run (ws_exec u) fs t = Some v"
  shows "ws_writing (ws_conn v) = None \<and> ws_que (ws_conn v) \<noteq> [] \<and> ws_written (ws_conn v) = ws_written (ws_conn t)"
proof -
  from assms(3) obtain m where m: "ws_writing (ws_conn s) = Some m"
    and t: "t = s\<lparr>ws_conn := write_done ((ws_conn s)\<lparr>ws_writing := None, ws_written := ws_written (ws_conn s) @ [m]\<rparr>)\<rparr>"
    by (auto split: option.splits)
  obtain a b q where "ws_que (ws_conn s) = a # b # q"
    using assms(2) by (cases "ws_que (ws_conn s)"; cases "tl (ws_que (ws_conn s))") auto
  then have "stalled t" by (simp add: t stalled_def write_done_def AsyncSend_def Let_def)
  from stalled_run [OF this assms(4)] show ?thesis by (simp add: stalled_def)
qed

lemma websocket_second_message_stalls_witness:
  "\<exists>v. run (ws_exec ''u'') [WsAccept, WsRead 1, WsRead (2 :: nat), WsWritten, WsRead 3] ws_init = Some v \<and>
     ws_received (ws_conn v) = [1, 2, 3] \<and> ws_written (ws_conn v) = [1] \<and> ws_writing (ws_conn v) = None"
proof -
  define es where "es = [WsAccept, WsRead 1, WsRead (2 :: nat)]"
  note d = es_def ws_init_def new_connection_def read_done_def AsyncSend_def start_write_def write_done_def
  obtain s where s: "run (ws_exec ''u'') es ws_init = Some s" "length (ws_que (ws_conn s)) \<ge> 2" by (simp add: d Let_def)
  obtain t where t: "ws_exec ''u'' WsWritten s = Some t" "ws_written (ws_conn t) = [1]"
    using s(1) by (auto simp: d Let_def)
  obtain v where v: "run (ws_exec ''u'') [WsRead 3] t = Some v" "ws_received (ws_conn v) = [1, 2, 3]"
    using s(1) t(1) by (auto simp: d Let_def)
  have "run (ws_exec ''u'') (es @ [WsWritten, WsRead 3]) ws_init = Some v"
    using s(1) t(1) v(1) by (simp add: run_append)
  with websocket_second_message_stalls [OF s t(1) v(1)] t(2) v(2) show ?thesis by (simp add: es_def)
qed

text \<open>After a failed write nothing is written either, although reads go on until they fail.\<close>

lemma websocket_write_error_stalls:
  "ws_inv s \<Longrightarrow> ws_exec u WsWriteError s = Some t \<Longrightarrow> stalled t"
  by (auto simp: ws_inv_def conn_inv_def stalled_def split: option.splits)

end
