(* ===== verification/EchoSession.thy ===== *)
theory EchoSession
  imports Prelude
begin

text \<open>
  Two small echo sessions. \<open>Session.cpp\<close> of the asynchronous servers keeps its sessions in a
  table and by the shared pointers bound into the handlers; \<open>Session.cpp\<close> of \<open>day24-TroubleShoot\<close>
  owns itself and ends with \<open>delete this\<close>. The state of a session is the operations it has
  outstanding; each completes, well or with an error, as an event.
\<close>

section \<open>Sessions held by shared pointers\<close>

record echo_session =
  eo_reads :: nat       \<comment> \<open>outstanding \<open>async_read_some\<close>, all into \<open>_data\<close>\<close>
  eo_writes :: nat      \<comment> \<open>outstanding \<open>async_write\<close>\<close>
  eo_listed :: bool     \<comment> \<open>in \<open>_sessions\<close> of the server\<close>
  eo_answers :: nat     \<comment> \<open>writes completed\<close>
  eo_failed_reads :: nat

definition echo_session :: echo_session where
  "echo_session = \<lparr>eo_reads = 0, eo_writes = 0, eo_listed = False, eo_answers = 0, eo_failed_reads = 0\<rparr>"

text \<open>\<open>Session::Start\<close>, and \<open>Server::handle_accept\<close> without an error.\<close>

definition echo_Start :: "echo_session \<Rightarrow> echo_session" where
  "echo_Start s = s\<lparr>eo_reads := eo_reads s + 1\<rparr>"

definition echo_handle_accept :: "echo_session \<Rightarrow> echo_session" where
  "echo_handle_accept s = (echo_Start s)\<lparr>eo_listed := True\<rparr>"

definition ClearSession :: "echo_session \<Rightarrow> echo_session" where
  "ClearSession s = s\<lparr>eo_listed := False\<rparr>"

text \<open>The handlers. The counters are those before the completed operation is taken off.\<close>

definition echo_handle_read :: "bool \<Rightarrow> echo_session \<Rightarrow> echo_session" where
  "echo_handle_read ec s =
     (let s1 = s\<lparr>eo_reads := eo_reads s - 1\<rparr> in
      if \<not> ec then s1\<lparr>eo_reads := eo_reads s1 + 1, eo_writes := eo_writes s1 + 1\<rparr>
      else (ClearSession s1)\<lparr>eo_failed_reads := eo_failed_reads s + 1\<rparr>)"

definition echo_handle_write :: "bool \<Rightarrow> echo_session \<Rightarrow> echo_session" where
  "echo_handle_write ec s =
     (let s1 = s\<lparr>eo_writes := eo_writes s - 1\<rparr> in
      if \<not> ec then s1\<lparr>eo_reads := eo_reads s1 + 1, eo_answers := eo_answers s + 1\<rparr>
      else ClearSession s1)"

text \<open>The shared pointers to the session: one in the table, one in each handler.\<close>

definition owners :: "echo_session \<Rightarrow> nat" where
  "owners s = eo_reads s + eo_writes s + (if eo_listed s then 1 else 0)"

datatype echo_event = EchoRead bool | EchoWrite bool

fun echo_exec :: "echo_event \<Rightarrow> echo_session \<Rightarrow> echo_session option" where
  "echo_exec (EchoRead ec) s = (if eo_reads s = 0 then None else Some (echo_handle_read ec s))"
| "echo_exec (EchoWrite ec) s = (if eo_writes s = 0 then None else Some (echo_handle_write ec s))"

definition echo_inv :: "echo_session \<Rightarrow> bool" where
  "echo_inv s \<longleftrightarrow> eo_reads s + eo_failed_reads s = Suc (eo_answers s) \<and> (eo_failed_reads s > 0 \<longrightarrow> \<not> eo_listed s)"

lemma echo_inv_exec: "echo_inv s \<Longrightarrow> echo_exec e s = Some t \<Longrightarrow> echo_inv t"
  by (cases e) (auto simp: echo_inv_def echo_handle_read_def echo_handle_write_def ClearSession_def Let_def split: if_splits)

interpretation echo: inv_machine echo_exec echo_inv
  by unfold_locales (rule echo_inv_exec)

text \<open>
  Every answer starts one more read: while no read has failed, a session that has answered
  \<open>n\<close> messages has \<open>n + 1\<close> reads outstanding at once, all into the same buffer. A failed read
  takes the session out of the table; it is freed when its last handler has run, not before.
\<close>

theorem echo_reads_accumulate:
  assumes "run echo_exec es (echo_handle_accept echo_session) = Some s"
  shows "eo_reads s + eo_failed_reads s = eo_answers s + 1 \<and>
    (eo_failed_reads s > 0 \<longrightarrow> owners s = eo_reads s + eo_writes s) \<and>
    (owners s = 0 \<longleftrightarrow> eo_failed_reads s = eo_answers s + 1 \<and> eo_writes s = 0)"
proof -
  have "echo_inv (echo_handle_accept echo_session)"
    by (simp add: echo_inv_def echo_handle_accept_def echo_Start_def echo_session_def)
  from echo.run_inv [OF this assms] show ?thesis by (auto simp: echo_inv_def owners_def)
qed

lemma echo_reads_accumulate_witness:
  "\<exists>s. run echo_exec [EchoRead False, EchoWrite False, EchoRead False, EchoWrite False] (echo_handle_accept echo_session) = Some s \<and>
     eo_reads s = 3"
proof -
  obtain s where s: "run echo_exec [EchoRead False, EchoWrite False, EchoRead False, EchoWrite False]
      (echo_handle_accept echo_session) = Some s" "eo_answers s = 2" "eo_failed_reads s = 0"
    by (simp add: echo_handle_accept_def echo_Start_def echo_session_def echo_handle_read_def echo_handle_write_def Let_def)
  from echo_reads_accumulate [OF s(1)] s show ?thesis by auto
qed

section \<open>Sessions that delete themselves\<close>

datatype raw_op = RawRead | RawWrite nat     \<comment> \<open>bytes of \<open>"hello world"\<close> being written\<close>

record raw_session =
  raw_ops :: "raw_op list"     \<comment> \<open>outstanding operations\<close>
  raw_deleted :: nat           \<comment> \<open>how often \<open>delete\<close> has run\<close>
  raw_bad :: bool              \<comment> \<open>a handler ran on a deleted session\<close>

definition raw_new :: raw_session where
  "raw_new = \<lparr>raw_ops = [], raw_deleted = 0, raw_bad = False\<rparr>"

definition raw_delete :: "raw_session \<Rightarrow> raw_session" where
  "raw_delete s = s\<lparr>raw_deleted := raw_deleted s + 1\<rparr>"

definition raw_Start :: "raw_session \<Rightarrow> raw_session" where
  "raw_Start s = s\<lparr>raw_ops := raw_ops s @ [RawRead]\<rparr>"

text \<open>\<open>boost::asio::buffer(data, n)\<close> of an array takes at most the array: 12 bytes here.\<close>

definition raw_handle_read :: "bool \<Rightarrow> nat \<Rightarrow> raw_session \<Rightarrow> raw_session" where
  "raw_handle_read ec n s = (if \<not> ec then s\<lparr>raw_ops := raw_ops s @ [RawWrite (min n 12)]\<rparr> else raw_delete s)"

definition raw_handle_write :: "bool \<Rightarrow> raw_session \<Rightarrow> raw_session" where
  "raw_handle_write ec s = (if \<not> ec then s\<lparr>raw_ops := raw_ops s @ [RawRead]\<rparr> else raw_delete s)"

definition raw_handle_accept :: "bool \<Rightarrow> raw_session \<Rightarrow> raw_session" where
  "raw_handle_accept ec s = (if \<not> ec then raw_Start s else raw_delete s)"

text \<open>The oldest operation completes, a read with \<open>n\<close> bytes.\<close>

definition raw_exec :: "bool \<times> nat \<Rightarrow> raw_session \<Rightarrow> raw_session option" where
  "raw_exec e s =
     (case raw_ops s of
        [] \<Rightarrow> None
      | p # ps \<Rightarrow>
          let s1 = s\<lparr>raw_ops := ps, raw_bad := raw_bad s \<or> raw_deleted s > 0\<rparr> in
          Some (case p of RawRead \<Rightarrow> raw_handle_read (fst e) (snd e) s1 | RawWrite k \<Rightarrow> raw_handle_write (fst e) s1))"

definition raw_inv :: "raw_session \<Rightarrow> bool" where
  "raw_inv s \<longleftrightarrow> \<not> raw_bad s \<and> length (raw_ops s) + raw_deleted s = 1"

lemma raw_inv_exec: "raw_inv s \<Longrightarrow> raw_exec e s = Some t \<Longrightarrow> raw_inv t"
  by (auto simp: raw_inv_def raw_exec_def raw_handle_read_def raw_handle_write_def raw_delete_def Let_def
      split: list.splits raw_op.splits if_splits)

interpretation raw: inv_machine raw_exec raw_inv
  by unfold_locales (rule raw_inv_exec)

text \<open>
  The session of \<open>day24-TroubleShoot\<close> is deleted at most once, no handler runs on it
  afterwards, and it is not deleted while, and only while, an operation is outstanding, because
  it never starts an operation beside another.
\<close>

theorem raw_session_deleted_once:
  "run raw_exec es (raw_handle_accept ec raw_new) = Some s \<Longrightarrow>
   \<not> raw_bad s \<and> raw_deleted s \<le> 1 \<and> (raw_deleted s = 0 \<longleftrightarrow> length (raw_ops s) = 1)"
proof -
  assume r: "run raw_exec es (raw_handle_accept ec raw_new) = Some s"
  have "raw_inv (raw_handle_accept ec raw_new)"
    by (simp add: raw_inv_def raw_handle_accept_def raw_Start_def raw_delete_def raw_new_def)
  from raw.run_inv [OF this r] show ?thesis by (auto simp: raw_inv_def)
qed

lemma raw_session_deleted_once_witness:
  "\<exists>s. run raw_exec [(False, 5), (False, 0), (True, 0)] (raw_handle_accept False raw_new) = Some s \<and> raw_deleted s \<le> 1 \<and> raw_ops s = []"
proof -
  obtain s where s: "run raw_exec [(False, 5), (False, 0), (True, 0)] (raw_handle_accept False raw_new) = Some s" "raw_ops s = []"
    by (simp add: raw_exec_def raw_handle_accept_def raw_Start_def raw_new_def raw_handle_read_def raw_handle_write_def raw_delete_def Let_def)
  with raw_session_deleted_once [OF s(1)] show ?thesis by blast
qed

end
