(* ===== verification/MemModel.thy ===== *)
theory MemModel
  imports Prelude
begin

text \<open>
  The atomic operations of C++ with their memory orders, as the demonstrations of
  \<open>day10-MemoryModel\<close>, \<open>day11-AcquireRelease\<close> and \<open>day13-fence\<close> and the singletons of
  \<open>day04-singleton\<close> use them: a machine whose threads have views of a memory of timed messages.
  The second part is a discipline for programs that pass data by flags, and its soundness.
\<close>

section \<open>Programs\<close>

text \<open>
  The code of a thread, reduced to its accesses of shared objects. \<open>Access l f mo c k\<close> repeats an
  atomic access of \<open>l\<close> until the value \<open>v\<close> it reads satisfies \<open>c\<close>, and goes on with \<open>k v\<close>; it
  replaces \<open>v\<close> by \<open>d\<close> when \<open>f v = Some d\<close>. \<open>Write\<close> and \<open>Read\<close> are accesses of plain objects,
  \<open>Check\<close> is \<open>assert\<close>, \<open>Join\<close> is \<open>thread::join\<close>. A \<open>bool\<close> is 0 or 1.
\<close>

datatype mem_order = Relaxed | Acquire | Release | AcqRel | SeqCst

fun acquires :: "mem_order \<Rightarrow> bool" where
  "acquires mo = (mo \<in> {Acquire, AcqRel, SeqCst})"

fun releases :: "mem_order \<Rightarrow> bool" where
  "releases mo = (mo \<in> {Release, AcqRel, SeqCst})"

datatype 'l prog =
    Finish
  | Access 'l "nat \<Rightarrow> nat option" mem_order "nat \<Rightarrow> bool" "nat \<Rightarrow> 'l prog"
  | Store 'l nat mem_order "'l prog"
  | Fence mem_order "'l prog"
  | Write 'l nat "'l prog"
  | Read 'l "nat \<Rightarrow> 'l prog"
  | Check bool "'l prog"
  | Join nat "'l prog"

abbreviation Load :: "'l \<Rightarrow> mem_order \<Rightarrow> (nat \<Rightarrow> 'l prog) \<Rightarrow> 'l prog" where
  "Load l mo k \<equiv> Access l (\<lambda>_. None) mo (\<lambda>_. True) k"

abbreviation Spin :: "'l \<Rightarrow> mem_order \<Rightarrow> (nat \<Rightarrow> bool) \<Rightarrow> 'l prog \<Rightarrow> 'l prog" where
  "Spin l mo c k \<equiv> Access l (\<lambda>_. None) mo c (\<lambda>_. k)"

abbreviation Incr :: "'l \<Rightarrow> 'l prog \<Rightarrow> 'l prog" where
  "Incr l k \<equiv> Access l (\<lambda>v. Some (v + 1)) SeqCst (\<lambda>_. True) (\<lambda>_. k)"

section \<open>The machine\<close>

text \<open>
  A location has its messages by their place in its modification order; 0 is the initial value.
  A view says how far one is in each order. A message carries a view, the one of its writer when
  the write was a release. A thread has its current view, what it has seen by relaxed reads and
  an acquire fence may add, and what it knew at its last release fence. The operations that are
  \<open>seq_cst\<close> have one more view in common.
\<close>

type_synonym 'l view = "'l \<Rightarrow> nat"

definition vjoin :: "'l view \<Rightarrow> 'l view \<Rightarrow> 'l view" where
  "vjoin v w = (\<lambda>l. max (v l) (w l))"

datatype 'l message = Message nat "'l view"

datatype mem_fault = DataRace | AssertFailed

record 'l thread =
  th_prog :: "'l prog"
  th_cur :: "'l view"
  th_acq :: "'l view"
  th_rel :: "'l view"

record 'l mem_state =
  ms_mem :: "'l \<Rightarrow> (nat \<times> 'l message) list"
  ms_sc :: "'l view"
  ms_thread :: "nat \<Rightarrow> 'l thread"
  ms_fault :: "mem_fault option"

definition mem_start :: "(nat \<Rightarrow> 'l prog) \<Rightarrow> 'l mem_state" where
  "mem_start ps = \<lparr>ms_mem = \<lambda>l. [(0, Message 0 (\<lambda>_. 0))], ms_sc = \<lambda>_. 0,
     ms_thread = \<lambda>i. \<lparr>th_prog = ps i, th_cur = \<lambda>_. 0, th_acq = \<lambda>_. 0, th_rel = \<lambda>_. 0\<rparr>, ms_fault = None\<rparr>"

definition set_thread :: "nat \<Rightarrow> 'l thread \<Rightarrow> 'l mem_state \<Rightarrow> 'l mem_state" where
  "set_thread i th s = s\<lparr>ms_thread := (ms_thread s)(i := th)\<rparr>"

text \<open>A thread that has read the message at \<open>t\<close> with view \<open>w\<close>.\<close>

definition see :: "'l \<Rightarrow> nat \<Rightarrow> 'l view \<Rightarrow> mem_order \<Rightarrow> 'l thread \<Rightarrow> 'l thread" where
  "see l t w mo th =
     th\<lparr>th_cur := (let v = (th_cur th)(l := t) in if acquires mo then vjoin v w else v),
        th_acq := vjoin ((th_acq th)(l := max t (th_acq th l))) w\<rparr>"

definition sc_update :: "mem_order \<Rightarrow> 'l \<Rightarrow> nat \<Rightarrow> 'l mem_state \<Rightarrow> 'l mem_state" where
  "sc_update mo l t s = (if mo = SeqCst then s\<lparr>ms_sc := (ms_sc s)(l := t)\<rparr> else s)"

text \<open>The write of \<open>d\<close> at place \<open>t\<close>; a replacement hands on the view \<open>w\<close> of what it replaces.\<close>

definition put :: "nat \<Rightarrow> 'l \<Rightarrow> nat \<Rightarrow> nat \<Rightarrow> mem_order \<Rightarrow> 'l view \<Rightarrow> 'l thread \<Rightarrow> 'l prog \<Rightarrow> 'l mem_state \<Rightarrow> 'l mem_state" where
  "put i l t d mo w th p s =
     (let cur = (th_cur th)(l := t);
          m = Message d (vjoin w (if releases mo then cur else (th_rel th)(l := t)));
          th1 = th\<lparr>th_prog := p, th_cur := cur, th_acq := (th_acq th)(l := max t (th_acq th l))\<rparr> in
      sc_update mo l t (set_thread i th1 (s\<lparr>ms_mem := (ms_mem s)(l := (t, m) # ms_mem s l)\<rparr>)))"

definition taken :: "'l mem_state \<Rightarrow> 'l \<Rightarrow> nat \<Rightarrow> bool" where
  "taken s l t \<longleftrightarrow> t \<in> fst ` set (ms_mem s l)"

definition newest :: "'l mem_state \<Rightarrow> 'l \<Rightarrow> nat \<Rightarrow> bool" where
  "newest s l t \<longleftrightarrow> (\<forall>u\<in>fst ` set (ms_mem s l). u \<le> t)"

definition fail :: "nat \<Rightarrow> mem_fault \<Rightarrow> 'l mem_state \<Rightarrow> 'l mem_state" where
  "fail i e s = set_thread i ((ms_thread s i)\<lparr>th_prog := Finish\<rparr>) (s\<lparr>ms_fault := Some e\<rparr>)"

text \<open>
  One step of thread \<open>i\<close>; \<open>t\<close> is the message it reads, or the place of the message it writes. A
  replacement takes the place right after the message it reads.
\<close>

fun mem_step :: "nat \<Rightarrow> nat \<Rightarrow> 'l thread \<Rightarrow> 'l prog \<Rightarrow> 'l mem_state \<Rightarrow> 'l mem_state option" where
  "mem_step i t th Finish s = None"
| "mem_step i t th (Access l f mo c k) s =
     (case map_of (ms_mem s l) t of
        None \<Rightarrow> None
      | Some (Message v w) \<Rightarrow>
          if t < th_cur th l \<or> (mo = SeqCst \<and> t < ms_sc s l) then None
          else let th1 = see l t w mo th; p = (if c v then k v else Access l f mo c k) in
            (case f v of
               None \<Rightarrow> Some (sc_update mo l t (set_thread i (th1\<lparr>th_prog := p\<rparr>) s))
             | Some d \<Rightarrow> if taken s l (Suc t) then None else Some (put i l (Suc t) d mo w th1 p s)))"
| "mem_step i t th (Store l d mo k) s =
     (if t \<le> th_cur th l \<or> taken s l t \<or> (mo = SeqCst \<and> t \<le> ms_sc s l) then None
      else Some (put i l t d mo (\<lambda>_. 0) th k s))"
| "mem_step i t th (Fence mo k) s =
     (let cur = (if acquires mo then vjoin (th_cur th) (th_acq th) else th_cur th) in
      Some (set_thread i (th\<lparr>th_prog := k, th_cur := cur, th_rel := if releases mo then cur else th_rel th\<rparr>) s))"
| "mem_step i t th (Write l d k) s =
     (if \<not> newest s l (th_cur th l) then Some (fail i DataRace s)
      else if t \<le> th_cur th l then None
      else Some (put i l t d Relaxed (\<lambda>_. 0) th k s))"
| "mem_step i t th (Read l k) s =
     (if \<not> newest s l (th_cur th l) then Some (fail i DataRace s)
      else case map_of (ms_mem s l) (th_cur th l) of
             None \<Rightarrow> None
           | Some (Message v w) \<Rightarrow> Some (set_thread i (th\<lparr>th_prog := k v\<rparr>) s))"
| "mem_step i t th (Check b k) s =
     (if b then Some (set_thread i (th\<lparr>th_prog := k\<rparr>) s) else Some (fail i AssertFailed s))"
| "mem_step i t th (Join j k) s =
     (case th_prog (ms_thread s j) of
        Finish \<Rightarrow> Some (set_thread i (th\<lparr>th_prog := k, th_cur := vjoin (th_cur th) (th_cur (ms_thread s j)),
                       th_acq := vjoin (th_acq th) (th_cur (ms_thread s j))\<rparr>) s)
      | _ \<Rightarrow> None)"

fun mem_exec :: "nat \<times> nat \<Rightarrow> 'l mem_state \<Rightarrow> 'l mem_state option" where
  "mem_exec (i, t) s = mem_step i t (ms_thread s i) (th_prog (ms_thread s i)) s"

section \<open>A discipline for flags\<close>

text \<open>
  A protocol says which values are stored at a location after the initial 0, which locations the
  reader of a value knows to be written (\<open>pr_claims\<close>), which locations are plain objects, and what
  a thread has written at its end. \<open>accepted p P i K KA KR W\<close> follows the program \<open>p\<close> of thread \<open>i\<close>:
  it knows the locations \<open>K\<close> to be written, those of \<open>KA\<close> after an acquire fence, hands on \<open>KR\<close> by
  relaxed stores, and may still write the plain objects \<open>W\<close>, each once.
\<close>

record 'l proto =
  pr_val :: "'l \<Rightarrow> nat \<Rightarrow> bool"
  pr_claims :: "'l \<Rightarrow> nat \<Rightarrow> 'l set"
  pr_plain :: "'l \<Rightarrow> bool"
  pr_post :: "nat \<Rightarrow> 'l set"

definition claimed :: "'l proto \<Rightarrow> 'l \<Rightarrow> nat \<Rightarrow> 'l set" where
  "claimed P l v = (if v = 0 then {} else pr_claims P l v)"

primrec accepted :: "'l prog \<Rightarrow> 'l proto \<Rightarrow> nat \<Rightarrow> 'l set \<Rightarrow> 'l set \<Rightarrow> 'l set \<Rightarrow> 'l set \<Rightarrow> bool" where
  "accepted Finish P i K KA KR W = (pr_post P i \<subseteq> K)"
| "accepted (Access l f mo c k) P i K KA KR W =
     (\<not> pr_plain P l \<and>
      (\<forall>v. v = 0 \<and> l \<notin> K \<or> pr_val P l v \<longrightarrow>
        (let C = claimed P l v \<union> (if v = 0 then {} else {l});
             K1 = K \<union> (if acquires mo then C else if v = 0 then {} else {l}) in
         case f v of
           None \<Rightarrow> c v \<longrightarrow> accepted (k v) P i K1 (KA \<union> C) KR W
         | Some d \<Rightarrow> pr_val P l d \<and> claimed P l d \<subseteq> insert l (C \<union> (if releases mo then K1 else KR)) \<and>
             (c v \<longrightarrow> accepted (k v) P i (insert l K1) (insert l (KA \<union> C)) KR W))))"
| "accepted (Store l d mo k) P i K KA KR W =
     (\<not> pr_plain P l \<and> pr_val P l d \<and> claimed P l d \<subseteq> insert l (if releases mo then K else KR) \<and>
      accepted k P i (insert l K) (insert l KA) KR W)"
| "accepted (Fence mo k) P i K KA KR W =
     (let K1 = (if acquires mo then K \<union> KA else K) in
      accepted k P i K1 KA (if releases mo then K1 else KR) W)"
| "accepted (Write l d k) P i K KA KR W =
     (pr_plain P l \<and> l \<in> W \<and> pr_val P l d \<and> claimed P l d = {} \<and> accepted k P i (insert l K) (insert l KA) KR (W - {l}))"
| "accepted (Read l k) P i K KA KR W =
     (pr_plain P l \<and> l \<in> K \<and> (\<forall>v. pr_val P l v \<longrightarrow> accepted (k v) P i K KA KR W))"
| "accepted (Check b k) P i K KA KR W = (b \<and> accepted k P i K KA KR W)"
| "accepted (Join j k) P i K KA KR W = accepted k P i (K \<union> pr_post P j) (KA \<union> pr_post P j) KR W"

text \<open>
  The invariant: every message keeps the protocol, all places that views name have a message, plain
  objects are written at most once and not while the right to write them is left, and the rest of
  each thread is accepted with what its views really cover.
\<close>

definition knows :: "'l set \<Rightarrow> 'l view \<Rightarrow> bool" where
  "knows K v \<longleftrightarrow> (\<forall>l\<in>K. v l > 0)"

definition in_mem :: "'l mem_state \<Rightarrow> 'l view \<Rightarrow> bool" where
  "in_mem s v \<longleftrightarrow> (\<forall>l. v l = 0 \<or> taken s l (v l))"

fun message_ok :: "'l proto \<Rightarrow> 'l mem_state \<Rightarrow> 'l \<Rightarrow> nat \<times> 'l message \<Rightarrow> bool" where
  "message_ok P s l (t, Message v w) \<longleftrightarrow>
     in_mem s w \<and> (if t = 0 then v = 0 \<and> w = (\<lambda>_. 0) else pr_val P l v \<and> knows (claimed P l v) w)"

definition plain_ok :: "'l proto \<Rightarrow> (nat \<Rightarrow> 'l set) \<Rightarrow> 'l mem_state \<Rightarrow> 'l \<Rightarrow> bool" where
  "plain_ok P tok s l \<longleftrightarrow>
     (\<exists>t. fst ` set (ms_mem s l) \<subseteq> {0, t} \<and> ((\<exists>i. l \<in> tok i) \<longrightarrow> t = 0)) \<and>
     (\<forall>i j. l \<in> tok i \<longrightarrow> l \<in> tok j \<longrightarrow> i = j)"

definition thread_ok :: "'l proto \<Rightarrow> 'l set \<Rightarrow> 'l mem_state \<Rightarrow> nat \<Rightarrow> bool" where
  "thread_ok P W s i \<longleftrightarrow>
     (let th = ms_thread s i in
      in_mem s (th_cur th) \<and> in_mem s (th_acq th) \<and> in_mem s (th_rel th) \<and>
      (\<exists>K KA KR. knows K (th_cur th) \<and> knows KA (th_acq th) \<and> knows KR (th_rel th) \<and>
         accepted (th_prog th) P i K KA KR W))"

definition flags_inv :: "'l proto \<Rightarrow> (nat \<Rightarrow> 'l set) \<Rightarrow> 'l mem_state \<Rightarrow> bool" where
  "flags_inv P tok s \<longleftrightarrow>
     (\<forall>l. taken s l 0 \<and> (\<forall>x\<in>set (ms_mem s l). message_ok P s l x)) \<and>
     (\<forall>l. pr_plain P l \<longrightarrow> plain_ok P tok s l) \<and>
     (\<forall>i. thread_ok P (tok i) s i) \<and> ms_fault s = None"

lemma knows_simps [simp]:
  "knows {} v" "knows (insert l K) v \<longleftrightarrow> v l > 0 \<and> knows K v" "knows (K \<union> L) v \<longleftrightarrow> knows K v \<and> knows L v"
  by (auto simp: knows_def)

lemma knows_mono: "knows K v \<Longrightarrow> (\<And>l. v l \<le> w l) \<Longrightarrow> knows K w"
  unfolding knows_def by (meson less_le_trans)

lemma knows_sub: "knows K v \<Longrightarrow> L \<subseteq> K \<Longrightarrow> knows L v"
  by (auto simp: knows_def)

lemma knows_vjoin: "knows K v \<Longrightarrow> knows K (vjoin v w)" "knows K w \<Longrightarrow> knows K (vjoin v w)"
  by (auto simp: knows_def vjoin_def)

lemma in_mem_vjoin: "in_mem s v \<Longrightarrow> in_mem s w \<Longrightarrow> in_mem s (vjoin v w)"
  unfolding in_mem_def vjoin_def max_def by presburger

lemma in_mem_upd: "in_mem s v \<Longrightarrow> taken s l t \<Longrightarrow> in_mem s (v(l := t))"
  by (auto simp: in_mem_def)

lemma in_mem_zero [simp]: "in_mem s (\<lambda>_. 0)"
  by (simp add: in_mem_def)

lemma in_mem_cong: "ms_mem s' = ms_mem s \<Longrightarrow> in_mem s' = in_mem s"
  by (simp add: in_mem_def taken_def fun_eq_iff)

lemma taken_more: "taken s k u \<Longrightarrow> ms_mem s' = (ms_mem s)(l := x # ms_mem s l) \<Longrightarrow> taken s' k u"
  by (cases "k = l") (simp_all add: taken_def)

lemma in_mem_more:
  "in_mem s v \<Longrightarrow> ms_mem s' = (ms_mem s)(l := x # ms_mem s l) \<Longrightarrow> in_mem s' v"
  unfolding in_mem_def using taken_more by metis

lemma message_ok_more:
  "message_ok P s k x \<Longrightarrow> ms_mem s' = (ms_mem s)(l := y # ms_mem s l) \<Longrightarrow> message_ok P s' k x"
  by (cases x; cases "snd x") (auto intro: in_mem_more)

lemma message_ok_cong: "ms_mem s' = ms_mem s \<Longrightarrow> message_ok P s' k x = message_ok P s k x"
  by (cases x; cases "snd x") (auto simp: in_mem_cong [of s' s])

lemma plain_ok_cong: "ms_mem s' l = ms_mem s l \<Longrightarrow> plain_ok P tok s' l = plain_ok P tok s l"
  by (simp add: plain_ok_def)

lemma thread_okI:
  assumes "th = ms_thread s i" "in_mem s (th_cur th)" "in_mem s (th_acq th)" "in_mem s (th_rel th)"
    "knows K (th_cur th)" "knows KA (th_acq th)" "knows KR (th_rel th)" "accepted (th_prog th) P i K KA KR W"
  shows "thread_ok P W s i"
  using assms unfolding thread_ok_def Let_def by blast

lemma thread_okE:
  assumes "thread_ok P W s i"
  obtains K KA KR where "in_mem s (th_cur (ms_thread s i))" "in_mem s (th_acq (ms_thread s i))" "in_mem s (th_rel (ms_thread s i))"
    "knows K (th_cur (ms_thread s i))" "knows KA (th_acq (ms_thread s i))" "knows KR (th_rel (ms_thread s i))"
    "accepted (th_prog (ms_thread s i)) P i K KA KR W"
  using assms unfolding thread_ok_def Let_def by blast

lemma thread_ok_more:
  assumes "thread_ok P W s i" "ms_mem s' = (ms_mem s)(l := x # ms_mem s l)" "ms_thread s' i = ms_thread s i"
  shows "thread_ok P W s' i"
  using assms(1) unfolding thread_ok_def Let_def assms(3) by (meson in_mem_more assms(2))

lemma thread_ok_cong:
  assumes "thread_ok P W s i" "ms_mem s' = ms_mem s" "ms_thread s' i = ms_thread s i"
  shows "thread_ok P W s' i"
  using assms(1) unfolding thread_ok_def Let_def assms(3) in_mem_cong [OF assms(2)] .

text \<open>A step that changes its own thread only, and a step that writes.\<close>

lemma flags_inv_thread:
  assumes i: "flags_inv P tok s"
    and s': "ms_mem s' = ms_mem s" "ms_fault s' = ms_fault s" "ms_thread s' = (ms_thread s)(i := th)"
    and th: "thread_ok P (tok i) s' i"
  shows "flags_inv P tok s'"
proof -
  have "thread_ok P (tok j) s' j" for j
  proof (cases "j = i")
    case False
    then show ?thesis
      using i s'(3) by (intro thread_ok_cong [OF _ s'(1)]) (simp_all add: flags_inv_def)
  qed (use th in simp)
  moreover have "taken s' l 0 \<and> (\<forall>x\<in>set (ms_mem s' l). message_ok P s' l x)" for l
    using i by (simp add: flags_inv_def s'(1) taken_def message_ok_cong [OF s'(1)])
  moreover have "plain_ok P tok s' l" if "pr_plain P l" for l
    using i that by (simp add: flags_inv_def plain_ok_cong [of s' l s] s'(1))
  ultimately show ?thesis
    using i s'(2) unfolding flags_inv_def by simp
qed

lemma flags_inv_write:
  assumes i: "flags_inv P tok s" and tok: "\<And>j. tok' j \<subseteq> tok j" "\<And>j. j \<noteq> i \<Longrightarrow> tok' j = tok j"
    and s': "ms_mem s' = (ms_mem s)(l := (t, m) # ms_mem s l)" "ms_fault s' = ms_fault s" "ms_thread s' = (ms_thread s)(i := th)"
    and m: "message_ok P s' l (t, m)" and th: "thread_ok P (tok' i) s' i"
    and pl: "pr_plain P l \<Longrightarrow> fst ` set (ms_mem s l) \<subseteq> {0} \<and> (\<forall>j. l \<notin> tok' j)"
  shows "flags_inv P tok' s'"
proof -
  have "thread_ok P (tok' j) s' j" for j
  proof (cases "j = i")
    case False
    then have "thread_ok P (tok' j) s j" using i tok(2) by (simp add: flags_inv_def)
    then show ?thesis by (rule thread_ok_more [OF _ s'(1)]) (simp add: False s'(3))
  qed (use th in simp)
  moreover have "taken s' k 0 \<and> (\<forall>x\<in>set (ms_mem s' k). message_ok P s' k x)" for k
  proof -
    have "taken s k 0" and old: "\<forall>x\<in>set (ms_mem s k). message_ok P s' k x"
      using i message_ok_more [OF _ s'(1)] unfolding flags_inv_def by blast+
    moreover have "set (ms_mem s' k) = (if k = l then insert (t, m) (set (ms_mem s l)) else set (ms_mem s k))"
      by (simp add: s'(1))
    ultimately show ?thesis using m taken_more [OF _ s'(1)] by auto
  qed
  moreover have "plain_ok P tok' s' k" if "pr_plain P k" for k
  proof (cases "k = l")
    case True
    with pl that show ?thesis by (auto simp: plain_ok_def s' intro!: exI [of _ t])
  next
    case False
    then have m': "ms_mem s' k = ms_mem s k" by (simp add: s'(1))
    have "plain_ok P tok s k" using i that by (simp add: flags_inv_def)
    then obtain u where u: "fst ` set (ms_mem s k) \<subseteq> {0, u}" "(\<exists>i. k \<in> tok i) \<longrightarrow> u = 0"
      and one: "\<forall>i j. k \<in> tok i \<longrightarrow> k \<in> tok j \<longrightarrow> i = j"
      unfolding plain_ok_def by blast
    have sub: "k \<in> tok' j \<Longrightarrow> k \<in> tok j" for j using tok(1) by blast
    have "(\<exists>i. k \<in> tok' i) \<longrightarrow> u = 0" using u(2) sub by blast
    then show ?thesis using u(1) one sub unfolding plain_ok_def m' by blast
  qed
  ultimately show ?thesis using i s'(2) unfolding flags_inv_def by simp
qed

lemma put_simps [simp]:
  "ms_fault (put i l t d mo w th p s) = ms_fault s"
  "ms_fault (sc_update mo l t s) = ms_fault s"
  "ms_mem (sc_update mo l t s) = ms_mem s"
  "ms_thread (sc_update mo l t s) = ms_thread s"
  "ms_mem (set_thread i th s) = ms_mem s"
  "ms_fault (set_thread i th s) = ms_fault s"
  "ms_thread (set_thread i th s) = (ms_thread s)(i := th)"
  "ms_mem (put i l t d mo w th p s) =
     (ms_mem s)(l := (t, Message d (vjoin w (if releases mo then (th_cur th)(l := t) else (th_rel th)(l := t)))) # ms_mem s l)"
  "ms_thread (put i l t d mo w th p s) = (ms_thread s)(i := th\<lparr>th_prog := p, th_cur := (th_cur th)(l := t), th_acq := (th_acq th)(l := max t (th_acq th l))\<rparr>)"
  by (simp_all add: put_def sc_update_def set_thread_def Let_def)

lemma flags_inv_put:
  assumes i: "flags_inv P tok s" and tok: "\<And>j. tok' j \<subseteq> tok j" "\<And>j. j \<noteq> i \<Longrightarrow> tok' j = tok j"
    and t: "t > 0" "pr_val P l d"
    and v: "in_mem s (th_cur th)" "in_mem s (th_acq th)" "in_mem s (th_rel th)" "in_mem s w"
    and k: "knows K (th_cur th)" "knows KA (th_acq th)" "knows KR (th_rel th)" "knows C w"
    and c: "claimed P l d \<subseteq> insert l (C \<union> (if releases mo then K else KR))"
    and a: "accepted p P i K' KA' KR (tok' i)" "K' \<subseteq> insert l K" "KA' \<subseteq> insert l KA"
    and pl: "pr_plain P l \<Longrightarrow> fst ` set (ms_mem s l) \<subseteq> {0} \<and> (\<forall>j. l \<notin> tok' j)"
  shows "flags_inv P tok' (put i l t d mo w th p s)"
proof -
  let ?s = "put i l t d mo w th p s"
  let ?v = "if releases mo then (th_cur th)(l := t) else (th_rel th)(l := t)"
  have tk: "taken ?s l t" by (simp add: taken_def)
  have more: "in_mem s x \<Longrightarrow> in_mem ?s x" for x by (rule in_mem_more) auto
  have upd: "knows L x \<Longrightarrow> knows (insert l L) (x(l := t))" for L x using t(1) by (auto simp: knows_def)
  have updm: "in_mem s x \<Longrightarrow> in_mem ?s (x(l := t))" for x by (rule in_mem_upd [OF more tk])
  have "in_mem ?s ?v" using v(1,3) by (simp add: updm del: fun_upd_apply)
  then have "in_mem ?s (vjoin w ?v)" by (rule in_mem_vjoin [OF more [OF v(4)]])
  moreover have "knows (claimed P l d) (vjoin w ?v)"
  proof -
    have "knows (insert l (if releases mo then K else KR)) ?v"
      using upd [OF k(1)] upd [OF k(3)] by (cases "releases mo") (simp_all del: knows_simps acquires.simps releases.simps)
    then have "knows (insert l (if releases mo then K else KR) \<union> C) (vjoin w ?v)"
      using knows_vjoin(1) [OF k(4)] knows_vjoin(2) unfolding knows_simps(3) by blast
    then show ?thesis by (rule knows_sub) (use c in blast)
  qed
  ultimately have m: "message_ok P ?s l (t, Message d (vjoin w ?v))" using t by simp
  have "(th_acq th)(l := max t (th_acq th l)) = vjoin (th_acq th) ((\<lambda>_. 0)(l := t))"
    by (rule ext) (simp add: vjoin_def max.commute)
  then have aq: "in_mem ?s ((th_acq th)(l := max t (th_acq th l)))"
    using more v(2) by (metis in_mem_upd in_mem_vjoin in_mem_zero tk)
  have ka: "knows (insert l KA) ((th_acq th)(l := max t (th_acq th l)))"
    using k(2) t(1) by (auto simp: knows_def)
  have th: "thread_ok P (tok' i) ?s i"
    by (rule thread_okI [OF refl, where K = K' and KA = KA' and KR = KR])
      (use updm [OF v(1)] more [OF v(3)] knows_sub [OF upd [OF k(1)] a(2)] knows_sub [OF ka a(3)] k(3) a(1) aq in \<open>simp_all del: knows_simps fun_upd_apply add: fun_upd_same\<close>)
  show ?thesis
    by (rule flags_inv_write [OF i tok _ _ _ m th pl]) auto
qed

lemma see_ok:
  fixes v :: nat
  assumes m: "in_mem s (th_cur th)" "in_mem s (th_acq th)" "in_mem s w" "taken s l t"
    and t: "th_cur th l \<le> t" "v \<noteq> 0 \<longrightarrow> t > 0"
    and k: "knows K (th_cur th)" "knows KA (th_acq th)" "knows D w"
  defines "V \<equiv> (if v = 0 then {} else {l})"
  shows "in_mem s (th_cur (see l t w mo th))" "in_mem s (th_acq (see l t w mo th))" "th_rel (see l t w mo th) = th_rel th"
    and "knows (K \<union> (if acquires mo then D \<union> V else V)) (th_cur (see l t w mo th))"
    and "knows (KA \<union> (D \<union> V)) (th_acq (see l t w mo th))"
proof -
  have c: "in_mem s ((th_cur th)(l := t))" by (rule in_mem_upd [OF m(1,4)])
  show "in_mem s (th_cur (see l t w mo th))"
    using c in_mem_vjoin [OF c m(3)] by (simp add: see_def Let_def del: acquires.simps)
  have "(th_acq th)(l := max t (th_acq th l)) = vjoin (th_acq th) ((\<lambda>_. 0)(l := t))"
    by (rule ext) (simp add: vjoin_def max.commute)
  then have "in_mem s ((th_acq th)(l := max t (th_acq th l)))"
    using m(2,4) by (metis in_mem_upd in_mem_vjoin in_mem_zero)
  then show "in_mem s (th_acq (see l t w mo th))" using m(3) by (simp add: see_def in_mem_vjoin)
  have K: "knows (K \<union> V) ((th_cur th)(l := t))"
    using k(1) t by (auto simp: knows_def V_def split: if_splits)
  show "knows (K \<union> (if acquires mo then D \<union> V else V)) (th_cur (see l t w mo th))"
    using K knows_vjoin(1) [OF K] knows_vjoin(2) [OF k(3)] by (simp add: see_def Let_def del: acquires.simps fun_upd_apply)
  have "knows (KA \<union> V) ((th_acq th)(l := max t (th_acq th l)))"
    using k(2) t(2) by (auto simp: knows_def V_def split: if_splits)
  from knows_vjoin(1) [OF this] knows_vjoin(2) [OF k(3)]
  show "knows (KA \<union> (D \<union> V)) (th_acq (see l t w mo th))" by (simp add: see_def)
qed (simp add: see_def)

lemma flags_inv_message:
  assumes "flags_inv P tok s" "map_of (ms_mem s l) t = Some m"
  shows "message_ok P s l (t, m)" "taken s l t"
proof -
  have m: "(t, m) \<in> set (ms_mem s l)" using assms(2) by (rule map_of_SomeD)
  then show "message_ok P s l (t, m)" using assms(1) by (auto simp: flags_inv_def)
  show "taken s l t" using m by (force simp: taken_def)
qed

lemma flags_invE:
  assumes "flags_inv P tok s" "th_prog (ms_thread s i) = p"
  obtains K KA KR where "in_mem s (th_cur (ms_thread s i))" "in_mem s (th_acq (ms_thread s i))" "in_mem s (th_rel (ms_thread s i))"
    "knows K (th_cur (ms_thread s i))" "knows KA (th_acq (ms_thread s i))" "knows KR (th_rel (ms_thread s i))"
    "accepted p P i K KA KR (tok i)"
proof -
  have "thread_ok P (tok i) s i" using assms(1) by (simp add: flags_inv_def)
  then show ?thesis by (rule thread_okE) (use that assms(2) in blast)
qed

lemma step_access:
  assumes i: "flags_inv P tok s" and p: "th_prog (ms_thread s i) = Access l f mo c k"
    and st: "mem_exec (i, t) s = Some s'"
  shows "flags_inv P tok s'"
proof -
  let ?th = "ms_thread s i"
  obtain K KA KR where v: "in_mem s (th_cur ?th)" "in_mem s (th_acq ?th)" "in_mem s (th_rel ?th)"
    and k: "knows K (th_cur ?th)" "knows KA (th_acq ?th)" "knows KR (th_rel ?th)"
    and a: "accepted (Access l f mo c k) P i K KA KR (tok i)"
    by (rule flags_invE [OF i p])
  obtain x w where m: "map_of (ms_mem s l) t = Some (Message x w)" and t: "th_cur ?th l \<le> t"
    using st p by (auto split: option.splits message.splits if_splits)
  note mok = flags_inv_message [OF i m]
  have w: "in_mem s w" "knows (claimed P l x) w" "x \<noteq> 0 \<longrightarrow> t > 0"
    using mok(1) by (auto simp: claimed_def split: if_splits)
  define V where "V = (if x = 0 then {} else {l})"
  define K1 where "K1 = K \<union> (if acquires mo then claimed P l x \<union> V else V)"
  note see = see_ok [OF v(1,2) w(1) mok(2) t w(3) k(1,2) w(2), where mo = mo, folded V_def, folded K1_def]
  have "x = 0 \<and> l \<notin> K \<or> pr_val P l x"
    using mok(1) t k(1) by (auto simp: knows_def split: if_splits)
  note acc = conjunct1 [OF a [unfolded accepted.simps]]
    a [unfolded accepted.simps Let_def, THEN conjunct2, THEN spec, THEN mp, OF this, folded V_def, folded K1_def]
  let ?th1 = "see l t w mo ?th"
  let ?p = "if c x then k x else Access l f mo c k"
  show ?thesis
  proof (cases "f x")
    case None
    have s': "s' = sc_update mo l t (set_thread i (?th1\<lparr>th_prog := ?p\<rparr>) s)"
      using st p m None by (auto simp: Let_def split: if_splits)
    have im: "in_mem s' = in_mem s" by (rule in_mem_cong) (simp add: s')
    have th': "ms_thread s' i = ?th1\<lparr>th_prog := ?p\<rparr>" by (simp add: s')
    have "thread_ok P (tok i) s' i"
    proof (cases "c x")
      case True
      show ?thesis
        by (rule thread_okI [OF refl, where K = K1 and KA = "KA \<union> (claimed P l x \<union> V)" and KR = KR])
          (use v(3) k(3) see acc None True in \<open>simp_all add: th' im del: knows_simps acquires.simps\<close>)
    next
      case False
      have "knows K (th_cur ?th1)" by (rule knows_sub [OF see(4)]) (auto simp: K1_def)
      moreover have "knows KA (th_acq ?th1)" by (rule knows_sub [OF see(5) Un_upper1])
      ultimately show ?thesis
        by (intro thread_okI [OF refl, where K = K and KA = KA and KR = KR])
          (use v(3) k(3) see a False in \<open>simp_all add: th' im del: knows_simps accepted.simps acquires.simps\<close>)
    qed
    then show ?thesis by (intro flags_inv_thread [OF i]) (simp_all add: s')
  next
    case (Some d)
    have s': "s' = put i l (Suc t) d mo w ?th1 ?p s"
      using st p m Some by (auto simp: Let_def split: if_splits)
    have c: "claimed P l d \<subseteq> insert l (claimed P l x \<union> (if releases mo then K1 else KR))"
      using acc(2) Some by (auto simp: V_def split: if_splits)
    note put = flags_inv_put [OF i order_refl refl zero_less_Suc _ see(1,2) _ w(1) see(4,5) _ w(2) c, unfolded see(3), OF _ v(3) k(3)]
    show ?thesis
    proof (cases "c x")
      case True
      then show ?thesis unfolding s'
        using acc Some by (intro put [where K' = "insert l K1" and KA' = "insert l (KA \<union> (claimed P l x \<union> V))"]) auto
    next
      case False
      then show ?thesis unfolding s'
        using acc Some a by (intro put [where K' = K and KA' = KA]) (auto simp: K1_def simp del: accepted.simps)
    qed
  qed
qed

lemma step_store:
  assumes i: "flags_inv P tok s" and p: "th_prog (ms_thread s i) = Store l d mo k"
    and st: "mem_exec (i, t) s = Some s'"
  shows "flags_inv P tok s'"
proof -
  let ?th = "ms_thread s i"
  obtain K KA KR where v: "in_mem s (th_cur ?th)" "in_mem s (th_acq ?th)" "in_mem s (th_rel ?th)"
    and k: "knows K (th_cur ?th)" "knows KA (th_acq ?th)" "knows KR (th_rel ?th)"
    and a: "accepted (Store l d mo k) P i K KA KR (tok i)"
    by (rule flags_invE [OF i p])
  have t: "0 < t" and s': "s' = put i l t d mo (\<lambda>_. 0) ?th k s"
    using st p by (auto split: if_splits)
  show ?thesis
    unfolding s' using a
    by (intro flags_inv_put [OF i order_refl refl t _ v in_mem_zero k knows_simps(1), where K' = "insert l K" and KA' = "insert l KA"]) auto
qed

lemma step_write:
  assumes i: "flags_inv P tok s" and p: "th_prog (ms_thread s i) = Write l d k"
    and st: "mem_exec (i, t) s = Some s'"
  shows "flags_inv P (tok(i := tok i - {l})) s'"
proof -
  let ?th = "ms_thread s i"
  obtain K KA KR where v: "in_mem s (th_cur ?th)" "in_mem s (th_acq ?th)" "in_mem s (th_rel ?th)"
    and k: "knows K (th_cur ?th)" "knows KA (th_acq ?th)" "knows KR (th_rel ?th)"
    and a: "accepted (Write l d k) P i K KA KR (tok i)"
    by (rule flags_invE [OF i p])
  have "plain_ok P tok s l" using i a by (simp add: flags_inv_def)
  then have pl: "fst ` set (ms_mem s l) \<subseteq> {0}" "\<And>j. l \<in> tok j \<Longrightarrow> j = i"
    using a unfolding plain_ok_def by auto
  then have n: "newest s l (th_cur ?th l)" by (auto simp: newest_def)
  then have t: "0 < t" and s': "s' = put i l t d Relaxed (\<lambda>_. 0) ?th k s"
    using st p by (simp_all split: if_splits)
  show ?thesis
    unfolding s'
  proof (rule flags_inv_put [OF i _ _ t _ v in_mem_zero k knows_simps(1), where K' = "insert l K" and KA' = "insert l KA"])
    show "fst ` set (ms_mem s l) \<subseteq> {0} \<and> (\<forall>j. l \<notin> (tok(i := tok i - {l})) j)"
      using pl by auto
  qed (use a in auto)
qed

lemma step_read:
  assumes i: "flags_inv P tok s" and p: "th_prog (ms_thread s i) = Read l k"
    and st: "mem_exec (i, t) s = Some s'"
  shows "flags_inv P tok s'"
proof -
  let ?th = "ms_thread s i"
  obtain K KA KR where v: "in_mem s (th_cur ?th)" "in_mem s (th_acq ?th)" "in_mem s (th_rel ?th)"
    and k: "knows K (th_cur ?th)" "knows KA (th_acq ?th)" "knows KR (th_rel ?th)"
    and a: "accepted (Read l k) P i K KA KR (tok i)"
    by (rule flags_invE [OF i p])
  have "plain_ok P tok s l" using i a by (simp add: flags_inv_def)
  then obtain u where u: "fst ` set (ms_mem s l) \<subseteq> {0, u}" by (auto simp: plain_ok_def)
  have sub: "x = 0 \<or> x = u" if "x \<in> fst ` set (ms_mem s l)" for x using subsetD [OF u that] by simp
  have pos: "th_cur ?th l > 0" using a k(1) by (simp add: knows_def)
  have "th_cur ?th l = 0 \<or> taken s l (th_cur ?th l)" using v(1) by (simp add: in_mem_def)
  then have tk: "th_cur ?th l \<in> fst ` set (ms_mem s l)" using pos by (simp add: taken_def)
  from sub [OF this] have cu: "th_cur ?th l = u" using pos by simp
  have n: "newest s l (th_cur ?th l)" unfolding newest_def cu
  proof
    fix x assume "x \<in> fst ` set (ms_mem s l)"
    from sub [OF this] show "x \<le> u" by (elim disjE) simp_all
  qed
  then obtain x w where m: "map_of (ms_mem s l) (th_cur ?th l) = Some (Message x w)"
    and s': "s' = set_thread i (?th\<lparr>th_prog := k x\<rparr>) s"
    using st p by (auto split: option.splits message.splits)
  have "pr_val P l x" using flags_inv_message(1) [OF i m] pos by simp
  then have ok: "accepted (k x) P i K KA KR (tok i)" using a by simp
  have im: "in_mem s' = in_mem s" by (rule in_mem_cong) (simp add: s')
  have th': "ms_thread s' i = ?th\<lparr>th_prog := k x\<rparr>" by (simp add: s')
  have "thread_ok P (tok i) s' i"
    by (rule thread_okI [OF refl, where K = K and KA = KA and KR = KR]) (simp_all add: th' im v k ok)
  then show ?thesis by (intro flags_inv_thread [OF i]) (simp_all add: s')
qed

lemma step_local:
  assumes i: "flags_inv P tok s" and p: "th_prog (ms_thread s i) = p"
    and c: "(\<exists>mo k. p = Fence mo k) \<or> (\<exists>b k. p = Check b k) \<or> (\<exists>j k. p = Join j k)"
    and st: "mem_exec (i, t) s = Some s'"
  shows "flags_inv P tok s'"
proof -
  let ?th = "ms_thread s i"
  obtain K KA KR where v: "in_mem s (th_cur ?th)" "in_mem s (th_acq ?th)" "in_mem s (th_rel ?th)"
    and k: "knows K (th_cur ?th)" "knows KA (th_acq ?th)" "knows KR (th_rel ?th)"
    and a: "accepted p P i K KA KR (tok i)"
    by (rule flags_invE [OF i p])
  have "\<exists>th K1 KA1 KR1. s' = set_thread i th s \<and> in_mem s (th_cur th) \<and> in_mem s (th_acq th) \<and> in_mem s (th_rel th) \<and>
      knows K1 (th_cur th) \<and> knows KA1 (th_acq th) \<and> knows KR1 (th_rel th) \<and> accepted (th_prog th) P i K1 KA1 KR1 (tok i)"
    using c
  proof (elim disjE exE)
    fix mo k' assume f: "p = Fence mo k'"
    define cur where "cur = (if acquires mo then vjoin (th_cur ?th) (th_acq ?th) else th_cur ?th)"
    define K1 where "K1 = (if acquires mo then K \<union> KA else K)"
    have c': "in_mem s cur" "knows K1 cur"
      using v k knows_vjoin by (auto simp: cur_def K1_def in_mem_vjoin)
    show ?thesis
      by (rule exI [of _ "?th\<lparr>th_prog := k', th_cur := cur, th_rel := if releases mo then cur else th_rel ?th\<rparr>"],
          rule exI [of _ K1], rule exI [of _ KA], rule exI [of _ "if releases mo then K1 else KR"])
        (use st p f a v k c' in \<open>cases "acquires mo"; cases "releases mo"; simp add: cur_def K1_def Let_def del: knows_simps acquires.simps releases.simps\<close>)
  next
    fix b k' assume f: "p = Check b k'"
    show ?thesis
      by (rule exI [of _ "?th\<lparr>th_prog := k'\<rparr>"], rule exI [of _ K], rule exI [of _ KA], rule exI [of _ KR])
        (use st p f a v k in \<open>simp\<close>)
  next
    fix j k' assume f: "p = Join j k'"
    let ?tj = "ms_thread s j"
    have j: "th_prog ?tj = Finish" and s': "s' = set_thread i (?th\<lparr>th_prog := k', th_cur := vjoin (th_cur ?th) (th_cur ?tj),
        th_acq := vjoin (th_acq ?th) (th_cur ?tj)\<rparr>) s"
      using st p f by (auto split: prog.splits)
    have post: "in_mem s (th_cur ?tj)" "knows (pr_post P j) (th_cur ?tj)"
      by (rule flags_invE [OF i j], simp, rule flags_invE [OF i j], simp, blast intro: knows_sub)
    show ?thesis
      by (rule exI [of _ "?th\<lparr>th_prog := k', th_cur := vjoin (th_cur ?th) (th_cur ?tj), th_acq := vjoin (th_acq ?th) (th_cur ?tj)\<rparr>"],
          rule exI [of _ "K \<union> pr_post P j"], rule exI [of _ "KA \<union> pr_post P j"], rule exI [of _ KR])
        (use s' a f v k post in \<open>simp add: in_mem_vjoin knows_vjoin\<close>)
  qed
  then obtain th K1 KA1 KR1 where s': "s' = set_thread i th s"
    and th: "in_mem s (th_cur th)" "in_mem s (th_acq th)" "in_mem s (th_rel th)"
      "knows K1 (th_cur th)" "knows KA1 (th_acq th)" "knows KR1 (th_rel th)" "accepted (th_prog th) P i K1 KA1 KR1 (tok i)"
    by blast
  have im: "in_mem s' = in_mem s" by (rule in_mem_cong) (simp add: s')
  have "thread_ok P (tok i) s' i"
    by (rule thread_okI [OF refl, where K = K1 and KA = KA1 and KR = KR1]) (use th im s' in simp_all)
  then show ?thesis by (intro flags_inv_thread [OF i]) (simp_all add: s')
qed

definition flags_ok :: "'l proto \<Rightarrow> 'l mem_state \<Rightarrow> bool" where
  "flags_ok P s \<longleftrightarrow> (\<exists>tok. flags_inv P tok s)"

lemma flags_ok_step: "flags_ok P s \<Longrightarrow> mem_exec e s = Some s' \<Longrightarrow> flags_ok P s'"
proof -
  assume a: "flags_ok P s" "mem_exec e s = Some s'"
  then obtain tok where i: "flags_inv P tok s" by (auto simp: flags_ok_def)
  obtain n t where e: "e = (n, t)" by (cases e)
  have st: "mem_exec (n, t) s = Some s'" using a(2) e by simp
  show ?thesis
  proof (cases "th_prog (ms_thread s n)")
    case Finish
    then show ?thesis using st by simp
  next
    case (Access l f mo c k)
    from step_access [OF i this st] show ?thesis by (auto simp: flags_ok_def)
  next
    case (Store l d mo k)
    from step_store [OF i this st] show ?thesis by (auto simp: flags_ok_def)
  next
    case (Write l d k)
    from step_write [OF i this st] show ?thesis by (auto simp: flags_ok_def)
  next
    case (Read l k)
    from step_read [OF i this st] show ?thesis by (auto simp: flags_ok_def)
  qed (use step_local [OF i _ _ st] in \<open>auto simp: flags_ok_def\<close>)
qed

interpretation flags: inv_machine mem_exec "flags_ok P" for P :: "'l proto"
  by unfold_locales (rule flags_ok_step)

lemma flags_inv_start:
  assumes "\<And>i. accepted (ps i) P i {} {} {} (tok i)"
    and "\<And>i j l. l \<in> tok i \<Longrightarrow> l \<in> tok j \<Longrightarrow> i = j"
  shows "flags_inv P tok (mem_start ps)"
proof -
  have "thread_ok P (tok i) (mem_start ps) i" for i
    by (rule thread_okI [OF refl, where K = "{}" and KA = "{}" and KR = "{}"])
      (simp_all add: mem_start_def assms(1))
  then show ?thesis
    using assms(2) by (auto simp: flags_inv_def mem_start_def taken_def plain_ok_def claimed_def)
qed

text \<open>An accepted program never fails an assertion and has no data race, in any run.\<close>

lemma accepted_runs:
  assumes "\<And>i. accepted (ps i) P i {} {} {} (tok i)" "\<And>i j l. l \<in> tok i \<Longrightarrow> l \<in> tok j \<Longrightarrow> i = j"
    and "run mem_exec es (mem_start ps) = Some s"
  shows "ms_fault s = None"
proof -
  have "flags_inv P tok (mem_start ps)" by (rule flags_inv_start) (fact assms)+
  then have "flags_ok P (mem_start ps)" unfolding flags_ok_def by blast
  from flags.run_inv [OF this assms(3)] show ?thesis by (auto simp: flags_ok_def flags_inv_def)
qed

end
