(* ===== verification/MemTests.thy ===== *)
theory MemTests
  imports MemModel
begin

text \<open>
  The demonstrations of memory orders in \<open>day10-MemoryModel.cpp\<close>, \<open>day11-AcquireRelease.cpp\<close> and
  \<open>day13-fence.cpp\<close>: which of their assertions hold in every run, and which can fail.
\<close>

datatype test_var = VarX | VarY | VarZ | VarFlag | VarData | VarPtr

section \<open>The tests\<close>

text \<open>
  \<open>write_x_then_y\<close> and \<open>read_y_then_x\<close> take the orders of the accesses of \<open>y\<close> and of \<open>x\<close>: all
  relaxed in \<open>day10\<close> and in \<open>TestRelaxed\<close> of \<open>day13\<close>, all \<open>seq_cst\<close> in \<open>day11\<close>, release and acquire for
  \<open>y\<close> in \<open>write_x_then_y3\<close> and \<open>read_y_then_x3\<close>. Thread 0 is the function that starts the others.
\<close>

definition write_x_then_y :: "mem_order \<Rightarrow> mem_order \<Rightarrow> test_var prog" where
  "write_x_then_y mx my = Store VarX 1 mx (Store VarY 1 my Finish)"

definition read_y_then_x :: "mem_order \<Rightarrow> mem_order \<Rightarrow> test_var prog" where
  "read_y_then_x mx my =
     Spin VarY my (\<lambda>v. v \<noteq> 0) (Load VarX mx (\<lambda>v. if v \<noteq> 0 then Incr VarZ Finish else Finish))"

definition read_x_then_y :: "mem_order \<Rightarrow> mem_order \<Rightarrow> test_var prog" where
  "read_x_then_y mx my =
     Spin VarX mx (\<lambda>v. v \<noteq> 0) (Load VarY my (\<lambda>v. if v \<noteq> 0 then Incr VarZ Finish else Finish))"

definition write_x_then_y_fence :: "test_var prog" where
  "write_x_then_y_fence = Store VarX 1 Relaxed (Fence Release (Store VarY 1 Relaxed Finish))"

definition read_y_then_x_fence :: "test_var prog" where
  "read_y_then_x_fence =
     Spin VarY Relaxed (\<lambda>v. v \<noteq> 0) (Fence Acquire
       (Load VarX Relaxed (\<lambda>v. if v \<noteq> 0 then Incr VarZ Finish else Finish)))"

definition assert_z :: "test_var prog" where
  "assert_z = Load VarZ SeqCst (\<lambda>z. Check (z \<noteq> 0) Finish)"

definition threads :: "'l prog list \<Rightarrow> nat \<Rightarrow> 'l prog" where
  "threads ps i = (if i < length ps then ps ! i else Finish)"

definition TestOrderSeqCst :: "test_var prog list" where
  "TestOrderSeqCst = [Join 1 (Join 2 assert_z), write_x_then_y SeqCst SeqCst, read_y_then_x SeqCst SeqCst]"

definition TestRelaxed :: "test_var prog list" where
  "TestRelaxed = [Join 1 (Join 2 assert_z), write_x_then_y Relaxed Relaxed, read_y_then_x Relaxed Relaxed]"

definition TestFence :: "test_var prog list" where
  "TestFence = [Join 1 (Join 2 assert_z), write_x_then_y_fence, read_y_then_x_fence]"

definition TestAR :: "test_var prog list" where
  "TestAR = [Join 1 (Join 2 (Join 3 (Join 4 assert_z))),
     Store VarX 1 Release Finish, Store VarY 1 Release Finish,
     read_x_then_y Acquire Acquire, read_y_then_x Acquire Acquire]"

definition flag_test :: "mem_order \<Rightarrow> mem_order \<Rightarrow> test_var prog list" where
  "flag_test ms ml = [Join 1 (Join 2 Finish),
     Store VarX 1 Relaxed (Store VarY 1 ms Finish),
     Spin VarY ml (\<lambda>v. v \<noteq> 0) (Load VarX Relaxed (\<lambda>v. Check (v \<noteq> 0) Finish))]"

definition TestReleaseAcquire :: "test_var prog list" where
  "TestReleaseAcquire = flag_test Release Acquire"

definition TestOrderRelaxed :: "test_var prog list" where
  "TestOrderRelaxed = flag_test Relaxed Relaxed"

definition ReleasAcquireDanger :: "test_var prog list" where
  "ReleasAcquireDanger = [Join 1 (Join 2 (Join 3 Finish)),
     Store VarX 1 Release (Store VarY 1 Release Finish),
     Store VarY 2 Release Finish,
     Spin VarY Acquire (\<lambda>v. v \<noteq> 0) (Load VarX Acquire (\<lambda>v. Check (v = 1) Finish))]"

definition ReleaseSequence :: "test_var prog list" where
  "ReleaseSequence = [Join 1 (Join 2 (Join 3 Finish)),
     Write VarData 42 (Store VarFlag 1 Release Finish),
     Access VarFlag (\<lambda>v. if v = 1 then Some 2 else None) Relaxed (\<lambda>v. v = 1) (\<lambda>_. Finish),
     Spin VarFlag Acquire (\<lambda>v. 2 \<le> v) (Read VarData (\<lambda>v. Check (v = 42) Finish))]"

text \<open>The string at the pointer is \<open>VarX\<close>, its text 7; \<open>memory_order_consume\<close> is taken as acquire.\<close>

definition ConsumeDependency :: "test_var prog list" where
  "ConsumeDependency = [Join 1 (Join 2 Finish),
     Write VarX 7 (Write VarData 42 (Store VarPtr 1 Release Finish)),
     Spin VarPtr Acquire (\<lambda>v. v \<noteq> 0) (Read VarX (\<lambda>v. Check (v = 7) (Read VarData (\<lambda>v. Check (v = 42) Finish))))]"

section \<open>Assertions that hold\<close>

definition xyz_proto :: "test_var proto" where
  "xyz_proto = \<lparr>pr_val = \<lambda>l v. v > 0, pr_claims = \<lambda>l v. if l = VarY then {VarX} else {},
     pr_plain = \<lambda>_. False, pr_post = \<lambda>i. if i = 2 then {VarZ} else {}\<rparr>"

definition flag_proto :: "test_var proto" where
  "flag_proto = \<lparr>pr_val = \<lambda>l v. v > 0, pr_claims = \<lambda>l v. if l = VarY then {VarX} else {},
     pr_plain = \<lambda>_. False, pr_post = \<lambda>_. {}\<rparr>"

definition data_proto :: "test_var proto" where
  "data_proto = \<lparr>pr_val = \<lambda>l v. if l = VarData then v = 42 else if l = VarX then v = 7 else v > 0,
     pr_claims = \<lambda>l v. if l = VarFlag then {VarData} else if l = VarPtr then {VarX, VarData} else {},
     pr_plain = \<lambda>l. l = VarData \<or> l = VarX, pr_post = \<lambda>_. {}\<rparr>"

definition data_writer :: "nat \<Rightarrow> test_var set" where
  "data_writer i = (if i = 1 then {VarData, VarX} else {})"

lemmas test_defs = write_x_then_y_def read_y_then_x_def read_x_then_y_def write_x_then_y_fence_def
  read_y_then_x_fence_def assert_z_def

lemma accepted_list:
  assumes "\<And>i. i < length ps \<Longrightarrow> accepted (ps ! i) P i {} {} {} (tok i)"
    and "\<And>i. length ps \<le> i \<Longrightarrow> pr_post P i = {}"
    and "\<And>i j l. l \<in> tok i \<Longrightarrow> l \<in> tok j \<Longrightarrow> i = j"
    and "run mem_exec es (mem_start (threads ps)) = Some s"
  shows "ms_fault s = None"
proof -
  have "accepted (threads ps i) P i {} {} {} (tok i)" for i
    using assms(1,2) by (simp add: threads_def not_less)
  from accepted_runs [OF this assms(3,4)] show ?thesis .
qed

lemma xyz_accepted:
  assumes "ps \<in> {TestOrderSeqCst, TestFence}" "i < length ps"
  shows "accepted (ps ! i) xyz_proto i {} {} {} {}"
proof -
  have "i = 0 \<or> i = 1 \<or> i = 2" using assms by (auto simp: TestOrderSeqCst_def TestFence_def)
  then show ?thesis using assms(1)
    by (auto simp: TestOrderSeqCst_def TestFence_def test_defs xyz_proto_def claimed_def)
qed

lemma flag_accepted:
  assumes "i < 3" shows "accepted (TestReleaseAcquire ! i) flag_proto i {} {} {} {}"
proof -
  have "i = 0 \<or> i = 1 \<or> i = 2" using assms by auto
  then show ?thesis
    by (auto simp: TestReleaseAcquire_def flag_test_def flag_proto_def claimed_def)
qed

lemma data_accepted:
  assumes "ps \<in> {ReleaseSequence, ConsumeDependency}" "i < length ps"
  shows "accepted (ps ! i) data_proto i {} {} {} (data_writer i)"
proof -
  have "i = 0 \<or> i = 1 \<or> i = 2 \<or> i = 3" using assms by (auto simp: ReleaseSequence_def ConsumeDependency_def)
  then show ?thesis using assms
    by (auto simp: ReleaseSequence_def ConsumeDependency_def data_proto_def claimed_def data_writer_def)
qed



section \<open>Assertions that can fail\<close>

definition can_fail :: "'l prog list \<Rightarrow> bool" where
  "can_fail ps \<longleftrightarrow> (\<exists>es s. run mem_exec es (mem_start (threads ps)) = Some s \<and> ms_fault s = Some AssertFailed)"

lemma can_failI:
  "map_option ms_fault (run mem_exec es (mem_start (threads ps))) = Some (Some AssertFailed) \<Longrightarrow> can_fail ps"
  unfolding can_fail_def by (cases "run mem_exec es (mem_start (threads ps))") auto

lemmas mem_run = threads_def mem_start_def taken_def put_def set_thread_def sc_update_def see_def vjoin_def Let_def
  newest_def fail_def

text \<open>
  C37. With relaxed orders the assertions can fail: the reader sees the flag and the old \<open>x\<close>. The
  two readers of \<open>TestAR\<close> can see the two stores in different orders, and the reader of
  \<open>ReleasAcquireDanger\<close> can take the flag from the thread that has not written \<open>x\<close>.
\<close>

theorem relaxed_tests_can_fail:
  "can_fail TestRelaxed \<and> can_fail TestOrderRelaxed \<and> can_fail TestAR \<and> can_fail ReleasAcquireDanger"
proof (intro conjI)
  show "can_fail TestRelaxed"
    by (rule can_failI [of "[(1, 1), (1, 1), (2, 1), (2, 0), (0, 0), (0, 0), (0, 0), (0, 0)]"])
      (simp add: TestRelaxed_def test_defs mem_run)
  show "can_fail TestOrderRelaxed"
    by (rule can_failI [of "[(1, 1), (1, 1), (2, 1), (2, 0), (2, 0)]"])
      (simp add: TestOrderRelaxed_def flag_test_def mem_run)
  show "can_fail TestAR"
    by (rule can_failI [of "[(1, 1), (2, 1), (3, 1), (3, 0), (4, 1), (4, 0), (0, 0), (0, 0), (0, 0), (0, 0), (0, 0), (0, 0)]"])
      (simp add: TestAR_def test_defs mem_run)
  show "can_fail ReleasAcquireDanger"
    by (rule can_failI [of "[(2, 1), (3, 1), (3, 0), (3, 0)]"])
      (simp add: ReleasAcquireDanger_def mem_run)
qed

end
