(* ===== verification/LockMem.thy ===== *)
theory LockMem
  imports MemModel
begin

text \<open>
  Locks in the machine of \<open>MemModel\<close>: the \<open>SpinLock\<close> of \<open>day10-MemoryModel.cpp\<close> and \<open>std::mutex\<close>, with
  the invariant that a lock hands on what its last owner knew. Then the test of the spin lock.
\<close>

section \<open>The locks\<close>

text \<open>
  \<open>SpinLock::lock\<close> repeats \<open>test_and_set\<close> with acquire, \<open>unlock\<close> is \<open>clear\<close> with release. A
  \<open>std::mutex\<close> acquires when it is taken and releases when it is given back.
\<close>

definition SpinLock_lock :: "'l \<Rightarrow> 'l prog \<Rightarrow> 'l prog" where
  "SpinLock_lock m k = Access m (\<lambda>_. Some 1) Acquire (\<lambda>v. v = 0) (\<lambda>_. k)"

definition SpinLock_unlock :: "'l \<Rightarrow> 'l prog \<Rightarrow> 'l prog" where
  "SpinLock_unlock m k = Store m 0 Release k"

definition mutex_lock :: "'l \<Rightarrow> 'l prog \<Rightarrow> 'l prog" where
  "mutex_lock m k = Access m (\<lambda>v. if v = 0 then Some 1 else None) Acquire (\<lambda>v. v = 0) (\<lambda>_. k)"

definition mutex_unlock :: "'l \<Rightarrow> 'l prog \<Rightarrow> 'l prog" where
  "mutex_unlock m k = Store m 0 Release k"

section \<open>The invariant of a lock\<close>

definition msg_at :: "'l mem_state \<Rightarrow> 'l \<Rightarrow> nat \<Rightarrow> 'l message option" where
  "msg_at s l t = map_of (ms_mem s l) t"

lemma taken_at: "taken s l t \<longleftrightarrow> msg_at s l t \<noteq> None"
  by (simp add: taken_def msg_at_def map_of_eq_None_iff)

lemma newest_at: "newest s l t \<longleftrightarrow> (\<forall>u. msg_at s l u \<noteq> None \<longrightarrow> u \<le> t)"
  by (auto simp: newest_def msg_at_def map_of_eq_None_iff)

lemma at_put:
  "msg_at (put i l t d mo w th p s) k =
     (if k = l then (msg_at s l)(t \<mapsto> Message d (vjoin w (if releases mo then (th_cur th)(l := t) else (th_rel th)(l := t))))
      else msg_at s k)"
  by (rule ext) (simp add: msg_at_def del: releases.simps)

lemma at_cong: "ms_mem s' l = ms_mem s l \<Longrightarrow> msg_at s' l = msg_at s l"
  by (simp add: msg_at_def fun_eq_iff)

lemma start_simps [simp]:
  "ms_fault (mem_start ps) = None"
  "ms_thread (mem_start ps) i = \<lparr>th_prog = ps i, th_cur = \<lambda>_. 0, th_acq = \<lambda>_. 0, th_rel = \<lambda>_. 0\<rparr>"
  by (simp_all add: mem_start_def)

lemma at_start: "msg_at (mem_start ps) l = [0 \<mapsto> Message 0 (\<lambda>_. 0)]"
  by (rule ext) (simp add: msg_at_def mem_start_def)

text \<open>
  A message 0 is a free lock, and can be taken while nothing comes right after it. When nobody
  holds the lock there is exactly one such message, the last one, and its view satisfies \<open>G\<close>.
  After the message by which the owner has taken the lock there are only the marks of those who
  wait.
\<close>

definition lock_inv :: "'l \<Rightarrow> ('l view \<Rightarrow> bool) \<Rightarrow> nat option \<Rightarrow> 'l mem_state \<Rightarrow> bool" where
  "lock_inv m G h s \<longleftrightarrow>
     (case h of
        None \<Rightarrow> \<exists>u w. msg_at s m u = Some (Message 0 w) \<and> newest s m u \<and> G w \<and>
          (\<forall>t v. msg_at s m t = Some (Message 0 v) \<longrightarrow> t \<noteq> u \<longrightarrow> taken s m (Suc t))
      | Some i \<Rightarrow> taken s m (th_cur (ms_thread s i) m) \<and>
          (\<forall>t v. msg_at s m t = Some (Message 0 v) \<longrightarrow> taken s m (Suc t)) \<and>
          (\<forall>t. taken s m (Suc t) \<longrightarrow> th_cur (ms_thread s i) m \<le> t \<longrightarrow> taken s m t))"

lemma lock_free:
  assumes "lock_inv m G h s" "msg_at s m t = Some (Message 0 w)" "\<not> taken s m (Suc t)"
  shows "h = None" "G w" "newest s m t"
proof -
  show h: "h = None"
  proof (cases h)
    case (Some i)
    then show ?thesis using assms unfolding lock_inv_def by auto
  qed simp
  obtain u v where u: "msg_at s m u = Some (Message 0 v)" "newest s m u" "G v"
    "\<And>t v. msg_at s m t = Some (Message 0 v) \<Longrightarrow> t \<noteq> u \<Longrightarrow> taken s m (Suc t)"
    using assms(1) unfolding lock_inv_def h by auto
  have "t = u" using u(4) [OF assms(2)] assms(3) by blast
  then show "G w" "newest s m t" using u assms(2) by auto
qed

text \<open>Taking the lock, marking it once more, giving it back, and steps on other objects.\<close>

lemma lock_take:
  assumes i: "lock_inv m G h s" and t: "msg_at s m t = Some (Message 0 w)" "\<not> taken s m (Suc t)"
    and s': "msg_at s' m = (msg_at s m)(Suc t \<mapsto> Message 1 v)" "th_cur (ms_thread s' i) m = Suc t"
  shows "lock_inv m G' (Some i) s'"
proof -
  note f = lock_free [OF i t]
  obtain u w' where u: "msg_at s m u = Some (Message 0 w')" "newest s m u"
    "\<forall>t v. msg_at s m t = Some (Message 0 v) \<longrightarrow> t \<noteq> u \<longrightarrow> taken s m (Suc t)"
    using i unfolding lock_inv_def f(1) by auto
  have "t = u" using u(3) t by blast
  then have n: "\<And>k. msg_at s m k \<noteq> None \<Longrightarrow> k \<le> t" using u(2) by (simp add: newest_at)
  show ?thesis
    unfolding lock_inv_def option.case taken_at s'
  proof (intro conjI allI impI)
    fix k v' assume "((msg_at s m)(Suc t \<mapsto> Message 1 v)) k = Some (Message 0 v')"
    then have "msg_at s m k = Some (Message 0 v')" by (auto split: if_splits)
    then show "((msg_at s m)(Suc t \<mapsto> Message 1 v)) (Suc k) \<noteq> None"
      using u(3) \<open>t = u\<close> by (auto simp: taken_at)
  next
    fix k assume k: "((msg_at s m)(Suc t \<mapsto> Message 1 v)) (Suc k) \<noteq> None" "Suc t \<le> k"
    then have "msg_at s m (Suc k) \<noteq> None" by simp
    then have "Suc k \<le> t" by (rule n)
    with k(2) show "((msg_at s m)(Suc t \<mapsto> Message 1 v)) k \<noteq> None" by simp
  qed simp
qed

lemma lock_again:
  assumes i: "lock_inv m G h s" and t: "msg_at s m t = Some (Message d w)" "d \<noteq> 0" "\<not> taken s m (Suc t)"
    and s': "msg_at s' m = (msg_at s m)(Suc t \<mapsto> Message 1 v)"
      "\<And>j. h = Some j \<Longrightarrow> th_cur (ms_thread s' j) m = th_cur (ms_thread s j) m"
    and G: "\<And>w. G w \<Longrightarrow> G' w"
  shows "lock_inv m G' h s'"
proof (cases h)
  case None
  then obtain u w' where u: "msg_at s m u = Some (Message 0 w')" "newest s m u" "G w'"
    "\<And>t v. msg_at s m t = Some (Message 0 v) \<Longrightarrow> t \<noteq> u \<Longrightarrow> taken s m (Suc t)"
    using i unfolding lock_inv_def by auto
  have "t \<le> u" "t \<noteq> u" using u(1,2) t(1,2) by (auto simp: newest_at)
  moreover have "Suc t \<noteq> u" using u(1) t(3) by (auto simp: taken_at)
  ultimately have tu: "Suc t < u" by simp
  have "newest s' m u" using u(2) tu by (auto simp: newest_at s')
  moreover have "taken s' m (Suc k)" if "msg_at s' m k = Some (Message 0 x)" "k \<noteq> u" for k x
    using that u(4) [of k x] by (auto simp: taken_at s' split: if_splits)
  moreover have "msg_at s' m u = Some (Message 0 w')" using u(1) tu by (simp add: s')
  ultimately show ?thesis unfolding lock_inv_def None option.case using G [OF u(3)] by blast
next
  case (Some j)
  have c: "th_cur (ms_thread s' j) m = th_cur (ms_thread s j) m" by (rule s'(2) [OF Some])
  show ?thesis
    using i t unfolding lock_inv_def Some option.case c taken_at s'(1)
    by (auto split: if_splits)
qed

lemma lock_release:
  assumes i: "lock_inv m G (Some i) s" and t: "th_cur (ms_thread s i) m < t" "\<not> taken s m t"
    and s': "msg_at s' m = (msg_at s m)(t \<mapsto> Message 0 v)" and G: "G' v"
  shows "lock_inv m G' None s'"
proof -
  let ?c = "th_cur (ms_thread s i) m"
  have z: "\<And>k v. msg_at s m k = Some (Message 0 v) \<Longrightarrow> taken s m (Suc k)"
    and dn: "\<And>k. taken s m (Suc k) \<Longrightarrow> ?c \<le> k \<Longrightarrow> taken s m k"
    using i unfolding lock_inv_def by auto
  have "k < t" if "taken s m k" for k
  proof (rule ccontr)
    assume "\<not> k < t"
    then obtain e where e: "k = t + e" using le_iff_add not_less by metis
    have "taken s m (t + e) \<Longrightarrow> taken s m t" for e
    proof (induction e)
      case (Suc e)
      then show ?case using dn [of "t + e"] t(1) by simp
    qed simp
    then show False using that t(2) e by blast
  qed
  then have n: "newest s' m t" by (force simp: newest_at s' taken_at split: if_splits)
  have "taken s' m (Suc k)" if "msg_at s' m k = Some (Message 0 x)" "k \<noteq> t" for k x
    using that z [of k x] by (auto simp: taken_at s' split: if_splits)
  then show ?thesis unfolding lock_inv_def option.case using n G by (auto simp: s' intro!: exI [of _ t])
qed

lemma lock_frame:
  assumes "lock_inv m G h s" "msg_at s' m = msg_at s m"
    and "\<And>j. h = Some j \<Longrightarrow> th_cur (ms_thread s' j) m = th_cur (ms_thread s j) m"
    and "\<And>w. h = None \<Longrightarrow> G w \<Longrightarrow> G' w"
  shows "lock_inv m G' h s'"
proof (cases h)
  case None
  then show ?thesis
    using assms(1) assms(4) [OF None] unfolding lock_inv_def None option.case newest_at taken_at assms(2) by blast
next
  case (Some j)
  then show ?thesis
    using assms(1) unfolding lock_inv_def Some option.case newest_at taken_at assms(2) assms(3) [OF Some] by blast
qed

section \<open>The test of the spin lock\<close>

text \<open>
  \<open>TestSpinLock\<close>: each thread takes the lock, prints its line character by character and gives the
  lock back. What has been printed is one plain object, a number whose digits are the characters:
  1 is the star, 2 the question mark, 3 the end of the line.
\<close>

datatype spin_var = LockFlag | Cout

definition out :: "nat \<Rightarrow> nat \<Rightarrow> nat" where
  "out v c = 4 * v + c"

fun print :: "nat list \<Rightarrow> spin_var prog \<Rightarrow> spin_var prog" where
  "print [] k = k"
| "print (c # cs) k = Read Cout (\<lambda>v. Write Cout (out v c) (print cs k))"

definition spin_thread :: "nat list \<Rightarrow> spin_var prog" where
  "spin_thread line = SpinLock_lock LockFlag (print line (SpinLock_unlock LockFlag Finish))"

definition text_of :: "nat list \<Rightarrow> nat" where
  "text_of = foldl out 0"

definition spin_threads :: "nat set \<Rightarrow> (nat \<Rightarrow> nat list) \<Rightarrow> nat \<Rightarrow> spin_var prog" where
  "spin_threads T line i = (if i \<in> T then spin_thread (line i) else Finish)"

definition TestSpinLock :: "nat \<Rightarrow> spin_var prog" where
  "TestSpinLock = spin_threads {0, 1} (\<lambda>i. if i = 0 then [1, 1, 1, 3] else [2, 2, 2, 3])"

text \<open>What the threads do: the owner \<open>h\<close> has printed \<open>pre\<close> of its line, \<open>ds\<close> are the ones that are done.\<close>

definition owner_prog :: "nat list \<Rightarrow> nat list \<Rightarrow> nat \<Rightarrow> spin_var prog \<Rightarrow> bool" where
  "owner_prog line pre txt p \<longleftrightarrow>
     (\<exists>rest. line = pre @ rest \<and>
       (p = print rest (SpinLock_unlock LockFlag Finish) \<or>
        (\<exists>c r. rest = c # r \<and> p = Write Cout (out txt c) (print r (SpinLock_unlock LockFlag Finish)))))"

definition spin_phase :: "nat set \<Rightarrow> (nat \<Rightarrow> nat list) \<Rightarrow> nat option \<Rightarrow> nat list \<Rightarrow> nat list \<Rightarrow> nat \<Rightarrow> spin_var prog \<Rightarrow> bool" where
  "spin_phase T line h ds pre i p \<longleftrightarrow>
     (if h = Some i then i \<in> T \<and> i \<notin> set ds \<and> owner_prog (line i) pre (text_of (concat (map line ds) @ pre)) p
      else if i \<in> T \<and> i \<notin> set ds then p = spin_thread (line i) else p = Finish)"

definition spin_inv :: "nat set \<Rightarrow> (nat \<Rightarrow> nat list) \<Rightarrow> nat option \<Rightarrow> nat list \<Rightarrow> nat list \<Rightarrow> nat \<Rightarrow> spin_var mem_state \<Rightarrow> bool" where
  "spin_inv T line h ds pre n s \<longleftrightarrow>
     ms_fault s = None \<and> distinct ds \<and> set ds \<subseteq> T \<and> (h = None \<longrightarrow> pre = []) \<and>
     lock_inv LockFlag (\<lambda>w. w Cout = n) h s \<and>
     (\<exists>w. msg_at s Cout n = Some (Message (text_of (concat (map line ds) @ pre)) w)) \<and> newest s Cout n \<and>
     (\<forall>t v w. msg_at s LockFlag t = Some (Message v w) \<longrightarrow> w Cout \<le> n) \<and>
     (\<forall>i. th_cur (ms_thread s i) Cout \<le> n \<and> th_rel (ms_thread s i) Cout \<le> n \<and>
        (h = Some i \<longrightarrow> th_cur (ms_thread s i) Cout = n) \<and>
        spin_phase T line h ds pre i (th_prog (ms_thread s i)))"

lemma spin_invD:
  assumes "spin_inv T line h ds pre n s"
  shows "lock_inv LockFlag (\<lambda>w. w Cout = n) h s" "newest s Cout n" "distinct ds" "set ds \<subseteq> T" "ms_fault s = None"
    "h = None \<Longrightarrow> pre = []"
    "\<exists>w. msg_at s Cout n = Some (Message (text_of (concat (map line ds) @ pre)) w)"
    "msg_at s LockFlag t = Some (Message v w) \<Longrightarrow> w Cout \<le> n"
    "th_cur (ms_thread s i) Cout \<le> n" "th_rel (ms_thread s i) Cout \<le> n"
    "h = Some i \<Longrightarrow> th_cur (ms_thread s i) Cout = n"
    "spin_phase T line h ds pre i (th_prog (ms_thread s i))"
  using assms unfolding spin_inv_def by blast+

lemma spin_wait_step:
  assumes i: "spin_inv T line h ds pre n s" and p: "th_prog (ms_thread s i) = spin_thread (line i)"
    and hi: "h \<noteq> Some i" "i \<in> T" "i \<notin> set ds" and st: "mem_exec (i, t) s = Some s'"
  shows "\<exists>h pre. spin_inv T line h ds pre n s'"
proof -
  let ?th = "ms_thread s i"
  let ?k = "print (line i) (SpinLock_unlock LockFlag Finish)"
  note d = spin_invD [OF i]
  obtain v w where m: "msg_at s LockFlag t = Some (Message v w)" and nt: "\<not> taken s LockFlag (Suc t)"
    and s': "s' = put i LockFlag (Suc t) 1 Acquire w (see LockFlag t w Acquire ?th) (if v = 0 then ?k else spin_thread (line i)) s"
    using st p unfolding spin_thread_def SpinLock_lock_def msg_at_def
    by (auto simp: Let_def simp del: acquires.simps split: option.splits message.splits if_splits)
  have wn: "w Cout \<le> n" using d(8) [OF m] .
  have lk: "msg_at s' LockFlag = (msg_at s LockFlag)(Suc t \<mapsto> Message 1 (vjoin w ((th_rel ?th)(LockFlag := Suc t))))"
    unfolding s' at_put by (simp add: see_def)
  have co: "msg_at s' Cout = msg_at s Cout" unfolding s' at_put by simp
  have ne: "newest s' Cout n" using d(2) unfolding newest_at co .
  have tj: "ms_thread s' j = ms_thread s j" if "j \<noteq> i" for j using that by (simp add: s')
  have cu: "th_cur (ms_thread s' i) Cout = max (th_cur ?th Cout) (w Cout)" "th_rel (ms_thread s' i) = th_rel ?th"
    "th_cur (ms_thread s' i) LockFlag = Suc t" "th_prog (ms_thread s' i) = (if v = 0 then ?k else spin_thread (line i))"
    by (simp_all add: s' see_def vjoin_def)
  have vw: "msg_at s' LockFlag x = Some (Message y z) \<Longrightarrow> z Cout \<le> n" for x y z
    using d(8) [of x y z] d(10) [of i] wn by (auto simp: lk vjoin_def split: if_splits)
  have cn: "th_cur (ms_thread s' j) Cout \<le> n" "th_rel (ms_thread s' j) Cout \<le> n" for j
    using d(9,10) [of j] wn cu tj [of j] by (cases "j = i"; simp)+
  have flt: "ms_fault s' = None" using d(5) by (simp add: s')
  show ?thesis
  proof (cases "v = 0")
    case True
    note f = lock_free [OF d(1) m [unfolded True] nt]
    have pre: "pre = []" by (rule d(6) [OF f(1)])
    have L: "lock_inv LockFlag (\<lambda>w. w Cout = n) (Some i) s'"
      by (rule lock_take [OF d(1) m [unfolded True] nt lk cu(3)])
    have "spin_phase T line (Some i) ds [] j (th_prog (ms_thread s' j))" for j
      using d(12) [of j] tj [of j] cu(4) True hi f(1) by (cases "j = i") (auto simp: spin_phase_def owner_prog_def)
    moreover have "th_cur (ms_thread s' i) Cout = n" using cu(1) f(2) d(9) [of i] by simp
    ultimately have "spin_inv T line (Some i) ds [] n s'"
      using L ne flt d(3,4,7) vw cn unfolding spin_inv_def co pre by simp
    then show ?thesis by blast
  next
    case False
    have "lock_inv LockFlag (\<lambda>w. w Cout = n) h s'"
      by (rule lock_again [OF d(1) m False nt lk]) (use tj hi in auto)
    moreover have "spin_phase T line h ds pre j (th_prog (ms_thread s' j))" for j
      using d(12) [of j] tj [of j] cu(4) False hi by (cases "j = i") (auto simp: spin_phase_def)
    moreover have "h = Some j \<Longrightarrow> th_cur (ms_thread s' j) Cout = n" for j
      using d(11) [of j] tj [of j] hi by auto
    ultimately have "spin_inv T line h ds pre n s'"
      using ne flt d(3,4,6,7) vw cn unfolding spin_inv_def co by simp
    then show ?thesis by blast
  qed
qed

lemma owner_cases:
  assumes "owner_prog line pre txt p"
  obtains (unlock) "line = pre" "p = SpinLock_unlock LockFlag Finish"
    | (look) c r where "line = pre @ c # r" "p = print (c # r) (SpinLock_unlock LockFlag Finish)"
    | (put) c r where "line = pre @ c # r" "p = Write Cout (out txt c) (print r (SpinLock_unlock LockFlag Finish))"
proof -
  obtain rest where r: "line = pre @ rest" "p = print rest (SpinLock_unlock LockFlag Finish) \<or>
      (\<exists>c r. rest = c # r \<and> p = Write Cout (out txt c) (print r (SpinLock_unlock LockFlag Finish)))"
    using assms unfolding owner_prog_def by blast
  show ?thesis
  proof (cases rest)
    case Nil
    then show ?thesis using r unlock by auto
  next
    case (Cons c cs)
    then show ?thesis using r look put by auto
  qed
qed

lemma spin_owner_step:
  assumes i: "spin_inv T line (Some i) ds pre n s" and st: "mem_exec (i, t) s = Some s'"
  shows "\<exists>h ds pre n. spin_inv T line h ds pre n s'"
proof -
  let ?th = "ms_thread s i"
  let ?txt = "text_of (concat (map line ds) @ pre)"
  let ?u = "SpinLock_unlock LockFlag Finish"
  note d = spin_invD [OF i]
  have ow: "owner_prog (line i) pre ?txt (th_prog ?th)" and hi: "i \<in> T" "i \<notin> set ds"
    using d(12) [of i] by (simp_all add: spin_phase_def)
  have cn: "th_cur ?th Cout = n" using d(11) [of i] by simp
  obtain w where tx0: "msg_at s Cout n = Some (Message ?txt w)" using d(7) by blast
  from ow show ?thesis
  proof (cases rule: owner_cases)
    case unlock
    have t: "th_cur ?th LockFlag < t" "\<not> taken s LockFlag t" and s': "s' = put i LockFlag t 0 Release (\<lambda>_. 0) ?th Finish s"
      using st unlock(2) by (auto simp: SpinLock_unlock_def split: if_splits)
    let ?v = "vjoin (\<lambda>_. 0) ((th_cur ?th)(LockFlag := t))"
    have lk: "msg_at s' LockFlag = (msg_at s LockFlag)(t \<mapsto> Message 0 ?v)" unfolding s' at_put by simp
    have co: "msg_at s' Cout = msg_at s Cout" unfolding s' at_put by simp
    have ne: "newest s' Cout n" using d(2) unfolding newest_at co .
    have tj: "ms_thread s' j = ms_thread s j" if "j \<noteq> i" for j using that by (simp add: s')
    have v: "?v Cout = n" using cn by (simp add: vjoin_def)
    have L: "lock_inv LockFlag (\<lambda>w. w Cout = n) None s'"
      by (rule lock_release [where G' = "\<lambda>w. w Cout = n", OF d(1) t lk v])
    have vw: "msg_at s' LockFlag x = Some (Message y z) \<Longrightarrow> z Cout \<le> n" for x y z
      using d(8) [of x y z] v by (auto simp: lk split: if_splits)
    have cu: "th_cur (ms_thread s' j) Cout \<le> n" "th_rel (ms_thread s' j) Cout \<le> n" for j
      using d(9,10) [of j] tj [of j] by (cases "j = i"; simp add: s')+
    have ph: "spin_phase T line None (ds @ [i]) [] j (th_prog (ms_thread s' j))" for j
      using d(12) [of j] tj [of j] hi by (cases "j = i") (auto simp: spin_phase_def s')
    have tx: "concat (map line (ds @ [i])) @ [] = concat (map line ds) @ pre" using unlock(1) by simp
    have "spin_inv T line None (ds @ [i]) [] n s'"
      unfolding spin_inv_def co tx using L ne vw cu ph tx0 d(3,4,5) hi by (auto simp: s')
    then show ?thesis by blast
  next
    case (look c r)
    have s': "s' = set_thread i (?th\<lparr>th_prog := Write Cout (out ?txt c) (print r ?u)\<rparr>) s"
      using st look(2) d(2) tx0 cn by (simp add: msg_at_def)
    have at: "msg_at s' = msg_at s" by (rule ext, rule at_cong) (simp add: s')
    have tj: "th_cur (ms_thread s' j) = th_cur (ms_thread s j)" "th_rel (ms_thread s' j) = th_rel (ms_thread s j)" for j
      by (simp_all add: s')
    have L: "lock_inv LockFlag (\<lambda>w. w Cout = n) (Some i) s'"
      by (rule lock_frame [OF d(1)]) (simp_all add: at tj)
    have ph: "spin_phase T line (Some i) ds pre j (th_prog (ms_thread s' j))" for j
      using d(12) [of j] hi look(1) by (cases "j = i") (auto simp: spin_phase_def s' owner_prog_def)
    have "spin_inv T line (Some i) ds pre n s'"
      using i L ph unfolding spin_inv_def at tj newest_at by (simp add: s')
    then show ?thesis by blast
  next
    case (put c r)
    have nw: "newest s Cout (th_cur ?th Cout)" using d(2) cn by simp
    then have t: "n < t" and s': "s' = put i Cout t (out ?txt c) Relaxed (\<lambda>_. 0) ?th (print r ?u) s"
      using st put(2) cn by (auto split: if_splits)
    let ?v = "vjoin (\<lambda>_. 0) ((th_rel ?th)(Cout := t))"
    have co: "msg_at s' Cout = (msg_at s Cout)(t \<mapsto> Message (out ?txt c) ?v)" unfolding s' at_put by simp
    have lk: "msg_at s' LockFlag = msg_at s LockFlag" unfolding s' at_put by simp
    have ne: "newest s' Cout t" using d(2) t unfolding newest_at co by (auto dest: less_imp_le order.trans)
    have tj: "ms_thread s' j = ms_thread s j" if "j \<noteq> i" for j using that by (simp add: s')
    have L: "lock_inv LockFlag (\<lambda>w. w Cout = t) (Some i) s'"
      by (rule lock_frame [OF d(1) lk]) (simp_all add: s')
    have vw: "msg_at s LockFlag x = Some (Message y z) \<Longrightarrow> z Cout \<le> t" for x y z
      using d(8) [of x y z] t by simp
    have cu: "th_cur (ms_thread s' j) Cout \<le> t" "th_rel (ms_thread s' j) Cout \<le> t" for j
      using d(9,10) [of j] tj [of j] t by (cases "j = i"; simp add: s')+
    have ph: "spin_phase T line (Some i) ds (pre @ [c]) j (th_prog (ms_thread s' j))" for j
      using d(12) [of j] hi put(1) by (cases "j = i") (auto simp: spin_phase_def s' owner_prog_def)
    have tx: "text_of (concat (map line ds) @ pre @ [c]) = out ?txt c" by (simp add: text_of_def)
    have "spin_inv T line (Some i) ds (pre @ [c]) t s'"
      unfolding spin_inv_def tx using L ne vw cu ph d(3,4,5) by (simp add: s' lk [unfolded s'] co [unfolded s'])
    then show ?thesis by blast
  qed
qed

definition spin_ok :: "nat set \<Rightarrow> (nat \<Rightarrow> nat list) \<Rightarrow> spin_var mem_state \<Rightarrow> bool" where
  "spin_ok T line s \<longleftrightarrow> (\<exists>h ds pre n. spin_inv T line h ds pre n s)"

lemma spin_ok_step: "spin_ok T line s \<Longrightarrow> mem_exec e s = Some s' \<Longrightarrow> spin_ok T line s'"
proof -
  assume a: "spin_ok T line s" "mem_exec e s = Some s'"
  then obtain h ds pre n where i: "spin_inv T line h ds pre n s" by (auto simp: spin_ok_def)
  obtain k t where e: "e = (k, t)" by (cases e)
  note st = a(2) [unfolded e]
  show ?thesis
  proof (cases "h = Some k")
    case True
    with spin_owner_step [of T line k ds pre n s t s'] i st show ?thesis by (auto simp: spin_ok_def)
  next
    case False
    have ph: "spin_phase T line h ds pre k (th_prog (ms_thread s k))" by (rule spin_invD(12) [OF i])
    then have "th_prog (ms_thread s k) \<noteq> Finish" using st by auto
    with ph False have w: "k \<in> T" "k \<notin> set ds" "th_prog (ms_thread s k) = spin_thread (line k)"
      by (auto simp: spin_phase_def split: if_splits)
    from spin_wait_step [OF i w(3) False w(1,2) st] show ?thesis by (auto simp: spin_ok_def)
  qed
qed

interpretation spin: inv_machine mem_exec "spin_ok T line" for T line
  by unfold_locales (rule spin_ok_step)

lemma spin_inv_start: "spin_inv T line None [] [] 0 (mem_start (spin_threads T line))"
proof -
  have "lock_inv LockFlag (\<lambda>w. w Cout = 0) None (mem_start (spin_threads T line))"
    by (simp add: lock_inv_def at_start newest_at)
  then show ?thesis
    by (auto simp: spin_inv_def at_start newest_at text_of_def spin_phase_def spin_threads_def split: if_splits)
qed

definition in_section :: "spin_var mem_state \<Rightarrow> (nat \<Rightarrow> nat list) \<Rightarrow> nat \<Rightarrow> bool" where
  "in_section s line i \<longleftrightarrow> th_prog (ms_thread s i) \<noteq> Finish \<and> th_prog (ms_thread s i) \<noteq> spin_thread (line i)"

definition printed :: "spin_var mem_state \<Rightarrow> nat \<Rightarrow> bool" where
  "printed s v \<longleftrightarrow> (\<exists>n w. newest s Cout n \<and> msg_at s Cout n = Some (Message v w))"

lemma spin_ok_section: "spin_ok T line s \<Longrightarrow> in_section s line i \<Longrightarrow> in_section s line j \<Longrightarrow> i = j"
proof -
  assume a: "spin_ok T line s" "in_section s line i" "in_section s line j"
  then obtain h ds pre n where v: "spin_inv T line h ds pre n s" by (auto simp: spin_ok_def)
  have "h = Some k" if "in_section s line k" for k
    using spin_invD(12) [OF v, of k] that by (auto simp: spin_phase_def in_section_def split: if_splits)
  from this [OF a(2)] this [OF a(3)] show ?thesis by simp
qed

lemma spin_ok_printed:
  assumes "spin_ok T line s" "\<And>i. i \<in> T \<Longrightarrow> th_prog (ms_thread s i) = Finish"
  shows "\<exists>ds. distinct ds \<and> set ds = T \<and> printed s (text_of (concat (map line ds)))"
proof -
  obtain h ds pre n where v: "spin_inv T line h ds pre n s" using assms(1) by (auto simp: spin_ok_def)
  have h: "h = None"
  proof (rule ccontr)
    assume "h \<noteq> None"
    then obtain i where h: "h = Some i" by blast
    have "i \<in> T" "owner_prog (line i) pre (text_of (concat (map line ds) @ pre)) (th_prog (ms_thread s i))"
      using spin_invD(12) [OF v, of i] h by (simp_all add: spin_phase_def)
    from this(2) assms(2) [OF this(1)] show False
      by (cases rule: owner_cases) (simp_all add: SpinLock_unlock_def)
  qed
  have "i \<in> set ds" if "i \<in> T" for i
    using spin_invD(12) [OF v, of i] assms(2) [OF that] that h
    by (auto simp: spin_phase_def spin_thread_def SpinLock_lock_def split: if_splits)
  moreover obtain w where "msg_at s Cout n = Some (Message (text_of (concat (map line ds) @ pre)) w)"
    using spin_invD(7) [OF v] by blast
  ultimately show ?thesis
    using spin_invD(2-4,6) [OF v] h unfolding printed_def by fastforce
qed

text \<open>
  C28. With any number of threads, at most one is between \<open>lock\<close> and \<open>unlock\<close> of the \<open>SpinLock\<close>,
  the output is accessed without a race although only the lock orders it, and when the threads are
  done their lines have been printed whole, one after the other.
\<close>

theorem spin_lock_excludes:
  assumes "run mem_exec es (mem_start (spin_threads T line)) = Some s"
  shows "ms_fault s = None \<and> (in_section s line i \<longrightarrow> in_section s line j \<longrightarrow> i = j) \<and>
    ((\<forall>i\<in>T. th_prog (ms_thread s i) = Finish) \<longrightarrow>
      (\<exists>ds. distinct ds \<and> set ds = T \<and> printed s (text_of (concat (map line ds)))))"
proof -
  have "spin_ok T line (mem_start (spin_threads T line))"
    unfolding spin_ok_def using spin_inv_start by blast
  from spin.run_inv [OF this assms] have ok: "spin_ok T line s" .
  then have "ms_fault s = None" by (auto simp: spin_ok_def spin_inv_def)
  with spin_ok_section [OF ok] spin_ok_printed [OF ok] show ?thesis by blast
qed

lemma spin_lock_excludes_witness:
  "\<exists>s. run mem_exec ([(0, 0), (1, 1)] @ map (Pair 0) [0, 1, 0, 2, 0, 3, 0, 4, 3] @ [(1, 3), (1, 0), (1, 9)])
       (mem_start TestSpinLock) = Some s \<and> ms_fault s = None"
proof -
  obtain s where s: "run mem_exec ([(0, 0), (1, 1)] @ map (Pair 0) [0, 1, 0, 2, 0, 3, 0, 4, 3] @ [(1, 3), (1, 0), (1, 9)])
      (mem_start TestSpinLock) = Some s"
    by (simp add: TestSpinLock_def mem_start_def spin_threads_def spin_thread_def SpinLock_lock_def SpinLock_unlock_def
        taken_def put_def set_thread_def sc_update_def see_def vjoin_def Let_def newest_def out_def)
  with spin_lock_excludes [OF s [unfolded TestSpinLock_def]] show ?thesis by blast
qed

end
