(* ===== verification/Singletons.thy ===== *)
theory Singletons
  imports LockMem
begin

text \<open>
  The singletons of \<open>day04-singleton.cpp\<close> and \<open>day11-AcquireRelease.cpp\<close>: several threads call
  \<open>GetInst\<close> at a time. \<open>SingleMemoryModel\<close> guards its pointer by an atomic flag and a mutex,
  \<open>SingletonOnce\<close> by \<open>call_once\<close>, the others read the plain pointer without the lock.
\<close>

section \<open>The code\<close>

text \<open>
  \<open>Inst\<close> is the static pointer, a plain object; 0 is the null pointer, the object that thread \<open>i\<close>
  creates is \<open>i + 1\<close>. \<open>Got i\<close> takes what the call of thread \<open>i\<close> returns.
\<close>

datatype single_var = Inst | Init | Mutex | Got nat

definition return_inst :: "nat \<Rightarrow> single_var prog" where
  "return_inst i = Read Inst (\<lambda>p. Store (Got i) p Relaxed Finish)"

definition create_inst :: "nat \<Rightarrow> single_var prog" where
  "create_inst i =
     mutex_lock Mutex (Load Init Relaxed (\<lambda>b. if b \<noteq> 0 then mutex_unlock Mutex (return_inst i)
       else Write Inst (i + 1) (Store Init 1 Release (mutex_unlock Mutex (return_inst i)))))"

text \<open>\<open>SingleMemoryModel::GetInst\<close>.\<close>

definition SingleMemoryModel_GetInst :: "nat \<Rightarrow> single_var prog" where
  "SingleMemoryModel_GetInst i =
     Load Init Acquire (\<lambda>b. if b \<noteq> 0 then return_inst i else create_inst i)"

text \<open>
  \<open>SingletonOnce::GetInstance\<close>: one of the calls of \<open>call_once\<close> runs the function, the others wait
  for its end.
\<close>

definition SingletonOnce_GetInstance :: "nat \<Rightarrow> single_var prog" where
  "SingletonOnce_GetInstance i = create_inst i"

text \<open>The template \<open>Singleton\<close> is the same; a local static variable is initialised in the same way.\<close>

definition Singleton_GetInstance :: "nat \<Rightarrow> single_var prog" where
  "Singleton_GetInstance i = create_inst i"

definition Single2_GetInst :: "nat \<Rightarrow> single_var prog" where
  "Single2_GetInst i = create_inst i"

text \<open>\<open>GetInst\<close> of \<open>SinglePointer\<close>, \<open>SingleAuto\<close> and \<open>SingleAutoSafe\<close>; and without the lock, of \<open>Single2Hungry\<close>.\<close>

definition SinglePointer_GetInst :: "nat \<Rightarrow> single_var prog" where
  "SinglePointer_GetInst i =
     Read Inst (\<lambda>p. if p \<noteq> 0 then return_inst i else
       mutex_lock Mutex (Read Inst (\<lambda>p. if p \<noteq> 0 then mutex_unlock Mutex (return_inst i)
         else Write Inst (i + 1) (mutex_unlock Mutex (return_inst i)))))"

definition SingleAuto_GetInst :: "nat \<Rightarrow> single_var prog" where
  "SingleAuto_GetInst i = SinglePointer_GetInst i"

definition SingleAutoSafe_GetInst :: "nat \<Rightarrow> single_var prog" where
  "SingleAutoSafe_GetInst i = SinglePointer_GetInst i"

definition Single2Hungry_GetInst :: "nat \<Rightarrow> single_var prog" where
  "Single2Hungry_GetInst i = Read Inst (\<lambda>p. if p = 0 then Write Inst (i + 1) (return_inst i) else return_inst i)"

section \<open>The flag and the lock\<close>

definition unlock_prog :: "nat \<Rightarrow> single_var prog" where
  "unlock_prog i = mutex_unlock Mutex (return_inst i)"

definition init_prog :: "nat \<Rightarrow> single_var prog" where
  "init_prog i = Store Init 1 Release (unlock_prog i)"

definition write_prog :: "nat \<Rightarrow> single_var prog" where
  "write_prog i = Write Inst (i + 1) (init_prog i)"

definition locked_prog :: "nat \<Rightarrow> single_var prog" where
  "locked_prog i = Load Init Relaxed (\<lambda>b. if b \<noteq> 0 then unlock_prog i else write_prog i)"

lemma create_inst_eq: "create_inst i = mutex_lock Mutex (locked_prog i)"
  unfolding create_inst_def locked_prog_def write_prog_def init_prog_def unlock_prog_def by (rule refl)

text \<open>
  \<open>n\<close> is the place of the one write of the pointer \<open>p\<close>, 0 before it. The owner of the mutex knows
  the pointer and, once it is written, the flag; whoever has seen the flag knows the pointer.
\<close>

definition single_phase :: "nat option \<Rightarrow> nat \<Rightarrow> nat \<Rightarrow> nat \<Rightarrow> single_var thread \<Rightarrow> bool" where
  "single_phase h n p i th \<longleftrightarrow>
     th_cur th Inst \<le> n \<and> th_rel th Inst \<le> n \<and>
     (if h = Some i then th_cur th Inst = n \<and>
        (th_prog th = locked_prog i \<and> (n > 0 \<longrightarrow> th_cur th Init > 0) \<or>
         th_prog th = write_prog i \<and> n = 0 \<or>
         th_prog th = init_prog i \<and> n > 0 \<or>
         th_prog th = unlock_prog i \<and> n > 0 \<and> th_cur th Init > 0)
      else th_prog th = SingleMemoryModel_GetInst i \<or> th_prog th = create_inst i \<or>
         th_prog th = return_inst i \<and> n > 0 \<and> th_cur th Inst = n \<or>
         th_prog th = Store (Got i) p Relaxed Finish \<and> n > 0 \<or> th_prog th = Finish)"

definition single_inv :: "nat option \<Rightarrow> nat \<Rightarrow> nat \<Rightarrow> single_var mem_state \<Rightarrow> bool" where
  "single_inv h n p s \<longleftrightarrow>
     ms_fault s = None \<and> lock_inv Mutex (\<lambda>w. w Inst = n \<and> (n > 0 \<longrightarrow> w Init > 0)) h s \<and>
     (\<exists>w. msg_at s Inst n = Some (Message p w)) \<and> newest s Inst n \<and> (n = 0 \<longleftrightarrow> p = 0) \<and>
     (\<forall>t v w. msg_at s Mutex t = Some (Message v w) \<longrightarrow> w Inst \<le> n) \<and>
     (\<forall>t v w. msg_at s Init t = Some (Message v w) \<longrightarrow>
        (if t = 0 then v = 0 \<and> w Inst = 0 else v = 1 \<and> n > 0 \<and> w Inst = n)) \<and>
     (\<forall>k t v w. msg_at s (Got k) t = Some (Message v w) \<longrightarrow> t > 0 \<longrightarrow> n > 0 \<and> v = p) \<and>
     (\<forall>i. single_phase h n p i (ms_thread s i))"

lemma single_invD:
  assumes "single_inv h n p s"
  shows "ms_fault s = None" "lock_inv Mutex (\<lambda>w. w Inst = n \<and> (n > 0 \<longrightarrow> w Init > 0)) h s"
    "\<exists>w. msg_at s Inst n = Some (Message p w)" "newest s Inst n" "n = 0 \<longleftrightarrow> p = 0"
    "msg_at s Mutex t = Some (Message v w) \<Longrightarrow> w Inst \<le> n"
    "msg_at s Init t = Some (Message v w) \<Longrightarrow> if t = 0 then v = 0 \<and> w Inst = 0 else v = 1 \<and> n > 0 \<and> w Inst = n"
    "msg_at s (Got k) t = Some (Message v w) \<Longrightarrow> t > 0 \<Longrightarrow> n > 0 \<and> v = p"
    "single_phase h n p i (ms_thread s i)"
  using assms unfolding single_inv_def by blast+

text \<open>Steps that leave the mutex, the pointer and the flag alone.\<close>

lemma single_frame:
  assumes i: "single_inv h n p s"
    and at: "msg_at s' Mutex = msg_at s Mutex" "msg_at s' Inst = msg_at s Inst" "msg_at s' Init = msg_at s Init"
    and tj: "\<And>j. j \<noteq> i \<Longrightarrow> ms_thread s' j = ms_thread s j"
    and cm: "h = Some i \<Longrightarrow> th_cur (ms_thread s' i) Mutex = th_cur (ms_thread s i) Mutex"
    and f: "ms_fault s' = None" and ph: "single_phase h n p i (ms_thread s' i)"
    and got: "\<And>k t v w. msg_at s' (Got k) t = Some (Message v w) \<Longrightarrow> t > 0 \<Longrightarrow> n > 0 \<and> v = p"
  shows "single_inv h n p s'"
proof -
  note d = single_invD [OF i]
  have "lock_inv Mutex (\<lambda>w. w Inst = n \<and> (n > 0 \<longrightarrow> w Init > 0)) h s'"
    by (rule lock_frame [OF d(2) at(1)]) (use tj cm in \<open>metis, simp\<close>)
  moreover have "single_phase h n p j (ms_thread s' j)" for j
    using d(9) [of j] tj [of j] ph by (cases "j = i") auto
  ultimately show ?thesis
    unfolding single_inv_def at newest_at using d(3,5,6,7) d(4) [unfolded newest_at] f got by blast
qed

lemma load_step:
  assumes p: "th_prog (ms_thread s i) = Load l mo k" and st: "mem_exec (i, t) s = Some s'" and mo: "mo \<noteq> SeqCst"
  obtains v w where "msg_at s l t = Some (Message v w)" "th_cur (ms_thread s i) l \<le> t"
    "s' = set_thread i ((see l t w mo (ms_thread s i))\<lparr>th_prog := k v\<rparr>) s"
  using st p mo that unfolding msg_at_def
  by (auto simp: Let_def sc_update_def simp del: acquires.simps split: option.splits message.splits if_splits)

lemma at_set_thread [simp]: "msg_at (set_thread i th s) = msg_at s"
  by (rule ext, rule at_cong) simp

lemma see_simps:
  "th_rel (see l t w mo th) = th_rel th"
  "th_cur (see l t w Relaxed th) = (th_cur th)(l := t)"
  "th_cur (see l t w Acquire th) = vjoin ((th_cur th)(l := t)) w"
  by (simp_all add: see_def Let_def)

text \<open>The first look at the flag, with acquire, and the second, under the lock.\<close>

lemma single_first_look:
  assumes i: "single_inv h n p s" and pr: "th_prog (ms_thread s i) = SingleMemoryModel_GetInst i" and hi: "h \<noteq> Some i"
    and st: "mem_exec (i, t) s = Some s'"
  shows "single_inv h n p s'"
proof -
  note d = single_invD [OF i]
  obtain v w where m: "msg_at s Init t = Some (Message v w)"
    and s': "s' = set_thread i ((see Init t w Acquire (ms_thread s i))\<lparr>th_prog := if v \<noteq> 0 then return_inst i else create_inst i\<rparr>) s"
    by (rule load_step [OF pr [unfolded SingleMemoryModel_GetInst_def] st]) simp_all
  have w: "v \<noteq> 0 \<Longrightarrow> n > 0 \<and> w Inst = n" "w Inst \<le> n" using d(7) [OF m] by (auto split: if_splits)
  have ph: "single_phase h n p i (ms_thread s' i)"
    using d(9) [of i] hi w by (auto simp: s' single_phase_def see_simps vjoin_def)
  show ?thesis by (rule single_frame [OF i _ _ _ _ _ _ ph]) (use d(1,8) hi in \<open>auto simp: s'\<close>)
qed

lemma single_second_look:
  assumes i: "single_inv (Some i) n p s" and pr: "th_prog (ms_thread s i) = locked_prog i"
    and st: "mem_exec (i, t) s = Some s'"
  shows "single_inv (Some i) n p s'"
proof -
  note d = single_invD [OF i]
  obtain v w where m: "msg_at s Init t = Some (Message v w)" and t: "th_cur (ms_thread s i) Init \<le> t"
    and s': "s' = set_thread i ((see Init t w Relaxed (ms_thread s i))\<lparr>th_prog := if v \<noteq> 0 then unlock_prog i else write_prog i\<rparr>) s"
    by (rule load_step [OF pr [unfolded locked_prog_def] st]) simp_all
  have c: "th_cur (ms_thread s i) Inst = n" "n > 0 \<longrightarrow> th_cur (ms_thread s i) Init > 0" "th_rel (ms_thread s i) Inst \<le> n"
    using d(9) [of i] pr
    by (auto simp: single_phase_def locked_prog_def write_prog_def init_prog_def unlock_prog_def mutex_unlock_def)
  have "v \<noteq> 0 \<Longrightarrow> n > 0 \<and> t > 0" "v = 0 \<Longrightarrow> n = 0"
    using d(7) [OF m] t c(2) by (auto split: if_splits)
  then have ph: "single_phase (Some i) n p i (ms_thread s' i)"
    using c by (auto simp: s' single_phase_def see_simps)
  show ?thesis by (rule single_frame [OF i _ _ _ _ _ _ ph]) (use d(1,8) in \<open>auto simp: s' see_simps\<close>)
qed

text \<open>Taking the mutex and giving it back.\<close>

lemma single_mutex_step:
  assumes i: "single_inv h n p s" and ot: "\<And>k. k \<noteq> Mutex \<Longrightarrow> msg_at s' k = msg_at s k" and f: "ms_fault s' = None"
    and L: "lock_inv Mutex (\<lambda>w. w Inst = n \<and> (n > 0 \<longrightarrow> w Init > 0)) h' s'"
    and ph: "\<And>j. single_phase h' n p j (ms_thread s' j)"
    and vw: "\<And>t v w. msg_at s' Mutex t = Some (Message v w) \<Longrightarrow> w Inst \<le> n"
  shows "single_inv h' n p s'"
proof -
  note d = single_invD [OF i]
  have o3: "msg_at s' Inst = msg_at s Inst" "msg_at s' Init = msg_at s Init" "\<And>k. msg_at s' (Got k) = msg_at s (Got k)"
    using ot by simp_all
  show ?thesis
    unfolding single_inv_def newest_at o3 using f L ph vw d(3,5,7,8) d(4) [unfolded newest_at] by blast
qed

lemma single_lock:
  assumes i: "single_inv h n p s" and pr: "th_prog (ms_thread s i) = create_inst i" and hi: "h \<noteq> Some i"
    and st: "mem_exec (i, t) s = Some s'"
  shows "\<exists>h. single_inv h n p s'"
proof -
  let ?th = "ms_thread s i"
  note d = single_invD [OF i]
  obtain v w where m: "msg_at s Mutex t = Some (Message v w)"
    and s': "if v = 0 then \<not> taken s Mutex (Suc t) \<and> s' = put i Mutex (Suc t) 1 Acquire w (see Mutex t w Acquire ?th) (locked_prog i) s
       else s' = set_thread i ((see Mutex t w Acquire ?th)\<lparr>th_prog := create_inst i\<rparr>) s"
    using st pr unfolding create_inst_eq mutex_lock_def msg_at_def
    by (auto simp: Let_def sc_update_def simp del: acquires.simps split: option.splits message.splits if_splits)
  have w: "w Inst \<le> n" using d(6) [OF m] .
  have c: "th_cur ?th Inst \<le> n" "th_rel ?th Inst \<le> n" using d(9) [of i] by (simp_all add: single_phase_def)
  show ?thesis
  proof (cases "v = 0")
    case False
    then have s1: "s' = set_thread i ((see Mutex t w Acquire ?th)\<lparr>th_prog := create_inst i\<rparr>) s" using s' by simp
    have ph: "single_phase h n p i (ms_thread s' i)" using c w hi by (auto simp: s1 single_phase_def see_simps vjoin_def)
    have "single_inv h n p s'"
      by (rule single_frame [OF i _ _ _ _ _ _ ph]) (use d(1,8) hi in \<open>auto simp: s1\<close>)
    then show ?thesis ..
  next
    case True
    then have nt: "\<not> taken s Mutex (Suc t)" and s1: "s' = put i Mutex (Suc t) 1 Acquire w (see Mutex t w Acquire ?th) (locked_prog i) s"
      using s' by simp_all
    note f = lock_free [OF d(2) m [unfolded True] nt]
    have lk: "msg_at s' Mutex = (msg_at s Mutex)(Suc t \<mapsto> Message 1 (vjoin w ((th_rel ?th)(Mutex := Suc t))))"
      unfolding s1 at_put by (simp add: see_def)
    have ot: "msg_at s' k = msg_at s k" if "k \<noteq> Mutex" for k using that unfolding s1 at_put by simp
    have tj: "ms_thread s' j = ms_thread s j" if "j \<noteq> i" for j using that by (simp add: s1)
    have cu: "th_cur (ms_thread s' i) = (vjoin ((th_cur ?th)(Mutex := t)) w)(Mutex := Suc t)"
      "th_rel (ms_thread s' i) = th_rel ?th" "th_prog (ms_thread s' i) = locked_prog i"
      by (simp_all add: s1 see_simps)
    have L: "lock_inv Mutex (\<lambda>w. w Inst = n \<and> (n > 0 \<longrightarrow> w Init > 0)) (Some i) s'"
      by (rule lock_take [OF d(2) m [unfolded True] nt lk]) (simp add: cu)
    have ph: "single_phase (Some i) n p j (ms_thread s' j)" for j
    proof (cases "j = i")
      case True
      then show ?thesis using c f(2) by (auto simp: single_phase_def cu vjoin_def)
    next
      case False
      then show ?thesis using d(9) [of j] f(1) tj by (auto simp: single_phase_def)
    qed
    have vw: "msg_at s' Mutex x = Some (Message y z) \<Longrightarrow> z Inst \<le> n" for x y z
      using d(6) [of x y z] c w by (auto simp: lk vjoin_def split: if_splits)
    have "single_inv (Some i) n p s'"
    proof (rule single_mutex_step [OF i _ _ L ph])
      show "ms_fault s' = None" using d(1) by (simp add: s1)
    qed (erule ot, erule vw)
    then show ?thesis ..
  qed
qed

lemma single_unlock:
  assumes i: "single_inv (Some i) n p s" and pr: "th_prog (ms_thread s i) = unlock_prog i"
    and st: "mem_exec (i, t) s = Some s'"
  shows "single_inv None n p s'"
proof -
  let ?th = "ms_thread s i"
  note d = single_invD [OF i]
  have t: "th_cur ?th Mutex < t" "\<not> taken s Mutex t" and s': "s' = put i Mutex t 0 Release (\<lambda>_. 0) ?th (return_inst i) s"
    using st pr by (auto simp: unlock_prog_def mutex_unlock_def split: if_splits)
  have c: "th_cur ?th Inst = n" "n > 0" "th_cur ?th Init > 0" "th_rel ?th Inst \<le> n"
    using d(9) [of i] pr
    by (auto simp: single_phase_def locked_prog_def write_prog_def init_prog_def unlock_prog_def mutex_unlock_def)
  let ?v = "vjoin (\<lambda>_. 0) ((th_cur ?th)(Mutex := t))"
  have lk: "msg_at s' Mutex = (msg_at s Mutex)(t \<mapsto> Message 0 ?v)" unfolding s' at_put by simp
  have v: "?v Inst = n \<and> (n > 0 \<longrightarrow> ?v Init > 0)" using c by (simp add: vjoin_def)
  have L: "lock_inv Mutex (\<lambda>w. w Inst = n \<and> (n > 0 \<longrightarrow> w Init > 0)) None s'"
    by (rule lock_release [where G' = "\<lambda>w. w Inst = n \<and> (n > 0 \<longrightarrow> w Init > 0)", OF d(2) t lk v])
  have ph: "single_phase None n p j (ms_thread s' j)" for j
    using d(9) [of j] c by (cases "j = i") (auto simp: single_phase_def s')
  have vw: "msg_at s' Mutex x = Some (Message y z) \<Longrightarrow> z Inst \<le> n" for x y z
    using d(6) [of x y z] v by (auto simp: lk split: if_splits)
  have ot: "msg_at s' k = msg_at s k" if "k \<noteq> Mutex" for k using that unfolding s' at_put by simp
  show ?thesis
  proof (rule single_mutex_step [OF i _ _ L ph])
    show "ms_fault s' = None" using d(1) by (simp add: s')
  qed (erule ot, erule vw)
qed

text \<open>The creation, the flag, and the two steps of the return.\<close>

lemma single_write:
  assumes i: "single_inv (Some i) n p s" and pr: "th_prog (ms_thread s i) = write_prog i"
    and st: "mem_exec (i, t) s = Some s'"
  shows "single_inv (Some i) t (i + 1) s'"
proof -
  let ?th = "ms_thread s i"
  note d = single_invD [OF i]
  have n: "n = 0" "th_cur ?th Inst = 0"
    using d(9) [of i] pr
    by (auto simp: single_phase_def locked_prog_def write_prog_def init_prog_def unlock_prog_def mutex_unlock_def)
  have t: "0 < t" and s': "s' = put i Inst t (i + 1) Relaxed (\<lambda>_. 0) ?th (init_prog i) s"
    using st pr d(4) n by (auto simp: write_prog_def split: if_splits)
  have I: "msg_at s' Inst = (msg_at s Inst)(t \<mapsto> Message (i + 1) (vjoin (\<lambda>_. 0) ((th_rel ?th)(Inst := t))))"
    unfolding s' at_put by simp
  have ot: "msg_at s' k = msg_at s k" if "k \<noteq> Inst" for k using that unfolding s' at_put by simp
  have o3: "msg_at s' Mutex = msg_at s Mutex" "msg_at s' Init = msg_at s Init" "\<And>k. msg_at s' (Got k) = msg_at s (Got k)"
    using ot by simp_all
  have L: "lock_inv Mutex (\<lambda>w. w Inst = t \<and> (t > 0 \<longrightarrow> w Init > 0)) (Some i) s'"
    by (rule lock_frame [OF d(2) o3(1)]) (simp_all add: s')
  have ph: "single_phase (Some i) t (i + 1) j (ms_thread s' j)" for j
    using d(9) [of j] n t by (cases "j = i") (auto simp: single_phase_def s')
  have ne: "newest s' Inst t" using d(4) n t by (auto simp: newest_at I)
  have "msg_at s' Init x = Some (Message v w) \<Longrightarrow> if x = 0 then v = 0 \<and> w Inst = 0 else v = 1 \<and> t > 0 \<and> w Inst = t" for x v w
    using d(7) [of x v w] n by (auto simp: o3 split: if_splits)
  moreover have "msg_at s' Mutex x = Some (Message v w) \<Longrightarrow> w Inst \<le> t" for x v w
    using d(6) [of x v w] n by (simp add: o3)
  moreover have "msg_at s' (Got k) x = Some (Message v w) \<Longrightarrow> x > 0 \<Longrightarrow> t > 0 \<and> v = i + 1" for k x v w
    using d(8) [of k x v w] n by (simp add: o3)
  moreover have "\<exists>w. msg_at s' Inst t = Some (Message (i + 1) w)" by (simp add: I)
  moreover have "ms_fault s' = None" "t = 0 \<longleftrightarrow> i + 1 = 0" using d(1) t by (simp_all add: s')
  ultimately show ?thesis using L ne ph unfolding single_inv_def by blast
qed

lemma single_init:
  assumes i: "single_inv (Some i) n p s" and pr: "th_prog (ms_thread s i) = init_prog i"
    and st: "mem_exec (i, t) s = Some s'"
  shows "single_inv (Some i) n p s'"
proof -
  let ?th = "ms_thread s i"
  note d = single_invD [OF i]
  have t: "0 < t" and s': "s' = put i Init t 1 Release (\<lambda>_. 0) ?th (unlock_prog i) s"
    using st pr by (auto simp: init_prog_def split: if_splits)
  have c: "th_cur ?th Inst = n" "n > 0" "th_rel ?th Inst \<le> n"
    using d(9) [of i] pr
    by (auto simp: single_phase_def locked_prog_def write_prog_def init_prog_def unlock_prog_def mutex_unlock_def)
  have I: "msg_at s' Init = (msg_at s Init)(t \<mapsto> Message 1 (vjoin (\<lambda>_. 0) ((th_cur ?th)(Init := t))))"
    unfolding s' at_put by simp
  have ot: "msg_at s' k = msg_at s k" if "k \<noteq> Init" for k using that unfolding s' at_put by simp
  have o3: "msg_at s' Mutex = msg_at s Mutex" "msg_at s' Inst = msg_at s Inst" "\<And>k. msg_at s' (Got k) = msg_at s (Got k)"
    using ot by simp_all
  have L: "lock_inv Mutex (\<lambda>w. w Inst = n \<and> (n > 0 \<longrightarrow> w Init > 0)) (Some i) s'"
    by (rule lock_frame [OF d(2) o3(1)]) (simp_all add: s')
  have ph: "single_phase (Some i) n p j (ms_thread s' j)" for j
    using d(9) [of j] c t by (cases "j = i") (auto simp: single_phase_def s')
  have Ini: "msg_at s' Init x = Some (Message v w) \<Longrightarrow> if x = 0 then v = 0 \<and> w Inst = 0 else v = 1 \<and> n > 0 \<and> w Inst = n" for x v w
    using d(7) [of x v w] c t by (auto simp: I vjoin_def split: if_splits)
  have f: "ms_fault s' = None" using d(1) by (simp add: s')
  show ?thesis
    unfolding single_inv_def newest_at o3 using f L ph Ini d(3,5,6,8) d(4) [unfolded newest_at] by blast
qed

lemma single_return:
  assumes i: "single_inv h n p s" and hi: "h \<noteq> Some i" and st: "mem_exec (i, t) s = Some s'"
    and pr: "th_prog (ms_thread s i) = return_inst i \<and> n > 0 \<and> th_cur (ms_thread s i) Inst = n \<or>
      th_prog (ms_thread s i) = Store (Got i) p Relaxed Finish \<and> n > 0"
  shows "single_inv h n p s'"
  using pr
proof (elim disjE conjE)
  let ?th = "ms_thread s i"
  note d = single_invD [OF i]
  assume a: "th_prog ?th = return_inst i" "n > 0" "th_cur ?th Inst = n"
  obtain w where "msg_at s Inst n = Some (Message p w)" using d(3) by blast
  then have s': "s' = set_thread i (?th\<lparr>th_prog := Store (Got i) p Relaxed Finish\<rparr>) s"
    using st a d(4) by (simp add: return_inst_def msg_at_def)
  have ph: "single_phase h n p i (ms_thread s' i)" using d(9) [of i] a hi by (auto simp: s' single_phase_def)
  show ?thesis by (rule single_frame [OF i _ _ _ _ _ _ ph]) (use d(1,8) hi in \<open>auto simp: s'\<close>)
next
  let ?th = "ms_thread s i"
  note d = single_invD [OF i]
  assume a: "th_prog ?th = Store (Got i) p Relaxed Finish" "n > 0"
  have s': "s' = put i (Got i) t p Relaxed (\<lambda>_. 0) ?th Finish s"
    using st a by (auto split: if_splits)
  have ph: "single_phase h n p i (ms_thread s' i)" using d(9) [of i] a hi by (auto simp: s' single_phase_def)
  have at: "msg_at s' k = msg_at s k" if "\<And>j. k \<noteq> Got j" for k using that unfolding s' at_put by simp
  have got: "msg_at s' (Got k) x = Some (Message v w) \<Longrightarrow> x > 0 \<Longrightarrow> n > 0 \<and> v = p" for k x v w
    using d(8) [of k x v w] a(2) unfolding s' at_put by (auto split: if_splits)
  show ?thesis
    by (rule single_frame [OF i at at at _ _ _ ph got]) (use d(1) hi in \<open>auto simp: s'\<close>)
qed

definition single_ok :: "single_var mem_state \<Rightarrow> bool" where
  "single_ok s \<longleftrightarrow> (\<exists>h n p. single_inv h n p s)"

lemma single_ok_step: "single_ok s \<Longrightarrow> mem_exec e s = Some s' \<Longrightarrow> single_ok s'"
proof -
  assume a: "single_ok s" "mem_exec e s = Some s'"
  then obtain h n p where i: "single_inv h n p s" by (auto simp: single_ok_def)
  obtain k t where e: "e = (k, t)" by (cases e)
  note st = a(2) [unfolded e]
  note ph = single_invD(9) [OF i, of k]
  have "\<exists>h n p. single_inv h n p s'"
  proof (cases "h = Some k")
    case True
    note i' = i [unfolded True]
    from ph True consider "th_prog (ms_thread s k) = locked_prog k" | "th_prog (ms_thread s k) = write_prog k"
      | "th_prog (ms_thread s k) = init_prog k" | "th_prog (ms_thread s k) = unlock_prog k"
      by (auto simp: single_phase_def)
    then show ?thesis
    proof cases
      case 1
      from single_second_look [OF i' this st] show ?thesis by blast
    next
      case 2
      from single_write [OF i' this st] show ?thesis by blast
    next
      case 3
      from single_init [OF i' this st] show ?thesis by blast
    next
      case 4
      from single_unlock [OF i' this st] show ?thesis by blast
    qed
  next
    case False
    from st have "th_prog (ms_thread s k) \<noteq> Finish" by auto
    with ph False consider "th_prog (ms_thread s k) = SingleMemoryModel_GetInst k" | "th_prog (ms_thread s k) = create_inst k"
      | "th_prog (ms_thread s k) = return_inst k \<and> n > 0 \<and> th_cur (ms_thread s k) Inst = n \<or>
         th_prog (ms_thread s k) = Store (Got k) p Relaxed Finish \<and> n > 0"
      by (auto simp: single_phase_def)
    then show ?thesis
    proof cases
      case 1
      from single_first_look [OF i this False st] show ?thesis by blast
    next
      case 2
      from single_lock [OF i this False st] show ?thesis by blast
    next
      case 3
      from single_return [OF i False st this] show ?thesis by blast
    qed
  qed
  then show ?thesis unfolding single_ok_def .
qed

interpretation single: inv_machine mem_exec single_ok
  by unfold_locales (rule single_ok_step)

text \<open>Thread \<open>i\<close> of \<open>T\<close> calls \<open>f i\<close>.\<close>

definition single_callers :: "(nat \<Rightarrow> nat \<Rightarrow> single_var prog) \<Rightarrow> nat set \<Rightarrow> nat \<Rightarrow> single_var prog" where
  "single_callers f T i = (if i \<in> T then f i i else Finish)"

definition safe_singletons :: "(nat \<Rightarrow> single_var prog) set" where
  "safe_singletons = {SingleMemoryModel_GetInst, SingletonOnce_GetInstance, Singleton_GetInstance, Single2_GetInst}"

lemma safe_singletons_prog: "f \<in> safe_singletons \<Longrightarrow> f i = SingleMemoryModel_GetInst i \<or> f i = create_inst i"
  by (auto simp: safe_singletons_def SingletonOnce_GetInstance_def Singleton_GetInstance_def Single2_GetInst_def)

definition got :: "single_var mem_state \<Rightarrow> nat \<Rightarrow> nat \<Rightarrow> bool" where
  "got s i p \<longleftrightarrow> (\<exists>t w. t > 0 \<and> msg_at s (Got i) t = Some (Message p w))"

lemma single_ok_start:
  assumes "\<And>i. f i \<in> safe_singletons"
  shows "single_ok (mem_start (single_callers f T))"
proof -
  have L: "lock_inv Mutex (\<lambda>w. w Inst = 0 \<and> (0 < (0::nat) \<longrightarrow> w Init > 0)) None (mem_start (single_callers f T))"
    by (simp add: lock_inv_def at_start newest_at)
  have "single_phase None 0 0 i (ms_thread (mem_start (single_callers f T)) i)" for i
    using safe_singletons_prog [OF assms, of i i] by (auto simp: single_phase_def single_callers_def)
  with L have "single_inv None 0 0 (mem_start (single_callers f T))"
    by (simp add: single_inv_def at_start newest_at del: start_simps(2))
  then show ?thesis unfolding single_ok_def by blast
qed

text \<open>
  C29. Any number of threads that call \<open>GetInst\<close> of \<open>SingleMemoryModel\<close>, \<open>SingletonOnce\<close>, \<open>Singleton\<close> or
  \<open>Single2\<close>: the plain pointer is accessed without a data race, at most one object is created, and all calls
  return it.
\<close>

theorem singletons_agree:
  assumes "\<And>i. f i \<in> safe_singletons" "run mem_exec es (mem_start (single_callers f T)) = Some s"
  shows "ms_fault s = None \<and> (got s i p \<longrightarrow> p \<noteq> 0) \<and> (got s i p \<longrightarrow> got s j q \<longrightarrow> p = q)"
proof -
  from single.run_inv [OF single_ok_start [OF assms(1)] assms(2)] obtain h n p0 where i: "single_inv h n p0 s"
    by (auto simp: single_ok_def)
  note d = single_invD [OF i]
  have "x = p0 \<and> x \<noteq> 0" if g: "got s k x" for k x
  proof -
    from g obtain t w where "t > 0" "msg_at s (Got k) t = Some (Message x w)" by (auto simp: got_def)
    from d(8) [OF this(2,1)] d(5) show ?thesis by auto
  qed
  then show ?thesis using d(1) by metis
qed

lemmas single_run = single_callers_def SingleMemoryModel_GetInst_def SingletonOnce_GetInstance_def create_inst_def
  return_inst_def mutex_lock_def mutex_unlock_def

lemma singletons_agree_witness:
  "\<exists>s. run mem_exec ([(0, 0), (1, 0)] @ map (Pair 0) [0, 0, 1, 1, 2, 0, 1] @ map (Pair 1) [2, 1, 4, 0, 1])
      (mem_start (single_callers (\<lambda>_. SingleMemoryModel_GetInst) {0, 1})) = Some s \<and> got s 0 1 \<and> got s 1 1 \<and> ms_fault s = None"
proof -
  obtain s where s: "run mem_exec ([(0, 0), (1, 0)] @ map (Pair 0) [0, 0, 1, 1, 2, 0, 1] @ map (Pair 1) [2, 1, 4, 0, 1])
      (mem_start (single_callers (\<lambda>_. SingleMemoryModel_GetInst) {0, 1})) = Some s"
      "\<exists>w. msg_at s (Got 0) 1 = Some (Message 1 w)" "\<exists>w. msg_at s (Got 1) 1 = Some (Message 1 w)"
    by (simp add: single_run mem_start_def taken_def put_def set_thread_def sc_update_def see_def vjoin_def Let_def
        newest_def msg_at_def)
  have "got s 0 1" "got s 1 1" unfolding got_def using s(2,3) zero_less_one by blast+
  moreover have "SingleMemoryModel_GetInst \<in> safe_singletons" by (simp add: safe_singletons_def)
  ultimately show ?thesis using s(1) singletons_agree [OF _ s(1)] by blast
qed

section \<open>The plain pointer\<close>

definition can_race :: "(nat \<Rightarrow> single_var prog) \<Rightarrow> bool" where
  "can_race f \<longleftrightarrow>
     (\<exists>es s. run mem_exec es (mem_start (single_callers (\<lambda>_. f) {0, 1})) = Some s \<and> ms_fault s = Some DataRace)"

lemma can_raceI:
  "map_option ms_fault (run mem_exec es (mem_start (single_callers (\<lambda>_. f) {0, 1}))) = Some (Some DataRace) \<Longrightarrow> can_race f"
  unfolding can_race_def by (cases "run mem_exec es (mem_start (single_callers (\<lambda>_. f) {0, 1}))") auto

lemma SinglePointer_races: "can_race SinglePointer_GetInst"
  by (rule can_raceI [of "map (Pair 0) [0, 0, 0, 1] @ [(1, 0)]"])
    (simp add: SinglePointer_GetInst_def single_callers_def return_inst_def mutex_lock_def mutex_unlock_def mem_start_def
      taken_def put_def set_thread_def sc_update_def see_def vjoin_def Let_def newest_def fail_def)

text \<open>
  Two calls of \<open>GetInst\<close> of \<open>SinglePointer\<close>, \<open>SingleAuto\<close> or \<open>SingleAutoSafe\<close> can race: one reads the
  plain pointer outside the lock while the other, under the lock, writes it. Without any lock the
  calls race as well.
\<close>

theorem double_checked_locking_races:
  "can_race SinglePointer_GetInst \<and> can_race SingleAuto_GetInst \<and> can_race SingleAutoSafe_GetInst \<and>
   can_race Single2Hungry_GetInst"
proof (intro conjI)
  show "can_race SinglePointer_GetInst" by (rule SinglePointer_races)
  show "can_race SingleAuto_GetInst" "can_race SingleAutoSafe_GetInst"
    using SinglePointer_races ext [of SingleAuto_GetInst, OF SingleAuto_GetInst_def]
      ext [of SingleAutoSafe_GetInst, OF SingleAutoSafe_GetInst_def] by metis+
  show "can_race Single2Hungry_GetInst"
    by (rule can_raceI [of "map (Pair 0) [0, 1] @ [(1, 0)]"])
      (simp add: Single2Hungry_GetInst_def single_callers_def return_inst_def mem_start_def
        taken_def put_def set_thread_def sc_update_def see_def vjoin_def Let_def newest_def fail_def)
qed

text \<open>
  When the first call returns before other threads start, as the initialiser of \<open>Single2Hungry\<close>
  does, there is no race: every later call reads the same pointer.
\<close>

definition initialised :: "nat \<Rightarrow> single_var mem_state \<Rightarrow> bool" where
  "initialised n s \<longleftrightarrow> n > 0 \<and> newest s Inst n \<and> (\<exists>p w. p \<noteq> 0 \<and> msg_at s Inst n = Some (Message p w))"

lemma hungry_reads:
  assumes "initialised n s" "th_cur (ms_thread s i) Inst = n" "th_prog (ms_thread s i) = Single2Hungry_GetInst i"
  shows "\<exists>s'. mem_exec (i, t) s = Some s' \<and> th_prog (ms_thread s' i) = return_inst i \<and>
    ms_fault s' = ms_fault s \<and> msg_at s' = msg_at s"
  using assms by (auto simp: initialised_def Single2Hungry_GetInst_def msg_at_def fun_eq_iff)

end
