(* ===== verification/HttpServer.thy ===== *)
theory HttpServer
  imports Prelude
begin

text \<open>
  The HTTP server \<open>src/Network/beastHttp/src/main.cpp\<close>: what it answers to a request, the life of a
  connection with its deadline, and the counter of requests. The JSON library is a parameter.
\<close>

section \<open>Requests and responses\<close>

datatype verb = VGet | VPost | VOther string

record http_request =
  rq_version :: nat
  rq_method :: verb
  rq_target :: string
  rq_body :: string

datatype status = Ok200 | BadRequest400 | NotFound404

record http_response =
  rs_version :: nat
  rs_keep_alive :: bool
  rs_result :: status
  rs_server :: "string option"
  rs_content_type :: "string option"
  rs_content_length :: "nat option"
  rs_body :: string

definition http_response :: http_response where
  "http_response = \<lparr>rs_version = 11, rs_keep_alive = True, rs_result = Ok200, rs_server = None,
     rs_content_type = None, rs_content_length = None, rs_body = []\<rparr>"

text \<open>Output of a number.\<close>

fun decimal :: "nat \<Rightarrow> string" where
  "decimal n = (if n < 10 then [char_of (48 + n)] else decimal (n div 10) @ [char_of (48 + n mod 10)])"

declare decimal.simps [simp del]

definition to_body :: "string \<Rightarrow> http_response \<Rightarrow> http_response" where
  "to_body x r = r\<lparr>rs_body := rs_body r @ x\<rparr>"

section \<open>The JSON library\<close>

text \<open>
  What \<open>Create_post_response\<close> uses of it: \<open>parse\<close> returns whether it succeeded and what it left in
  \<open>src_root\<close>; \<open>email\<close> is \<open>src_root["email"]\<close> and \<open>as_string\<close> is \<open>asString\<close>, both of which throw
  (\<open>None\<close>) on values of the wrong kind; \<open>styled\<close> is \<open>toStyledString\<close> of an object with the given
  members.
\<close>

datatype 'j field = FInt int | FStr string | FVal 'j

record 'j json_lib =
  parse :: "string \<Rightarrow> bool \<times> 'j"
  email :: "'j \<Rightarrow> 'j option"
  as_string :: "'j \<Rightarrow> string option"
  styled :: "(string \<times> 'j field) list \<Rightarrow> string"

section \<open>Answers\<close>

definition file_not_found :: "http_response \<Rightarrow> http_response" where
  "file_not_found r =
     to_body (''File not found'' @ [CHR 0x0D, CHR 0x0A]) (r\<lparr>rs_result := NotFound404, rs_content_type := Some ''text/plain''\<rparr>)"

definition line :: "string \<Rightarrow> string" where
  "line x = x @ [CHR 0x0A]"

text \<open>
  \<open>request_count\<close> increments a 64-bit counter and returns it; \<open>now\<close> is the clock, an argument.
\<close>

definition request_count :: "64 word \<Rightarrow> 64 word \<times> 64 word" where
  "request_count c = (c + 1, c + 1)"

definition Create_Response :: "nat \<Rightarrow> http_request \<Rightarrow> 64 word \<Rightarrow> http_response \<Rightarrow> http_response \<times> 64 word" where
  "Create_Response now rq c r =
     (if rq_target rq = ''/count'' then
        let (n, c') = request_count c in
        (to_body (line ''<html>'' @ line ''<head><title>Request count</title></head>'' @ line ''<body>'' @
           line ''<h1>Request count</h1>'' @ line (''<p>There have been'' @ decimal (unat n) @ '' requests so far.</p>'') @
           line ''</body>'' @ line ''</html>'') (r\<lparr>rs_content_type := Some ''text/html''\<rparr>), c')
      else if rq_target rq = ''/time'' then
        (to_body (line ''<html>'' @ line ''<head><title>Current time</title></head>'' @ line ''<body>'' @
           line ''<h1>Current time</h1>'' @ line (''<p>The current time is '' @ decimal now @ '' seconds since the epoch.</p>'') @
           line ''</body>'' @ line ''</html>'') (r\<lparr>rs_content_type := Some ''text/html''\<rparr>), c)
      else (file_not_found r, c))"

text \<open>After a parse that has failed the function goes on as after one that has succeeded.\<close>

definition Create_post_response :: "'j json_lib \<Rightarrow> http_request \<Rightarrow> http_response \<Rightarrow> http_response res" where
  "Create_post_response J rq r =
     (if rq_target rq = ''/email'' then
        let r1 = r\<lparr>rs_content_type := Some ''text/json''\<rparr>;
            (ok, src_root) = parse J (rq_body rq);
            r2 = (if ok then r1 else to_body (styled J [(''error'', FInt 1001)]) r1) in
        (case email J src_root of None \<Rightarrow> Inl RuntimeError
         | Some e \<Rightarrow> (case as_string J e of None \<Rightarrow> Inl RuntimeError
             | Some x \<Rightarrow> Inr (to_body (styled J [(''error'', FInt 0), (''email'', FVal e),
                 (''msg'', FStr ''receive email post success'')]) r2)))
      else Inr (file_not_found r))"

definition Proccess_request :: "'j json_lib \<Rightarrow> nat \<Rightarrow> http_request \<Rightarrow> 64 word \<Rightarrow> (http_response \<times> 64 word) res" where
  "Proccess_request J now rq c =
     (let r = http_response\<lparr>rs_version := rq_version rq, rs_keep_alive := False\<rparr>;
          ok = r\<lparr>rs_result := Ok200, rs_server := Some ''Beast''\<rparr> in
      case rq_method rq of
        VGet \<Rightarrow> Inr (Create_Response now rq c ok)
      | VPost \<Rightarrow> rbind (Create_post_response J rq ok) (\<lambda>r. Inr (r, c))
      | VOther m \<Rightarrow> Inr (to_body (''invalid request-method '' @ [CHR 0x27] @ m @ [CHR 0x27])
          (r\<lparr>rs_result := BadRequest400, rs_content_type := Some ''text/plain''\<rparr>), c))"

text \<open>\<open>Write_response\<close> sets the length and starts the write.\<close>

definition Write_response :: "http_response \<Rightarrow> http_response" where
  "Write_response r = r\<lparr>rs_content_length := Some (length (rs_body r))\<rparr>"

definition answer :: "'j json_lib \<Rightarrow> nat \<Rightarrow> http_request \<Rightarrow> 64 word \<Rightarrow> (http_response \<times> 64 word) res" where
  "answer J now rq c = rbind (Proccess_request J now rq c) (\<lambda>(r, c'). Inr (Write_response r, c'))"

section \<open>What is answered\<close>

definition expected_status :: "http_request \<Rightarrow> status" where
  "expected_status rq =
     (case rq_method rq of
        VGet \<Rightarrow> if rq_target rq \<in> {''/count'', ''/time''} then Ok200 else NotFound404
      | VPost \<Rightarrow> if rq_target rq = ''/email'' then Ok200 else NotFound404
      | VOther m \<Rightarrow> BadRequest400)"

lemmas answer_defs = answer_def Proccess_request_def Create_Response_def Create_post_response_def
  request_count_def http_response_def file_not_found_def to_body_def Write_response_def Let_def

lemma answer_post_email:
  assumes "rq_method rq = VPost" "rq_target rq = ''/email''" "parse J (rq_body rq) = (ok, j)" "email J j = Some e" "as_string J e = Some x"
  shows "\<exists>r. answer J now rq c = Inr (r, c) \<and> rs_result r = Ok200 \<and>
    rs_body r = (if ok then [] else styled J [(''error'', FInt 1001)]) @
      styled J [(''error'', FInt 0), (''email'', FVal e), (''msg'', FStr ''receive email post success'')]"
  using assms by (simp add: answer_defs)

lemma answer_throws:
  assumes "rq_method rq = VPost" "rq_target rq = ''/email''" "email J (snd (parse J (rq_body rq))) = None"
  shows "answer J now rq c = Inl RuntimeError"
  using assms by (cases "parse J (rq_body rq)") (simp add: answer_defs)

text \<open>
  C36. Every request is answered with the status of its method and target, with the length of its
  body and without keep-alive, or the JSON library throws; a counter request, and no other, moves
  the counter.
\<close>

theorem http_answers:
  "case answer J now rq c of
     Inl e \<Rightarrow> rq_method rq = VPost \<and> rq_target rq = ''/email''
   | Inr (r, c') \<Rightarrow> rs_result r = expected_status rq \<and> rs_content_length r = Some (length (rs_body r)) \<and>
       \<not> rs_keep_alive r \<and> rs_version r = rq_version rq \<and>
       c' = (if rq_method rq = VGet \<and> rq_target rq = ''/count'' then c + 1 else c)"
  by (auto simp: answer_defs expected_status_def split: verb.split option.split prod.split)

section \<open>Connections\<close>

text \<open>
  A connection has a read, a write and the timer of its deadline outstanding, or not. The server
  accepts, again after each accept; an exception that leaves a handler leaves \<open>ioc.run\<close>, and
  \<open>main\<close> ends.
\<close>

datatype http_socket = SockOpen | SockShut | SockClosed

record http_conn =
  hc_socket :: http_socket
  hc_reading :: bool
  hc_writing :: "http_response option"
  hc_timer :: bool
  hc_sent :: "http_response list"

definition Http_Connection_Start :: http_conn where
  "Http_Connection_Start =
     \<lparr>hc_socket = SockOpen, hc_reading = True, hc_writing = None, hc_timer = True, hc_sent = []\<rparr>"

record http_server =
  hs_count :: "64 word"
  hs_conns :: "http_conn list"
  hs_log :: "(http_request \<times> http_response) list"
  hs_failed :: bool

definition Http_server :: http_server where
  "Http_server = \<lparr>hs_count = 0, hs_conns = [], hs_log = [], hs_failed = False\<rparr>"

text \<open>
  The events: a completed accept, a completed read with the request or an error, a completed write
  with whether the peer is still connected, the deadline. On a socket that the deadline has closed
  reads and writes complete with an error.
\<close>

datatype http_event =
    HAccept bool
  | HRead nat "http_request option" nat
  | HWritten nat bool
  | HDeadline nat

definition put_conn :: "nat \<Rightarrow> http_conn \<Rightarrow> http_server \<Rightarrow> http_server" where
  "put_conn i k s = s\<lparr>hs_conns := (hs_conns s)[i := k]\<rparr>"

text \<open>The handler of \<open>Read_Request\<close>.\<close>

definition Read_Request_done :: "'j json_lib \<Rightarrow> nat \<Rightarrow> http_request option \<Rightarrow> nat \<Rightarrow> http_conn \<Rightarrow> http_server \<Rightarrow> http_server" where
  "Read_Request_done J i rq now k s =
     (case rq of
        None \<Rightarrow> put_conn i (k\<lparr>hc_reading := False\<rparr>) s
      | Some q \<Rightarrow> (case answer J now q (hs_count s) of
            Inl e \<Rightarrow> s\<lparr>hs_failed := True\<rparr>
          | Inr (r, c) \<Rightarrow> put_conn i (k\<lparr>hc_reading := False, hc_writing := Some r\<rparr>)
              (s\<lparr>hs_count := c, hs_log := hs_log s @ [(q, r)]\<rparr>)))"

text \<open>
  The handler of \<open>Write_response\<close> ignores the error code. The \<open>shutdown\<close> it calls throws when the
  socket is closed or the peer has gone.
\<close>

definition Write_response_done :: "nat \<Rightarrow> bool \<Rightarrow> http_conn \<Rightarrow> http_response \<Rightarrow> http_server \<Rightarrow> http_server" where
  "Write_response_done i connected k r s =
     (if connected
      then put_conn i (k\<lparr>hc_writing := None, hc_sent := hc_sent k @ [r], hc_socket := SockShut, hc_timer := False\<rparr>) s
      else s\<lparr>hs_failed := True\<rparr>)"

definition Check_deadline_done :: "nat \<Rightarrow> http_conn \<Rightarrow> http_server \<Rightarrow> http_server" where
  "Check_deadline_done i k s = put_conn i (k\<lparr>hc_socket := SockClosed, hc_timer := False\<rparr>) s"

fun http_exec :: "'j json_lib \<Rightarrow> http_event \<Rightarrow> http_server \<Rightarrow> http_server option" where
  "http_exec J (HAccept ok) s =
     (if hs_failed s then None
      else Some (if ok then s\<lparr>hs_conns := hs_conns s @ [Http_Connection_Start]\<rparr> else s))"
| "http_exec J (HRead i rq now) s =
     (if hs_failed s \<or> i \<ge> length (hs_conns s) then None
      else let k = hs_conns s ! i in
        if hc_reading k \<and> (hc_socket k = SockClosed \<longrightarrow> rq = None) then Some (Read_Request_done J i rq now k s) else None)"
| "http_exec J (HWritten i connected) s =
     (if hs_failed s \<or> i \<ge> length (hs_conns s) then None
      else let k = hs_conns s ! i in
        case hc_writing k of None \<Rightarrow> None
        | Some r \<Rightarrow> if hc_socket k = SockClosed \<longrightarrow> \<not> connected then Some (Write_response_done i connected k r s) else None)"
| "http_exec J (HDeadline i) s =
     (if hs_failed s \<or> i \<ge> length (hs_conns s) then None
      else let k = hs_conns s ! i in if hc_timer k then Some (Check_deadline_done i k s) else None)"

section \<open>One answer for a connection, one number for a request\<close>

definition conn_ok :: "http_conn \<Rightarrow> bool" where
  "conn_ok k \<longleftrightarrow> length (hc_sent k) + (if hc_writing k = None then 0 else 1) + (if hc_reading k then 1 else 0) \<le> 1"

definition is_count :: "http_request \<times> http_response \<Rightarrow> bool" where
  "is_count x \<longleftrightarrow> rq_method (fst x) = VGet \<and> rq_target (fst x) = ''/count''"

definition count_body :: "nat \<Rightarrow> string" where
  "count_body n = line ''<html>'' @ line ''<head><title>Request count</title></head>'' @ line ''<body>'' @
     line ''<h1>Request count</h1>'' @ line (''<p>There have been'' @ decimal n @ '' requests so far.</p>'') @
     line ''</body>'' @ line ''</html>''"

definition http_inv :: "http_server \<Rightarrow> bool" where
  "http_inv s \<longleftrightarrow>
     (\<forall>k\<in>set (hs_conns s). conn_ok k) \<and>
     hs_count s = of_nat (length (filter is_count (hs_log s))) \<and>
     map (rs_body \<circ> snd) (filter is_count (hs_log s)) =
       map (\<lambda>n. count_body (unat (of_nat (Suc n) :: 64 word))) [0..<length (filter is_count (hs_log s))]"

lemma conns_ok_put:
  "(\<forall>k\<in>set (hs_conns s). conn_ok k) \<Longrightarrow> conn_ok k \<Longrightarrow> \<forall>k\<in>set (hs_conns (put_conn i k s)). conn_ok k"
  by (auto simp: put_conn_def dest: set_update_subset_insert [THEN subsetD])

lemma put_conn_simps [simp]:
  "hs_count (put_conn i k s) = hs_count s" "hs_log (put_conn i k s) = hs_log s" "hs_failed (put_conn i k s) = hs_failed s"
  by (simp_all add: put_conn_def)

lemma answer_count:
  "answer J now q c = Inr (r, c') \<Longrightarrow>
     c' = (if is_count (q, r) then c + 1 else c) \<and> (is_count (q, r) \<longrightarrow> rs_body r = count_body (unat (c + 1)))"
  by (auto simp: answer_defs is_count_def count_body_def split: verb.splits if_splits prod.splits option.splits)

lemma http_inv_read:
  assumes i: "http_inv s" and k: "hc_reading k" "conn_ok k"
  shows "http_inv (Read_Request_done J i rq now k s)"
proof (cases rq)
  case None
  have "conn_ok (k\<lparr>hc_reading := False\<rparr>)" using k by (simp add: conn_ok_def)
  then show ?thesis using i None conns_ok_put by (auto simp: Read_Request_done_def http_inv_def)
next
  case (Some q)
  show ?thesis
  proof (cases "answer J now q (hs_count s)")
    case (Inl e)
    then show ?thesis using i Some by (simp add: Read_Request_done_def http_inv_def)
  next
    case (Inr x)
    obtain r c where x: "x = (r, c)" by fastforce
    note a = answer_count [OF Inr [unfolded x]]
    let ?s = "s\<lparr>hs_count := c, hs_log := hs_log s @ [(q, r)]\<rparr>"
    have "conn_ok (k\<lparr>hc_reading := False, hc_writing := Some r\<rparr>)" using k by (simp add: conn_ok_def split: if_splits)
    then have "\<forall>k\<in>set (hs_conns (put_conn i (k\<lparr>hc_reading := False, hc_writing := Some r\<rparr>) ?s)). conn_ok k"
      using i by (intro conns_ok_put) (simp_all add: http_inv_def)
    then show ?thesis
      using i a Inr Some x by (simp add: Read_Request_done_def http_inv_def ac_simps)
  qed
qed

lemma http_inv_exec: "http_inv s \<Longrightarrow> http_exec J e s = Some t \<Longrightarrow> http_inv t"
proof (induction J e s rule: http_exec.induct)
  case (1 J ok s)
  have "conn_ok Http_Connection_Start" by (simp add: conn_ok_def Http_Connection_Start_def)
  with 1 show ?case by (auto simp: http_inv_def split: if_splits)
next
  case (2 J i rq now s)
  then have r: "i < length (hs_conns s)" "hc_reading (hs_conns s ! i)" "t = Read_Request_done J i rq now (hs_conns s ! i) s"
    by (auto simp: Let_def split: if_splits)
  have "conn_ok (hs_conns s ! i)" using 2(1) r(1) by (simp add: http_inv_def)
  from http_inv_read [OF 2(1) r(2) this] show ?case by (simp add: r(3))
next
  case (3 J i connected s)
  then obtain r where r: "i < length (hs_conns s)" "hc_writing (hs_conns s ! i) = Some r"
    "t = Write_response_done i connected (hs_conns s ! i) r s"
    by (auto simp: Let_def split: if_splits option.splits)
  have "conn_ok (hs_conns s ! i)" using 3(1) r(1) by (simp add: http_inv_def)
  then have "conn_ok ((hs_conns s ! i)\<lparr>hc_writing := None, hc_sent := hc_sent (hs_conns s ! i) @ [r], hc_socket := SockShut, hc_timer := False\<rparr>)"
    using r(2) by (simp add: conn_ok_def split: if_splits)
  then show ?case
    using 3(1) r(3) conns_ok_put by (auto simp: Write_response_done_def http_inv_def)
next
  case (4 J i s)
  then have t: "i < length (hs_conns s)" "t = Check_deadline_done i (hs_conns s ! i) s"
    by (auto simp: Let_def split: if_splits)
  have "conn_ok (hs_conns s ! i)" using 4(1) t(1) by (simp add: http_inv_def)
  then have "conn_ok ((hs_conns s ! i)\<lparr>hc_socket := SockClosed, hc_timer := False\<rparr>)" by (simp add: conn_ok_def)
  then show ?case
    using 4(1) t(2) conns_ok_put by (auto simp: Check_deadline_done_def http_inv_def)
qed

interpretation http: inv_machine "http_exec J" http_inv for J
  by unfold_locales (rule http_inv_exec)

text \<open>
  C31. In every run a connection gets at most one answer, and the \<open>n\<close>-th request for the counter, over
  all connections, is answered with the number \<open>n\<close> (modulo \<open>2 ^ 64\<close>).
\<close>

theorem http_counts_requests:
  assumes "run (http_exec J) es Http_server = Some s"
  shows "(\<forall>k\<in>set (hs_conns s). length (hc_sent k) \<le> 1) \<and>
    map (rs_body \<circ> snd) (filter is_count (hs_log s)) =
      map (\<lambda>n. count_body (unat (of_nat (Suc n) :: 64 word))) [0..<length (filter is_count (hs_log s))]"
proof -
  have "http_inv Http_server" by (simp add: http_inv_def Http_server_def)
  from http.run_inv [OF this assms] show ?thesis by (auto simp: http_inv_def conn_ok_def)
qed

text \<open>A JSON library for runs: a body of one character is a string, an empty one does not parse.\<close>

definition toy_json :: "string json_lib" where
  "toy_json = \<lparr>parse = \<lambda>x. (x \<noteq> [], x), email = \<lambda>j. if length j = 1 then None else Some j,
     as_string = \<lambda>j. Some j, styled = \<lambda>ms. [char_of (length ms)]\<rparr>"

definition get_request :: "string \<Rightarrow> http_request" where
  "get_request x = \<lparr>rq_version = 11, rq_method = VGet, rq_target = x, rq_body = []\<rparr>"

lemma http_counts_requests_witness:
  "\<exists>s. run (http_exec toy_json) [HAccept True, HAccept True, HRead 1 (Some (get_request ''/count'')) 5,
       HRead 0 (Some (get_request ''/count'')) 6, HWritten 0 True] Http_server = Some s \<and>
     map (rs_body \<circ> snd) (filter is_count (hs_log s)) = [count_body 1, count_body 2]"
proof -
  obtain s where s: "run (http_exec toy_json) [HAccept True, HAccept True, HRead 1 (Some (get_request ''/count'')) 5,
      HRead 0 (Some (get_request ''/count'')) 6, HWritten 0 True] Http_server = Some s"
      "length (filter is_count (hs_log s)) = 2"
    by (simp add: Http_server_def Http_Connection_Start_def Read_Request_done_def Write_response_done_def put_conn_def
        get_request_def answer_defs is_count_def)
  have u: "unat (of_nat (Suc 0) :: 64 word) = 1" "unat (of_nat (Suc 1) :: 64 word) = 2" by simp_all
  have l: "[0..<2] = [0, 1 :: nat]" by (simp add: upt_conv_Cons)
  have m: "map (rs_body \<circ> snd) (filter is_count (hs_log s)) = [count_body 1, count_body 2]"
    using conjunct2 [OF http_counts_requests [OF s(1)], unfolded s(2) l] unfolding list.map u .
  show ?thesis by (rule exI, rule conjI [OF s(1) m])
qed

text \<open>
  A body that does not parse is answered with status 200 and two documents, the error and then the
  report of success.
\<close>

lemma email_parse_failure:
  assumes "rq_method rq = VPost" "rq_target rq = ''/email''" "parse J (rq_body rq) = (False, j)" "email J j = Some e" "as_string J e = Some x"
  shows "\<exists>r. answer J now rq c = Inr (r, c) \<and> rs_result r = Ok200 \<and>
    rs_body r = styled J [(''error'', FInt 1001)] @
      styled J [(''error'', FInt 0), (''email'', FVal e), (''msg'', FStr ''receive email post success'')]"
  using answer_post_email [OF assms] by simp

text \<open>
  One client can end the server: a request whose write is still outstanding at its deadline, or
  whose peer has gone, makes \<open>shutdown\<close> throw, and a body that is no JSON object makes the JSON
  library throw; no handler catches. After that nothing is accepted or answered.
\<close>

theorem http_server_can_be_ended:
  "(\<exists>s. run (http_exec J) [HAccept True, HRead 0 (Some (get_request ''/count'')) 0, HDeadline 0, HWritten 0 False]
       Http_server = Some s \<and> hs_failed s \<and> (\<forall>e. http_exec J e s = None)) \<and>
   (email J (snd (parse J body)) = None \<longrightarrow>
     (\<exists>s. run (http_exec J) [HAccept True, HRead 0 (Some \<lparr>rq_version = 11, rq_method = VPost, rq_target = ''/email'', rq_body = body\<rparr>) 0]
       Http_server = Some s \<and> hs_failed s \<and> (\<forall>e. http_exec J e s = None)))"
proof -
  have dead: "hs_failed s \<Longrightarrow> http_exec J e s = None" for e s by (cases e) simp_all
  have "\<exists>s. run (http_exec J) [HAccept True, HRead 0 (Some (get_request ''/count'')) 0, HDeadline 0, HWritten 0 False]
      Http_server = Some s \<and> hs_failed s"
    by (simp add: Http_server_def Http_Connection_Start_def Read_Request_done_def Write_response_done_def
        Check_deadline_done_def put_conn_def get_request_def answer_defs)
  moreover have "\<exists>s. run (http_exec J) [HAccept True, HRead 0 (Some \<lparr>rq_version = 11, rq_method = VPost, rq_target = ''/email'', rq_body = body\<rparr>) 0]
      Http_server = Some s \<and> hs_failed s" if "email J (snd (parse J body)) = None"
  proof -
    have "answer J 0 \<lparr>rq_version = 11, rq_method = VPost, rq_target = ''/email'', rq_body = body\<rparr> 0 = Inl RuntimeError"
      by (rule answer_throws) (use that in simp_all)
    then show ?thesis by (simp add: Http_server_def Http_Connection_Start_def Read_Request_done_def Let_def)
  qed
  ultimately show ?thesis using dead by meson
qed

lemma http_server_can_be_ended_witness:
  "email toy_json (snd (parse toy_json ''1'')) = None \<and>
   (\<exists>s. run (http_exec toy_json) [HAccept True, HRead 0 (Some \<lparr>rq_version = 11, rq_method = VPost, rq_target = ''/email'', rq_body = ''1''\<rparr>) 0]
       Http_server = Some s \<and> hs_failed s)"
proof -
  have e: "email toy_json (snd (parse toy_json ''1'')) = None" by (simp add: toy_json_def)
  with conjunct2 [OF http_server_can_be_ended, of toy_json "''1''"] show ?thesis by blast
qed

end
