(* ===== verification/Actors.thy ===== *)
theory Actors
  imports Prelude
begin

text \<open>
  The actors of \<open>src/Concurrent/day20-Actor\<close>: three singletons \<open>ClassA\<close>, \<open>ClassB\<close> and \<open>ClassC\<close>, each
  with a queue and a thread (\<open>ActorSingle.h\<close>), of which the first two pass messages on to the next.
  Their destructors run when the program ends, in the reverse order of their construction.
\<close>

section \<open>State\<close>

text \<open>
  Actor 0 is \<open>ClassA\<close>, 1 \<open>ClassB\<close>, 2 \<open>ClassC\<close>; a message is its name. The queue has two locks: a
  \<open>push\<close> and a \<open>NotifyStop\<close> may come between the test of the condition in \<open>wait_for_data\<close> and the
  sleep, which are two steps of the worker.
\<close>

datatype actor_worker =
    WkTest          \<comment> \<open>\<open>_bstop.load() == false\<close>\<close>
  | WkLook          \<comment> \<open>in \<open>wait_for_data\<close>, before the condition\<close>
  | WkToSleep       \<comment> \<open>the condition was false\<close>
  | WkAsleep
  | WkDeal string   \<comment> \<open>\<open>DealMsg\<close>\<close>
  | WkExit

record actor =
  ac_alive :: bool              \<comment> \<open>constructed and not yet destroyed\<close>
  ac_gone :: bool               \<comment> \<open>destroyed\<close>
  ac_stop :: bool               \<comment> \<open>\<open>_bstop\<close> of the actor\<close>
  ac_que :: "string list"
  ac_que_stop :: bool           \<comment> \<open>\<open>_bstop\<close> of the queue\<close>
  ac_worker :: actor_worker
  ac_posted :: "string list"    \<comment> \<open>all messages that were pushed\<close>
  ac_dealt :: "string list"     \<comment> \<open>all messages that were dealt with\<close>

datatype main_pc =
    Running
  | SetStop nat | NotifyStop nat | Notify nat | JoinThread nat   \<comment> \<open>in the destructor of the actor\<close>
  | Ended

record actors =
  as_actor :: "nat \<Rightarrow> actor"
  as_main :: main_pc
  as_fault :: "cpp_error option"

definition no_actor :: actor where
  "no_actor = \<lparr>ac_alive = False, ac_gone = False, ac_stop = False, ac_que = [], ac_que_stop = False,
     ac_worker = WkTest, ac_posted = [], ac_dealt = []\<rparr>"

definition actors_start :: actors where
  "actors_start = \<lparr>as_actor = \<lambda>i. no_actor, as_main = Running, as_fault = None\<rparr>"

definition set_actor :: "nat \<Rightarrow> actor \<Rightarrow> actors \<Rightarrow> actors" where
  "set_actor i a s = s\<lparr>as_actor := (as_actor s)(i := a)\<rparr>"

section \<open>Operations\<close>

definition actor_wake :: "actor \<Rightarrow> actor" where
  "actor_wake a = (if ac_worker a = WkAsleep then a\<lparr>ac_worker := WkLook\<rparr> else a)"

definition ThreadSafeQue_push :: "string \<Rightarrow> actor \<Rightarrow> actor" where
  "ThreadSafeQue_push v a = actor_wake (a\<lparr>ac_que := ac_que a @ [v], ac_posted := ac_posted a @ [v]\<rparr>)"

text \<open>\<open>Inst()\<close> constructs the actor at its first call, then \<open>PostMsg\<close>.\<close>

definition PostMsg :: "nat \<Rightarrow> string \<Rightarrow> actors \<Rightarrow> actors" where
  "PostMsg i v s =
     (let a = as_actor s i in
      if ac_gone a then s\<lparr>as_fault := Some UseAfterFree\<rparr>
      else set_actor i (ThreadSafeQue_push v (a\<lparr>ac_alive := True\<rparr>)) s)"

text \<open>\<open>DealMsg\<close> of \<open>ClassA\<close> and \<open>ClassB\<close> posts a new message to the next actor.\<close>

definition actor_DealMsg :: "nat \<Rightarrow> actors \<Rightarrow> actors" where
  "actor_DealMsg i s = (if i < 2 then PostMsg (i + 1) ''llfc'' s else s)"

text \<open>The thread of an actor.\<close>

definition WaitAndPop :: "actor \<Rightarrow> actor" where
  "WaitAndPop a =
     (if ac_que_stop a then a\<lparr>ac_worker := WkTest\<rparr>
      else case ac_que a of
             [] \<Rightarrow> a\<lparr>ac_worker := WkToSleep\<rparr>
           | v # q \<Rightarrow> a\<lparr>ac_que := q, ac_worker := WkDeal v\<rparr>)"

definition actor_thread :: "nat \<Rightarrow> actors \<Rightarrow> actors option" where
  "actor_thread i s =
     (let a = as_actor s i in
      if \<not> ac_alive a then None
      else case ac_worker a of
          WkTest \<Rightarrow> Some (set_actor i (a\<lparr>ac_worker := if ac_stop a then WkExit else WkLook\<rparr>) s)
        | WkLook \<Rightarrow> Some (set_actor i (WaitAndPop a) s)
        | WkToSleep \<Rightarrow> Some (set_actor i (a\<lparr>ac_worker := WkAsleep\<rparr>) s)
        | WkAsleep \<Rightarrow> None
        | WkDeal v \<Rightarrow> Some (actor_DealMsg i (set_actor i (a\<lparr>ac_worker := WkTest, ac_dealt := ac_dealt a @ [v]\<rparr>) s))
        | WkExit \<Rightarrow> None)"

text \<open>The end of the program: the destructors of the actors that were constructed, the last one first.\<close>

definition last_alive :: "actors \<Rightarrow> main_pc" where
  "last_alive s = (if ac_alive (as_actor s 2) then SetStop 2 else if ac_alive (as_actor s 1) then SetStop 1
     else if ac_alive (as_actor s 0) then SetStop 0 else Ended)"

definition actor_destructor :: "actors \<Rightarrow> actors option" where
  "actor_destructor s =
     (case as_main s of
        Running \<Rightarrow> Some (s\<lparr>as_main := last_alive s\<rparr>)
      | SetStop i \<Rightarrow> Some ((set_actor i ((as_actor s i)\<lparr>ac_stop := True\<rparr>) s)\<lparr>as_main := NotifyStop i\<rparr>)
      | NotifyStop i \<Rightarrow> Some ((set_actor i ((as_actor s i)\<lparr>ac_que_stop := True\<rparr>) s)\<lparr>as_main := Notify i\<rparr>)
      | Notify i \<Rightarrow> Some ((set_actor i (actor_wake (as_actor s i)) s)\<lparr>as_main := JoinThread i\<rparr>)
      | JoinThread i \<Rightarrow>
          (if ac_worker (as_actor s i) = WkExit
           then let s1 = set_actor i ((as_actor s i)\<lparr>ac_alive := False, ac_gone := True\<rparr>) s in
             Some (s1\<lparr>as_main := last_alive s1\<rparr>)
           else None)
      | Ended \<Rightarrow> None)"

datatype actor_event = MainPost string | Worker nat | MainEnds

fun actor_exec :: "actor_event \<Rightarrow> actors \<Rightarrow> actors option" where
  "actor_exec (MainPost v) s = (if as_main s = Running then Some (PostMsg 0 v s) else None)"
| "actor_exec (Worker i) s = (if i \<le> 2 \<and> as_main s \<noteq> Ended then actor_thread i s else None)"
| "actor_exec MainEnds s = actor_destructor s"

section \<open>Messages are passed on in order\<close>

definition in_hand :: "actor \<Rightarrow> string list" where
  "in_hand a = (case ac_worker a of WkDeal v \<Rightarrow> [v] | _ \<Rightarrow> [])"

text \<open>
  What an actor has been sent is what it has dealt with, what it is dealing with and its queue; and
  unless there was a fault the next actor was sent one message for each that was dealt with.
\<close>

definition actors_inv :: "actors \<Rightarrow> bool" where
  "actors_inv s \<longleftrightarrow>
     (\<forall>i. ac_posted (as_actor s i) = ac_dealt (as_actor s i) @ in_hand (as_actor s i) @ ac_que (as_actor s i)) \<and>
     (as_fault s = None \<longrightarrow> (\<forall>i<2. ac_posted (as_actor s (i + 1)) = map (\<lambda>_. ''llfc'') (ac_dealt (as_actor s i))))"

lemma in_hand_simps [simp]:
  "in_hand (a\<lparr>ac_alive := b\<rparr>) = in_hand a" "in_hand (a\<lparr>ac_gone := b\<rparr>) = in_hand a" "in_hand (a\<lparr>ac_stop := b\<rparr>) = in_hand a"
  "in_hand (a\<lparr>ac_que := q\<rparr>) = in_hand a" "in_hand (a\<lparr>ac_que_stop := b\<rparr>) = in_hand a"
  "in_hand (a\<lparr>ac_posted := q\<rparr>) = in_hand a" "in_hand (a\<lparr>ac_dealt := q\<rparr>) = in_hand a"
  "in_hand (a\<lparr>ac_worker := WkTest\<rparr>) = []" "in_hand (a\<lparr>ac_worker := WkDeal v\<rparr>) = [v]"
  by (simp_all add: in_hand_def)

lemma actor_wake_simps [simp]:
  "ac_posted (actor_wake a) = ac_posted a" "ac_dealt (actor_wake a) = ac_dealt a" "ac_que (actor_wake a) = ac_que a"
  "in_hand (actor_wake a) = in_hand a"
  by (simp_all add: actor_wake_def in_hand_def)

lemma set_actor_simps [simp]:
  "as_actor (set_actor i a s) = (as_actor s)(i := a)" "as_fault (set_actor i a s) = as_fault s"
  "as_main (set_actor i a s) = as_main s"
  by (simp_all add: set_actor_def)

definition account :: "actor \<Rightarrow> bool" where
  "account a \<longleftrightarrow> ac_posted a = ac_dealt a @ in_hand a @ ac_que a"

lemma inv_set:
  assumes "actors_inv s" "account a" "ac_posted a = ac_posted (as_actor s i)" "ac_dealt a = ac_dealt (as_actor s i)"
  shows "actors_inv (set_actor i a s)"
  using assms by (auto simp: actors_inv_def account_def)

lemma inv_main: "actors_inv (s\<lparr>as_main := m\<rparr>) = actors_inv s"
  by (simp add: actors_inv_def)

lemma inv_account: "actors_inv s \<Longrightarrow> account (as_actor s i)"
  by (simp add: actors_inv_def account_def)

lemma account_push: "account a \<Longrightarrow> account (ThreadSafeQue_push v (a\<lparr>ac_alive := b\<rparr>))"
  by (simp add: account_def ThreadSafeQue_push_def)

lemma inv_main_post: "actors_inv s \<Longrightarrow> actors_inv (PostMsg 0 v s)"
  using inv_account [of s 0] account_push [of "as_actor s 0" v True]
  by (auto simp: PostMsg_def actors_inv_def account_def Let_def ThreadSafeQue_push_def)

lemma inv_deal:
  assumes i: "actors_inv s" and w: "ac_worker (as_actor s k) = WkDeal v" and k: "k \<le> 2"
  shows "actors_inv (actor_DealMsg k (set_actor k ((as_actor s k)\<lparr>ac_worker := WkTest, ac_dealt := ac_dealt (as_actor s k) @ [v]\<rparr>) s))"
proof -
  let ?a = "(as_actor s k)\<lparr>ac_worker := WkTest, ac_dealt := ac_dealt (as_actor s k) @ [v]\<rparr>"
  have a: "account ?a" using inv_account [OF i, of k] w by (simp add: account_def in_hand_def)
  show ?thesis
  proof (cases "k < 2")
    case False
    then have d: "actor_DealMsg k = (\<lambda>s. s)" by (simp add: actor_DealMsg_def fun_eq_iff)
    have p: "ac_posted ?a = ac_posted (as_actor s k)" by simp
    show ?thesis using i a False unfolding d actors_inv_def account_def by (auto simp: p simp del: in_hand_simps)
  next
    case True
    let ?b = "as_actor s (k + 1)"
    have p: "account (ThreadSafeQue_push ''llfc'' (?b\<lparr>ac_alive := True\<rparr>))"
      by (rule account_push [OF inv_account [OF i]])
    show ?thesis
      using i a p True unfolding actor_DealMsg_def actors_inv_def account_def PostMsg_def Let_def
      by (auto simp: ThreadSafeQue_push_def less_2_cases_iff)
  qed
qed

lemma actors_inv_exec: "actors_inv s \<Longrightarrow> actor_exec e s = Some t \<Longrightarrow> actors_inv t"
proof (cases e)
  case (MainPost v)
  assume "actors_inv s" "actor_exec e s = Some t"
  with MainPost show ?thesis using inv_main_post by (auto split: if_splits)
next
  case (Worker k)
  assume i: "actors_inv s" and "actor_exec e s = Some t"
  with Worker have st: "actor_thread k s = Some t" "k \<le> 2" by (auto split: if_splits)
  note a = inv_account [OF i, of k]
  have "account (WaitAndPop (as_actor s k))" if "ac_worker (as_actor s k) = WkLook"
    using a that by (auto simp: account_def WaitAndPop_def in_hand_def split: list.split)
  moreover have "account ((as_actor s k)\<lparr>ac_worker := w\<rparr>)"
    if "in_hand (as_actor s k) = []" "in_hand ((as_actor s k)\<lparr>ac_worker := w\<rparr>) = []" for w
    using a that by (simp add: account_def)
  moreover have "ac_posted (WaitAndPop a) = ac_posted a" "ac_dealt (WaitAndPop a) = ac_dealt a" for a
    by (simp_all add: WaitAndPop_def split: list.split)
  ultimately show ?thesis
    using st i inv_deal [OF i _ st(2)]
    by (auto simp: actor_thread_def Let_def in_hand_def split: if_splits actor_worker.splits intro!: inv_set)
next
  case MainEnds
  assume i: "actors_inv s" and "actor_exec e s = Some t"
  with MainEnds have st: "actor_destructor s = Some t" by simp
  have "account ((as_actor s k)\<lparr>ac_stop := b\<rparr>)" "account ((as_actor s k)\<lparr>ac_que_stop := b\<rparr>)"
    "account ((as_actor s k)\<lparr>ac_alive := b, ac_gone := c\<rparr>)" "account (actor_wake (as_actor s k))" for k b c
    using inv_account [OF i, of k] by (simp_all add: account_def)
  then show ?thesis
    using st i by (auto simp: actor_destructor_def Let_def inv_main split: main_pc.splits if_splits intro!: inv_set)
qed

interpretation act: inv_machine actor_exec actors_inv
  by unfold_locales (rule actors_inv_exec)

text \<open>
  C38. In every run each actor deals with its messages in the order in which they were posted, and
  \<open>ClassB\<close> and \<open>ClassC\<close> have been posted one message, always \<open>"llfc"\<close>, for each message that the actor
  before them has dealt with.
\<close>

theorem actors_pass_on:
  assumes "run actor_exec es actors_start = Some s" "as_fault s = None"
  shows "(\<exists>r. ac_posted (as_actor s i) = ac_dealt (as_actor s i) @ r) \<and>
    ac_posted (as_actor s 1) = replicate (length (ac_dealt (as_actor s 0))) ''llfc'' \<and>
    ac_posted (as_actor s 2) = replicate (length (ac_dealt (as_actor s 1))) ''llfc''"
proof -
  have "actors_inv actors_start" by (simp add: actors_inv_def actors_start_def no_actor_def in_hand_def)
  from act.run_inv [OF this assms(1)] have i: "actors_inv s" .
  have p: "\<And>i. i < 2 \<Longrightarrow> ac_posted (as_actor s (i + 1)) = map (\<lambda>_. ''llfc'') (ac_dealt (as_actor s i))"
    and o: "ac_posted (as_actor s i) = ac_dealt (as_actor s i) @ in_hand (as_actor s i) @ ac_que (as_actor s i)"
    using i assms(2) unfolding actors_inv_def by blast+
  have "ac_posted (as_actor s 1) = replicate (length (ac_dealt (as_actor s 0))) ''llfc''"
    using p [of 0] by (simp add: map_replicate_const)
  moreover have "ac_posted (as_actor s 2) = replicate (length (ac_dealt (as_actor s 1))) ''llfc''"
    using p [of 1] by (simp add: map_replicate_const numeral_2_eq_2)
  ultimately show ?thesis using o by blast
qed

lemma actors_pass_on_witness:
  "\<exists>s. run actor_exec (MainPost ''hello'' # map Worker [0, 0, 0, 1, 1, 1, 2, 2, 2]) actors_start = Some s \<and>
     ac_dealt (as_actor s 2) = [''llfc''] \<and> ac_posted (as_actor s 2) = replicate (length (ac_dealt (as_actor s 1))) ''llfc''"
proof -
  obtain s where s: "run actor_exec (MainPost ''hello'' # map Worker [0, 0, 0, 1, 1, 1, 2, 2, 2]) actors_start = Some s"
      "as_fault s = None" "ac_dealt (as_actor s 2) = [''llfc'']"
    by (simp add: actors_start_def no_actor_def PostMsg_def ThreadSafeQue_push_def actor_wake_def actor_thread_def WaitAndPop_def
        actor_DealMsg_def set_actor_def Let_def)
  have "ac_posted (as_actor s 2) = replicate (length (ac_dealt (as_actor s 1))) ''llfc''"
    using actors_pass_on [OF s(1,2)] by blast
  with s(1,3) show ?thesis by (intro exI conjI)
qed

section \<open>The end of the program\<close>

lemmas actor_run = actors_start_def no_actor_def PostMsg_def ThreadSafeQue_push_def actor_wake_def actor_thread_def WaitAndPop_def
  actor_DealMsg_def set_actor_def actor_destructor_def last_alive_def Let_def

text \<open>
  The end waits for ever when \<open>NotifyStop\<close> falls between the test of the condition and the sleep of
  a worker: nobody can take a step any more.
\<close>

lemma actors_end_can_hang:
  "\<exists>es s. run actor_exec es actors_start = Some s \<and> as_main s = JoinThread 2 \<and> (\<forall>e. actor_exec e s = None)"
proof -
  let ?es = "MainPost ''a'' # map Worker [0, 0, 0, 0, 0, 0, 1, 1, 1, 1, 1, 1, 2, 2, 2, 2, 2] @
    [MainEnds, MainEnds, MainEnds, MainEnds, Worker 2]"
  obtain s where s: "run actor_exec ?es actors_start = Some s" "as_main s = JoinThread 2"
      "ac_worker (as_actor s 0) = WkAsleep" "ac_worker (as_actor s 1) = WkAsleep" "ac_worker (as_actor s 2) = WkAsleep"
    by (simp add: actor_run)
  have "actor_exec e s = None" for e
  proof (cases e)
    case (Worker i)
    then have "i = 0 \<or> i = 1 \<or> i = 2 \<or> 2 < i" by auto
    then show ?thesis using s(3-5) Worker by (auto simp: actor_thread_def Let_def)
  qed (use s in \<open>simp_all add: actor_destructor_def\<close>)
  with s(1,2) show ?thesis by blast
qed

text \<open>
  The actors are destroyed in the wrong order for the messages under way: \<open>ClassC\<close>, constructed
  last, is destroyed first, and \<open>ClassB\<close>, still running, posts to it.
\<close>

theorem actors_use_destroyed:
  "\<exists>es s. run actor_exec es actors_start = Some s \<and> as_fault s = Some UseAfterFree"
proof -
  let ?es = "MainPost ''a'' # MainPost ''b'' # map Worker [0, 0, 0, 0, 0, 0, 1, 1, 1] @
    [MainEnds, MainEnds, MainEnds, Worker 2, MainEnds, MainEnds, Worker 1, Worker 1, Worker 1]"
  have "\<exists>s. run actor_exec ?es actors_start = Some s \<and> as_fault s = Some UseAfterFree"
    by (simp add: actor_run)
  then show ?thesis by blast
qed

text \<open>A message that is pushed in the same gap stays in the queue of a sleeping actor.\<close>

lemma actors_message_waits:
  "\<exists>es s. run actor_exec es actors_start = Some s \<and> as_main s = Running \<and> ac_que (as_actor s 0) = [''b''] \<and>
     ac_worker (as_actor s 0) = WkAsleep \<and> actor_exec (Worker 0) s = None"
proof -
  let ?es = "MainPost ''a'' # map Worker [0, 0, 0, 0, 0] @ [MainPost ''b'', Worker 0]"
  have "\<exists>s. run actor_exec ?es actors_start = Some s \<and> as_main s = Running \<and> ac_que (as_actor s 0) = [''b''] \<and>
     ac_worker (as_actor s 0) = WkAsleep \<and> actor_exec (Worker 0) s = None"
    by (simp add: actor_run)
  then show ?thesis by blast
qed

end
