(* ===== verification/SharedLock.thy ===== *)
theory SharedLock
  imports Prelude
begin

text \<open>
  The two classes of \<open>day03-unique_lock.cpp\<close>: \<open>DNService\<close>, a table under a \<open>shared_mutex\<close>, and
  \<open>RecursiveDemo\<close>, a table under a \<open>recursive_mutex\<close>.
\<close>

section \<open>Names under a shared mutex\<close>

text \<open>
  A call first takes the mutex, shared or alone, then reads or writes the map, then gives the mutex
  back. The log has the calls with their answers in the order in which they used the map.
\<close>

datatype dns_call = QueryDNS string | AddDNSInfo string string

datatype dns_pc =
    DnsIdle
  | DnsCalled dns_call
  | DnsInside dns_call    \<comment> \<open>holds the mutex, has not used the map\<close>
  | DnsDone dns_call      \<comment> \<open>holds the mutex, has used the map\<close>

record dns_service =
  dns_info :: "(string \<times> string) list"
  dns_shared :: "nat list"
  dns_owner :: "nat option"
  dns_pc :: "nat \<Rightarrow> dns_pc"
  dns_log :: "(dns_call \<times> string) list"

definition DNService :: dns_service where
  "DNService = \<lparr>dns_info = [], dns_shared = [], dns_owner = None, dns_pc = \<lambda>i. DnsIdle, dns_log = []\<rparr>"

text \<open>\<open>find\<close> and \<open>insert\<close>, which keeps an entry that is already there.\<close>

definition dns_find :: "string \<Rightarrow> (string \<times> string) list \<Rightarrow> string" where
  "dns_find x m = (case map_of m x of None \<Rightarrow> [] | Some e \<Rightarrow> e)"

definition dns_insert :: "string \<Rightarrow> string \<Rightarrow> (string \<times> string) list \<Rightarrow> (string \<times> string) list" where
  "dns_insert x e m = (if map_of m x = None then (x, e) # m else m)"

fun use_map :: "dns_call \<Rightarrow> (string \<times> string) list \<Rightarrow> string \<times> (string \<times> string) list" where
  "use_map (QueryDNS x) m = (dns_find x m, m)"
| "use_map (AddDNSInfo x e) m = ([], dns_insert x e m)"

fun is_query :: "dns_call \<Rightarrow> bool" where
  "is_query (QueryDNS x) = True"
| "is_query (AddDNSInfo x e) = False"

definition set_dns :: "nat \<Rightarrow> dns_pc \<Rightarrow> dns_service \<Rightarrow> dns_service" where
  "set_dns i p s = s\<lparr>dns_pc := (dns_pc s)(i := p)\<rparr>"

definition dns_lock :: "nat \<Rightarrow> dns_call \<Rightarrow> dns_service \<Rightarrow> dns_service option" where
  "dns_lock i c s =
     (if is_query c then
        (if dns_owner s = None then Some (set_dns i (DnsInside c) (s\<lparr>dns_shared := i # dns_shared s\<rparr>)) else None)
      else if dns_owner s = None \<and> dns_shared s = [] then Some (set_dns i (DnsInside c) (s\<lparr>dns_owner := Some i\<rparr>))
      else None)"

definition dns_use :: "nat \<Rightarrow> dns_call \<Rightarrow> dns_service \<Rightarrow> dns_service" where
  "dns_use i c s =
     (let (r, m) = use_map c (dns_info s) in
      set_dns i (DnsDone c) (s\<lparr>dns_info := m, dns_log := dns_log s @ [(c, r)]\<rparr>))"

definition dns_unlock :: "nat \<Rightarrow> dns_call \<Rightarrow> dns_service \<Rightarrow> dns_service" where
  "dns_unlock i c s =
     set_dns i DnsIdle (if is_query c then s\<lparr>dns_shared := remove1 i (dns_shared s)\<rparr> else s\<lparr>dns_owner := None\<rparr>)"

datatype dns_event = DnsCall nat dns_call | DnsStep nat

fun dns_exec :: "dns_event \<Rightarrow> dns_service \<Rightarrow> dns_service option" where
  "dns_exec (DnsCall i c) s = (if dns_pc s i = DnsIdle then Some (set_dns i (DnsCalled c) s) else None)"
| "dns_exec (DnsStep i) s =
     (case dns_pc s i of
        DnsIdle \<Rightarrow> None
      | DnsCalled c \<Rightarrow> dns_lock i c s
      | DnsInside c \<Rightarrow> Some (dns_use i c s)
      | DnsDone c \<Rightarrow> Some (dns_unlock i c s))"

text \<open>The specification: a map that keeps the first entry of a name.\<close>

fun dns_spec :: "dns_call list \<Rightarrow> (string \<Rightarrow> string option) \<Rightarrow> (dns_call \<times> string) list" where
  "dns_spec [] m = []"
| "dns_spec (QueryDNS x # cs) m = (QueryDNS x, case m x of None \<Rightarrow> [] | Some e \<Rightarrow> e) # dns_spec cs m"
| "dns_spec (AddDNSInfo x e # cs) m = (AddDNSInfo x e, []) # dns_spec cs (if m x = None then m(x \<mapsto> e) else m)"

fun dns_after :: "dns_call list \<Rightarrow> (string \<Rightarrow> string option) \<Rightarrow> (string \<Rightarrow> string option)" where
  "dns_after [] m = m"
| "dns_after (QueryDNS x # cs) m = dns_after cs m"
| "dns_after (AddDNSInfo x e # cs) m = dns_after cs (if m x = None then m(x \<mapsto> e) else m)"

lemma dns_spec_snoc: "dns_spec (cs @ [c]) m = dns_spec cs m @ dns_spec [c] (dns_after cs m)"
  by (induction cs m rule: dns_after.induct) (cases c; auto)+

lemma dns_after_snoc: "dns_after (cs @ [c]) m = dns_after [c] (dns_after cs m)"
  by (induction cs m rule: dns_after.induct) auto

fun dns_holds :: "dns_pc \<Rightarrow> dns_call option" where
  "dns_holds (DnsInside c) = Some c"
| "dns_holds (DnsDone c) = Some c"
| "dns_holds p = None"

definition dns_inv :: "dns_service \<Rightarrow> bool" where
  "dns_inv s \<longleftrightarrow>
     distinct (dns_shared s) \<and>
     (\<forall>i. i \<in> set (dns_shared s) \<longleftrightarrow> (\<exists>c. dns_holds (dns_pc s i) = Some c \<and> is_query c)) \<and>
     (\<forall>i. dns_owner s = Some i \<longleftrightarrow> (\<exists>c. dns_holds (dns_pc s i) = Some c \<and> \<not> is_query c)) \<and>
     (dns_owner s \<noteq> None \<longrightarrow> dns_shared s = []) \<and>
     dns_log s = dns_spec (map fst (dns_log s)) Map.empty \<and>
     map_of (dns_info s) = dns_after (map fst (dns_log s)) Map.empty"

lemma dns_use_spec:
  assumes "map_of m = f" "use_map c m = (r, m')"
  shows "dns_spec [c] f = [(c, r)]" "map_of m' = dns_after [c] f"
  using assms by (cases c; auto simp: dns_find_def dns_insert_def)+

lemma dns_inv_exec:
  assumes i: "dns_inv s" and st: "dns_exec e s = Some t"
  shows "dns_inv t"
proof (cases e)
  case (DnsCall k c)
  then have k: "dns_pc s k = DnsIdle" and t: "t = set_dns k (DnsCalled c) s" using st by (auto split: if_splits)
  have "dns_holds (dns_pc t j) = dns_holds (dns_pc s j)" for j using k by (simp add: t set_dns_def)
  then show ?thesis using i by (simp add: dns_inv_def t set_dns_def)
next
  case (DnsStep k)
  show ?thesis
  proof (cases "dns_pc s k")
    case DnsIdle
    then show ?thesis using st DnsStep by simp
  next
    case (DnsCalled c)
    then have h: "dns_holds (dns_pc s k) = None" and l: "dns_lock k c s = Some t" using st DnsStep by simp_all
    have nk: "k \<notin> set (dns_shared s)" "dns_owner s \<noteq> Some k" using i h by (simp_all add: dns_inv_def)
    show ?thesis
    proof (cases "is_query c")
      case True
      then have t: "t = set_dns k (DnsInside c) (s\<lparr>dns_shared := k # dns_shared s\<rparr>)" "dns_owner s = None"
        using l by (auto simp: dns_lock_def split: if_splits)
      show ?thesis using i nk True t(2) by (auto simp: dns_inv_def t(1) set_dns_def)
    next
      case False
      then have t: "t = set_dns k (DnsInside c) (s\<lparr>dns_owner := Some k\<rparr>)" "dns_owner s = None" "dns_shared s = []"
        using l by (auto simp: dns_lock_def split: if_splits)
      show ?thesis using i nk False t(2,3) by (auto simp: dns_inv_def t(1) set_dns_def)
    qed
  next
    case (DnsInside c)
    obtain r m where u: "use_map c (dns_info s) = (r, m)" by fastforce
    have t: "t = set_dns k (DnsDone c) (s\<lparr>dns_info := m, dns_log := dns_log s @ [(c, r)]\<rparr>)"
      using st DnsStep DnsInside u by (simp add: dns_use_def)
    have h: "dns_holds (dns_pc t j) = dns_holds (dns_pc s j)" for j using DnsInside by (simp add: t set_dns_def)
    have f: "map_of (dns_info s) = dns_after (map fst (dns_log s)) Map.empty"
      and lg: "dns_log s = dns_spec (map fst (dns_log s)) Map.empty"
      using i by (simp_all add: dns_inv_def)
    note sp = dns_use_spec [OF f u]
    have "dns_log t = dns_spec (map fst (dns_log t)) Map.empty"
      using lg sp(1) by (simp add: t set_dns_def dns_spec_snoc)
    moreover have "map_of (dns_info t) = dns_after (map fst (dns_log t)) Map.empty"
      using sp(2) by (simp add: t set_dns_def dns_after_snoc)
    moreover have "dns_shared t = dns_shared s" "dns_owner t = dns_owner s" by (simp_all add: t set_dns_def)
    ultimately show ?thesis using i h by (simp add: dns_inv_def)
  next
    case (DnsDone c)
    then have t: "t = dns_unlock k c s" and h: "dns_holds (dns_pc s k) = Some c" using st DnsStep by simp_all
    show ?thesis
    proof (cases "is_query c")
      case True
      then show ?thesis using i h by (auto simp: dns_inv_def t dns_unlock_def set_dns_def)
    next
      case False
      have "dns_owner s = Some k" using i h False by (simp add: dns_inv_def)
      then show ?thesis using i h False by (auto simp: dns_inv_def t dns_unlock_def set_dns_def)
    qed
  qed
qed

interpretation dns: inv_machine dns_exec dns_inv
  by unfold_locales (rule dns_inv_exec)

text \<open>
  C32. Whatever the interleaving, the calls of \<open>DNService\<close> are answered as by one table that keeps the
  first entry of each name, in the order of the log; and while one thread writes the table no other
  thread reads or writes it.
\<close>

theorem dns_linearizable:
  assumes "run dns_exec es DNService = Some s"
  shows "dns_log s = dns_spec (map fst (dns_log s)) Map.empty \<and>
    (dns_pc s i = DnsInside (AddDNSInfo x e) \<longrightarrow> dns_holds (dns_pc s j) \<noteq> None \<longrightarrow> i = j)"
proof -
  have "dns_inv DNService" by (simp add: dns_inv_def DNService_def)
  from dns.run_inv [OF this assms] have v: "dns_inv s" .
  have "i = j" if w: "dns_pc s i = DnsInside (AddDNSInfo x e)" and h: "dns_holds (dns_pc s j) \<noteq> None"
  proof -
    have o: "dns_owner s = Some i" using v w by (simp add: dns_inv_def)
    then have "dns_shared s = []" using v by (simp add: dns_inv_def)
    then have "\<not> (\<exists>c. dns_holds (dns_pc s j) = Some c \<and> is_query c)" using v unfolding dns_inv_def by (metis empty_iff empty_set)
    then have "dns_owner s = Some j" using v h unfolding dns_inv_def by (metis option.exhaust)
    with o show ?thesis by simp
  qed
  then show ?thesis using v by (simp add: dns_inv_def)
qed

lemma dns_linearizable_witness:
  "\<exists>s. run dns_exec [DnsCall 0 (AddDNSInfo ''a'' ''1''), DnsCall 1 (QueryDNS ''a''), DnsStep 0, DnsStep 0, DnsStep 0, DnsStep 1,
      DnsCall 2 (QueryDNS ''b''), DnsStep 2, DnsStep 2, DnsStep 1] DNService = Some s \<and>
    dns_log s = [(AddDNSInfo ''a'' ''1'', []), (QueryDNS ''b'', []), (QueryDNS ''a'', ''1'')]"
proof -
  obtain s where s: "run dns_exec [DnsCall 0 (AddDNSInfo ''a'' ''1''), DnsCall 1 (QueryDNS ''a''), DnsStep 0, DnsStep 0, DnsStep 0, DnsStep 1,
      DnsCall 2 (QueryDNS ''b''), DnsStep 2, DnsStep 2, DnsStep 1] DNService = Some s"
      "map fst (dns_log s) = [AddDNSInfo ''a'' ''1'', QueryDNS ''b'', QueryDNS ''a'']"
    by (simp add: DNService_def set_dns_def dns_lock_def dns_use_def dns_unlock_def dns_find_def dns_insert_def)
  from dns_linearizable [OF s(1)] have "dns_log s = dns_spec (map fst (dns_log s)) Map.empty" by blast
  then have "dns_log s = [(AddDNSInfo ''a'' ''1'', []), (QueryDNS ''b'', []), (QueryDNS ''a'', ''1'')]"
    unfolding s(2) by simp
  with s(1) show ?thesis by (intro exI conjI)
qed

section \<open>Scores under a recursive mutex\<close>

text \<open>
  The mutex counts how often its owner has taken it; the functions run in the thread \<open>me\<close>, and
  \<open>None\<close> is a thread that waits for another. A score that leaves the range of \<open>int\<close> is undefined.
\<close>

record recursive_demo =
  students_info :: "string \<Rightarrow> int option"
  rec_owner :: "nat option"
  rec_depth :: nat

definition rec_lock :: "nat \<Rightarrow> recursive_demo \<Rightarrow> recursive_demo option" where
  "rec_lock me s =
     (if rec_owner s = None \<or> rec_owner s = Some me then Some (s\<lparr>rec_owner := Some me, rec_depth := rec_depth s + 1\<rparr>)
      else None)"

definition rec_unlock :: "recursive_demo \<Rightarrow> recursive_demo" where
  "rec_unlock s = s\<lparr>rec_owner := (if rec_depth s = 1 then None else rec_owner s), rec_depth := rec_depth s - 1\<rparr>"

definition add_int :: "int \<Rightarrow> int \<Rightarrow> int res" where
  "add_int x y = (if - 2147483648 \<le> x + y \<and> x + y < 2147483648 then Inr (x + y) else Inl SignedOverflow)"

definition QueryStudent :: "nat \<Rightarrow> string \<Rightarrow> recursive_demo \<Rightarrow> (bool \<times> recursive_demo) option" where
  "QueryStudent me name s =
     (case rec_lock me s of None \<Rightarrow> None | Some s1 \<Rightarrow> Some (students_info s1 name \<noteq> None, rec_unlock s1))"

definition put_score :: "string \<Rightarrow> int \<Rightarrow> recursive_demo \<Rightarrow> recursive_demo res" where
  "put_score name score s =
     (case students_info s name of
        None \<Rightarrow> Inr (s\<lparr>students_info := (students_info s)(name \<mapsto> score)\<rparr>)
      | Some x \<Rightarrow> rbind (add_int x score) (\<lambda>y. Inr (s\<lparr>students_info := (students_info s)(name \<mapsto> y)\<rparr>)))"

definition AddScore :: "nat \<Rightarrow> string \<Rightarrow> int \<Rightarrow> recursive_demo \<Rightarrow> recursive_demo res option" where
  "AddScore me name score s =
     (case rec_lock me s of None \<Rightarrow> None
      | Some s1 \<Rightarrow> (case QueryStudent me name s1 of None \<Rightarrow> None
          | Some (known, s2) \<Rightarrow>
              Some (rbind (if \<not> known then Inr (s2\<lparr>students_info := (students_info s2)(name \<mapsto> score)\<rparr>)
                           else rbind (add_int (the (students_info s2 name)) score)
                                  (\<lambda>y. Inr (s2\<lparr>students_info := (students_info s2)(name \<mapsto> y)\<rparr>)))
                      (\<lambda>s3. Inr (rec_unlock s3)))))"

definition AddScoreAtomic :: "nat \<Rightarrow> string \<Rightarrow> int \<Rightarrow> recursive_demo \<Rightarrow> recursive_demo res option" where
  "AddScoreAtomic me name score s =
     (case rec_lock me s of None \<Rightarrow> None
      | Some s1 \<Rightarrow> Some (rbind (put_score name score s1) (\<lambda>s2. Inr (rec_unlock s2))))"

text \<open>
  \<open>AddScore\<close>, which takes the recursive mutex twice, and \<open>AddScoreAtomic\<close> are the same function;
  when nobody else dns_holds the mutex they return, and give it back to the depth it had.
\<close>

theorem add_score_equivalent:
  "AddScore me name score s = AddScoreAtomic me name score s \<and>
   (rec_owner s = None \<and> rec_depth s = 0 \<or> rec_owner s = Some me \<and> rec_depth s > 0 \<longrightarrow>
     (case AddScoreAtomic me name score s of
        None \<Rightarrow> False | Some (Inl e) \<Rightarrow> students_info s name \<noteq> None
      | Some (Inr t) \<Rightarrow> rec_owner t = rec_owner s \<and> rec_depth t = rec_depth s \<and>
          students_info t name = Some (score + (case students_info s name of None \<Rightarrow> 0 | Some x \<Rightarrow> x))))"
  by (auto simp: AddScore_def AddScoreAtomic_def QueryStudent_def rec_lock_def rec_unlock_def put_score_def add_int_def
      split: option.splits)

lemma add_score_equivalent_witness:
  "case AddScoreAtomic 0 ''a'' 5 \<lparr>students_info = [''a'' \<mapsto> 7], rec_owner = None, rec_depth = 0\<rparr> of
     Some (Inr t) \<Rightarrow> students_info t ''a'' = Some 12 \<and> rec_depth t = 0 | _ \<Rightarrow> False"
proof -
  let ?s = "\<lparr>students_info = [''a'' \<mapsto> 7], rec_owner = None, rec_depth = 0\<rparr>"
  have "\<exists>t. AddScoreAtomic 0 ''a'' 5 ?s = Some (Inr t)"
    by (simp add: AddScoreAtomic_def rec_lock_def put_score_def add_int_def)
  with conjunct2 [OF add_score_equivalent, of ?s 0 "''a''" 5] show ?thesis by auto
qed

end
