(* ===== verification/PingPong.thy ===== *)
theory PingPong
  imports Prelude
begin

text \<open>
  \<open>ResonableImplemention\<close> of \<open>day05-ConditionVariable.cpp\<close>: two threads that print in turn, with one
  mutex, a condition variable each and the number whose turn it is.
\<close>

section \<open>The threads\<close>

text \<open>
  Thread \<open>A\<close> (\<open>True\<close>) waits on \<open>cvA\<close> for \<open>num == 1\<close>, prints 1 and increments; \<open>B\<close> waits on \<open>cvB\<close> for
  \<open>num == 2\<close>, prints 2 and decrements. A wait gives the mutex back and sleeps in one step, and takes
  the mutex again after a notification; it may also wake for no reason.
\<close>

datatype pp_pc =
    PLock         \<comment> \<open>before the mutex is taken\<close>
  | PTest         \<comment> \<open>holds it, before the predicate\<close>
  | PAsleep
  | PWoken        \<comment> \<open>notified, takes the mutex again\<close>
  | PPrint        \<comment> \<open>the predicate holds: changes \<open>num\<close> and prints\<close>
  | PNotify
  | PUnlock

record ping_pong =
  pp_num :: int
  pp_mutex :: "bool option"
  pp_pc :: "bool \<Rightarrow> pp_pc"
  pp_out :: "int list"

definition ping_pong :: ping_pong where
  "ping_pong = \<lparr>pp_num = 1, pp_mutex = None, pp_pc = \<lambda>b. PLock, pp_out = []\<rparr>"

definition my_turn :: "bool \<Rightarrow> int" where
  "my_turn b = (if b then 1 else 2)"

definition set_pp :: "bool \<Rightarrow> pp_pc \<Rightarrow> ping_pong \<Rightarrow> ping_pong" where
  "set_pp b p s = s\<lparr>pp_pc := (pp_pc s)(b := p)\<rparr>"

definition pp_notify :: "bool \<Rightarrow> ping_pong \<Rightarrow> ping_pong" where
  "pp_notify b s = (if pp_pc s b = PAsleep then set_pp b PWoken s else s)"

definition pp_step :: "bool \<Rightarrow> ping_pong \<Rightarrow> ping_pong option" where
  "pp_step b s =
     (case pp_pc s b of
        PLock \<Rightarrow> if pp_mutex s = None then Some (set_pp b PTest (s\<lparr>pp_mutex := Some b\<rparr>)) else None
      | PTest \<Rightarrow> Some (if pp_num s = my_turn b then set_pp b PPrint s else set_pp b PAsleep (s\<lparr>pp_mutex := None\<rparr>))
      | PAsleep \<Rightarrow> None
      | PWoken \<Rightarrow> if pp_mutex s = None then Some (set_pp b PTest (s\<lparr>pp_mutex := Some b\<rparr>)) else None
      | PPrint \<Rightarrow> Some (set_pp b PNotify (s\<lparr>pp_num := (if b then pp_num s + 1 else pp_num s - 1),
                                pp_out := pp_out s @ [my_turn b]\<rparr>))
      | PNotify \<Rightarrow> Some (set_pp b PUnlock (pp_notify (\<not> b) s))
      | PUnlock \<Rightarrow> Some (set_pp b PLock (s\<lparr>pp_mutex := None\<rparr>)))"

datatype pp_event = PStep bool | Spurious bool

fun pp_exec :: "pp_event \<Rightarrow> ping_pong \<Rightarrow> ping_pong option" where
  "pp_exec (PStep b) s = pp_step b s"
| "pp_exec (Spurious b) s = (if pp_pc s b = PAsleep then Some (set_pp b PWoken s) else None)"

section \<open>The output alternates and nobody is forgotten\<close>

fun alternating :: "nat \<Rightarrow> int list" where
  "alternating 0 = []"
| "alternating (Suc n) = alternating n @ [if even n then 1 else 2]"

text \<open>
  A sleeping thread whose turn it is will be notified by the other one, which has printed and has
  not yet notified.
\<close>

definition pp_inv :: "ping_pong \<Rightarrow> bool" where
  "pp_inv s \<longleftrightarrow>
     alternating (length (pp_out s)) = pp_out s \<and>
     pp_num s = (if even (length (pp_out s)) then 1 else 2) \<and>
     (\<forall>b. pp_mutex s = Some b \<longleftrightarrow> pp_pc s b \<in> {PTest, PPrint, PNotify, PUnlock}) \<and>
     (\<forall>b. pp_pc s b = PPrint \<longrightarrow> pp_num s = my_turn b) \<and>
     (\<forall>b. pp_pc s b = PAsleep \<longrightarrow> pp_num s = my_turn b \<longrightarrow> pp_pc s (\<not> b) = PNotify)"

lemma my_turn_not: "my_turn (\<not> b) = 3 - my_turn b"
  by (simp add: my_turn_def)

lemma pp_inv_step:
  assumes i: "pp_inv s" and st: "pp_step b s = Some t"
  shows "pp_inv t"
proof -
  have m: "\<And>c. pp_mutex s = Some c \<longleftrightarrow> pp_pc s c \<in> {PTest, PPrint, PNotify, PUnlock}"
    and o: "alternating (length (pp_out s)) = pp_out s" "pp_num s = (if even (length (pp_out s)) then 1 else 2)"
    and p: "\<And>c. pp_pc s c = PPrint \<Longrightarrow> pp_num s = my_turn c"
    and a: "\<And>c. pp_pc s c = PAsleep \<Longrightarrow> pp_num s = my_turn c \<Longrightarrow> pp_pc s (\<not> c) = PNotify"
    using i unfolding pp_inv_def by blast+
  have other: "c = b \<or> c = (\<not> b)" for c by blast
  show ?thesis
  proof (cases "pp_pc s b")
    case PLock
    then have t: "t = set_pp b PTest (s\<lparr>pp_mutex := Some b\<rparr>)" "pp_mutex s = None" using st by (auto simp: pp_step_def split: if_splits)
    show ?thesis using m [of "\<not> b"] o p [of "\<not> b"] a [of "\<not> b"] PLock t(2)
      unfolding pp_inv_def t(1) set_pp_def by (cases b; auto simp: all_bool_eq my_turn_def split: if_splits)
  next
    case PTest
    then have t: "t = (if pp_num s = my_turn b then set_pp b PPrint s else set_pp b PAsleep (s\<lparr>pp_mutex := None\<rparr>))"
      using st by (simp add: pp_step_def)
    show ?thesis using m [of b] m [of "\<not> b"] o p [of "\<not> b"] a [of "\<not> b"] PTest
      unfolding pp_inv_def t set_pp_def by (cases b; auto simp: all_bool_eq my_turn_def split: if_splits)
  next
    case PAsleep
    then show ?thesis using st by (simp add: pp_step_def)
  next
    case PWoken
    then have t: "t = set_pp b PTest (s\<lparr>pp_mutex := Some b\<rparr>)" "pp_mutex s = None" using st by (auto simp: pp_step_def split: if_splits)
    show ?thesis using m [of "\<not> b"] o p [of "\<not> b"] a [of "\<not> b"] PWoken t(2)
      unfolding pp_inv_def t(1) set_pp_def by (cases b; auto simp: all_bool_eq my_turn_def split: if_splits)
  next
    case PPrint
    then have t: "t = set_pp b PNotify (s\<lparr>pp_num := (if b then pp_num s + 1 else pp_num s - 1), pp_out := pp_out s @ [my_turn b]\<rparr>)"
      using st by (simp add: pp_step_def)
    show ?thesis using m [of b] m [of "\<not> b"] o p [of b] a [of "\<not> b"] PPrint
      unfolding pp_inv_def t set_pp_def by (cases b; auto simp: all_bool_eq my_turn_def split: if_splits)
  next
    case PNotify
    then have t: "t = set_pp b PUnlock (pp_notify (\<not> b) s)" using st by (simp add: pp_step_def)
    show ?thesis using m [of b] m [of "\<not> b"] o p [of "\<not> b"] a [of "\<not> b"] PNotify
      unfolding pp_inv_def t set_pp_def pp_notify_def by (cases b; auto simp: all_bool_eq my_turn_def split: if_splits)
  next
    case PUnlock
    then have t: "t = set_pp b PLock (s\<lparr>pp_mutex := None\<rparr>)" using st by (simp add: pp_step_def)
    show ?thesis using m [of b] m [of "\<not> b"] o p [of "\<not> b"] a [of "\<not> b"] PUnlock
      unfolding pp_inv_def t set_pp_def by (cases b; auto simp: all_bool_eq my_turn_def split: if_splits)
  qed
qed

lemma pp_inv_wake:
  assumes i: "pp_inv s" and b: "pp_pc s b = PAsleep"
  shows "pp_inv (set_pp b PWoken s)"
proof -
  have m: "\<And>c. pp_mutex s = Some c \<longleftrightarrow> pp_pc s c \<in> {PTest, PPrint, PNotify, PUnlock}"
    and o: "alternating (length (pp_out s)) = pp_out s" "pp_num s = (if even (length (pp_out s)) then 1 else 2)"
    and p: "\<And>c. pp_pc s c = PPrint \<Longrightarrow> pp_num s = my_turn c"
    and a: "\<And>c. pp_pc s c = PAsleep \<Longrightarrow> pp_num s = my_turn c \<Longrightarrow> pp_pc s (\<not> c) = PNotify"
    using i unfolding pp_inv_def by blast+
  show ?thesis using m [of b] m [of "\<not> b"] o p [of "\<not> b"] a [of "\<not> b"] b
    unfolding pp_inv_def set_pp_def by (cases b; auto simp: all_bool_eq my_turn_def split: if_splits)
qed

lemma pp_inv_exec: "pp_inv s \<Longrightarrow> pp_exec e s = Some t \<Longrightarrow> pp_inv t"
  using pp_inv_step pp_inv_wake by (cases e) (auto split: if_splits)

interpretation pp: inv_machine pp_exec pp_inv
  by unfold_locales (rule pp_inv_exec)

lemma pp_inv_enabled:
  assumes "pp_inv s"
  shows "\<exists>b. pp_step b s \<noteq> None"
proof (cases "pp_mutex s")
  case (Some b)
  then have "pp_pc s b \<in> {PTest, PPrint, PNotify, PUnlock}" using assms unfolding pp_inv_def by blast
  then show ?thesis by (intro exI [of _ b]) (auto simp: pp_step_def)
next
  case None
  then have n: "pp_pc s b \<notin> {PTest, PPrint, PNotify, PUnlock}" for b using assms unfolding pp_inv_def by (metis option.distinct(1))
  obtain b where b: "pp_num s = my_turn b"
    using assms unfolding pp_inv_def my_turn_def by (metis (full_types))
  have "pp_pc s b \<noteq> PAsleep" using assms b n [of "\<not> b"] unfolding pp_inv_def by blast
  with n [of b] None show ?thesis by (intro exI [of _ b]) (cases "pp_pc s b"; auto simp: pp_step_def)
qed

text \<open>
  C33. The two threads print 1, 2, 1, 2 and so on in every run, and they are never both stuck: there
  is always one that can take a step, spurious wake-ups not counted.
\<close>

theorem ping_pong_alternates:
  assumes "run pp_exec es ping_pong = Some s"
  shows "pp_out s = alternating (length (pp_out s)) \<and> (\<exists>b. pp_exec (PStep b) s \<noteq> None)"
proof -
  have "pp_inv ping_pong" by (auto simp: pp_inv_def ping_pong_def)
  from pp.run_inv [OF this assms] have v: "pp_inv s" .
  then have "pp_out s = alternating (length (pp_out s))" unfolding pp_inv_def by argo
  moreover have "\<exists>b. pp_exec (PStep b) s \<noteq> None" using pp_inv_enabled [OF v] by (simp only: pp_exec.simps)
  ultimately show ?thesis ..
qed

lemma ping_pong_alternates_witness:
  "\<exists>s. run pp_exec (map PStep [False, False, True, True, True, True, True, False, False, False, False, False]) ping_pong = Some s \<and>
     pp_out s = [1, 2]"
proof -
  obtain s where s: "run pp_exec (map PStep [False, False, True, True, True, True, True, False, False, False, False, False]) ping_pong = Some s"
      "length (pp_out s) = 2"
    by (simp add: ping_pong_def pp_step_def set_pp_def pp_notify_def my_turn_def)
  from ping_pong_alternates [OF s(1)] s show ?thesis by (simp add: numeral_2_eq_2)
qed

end
