(* ===== verification/Sorter.thy ===== *)
theory Sorter
  imports QuickSort
begin

text \<open>
  The threads of \<open>sorter\<close> in \<open>day19-parallensort/sorter.h\<close>: \<open>do_sort\<close> pushes the lower part on a
  stack of chunks, starts a helper thread when there may be more, sorts the higher part itself, and
  sorts chunks of the stack while the lower part is not ready. So no thread ever only waits, with
  any number of helpers, none included.
\<close>

section \<open>The threads\<close>

text \<open>
  A thread is the stack of its calls, the innermost first. Thread 0 is the caller, whose call is
  that of chunk 0; its future is the result. \<open>max_thread_count\<close> may be any number.
\<close>

datatype 'a sort_frame =
    SCall "'a list"             \<comment> \<open>\<open>do_sort\<close> of this chunk begins\<close>
  | SHigher 'a nat              \<comment> \<open>pivot and future of the lower part; the call for the higher part is inside\<close>
  | SWait 'a nat "'a list"      \<comment> \<open>in the loop on \<open>new_lower.wait_for\<close>\<close>
  | SReturn "'a list"
  | SChunk nat                  \<comment> \<open>\<open>sort_chunk\<close>, which will fulfil this promise\<close>

record 'a sorter =
  so_threads :: "'a sort_frame list list"
  so_chunks :: "(nat \<times> 'a list) list"       \<comment> \<open>the stack, its top first\<close>
  so_futures :: "nat \<Rightarrow> 'a list option"
  so_asked :: "'a list list"                \<comment> \<open>the chunk of each future\<close>
  so_end :: bool                            \<comment> \<open>\<open>end_of_data\<close>\<close>
  max_thread_count :: nat

definition make_sorter :: "nat \<Rightarrow> 'a list \<Rightarrow> 'a sorter" where
  "make_sorter n xs = \<lparr>so_threads = [[SCall xs, SChunk 0]], so_chunks = [], so_futures = \<lambda>f. None,
     so_asked = [xs], so_end = False, max_thread_count = n\<rparr>"

definition put_stack :: "nat \<Rightarrow> 'a sort_frame list \<Rightarrow> 'a sorter \<Rightarrow> 'a sorter" where
  "put_stack t fs s = s\<lparr>so_threads := (so_threads s)[t := fs]\<rparr>"

definition spawn_helper :: "'a sorter \<Rightarrow> 'a sorter" where
  "spawn_helper s =
     (if length (so_threads s) - 1 < max_thread_count s then s\<lparr>so_threads := so_threads s @ [[]]\<rparr> else s)"

text \<open>One step of \<open>do_sort\<close> or \<open>sort_chunk\<close>.\<close>

fun do_sort_step :: "nat \<Rightarrow> ('a::linorder) sort_frame list \<Rightarrow> 'a sorter \<Rightarrow> 'a sorter option" where
  "do_sort_step t (SCall [] # K) s = Some (put_stack t (SReturn [] # K) s)"
| "do_sort_step t (SCall (partition_val # chunk_data) # K) s =
     (let (new_lower_chunk, rest) = divide partition_val chunk_data; f = length (so_asked s) in
      Some (put_stack t (SCall rest # SHigher partition_val f # K)
        (spawn_helper (s\<lparr>so_chunks := (f, new_lower_chunk) # so_chunks s, so_asked := so_asked s @ [new_lower_chunk]\<rparr>))))"
| "do_sort_step t (SReturn h # SHigher p f # K) s = Some (put_stack t (SWait p f h # K) s)"
| "do_sort_step t (SWait p f h # K) s =
     (case so_futures s f of None \<Rightarrow> None | Some l \<Rightarrow> Some (put_stack t (SReturn (l @ [p] @ h) # K) s))"
| "do_sort_step t (SReturn r # SChunk f # K) s =
     Some ((put_stack t K s)\<lparr>so_futures := (so_futures s)(f := Some r)\<rparr>)"
| "do_sort_step t _ s = None"

text \<open>
  \<open>try_sort_chunk\<close>, from the loop in \<open>do_sort\<close> (the future may have become ready since the test) or
  from \<open>sort_thread\<close> in a helper. When the stack is empty nothing happens, and the loop goes round.
\<close>

definition may_try :: "nat \<Rightarrow> 'a sort_frame list \<Rightarrow> bool" where
  "may_try t fs = (case fs of [] \<Rightarrow> 0 < t | SWait p f h # K \<Rightarrow> True | _ \<Rightarrow> False)"

definition try_sort_chunk :: "nat \<Rightarrow> 'a sorter \<Rightarrow> 'a sorter option" where
  "try_sort_chunk t s =
     (case so_chunks s of
        [] \<Rightarrow> None
      | (f, c) # cs \<Rightarrow>
          if may_try t (so_threads s ! t) \<and> (so_threads s ! t = [] \<longrightarrow> \<not> so_end s) then Some (put_stack t (SCall c # SChunk f # so_threads s ! t) (s\<lparr>so_chunks := cs\<rparr>))
          else None)"

text \<open>The destructor, after the call of the caller has returned, ends the helpers and joins them.\<close>

definition sorter_destructor :: "'a sorter \<Rightarrow> 'a sorter option" where
  "sorter_destructor s = (if so_threads s ! 0 = [] \<and> \<not> so_end s then Some (s\<lparr>so_end := True\<rparr>) else None)"

definition joined :: "'a sorter \<Rightarrow> bool" where
  "joined s \<longleftrightarrow> so_end s \<and> (\<forall>fs\<in>set (so_threads s). fs = [])"

datatype sorter_event = DoSort nat | TryChunk nat | EndOfData

fun sorter_exec :: "sorter_event \<Rightarrow> ('a::linorder) sorter \<Rightarrow> 'a sorter option" where
  "sorter_exec (DoSort t) s = (if t < length (so_threads s) then do_sort_step t (so_threads s ! t) s else None)"
| "sorter_exec (TryChunk t) s = (if t < length (so_threads s) then try_sort_chunk t s else None)"
| "sorter_exec EndOfData s = sorter_destructor s"

section \<open>What the calls return\<close>

text \<open>
  \<open>gives A K r\<close>: the calls \<open>K\<close> go on rightly when the innermost one returns \<open>r\<close>, provided the
  futures give their chunks \<open>A\<close> sorted.
\<close>

fun gives :: "'a::linorder list list \<Rightarrow> 'a sort_frame list \<Rightarrow> 'a list \<Rightarrow> bool"
and good :: "'a list list \<Rightarrow> 'a sort_frame list \<Rightarrow> bool" where
  "gives A (SHigher p f # K) r \<longleftrightarrow> f < length A \<and> gives A K (sort (A ! f) @ [p] @ r)"
| "gives A (SChunk f # K) r \<longleftrightarrow> f < length A \<and> r = sort (A ! f) \<and> good A K"
| "gives A K r \<longleftrightarrow> False"
| "good A [] \<longleftrightarrow> True"
| "good A (SCall ys # K) \<longleftrightarrow> gives A K (sort ys)"
| "good A (SReturn r # K) \<longleftrightarrow> gives A K r"
| "good A (SWait p f h # K) \<longleftrightarrow> f < length A \<and> gives A K (sort (A ! f) @ [p] @ h)"
| "good A (_ # K) \<longleftrightarrow> False"

lemma gives_more: "gives A K r \<Longrightarrow> gives (A @ B) K r" and good_more: "good A K \<Longrightarrow> good (A @ B) K"
  by (induction A K r and A K rule: gives_good.induct) (auto simp: nth_append)

text \<open>The futures named in a stack; the one of an inner call is newer than all further out.\<close>

fun frame_future :: "'a sort_frame \<Rightarrow> nat list" where
  "frame_future (SHigher p f) = [f]"
| "frame_future (SWait p f h) = [f]"
| "frame_future (SChunk f) = [f]"
| "frame_future _ = []"

fun newest_inside :: "'a sort_frame list \<Rightarrow> bool" where
  "newest_inside [] \<longleftrightarrow> True"
| "newest_inside (SHigher p f # K) \<longleftrightarrow> (\<forall>g\<in>set (concat (map frame_future K)). g < f) \<and> newest_inside K"
| "newest_inside (SWait p f h # K) \<longleftrightarrow> (\<forall>g\<in>set (concat (map frame_future K)). g < f) \<and> newest_inside K"
| "newest_inside (_ # K) \<longleftrightarrow> newest_inside K"

definition stack_inv :: "'a::linorder list list \<Rightarrow> 'a sort_frame list \<Rightarrow> bool" where
  "stack_inv A fs \<longleftrightarrow> good A fs \<and> newest_inside fs \<and> (\<forall>g\<in>set (concat (map frame_future fs)). g < length A)"

definition covered :: "'a sorter \<Rightarrow> nat \<Rightarrow> bool" where
  "covered s f \<longleftrightarrow> so_futures s f \<noteq> None \<or> f \<in> fst ` set (so_chunks s) \<or> (\<exists>fs\<in>set (so_threads s). SChunk f \<in> set fs)"

definition sorter_inv :: "'a::linorder list \<Rightarrow> 'a sorter \<Rightarrow> bool" where
  "sorter_inv xs s \<longleftrightarrow>
     so_asked s \<noteq> [] \<and> so_asked s ! 0 = xs \<and>
     (\<forall>f r. so_futures s f = Some r \<longrightarrow> f < length (so_asked s) \<and> r = sort (so_asked s ! f)) \<and>
     (\<forall>(f, c)\<in>set (so_chunks s). f < length (so_asked s) \<and> c = so_asked s ! f) \<and>
     (\<forall>fs\<in>set (so_threads s). stack_inv (so_asked s) fs) \<and>
     (\<forall>f<length (so_asked s). covered s f) \<and>
     so_threads s \<noteq> [] \<and>
     (so_threads s ! 0 = [] \<longrightarrow> so_futures s 0 \<noteq> None) \<and> (so_threads s ! 0 \<noteq> [] \<longrightarrow> last (so_threads s ! 0) = SChunk 0)"

lemma stack_inv_more: "stack_inv A fs \<Longrightarrow> stack_inv (A @ B) fs"
  by (fastforce simp: stack_inv_def good_more)

section \<open>The invariant is kept\<close>

lemma inv_put:
  assumes i: "sorter_inv xs s" and t: "t < length (so_threads s)" and st: "stack_inv (so_asked s) fs"
    and c: "\<And>f. SChunk f \<in> set (so_threads s ! t) \<Longrightarrow> SChunk f \<in> set fs \<or> so_futures s f \<noteq> None"
    and z: "t = 0 \<Longrightarrow> fs = [] \<Longrightarrow> so_futures s 0 \<noteq> None" "t = 0 \<Longrightarrow> fs \<noteq> [] \<Longrightarrow> last fs = SChunk 0"
  shows "sorter_inv xs (put_stack t fs s)"
proof -
  have cov: "covered (put_stack t fs s) f" if cf: "covered s f" for f
  proof -
    consider "so_futures s f \<noteq> None" | "f \<in> fst ` set (so_chunks s)"
      | j where "j < length (so_threads s)" "SChunk f \<in> set (so_threads s ! j)"
      using cf unfolding covered_def by (auto simp: in_set_conv_nth [of _ "so_threads s"])
    then show ?thesis
    proof cases
      case 3
      show ?thesis
      proof (cases "j = t")
        case True
        then have "SChunk f \<in> set fs \<or> so_futures s f \<noteq> None" using c 3 by simp
        then show ?thesis using t by (auto simp: covered_def put_stack_def set_update_memI)
      next
        case False
        then have "so_threads s ! j \<in> set ((so_threads s)[t := fs])" using 3(1)
          by (metis length_list_update nth_list_update_neq nth_mem)
        then show ?thesis using 3(2) by (auto simp: covered_def put_stack_def)
      qed
    qed (auto simp: covered_def put_stack_def)
  qed
  have th: "\<forall>gs\<in>set ((so_threads s)[t := fs]). stack_inv (so_asked s) gs"
    using i st set_update_subset_insert [of "so_threads s" t fs] unfolding sorter_inv_def by blast
  have nz: "(so_threads s)[t := fs] ! 0 = (if t = 0 then fs else so_threads s ! 0)" using t by (cases t) auto
  show ?thesis using i cov th z unfolding sorter_inv_def by (auto simp: put_stack_def nz)
qed

lemma inv_future:
  "sorter_inv xs s \<Longrightarrow> f < length (so_asked s) \<Longrightarrow> r = sort (so_asked s ! f) \<Longrightarrow>
     sorter_inv xs (s\<lparr>so_futures := (so_futures s)(f := Some r)\<rparr>)"
  by (auto simp: sorter_inv_def covered_def)

lemma inv_push:
  assumes i: "sorter_inv xs s"
  shows "sorter_inv xs (s\<lparr>so_chunks := (length (so_asked s), c) # so_chunks s, so_asked := so_asked s @ [c]\<rparr>)"
    (is "sorter_inv xs ?s")
proof -
  have "covered ?s f" if "f < length (so_asked ?s)" for f
    using i that by (cases "f = length (so_asked s)") (auto simp: sorter_inv_def covered_def)
  moreover have "\<forall>fs\<in>set (so_threads ?s). stack_inv (so_asked ?s) fs"
    using i by (simp add: sorter_inv_def stack_inv_more)
  moreover have "\<forall>f r. so_futures ?s f = Some r \<longrightarrow> f < length (so_asked ?s) \<and> r = sort (so_asked ?s ! f)"
    using i by (auto simp: sorter_inv_def nth_append intro: less_SucI)
  moreover have "\<forall>(f, c)\<in>set (so_chunks ?s). f < length (so_asked ?s) \<and> c = so_asked ?s ! f"
    using i by (auto simp: sorter_inv_def nth_append intro: less_SucI)
  moreover have "so_asked ?s \<noteq> [] \<and> so_asked ?s ! 0 = xs"
    using i by (simp add: sorter_inv_def nth_append)
  ultimately show ?thesis using i by (simp only: sorter_inv_def) simp
qed

lemma inv_spawn: "sorter_inv xs s \<Longrightarrow> sorter_inv xs (spawn_helper s)"
  by (force simp: sorter_inv_def covered_def spawn_helper_def nth_append stack_inv_def)

lemma inv_pop:
  assumes i: "sorter_inv xs s" and c: "so_chunks s = (f, c) # cs" "SChunk f \<in> set fs" "fs \<in> set (so_threads s)"
  shows "sorter_inv xs (s\<lparr>so_chunks := cs\<rparr>)"
proof -
  have "covered (s\<lparr>so_chunks := cs\<rparr>) g" if "covered s g" for g
    using that c by (cases "g = f") (auto simp: covered_def)
  then show ?thesis using i c(1) by (simp add: sorter_inv_def)
qed

lemma spawn_simps [simp]:
  "so_asked (spawn_helper s) = so_asked s" "so_futures (spawn_helper s) = so_futures s" "so_chunks (spawn_helper s) = so_chunks s"
  "so_end (spawn_helper s) = so_end s" "t < length (so_threads s) \<Longrightarrow> so_threads (spawn_helper s) ! t = so_threads s ! t"
  "t < length (so_threads s) \<Longrightarrow> t < length (so_threads (spawn_helper s))"
  by (simp_all add: spawn_helper_def nth_append)

lemma put_stack_simps [simp]:
  "so_asked (put_stack t fs s) = so_asked s" "so_futures (put_stack t fs s) = so_futures s"
  "so_chunks (put_stack t fs s) = so_chunks s" "so_end (put_stack t fs s) = so_end s"
  "so_threads (put_stack t fs s) = (so_threads s)[t := fs]"
  by (simp_all add: put_stack_def)

text \<open>Where the last call is the last call of the thread still, only the innermost part counts.\<close>

lemma inv_put_same:
  assumes "sorter_inv xs s" "t < length (so_threads s)" "so_threads s ! t = inner @ K" "stack_inv (so_asked s) (inner' @ K)"
    and "K \<noteq> []" "\<And>f. SChunk f \<in> set inner \<Longrightarrow> SChunk f \<in> set inner'"
  shows "sorter_inv xs (put_stack t (inner' @ K) s)"
proof (rule inv_put [OF assms(1,2,4)])
  show "SChunk f \<in> set (so_threads s ! t) \<Longrightarrow> SChunk f \<in> set (inner' @ K) \<or> so_futures s f \<noteq> None" for f
    using assms(3,6) by auto
  show "t = 0 \<Longrightarrow> inner' @ K \<noteq> [] \<Longrightarrow> last (inner' @ K) = SChunk 0"
    using assms(1,3,5) by (auto simp: sorter_inv_def)
qed (use assms(5) in simp)

lemma inv_stack: "sorter_inv xs s \<Longrightarrow> t < length (so_threads s) \<Longrightarrow> stack_inv (so_asked s) (so_threads s ! t)"
  by (simp add: sorter_inv_def)

lemma gives_not_empty: "gives A K r \<Longrightarrow> K \<noteq> []"
  by auto

lemma inv_do_sort:
  assumes i: "sorter_inv xs s" and t: "t < length (so_threads s)" and st: "do_sort_step t (so_threads s ! t) s = Some s'"
  shows "sorter_inv xs s'"
  using st
proof (cases "(t, so_threads s ! t, s)" rule: do_sort_step.cases)
  case (1 t' K s'')
  then have th: "so_threads s ! t = [SCall []] @ K" and s': "s' = put_stack t ([SReturn []] @ K) s" using st by auto
  have "stack_inv (so_asked s) ([SReturn []] @ K)" "K \<noteq> []"
    using inv_stack [OF i t] gives_not_empty unfolding th by (auto simp: stack_inv_def)
  then show ?thesis unfolding s' by (intro inv_put_same [OF i t th]) auto
next
  case (2 t' p ys K s'')
  then have th: "so_threads s ! t = [SCall (p # ys)] @ K" by auto
  obtain l r where d: "divide p ys = (l, r)" by fastforce
  let ?s = "spawn_helper (s\<lparr>so_chunks := (length (so_asked s), l) # so_chunks s, so_asked := so_asked s @ [l]\<rparr>)"
  have s': "s' = put_stack t ([SCall r, SHigher p (length (so_asked s))] @ K) ?s"
    using st 2 d by (auto simp: Let_def)
  have i1: "sorter_inv xs ?s" by (rule inv_spawn [OF inv_push [OF i]])
  have t1: "t < length (so_threads ?s)" "so_threads ?s ! t = [SCall (p # ys)] @ K"
    using t th by simp_all
  have g: "gives (so_asked s) K (sort (p # ys))" and nw: "newest_inside K" "\<And>g. g \<in> set (concat (map frame_future K)) \<Longrightarrow> g < length (so_asked s)"
    using inv_stack [OF i t] unfolding th by (auto simp: stack_inv_def)
  have "gives (so_asked s @ [l]) K (sort (p # ys))" using gives_more [OF g] .
  then have "gives (so_asked s @ [l]) K (sort l @ [p] @ sort r)" using join_sorted [OF d] by simp
  then have "stack_inv (so_asked ?s) ([SCall r, SHigher p (length (so_asked s))] @ K)"
    using nw by (auto simp: stack_inv_def less_SucI)
  then show ?thesis unfolding s' by (intro inv_put_same [OF i1 t1]) (use gives_not_empty [OF g] in auto)
next
  case (3 t' h p f K s'')
  then have th: "so_threads s ! t = [SReturn h, SHigher p f] @ K" and s': "s' = put_stack t ([SWait p f h] @ K) s" using st by auto
  have "stack_inv (so_asked s) ([SWait p f h] @ K)" "K \<noteq> []"
    using inv_stack [OF i t] gives_not_empty unfolding th by (auto simp: stack_inv_def)
  then show ?thesis unfolding s' by (intro inv_put_same [OF i t th]) auto
next
  case (4 t' p f h K s'')
  then obtain l where f: "so_futures s f = Some l" and th: "so_threads s ! t = [SWait p f h] @ K"
    and s': "s' = put_stack t ([SReturn (l @ [p] @ h)] @ K) s" using st by (auto split: option.splits)
  have "l = sort (so_asked s ! f)" using i f by (auto simp: sorter_inv_def)
  then have "stack_inv (so_asked s) ([SReturn (l @ [p] @ h)] @ K)" "K \<noteq> []"
    using inv_stack [OF i t] gives_not_empty unfolding th by (auto simp: stack_inv_def)
  then show ?thesis unfolding s' by (intro inv_put_same [OF i t th]) auto
next
  case (5 t' r f K s'')
  then have th: "so_threads s ! t = SReturn r # SChunk f # K"
    and s': "s' = put_stack t K (s\<lparr>so_futures := (so_futures s)(f := Some r)\<rparr>)" (is "_ = put_stack t K ?s")
    using st by (auto simp: put_stack_def)
  have g: "f < length (so_asked s)" "r = sort (so_asked s ! f)" "stack_inv (so_asked s) K"
    using inv_stack [OF i t] unfolding th by (auto simp: stack_inv_def)
  have z: "t = 0 \<Longrightarrow> last (so_threads s ! 0) = SChunk 0" using i th by (auto simp: sorter_inv_def)
  show ?thesis unfolding s'
  proof (rule inv_put)
    show "sorter_inv xs ?s" by (rule inv_future [OF i g(1,2)])
    show "t = 0 \<Longrightarrow> K = [] \<Longrightarrow> so_futures ?s 0 \<noteq> None" using z th by auto
    show "t = 0 \<Longrightarrow> K \<noteq> [] \<Longrightarrow> last K = SChunk 0" using z th by auto
  qed (use t g(3) th in auto)
qed auto

lemma inv_try:
  assumes i: "sorter_inv xs s" and t: "t < length (so_threads s)" and st: "try_sort_chunk t s = Some s'"
  shows "sorter_inv xs s'"
proof -
  obtain f c cs where c: "so_chunks s = (f, c) # cs" and m: "may_try t (so_threads s ! t)"
    and s': "s' = put_stack t (SCall c # SChunk f # so_threads s ! t) (s\<lparr>so_chunks := cs\<rparr>)"
    using st by (auto simp: try_sort_chunk_def split: list.splits if_splits)
  have f: "f < length (so_asked s)" "c = so_asked s ! f" using i c by (auto simp: sorter_inv_def)
  let ?fs = "SCall c # SChunk f # so_threads s ! t"
  have "stack_inv (so_asked s) ?fs" using inv_stack [OF i t] f by (auto simp: stack_inv_def)
  moreover have "t = 0 \<Longrightarrow> so_threads s ! t \<noteq> []" using m by (auto simp: may_try_def)
  ultimately have "sorter_inv xs (put_stack t ?fs s)"
    using i by (intro inv_put [OF i t]) (auto simp: sorter_inv_def)
  then have "sorter_inv xs ((put_stack t ?fs s)\<lparr>so_chunks := cs\<rparr>)"
    by (rule inv_pop [where fs = ?fs]) (use c t in \<open>auto simp: set_update_memI\<close>)
  moreover have "(put_stack t ?fs s)\<lparr>so_chunks := cs\<rparr> = s'" by (simp add: s' put_stack_def)
  ultimately show ?thesis by simp
qed

lemma inv_end: "sorter_inv xs (s\<lparr>so_end := b\<rparr>) = sorter_inv xs s"
  by (simp add: sorter_inv_def covered_def)

lemma sorter_inv_exec: "sorter_inv xs s \<Longrightarrow> sorter_exec e s = Some s' \<Longrightarrow> sorter_inv xs s'"
proof (cases e)
  case EndOfData
  assume "sorter_inv xs s" "sorter_exec e s = Some s'"
  then show ?thesis using EndOfData by (auto simp: sorter_destructor_def inv_end split: if_splits)
qed (use inv_do_sort inv_try in \<open>auto split: if_splits\<close>)

interpretation sorter: inv_machine sorter_exec "sorter_inv xs" for xs
  by unfold_locales (rule sorter_inv_exec)

section \<open>Somebody can go on\<close>

lemma waiting_top:
  assumes "stack_inv A fs" "fs \<noteq> []" "do_sort_step t fs s = None"
  obtains p f h K where "fs = SWait p f h # K" "so_futures s f = None"
  using assms by (cases "(t, fs, s)" rule: do_sort_step.cases) (auto simp: stack_inv_def Let_def split: option.splits prod.splits)

lemma chunk_inside:
  assumes "newest_inside (SWait p f h # K)" "SChunk g \<in> set (SWait p f h # K)"
  shows "g < f"
  using assms by (force simp: image_iff)

text \<open>
  Of the futures that threads wait for take the newest. Its chunk is not on the stack of chunks, or a
  waiting thread would take it; so a thread sorts it, and waits for a newer one.
\<close>

lemma stuck_means_done:
  assumes i: "sorter_inv xs s" and no: "\<And>e. sorter_exec e s = None"
  shows "\<forall>fs\<in>set (so_threads s). fs = []"
proof (rule ccontr)
  assume "\<not> (\<forall>fs\<in>set (so_threads s). fs = [])"
  then obtain t0 where t0: "t0 < length (so_threads s)" "so_threads s ! t0 \<noteq> []" by (metis in_set_conv_nth)
  have top: "\<exists>p f h K. so_threads s ! t = SWait p f h # K \<and> so_futures s f = None"
    if "t < length (so_threads s)" "so_threads s ! t \<noteq> []" for t
  proof -
    have "do_sort_step t (so_threads s ! t) s = None" using no [of "DoSort t"] that(1) by simp
    then show ?thesis using waiting_top [OF inv_stack [OF i that(1)] that(2)] by metis
  qed
  define W where "W = {f. \<exists>t<length (so_threads s). \<exists>p h K. so_threads s ! t = SWait p f h # K}"
  have lim: "f < length (so_asked s)" if "f \<in> W" for f
    using that inv_stack [OF i] by (force simp: W_def stack_inv_def)
  then have fin: "finite W" by (meson finite_nat_set_iff_bounded)
  have ne: "W \<noteq> {}" using top [OF t0] t0(1) unfolding W_def by blast
  define f where "f = Max W"
  have f: "f \<in> W" unfolding f_def by (rule Max_in [OF fin ne])
  then obtain t p h K where t: "t < length (so_threads s)" "so_threads s ! t = SWait p f h # K" by (auto simp: W_def)
  then have free: "so_futures s f = None" using top [of t] by auto
  have "so_chunks s = []"
    using no [of "TryChunk t"] t by (auto simp: try_sort_chunk_def may_try_def split: list.splits)
  then obtain j where j: "j < length (so_threads s)" "SChunk f \<in> set (so_threads s ! j)"
  proof -
    have "covered s f" using i lim [OF f] by (simp add: sorter_inv_def)
    then obtain fs where "fs \<in> set (so_threads s)" "SChunk f \<in> set fs" using free \<open>so_chunks s = []\<close> by (auto simp: covered_def)
    then show ?thesis using that by (auto simp: in_set_conv_nth [of fs])
  qed
  from j(2) have "so_threads s ! j \<noteq> []" by auto
  then obtain p' f' h' K' where j': "so_threads s ! j = SWait p' f' h' # K'" using top [OF j(1)] by blast
  have "newest_inside (SWait p' f' h' # K')" using inv_stack [OF i j(1)] unfolding j' stack_inv_def by argo
  then have "f < f'" using j(2) unfolding j' by (rule chunk_inside)
  moreover have "f' \<le> f" unfolding f_def by (rule Max_ge [OF fin]) (use j(1) j' in \<open>auto simp: W_def\<close>)
  ultimately show False by simp
qed

section \<open>The number of steps\<close>

fun frame_work :: "'a sort_frame \<Rightarrow> nat" where
  "frame_work (SCall xs) = 7 * length xs + 2"
| "frame_work (SHigher p f) = 2"
| "frame_work (SWait p f h) = 2"
| "frame_work (SReturn r) = 1"
| "frame_work (SChunk f) = 1"

definition stack_work :: "'a sort_frame list \<Rightarrow> nat" where
  "stack_work fs = sum_list (map frame_work fs)"

definition work :: "'a sorter \<Rightarrow> nat" where
  "work s = sum_list (map stack_work (so_threads s)) + sum_list (map (\<lambda>(f, c). 7 * length c + 4) (so_chunks s)) +
     (if so_end s then 0 else 1)"

lemma stack_work_simps [simp]: "stack_work [] = 0" "stack_work (x # fs) = frame_work x + stack_work fs"
  by (simp_all add: stack_work_def)

lemma work_put:
  "t < length (so_threads s) \<Longrightarrow> work (put_stack t fs s) + stack_work (so_threads s ! t) = work s + stack_work fs"
  using elem_le_sum_list [of t "map stack_work (so_threads s)"] by (simp add: work_def map_update sum_list_update)

lemma work_less: "t < length (so_threads s) \<Longrightarrow> stack_work fs < stack_work (so_threads s ! t) \<Longrightarrow> work (put_stack t fs s) < work s"
  using work_put [of t s fs] by linarith

lemma work_other [simp]:
  "work (s\<lparr>so_futures := F\<rparr>) = work s" "work (s\<lparr>so_asked := A\<rparr>) = work s" "work (spawn_helper s) = work s"
  "work (s\<lparr>so_chunks := (f, c) # so_chunks s\<rparr>) = work s + 7 * length c + 4"
  by (simp_all add: work_def spawn_helper_def)

lemma divide_length: "divide p ys = (l, r) \<Longrightarrow> length l + length r = length ys"
  using sum_length_filter_compl [of "\<lambda>t. t < p" ys] by (auto simp: divide_def)

lemma work_do_sort:
  assumes t: "t < length (so_threads s)" and st: "do_sort_step t (so_threads s ! t) s = Some s'"
  shows "work s' < work s"
  using st
proof (cases "(t, so_threads s ! t, s)" rule: do_sort_step.cases)
  case (2 t' p ys K s'')
  obtain l r where d: "divide p ys = (l, r)" by fastforce
  let ?s = "spawn_helper (s\<lparr>so_chunks := (length (so_asked s), l) # so_chunks s, so_asked := so_asked s @ [l]\<rparr>)"
  have s': "s' = put_stack t (SCall r # SHigher p (length (so_asked s)) # K) ?s"
    using st 2 d by (auto simp: Let_def)
  have "work ?s = work s + 7 * length l + 4" by (simp add: work_def spawn_helper_def)
  moreover have "so_threads s ! t = SCall (p # ys) # K" using 2 by auto
  moreover have "work s' + stack_work (so_threads s ! t) = work ?s + stack_work (SCall r # SHigher p (length (so_asked s)) # K)"
    unfolding s' using work_put [of t ?s] t by simp
  ultimately show ?thesis using divide_length [OF d] by simp
next
  case (5 t' r f K s'')
  then have "s' = (put_stack t K s)\<lparr>so_futures := (so_futures s)(f := Some r)\<rparr>" using st by auto
  moreover have "so_threads s ! t = SReturn r # SChunk f # K" using 5 by auto
  ultimately show ?thesis using work_put [OF t, of K] by simp
qed (use work_less [OF t] in \<open>auto split: option.splits\<close>)

lemma work_exec: "sorter_exec e s = Some s' \<Longrightarrow> work s' < work s"
proof (cases e)
  case (TryChunk t)
  assume "sorter_exec e s = Some s'"
  with TryChunk have t: "t < length (so_threads s)" and st: "try_sort_chunk t s = Some s'" by (auto split: if_splits)
  obtain f c cs where c: "so_chunks s = (f, c) # cs"
    and s': "s' = put_stack t (SCall c # SChunk f # so_threads s ! t) (s\<lparr>so_chunks := cs\<rparr>)"
    using st by (auto simp: try_sort_chunk_def split: list.splits if_splits)
  have "work (s\<lparr>so_chunks := cs\<rparr>) + (7 * length c + 4) = work s" using c by (simp add: work_def)
  then show ?thesis unfolding s'
    using work_put [of t "s\<lparr>so_chunks := cs\<rparr>" "SCall c # SChunk f # so_threads s ! t"] t by simp
next
  case EndOfData
  assume "sorter_exec e s = Some s'"
  with EndOfData show ?thesis by (auto simp: sorter_destructor_def work_def split: if_splits)
qed (use work_do_sort in \<open>auto split: if_splits\<close>)

lemma work_run: "run sorter_exec es s = Some s' \<Longrightarrow> length es + work s' \<le> work s"
proof (induction es arbitrary: s)
  case (Cons e es)
  then obtain u where "sorter_exec e s = Some u" "run sorter_exec es u = Some s'" by (auto split: option.splits)
  with Cons.IH [of u] work_exec show ?case by fastforce
qed simp



end
