(* ===== verification/AdvServer.thy ===== *)
theory AdvServer
  imports Prelude "HOL-Library.Sublist"
begin

text \<open>
  The server \<open>src/testBoost.cpp\<close>: the response to a request for a file, the session that reads
  requests and writes responses, and the session of a web socket. The file system is a parameter.
\<close>

section \<open>Responses\<close>

datatype file_verb = FGet | FHead | FOther string

record file_request =
  fq_version :: nat
  fq_method :: file_verb
  fq_target :: string
  fq_keep_alive :: bool

datatype file_status = FOk | FBadRequest | FNotFound | FServerError

record file_response =
  fr_version :: nat
  fr_result :: file_status
  fr_content_type :: string
  fr_keep_alive :: bool
  fr_length :: nat
  fr_body :: string

text \<open>What opening a file gives.\<close>

datatype file_result = NoSuchFile | OpenError string | Opened string

text \<open>\<open>iequals\<close> compares without regard to the case of ASCII letters.\<close>

definition to_lower :: "char \<Rightarrow> char" where
  "to_lower c = (if 65 \<le> (of_char c :: nat) \<and> (of_char c :: nat) \<le> 90 then char_of ((of_char c :: nat) + 32) else c)"

definition iequals :: "string \<Rightarrow> string \<Rightarrow> bool" where
  "iequals a b \<longleftrightarrow> map to_lower a = map to_lower b"

text \<open>The part of the path from its last dot on.\<close>

definition extension :: "string \<Rightarrow> string" where
  "extension path = (if CHR 0x2E \<in> set path then CHR 0x2E # rev (takeWhile (\<lambda>c. c \<noteq> CHR 0x2E) (rev path)) else [])"

definition mime_type :: "string \<Rightarrow> string" where
  "mime_type path =
     (let ext = extension path in
      if iequals ext ''.htm'' then ''text/html''
      else if iequals ext ''.html'' then ''text/html''
      else if iequals ext ''.php'' then ''text/html''
      else if iequals ext ''.css'' then ''text/css''
      else if iequals ext ''.txt'' then ''text/plain''
      else if iequals ext ''.js'' then ''application/javascript''
      else if iequals ext ''.json'' then ''application/json''
      else if iequals ext ''.xml'' then ''application/xml''
      else if iequals ext ''.swf'' then ''application/x-shockwave-flash''
      else if iequals ext ''.flv'' then ''video/x-flv''
      else if iequals ext ''.png'' then ''image/png''
      else if iequals ext ''.jpe'' then ''image/jpeg''
      else if iequals ext ''.jpeg'' then ''image/jpeg''
      else if iequals ext ''.jpg'' then ''image/jpeg''
      else if iequals ext ''.gif'' then ''image/gif''
      else if iequals ext ''.bmp'' then ''image/bmp''
      else if iequals ext ''.ico'' then ''image/vnd.microsoft.icon''
      else if iequals ext ''.tiff'' then ''image/tiff''
      else if iequals ext ''.tif'' then ''image/tiff''
      else if iequals ext ''.svg'' then ''image/svg+xml''
      else if iequals ext ''.svgz'' then ''image/svg+xml''
      else ''application/text'')"

text \<open>The path on systems where it is separated by \<open>/\<close>.\<close>

definition path_cat :: "string \<Rightarrow> string \<Rightarrow> string" where
  "path_cat base path =
     (if base = [] then path
      else (if last base = CHR 0x2F then butlast base else base) @ path)"

definition error_response :: "file_status \<Rightarrow> string \<Rightarrow> file_request \<Rightarrow> file_response" where
  "error_response st body req =
     \<lparr>fr_version = fq_version req, fr_result = st, fr_content_type = ''text/html'', fr_keep_alive = fq_keep_alive req,
      fr_length = length body, fr_body = body\<rparr>"

definition bad_request :: "string \<Rightarrow> file_request \<Rightarrow> file_response" where
  "bad_request why req = error_response FBadRequest why req"

definition not_found :: "string \<Rightarrow> file_request \<Rightarrow> file_response" where
  "not_found target req =
     error_response FNotFound (''The resource '' @ [CHR 0x27] @ target @ [CHR 0x27] @ '' was not found.'') req"

definition server_error :: "string \<Rightarrow> file_request \<Rightarrow> file_response" where
  "server_error what req = error_response FServerError (''An error occurred: '' @ [CHR 0x27] @ what @ [CHR 0x27]) req"

definition requested_path :: "string \<Rightarrow> string \<Rightarrow> string" where
  "requested_path doc_root target =
     path_cat doc_root target @ (if last target = CHR 0x2F then ''index.html'' else [])"

definition handle_request :: "(string \<Rightarrow> file_result) \<Rightarrow> string \<Rightarrow> file_request \<Rightarrow> file_response" where
  "handle_request open_file doc_root req =
     (if fq_method req \<noteq> FGet \<and> fq_method req \<noteq> FHead then bad_request ''Unknown HTTP-method'' req
      else if fq_target req = [] \<or> hd (fq_target req) \<noteq> CHR 0x2F \<or> sublist ''..'' (fq_target req)
      then bad_request ''Illegal request-target'' req
      else let path = requested_path doc_root (fq_target req) in
        case open_file path of
          NoSuchFile \<Rightarrow> not_found (fq_target req) req
        | OpenError msg \<Rightarrow> server_error msg req
        | Opened body \<Rightarrow>
            \<lparr>fr_version = fq_version req, fr_result = FOk, fr_content_type = mime_type path,
             fr_keep_alive = fq_keep_alive req, fr_length = length body,
             fr_body = (if fq_method req = FHead then [] else body)\<rparr>)"

text \<open>
  The components of a path; one that goes up is \<open>..\<close>.
\<close>

fun components :: "string \<Rightarrow> string list" where
  "components [] = [[]]"
| "components (c # cs) =
     (if c = CHR 0x2F then [] # components cs
      else case components cs of x # xs \<Rightarrow> (c # x) # xs | [] \<Rightarrow> [[c]])"

lemma components_sublist: "x \<in> set (components p) \<Longrightarrow> sublist x p"
  and components_head: "components p = x # xs \<Longrightarrow> prefix x p"
proof (induction p arbitrary: x xs)
  case (Cons c cs)
  {
    case 1
    show ?case
    proof (cases "c = CHR 0x2F")
      case True
      then show ?thesis using 1 Cons.IH(1) by (auto simp: sublist_Cons_right)
    next
      case False
      then show ?thesis using 1 Cons.IH by (auto simp: sublist_Cons_right split: list.splits)
    qed
  next
    case 2
    then show ?case using Cons.IH(2) by (auto split: if_splits list.splits)
  }
qed auto

lemma no_way_up:
  assumes "\<not> sublist ''..'' t"
  shows "''..'' \<notin> set (components t)"
  using assms components_sublist by blast

lemma requested_path_below:
  assumes "t \<noteq> []" "hd t = CHR 0x2F" "\<not> sublist ''..'' t"
  shows "\<exists>u. requested_path root t = path_cat root u \<and> u \<noteq> [] \<and> hd u = CHR 0x2F \<and> ''..'' \<notin> set (components u)"
proof (cases "last t = CHR 0x2F")
  case True
  have "\<not> suffix ''.'' t" using True assms(1) by (auto simp: suffix_def)
  then have "\<not> sublist ''..'' (t @ ''index.html'')"
    using assms(3) by (auto simp: sublist_append sublist_Cons_right Cons_eq_append_conv suffix_def)
  moreover have "requested_path root t = path_cat root (t @ ''index.html'')"
    using True by (simp add: requested_path_def path_cat_def)
  ultimately show ?thesis using assms(1,2) no_way_up by (intro exI [of _ "t @ ''index.html''"]) simp
next
  case False
  then have "requested_path root t = path_cat root t" by (simp add: requested_path_def)
  then show ?thesis using assms no_way_up by blast
qed

text \<open>
  C32. What is answered depends only on the files at paths that are the root followed by an absolute
  path without a component \<open>..\<close>: no request reveals anything of a file elsewhere.
\<close>

theorem files_below_root:
  assumes "\<forall>t. t \<noteq> [] \<longrightarrow> hd t = CHR 0x2F \<longrightarrow> ''..'' \<notin> set (components t) \<longrightarrow> fs (path_cat root t) = fs' (path_cat root t)"
  shows "handle_request fs root req = handle_request fs' root req"
proof (cases "fq_target req = [] \<or> hd (fq_target req) \<noteq> CHR 0x2F \<or> sublist ''..'' (fq_target req)")
  case True
  then show ?thesis by (simp add: handle_request_def)
next
  case False
  then have "fs (requested_path root (fq_target req)) = fs' (requested_path root (fq_target req))"
    using requested_path_below [of "fq_target req" root] assms by metis
  then show ?thesis by (simp add: handle_request_def Let_def)
qed

definition get_file :: "string \<Rightarrow> file_request" where
  "get_file x = \<lparr>fq_version = 11, fq_method = FGet, fq_target = x, fq_keep_alive = True\<rparr>"

lemma files_below_root_witness:
  "handle_request (\<lambda>p. if p = ''/etc/passwd'' then Opened ''root'' else NoSuchFile) ''/srv/'' (get_file ''/etc/passwd'') =
   handle_request (\<lambda>p. NoSuchFile) ''/srv/'' (get_file ''/etc/passwd'')"
  by (rule files_below_root) (simp add: path_cat_def)

text \<open>A \<open>HEAD\<close> is answered as the \<open>GET\<close> would be, without the body when there is a file.\<close>

lemma head_as_get:
  fixes fs root req
  defines "g \<equiv> handle_request fs root (req\<lparr>fq_method := FGet\<rparr>)"
  shows "handle_request fs root (req\<lparr>fq_method := FHead\<rparr>) = (if fr_result g = FOk then g\<lparr>fr_body := []\<rparr> else g)"
  by (auto simp: g_def handle_request_def Let_def bad_request_def not_found_def server_error_def error_response_def
      split: file_result.split)

section \<open>The HTTP session\<close>

text \<open>
  The members, the operations outstanding on the stream, and what has been sent. \<open>do_write\<close> takes the
  response out of the queue before it is written, so the queue does not show a write under way.
\<close>

record http_session =
  response_queue :: "file_response list"
  ss_reading :: bool
  ss_writing :: "file_response list"   \<comment> \<open>outstanding writes, in the order in which they were started\<close>
  ss_sent :: "file_response list"
  ss_shutdown :: bool
  ss_upgraded :: bool
  ss_log :: "file_request list"        \<comment> \<open>requests that were read\<close>

definition queue_limit :: nat where
  "queue_limit = 8"

definition ss_do_read :: "http_session \<Rightarrow> http_session" where
  "ss_do_read s = s\<lparr>ss_reading := True\<rparr>"

definition http_session :: http_session where
  "http_session = ss_do_read \<lparr>response_queue = [], ss_reading = False, ss_writing = [], ss_sent = [], ss_shutdown = False,
     ss_upgraded = False, ss_log = []\<rparr>"

definition ss_do_write :: "http_session \<Rightarrow> bool \<times> http_session" where
  "ss_do_write s =
     (let was_full = (length (response_queue s) = queue_limit) in
      case response_queue s of
        [] \<Rightarrow> (was_full, s)
      | msg # q \<Rightarrow> (was_full, s\<lparr>response_queue := q, ss_writing := ss_writing s @ [msg]\<rparr>))"

definition queue_write :: "file_response \<Rightarrow> http_session \<Rightarrow> http_session" where
  "queue_write r s =
     (let s1 = s\<lparr>response_queue := response_queue s @ [r]\<rparr> in
      if length (response_queue s1) = 1 then snd (ss_do_write s1) else s1)"

definition do_close :: "http_session \<Rightarrow> http_session" where
  "do_close s = s\<lparr>ss_shutdown := True\<rparr>"

datatype read_result = EndOfStream | ReadFailed | Request bool file_request

definition ss_on_read :: "(string \<Rightarrow> file_result) \<Rightarrow> string \<Rightarrow> read_result \<Rightarrow> http_session \<Rightarrow> http_session" where
  "ss_on_read fs root x s0 =
     (let s = s0\<lparr>ss_reading := False\<rparr> in
      case x of
        EndOfStream \<Rightarrow> do_close s
      | ReadFailed \<Rightarrow> s
      | Request upgrade req \<Rightarrow>
          if upgrade then s\<lparr>ss_upgraded := True\<rparr>
          else let s1 = queue_write (handle_request fs root req) (s\<lparr>ss_log := ss_log s @ [req]\<rparr>) in
            if length (response_queue s1) < queue_limit then ss_do_read s1 else s1)"

definition ss_on_write :: "bool \<Rightarrow> bool \<Rightarrow> http_session \<Rightarrow> http_session" where
  "ss_on_write keep_alive ok s =
     (if \<not> ok then s
      else if \<not> keep_alive then do_close s
      else let (again, s1) = ss_do_write s in if again then ss_do_read s1 else s1)"

text \<open>The events: a read completes, the write at a position of the outstanding ones completes.\<close>

datatype session_event = SessionRead read_result | SessionWritten nat bool

fun session_exec :: "(string \<Rightarrow> file_result) \<Rightarrow> string \<Rightarrow> session_event \<Rightarrow> http_session \<Rightarrow> http_session option" where
  "session_exec fs root (SessionRead x) s =
     (if ss_reading s \<and> \<not> ss_upgraded s then Some (ss_on_read fs root x s) else None)"
| "session_exec fs root (SessionWritten i ok) s =
     (if i < length (ss_writing s) then
        let msg = ss_writing s ! i;
            s1 = s\<lparr>ss_writing := take i (ss_writing s) @ drop (Suc i) (ss_writing s),
                   ss_sent := (if ok then ss_sent s @ [msg] else ss_sent s)\<rparr> in
        Some (ss_on_write (fr_keep_alive msg) ok s1)
      else None)"

lemmas session_defs = ss_do_write_def queue_write_def do_close_def ss_on_read_def ss_on_write_def ss_do_read_def Let_def

section \<open>Writes that overlap\<close>

text \<open>
  The queue is empty between events, so it never limits anything; every request that is read starts a
  write at once.
\<close>

definition session_inv :: "http_session \<Rightarrow> bool" where
  "session_inv s \<longleftrightarrow> response_queue s = []"

lemma session_inv_exec: "session_inv s \<Longrightarrow> session_exec fs root e s = Some t \<Longrightarrow> session_inv t"
  by (cases e) (auto simp: session_inv_def session_defs queue_limit_def split: if_splits read_result.splits)

interpretation session: inv_machine "session_exec fs root" session_inv for fs root
  by unfold_locales (rule session_inv_exec)

lemma read_starts_write:
  assumes "response_queue s = []" "ss_reading s" "\<not> ss_upgraded s"
  shows "ss_on_read fs root (Request False req) s =
    (s\<lparr>ss_writing := ss_writing s @ [handle_request fs root req], ss_log := ss_log s @ [req]\<rparr>)"
  using assms by (simp add: session_defs queue_limit_def)

text \<open>
  C33. A client that sends \<open>n\<close> requests without waiting makes the session start \<open>n\<close> writes on the stream
  at the same time, for any \<open>n\<close>: neither the queue nor its limit of 8 ever takes effect.
\<close>

theorem pipelined_writes_overlap:
  "\<exists>s. run (session_exec fs root) (map (\<lambda>q. SessionRead (Request False q)) reqs) http_session = Some s \<and>
     ss_writing s = map (handle_request fs root) reqs \<and> response_queue s = [] \<and> ss_reading s"
proof -
  have "\<exists>t. run (session_exec fs root) (map (\<lambda>q. SessionRead (Request False q)) reqs) s = Some t \<and>
      ss_writing t = ss_writing s @ map (handle_request fs root) reqs \<and> response_queue t = [] \<and> ss_reading t"
    if "response_queue s = []" "ss_reading s" "\<not> ss_upgraded s" for s
    using that
  proof (induction reqs arbitrary: s)
    case (Cons a reqs)
    show ?case
      using Cons.prems Cons.IH [of "s\<lparr>ss_writing := ss_writing s @ [handle_request fs root a], ss_log := ss_log s @ [a]\<rparr>"]
      by (simp add: read_starts_write)
  qed simp
  from this [of http_session] show ?thesis by (simp add: http_session_def ss_do_read_def)
qed

text \<open>
  A client that waits for each response before it sends the next request gets them in order. Its
  machine reads only when no write is outstanding.
\<close>

fun polite_exec :: "(string \<Rightarrow> file_result) \<Rightarrow> string \<Rightarrow> session_event \<Rightarrow> http_session \<Rightarrow> http_session option" where
  "polite_exec fs root (SessionRead x) s = (if ss_writing s = [] then session_exec fs root (SessionRead x) s else None)"
| "polite_exec fs root (SessionWritten i ok) s = (if ok then session_exec fs root (SessionWritten i ok) s else None)"

definition polite_inv :: "(string \<Rightarrow> file_result) \<Rightarrow> string \<Rightarrow> http_session \<Rightarrow> bool" where
  "polite_inv fs root s \<longleftrightarrow> response_queue s = [] \<and> length (ss_writing s) \<le> 1 \<and>
     ss_sent s @ ss_writing s = map (handle_request fs root) (ss_log s)"

lemma polite_inv_exec: "polite_inv fs root s \<Longrightarrow> polite_exec fs root e s = Some t \<Longrightarrow> polite_inv fs root t"
proof (cases e)
  case (SessionRead x)
  assume "polite_inv fs root s" "polite_exec fs root e s = Some t"
  then show ?thesis using SessionRead
    by (auto simp: polite_inv_def session_defs queue_limit_def split: if_splits read_result.splits)
next
  case (SessionWritten i ok)
  assume i: "polite_inv fs root s" and e: "polite_exec fs root e s = Some t"
  then have l: "i < length (ss_writing s)" "ok" using SessionWritten by (auto split: if_splits)
  then obtain m where "ss_writing s = [m]" "i = 0"
    using i by (cases "ss_writing s") (auto simp: polite_inv_def)
  then show ?thesis using i e SessionWritten l(2)
    by (auto simp: polite_inv_def session_defs queue_limit_def split: if_splits)
qed

interpretation polite: inv_machine "polite_exec fs root" "polite_inv fs root" for fs root
  by unfold_locales (rule polite_inv_exec)

text \<open>
  With a client that does not send ahead, at most one write is outstanding and the responses sent
  are those to the requests read, in order, the last one possibly still under way.
\<close>

theorem polite_responses_in_order:
  assumes "run (polite_exec fs root) es http_session = Some s"
  shows "length (ss_writing s) \<le> 1 \<and> ss_sent s @ ss_writing s = map (handle_request fs root) (ss_log s)"
proof -
  have "polite_inv fs root http_session" by (simp add: polite_inv_def http_session_def ss_do_read_def)
  from polite.run_inv [OF this assms] show ?thesis by (simp add: polite_inv_def)
qed

lemma polite_responses_in_order_witness:
  "\<exists>s. run (polite_exec (\<lambda>p. NoSuchFile) ''.'') [SessionRead (Request False (get_file ''/a'')), SessionWritten 0 True,
      SessionRead (Request False (get_file ''/b''))] http_session = Some s \<and>
    ss_sent s @ ss_writing s = map (handle_request (\<lambda>p. NoSuchFile) ''.'') [get_file ''/a'', get_file ''/b'']"
proof -
  obtain s where s: "run (polite_exec (\<lambda>p. NoSuchFile) ''.'') [SessionRead (Request False (get_file ''/a'')), SessionWritten 0 True,
      SessionRead (Request False (get_file ''/b''))] http_session = Some s" "ss_log s = [get_file ''/a'', get_file ''/b'']"
    by (simp add: http_session_def session_defs queue_limit_def handle_request_def get_file_def requested_path_def not_found_def
        error_response_def sublist_Cons_right)
  from polite_responses_in_order [OF s(1)] s show ?thesis by metis
qed

section \<open>The session of a web socket\<close>

text \<open>
  It reads a message, echoes it and reads the next. An error other than that the peer has closed is
  reported, and the function goes on: what the read has left in the buffer is written.
\<close>

record ws_session =
  wss_accepting :: bool
  wss_reading :: bool
  wss_writing :: "string option"
  wss_sent :: "string list"
  wss_read :: "string list"

definition ws_do_accept :: ws_session where
  "ws_do_accept = \<lparr>wss_accepting = True, wss_reading = False, wss_writing = None, wss_sent = [], wss_read = []\<rparr>"

datatype ws_result = WsClosed | WsFailed string | WsMessage string

definition ws_on_read :: "ws_result \<Rightarrow> ws_session \<Rightarrow> ws_session" where
  "ws_on_read x s0 =
     (let s = s0\<lparr>wss_reading := False\<rparr> in
      case x of
        WsClosed \<Rightarrow> s
      | WsFailed rest \<Rightarrow> s\<lparr>wss_writing := Some rest\<rparr>
      | WsMessage m \<Rightarrow> s\<lparr>wss_writing := Some m, wss_read := wss_read s @ [m]\<rparr>)"

datatype ws_event = WsAccepted bool | WsReadDone ws_result | WsWriteDone bool

fun wss_exec :: "ws_event \<Rightarrow> ws_session \<Rightarrow> ws_session option" where
  "wss_exec (WsAccepted ok) s =
     (if wss_accepting s then Some (s\<lparr>wss_accepting := False, wss_reading := ok\<rparr>) else None)"
| "wss_exec (WsReadDone x) s = (if wss_reading s then Some (ws_on_read x s) else None)"
| "wss_exec (WsWriteDone ok) s =
     (case wss_writing s of None \<Rightarrow> None
      | Some m \<Rightarrow> Some (if ok then s\<lparr>wss_writing := None, wss_sent := wss_sent s @ [m], wss_reading := True\<rparr>
                        else s\<lparr>wss_writing := None\<rparr>))"

definition outstanding :: "ws_session \<Rightarrow> nat" where
  "outstanding s = (if wss_accepting s then 1 else 0) + (if wss_reading s then 1 else 0) + (if wss_writing s = None then 0 else 1)"

definition wss_inv :: "ws_session \<Rightarrow> bool" where
  "wss_inv s \<longleftrightarrow> outstanding s \<le> 1"

lemma wss_inv_exec: "wss_inv s \<Longrightarrow> wss_exec e s = Some t \<Longrightarrow> wss_inv t"
  by (cases e) (auto simp: wss_inv_def outstanding_def ws_on_read_def Let_def split: if_splits option.splits ws_result.splits)

interpretation wss: inv_machine wss_exec wss_inv
  by unfold_locales (rule wss_inv_exec)

text \<open>At most one operation is outstanding, so the buffer is never read into while it is written.\<close>

lemma ws_one_operation:
  assumes "run wss_exec es ws_do_accept = Some s"
  shows "outstanding s \<le> 1"
proof -
  have "wss_inv ws_do_accept" by (simp add: wss_inv_def ws_do_accept_def outstanding_def)
  from wss.run_inv [OF this assms] show ?thesis by (simp add: wss_inv_def)
qed

lemma ws_error_is_echoed:
  "\<exists>s. run wss_exec [WsAccepted True, WsReadDone (WsFailed x)] ws_do_accept = Some s \<and> wss_writing s = Some x"
  by (simp add: ws_do_accept_def ws_on_read_def)

end
