(* ===== verification/Endpoint.thy ===== *)
theory Endpoint
  imports Prelude
begin

text \<open>
  Blocking sockets: the clients of \<open>src/Network/endpoint/src/endpoint.cpp\<close>, which send and receive in
  one call or in a loop, and \<open>session\<close> of \<open>src/Network/syncServer/main.cpp\<close> with the client of
  \<open>src/Network/syncClient/main.cpp\<close>.
\<close>

section \<open>A blocking socket\<close>

text \<open>
  What the network does is a plan: how many bytes each \<open>write_some\<close> takes, at least one, and in which
  pieces bytes arrive for \<open>read_some\<close>; either may fail with an error code. Where the plan ends the call
  blocks for ever, which is the result \<open>None\<close>; a thrown \<open>system_error\<close> is \<open>Inl\<close> of its code.
\<close>

datatype write_plan = Takes nat | WriteFails nat
datatype arrival = Arrives char string | ReadFails nat

record bsocket =
  sk_writes :: "write_plan list"
  sk_arrivals :: "arrival list"
  sk_delivered :: string

definition write_some :: "string \<Rightarrow> bsocket \<Rightarrow> ((nat + nat) \<times> bsocket) option" where
  "write_some buf s =
     (case sk_writes s of
        [] \<Rightarrow> None
      | WriteFails e # ps \<Rightarrow> Some (Inl e, s\<lparr>sk_writes := ps\<rparr>)
      | Takes k # ps \<Rightarrow>
          let n = min (max 1 k) (length buf) in
          Some (Inr n, s\<lparr>sk_writes := ps, sk_delivered := sk_delivered s @ take n buf\<rparr>))"

definition read_some :: "nat \<Rightarrow> bsocket \<Rightarrow> ((nat + string) \<times> bsocket) option" where
  "read_some n s =
     (case sk_arrivals s of
        [] \<Rightarrow> None
      | ReadFails e # as \<Rightarrow> Some (Inl e, s\<lparr>sk_arrivals := as\<rparr>)
      | Arrives b bs # as \<Rightarrow>
          Some (Inr (take n (b # bs)),
            s\<lparr>sk_arrivals := (case drop n (b # bs) of [] \<Rightarrow> as | c # cs \<Rightarrow> Arrives c cs # as)\<rparr>))"

section \<open>Sending\<close>

text \<open>The loop of \<open>write_to_socket\<close>, and what \<open>boost::asio::write\<close> is documented to do.\<close>

partial_function (option) write_loop :: "string \<Rightarrow> nat \<Rightarrow> bsocket \<Rightarrow> ((nat + nat) \<times> bsocket) option" where
  "write_loop buf total_bytes_written s =
     (if total_bytes_written < length buf
      then (case write_some (drop total_bytes_written buf) s of
              None \<Rightarrow> None
            | Some (Inl e, t) \<Rightarrow> Some (Inl e, t)
            | Some (Inr k, t) \<Rightarrow> write_loop buf (total_bytes_written + k) t)
      else Some (Inr total_bytes_written, s))"

definition hello :: string where
  "hello = ''hello world''"

definition write_to_socket :: "bsocket \<Rightarrow> ((nat + nat) \<times> bsocket) option" where
  "write_to_socket s = write_loop hello 0 s"

text \<open>
  A client function connects and calls its body; a thrown error is caught and its code returned, and
  otherwise the result is 0. \<open>conn\<close> is the error of the connection, if there is one.
\<close>

definition client :: "nat option \<Rightarrow> (bsocket \<Rightarrow> ((nat + nat) \<times> bsocket) option) \<Rightarrow> bsocket \<Rightarrow> (nat \<times> bsocket) option" where
  "client conn body s =
     (case conn of Some e \<Rightarrow> Some (e, s)
      | None \<Rightarrow> (case body s of None \<Rightarrow> None
          | Some (Inl e, t) \<Rightarrow> Some (e, t)
          | Some (Inr k, t) \<Rightarrow> Some (0, t)))"

definition send_data_by_write_some :: "nat option \<Rightarrow> bsocket \<Rightarrow> (nat \<times> bsocket) option" where
  "send_data_by_write_some conn s = client conn write_to_socket s"

text \<open>\<open>send\<close> is one call, as \<open>write_some\<close>; its length is compared with 0 only.\<close>

definition send_data_by_send :: "nat option \<Rightarrow> bsocket \<Rightarrow> (nat \<times> bsocket) option" where
  "send_data_by_send conn s = client conn (write_some hello) s"

definition send_data_by_write :: "nat option \<Rightarrow> bsocket \<Rightarrow> (nat \<times> bsocket) option" where
  "send_data_by_write conn s = client conn (write_loop hello 0) s"

lemma write_loop_sends:
  assumes "write_loop buf n s = Some (r, t)" "n \<le> length buf"
  shows "\<exists>m. n \<le> m \<and> m \<le> length buf \<and> sk_delivered t = sk_delivered s @ take (m - n) (drop n buf) \<and>
    (\<forall>k. r = Inr k \<longrightarrow> k = length buf \<and> m = length buf) \<and> (\<forall>e. r = Inl e \<longrightarrow> WriteFails e \<in> set (sk_writes s))"
  using assms
proof (induction "length (sk_writes s)" arbitrary: n s)
  case 0
  then show ?case by (subst (asm) write_loop.simps) (auto simp: write_some_def split: if_splits)
next
  case (Suc w)
  show ?case
  proof (cases "n < length buf")
    case False
    then show ?thesis using Suc.prems by (subst (asm) write_loop.simps) auto
  next
    case True
    obtain p ps where p: "sk_writes s = p # ps" using Suc.hyps(2) by (cases "sk_writes s") auto
    show ?thesis
    proof (cases p)
      case (WriteFails e)
      then show ?thesis using Suc.prems True p by (subst (asm) write_loop.simps) (auto simp: write_some_def)
    next
      case (Takes k)
      let ?k = "min (max 1 k) (length (drop n buf))"
      let ?u = "s\<lparr>sk_writes := ps, sk_delivered := sk_delivered s @ take ?k (drop n buf)\<rparr>"
      have st: "write_loop buf (n + ?k) ?u = Some (r, t)"
        using Suc.prems(1) True p Takes by (subst (asm) write_loop.simps) (simp add: write_some_def Let_def)
      have "n + ?k \<le> length buf" using True by simp
      from Suc.hyps(1) [OF _ st this] obtain m where m: "n + ?k \<le> m" "m \<le> length buf"
        "sk_delivered t = sk_delivered ?u @ take (m - (n + ?k)) (drop (n + ?k) buf)"
        "\<forall>k. r = Inr k \<longrightarrow> k = length buf \<and> m = length buf" "\<forall>e. r = Inl e \<longrightarrow> WriteFails e \<in> set ps"
        using Suc.hyps(2) p by auto
      have "take (m - n) (drop n buf) = take ?k (drop n buf) @ take (m - (n + ?k)) (drop (n + ?k) buf)"
        using m(1) take_add [of ?k "m - (n + ?k)" "drop n buf"] by (simp add: add.commute)
      then show ?thesis using m p by (intro exI [of _ m]) auto
    qed
  qed
qed

lemma write_loop_returns:
  assumes "length buf - n \<le> length (sk_writes s)"
  shows "write_loop buf n s \<noteq> None"
  using assms
proof (induction "length buf - n" arbitrary: n s rule: less_induct)
  case less
  show ?case
  proof (cases "n < length buf")
    case False
    then show ?thesis by (subst write_loop.simps) simp
  next
    case True
    then obtain p ps where p: "sk_writes s = p # ps" using less.prems by (cases "sk_writes s") auto
    show ?thesis
    proof (cases p)
      case (WriteFails e)
      then show ?thesis using True p by (subst write_loop.simps) (simp add: write_some_def)
    next
      case (Takes k)
      let ?k = "min (max 1 k) (length (drop n buf))"
      have "write_loop buf (n + ?k) (s\<lparr>sk_writes := ps, sk_delivered := sk_delivered s @ take ?k (drop n buf)\<rparr>) \<noteq> None"
        by (rule less.hyps) (use True less.prems p in auto)
      then show ?thesis using True p Takes by (subst write_loop.simps) (simp add: write_some_def Let_def)
    qed
  qed
qed

text \<open>
  However the network cuts the writes, the loop of \<open>write_to_socket\<close> delivers a prefix of its
  message, and all of it when the function reports success; it returns within as many calls as there
  are bytes. (An error that is thrown does not have the code 0.)
\<close>

theorem write_some_loop_delivers:
  assumes "WriteFails 0 \<notin> set (sk_writes s)"
  shows "case send_data_by_write_some None s of
      None \<Rightarrow> length (sk_writes s) < length hello
    | Some (c, t) \<Rightarrow> (\<exists>m. sk_delivered t = sk_delivered s @ take m hello) \<and> (c = 0 \<longrightarrow> sk_delivered t = sk_delivered s @ hello)"
proof (cases "write_loop hello 0 s")
  case None
  then show ?thesis
    using write_loop_returns [of hello 0 s] not_less
    by (auto simp: send_data_by_write_some_def client_def write_to_socket_def)
next
  case (Some p)
  then obtain r t where r: "write_loop hello 0 s = Some (r, t)" by (cases p) auto
  from write_loop_sends [OF this] obtain m where "m \<le> length hello" "sk_delivered t = sk_delivered s @ take m hello"
      "\<forall>k. r = Inr k \<longrightarrow> m = length hello" "\<forall>e. r = Inl e \<longrightarrow> WriteFails e \<in> set (sk_writes s)"
    by auto
  moreover have "\<exists>m. hello = take m hello" by (rule exI [of _ "length hello"]) simp
  ultimately show ?thesis using r assms
    by (cases r) (auto simp: send_data_by_write_some_def client_def write_to_socket_def)
qed

definition quiet :: bsocket where
  "quiet = \<lparr>sk_writes = [], sk_arrivals = [], sk_delivered = []\<rparr>"

lemma write_some_loop_delivers_witness:
  "WriteFails 0 \<notin> set (sk_writes (quiet\<lparr>sk_writes := [Takes 4, Takes 0, Takes 20]\<rparr>)) \<and>
   (\<exists>t. send_data_by_write_some None (quiet\<lparr>sk_writes := [Takes 4, Takes 0, Takes 20]\<rparr>) = Some (0, t) \<and> sk_delivered t = hello)"
proof -
  let ?s = "quiet\<lparr>sk_writes := [Takes 4, Takes 0, Takes 20]\<rparr>"
  have w: "WriteFails 0 \<notin> set (sk_writes ?s)" by simp
  have "\<exists>t. send_data_by_write_some None ?s = Some (0, t)"
    by (simp add: send_data_by_write_some_def client_def write_to_socket_def hello_def quiet_def write_loop.simps write_some_def)
  then obtain t where t: "send_data_by_write_some None ?s = Some (0, t)" ..
  with write_some_loop_delivers [OF w] have "sk_delivered t = sk_delivered ?s @ hello" by simp
  then have "sk_delivered t = hello" by (simp add: quiet_def)
  with w t show ?thesis by blast
qed

text \<open>One \<open>send\<close> reports success for any part that is not empty.\<close>

lemma send_may_truncate:
  assumes "0 < k" "k \<le> length hello"
  shows "\<exists>t. send_data_by_send None (s\<lparr>sk_writes := [Takes k]\<rparr>) = Some (0, t) \<and> sk_delivered t = sk_delivered s @ take k hello"
  using assms by (simp add: send_data_by_send_def client_def write_some_def hello_def)

section \<open>Receiving\<close>

text \<open>
  The loop of \<open>read_from_socket\<close> sets its count to the length of the last read, where it means to add
  it. The count stays at most 7, so the difference does not wrap.
\<close>

definition MESSAGE_SIZE :: nat where
  "MESSAGE_SIZE = 7"

partial_function (option) message_loop :: "string \<Rightarrow> nat \<Rightarrow> bsocket \<Rightarrow> ((nat + string) \<times> bsocket) option" where
  "message_loop buf total_bytes_read s =
     (if total_bytes_read \<noteq> MESSAGE_SIZE
      then (case read_some (MESSAGE_SIZE - total_bytes_read) s of
              None \<Rightarrow> None
            | Some (Inl e, t) \<Rightarrow> Some (Inl e, t)
            | Some (Inr bs, t) \<Rightarrow>
                message_loop (take total_bytes_read buf @ bs @ drop (total_bytes_read + length bs) buf) (length bs) t)
      else Some (Inr (take total_bytes_read buf), s))"

definition read_from_socket :: "bsocket \<Rightarrow> ((nat + string) \<times> bsocket) option" where
  "read_from_socket s = message_loop (replicate MESSAGE_SIZE (CHR 0x00)) 0 s"

text \<open>\<open>boost::asio::read\<close> of a number of bytes.\<close>

partial_function (option) read_all :: "nat \<Rightarrow> string \<Rightarrow> bsocket \<Rightarrow> ((nat + string) \<times> bsocket) option" where
  "read_all n got s =
     (if length got < n
      then (case read_some (n - length got) s of
              None \<Rightarrow> None
            | Some (Inl e, t) \<Rightarrow> Some (Inl e, t)
            | Some (Inr bs, t) \<Rightarrow> read_all n (got @ bs) t)
      else Some (Inr got, s))"

definition received :: "((nat + string) \<times> bsocket) option \<Rightarrow> ((nat + nat) \<times> bsocket) option" where
  "received x = (case x of None \<Rightarrow> None | Some (Inl e, t) \<Rightarrow> Some (Inl e, t) | Some (Inr bs, t) \<Rightarrow> Some (Inr (length bs), t))"

definition read_data_by_read_some :: "nat option \<Rightarrow> bsocket \<Rightarrow> (nat \<times> bsocket) option" where
  "read_data_by_read_some conn s = client conn (\<lambda>s. received (read_from_socket s)) s"

definition read_data_by_recv :: "nat option \<Rightarrow> bsocket \<Rightarrow> (nat \<times> bsocket) option" where
  "read_data_by_recv conn s = client conn (\<lambda>s. received (read_some 7 s)) s"

definition read_data_by_read :: "nat option \<Rightarrow> bsocket \<Rightarrow> (nat \<times> bsocket) option" where
  "read_data_by_read conn s = client conn (\<lambda>s. received (read_all 7 [] s)) s"

lemma read_some_length: "read_some n s = Some (Inr bs, t) \<Longrightarrow> length bs \<le> n \<and> (0 < n \<longrightarrow> bs \<noteq> [])"
  by (auto simp: read_some_def split: list.splits arrival.splits)

lemma message_loop_stuck:
  assumes "message_loop buf n s = Some y" "0 < n" "n < MESSAGE_SIZE"
  shows "\<exists>e t. y = (Inl e, t)"
proof -
  have "0 < n \<longrightarrow> n < MESSAGE_SIZE \<longrightarrow> (\<exists>e t. y = (Inl e, t))"
  proof (rule message_loop.raw_induct [OF _ assms(1)])
    fix loop buf n s y
    assume ih: "\<And>buf n s y. loop buf n s = Some y \<Longrightarrow> 0 < n \<longrightarrow> n < MESSAGE_SIZE \<longrightarrow> (\<exists>e t. y = (Inl e, t))"
      and body: "(if n \<noteq> MESSAGE_SIZE
          then case read_some (MESSAGE_SIZE - n) s of None \<Rightarrow> None
            | Some (Inl e, t) \<Rightarrow> Some (Inl e, t)
            | Some (Inr bs, t) \<Rightarrow> loop (take n buf @ bs @ drop (n + length bs) buf) (length bs) t
          else Some (Inr (take n buf), s)) = Some y"
    show "0 < n \<longrightarrow> n < MESSAGE_SIZE \<longrightarrow> (\<exists>e t. y = (Inl e, t))"
    proof (intro impI)
      assume n: "0 < n" "n < MESSAGE_SIZE"
      then obtain r t where r: "read_some (MESSAGE_SIZE - n) s = Some (r, t)" using body by (auto split: option.splits)
      show "\<exists>e t. y = (Inl e, t)"
      proof (cases r)
        case (Inl e)
        then show ?thesis using body n r by auto
      next
        case (Inr bs)
        have "0 < length bs" "length bs < MESSAGE_SIZE"
          using read_some_length [of "MESSAGE_SIZE - n" s bs t] r Inr n by auto
        then show ?thesis using ih [of _ "length bs"] body n r Inr by auto
      qed
    qed
  qed
  then show ?thesis using assms(2,3) by blast
qed

text \<open>
  C37. \<open>read_from_socket\<close> returns a message only if its seven bytes arrive in one piece: after a shorter
  piece it never returns one, whatever arrives then, while \<open>boost::asio::read\<close> puts the pieces together.
\<close>

theorem read_from_socket_needs_one_piece:
  "(\<exists>x t. read_from_socket s = Some (Inr x, t)) \<longleftrightarrow>
   (\<exists>b bs as. sk_arrivals s = Arrives b bs # as \<and> MESSAGE_SIZE \<le> length (b # bs))"
proof
  assume "\<exists>b bs as. sk_arrivals s = Arrives b bs # as \<and> MESSAGE_SIZE \<le> length (b # bs)"
  then show "\<exists>x t. read_from_socket s = Some (Inr x, t)"
    by (auto simp: read_from_socket_def message_loop.simps [of _ 0] message_loop.simps [of _ 7] read_some_def MESSAGE_SIZE_def)
next
  assume "\<exists>x t. read_from_socket s = Some (Inr x, t)"
  then obtain x t where x: "read_from_socket s = Some (Inr x, t)" by blast
  then obtain r u where r: "read_some MESSAGE_SIZE s = Some (r, u)"
    by (auto simp: read_from_socket_def message_loop.simps [of _ 0] MESSAGE_SIZE_def split: option.splits)
  obtain bs where bs: "r = Inr bs"
    using x r by (cases r) (auto simp: read_from_socket_def message_loop.simps [of _ 0] MESSAGE_SIZE_def)
  define buf where "buf = replicate MESSAGE_SIZE (CHR 0x00)"
  have l: "message_loop (bs @ drop (length bs) buf) (length bs) u = Some (Inr x, t)"
    using x r bs unfolding read_from_socket_def buf_def [symmetric] by (subst (asm) message_loop.simps) (simp add: MESSAGE_SIZE_def)
  have len: "0 < length bs" "length bs \<le> MESSAGE_SIZE"
    using read_some_length [of MESSAGE_SIZE s bs u] r bs by (auto simp: MESSAGE_SIZE_def)
  then have "length bs = MESSAGE_SIZE" using message_loop_stuck [OF l] by fastforce
  then show "\<exists>b bs as. sk_arrivals s = Arrives b bs # as \<and> MESSAGE_SIZE \<le> length (b # bs)"
    using r bs by (auto simp: read_some_def MESSAGE_SIZE_def split: list.splits arrival.splits)
qed

text \<open>Bytes that arrive in pieces.\<close>

fun pieces :: "string list \<Rightarrow> arrival list" where
  "pieces [] = []"
| "pieces ((c # cs) # ps) = Arrives c cs # pieces ps"
| "pieces ([] # ps) = pieces ps"

lemma read_all_joins:
  assumes "sk_arrivals s = pieces ps @ as" "length got \<le> n" "n \<le> length got + length (concat ps)"
  shows "\<exists>t. read_all n got s = Some (Inr (got @ take (n - length got) (concat ps)), t)"
  using assms
proof (induction ps arbitrary: got s rule: pieces.induct)
  case 1
  then show ?case by (subst read_all.simps) simp
next
  case (2 c cs ps)
  show ?case
  proof (cases "length got < n")
    case False
    then show ?thesis using 2(3) by (subst read_all.simps) simp
  next
    case True
    let ?d = "n - length got"
    show ?thesis
    proof (cases "?d < length (c # cs)")
      case short: True
      obtain t where t: "read_some ?d s = Some (Inr (take ?d (c # cs)), t)" using 2(2) by (auto simp: read_some_def)
      have "length (got @ take ?d (c # cs)) = n" using True short by simp
      then have e: "read_all n (got @ take ?d (c # cs)) t = Some (Inr (got @ take ?d (c # cs)), t)"
        by (subst read_all.simps) simp
      have "read_all n got s = Some (Inr (got @ take ?d (c # cs)), t)"
        by (subst read_all.simps) (simp add: True t e)
      moreover have "take ?d (concat ((c # cs) # ps)) = take ?d (c # cs)"
        using short unfolding concat.simps take_append by simp
      ultimately show ?thesis by auto
    next
      case False
      define t where "t = s\<lparr>sk_arrivals := pieces ps @ as\<rparr>"
      have t: "read_some ?d s = Some (Inr (c # cs), t)" using 2(2) False by (simp add: read_some_def t_def)
      have "\<exists>u. read_all n (got @ c # cs) t =
          Some (Inr ((got @ c # cs) @ take (n - length (got @ c # cs)) (concat ps)), u)"
        by (rule 2(1)) (use 2(3,4) False in \<open>auto simp: t_def\<close>)
      then obtain u where u: "read_all n (got @ c # cs) t =
          Some (Inr ((got @ c # cs) @ take (n - length (got @ c # cs)) (concat ps)), u)" ..
      have "read_all n got s = Some (Inr ((got @ c # cs) @ take (n - length (got @ c # cs)) (concat ps)), u)"
        by (subst read_all.simps) (simp add: True t u)
      then show ?thesis using False by (simp add: take_Cons')
    qed
  qed
next
  case (3 ps)
  then show ?case by simp
qed

section \<open>The echo server that sends whole buffers\<close>

text \<open>
  \<open>session\<close> reads into a buffer of zeros and sends all of it, whatever the length of what it read;
  it ends when an operation throws.
\<close>

definition SYNC_MAX :: nat where
  "SYNC_MAX = 1024"

partial_function (option) sync_session :: "bsocket \<Rightarrow> (nat \<times> bsocket) option" where
  "sync_session s =
     (case read_some SYNC_MAX s of
        None \<Rightarrow> None
      | Some (Inl e, t) \<Rightarrow> Some (e, t)
      | Some (Inr bs, t) \<Rightarrow>
          (case write_some (bs @ replicate (SYNC_MAX - length bs) (CHR 0x00)) t of
             None \<Rightarrow> None
           | Some (Inl e, u) \<Rightarrow> Some (e, u)
           | Some (Inr k, u) \<Rightarrow> sync_session u))"

definition padded :: "string \<Rightarrow> string" where
  "padded x = x @ replicate (SYNC_MAX - length x) (CHR 0x00)"

lemma sync_session_echoes:
  assumes "\<forall>p\<in>set ps. p \<noteq> [] \<and> length p \<le> SYNC_MAX" "sk_arrivals s = pieces ps @ [ReadFails e]"
    and "sk_writes s = replicate (length ps) (Takes SYNC_MAX)"
  shows "\<exists>t. sync_session s = Some (e, t) \<and> sk_delivered t = sk_delivered s @ concat (map padded ps)"
  using assms
proof (induction ps arbitrary: s)
  case Nil
  then show ?case by (subst sync_session.simps) (simp add: read_some_def)
next
  case (Cons p ps)
  obtain c cs where p: "p = c # cs" using Cons.prems(1) by (cases p) auto
  define t where "t = s\<lparr>sk_arrivals := pieces ps @ [ReadFails e]\<rparr>"
  define u where "u = t\<lparr>sk_writes := replicate (length ps) (Takes SYNC_MAX), sk_delivered := sk_delivered s @ padded p\<rparr>"
  have r: "read_some SYNC_MAX s = Some (Inr p, t)"
    using Cons.prems(1,2) p by (simp add: read_some_def t_def)
  have w: "write_some (padded p) t = Some (Inr SYNC_MAX, u)"
    using Cons.prems(1,3) by (simp add: write_some_def t_def u_def padded_def Let_def SYNC_MAX_def)
  have "\<exists>v. sync_session u = Some (e, v) \<and> sk_delivered v = sk_delivered u @ concat (map padded ps)"
    by (rule Cons.IH) (use Cons.prems(1) in \<open>auto simp: u_def t_def\<close>)
  then show ?case
    using r w by (subst sync_session.simps) (auto simp: padded_def [symmetric] u_def t_def)
qed

text \<open>The client sends its line and reads as many bytes as it has sent.\<close>

definition sync_client_reply :: "string \<Rightarrow> bsocket \<Rightarrow> ((nat + string) \<times> bsocket) option" where
  "sync_client_reply request s = read_all (length request) [] s"

text \<open>
  The client of \<open>syncClient\<close> gets its line back exactly if the server has received it in one piece:
  each piece is sent back with zeros up to the size of the buffer.
\<close>

theorem sync_echo:
  assumes "\<forall>q\<in>set (p # ps). q \<noteq> [] \<and> length q \<le> SYNC_MAX" "CHR 0x00 \<notin> set (concat (p # ps))"
    and "length (concat (p # ps)) < SYNC_MAX"
    and "sk_arrivals server = pieces (p # ps) @ [ReadFails e]" "sk_writes server = replicate (length (p # ps)) (Takes SYNC_MAX)"
    and "sync_session server = Some (e, t)" "sk_delivered server = []"
    and "sk_arrivals me = pieces [sk_delivered t]"
  shows "\<exists>x u. sync_client_reply (concat (p # ps)) me = Some (Inr x, u) \<and> (x = concat (p # ps) \<longleftrightarrow> ps = [])"
proof -
  let ?x = "concat (p # ps)"
  have d: "sk_delivered t = concat (map padded (p # ps))"
    using sync_session_echoes [OF assms(1,4,5)] assms(6,7) by auto
  have lp: "length (padded p) = SYNC_MAX" using assms(1) by (simp add: padded_def)
  have len: "length ?x \<le> length (concat [sk_delivered t])" using assms(3) lp unfolding d by simp
  have "sk_arrivals me = pieces [sk_delivered t] @ []" using assms(8) by simp
  from read_all_joins [OF this, of "[]" "length ?x"] len
  obtain u where u: "read_all (length ?x) [] me = Some (Inr (take (length ?x) (sk_delivered t)), u)" by auto
  have tk: "take (length ?x) (sk_delivered t) = p @ replicate (length ?x - length p) (CHR 0x00)"
    using assms(3) lp unfolding d by (simp add: padded_def min.absorb1)
  have "p @ replicate (length ?x - length p) (CHR 0x00) = ?x \<longleftrightarrow> ps = []"
  proof
    assume e: "p @ replicate (length ?x - length p) (CHR 0x00) = ?x"
    show "ps = []"
    proof (cases ps)
      case (Cons q qs)
      then obtain c cs where "q = c # cs" using assms(1) by (cases q) auto
      then have "c = CHR 0x00" using e Cons by simp
      then show ?thesis using assms(2) Cons \<open>q = c # cs\<close> by simp
    qed simp
  qed simp
  then show ?thesis using u tk by (auto simp: sync_client_reply_def)
qed

lemma sync_echo_witness:
  "\<exists>t x u. sync_session (quiet\<lparr>sk_arrivals := pieces [''ab'', ''c''] @ [ReadFails 2], sk_writes := [Takes SYNC_MAX, Takes SYNC_MAX]\<rparr>) = Some (2, t) \<and>
     sync_client_reply ''abc'' (quiet\<lparr>sk_arrivals := pieces [sk_delivered t]\<rparr>) = Some (Inr x, u) \<and> x \<noteq> ''abc''"
proof -
  let ?s = "quiet\<lparr>sk_arrivals := pieces [''ab'', ''c''] @ [ReadFails 2], sk_writes := [Takes SYNC_MAX, Takes SYNC_MAX]\<rparr>"
  have h: "\<forall>q\<in>set [''ab'', ''c'']. q \<noteq> [] \<and> length q \<le> SYNC_MAX" "CHR 0x00 \<notin> set (concat [''ab'', ''c''])"
    "length (concat [''ab'', ''c'']) < SYNC_MAX"
    by (simp_all add: SYNC_MAX_def)
  have w: "sk_writes ?s = replicate (length [''ab'', ''c'']) (Takes SYNC_MAX)" by simp
  have a: "sk_arrivals ?s = pieces [''ab'', ''c''] @ [ReadFails 2]" by simp
  obtain t where t: "sync_session ?s = Some (2, t)" using sync_session_echoes [OF h(1) a w] by blast
  have d: "sk_delivered ?s = []" by (simp add: quiet_def)
  have m: "sk_arrivals (quiet\<lparr>sk_arrivals := pieces [sk_delivered t]\<rparr>) = pieces [sk_delivered t]" by simp
  from sync_echo [OF h a w t d m]
  obtain x u where x: "sync_client_reply (concat [''ab'', ''c'']) (quiet\<lparr>sk_arrivals := pieces [sk_delivered t]\<rparr>) = Some (Inr x, u)"
    "x \<noteq> concat [''ab'', ''c'']" by auto
  have "concat [''ab'', ''c''] = ''abc''" by simp
  with x t show ?thesis by metis
qed

end
