(* ===== verification/ThreadObjects.thy ===== *)
theory ThreadObjects
  imports ParAlgo
begin

text \<open>
  Handles of threads: \<open>std::thread\<close>, \<open>thread_guard\<close> and \<open>joining_thread\<close> of \<open>day01-thread.cpp\<close>, the uses
  of them there and in \<open>day09-QASummary.cpp\<close>, and \<open>parallel_accumulate\<close>.
\<close>

section \<open>Threads and their handles\<close>

text \<open>
  A thread is a number, a handle is a variable that names at most one thread. Joining waits for the
  end of the thread; \<open>ends t\<close> says whether it has one. To destroy a handle that names a thread, or to
  assign to it, ends the program with \<open>std::terminate\<close>; to join one that names none throws.
\<close>

record thread_state =
  handles :: "nat \<Rightarrow> nat option"
  started :: nat
  joined_threads :: "nat list"

datatype outcome = Goes thread_state | Terminates | Blocks | Throws

definition no_threads :: thread_state where
  "no_threads = \<lparr>handles = \<lambda>h. None, started = 0, joined_threads = []\<rparr>"

fun andthen :: "outcome \<Rightarrow> (thread_state \<Rightarrow> outcome) \<Rightarrow> outcome" where
  "andthen (Goes s) f = f s"
| "andthen x f = x"

definition joinable :: "nat \<Rightarrow> thread_state \<Rightarrow> bool" where
  "joinable h s \<longleftrightarrow> handles s h \<noteq> None"

definition start_thread :: "nat \<Rightarrow> thread_state \<Rightarrow> thread_state" where
  "start_thread h s = s\<lparr>handles := (handles s)(h := Some (started s)), started := started s + 1\<rparr>"

definition join :: "(nat \<Rightarrow> bool) \<Rightarrow> nat \<Rightarrow> thread_state \<Rightarrow> outcome" where
  "join ends h s =
     (case handles s h of
        None \<Rightarrow> Throws
      | Some t \<Rightarrow> if ends t then Goes (s\<lparr>handles := (handles s)(h := None), joined_threads := joined_threads s @ [t]\<rparr>) else Blocks)"

definition take_over :: "nat \<Rightarrow> nat \<Rightarrow> thread_state \<Rightarrow> thread_state" where
  "take_over a b s = s\<lparr>handles := ((handles s)(b := None))(a := handles s b)\<rparr>"

text \<open>\<open>a = std::move(b)\<close> on \<open>std::thread\<close>, and its destructor.\<close>

definition move_assign :: "nat \<Rightarrow> nat \<Rightarrow> thread_state \<Rightarrow> outcome" where
  "move_assign a b s = (if joinable a s then Terminates else Goes (take_over a b s))"

definition destroy :: "nat \<Rightarrow> thread_state \<Rightarrow> outcome" where
  "destroy h s = (if joinable h s then Terminates else Goes s)"

text \<open>The destructors of \<open>thread_guard\<close> and \<open>joining_thread\<close> join first.\<close>

definition join_if_joinable :: "(nat \<Rightarrow> bool) \<Rightarrow> nat \<Rightarrow> thread_state \<Rightarrow> outcome" where
  "join_if_joinable ends h s = (if joinable h s then join ends h s else Goes s)"

text \<open>\<open>auto_gurad\<close>: a thread and its guard, destroyed in the reverse order.\<close>

definition auto_guard :: "(nat \<Rightarrow> bool) \<Rightarrow> thread_state \<Rightarrow> outcome" where
  "auto_guard ends s = andthen (join_if_joinable ends 0 (start_thread 0 s)) (destroy 0)"

text \<open>\<open>dangerous_use\<close>, with its handles \<open>t1\<close>, \<open>t2\<close>, \<open>t3\<close>, and \<open>ThreadOp\<close>.\<close>

definition dangerous_use :: "thread_state \<Rightarrow> outcome" where
  "dangerous_use s =
     andthen (move_assign 2 1 (start_thread 1 s)) (\<lambda>s.
     andthen (move_assign 1 9 (start_thread 9 s)) (\<lambda>s.
     andthen (move_assign 3 2 s) (\<lambda>s.
     move_assign 1 3 s)))"

definition ThreadOp :: "(nat \<Rightarrow> bool) \<Rightarrow> thread_state \<Rightarrow> outcome" where
  "ThreadOp ends s =
     andthen (move_assign 1 2 (start_thread 2 (start_thread 1 s))) (\<lambda>s.
     andthen (join ends 1 s) (\<lambda>s.
     join ends 2 s))"

lemma dangerous_use_terminates: "dangerous_use no_threads = Terminates"
  by (simp add: dangerous_use_def move_assign_def take_over_def start_thread_def joinable_def no_threads_def)

lemma ThreadOp_terminates: "ThreadOp ends no_threads = Terminates"
  by (simp add: ThreadOp_def move_assign_def start_thread_def joinable_def no_threads_def)

lemma auto_guard_joins:
  "handles s 0 = None \<Longrightarrow> ends (started s) \<Longrightarrow>
     auto_guard ends s = Goes (s\<lparr>started := started s + 1, joined_threads := joined_threads s @ [started s]\<rparr>)"
  by (simp add: auto_guard_def join_if_joinable_def join_def destroy_def start_thread_def joinable_def fun_upd_idem_iff)

section \<open>joining_thread\<close>

text \<open>
  The operations of the class. \<open>swap\<close> takes the other object by value, so the argument is moved into a
  parameter, here the handle \<open>tmp\<close>, which is destroyed when the function returns.
\<close>

datatype joining_op =
    Construct nat                \<comment> \<open>with a function; the handle names no thread before\<close>
  | MoveConstruct nat nat
  | MoveAssign nat nat
  | AssignThread nat             \<comment> \<open>a new \<open>std::thread\<close> is assigned\<close>
  | Swap nat nat
  | Destroy nat

definition joining_assign :: "(nat \<Rightarrow> bool) \<Rightarrow> nat \<Rightarrow> nat \<Rightarrow> thread_state \<Rightarrow> outcome" where
  "joining_assign ends a b s = andthen (join_if_joinable ends a s) (\<lambda>s. move_assign a b s)"

definition joining_swap :: "(nat \<Rightarrow> bool) \<Rightarrow> nat \<Rightarrow> nat \<Rightarrow> nat \<Rightarrow> thread_state \<Rightarrow> outcome" where
  "joining_swap ends tmp a b s =
     (let s1 = take_over tmp b s;
          s2 = s1\<lparr>handles := (handles s1)(a := handles s1 tmp, tmp := handles s1 a)\<rparr> in
      join_if_joinable ends tmp s2)"

definition tmp_handle :: nat where
  "tmp_handle = 0"

text \<open>The variables of a program are other than the parameter.\<close>

fun op_handles :: "joining_op \<Rightarrow> nat list" where
  "op_handles (Construct a) = [a]"
| "op_handles (MoveConstruct a b) = [a, b]"
| "op_handles (MoveAssign a b) = [a, b]"
| "op_handles (AssignThread a) = [a]"
| "op_handles (Swap a b) = [a, b]"
| "op_handles (Destroy a) = [a]"

text \<open>A program constructs an object only where there is none: \<open>None\<close> is no program.\<close>

fun joining_step :: "(nat \<Rightarrow> bool) \<Rightarrow> joining_op \<Rightarrow> thread_state \<Rightarrow> outcome option" where
  "joining_step ends (Construct a) s = (if joinable a s then None else Some (Goes (start_thread a s)))"
| "joining_step ends (MoveConstruct a b) s = (if joinable a s then None else Some (Goes (take_over a b s)))"
| "joining_step ends (MoveAssign a b) s = Some (joining_assign ends a b s)"
| "joining_step ends (AssignThread a) s = Some (joining_assign ends a tmp_handle (start_thread tmp_handle s))"
| "joining_step ends (Swap a b) s = Some (joining_swap ends tmp_handle a b s)"
| "joining_step ends (Destroy a) s = Some (join_if_joinable ends a s)"

fun joining_run :: "(nat \<Rightarrow> bool) \<Rightarrow> joining_op list \<Rightarrow> thread_state \<Rightarrow> outcome option" where
  "joining_run ends [] s = Some (Goes s)"
| "joining_run ends (x # xs) s =
     (if tmp_handle \<in> set (op_handles x) then None
      else case joining_step ends x s of
          None \<Rightarrow> None
        | Some (Goes t) \<Rightarrow> joining_run ends xs t
        | Some r \<Rightarrow> Some r)"

text \<open>Every thread that was started is named by one handle or was joined, and not both.\<close>

definition threads_inv :: "thread_state \<Rightarrow> bool" where
  "threads_inv s \<longleftrightarrow> distinct (joined_threads s) \<and> inj_on (handles s) (dom (handles s)) \<and>
     ran (handles s) \<inter> set (joined_threads s) = {} \<and> ran (handles s) \<union> set (joined_threads s) = {..<started s}"

lemma inv_start:
  assumes "threads_inv s" "handles s a = None"
  shows "threads_inv (start_thread a s)"
proof -
  have "started s \<notin> ran (handles s)" "started s \<notin> set (joined_threads s)" using assms(1) by (auto simp: threads_inv_def)
  moreover have "inj_on ((handles s)(a \<mapsto> started s)) (insert a (dom (handles s)))"
    using assms calculation(1) by (auto simp: threads_inv_def inj_on_def ran_def dom_def)
  ultimately show ?thesis using assms by (auto simp: threads_inv_def start_thread_def)
qed

lemma ran_take_over: "handles s a = None \<Longrightarrow> ran (handles (take_over a b s)) = ran (handles s)"
proof (intro equalityI subsetI)
  fix t assume a: "handles s a = None"
  { assume "t \<in> ran (handles s)"
    then obtain h where "handles s h = Some t" by (auto simp: ran_def)
    then have "handles (take_over a b s) (if h = b then a else h) = Some t" using a by (auto simp: take_over_def)
    then show "t \<in> ran (handles (take_over a b s))" by (rule ranI) }
  assume "t \<in> ran (handles (take_over a b s))"
  then show "t \<in> ran (handles s)" by (auto simp: ran_def take_over_def split: if_splits)
qed

lemma inv_take_over:
  assumes "threads_inv s" "handles s a = None"
  shows "threads_inv (take_over a b s)"
proof -
  have i: "handles s h = Some t \<Longrightarrow> handles s h' = Some t \<Longrightarrow> h = h'" for h h' t
    using assms(1) by (force simp: threads_inv_def inj_on_def dom_def)
  then have "inj_on (handles (take_over a b s)) (dom (handles (take_over a b s)))"
    using assms(2) by (auto simp: inj_on_def take_over_def dom_def split: if_splits)
  moreover have "joined_threads (take_over a b s) = joined_threads s" "started (take_over a b s) = started s"
    by (simp_all add: take_over_def)
  ultimately show ?thesis using assms by (simp add: threads_inv_def ran_take_over)
qed

lemma inv_joined:
  assumes "threads_inv s" "handles s a = Some u"
  shows "threads_inv (s\<lparr>handles := (handles s)(a := None), joined_threads := joined_threads s @ [u]\<rparr>)"
proof -
  have i: "handles s h = Some t \<Longrightarrow> handles s h' = Some t \<Longrightarrow> h = h'" for h h' t
    using assms(1) by (force simp: threads_inv_def inj_on_def dom_def)
  then have r: "ran ((handles s)(a := None)) = ran (handles s) - {u}"
    using assms(2) by (auto simp: ran_def) (metis option.inject)
  have "inj_on ((handles s)(a := None)) (dom ((handles s)(a := None)))" using i by (auto simp: inj_on_def dom_def)
  moreover have "u \<in> ran (handles s)" using assms(2) by (rule ranI)
  ultimately show ?thesis using assms(1) r by (auto simp: threads_inv_def)
qed

text \<open>An outcome is good if it goes on with the invariant and without the parameter, or waits for a thread that does not end.\<close>

definition good_outcome :: "outcome \<Rightarrow> bool" where
  "good_outcome r \<longleftrightarrow> (case r of Goes t \<Rightarrow> threads_inv t \<and> handles t tmp_handle = None | Blocks \<Rightarrow> True | _ \<Rightarrow> False)"

lemma join_cases:
  assumes "threads_inv s"
  obtains t where "join_if_joinable ends a s = Goes t" "threads_inv t" "handles t a = None"
      "\<And>h. h \<noteq> a \<Longrightarrow> handles t h = handles s h"
  | "join_if_joinable ends a s = Blocks"
proof (cases "handles s a")
  case None
  then show ?thesis using that(1) [of s] assms by (simp add: join_if_joinable_def joinable_def)
next
  case (Some u)
  then show ?thesis using that inv_joined [OF assms Some]
    by (cases "ends u") (auto simp: join_if_joinable_def joinable_def join_def)
qed

lemma assign_good:
  assumes "threads_inv s" "a \<noteq> tmp_handle" "b = tmp_handle \<or> handles s tmp_handle = None"
  shows "good_outcome (joining_assign ends a b s)"
  using join_cases [OF assms(1), of ends a]
proof cases
  case (1 t)
  have "handles (take_over a b t) tmp_handle = None" using 1(4) [of tmp_handle] assms(2,3) by (auto simp: take_over_def)
  then show ?thesis
    using 1 inv_take_over [OF 1(2,3), of b] by (simp add: joining_assign_def good_outcome_def move_assign_def joinable_def)
next
  case 2
  then show ?thesis by (simp add: joining_assign_def good_outcome_def)
qed

text \<open>\<open>swap\<close> does what an assignment does, with the join after the move.\<close>

lemma swap_good:
  assumes "threads_inv s" "a \<noteq> tmp_handle" "b \<noteq> tmp_handle" "handles s tmp_handle = None"
  shows "good_outcome (joining_swap ends tmp_handle a b s)"
proof -
  define s1 where "s1 = take_over tmp_handle b s"
  define s2 where "s2 = s1\<lparr>handles := (handles s1)(a := handles s1 tmp_handle, tmp_handle := handles s1 a)\<rparr>"
  have i1: "threads_inv s1" unfolding s1_def by (rule inv_take_over [OF assms(1,4)])
  have "ran (handles s2) = ran (handles s1)" using assms(2) by (auto simp: s2_def ran_def split: if_splits) metis
  moreover have "inj_on (handles s2) (dom (handles s2))"
    using i1 assms(2) by (auto simp: threads_inv_def inj_on_def s2_def dom_def split: if_splits)
  ultimately have i2: "threads_inv s2" using i1 by (simp add: threads_inv_def s2_def)
  have e: "joining_swap ends tmp_handle a b s = join_if_joinable ends tmp_handle s2"
    by (simp add: joining_swap_def s2_def s1_def Let_def)
  show ?thesis unfolding e
    by (rule join_cases [OF i2, of ends tmp_handle]) (simp_all add: good_outcome_def)
qed

lemma joining_step_good:
  assumes i: "threads_inv s" "handles s tmp_handle = None" and h: "tmp_handle \<notin> set (op_handles x)"
    and st: "joining_step ends x s = Some r"
  shows "good_outcome r"
proof (cases x)
  case (Construct a)
  then have r: "handles s a = None" "r = Goes (start_thread a s)" using st by (auto simp: joinable_def split: if_splits)
  then show ?thesis using inv_start [OF i(1) r(1)] i(2) h Construct by (simp add: good_outcome_def start_thread_def)
next
  case (MoveConstruct a b)
  then have r: "handles s a = None" "r = Goes (take_over a b s)" using st by (auto simp: joinable_def split: if_splits)
  then show ?thesis using inv_take_over [OF i(1) r(1)] i(2) h MoveConstruct by (simp add: good_outcome_def take_over_def)
next
  case (MoveAssign a b)
  then show ?thesis using st assign_good [OF i(1)] i(2) h by auto
next
  case (AssignThread a)
  then show ?thesis using st assign_good [OF inv_start [OF i]] h by auto
next
  case (Swap a b)
  then show ?thesis using st swap_good [OF i(1) _ _ i(2)] h by auto
next
  case (Destroy a)
  then have r: "r = join_if_joinable ends a s" and a: "tmp_handle \<noteq> a" using st h by auto
  show ?thesis
    using join_cases [OF i(1), of ends a]
  proof cases
    case (1 t)
    from 1(4) [OF a] i(2) 1(1,2) show ?thesis by (simp add: r good_outcome_def)
  next
    case 2
    then show ?thesis by (simp add: r good_outcome_def)
  qed
qed

lemma joining_run_good:
  assumes "threads_inv s" "handles s tmp_handle = None" "joining_run ends xs s = Some r"
  shows "good_outcome r"
  using assms
proof (induction xs arbitrary: s)
  case Nil
  then show ?case by (auto simp: good_outcome_def)
next
  case (Cons x xs)
  then obtain o' where o: "tmp_handle \<notin> set (op_handles x)" "joining_step ends x s = Some o'"
    by (auto split: if_splits option.splits)
  have g: "good_outcome o'" by (rule joining_step_good [OF Cons.prems(1,2) o])
  then show ?case using Cons.prems(3) o Cons.IH by (cases o') (auto simp: good_outcome_def)
qed

text \<open>
  C38. A program that works on threads only through \<open>joining_thread\<close> objects never ends by
  \<open>std::terminate\<close> or by an exception, and when it has destroyed its objects each thread that it
  started was joined exactly once; the only other outcome is to wait for a thread that does not end.
\<close>

theorem joining_threads_are_joined:
  assumes "joining_run ends xs no_threads = Some r"
  shows "case r of
      Goes s \<Rightarrow> (\<forall>h. handles s h = None) \<longrightarrow> distinct (joined_threads s) \<and> set (joined_threads s) = {..<started s}
    | Blocks \<Rightarrow> True | Terminates \<Rightarrow> False | Throws \<Rightarrow> False"
proof -
  have "threads_inv no_threads" by (auto simp: threads_inv_def no_threads_def)
  moreover have "handles no_threads tmp_handle = None" by (simp add: no_threads_def)
  ultimately have g: "good_outcome r" using assms by (rule joining_run_good)
  have "ran (handles s) = {}" if "\<forall>h. handles s h = None" for s using that by (simp add: ran_def)
  then show ?thesis using g by (cases r) (auto simp: good_outcome_def threads_inv_def)
qed

text \<open>The objects of \<open>use_jointhread\<close> as handles 1, 2, 3, with a \<open>swap\<close> before they are destroyed.\<close>

lemma joining_threads_are_joined_witness:
  "\<exists>s. joining_run (\<lambda>t. True) [Construct 1, Construct 2, Construct 3, MoveAssign 1 3, Swap 2 1, Destroy 3, Destroy 2, Destroy 1]
      no_threads = Some (Goes s) \<and> distinct (joined_threads s) \<and> set (joined_threads s) = {..<3}"
proof -
  let ?xs = "[Construct 1, Construct 2, Construct 3, MoveAssign 1 3, Swap 2 1, Destroy 3, Destroy 2, Destroy 1]"
  obtain s where s: "joining_run (\<lambda>t. True) ?xs no_threads = Some (Goes s)" "\<forall>h. handles s h = None" "started s = 3"
    by (simp add: no_threads_def joinable_def start_thread_def joining_assign_def join_if_joinable_def join_def move_assign_def
        take_over_def joining_swap_def tmp_handle_def Let_def)
  from joining_threads_are_joined [OF s(1)] s(2,3)
  have "distinct (joined_threads s)" "set (joined_threads s) = {..<3}" by simp_all
  with s(1) show ?thesis by blast
qed

text \<open>\<open>swap\<close> leaves the argument without a thread: it does not exchange.\<close>

lemma swap_does_not_exchange:
  assumes "handles s 1 = Some u" "handles s 2 = Some v" "handles s tmp_handle = None" "ends u"
  shows "\<exists>t. joining_swap ends tmp_handle 1 2 s = Goes t \<and> handles t 1 = Some v \<and> handles t 2 = None"
  using assms by (simp add: joining_swap_def take_over_def join_if_joinable_def joinable_def join_def tmp_handle_def Let_def)

section \<open>Sums in blocks\<close>

text \<open>
  \<open>parallel_accumulate\<close> gives each thread a block and a place for its result, which starts with the
  value 0; the blocks are those of \<open>ParAlgo\<close>. The threads write different places, so they do not
  affect each other. The class \<open>accumulate_block\<close> is not in the repository: \<open>block\<close> stands for its
  call on the elements of a block and the former result.
\<close>

definition parallel_accumulate :: "('a::monoid_add list \<Rightarrow> 'a \<Rightarrow> 'a) \<Rightarrow> nat \<Rightarrow> 'a list \<Rightarrow> 'a \<Rightarrow> 'a" where
  "parallel_accumulate block hardware_threads xs init =
     (if xs = [] then init
      else let results = map (\<lambda>(s, e). block (take (e - s) (drop s xs)) 0) (blocks hardware_threads (length xs)) in
        foldl (+) init results)"

lemma foldl_plus: "foldl (+) a xs = a + sum_list (xs :: 'a::monoid_add list)"
  by (induction xs arbitrary: a) (simp_all add: add.assoc)

lemma blocks_sum:
  "tiles a b bs \<Longrightarrow> b \<le> length xs \<Longrightarrow>
     sum_list (map (\<lambda>(s, e). sum_list (take (e - s) (drop s xs))) bs) = sum_list (take (b - a) (drop a (xs :: 'a::monoid_add list)))"
proof (induction a b bs rule: tiles.induct)
  case (2 a b s e bs)
  then have t: "s = a" "a \<le> e" "e \<le> b" "tiles e b bs" by (auto dest: tiles_le)
  have "b - a = (e - a) + (b - e)" using t by simp
  then have "take (b - a) (drop a xs) = take (e - a) (drop a xs) @ take (b - e) (drop e xs)"
    using t(2) by (simp only: take_add drop_drop) (simp add: add.commute)
  then show ?case using 2 t by simp
qed simp

text \<open>
  If each block is summed, \<open>parallel_accumulate\<close> gives the sum of the sequential
  \<open>std::accumulate\<close>, whatever the number of threads; this needs only that the addition is associative.
\<close>

theorem parallel_accumulate_sums:
  assumes "\<And>ys r. block ys r = foldl (+) r ys"
  shows "parallel_accumulate block hw xs init = foldl (+) init (xs :: 'a::monoid_add list)"
proof (cases "xs = []")
  case False
  have "(\<lambda>(s, e). block (take (e - s) (drop s xs)) 0) = (\<lambda>(s, e). sum_list (take (e - s) (drop s xs)))"
    by (simp add: assms foldl_plus)
  then show ?thesis
    using False blocks_sum [OF blocks_tile [of "length xs" hw], of xs] by (simp add: parallel_accumulate_def foldl_plus Let_def)
qed (simp add: parallel_accumulate_def)

section \<open>A future that waits for its own lock\<close>

text \<open>
  \<open>DeadLock\<close> of day09: the caller holds the mutex while the destructor of the future waits for the
  task, which takes the mutex. The places of the two threads.
\<close>

datatype caller_pc = CLock | CAsync | CWait | CUnlock | CDone
datatype task_pc = NoTask | TLock | TWork | TUnlock | TDone

record future_deadlock =
  fd_caller :: caller_pc
  fd_task :: task_pc
  fd_mutex :: "bool option"    \<comment> \<open>held by the caller (\<open>True\<close>) or the task\<close>

definition DeadLock :: future_deadlock where
  "DeadLock = \<lparr>fd_caller = CLock, fd_task = NoTask, fd_mutex = None\<rparr>"

fun fd_exec :: "bool \<Rightarrow> future_deadlock \<Rightarrow> future_deadlock option" where
  "fd_exec True s =
     (case fd_caller s of
        CLock \<Rightarrow> if fd_mutex s = None then Some (s\<lparr>fd_caller := CAsync, fd_mutex := Some True\<rparr>) else None
      | CAsync \<Rightarrow> Some (s\<lparr>fd_caller := CWait, fd_task := TLock\<rparr>)
      | CWait \<Rightarrow> if fd_task s = TDone then Some (s\<lparr>fd_caller := CUnlock\<rparr>) else None
      | CUnlock \<Rightarrow> Some (s\<lparr>fd_caller := CDone, fd_mutex := None\<rparr>)
      | CDone \<Rightarrow> None)"
| "fd_exec False s =
     (case fd_task s of
        NoTask \<Rightarrow> None
      | TLock \<Rightarrow> if fd_mutex s = None then Some (s\<lparr>fd_task := TWork, fd_mutex := Some False\<rparr>) else None
      | TWork \<Rightarrow> Some (s\<lparr>fd_task := TUnlock\<rparr>)
      | TUnlock \<Rightarrow> Some (s\<lparr>fd_task := TDone, fd_mutex := None\<rparr>)
      | TDone \<Rightarrow> None)"

text \<open>It is stuck after two steps, in the only run there is.\<close>

lemma DeadLock_always:
  assumes "run fd_exec es DeadLock = Some s"
  shows "length es \<le> 2 \<and> fd_caller s \<noteq> CDone \<and> (length es = 2 \<longrightarrow> (\<forall>e. fd_exec e s = None))"
proof -
  consider "es = []" | e where "es = [e]" | e f where "es = [e, f]" | e f g r where "es = e # f # g # r"
    by (metis list.exhaust)
  then show ?thesis
  proof cases
    case 4
    then show ?thesis using assms by (cases e; cases f; cases g; simp add: DeadLock_def)
  next
    case 3
    have a: "fd_exec b s = None" if "fd_exec True s = None" "fd_exec False s = None" for b s using that by (cases b) simp_all
    show ?thesis using 3 assms by (cases e; cases f; force simp: DeadLock_def intro: a)
  next
    case 2
    then show ?thesis using assms by (cases e; auto simp: DeadLock_def)
  qed (use assms in \<open>auto simp: DeadLock_def\<close>)
qed

end
