(* ===== verification/StackRace.thy ===== *)
theory StackRace
  imports Prelude
begin

text \<open>
  The stacks of \<open>day02-lockmutex.cpp\<close>. Each operation holds the mutex, so it is one step; what goes
  wrong with \<open>threadsafe_stack1\<close> lies between its operations: a thread pops because \<open>empty\<close> has
  answered no.
\<close>

section \<open>Operations\<close>

text \<open>A stack is a list, its top first. \<open>pop\<close> of \<open>threadsafe_stack1\<close> takes \<open>top\<close> without a test.\<close>

definition stack1_push :: "'a \<Rightarrow> 'a list \<Rightarrow> 'a list" where
  "stack1_push x st = x # st"

definition stack1_pop :: "'a list \<Rightarrow> ('a \<times> 'a list) res" where
  "stack1_pop st = (case st of [] \<Rightarrow> Inl EmptyContainer | x # xs \<Rightarrow> Inr (x, xs))"

definition stack1_empty :: "'a list \<Rightarrow> bool" where
  "stack1_empty st \<longleftrightarrow> st = []"

text \<open>\<open>threadsafe_stack\<close>: one \<open>pop\<close> returns a null pointer, the other throws, when there is nothing.\<close>

definition stack_pop :: "'a list \<Rightarrow> 'a option \<times> 'a list" where
  "stack_pop st = (case st of [] \<Rightarrow> (None, []) | x # xs \<Rightarrow> (Some x, xs))"

definition stack_pop_to :: "'a list \<Rightarrow> ('a \<times> 'a list) res" where
  "stack_pop_to st = (case st of [] \<Rightarrow> Inl EmptyStack | x # xs \<Rightarrow> Inr (x, xs))"

lemma stack_pops_agree:
  "stack_pop_to st = (case stack_pop st of (None, _) \<Rightarrow> Inl EmptyStack | (Some x, xs) \<Rightarrow> Inr (x, xs))"
  by (simp add: stack_pop_def stack_pop_to_def split: list.split)

section \<open>Test, then pop\<close>

text \<open>Threads as those of \<open>test_threadsafe_stack1\<close>, any number of them, on a stack of any size.\<close>

datatype tester = ToTest | ToPop | Over bool    \<comment> \<open>over, with a value or without\<close>

record race =
  rc_stack :: "nat list"
  rc_threads :: "tester list"
  rc_fault :: "cpp_error option"

definition test_threadsafe_stack1 :: "nat list \<Rightarrow> nat \<Rightarrow> race" where
  "test_threadsafe_stack1 st n = \<lparr>rc_stack = st, rc_threads = replicate n ToTest, rc_fault = None\<rparr>"

definition set_tester :: "nat \<Rightarrow> tester \<Rightarrow> race \<Rightarrow> race" where
  "set_tester i p s = s\<lparr>rc_threads := (rc_threads s)[i := p]\<rparr>"

definition race_step :: "nat \<Rightarrow> race \<Rightarrow> race option" where
  "race_step i s =
     (if i < length (rc_threads s) \<and> rc_fault s = None then
        (case rc_threads s ! i of
           ToTest \<Rightarrow> Some (set_tester i (if stack1_empty (rc_stack s) then Over False else ToPop) s)
         | ToPop \<Rightarrow> (case stack1_pop (rc_stack s) of
              Inl e \<Rightarrow> Some (s\<lparr>rc_fault := Some e\<rparr>)
            | Inr (x, st) \<Rightarrow> Some (set_tester i (Over True) (s\<lparr>rc_stack := st\<rparr>)))
         | Over b \<Rightarrow> None)
      else None)"

definition popped :: "tester list \<Rightarrow> nat" where
  "popped ts = length (filter (\<lambda>p. p = Over True) ts)"

text \<open>
  What was popped is missing from the stack; a fault, or a thread that has seen the stack empty,
  needs an empty stack and one more thread than values.
\<close>

definition race_inv :: "nat list \<Rightarrow> nat \<Rightarrow> race \<Rightarrow> bool" where
  "race_inv st n s \<longleftrightarrow> length (rc_threads s) = n \<and> length (rc_stack s) + popped (rc_threads s) = length st \<and>
     (rc_fault s \<noteq> None \<longrightarrow> length st < n) \<and> (st = [] \<longrightarrow> rc_fault s = None \<and> ToPop \<notin> set (rc_threads s))"

lemma popped_update:
  "i < length ts \<Longrightarrow> ts ! i \<noteq> Over True \<Longrightarrow> popped (ts[i := p]) = popped ts + (if p = Over True then 1 else 0)"
  by (induction ts arbitrary: i) (auto simp: popped_def nth_Cons split: nat.splits)

lemma popped_less: "i < length ts \<Longrightarrow> ts ! i \<noteq> Over True \<Longrightarrow> popped ts < length ts"
  unfolding popped_def by (rule length_filter_less [of "ts ! i"]) simp_all

lemma race_inv_exec: "race_inv st n s \<Longrightarrow> race_step i s = Some t \<Longrightarrow> race_inv st n t"
proof -
  assume v: "race_inv st n s" and e: "race_step i s = Some t"
  then have i: "i < length (rc_threads s)" "rc_fault s = None" by (auto simp: race_step_def split: if_splits)
  show ?thesis
  proof (cases "rc_threads s ! i")
    case ToTest
    have "t = set_tester i (if stack1_empty (rc_stack s) then Over False else ToPop) s"
      using e i ToTest by (simp add: race_step_def)
    moreover have "st = [] \<Longrightarrow> rc_stack s = []" using v by (simp add: race_inv_def)
    ultimately show ?thesis using v i ToTest set_update_subset_insert [of "rc_threads s" i]
      by (auto simp: race_inv_def set_tester_def popped_update stack1_empty_def)
  next
    case ToPop
    have ne: "st \<noteq> []" using v i ToPop nth_mem [OF i(1)] by (auto simp: race_inv_def)
    show ?thesis
    proof (cases "rc_stack s")
      case Nil
      then have "t = s\<lparr>rc_fault := Some EmptyContainer\<rparr>" using e i ToPop by (simp add: race_step_def stack1_pop_def)
      moreover have "popped (rc_threads s) < length (rc_threads s)" by (rule popped_less [OF i(1)]) (simp add: ToPop)
      ultimately show ?thesis using v Nil ne by (simp add: race_inv_def)
    next
      case (Cons x xs)
      then have "t = set_tester i (Over True) (s\<lparr>rc_stack := xs\<rparr>)" using e i ToPop by (simp add: race_step_def stack1_pop_def)
      then show ?thesis using v Cons i ne ToPop by (simp add: race_inv_def set_tester_def popped_update)
    qed
  next
    case (Over b)
    then show ?thesis using e by (simp add: race_step_def split: if_splits)
  qed
qed

interpretation race: inv_machine race_step "race_inv st n" for st n
  by unfold_locales (rule race_inv_exec)

text \<open>All threads test, then they pop one after another.\<close>

lemma all_test:
  assumes "st \<noteq> []" "k \<le> n"
  shows "run race_step [0..<k] (test_threadsafe_stack1 st n) =
    Some \<lparr>rc_stack = st, rc_threads = replicate k ToPop @ replicate (n - k) ToTest, rc_fault = None\<rparr>"
  using assms(2)
proof (induction k)
  case 0
  then show ?case by (simp add: test_threadsafe_stack1_def)
next
  case (Suc k)
  have r: "replicate (n - k) ToTest = ToTest # replicate (n - Suc k) ToTest"
    using Suc.prems by (metis Suc_diff_Suc Suc_le_lessD replicate_Suc)
  have "race_step k \<lparr>rc_stack = st, rc_threads = replicate k ToPop @ replicate (n - k) ToTest, rc_fault = None\<rparr> =
      Some \<lparr>rc_stack = st, rc_threads = replicate (Suc k) ToPop @ replicate (n - Suc k) ToTest, rc_fault = None\<rparr>"
    using assms(1) Suc.prems
    by (simp add: race_step_def set_tester_def stack1_empty_def nth_append list_update_append r replicate_append_same)
  then show ?case using Suc by (simp add: run_append)
qed

lemma all_pop:
  assumes "k \<le> length st" "length st \<le> n"
  shows "run race_step [0..<k] \<lparr>rc_stack = st, rc_threads = replicate n ToPop, rc_fault = None\<rparr> =
    Some \<lparr>rc_stack = drop k st, rc_threads = replicate k (Over True) @ replicate (n - k) ToPop, rc_fault = None\<rparr>"
  using assms(1)
proof (induction k)
  case (Suc k)
  have r: "replicate (n - k) ToPop = ToPop # replicate (n - Suc k) ToPop"
    using Suc.prems assms(2) by (metis Suc_diff_Suc Suc_le_lessD le_trans replicate_Suc)
  have d: "drop k st = st ! k # drop (Suc k) st" using Suc.prems by (simp add: Cons_nth_drop_Suc)
  have "race_step k \<lparr>rc_stack = drop k st, rc_threads = replicate k (Over True) @ replicate (n - k) ToPop, rc_fault = None\<rparr> =
      Some \<lparr>rc_stack = drop (Suc k) st, rc_threads = replicate (Suc k) (Over True) @ replicate (n - Suc k) ToPop, rc_fault = None\<rparr>"
    using Suc.prems assms(2)
    by (simp add: race_step_def set_tester_def stack1_pop_def nth_append list_update_append r d replicate_append_same)
  then show ?case using Suc by (simp add: run_append)
qed simp

text \<open>
  C34. \<open>n\<close> threads that each test the stack and then pop can pop an empty stack exactly if the stack had
  at least one value and fewer values than there are threads.
\<close>

theorem check_then_pop_faults:
  "(\<exists>es s. run race_step es (test_threadsafe_stack1 st n) = Some s \<and> rc_fault s = Some EmptyContainer) \<longleftrightarrow>
   st \<noteq> [] \<and> length st < n"
proof
  assume "\<exists>es s. run race_step es (test_threadsafe_stack1 st n) = Some s \<and> rc_fault s = Some EmptyContainer"
  then obtain es s where s: "run race_step es (test_threadsafe_stack1 st n) = Some s" "rc_fault s = Some EmptyContainer" by blast
  have "race_inv st n (test_threadsafe_stack1 st n)"
    by (auto simp: race_inv_def test_threadsafe_stack1_def popped_def)
  from race.run_inv [OF this s(1)] s(2) show "st \<noteq> [] \<and> length st < n" by (auto simp: race_inv_def)
next
  assume a: "st \<noteq> [] \<and> length st < n"
  let ?k = "length st"
  have "run race_step [0..<n] (test_threadsafe_stack1 st n) = Some \<lparr>rc_stack = st, rc_threads = replicate n ToPop, rc_fault = None\<rparr>"
    using all_test [of st n n] a by simp
  moreover have "run race_step [0..<?k] \<lparr>rc_stack = st, rc_threads = replicate n ToPop, rc_fault = None\<rparr> =
      Some \<lparr>rc_stack = [], rc_threads = replicate ?k (Over True) @ replicate (n - ?k) ToPop, rc_fault = None\<rparr>"
    using all_pop [of ?k st n] a by simp
  moreover have "race_step ?k \<lparr>rc_stack = [], rc_threads = replicate ?k (Over True) @ replicate (n - ?k) ToPop, rc_fault = None\<rparr> =
      Some \<lparr>rc_stack = [], rc_threads = replicate ?k (Over True) @ replicate (n - ?k) ToPop, rc_fault = Some EmptyContainer\<rparr>"
    using a by (simp add: race_step_def stack1_pop_def nth_append)
  ultimately have "run race_step ([0..<n] @ [0..<?k] @ [?k]) (test_threadsafe_stack1 st n) =
      Some \<lparr>rc_stack = [], rc_threads = replicate ?k (Over True) @ replicate (n - ?k) ToPop, rc_fault = Some EmptyContainer\<rparr>"
    by (simp add: run_append)
  then show "\<exists>es s. run race_step es (test_threadsafe_stack1 st n) = Some s \<and> rc_fault s = Some EmptyContainer" by force
qed

end
