(* ===== verification/AsyncClient.thy ===== *)
theory AsyncClient
  imports Server
begin

text \<open>
  The client of \<open>src/Network/asyncClient/src/asyncClient.cpp\<close>, which sends a message with id 1001 and
  reads the reply, and its exchange with the asynchronous server: from the bytes of the client through
  the session, the logic worker and its callback back to the client.
\<close>

section \<open>The client\<close>

text \<open>
  The message is put together in a buffer of \<open>MAX_LENGTH\<close> bytes, the request behind its id and length.
  The id and the length are converted to network order in variables wider than the two bytes that
  are copied, the low ones on a little-endian machine. \<open>asio::buffer\<close> of an array never exceeds it.
\<close>

definition client_message :: "byte list \<Rightarrow> byte list res" where
  "client_message request =
     (let send_data = replicate (nat MAX_LENGTH) 0;
          req_len = int (length request);
          msgid_net = swap16 1001;
          req_len_net = swap16 (req_len mod 65536) in
      rbind (memcpy send_data 0 (short_bytes msgid_net) 0 2) (\<lambda>d1.
      rbind (memcpy d1 2 (short_bytes req_len_net) 0 2) (\<lambda>d2.
      rbind (memcpy d2 4 request 0 req_len) (\<lambda>d3.
      Inr (take (min (nat MAX_LENGTH) (length request + 4)) d3)))))"

text \<open>\<open>boost::asio::read\<close> of \<open>n\<close> bytes from the stream, which waits when there are fewer.\<close>

definition blocking_read :: "nat \<Rightarrow> byte list \<Rightarrow> (byte list \<times> byte list) option" where
  "blocking_read n stream = (if n \<le> length stream then Some (take n stream, drop n stream) else None)"

definition client_receive :: "byte list \<Rightarrow> ((int \<times> byte list) \<times> byte list) option" where
  "client_receive stream =
     (case blocking_read (nat HEAD_TOTAL_LEN) stream of None \<Rightarrow> None
      | Some (reply_head, s1) \<Rightarrow>
          let reply_msgid_host = to_short (swap16 (load_short reply_head));
              reply_msglen_host = to_short (swap16 (load_short (drop 2 reply_head))) in
          (case blocking_read (min (nat MAX_LENGTH) (usize reply_msglen_host)) s1 of None \<Rightarrow> None
           | Some (reply_msg, s2) \<Rightarrow> Some ((reply_msgid_host, reply_msg), s2)))"

lemma client_message_wire:
  assumes "length request \<le> 2044"
  shows "client_message request = Inr (encode 1001 request)"
proof -
  have l: "length (short_bytes x) = 2" for x by simp
  have i: "short_bytes (swap16 (int (length request) mod 65536)) = be16 (int (length request))" "short_bytes (swap16 1001) = be16 1001"
    by (simp_all add: short_bytes_swap16)
  show ?thesis
    using assms unfolding client_message_def Let_def i tlv_consts
    by (simp add: memcpy_def rbind_def encode_def min_def)
qed

text \<open>A request that does not fit overruns the buffer.\<close>

lemma client_message_overrun: "2044 < length request \<Longrightarrow> client_message request = Inl OutOfBounds"
  by (simp add: client_message_def Let_def tlv_consts memcpy_def rbind_def)

lemma client_receive_encode:
  assumes "- 32768 \<le> mid" "mid \<le> 32767" "length body \<le> 2048"
  shows "client_receive (encode mid body @ rest) = Some ((mid, body), rest)"
proof -
  have h: "load_short (be16 x @ r) = load_short (be16 x)" for x r by (simp add: load_short_def be16_def)
  have a: "to_short (swap16 (load_short (be16 mid @ be16 (int (length body))))) = mid"
    "to_short (swap16 (load_short (be16 (int (length body))))) = int (length body)"
    using assms load_swap_be16 [of mid] load_swap_be16 [of "int (length body)" "[]"] by (simp_all add: to_short_id)
  have t: "take 4 (encode mid body @ rest) = be16 mid @ be16 (int (length body))"
    "drop 4 (encode mid body @ rest) = body @ rest" "drop 2 (be16 mid @ be16 (int (length body))) = be16 (int (length body))"
    by (simp_all add: encode_def)
  have m: "min (nat MAX_LENGTH) (usize (int (length body))) = length body"
    using assms(3) by (simp add: usize_def tlv_consts min_def)
  have n: "nat HEAD_TOTAL_LEN = 4" by (simp add: HEAD_TOTAL_LEN_def)
  show ?thesis
    unfolding client_receive_def blocking_read_def n Let_def by (simp add: t a m del: drop_append take_append) simp
qed

section \<open>The exchange\<close>

lemma header_cuts_stream:
  "header_cuts h plan \<Longrightarrow> h @ concat (map fst plan) = concat (map enc (concat (map snd plan)))"
proof (induction plan arbitrary: h)
  case (Cons x plan)
  obtain bs ms where x: "x = (bs, ms)" by fastforce
  let ?w = "concat (map enc ms)"
  have c: "h @ bs = ?w @ drop (length ?w) (h @ bs)" "header_cuts (drop (length ?w) (h @ bs)) plan"
    using Cons.prems by (simp_all add: x Let_def)
  have "h @ concat (map fst (x # plan)) = (h @ bs) @ concat (map fst plan)" by (simp add: x)
  also have "\<dots> = ?w @ drop (length ?w) (h @ bs) @ concat (map fst plan)" using c(1) by (metis append.assoc)
  also have "\<dots> = ?w @ concat (map enc (concat (map snd plan)))" using Cons.IH [OF c(2)] by simp
  finally show ?case by (simp add: x)
qed simp

text \<open>What the callback answers to a request.\<close>

definition hello_reply :: "'j json \<Rightarrow> byte list \<Rightarrow> byte list" where
  "hello_reply js request =
     (let root = parse js request in
      styled js (set_str js ''data'' (ascii ''server has receive msg, msg data is '' @ get_str js ''data'' root) root))"

lemma callback_sends:
  assumes "send_que c = []" "length (hello_reply js request) \<le> 2044"
  shows "\<exists>c3 mid. HelloWordCallBack js ex 1001 request c = Inr c3 \<and> - 32768 \<le> mid \<and> mid \<le> 32767 \<and>
    writes (acts c3) = writes (acts c) @ [encode mid (hello_reply js request)]"
proof -
  define mid where "mid = to_short (get_int js ''id'' (set_str js ''data''
    (ascii ''server has receive msg, msg data is '' @ get_str js ''data'' (parse js request)) (parse js request)))"
  have m: "- 32768 \<le> mid" "mid \<le> 32767" unfolding mid_def to_short_def by simp_all
  let ?r = "hello_reply js request"
  have "to_short (int (length ?r)) = int (length ?r)" using assms(2) by (simp add: to_short_id)
  moreover have "HelloWordCallBack js ex 1001 request c = Send_string ex ?r mid c"
    by (simp add: HelloWordCallBack_def hello_reply_def mid_def Let_def)
  ultimately show ?thesis
    using assms SendNode_ok [of "length ?r" "?r @ [0]" mid] m
    by (auto simp: Send_string_def Send_def tlv_consts Let_def node_wire_def encode_def nat_add_distrib)
qed


text \<open>A JSON library for a run: a value is its \<open>data\<close>, the id is always 1001.\<close>

definition flat_json :: "byte list json" where
  "flat_json = \<lparr>parse = \<lambda>x. x, get_int = \<lambda>k j. 1001, get_str = \<lambda>k j. j, set_str = \<lambda>k x j. x, styled = \<lambda>j. j\<rparr>"


end
