(* ===== verification/ProdCons.thy ===== *)
theory ProdCons
  imports Prelude
begin

text \<open>
  \<open>ProductConsumerMgr\<close> of \<open>src/Concurrent/day24-TroubleShoot/deadlock.h\<close>: a producer and a consumer with
  a queue, a mutex and two condition variables, and the flag \<open>b_stop\<close> that the handler of the console
  sets without the mutex.
\<close>

section \<open>State\<close>

text \<open>The two threads have the same places; \<open>True\<close> is the producer.\<close>

datatype pc_place =
    WCheck      \<comment> \<open>\<open>while (!b_stop)\<close>\<close>
  | WLock
  | WTest       \<comment> \<open>holds the mutex, before the predicate\<close>
  | WToSleep    \<comment> \<open>holds the mutex, the predicate was false\<close>
  | WAsleep
  | WWoken      \<comment> \<open>takes the mutex again\<close>
  | WAct        \<comment> \<open>holds the mutex, the predicate was true\<close>
  | WUnlock
  | WNotify
  | WExit

datatype mgr_main = MgrRuns | NotifyConsumer | NotifyProducer | JoinProducer | JoinConsumer | MgrGone

record prod_cons =
  b_stop :: bool
  mgr_mutex :: "bool option"
  data_que :: "nat list"
  last_data :: nat
  consumed :: "nat list"
  mgr_place :: "bool \<Rightarrow> pc_place"
  mgr_main :: mgr_main
  mgr_fault :: "cpp_error option"

definition ProductConsumerMgr :: prod_cons where
  "ProductConsumerMgr = \<lparr>b_stop = False, mgr_mutex = None, data_que = [], last_data = 0, consumed = [],
     mgr_place = \<lambda>b. WCheck, mgr_main = MgrRuns, mgr_fault = None\<rparr>"

definition mgr_go :: "bool \<Rightarrow> pc_place \<Rightarrow> prod_cons \<Rightarrow> prod_cons" where
  "mgr_go b p s = s\<lparr>mgr_place := (mgr_place s)(b := p)\<rparr>"

section \<open>Steps\<close>

text \<open>The predicates of the two waits.\<close>

definition has_work :: "bool \<Rightarrow> nat list \<Rightarrow> bool" where
  "has_work b q \<longleftrightarrow> (if b then length q \<le> 100 else q \<noteq> [])"

definition wait_over :: "bool \<Rightarrow> prod_cons \<Rightarrow> bool" where
  "wait_over b s \<longleftrightarrow> b_stop s \<or> has_work b (data_que s)"

definition notify_place :: "bool \<Rightarrow> prod_cons \<Rightarrow> prod_cons" where
  "notify_place b s = (if mgr_place s b = WAsleep then mgr_go b WWoken s else s)"

definition produce_or_consume :: "bool \<Rightarrow> prod_cons \<Rightarrow> prod_cons" where
  "produce_or_consume b s =
     (if b then s\<lparr>data_que := data_que s @ [last_data s + 1], last_data := last_data s + 1\<rparr>
      else case data_que s of
          [] \<Rightarrow> s\<lparr>mgr_fault := Some EmptyContainer\<rparr>
        | x # q \<Rightarrow> s\<lparr>data_que := q, consumed := consumed s @ [x]\<rparr>)"

definition mgr_step :: "bool \<Rightarrow> prod_cons \<Rightarrow> prod_cons option" where
  "mgr_step b s =
     (case mgr_place s b of
        WCheck \<Rightarrow> Some (mgr_go b (if b_stop s then WExit else WLock) s)
      | WLock \<Rightarrow> if mgr_mutex s = None then Some (mgr_go b WTest (s\<lparr>mgr_mutex := Some b\<rparr>)) else None
      | WTest \<Rightarrow> Some (mgr_go b (if wait_over b s then WAct else WToSleep) s)
      | WToSleep \<Rightarrow> Some (mgr_go b WAsleep (s\<lparr>mgr_mutex := None\<rparr>))
      | WAsleep \<Rightarrow> None
      | WWoken \<Rightarrow> if mgr_mutex s = None then Some (mgr_go b WTest (s\<lparr>mgr_mutex := Some b\<rparr>)) else None
      | WAct \<Rightarrow> Some (if b_stop s then mgr_go b WExit (s\<lparr>mgr_mutex := None\<rparr>) else mgr_go b WUnlock (produce_or_consume b s))
      | WUnlock \<Rightarrow> Some (mgr_go b WNotify (s\<lparr>mgr_mutex := None\<rparr>))
      | WNotify \<Rightarrow> Some (mgr_go b WCheck (notify_place (\<not> b) s))
      | WExit \<Rightarrow> None)"

text \<open>\<open>TestProducerConsumer\<close> waits for the flag; then the destructor notifies and joins.\<close>

definition mgr_destructor :: "prod_cons \<Rightarrow> prod_cons option" where
  "mgr_destructor s =
     (case mgr_main s of
        MgrRuns \<Rightarrow> if b_stop s then Some (s\<lparr>mgr_main := NotifyConsumer\<rparr>) else None
      | NotifyConsumer \<Rightarrow> Some ((notify_place False s)\<lparr>mgr_main := NotifyProducer\<rparr>)
      | NotifyProducer \<Rightarrow> Some ((notify_place True s)\<lparr>mgr_main := JoinProducer\<rparr>)
      | JoinProducer \<Rightarrow> if mgr_place s True = WExit then Some (s\<lparr>mgr_main := JoinConsumer\<rparr>) else None
      | JoinConsumer \<Rightarrow> if mgr_place s False = WExit then Some (s\<lparr>mgr_main := MgrGone\<rparr>) else None
      | MgrGone \<Rightarrow> None)"

datatype mgr_event = MgrStep bool | SpuriousWake bool | CtrlHandler | MgrMain

fun mgr_exec :: "mgr_event \<Rightarrow> prod_cons \<Rightarrow> prod_cons option" where
  "mgr_exec (MgrStep b) s = mgr_step b s"
| "mgr_exec (SpuriousWake b) s = (if mgr_place s b = WAsleep then Some (mgr_go b WWoken s) else None)"
| "mgr_exec CtrlHandler s = Some (s\<lparr>b_stop := True\<rparr>)"
| "mgr_exec MgrMain s = mgr_destructor s"

section \<open>The invariant\<close>

text \<open>
  Before the stop a sleeping thread that has work will be notified by the other one, which has acted
  and has not yet notified.
\<close>

definition place_inv :: "bool \<Rightarrow> prod_cons \<Rightarrow> bool" where
  "place_inv b s \<longleftrightarrow>
     (mgr_mutex s = Some b \<longleftrightarrow> mgr_place s b \<in> {WTest, WToSleep, WAct, WUnlock}) \<and>
     (b_stop s \<or>
       (mgr_place s b = WAct \<longrightarrow> has_work b (data_que s)) \<and>
       (mgr_place s b = WToSleep \<longrightarrow> \<not> has_work b (data_que s)) \<and>
       (mgr_place s b = WAsleep \<longrightarrow> has_work b (data_que s) \<longrightarrow> mgr_place s (\<not> b) \<in> {WUnlock, WNotify}) \<and>
       mgr_place s b \<noteq> WExit)"

definition numbers :: "nat \<Rightarrow> nat list" where
  "numbers n = [1..<Suc n]"

lemma numbers_Suc: "numbers (Suc n) = numbers n @ [Suc n]"
  by (simp add: numbers_def)

definition mgr_inv :: "prod_cons \<Rightarrow> bool" where
  "mgr_inv s \<longleftrightarrow> consumed s @ data_que s = numbers (last_data s) \<and> length (data_que s) \<le> 101 \<and> mgr_fault s = None \<and>
     place_inv True s \<and> place_inv False s"

lemma mgr_inv_sides: "mgr_inv s \<longleftrightarrow> consumed s @ data_que s = numbers (last_data s) \<and> length (data_que s) \<le> 101 \<and>
    mgr_fault s = None \<and> place_inv b s \<and> place_inv (\<not> b) s"
  by (cases b) (auto simp: mgr_inv_def)

lemma act_keeps:
  assumes "consumed s @ data_que s = numbers (last_data s)" "length (data_que s) \<le> 101" "has_work b (data_que s)" "mgr_fault s = None"
  shows "let t = produce_or_consume b s in consumed t @ data_que t = numbers (last_data t) \<and> length (data_que t) \<le> 101 \<and>
    mgr_fault t = None \<and> mgr_place t = mgr_place s \<and> mgr_mutex t = mgr_mutex s \<and> b_stop t = b_stop s"
  using assms by (cases b) (auto simp: produce_or_consume_def has_work_def Let_def numbers_Suc split: list.splits)

lemma place_inv_other: "mgr_inv s \<Longrightarrow> place_inv b s"
  by (cases b) (simp_all add: mgr_inv_def)

text \<open>A step that changes the place of one thread and the mutex only.\<close>

lemma inv_move:
  assumes v: "mgr_inv s"
    and m: "m = Some b \<longleftrightarrow> p \<in> {WTest, WToSleep, WAct, WUnlock}" "m = Some (\<not> b) \<longleftrightarrow> mgr_mutex s = Some (\<not> b)"
    and p: "b_stop s \<or> (p = WAct \<longrightarrow> has_work b (data_que s)) \<and> (p = WToSleep \<longrightarrow> \<not> has_work b (data_que s)) \<and>
      (p = WAsleep \<longrightarrow> has_work b (data_que s) \<longrightarrow> mgr_place s (\<not> b) \<in> {WUnlock, WNotify}) \<and> p \<noteq> WExit"
    and o: "mgr_place s b \<in> {WUnlock, WNotify} \<Longrightarrow> p \<in> {WUnlock, WNotify} \<or> mgr_place s (\<not> b) \<noteq> WAsleep"
  shows "mgr_inv (mgr_go b p (s\<lparr>mgr_mutex := m\<rparr>))" (is "mgr_inv ?t")
proof -
  have t: "mgr_place ?t b = p" "mgr_place ?t (\<not> b) = mgr_place s (\<not> b)" "mgr_mutex ?t = m" "b_stop ?t = b_stop s" "data_que ?t = data_que s"
    by (simp_all add: mgr_go_def)
  have "place_inv b ?t" unfolding place_inv_def t using m(1) p by blast
  moreover have "place_inv (\<not> b) ?t"
    using place_inv_other [OF v, of "\<not> b"] m(2) o unfolding place_inv_def t not_not by blast
  ultimately show ?thesis using v unfolding mgr_inv_sides [of ?t b] by (simp add: mgr_inv_def mgr_go_def)
qed

lemma mgr_inv_wake:
  assumes v: "mgr_inv s"
  shows "mgr_place s b = WAsleep \<Longrightarrow> mgr_inv (mgr_go b WWoken s)" "mgr_inv (notify_place b s)"
proof -
  have w: "mgr_inv (mgr_go b WWoken s)" if a: "mgr_place s b = WAsleep"
  proof -
    have "mgr_mutex s \<noteq> Some b" using place_inv_other [OF v, of b] a unfolding place_inv_def by simp
    then have "mgr_inv (mgr_go b WWoken (s\<lparr>mgr_mutex := mgr_mutex s\<rparr>))"
      by (intro inv_move [OF v]) (simp_all add: a)
    then show ?thesis by simp
  qed
  then show "mgr_place s b = WAsleep \<Longrightarrow> mgr_inv (mgr_go b WWoken s)" .
  show "mgr_inv (notify_place b s)" using w v by (simp add: notify_place_def)
qed

lemma mgr_inv_step:
  assumes v: "mgr_inv s" and st: "mgr_step b s = Some t"
  shows "mgr_inv t"
proof -
  note pb = place_inv_other [OF v, of b, unfolded place_inv_def] and po = place_inv_other [OF v, of "\<not> b", unfolded place_inv_def]
  have same: "s\<lparr>mgr_mutex := mgr_mutex s\<rparr> = s" by simp
  show ?thesis
  proof (cases "mgr_place s b")
    case WCheck
    then have t: "t = mgr_go b (if b_stop s then WExit else WLock) (s\<lparr>mgr_mutex := mgr_mutex s\<rparr>)" using st by (simp add: mgr_step_def)
    have "mgr_mutex s \<noteq> Some b" using pb WCheck by simp
    then show ?thesis unfolding t by (intro inv_move [OF v]) (simp_all add: WCheck)
  next
    case WLock
    then have t: "t = mgr_go b WTest (s\<lparr>mgr_mutex := Some b\<rparr>)" "mgr_mutex s = None" using st by (auto simp: mgr_step_def split: if_splits)
    show ?thesis unfolding t(1) by (intro inv_move [OF v]) (simp_all add: WLock t(2))
  next
    case WWoken
    then have t: "t = mgr_go b WTest (s\<lparr>mgr_mutex := Some b\<rparr>)" "mgr_mutex s = None" using st by (auto simp: mgr_step_def split: if_splits)
    show ?thesis unfolding t(1) by (intro inv_move [OF v]) (simp_all add: WWoken t(2))
  next
    case WTest
    have m: "mgr_mutex s = Some b" using pb WTest by simp
    have t: "t = mgr_go b (if wait_over b s then WAct else WToSleep) (s\<lparr>mgr_mutex := mgr_mutex s\<rparr>)" using st WTest by (simp add: mgr_step_def)
    show ?thesis unfolding t by (intro inv_move [OF v]) (simp_all add: WTest m wait_over_def)
  next
    case WToSleep
    have m: "mgr_mutex s = Some b" using pb WToSleep by simp
    have t: "t = mgr_go b WAsleep (s\<lparr>mgr_mutex := None\<rparr>)" using st WToSleep by (simp add: mgr_step_def)
    show ?thesis unfolding t using pb by (intro inv_move [OF v]) (auto simp: WToSleep m)
  next
    case WAsleep
    then show ?thesis using st by (simp add: mgr_step_def)
  next
    case WUnlock
    have m: "mgr_mutex s = Some b" using pb WUnlock by simp
    have t: "t = mgr_go b WNotify (s\<lparr>mgr_mutex := None\<rparr>)" using st WUnlock by (simp add: mgr_step_def)
    show ?thesis unfolding t by (intro inv_move [OF v]) (simp_all add: WUnlock m)
  next
    case WNotify
    define u where "u = notify_place (\<not> b) s"
    have u: "mgr_inv u" "mgr_place u (\<not> b) \<noteq> WAsleep" "mgr_mutex u = mgr_mutex s" "b_stop u = b_stop s"
      using mgr_inv_wake(2) [OF v] by (simp_all add: u_def notify_place_def mgr_go_def)
    have m: "mgr_mutex s \<noteq> Some b" using pb WNotify by simp
    have t: "t = mgr_go b WCheck (u\<lparr>mgr_mutex := mgr_mutex u\<rparr>)" using st WNotify by (simp add: mgr_step_def u_def)
    show ?thesis unfolding t by (intro inv_move [OF u(1)]) (use m u in simp_all)
  next
    case WExit
    then show ?thesis using st by (simp add: mgr_step_def)
  next
    case WAct
    have m: "mgr_mutex s = Some b" using pb WAct by simp
    show ?thesis
    proof (cases "b_stop s")
      case True
      then have t: "t = mgr_go b WExit (s\<lparr>mgr_mutex := None\<rparr>)" using st WAct by (simp add: mgr_step_def)
      show ?thesis unfolding t by (intro inv_move [OF v]) (simp_all add: WAct m True)
    next
      case False
      define u where "u = produce_or_consume b s"
      have t: "t = mgr_go b WUnlock u" using st WAct False by (simp add: mgr_step_def u_def)
      have "has_work b (data_que s)" using pb WAct False by simp
      then have u: "consumed u @ data_que u = numbers (last_data u)" "length (data_que u) \<le> 101" "mgr_fault u = None"
          "mgr_place u = mgr_place s" "mgr_mutex u = mgr_mutex s" "b_stop u = b_stop s"
        using act_keeps [of s b] v unfolding mgr_inv_def u_def Let_def by auto
      have q: "mgr_mutex t = Some b" "mgr_place t b = WUnlock" "mgr_place t (\<not> b) = mgr_place s (\<not> b)" "b_stop t = b_stop s"
        using u(4-6) m by (simp_all add: t mgr_go_def)
      have o: "mgr_place s (\<not> b) \<notin> {WTest, WToSleep, WAct, WUnlock}" using po m by simp
      have "place_inv b t" unfolding place_inv_def q by simp
      moreover have "place_inv (\<not> b) t" using po False o unfolding place_inv_def not_not q by simp
      ultimately show ?thesis using u(1-3) unfolding mgr_inv_sides [of t b] by (simp add: t mgr_go_def)
    qed
  qed
qed

lemma mgr_inv_flags:
  "mgr_inv s \<Longrightarrow> mgr_inv (s\<lparr>b_stop := True\<rparr>)" "mgr_inv (s\<lparr>mgr_main := m\<rparr>) = mgr_inv s"
  by (simp_all add: mgr_inv_def place_inv_def)

lemma mgr_inv_exec: "mgr_inv s \<Longrightarrow> mgr_exec e s = Some t \<Longrightarrow> mgr_inv t"
proof (cases e)
  case (SpuriousWake b)
  assume "mgr_inv s" "mgr_exec e s = Some t"
  then show ?thesis using SpuriousWake mgr_inv_wake by (auto split: if_splits)
next
  case MgrMain
  assume "mgr_inv s" "mgr_exec e s = Some t"
  then show ?thesis using MgrMain mgr_inv_wake by (auto simp: mgr_destructor_def mgr_inv_flags split: mgr_main.splits if_splits)
qed (use mgr_inv_step mgr_inv_flags in auto)

interpretation mgr: inv_machine mgr_exec mgr_inv
  by unfold_locales (rule mgr_inv_exec)

lemma mgr_not_stuck:
  assumes v: "mgr_inv s" and n: "\<not> b_stop s"
  shows "\<exists>b. mgr_step b s \<noteq> None"
proof (cases "mgr_mutex s")
  case (Some b)
  then have "mgr_place s b \<in> {WTest, WToSleep, WAct, WUnlock}" using v unfolding mgr_inv_sides [of _ b] place_inv_def by simp
  then show ?thesis by (intro exI [of _ b]) (auto simp: mgr_step_def)
next
  case None
  have "mgr_place s True \<noteq> WAsleep \<or> mgr_place s False \<noteq> WAsleep"
  proof (rule ccontr)
    assume "\<not> ?thesis"
    then have a: "mgr_place s True = WAsleep" "mgr_place s False = WAsleep" by simp_all
    have "\<not> has_work b (data_que s)" for b
      using v n a by (cases b) (auto simp: mgr_inv_def place_inv_def)
    from this [of True] this [of False] show False by (simp add: has_work_def)
  qed
  moreover have "mgr_step b s \<noteq> None" if "mgr_place s b \<noteq> WAsleep" for b
  proof -
    have "place_inv b s" using v by (cases b) (simp_all add: mgr_inv_def)
    then have "mgr_place s b \<noteq> WExit" using n by (simp add: place_inv_def)
    then show ?thesis using that None by (cases "mgr_place s b") (simp_all add: mgr_step_def)
  qed
  ultimately show ?thesis by blast
qed

text \<open>
  C38. In every run the consumer gets the numbers 1, 2, 3 and so on, each once and in order, the queue
  never holds more than 101 and is never read empty; and until the stop one of the two threads can
  always go on, spurious wake-ups not counted.
\<close>

theorem producer_consumer_correct:
  assumes "run mgr_exec es ProductConsumerMgr = Some s"
  shows "consumed s @ data_que s = numbers (last_data s) \<and> length (data_que s) \<le> 101 \<and> mgr_fault s = None \<and>
    (\<not> b_stop s \<longrightarrow> (\<exists>b. mgr_exec (MgrStep b) s \<noteq> None))"
proof -
  have "mgr_inv ProductConsumerMgr" by (simp add: mgr_inv_def place_inv_def ProductConsumerMgr_def numbers_def has_work_def)
  from mgr.run_inv [OF this assms] have v: "mgr_inv s" .
  then show ?thesis using mgr_not_stuck [OF v] by (simp add: mgr_inv_def)
qed

lemma producer_consumer_correct_witness:
  "\<exists>s. run mgr_exec (map MgrStep [False, False, False, False, True, True, True, True, True, True, False, False, False]) ProductConsumerMgr = Some s \<and>
     consumed s @ data_que s = [1] \<and> consumed s \<noteq> []"
proof -
  obtain s where s: "run mgr_exec (map MgrStep [False, False, False, False, True, True, True, True, True, True, False, False, False]) ProductConsumerMgr = Some s"
      "last_data s = 1" "consumed s \<noteq> []"
    by (simp add: ProductConsumerMgr_def mgr_step_def mgr_go_def wait_over_def has_work_def produce_or_consume_def notify_place_def)
  from producer_consumer_correct [OF s(1)] s(2) have "consumed s @ data_que s = [1]" by (simp add: numbers_def)
  with s(1,3) show ?thesis by blast
qed

text \<open>
  The stop can be missed: the flag is set and the destructor notifies between the test of the consumer
  and its sleep, and the join waits for ever.
\<close>

lemma mgr_stop_missed:
  "\<exists>es s. run mgr_exec es ProductConsumerMgr = Some s \<and> mgr_main s = JoinConsumer \<and> mgr_place s False = WAsleep \<and>
     (\<forall>b. mgr_exec (MgrStep b) s = None) \<and> mgr_exec MgrMain s = None"
proof -
  let ?es = "[MgrStep False, MgrStep False, MgrStep False, CtrlHandler, MgrMain, MgrMain, MgrMain, MgrStep False, MgrStep True, MgrMain]"
  obtain s where s: "run mgr_exec ?es ProductConsumerMgr = Some s" "mgr_main s = JoinConsumer" "mgr_place s False = WAsleep"
      "mgr_place s True = WExit"
    by (simp add: ProductConsumerMgr_def mgr_step_def mgr_go_def wait_over_def has_work_def notify_place_def mgr_destructor_def)
  have "mgr_exec (MgrStep b) s = None" for b using s(3,4) by (cases b) (simp_all add: mgr_step_def)
  moreover have "mgr_exec MgrMain s = None" using s(2,3) by (simp add: mgr_destructor_def)
  ultimately show ?thesis using s by blast
qed

end
