(* ===== verification/Lifetimes.thy ===== *)
theory Lifetimes
  imports Prelude
begin

text \<open>
  The lifetimes in \<open>src/Concurrent/day24-TroubleShoot/deadlock.cpp\<close>: tasks that refer to objects of the
  loop that made them, and copies of a class that owns memory.
\<close>

section \<open>Objects that own an int\<close>

text \<open>
  An object of the class \<open>task_data\<close> is a number with the address of the \<open>int\<close> it owns. Addresses and
  numbers are not used again, so what is gone can be told from what is there.
\<close>

record store =
  ints :: "nat \<Rightarrow> int option"
  next_int :: nat
  objects :: "nat \<Rightarrow> nat option"
  next_object :: nat
  owners :: "nat \<Rightarrow> nat"         \<comment> \<open>of the objects made by \<open>make_shared\<close>\<close>

definition empty_store :: store where
  "empty_store = \<lparr>ints = Map.empty, next_int = 0, objects = Map.empty, next_object = 0, owners = \<lambda>k. 0\<rparr>"

definition task_data :: "int \<Rightarrow> store \<Rightarrow> nat \<times> store" where
  "task_data i s = (next_object s,
     s\<lparr>ints := (ints s)(next_int s \<mapsto> i), next_int := next_int s + 1,
       objects := (objects s)(next_object s \<mapsto> next_int s), next_object := next_object s + 1\<rparr>)"

definition delete_int :: "nat \<Rightarrow> store \<Rightarrow> store res" where
  "delete_int p s = (if ints s p = None then Inl DoubleDelete else Inr (s\<lparr>ints := (ints s)(p := None)\<rparr>))"

definition destruct :: "nat \<Rightarrow> store \<Rightarrow> store res" where
  "destruct k s = (case objects s k of None \<Rightarrow> Inl UseAfterFree
     | Some p \<Rightarrow> rbind (delete_int p s) (\<lambda>t. Inr (t\<lparr>objects := (objects t)(k := None)\<rparr>)))"

text \<open>\<open>(*data._data)++\<close>, with the value that is printed.\<close>

definition increment :: "nat \<Rightarrow> store \<Rightarrow> (int \<times> store) res" where
  "increment k s = (case objects s k of None \<Rightarrow> Inl UseAfterFree
     | Some p \<Rightarrow> (case ints s p of None \<Rightarrow> Inl UseAfterFree
         | Some x \<Rightarrow> Inr (x + 1, s\<lparr>ints := (ints s)(p \<mapsto> x + 1)\<rparr>)))"

section \<open>Tasks that outlive their objects\<close>

text \<open>
  The loop of \<open>reference_invalid\<close> makes an object, stores a task that refers to it, and destroys the
  object at the end of its body. Then the tasks run. The number of rounds is 10 in the code.
\<close>

fun make_references :: "nat \<Rightarrow> store \<Rightarrow> nat list \<Rightarrow> (store \<times> nat list) res" where
  "make_references 0 s que = Inr (s, que)"
| "make_references (Suc n) s que =
     rbind (make_references n s que) (\<lambda>(s1, que1).
       let (k, s2) = task_data (int n) s1 in
       rbind (destruct k s2) (\<lambda>s3. Inr (s3, que1 @ [k])))"

fun run_tasks :: "nat list \<Rightarrow> store \<Rightarrow> int list \<Rightarrow> (int list \<times> store) res" where
  "run_tasks [] s out = Inr (out, s)"
| "run_tasks (k # que) s out = rbind (increment k s) (\<lambda>(x, t). run_tasks que t (out @ [x]))"

definition reference_invalid :: "nat \<Rightarrow> (int list \<times> store) res" where
  "reference_invalid n = rbind (make_references n empty_store []) (\<lambda>(s, que). run_tasks que s [])"

lemma make_references_gone:
  "\<exists>s. make_references n empty_store [] = Inr (s, [0..<n]) \<and> objects s = Map.empty \<and> ints s = Map.empty \<and> next_object s = n"
proof (induction n)
  case 0
  then show ?case by (simp add: empty_store_def)
next
  case (Suc n)
  then obtain s where "make_references n empty_store [] = Inr (s, [0..<n])" "objects s = Map.empty" "ints s = Map.empty" "next_object s = n"
    by blast
  then show ?case by (simp add: task_data_def destruct_def delete_int_def Let_def rbind_def)
qed

text \<open>
  \<open>reference_sharedptr\<close>: the task holds an owner of the object. When the body ends the variable of the
  loop is no owner any more; when a task is popped its owner goes, and with the last one the object.
\<close>

definition make_shared :: "int \<Rightarrow> store \<Rightarrow> nat \<times> store" where
  "make_shared i s = (let (k, t) = task_data i s in (k, t\<lparr>owners := (owners t)(k := 1)\<rparr>))"

definition copy_ptr :: "nat \<Rightarrow> store \<Rightarrow> store" where
  "copy_ptr k s = s\<lparr>owners := (owners s)(k := owners s k + 1)\<rparr>"

definition drop_ptr :: "nat \<Rightarrow> store \<Rightarrow> store res" where
  "drop_ptr k s =
     (let t = s\<lparr>owners := (owners s)(k := owners s k - 1)\<rparr> in if owners t k = 0 then destruct k t else Inr t)"

fun make_shared_tasks :: "nat \<Rightarrow> store \<Rightarrow> nat list \<Rightarrow> (store \<times> nat list) res" where
  "make_shared_tasks 0 s que = Inr (s, que)"
| "make_shared_tasks (Suc n) s que =
     rbind (make_shared_tasks n s que) (\<lambda>(s1, que1).
       let (k, s2) = make_shared (int n) s1 in
       rbind (drop_ptr k (copy_ptr k s2)) (\<lambda>s3. Inr (s3, que1 @ [k])))"

fun run_shared_tasks :: "nat list \<Rightarrow> store \<Rightarrow> int list \<Rightarrow> (int list \<times> store) res" where
  "run_shared_tasks [] s out = Inr (out, s)"
| "run_shared_tasks (k # que) s out =
     rbind (increment k s) (\<lambda>(x, t). rbind (drop_ptr k t) (\<lambda>u. run_shared_tasks que u (out @ [x])))"

definition reference_sharedptr :: "nat \<Rightarrow> (int list \<times> store) res" where
  "reference_sharedptr n = rbind (make_shared_tasks n empty_store []) (\<lambda>(s, que). run_shared_tasks que s [])"

text \<open>Object \<open>k\<close> owns the address \<open>k\<close>, which holds \<open>k\<close>, for the objects from \<open>m\<close> to \<open>n\<close>.\<close>

definition holds_range :: "nat \<Rightarrow> nat \<Rightarrow> store \<Rightarrow> bool" where
  "holds_range m n s \<longleftrightarrow> next_object s = n \<and> next_int s = n \<and>
     (\<forall>k. objects s k = (if m \<le> k \<and> k < n then Some k else None)) \<and>
     (\<forall>k. ints s k = (if m \<le> k \<and> k < n then Some (int k) else None)) \<and>
     (\<forall>k. m \<le> k \<and> k < n \<longrightarrow> owners s k = 1)"

lemma make_shared_holds:
  "\<exists>s. make_shared_tasks n empty_store [] = Inr (s, [0..<n]) \<and> holds_range 0 n s"
proof (induction n)
  case 0
  then show ?case by (simp add: empty_store_def holds_range_def)
next
  case (Suc n)
  then obtain s where s: "make_shared_tasks n empty_store [] = Inr (s, [0..<n])" "holds_range 0 n s" by blast
  then have "\<exists>t. make_shared_tasks (Suc n) empty_store [] = Inr (t, [0..<n] @ [n]) \<and> holds_range 0 (Suc n) t"
    by (auto simp: make_shared_def task_data_def copy_ptr_def drop_ptr_def Let_def rbind_def holds_range_def less_Suc_eq)
  then show ?case by simp
qed

lemma run_shared:
  "m \<le> n \<Longrightarrow> holds_range m n s \<Longrightarrow>
     \<exists>t. run_shared_tasks [m..<n] s out = Inr (out @ map (\<lambda>k. int k + 1) [m..<n], t) \<and> objects t = Map.empty \<and> ints t = Map.empty"
proof (induction "n - m" arbitrary: m s out)
  case 0
  then have "m = n" by simp
  then show ?case using 0 by (auto simp: holds_range_def)
next
  case (Suc d)
  then have m: "m < n" by simp
  define t where "t = s\<lparr>ints := (ints s)(m \<mapsto> int m + 1)\<rparr>"
  define u where "u = t\<lparr>owners := (owners t)(m := 0), ints := (ints t)(m := None), objects := (objects t)(m := None)\<rparr>"
  have i: "increment m s = Inr (int m + 1, t)" using Suc.prems(2) m by (simp add: increment_def holds_range_def t_def)
  have d: "drop_ptr m t = Inr u"
    using Suc.prems(2) m by (simp add: drop_ptr_def holds_range_def t_def u_def destruct_def delete_int_def Let_def rbind_def)
  have "holds_range (Suc m) n u" using Suc.prems(2) m by (auto simp: holds_range_def t_def u_def)
  moreover have "d = n - Suc m" using Suc.hyps(2) by simp
  ultimately obtain v where v: "run_shared_tasks [Suc m..<n] u (out @ [int m + 1]) =
      Inr ((out @ [int m + 1]) @ map (\<lambda>k. int k + 1) [Suc m..<n], v)" "objects v = Map.empty" "ints v = Map.empty"
    using Suc.hyps(1) [of "Suc m" u "out @ [int m + 1]"] m by auto
  have "[m..<n] = m # [Suc m..<n]" using m by (rule upt_conv_Cons)
  then show ?case using i d v by (simp add: rbind_def)
qed

text \<open>
  C40. With references the first task that runs reads an object that is gone, for any number of tasks;
  with shared pointers the tasks print 1, 2, 3 and so on, and each object and its memory are freed
  exactly once, when its task is popped.
\<close>

theorem shared_tasks_keep_objects:
  "(reference_invalid (Suc n) = Inl UseAfterFree) \<and>
   (\<exists>s. reference_sharedptr n = Inr (map (\<lambda>k. int k + 1) [0..<n], s) \<and> objects s = Map.empty \<and> ints s = Map.empty)"
proof
  obtain s where s: "make_references (Suc n) empty_store [] = Inr (s, [0..<Suc n])" "objects s = Map.empty"
    using make_references_gone by blast
  have "[0..<Suc n] = 0 # [1..<Suc n]" by (simp add: upt_conv_Cons)
  then show "reference_invalid (Suc n) = Inl UseAfterFree"
    unfolding reference_invalid_def s(1) using s(2) by (simp add: rbind_def increment_def)
  obtain t where "make_shared_tasks n empty_store [] = Inr (t, [0..<n])" "holds_range 0 n t"
    using make_shared_holds by blast
  then show "\<exists>s. reference_sharedptr n = Inr (map (\<lambda>k. int k + 1) [0..<n], s) \<and> objects s = Map.empty \<and> ints s = Map.empty"
    using run_shared [of 0 n t "[]"] by (auto simp: reference_sharedptr_def rbind_def)
qed

section \<open>Copies\<close>

text \<open>
  The class declares a destructor and no copy, so a copy, also one from \<open>std::move\<close>, takes the address;
  the class of \<open>normal_copy\<close> allocates. A return of a local variable may be without a copy.
\<close>

definition shallow :: "nat \<Rightarrow> store \<Rightarrow> (nat \<times> store) res" where
  "shallow k s = (case objects s k of None \<Rightarrow> Inl UseAfterFree
     | Some p \<Rightarrow> Inr (next_object s, s\<lparr>objects := (objects s)(next_object s \<mapsto> p), next_object := next_object s + 1\<rparr>))"

definition deep :: "nat \<Rightarrow> store \<Rightarrow> (nat \<times> store) res" where
  "deep k s = (case objects s k of None \<Rightarrow> Inl UseAfterFree
     | Some p \<Rightarrow> (case ints s p of None \<Rightarrow> Inl UseAfterFree | Some x \<Rightarrow> Inr (task_data x s)))"

definition shallow_copy :: "store \<Rightarrow> store res" where
  "shallow_copy s =
     (let (data1, s1) = task_data 1 s in
      rbind (shallow data1 s1) (\<lambda>(data2, s2).
      rbind (destruct data2 s2) (\<lambda>s3. destruct data1 s3)))"

definition returned :: "(nat \<Rightarrow> store \<Rightarrow> (nat \<times> store) res) \<Rightarrow> bool \<Rightarrow> store \<Rightarrow> store res" where
  "returned copy elided s =
     (let (local, s1) = task_data 100 s in
      if elided then destruct local s1
      else rbind (copy local s1) (\<lambda>(result, s2). rbind (destruct local s2) (\<lambda>s3. destruct result s3)))"

definition shallow_copy2 :: "bool \<Rightarrow> store \<Rightarrow> store res" where
  "shallow_copy2 = returned shallow"

definition normal_copy :: "bool \<Rightarrow> store \<Rightarrow> store res" where
  "normal_copy = returned deep"

lemma shallow_copy_deletes_twice: "shallow_copy empty_store = Inl DoubleDelete"
  by (simp add: shallow_copy_def shallow_def task_data_def destruct_def delete_int_def empty_store_def rbind_def Let_def)

text \<open>Only the elision of the copy saves \<open>shallow_copy2\<close>; a copy that allocates needs no elision.\<close>

lemma copies_of_owners:
  "(\<exists>s. shallow_copy2 elided empty_store = Inr s) \<longleftrightarrow> elided"
  "\<exists>s. normal_copy elided empty_store = Inr s \<and> ints s = Map.empty \<and> objects s = Map.empty"
  by (cases elided; simp add: shallow_copy2_def normal_copy_def returned_def shallow_def deep_def task_data_def destruct_def
      delete_int_def empty_store_def rbind_def Let_def)+

end
