(* ===== verification/Futures.thy ===== *)
theory Futures
  imports Prelude
begin

text \<open>
  Promises and futures: \<open>src/Concurrent/day06-FutureAndPromise/day06-FutureAndPromise.cpp\<close> and the
  futures of \<open>src/Concurrent/day09-QASummary/day09-QASummary.cpp\<close>. Each program has one shared state, a
  thread 1 that satisfies it, and threads that read it; the main thread is 0.
\<close>

section \<open>The shared state\<close>

datatype 'a fut_outcome = Value 'a | Exception string | BrokenPromise | NoState

datatype 'a fut_op =
    SetValue 'a
  | SetException string
  | DropPromise        \<comment> \<open>the promise, or the packaged task, is destroyed\<close>
  | Start nat
  | Pass bool nat      \<comment> \<open>the future is an argument of the thread: moved, or copied\<close>
  | Get                \<comment> \<open>what is thrown is caught and printed\<close>
  | Wait
  | DropFuture bool    \<comment> \<open>of \<open>std::async\<close>, or not\<close>
  | JoinThread nat

record 'a futures =
  ops :: "nat \<Rightarrow> 'a fut_op list"     \<comment> \<open>what a thread has still to do\<close>
  started :: "nat set"
  result :: "'a fut_outcome option"
  valid :: "nat \<Rightarrow> bool"             \<comment> \<open>the future of a thread refers to the state\<close>
  is_shared :: bool                  \<comment> \<open>a \<open>shared_future\<close>\<close>
  seen :: "nat \<Rightarrow> 'a fut_outcome option" \<comment> \<open>what \<open>get\<close> returned or threw\<close>
  satisfied_twice :: bool

definition satisfy :: "'a fut_outcome \<Rightarrow> 'a futures \<Rightarrow> 'a futures" where
  "satisfy r s = (if result s = None then s\<lparr>result := Some r\<rparr> else s\<lparr>satisfied_twice := True\<rparr>)"

fun op_step :: "nat \<Rightarrow> 'a fut_op \<Rightarrow> 'a futures \<Rightarrow> 'a futures option" where
  "op_step i (SetValue v) s = Some (satisfy (Value v) s)"
| "op_step i (SetException e) s = Some (satisfy (Exception e) s)"
| "op_step i DropPromise s = Some (if result s = None then s\<lparr>result := Some BrokenPromise\<rparr> else s)"
| "op_step i (Start j) s = Some (s\<lparr>started := insert j (started s)\<rparr>)"
| "op_step i (Pass moved j) s = Some (s\<lparr>valid := (valid s)(j := valid s i, i := valid s i \<and> \<not> moved)\<rparr>)"
| "op_step i Get s =
     (if \<not> valid s i then Some (s\<lparr>seen := (seen s)(i \<mapsto> NoState)\<rparr>)
      else case result s of None \<Rightarrow> None
        | Some r \<Rightarrow> Some (s\<lparr>seen := (seen s)(i \<mapsto> r), valid := (valid s)(i := is_shared s)\<rparr>))"
| "op_step i Wait s = (if result s = None then None else Some s)"
| "op_step i (DropFuture of_async) s =
     (if of_async \<and> ops s 1 \<noteq> [] then None else Some (s\<lparr>valid := (valid s)(i := False)\<rparr>))"
| "op_step i (JoinThread j) s = (if ops s j = [] then Some s else None)"

text \<open>A step of a thread; what a \<open>JoinThread\<close> or a destructor looks at is another thread.\<close>

definition fut_exec :: "nat \<Rightarrow> 'a futures \<Rightarrow> 'a futures option" where
  "fut_exec i s =
     (if i \<notin> started s then None
      else case ops s i of [] \<Rightarrow> None
        | x # xs \<Rightarrow> op_step i x (s\<lparr>ops := (ops s)(i := xs)\<rparr>))"

definition make_futures :: "bool \<Rightarrow> (nat \<Rightarrow> 'a fut_op list) \<Rightarrow> 'a futures" where
  "make_futures sh p = \<lparr>ops = p, started = {0}, result = None, valid = (\<lambda>i. i = 0), is_shared = sh,
     seen = Map.empty, satisfied_twice = False\<rparr>"

section \<open>The programs\<close>

text \<open>The threads that satisfy a promise: \<open>set_value\<close>, \<open>set_exception\<close>, \<open>myFunction\<close>, and a task.\<close>

definition set_value :: "int fut_op list" where
  "set_value = [SetValue 10, DropPromise]"

definition set_exception :: "'a fut_op list" where
  "set_exception = [SetException ''An error occurred!'', DropPromise]"

definition myFunction :: "int fut_op list" where
  "myFunction = [SetValue 42, DropPromise]"

definition task :: "'a \<Rightarrow> 'a fut_op list" where
  "task v = [SetValue v, DropPromise]"

definition fetchDataFromDB :: "string \<Rightarrow> string" where
  "fetchDataFromDB query = ''Data: '' @ query"

text \<open>A program of the main thread and thread 1, with a \<open>future\<close>.\<close>

definition two_threads :: "'a fut_op list \<Rightarrow> 'a fut_op list \<Rightarrow> 'a futures" where
  "two_threads main setter = make_futures False ((\<lambda>i. [])(0 := Start 1 # main, 1 := setter))"

definition use_async :: "string futures" where
  "use_async = two_threads [Get, DropFuture True] (task (fetchDataFromDB ''Data''))"

definition use_package :: "int futures" where
  "use_package = two_threads [Get, DropFuture False] (task 42)"

definition use_promise :: "int futures" where
  "use_promise = two_threads [Get, JoinThread 1, DropFuture False] set_value"

definition use_promise_exception :: "unit futures" where
  "use_promise_exception = two_threads [Get, JoinThread 1, DropFuture False] set_exception"

text \<open>The promise is moved into the thread, so the end of its block destroys an empty one.\<close>

definition use_promise_destruct :: "int futures" where
  "use_promise_destruct = two_threads [Get, JoinThread 1, DropFuture False] set_value"

definition first_method :: "int futures" where
  "first_method = two_threads [Get, DropFuture True] (task 0)"

definition BlockAsync :: "unit futures" where
  "BlockAsync = two_threads [DropFuture True] (task ())"

definition TestParallen1 :: "unit futures" where
  "TestParallen1 = two_threads [DropFuture False] (task ())"

definition TestParallen2 :: "unit futures" where
  "TestParallen2 = two_threads [Wait, DropFuture False] (task ())"

text \<open>
  The main thread of \<open>use_shared_future\<close> passes the future to one thread after the other: a copy in
  \<open>use_shared_future\<close>, with \<open>std::move\<close> in \<open>use_shared_future_error\<close>.
\<close>

fun pass_all :: "nat \<Rightarrow> bool list \<Rightarrow> 'a fut_op list" where
  "pass_all j [] = []"
| "pass_all j (moved # ms) = Pass moved j # Start j # pass_all (j + 1) ms"

definition shared_readers :: "'a fut_op list \<Rightarrow> bool list \<Rightarrow> 'a futures" where
  "shared_readers setter ms = make_futures True (\<lambda>i.
     if i = 0 then Start 1 # pass_all 2 ms @ map JoinThread [1..<length ms + 2]
     else if i = 1 then setter
     else if i < length ms + 2 then [Get] else [])"

definition use_shared_future :: "int futures" where
  "use_shared_future = shared_readers myFunction [False, False]"

definition use_shared_future_error :: "int futures" where
  "use_shared_future_error = shared_readers myFunction [True, True]"

section \<open>Runs are bounded\<close>

lemma op_step_ops: "op_step i x s = Some t \<Longrightarrow> ops t = ops s"
  by (cases x) (auto simp: satisfy_def split: if_splits option.splits)

lemma fut_exec_ops:
  "fut_exec i s = Some t \<Longrightarrow> i \<in> started s \<and> ops s i \<noteq> [] \<and> ops t = (ops s)(i := tl (ops s i))"
  by (auto simp: fut_exec_def split: if_splits list.splits dest: op_step_ops)

lemma fut_run_bounded:
  assumes "run fut_exec es s = Some t" and "finite A" and "\<And>i. ops s i \<noteq> [] \<Longrightarrow> i \<in> A"
  shows "length es + (\<Sum>i\<in>A. length (ops t i)) = (\<Sum>i\<in>A. length (ops s i))"
  using assms
proof (induction es arbitrary: s)
  case Nil
  then show ?case by simp
next
  case (Cons e es)
  then obtain u where u: "fut_exec e s = Some u" "run fut_exec es u = Some t" by (auto split: option.splits)
  note o = fut_exec_ops [OF u(1)]
  have e: "e \<in> A" using o Cons.prems(3) by blast
  have "ops s i \<noteq> []" if "ops u i \<noteq> []" for i using that o by (cases "i = e") auto
  then have ih: "length es + (\<Sum>i\<in>A. length (ops t i)) = (\<Sum>i\<in>A. length (ops u i))"
    using Cons.IH [OF u(2)] Cons.prems by blast
  have "(\<Sum>i\<in>A. length (ops s i)) = length (ops s e) + (\<Sum>i\<in>A - {e}. length (ops s i))"
    using e Cons.prems(2) by (simp add: sum.remove)
  also have "(\<Sum>i\<in>A - {e}. length (ops s i)) = (\<Sum>i\<in>A - {e}. length (ops u i))"
    using o by (intro sum.cong) auto
  also have "length (ops s e) = Suc (length (ops u e))" using o by simp
  finally have "(\<Sum>i\<in>A. length (ops s i)) = Suc (\<Sum>i\<in>A. length (ops u i))"
    using e Cons.prems(2) by (simp add: sum.remove)
  then show ?case using ih by simp
qed

section \<open>The thread that satisfies the state\<close>

definition sets :: "'a fut_op list \<Rightarrow> 'a fut_outcome \<Rightarrow> bool" where
  "sets body r \<longleftrightarrow> (\<exists>v. body = [SetValue v, DropPromise] \<and> r = Value v) \<or>
     (\<exists>e. body = [SetException e, DropPromise] \<and> r = Exception e) \<or> body = [DropPromise] \<and> r = BrokenPromise"

lemma sets_bodies:
  "sets set_value (Value 10)" "sets set_exception (Exception ''An error occurred!'')" "sets myFunction (Value 42)"
  "sets (task v) (Value v)"
  by (simp_all add: sets_def set_value_def set_exception_def myFunction_def task_def)

definition setter_inv :: "'a fut_op list \<Rightarrow> 'a fut_outcome \<Rightarrow> 'a futures \<Rightarrow> bool" where
  "setter_inv body r s \<longleftrightarrow> \<not> satisfied_twice s \<and>
     (ops s 1 = body \<and> result s = None \<or> (ops s 1 = [DropPromise] \<or> ops s 1 = []) \<and> result s = Some r)"

lemma setter_step:
  assumes "sets body r" "setter_inv body r s" "fut_exec 1 s = Some t"
  shows "setter_inv body r t \<and> started t = started s \<and> valid t = valid s \<and> seen t = seen s \<and> is_shared t = is_shared s \<and> result t = Some r"
  using assms by (auto simp: sets_def setter_inv_def fut_exec_def satisfy_def split: if_splits)

lemma setter_can_step:
  assumes "sets body r" "setter_inv body r s" "1 \<in> started s" "fut_exec 1 s = None"
  shows "ops s 1 = [] \<and> result s = Some r"
  using assms by (auto simp: sets_def setter_inv_def fut_exec_def satisfy_def split: if_splits)

section \<open>Programs with one reader\<close>

definition tail_op :: "'a fut_op \<Rightarrow> bool" where
  "tail_op x \<longleftrightarrow> x = JoinThread 1 \<or> x = DropFuture True \<or> x = DropFuture False"

definition pair_inv :: "'a fut_op list \<Rightarrow> 'a fut_outcome \<Rightarrow> 'a fut_op list \<Rightarrow> 'a futures \<Rightarrow> bool" where
  "pair_inv body r rest s \<longleftrightarrow> setter_inv body r s \<and> (\<forall>i. 1 < i \<longrightarrow> ops s i = []) \<and>
     (ops s 0 = Start 1 # Get # rest \<and> started s = {0} \<and> seen s 0 = None \<and> valid s 0 \<or>
      ops s 0 = Get # rest \<and> started s = {0, 1} \<and> seen s 0 = None \<and> valid s 0 \<or>
      list_all tail_op (ops s 0) \<and> started s = {0, 1} \<and> seen s 0 = Some r)"

lemmas pair_place = pair_inv_def [THEN iffD1, THEN conjunct2, THEN conjunct2]

lemma pair_inv_step:
  assumes b: "sets body r" "list_all tail_op rest" and v: "pair_inv body r rest s" and e: "fut_exec i s = Some t"
  shows "pair_inv body r rest t"
proof -
  have "\<not> 1 < i" using v fut_exec_ops [OF e] unfolding pair_inv_def by blast
  then have i: "i = 0 \<or> i = 1" by linarith
  show ?thesis
  proof (cases "i = 1")
    case True
    have "setter_inv body r s" using v by (simp add: pair_inv_def)
    note st = setter_step [OF b(1) this e [unfolded True]] and o = fut_exec_ops [OF e [unfolded True]]
    have "ops t 0 = ops s 0" "\<forall>i>1. ops t i = ops s i" using o by simp_all
    then show ?thesis using v st unfolding pair_inv_def by simp
  next
    case False
    then have z: "i = 0" using i by simp
    have s: "setter_inv body r s" using v by (simp add: pair_inv_def)
    consider "ops s 0 = Start 1 # Get # rest" "started s = {0}" "seen s 0 = None" "valid s 0"
      | "ops s 0 = Get # rest" "started s = {0, 1}" "seen s 0 = None" "valid s 0"
      | "list_all tail_op (ops s 0)" "started s = {0, 1}" "seen s 0 = Some r"
      using pair_place [OF v] by argo
    then show ?thesis
    proof cases
      case 1
      then have "t = s\<lparr>ops := (ops s)(0 := Get # rest), started := {1, 0}\<rparr>" using e by (simp add: z fut_exec_def)
      then show ?thesis using v 1 unfolding pair_inv_def setter_inv_def by (simp add: insert_commute)
    next
      case 2
      obtain x where "result s = Some x" using e 2 by (auto simp: z fut_exec_def split: option.splits)
      then have x: "result s = Some r" using s by (auto simp: setter_inv_def)
      then have "t = s\<lparr>ops := (ops s)(0 := rest), seen := (seen s)(0 \<mapsto> r), valid := (valid s)(0 := is_shared s)\<rparr>"
        using e 2 by (simp add: z fut_exec_def)
      then show ?thesis using v 2 b(2) by (auto simp: pair_inv_def setter_inv_def)
    next
      case 3
      obtain x xs where xs: "ops s 0 = x # xs" "tail_op x" "list_all tail_op xs"
        using 3(1) fut_exec_ops [OF e] z by (cases "ops s 0") auto
      then have "ops t = (ops s)(0 := xs) \<and> started t = started s \<and> seen t = seen s \<and> result t = result s \<and> satisfied_twice t = satisfied_twice s"
        using e by (auto simp: z fut_exec_def tail_op_def split: if_splits)
      then show ?thesis using v 3 xs by (auto simp: pair_inv_def setter_inv_def)
    qed
  qed
qed

lemma pair_not_stuck:
  assumes b: "sets body r" and v: "pair_inv body r rest s" and n: "\<forall>i. fut_exec i s = None"
  shows "ops s 0 = [] \<and> ops s 1 = [] \<and> seen s 0 = Some r"
proof -
  have s: "setter_inv body r s" using v by (simp add: pair_inv_def)
  have n0: "fut_exec 0 s = None" and n1: "fut_exec 1 s = None" using n by simp_all
  consider "ops s 0 = Start 1 # Get # rest" "started s = {0}"
    | "ops s 0 = Get # rest" "started s = {0, 1}" "valid s 0"
    | "list_all tail_op (ops s 0)" "started s = {0, 1}" "seen s 0 = Some r"
    using pair_place [OF v] by argo
  then show ?thesis
  proof cases
    case 1
    then show ?thesis using n0 by (simp add: fut_exec_def)
  next
    case 2
    then show ?thesis using n0 setter_can_step [OF b s _ n1] by (simp add: fut_exec_def)
  next
    case 3
    have d: "ops s 1 = []" using setter_can_step [OF b s _ n1] 3(2) by simp
    have "ops s 0 = []"
    proof (cases "ops s 0")
      case (Cons x xs)
      then have "tail_op x" using 3(1) by simp
      then have "fut_exec 0 s \<noteq> None" using Cons 3(2) d unfolding tail_op_def by (elim disjE) (simp_all add: fut_exec_def)
      then show ?thesis using n0 by blast
    qed
    then show ?thesis using d 3(3) by simp
  qed
qed

interpretation pair: inv_machine fut_exec "\<lambda>s. sets body r \<and> list_all tail_op rest \<and> pair_inv body r rest s" for body r rest
  by unfold_locales (blast intro: pair_inv_step)

lemma two_threads_ops: "ops (two_threads m b) i \<noteq> [] \<Longrightarrow> i \<in> {0, 1}"
  by (auto simp: two_threads_def make_futures_def split: if_splits)

text \<open>
  A future: whatever is done with the promise, a value, an exception or nothing, is what the one
  \<open>get\<close> of the future returns or throws, in every run of a program that reads the future and then joins
  the thread or drops the future. No run is longer than the program, and none is stuck before its end.
\<close>

theorem promise_reaches_future:
  assumes "sets body r" and "list_all tail_op rest" and "run fut_exec es (two_threads (Get # rest) body) = Some s"
  shows "(seen s 0 = None \<or> seen s 0 = Some r) \<and> \<not> satisfied_twice s \<and> length es \<le> length rest + length body + 2 \<and>
    ((\<forall>i. fut_exec i s = None) \<longrightarrow> ops s 0 = [] \<and> ops s 1 = [] \<and> seen s 0 = Some r)"
proof -
  have "pair_inv body r rest (two_threads (Get # rest) body)"
    by (simp add: pair_inv_def two_threads_def make_futures_def setter_inv_def)
  then have v: "pair_inv body r rest s" using pair.run_inv [OF _ assms(3)] assms(1,2) by blast
  have "length es \<le> length rest + length body + 2"
    using fut_run_bounded [OF assms(3), of "{0, 1}"] two_threads_ops
    by (force simp: two_threads_def make_futures_def)
  then show ?thesis
    using v pair_not_stuck [OF assms(1) v] by (auto simp: pair_inv_def setter_inv_def)
qed

lemma promise_reaches_future_witness:
  "\<exists>s. run fut_exec [0, 1, 0, 1, 0, 0] use_promise_exception = Some s \<and> seen s 0 = Some (Exception ''An error occurred!'') \<and>
     ops s 0 = [] \<and> ops s 1 = []"
proof -
  let ?rest = "[JoinThread 1, DropFuture False] :: unit fut_op list"
  have t: "list_all tail_op ?rest" by (simp add: tail_op_def)
  obtain s where s: "run fut_exec [0, 1, 0, 1, 0, 0] (two_threads (Get # ?rest) set_exception) = Some s" "\<forall>i. fut_exec i s = None"
    by (simp add: two_threads_def make_futures_def set_exception_def fut_exec_def satisfy_def)
  from promise_reaches_future [OF sets_bodies(2) t s(1)] s show ?thesis
    by (auto simp: use_promise_exception_def)
qed

section \<open>Programs with a shared future\<close>

text \<open>Reader \<open>k\<close> gets a future that refers to the state exactly if no earlier reader got it by a move.\<close>

definition still_valid :: "bool list \<Rightarrow> nat \<Rightarrow> bool" where
  "still_valid ms k \<longleftrightarrow> True \<notin> set (take k ms)"

definition expected :: "'a fut_outcome \<Rightarrow> bool list \<Rightarrow> nat \<Rightarrow> 'a fut_outcome" where
  "expected r ms k = (if still_valid ms k then r else NoState)"

lemma still_valid_step [simp]:
  "still_valid ms 0" "k < length ms \<Longrightarrow> still_valid ms (Suc k) \<longleftrightarrow> still_valid ms k \<and> \<not> ms ! k"
  by (auto simp: still_valid_def take_Suc_conv_app_nth)

definition reader_ok :: "bool list \<Rightarrow> 'a fut_outcome \<Rightarrow> 'a futures \<Rightarrow> nat \<Rightarrow> bool" where
  "reader_ok ms r s k \<longleftrightarrow>
     (ops s (k + 2) = [Get] \<and> seen s (k + 2) = None \<or> ops s (k + 2) = [] \<and> seen s (k + 2) = Some (expected r ms k)) \<and>
     (k + 2 \<in> started s \<longrightarrow> valid s (k + 2) = still_valid ms k)"

definition joins :: "bool list \<Rightarrow> nat \<Rightarrow> 'a fut_op list" where
  "joins ms j = map JoinThread [j + 1..<length ms + 2]"

text \<open>Where the main thread is: before a pass, between a pass and its start, at a join.\<close>

definition at_pass :: "bool list \<Rightarrow> 'a futures \<Rightarrow> nat \<Rightarrow> bool" where
  "at_pass ms s k \<longleftrightarrow> k \<le> length ms \<and> ops s 0 = pass_all (k + 2) (drop k ms) @ joins ms 0 \<and>
     started s = {0..<k + 2} \<and> valid s 0 = still_valid ms k"

definition at_start :: "bool list \<Rightarrow> 'a futures \<Rightarrow> nat \<Rightarrow> bool" where
  "at_start ms s k \<longleftrightarrow> k < length ms \<and> ops s 0 = Start (k + 2) # pass_all (k + 3) (drop (k + 1) ms) @ joins ms 0 \<and>
     started s = {0..<k + 2} \<and> valid s 0 = still_valid ms (k + 1) \<and> valid s (k + 2) = still_valid ms k"

definition at_join :: "bool list \<Rightarrow> 'a futures \<Rightarrow> nat \<Rightarrow> bool" where
  "at_join ms s j \<longleftrightarrow> j \<le> length ms + 1 \<and> ops s 0 = joins ms j \<and> started s = {0..<length ms + 2} \<and>
     (\<forall>i. 1 \<le> i \<longrightarrow> i \<le> j \<longrightarrow> ops s i = [])"

definition at_begin :: "bool list \<Rightarrow> 'a futures \<Rightarrow> bool" where
  "at_begin ms s \<longleftrightarrow> ops s 0 = Start 1 # pass_all 2 ms @ joins ms 0 \<and> started s = {0} \<and> valid s 0"

definition main_place :: "bool list \<Rightarrow> 'a futures \<Rightarrow> bool" where
  "main_place ms s \<longleftrightarrow> at_begin ms s \<or> (\<exists>k. at_pass ms s k) \<or> (\<exists>k. at_start ms s k) \<or> (\<exists>j. at_join ms s j)"

definition share_inv :: "'a fut_op list \<Rightarrow> 'a fut_outcome \<Rightarrow> bool list \<Rightarrow> 'a futures \<Rightarrow> bool" where
  "share_inv body r ms s \<longleftrightarrow> setter_inv body r s \<and> is_shared s \<and> (\<forall>i. length ms + 2 \<le> i \<longrightarrow> ops s i = []) \<and>
     (\<forall>k<length ms. reader_ok ms r s k) \<and> main_place ms s"

lemma main_place_keeps:
  assumes "main_place ms s" "ops t 0 = ops s 0" "started t = started s"
    and "\<And>i. i = 0 \<or> i \<notin> started s \<Longrightarrow> valid t i = valid s i" and "\<And>i. 1 \<le> i \<Longrightarrow> ops s i = [] \<Longrightarrow> ops t i = []"
  shows "main_place ms t"
proof -
  have p: "at_pass ms s k \<Longrightarrow> at_pass ms t k" for k using assms(2-4) by (simp add: at_pass_def)
  have st: "at_start ms s k \<Longrightarrow> at_start ms t k" for k using assms(2-4) by (simp add: at_start_def)
  have j: "at_join ms s j \<Longrightarrow> at_join ms t j" for j using assms(2,3,5) by (simp add: at_join_def)
  have b: "at_begin ms s \<Longrightarrow> at_begin ms t" using assms(2-4) by (simp add: at_begin_def)
  show ?thesis using assms(1) p st j b unfolding main_place_def by blast
qed

lemma share_setter:
  assumes b: "sets body r" and v: "share_inv body r ms s" and e: "fut_exec 1 s = Some t"
  shows "share_inv body r ms t"
proof -
  have "setter_inv body r s" using v by (simp add: share_inv_def)
  note st = setter_step [OF b this e] and o = fut_exec_ops [OF e]
  have k: "ops t i = ops s i" if "i \<noteq> 1" for i using o that by simp
  have "main_place ms t"
  proof (rule main_place_keeps [of ms s])
    show "main_place ms s" using v by (simp add: share_inv_def)
    show "ops s i = [] \<Longrightarrow> ops t i = []" for i using o by (cases "i = 1") simp_all
  qed (use st k in simp_all)
  moreover have "reader_ok ms r t k" if "reader_ok ms r s k" for k using that st k [of "k + 2"] by (simp add: reader_ok_def)
  moreover have "ops t i = []" if "length ms + 2 \<le> i" for i using that k [of i] v by (simp add: share_inv_def)
  ultimately show ?thesis using v st by (simp add: share_inv_def)
qed

lemma share_reader:
  assumes v: "share_inv body r ms s" and k: "k < length ms" and e: "fut_exec (k + 2) s = Some t"
  shows "share_inv body r ms t"
proof -
  have s: "setter_inv body r s" "is_shared s" "reader_ok ms r s k" using v k by (simp_all add: share_inv_def)
  have g: "ops s (k + 2) = [Get]" "k + 2 \<in> started s" using fut_exec_ops [OF e] s(3) by (auto simp: reader_ok_def)
  then have ok: "valid s (k + 2) = still_valid ms k" using s(3) by (simp add: reader_ok_def)
  have t: "t = s\<lparr>ops := (ops s)(k + 2 := []), seen := (seen s)(k + 2 \<mapsto> expected r ms k),
      valid := (valid s)(k + 2 := still_valid ms k)\<rparr>"
  proof (cases "still_valid ms k")
    case False
    then have "(valid s)(k + 2 := still_valid ms k) = valid s" using ok by (simp add: fun_upd_idem)
    then show ?thesis using False e g ok by (auto simp: fut_exec_def expected_def)
  next
    case True
    then obtain x where x: "result s = Some x" using e g ok by (auto simp: fut_exec_def split: option.splits)
    then have "x = r" using s(1) by (auto simp: setter_inv_def)
    then show ?thesis using e g ok x s(2) True by (simp add: fut_exec_def expected_def)
  qed
  have "main_place ms t"
  proof (rule main_place_keeps [of ms s])
    show "main_place ms s" using v by (simp add: share_inv_def)
    show "valid t i = valid s i" if "i = 0 \<or> i \<notin> started s" for i using that g(2) unfolding t by auto
    show "ops s i = [] \<Longrightarrow> ops t i = []" for i unfolding t by simp
  qed (simp_all add: t)
  moreover have "reader_ok ms r t j" if "j < length ms" for j
    using that v unfolding t share_inv_def reader_ok_def by (cases "j = k") auto
  ultimately show ?thesis using v unfolding share_inv_def t by (simp add: setter_inv_def)
qed

lemma joins_step: "j \<le> length ms \<Longrightarrow> joins ms j = JoinThread (j + 1) # joins ms (j + 1)"
  by (simp add: joins_def upt_conv_Cons)

lemma share_main:
  assumes v: "share_inv body r ms s" and e: "fut_exec 0 s = Some t"
  shows "share_inv body r ms t"
proof -
  have keep: "share_inv body r ms t" if "main_place ms t" "\<And>i. i \<noteq> 0 \<Longrightarrow> ops t i = ops s i" "seen t = seen s" "result t = result s"
      "satisfied_twice t = satisfied_twice s" "is_shared t" "\<And>k. k < length ms \<Longrightarrow> k + 2 \<in> started t \<Longrightarrow> valid t (k + 2) = still_valid ms k"
    using v that by (simp add: share_inv_def setter_inv_def reader_ok_def)
  have sh: "is_shared s" and vs: "\<And>k. k < length ms \<Longrightarrow> k + 2 \<in> started s \<Longrightarrow> valid s (k + 2) = still_valid ms k"
    using v by (simp_all add: share_inv_def reader_ok_def)
  have join: "share_inv body r ms t" if "at_join ms s j" for j
  proof -
    have "j \<le> length ms"
      using that fut_exec_ops [OF e] by (cases "j \<le> length ms") (auto simp: at_join_def joins_def)
    then have t: "t = s\<lparr>ops := (ops s)(0 := joins ms (j + 1))\<rparr>" "ops s (j + 1) = []"
      using e that by (auto simp: fut_exec_def at_join_def joins_step split: if_splits)
    have "at_join ms t (j + 1)"
      using that t \<open>j \<le> length ms\<close> le_Suc_eq by (auto simp: at_join_def)
    then have "main_place ms t" unfolding main_place_def by blast
    then show ?thesis using sh vs by (intro keep) (simp_all add: t)
  qed
  have "main_place ms s" using v by (simp add: share_inv_def)
  then consider "at_begin ms s"
    | k where "at_pass ms s k" | k where "at_start ms s k" | j where "at_join ms s j"
    unfolding main_place_def by blast
  then show ?thesis
  proof cases
    case 1
    then have t: "t = s\<lparr>ops := (ops s)(0 := pass_all 2 ms @ joins ms 0), started := {1, 0}\<rparr>"
      using e by (simp add: fut_exec_def at_begin_def)
    have "{1, 0} = {0..<0 + 2 :: nat}" by auto
    then have "at_pass ms t 0" using 1 by (simp add: t at_pass_def at_begin_def numeral_2_eq_2)
    then have "main_place ms t" unfolding main_place_def by blast
    then show ?thesis using sh by (intro keep) (simp_all add: t)
  next
    case (2 k)
    show ?thesis
    proof (cases "k < length ms")
      case True
      then have d: "drop k ms = ms ! k # drop (Suc k) ms" by (simp add: Cons_nth_drop_Suc)
      then have t: "t = s\<lparr>ops := (ops s)(0 := Start (k + 2) # pass_all (k + 3) (drop (k + 1) ms) @ joins ms 0),
          valid := (valid s)(k + 2 := still_valid ms k, 0 := still_valid ms (k + 1))\<rparr>"
        using e 2 True by (simp add: fut_exec_def at_pass_def numeral_3_eq_3)
      have "at_start ms t k" using 2 True by (simp add: t at_start_def at_pass_def)
      then have "main_place ms t" unfolding main_place_def by blast
      moreover have "valid t (j + 2) = still_valid ms j" if "j < length ms" "j + 2 \<in> started t" for j
        using that vs by (auto simp: t)
      ultimately show ?thesis using sh by (intro keep) (simp_all add: t)
    next
      case False
      then have "at_join ms s 0" using 2 by (auto simp: at_pass_def at_join_def)
      then show ?thesis by (rule join)
    qed
  next
    case (3 k)
    then have t: "t = s\<lparr>ops := (ops s)(0 := pass_all (k + 3) (drop (k + 1) ms) @ joins ms 0), started := insert (k + 2) {0..<k + 2}\<rparr>"
      using e by (simp add: fut_exec_def at_start_def)
    have "insert (k + 2) {0..<k + 2} = {0..<k + 1 + 2}" by auto
    then have "at_pass ms t (k + 1)" using 3 by (simp add: t at_start_def at_pass_def numeral_3_eq_3)
    then have "main_place ms t" unfolding main_place_def by blast
    moreover have "valid t (j + 2) = still_valid ms j" if "j < length ms" "j + 2 \<in> started t" for j
      using that vs 3 by (cases "j = k") (auto simp: t at_start_def)
    ultimately show ?thesis using sh by (intro keep) (simp_all add: t)
  next
    case (4 j)
    then show ?thesis by (rule join)
  qed
qed

lemma share_step:
  assumes b: "sets body r" and v: "share_inv body r ms s" and e: "fut_exec i s = Some t"
  shows "share_inv body r ms t"
proof -
  have "\<not> length ms + 2 \<le> i" using v fut_exec_ops [OF e] by (auto simp: share_inv_def)
  then consider "i = 0" | "i = 1" | k where "i = k + 2" "k < length ms"
    by (metis One_nat_def Suc_1 add.commute add_less_cancel_right less_2_cases linorder_not_le ordered_cancel_comm_monoid_diff_class.add_diff_inverse)
  then show ?thesis
  proof cases
    case 1
    then show ?thesis using share_main [OF v] e by simp
  next
    case 2
    then show ?thesis using share_setter [OF b v] e by simp
  next
    case (3 k)
    then show ?thesis using share_reader [OF v] e by simp
  qed
qed

interpretation share: inv_machine fut_exec "\<lambda>s. sets body r \<and> share_inv body r ms s" for body r ms
  by unfold_locales (blast intro: share_step)

lemma share_init: "share_inv body r ms (shared_readers body ms)"
proof -
  have "at_begin ms (shared_readers body ms)"
    by (simp add: at_begin_def shared_readers_def make_futures_def joins_def)
  then show ?thesis
    by (simp add: share_inv_def main_place_def setter_inv_def reader_ok_def shared_readers_def make_futures_def)
qed

lemma length_pass_all: "length (pass_all j ms) = 2 * length ms"
  by (induction ms arbitrary: j) simp_all

lemma share_bounded:
  assumes "run fut_exec es (shared_readers body ms) = Some s"
  shows "length es \<le> 4 * length ms + length body + 2"
proof -
  let ?s = "shared_readers body ms"
  have A: "i \<in> {..<Suc (Suc (length ms))}" if "ops ?s i \<noteq> []" for i
    using that by (auto simp: shared_readers_def make_futures_def split: if_splits)
  from fut_run_bounded [OF assms finite_lessThan A] have "length es \<le> (\<Sum>i<Suc (Suc (length ms)). length (ops ?s i))"
    by linarith
  also have "\<dots> = 4 * length ms + length body + 2"
    unfolding sum.lessThan_Suc_shift
    by (simp add: shared_readers_def make_futures_def length_pass_all Suc_le_eq)
  finally show ?thesis .
qed

lemma share_not_stuck:
  assumes b: "sets body r" and v: "share_inv body r ms s" and n: "\<forall>i. fut_exec i s = None"
  shows "ops s 0 = [] \<and> (\<forall>k<length ms. seen s (k + 2) = Some (expected r ms k))"
proof -
  have s: "setter_inv body r s" using v by (simp add: share_inv_def)
  have n0: "fut_exec 0 s = None" and n1: "fut_exec 1 s = None" using n by simp_all
  have fin: "ops s 1 = [] \<and> result s = Some r" if "1 \<in> started s" using setter_can_step [OF b s that n1] .
  have reader: "ops s (k + 2) = [] \<and> seen s (k + 2) = Some (expected r ms k)" if k: "k < length ms" "k + 2 \<in> started s" "1 \<in> started s" for k
  proof -
    have "fut_exec (k + 2) s = None" using n by simp
    then have "ops s (k + 2) \<noteq> [Get]" using fin k by (cases "valid s (k + 2)") (auto simp: fut_exec_def)
    then show ?thesis using v k by (auto simp: share_inv_def reader_ok_def)
  qed
  have join: "?thesis" if j: "at_join ms s j" for j
  proof -
    have st: "started s = {0..<length ms + 2}" using j by (simp add: at_join_def)
    have "j = length ms + 1"
    proof (rule ccontr)
      assume "j \<noteq> length ms + 1"
      then have l: "j \<le> length ms" using j by (simp add: at_join_def)
      have "ops s (j + 1) = []"
        using fin reader [of "j - 1"] st l by (cases "j = 0") auto
      then have "fut_exec 0 s \<noteq> None" using j l by (simp add: fut_exec_def at_join_def joins_step)
      then show False using n0 by blast
    qed
    then show ?thesis using j reader st by (simp add: at_join_def joins_def)
  qed
  have "main_place ms s" using v by (simp add: share_inv_def)
  then consider "at_begin ms s" | k where "at_pass ms s k" | k where "at_start ms s k" | j where "at_join ms s j"
    unfolding main_place_def by blast
  then show ?thesis
  proof cases
    case 1
    then show ?thesis using n0 by (simp add: fut_exec_def at_begin_def)
  next
    case (2 k)
    have "k = length ms"
    proof (rule ccontr)
      assume "k \<noteq> length ms"
      then have k: "k < length ms" using 2 by (simp add: at_pass_def)
      then have "drop k ms = ms ! k # drop (Suc k) ms" by (simp add: Cons_nth_drop_Suc)
      then show False using 2 n0 by (simp add: fut_exec_def at_pass_def)
    qed
    then have "at_join ms s 0" using 2 by (auto simp: at_pass_def at_join_def)
    then show ?thesis by (rule join)
  next
    case (3 k)
    then show ?thesis using n0 by (simp add: fut_exec_def at_start_def)
  next
    case (4 j)
    then show ?thesis by (rule join)
  qed
qed

text \<open>
  C39. A shared future: in every run the readers up to the first that got it by a move see what the promise
  was given, and every later one sees that its future has no state; the program never blocks, and
  ends. So both readers of \<open>use_shared_future\<close> get the value and the second one of
  \<open>use_shared_future_error\<close> never does.
\<close>

theorem shared_future_readers:
  assumes "sets body r" and "run fut_exec es (shared_readers body ms) = Some s"
  shows "(\<forall>k<length ms. seen s (k + 2) = None \<or> seen s (k + 2) = Some (if True \<in> set (take k ms) then NoState else r)) \<and>
    length es \<le> 4 * length ms + length body + 2 \<and>
    ((\<forall>i. fut_exec i s = None) \<longrightarrow> ops s 0 = [] \<and> (\<forall>k<length ms. seen s (k + 2) \<noteq> None))"
proof -
  have v: "share_inv body r ms s" using share.run_inv [OF _ assms(2)] share_init assms(1) by blast
  have "seen s (k + 2) = None \<or> seen s (k + 2) = Some (if True \<in> set (take k ms) then NoState else r)" if "k < length ms" for k
    using v that by (auto simp: share_inv_def reader_ok_def expected_def still_valid_def)
  then show ?thesis using share_not_stuck [OF assms(1) v] share_bounded [OF assms(2)] by simp
qed

lemma shared_future_readers_witness:
  "\<exists>s. run fut_exec [0, 0, 0, 0, 0, 3, 1, 2, 1, 0, 0, 0] use_shared_future_error = Some s \<and> seen s 2 = Some (Value 42) \<and> seen s 3 = Some NoState"
proof -
  obtain s where s: "run fut_exec [0, 0, 0, 0, 0, 3, 1, 2, 1, 0, 0, 0] (shared_readers myFunction [True, True]) = Some s"
      "seen s 2 \<noteq> None" "seen s 3 \<noteq> None"
    by (simp add: shared_readers_def make_futures_def myFunction_def fut_exec_def satisfy_def upt_rec)
  have "seen s 2 = None \<or> seen s 2 = Some (Value 42)" "seen s 3 = None \<or> seen s 3 = Some NoState"
    using shared_future_readers [OF sets_bodies(3) s(1)] by (auto simp: All_less_Suc numeral_2_eq_2 numeral_3_eq_3)
  then show ?thesis using s by (auto simp: use_shared_future_error_def)
qed

section \<open>What waits for a task\<close>

text \<open>
  The destructor of a future of \<open>std::async\<close> waits for the task, and so does \<open>wait\<close>; the destructor
  of another future does not: \<open>TestParallen1\<close> may end before its task has run.
\<close>

definition block_inv :: "unit futures \<Rightarrow> bool" where
  "block_inv s \<longleftrightarrow> setter_inv (task ()) (Value ()) s \<and> (\<forall>i>1. ops s i = []) \<and>
    (ops s 0 = [Start 1, DropFuture True] \<or> ops s 0 = [DropFuture True] \<or> ops s 0 = [] \<and> result s = Some (Value ()))"

lemma block_inv_step:
  assumes v: "block_inv s" and e: "fut_exec i s = Some u"
  shows "block_inv u"
proof -
  have "\<not> 1 < i" using v fut_exec_ops [OF e] unfolding block_inv_def by blast
  then consider "i = 0" | "i = 1" by linarith
  then show ?thesis
  proof cases
    case 1
    then show ?thesis using v e by (auto simp: block_inv_def fut_exec_def setter_inv_def task_def split: if_splits)
  next
    case 2
    have "setter_inv (task ()) (Value ()) s" using v by (simp add: block_inv_def)
    from setter_step [OF sets_bodies(4) this e [unfolded 2]] fut_exec_ops [OF e [unfolded 2]]
    show ?thesis using v unfolding block_inv_def by auto
  qed
qed

interpretation block: inv_machine fut_exec block_inv
  by unfold_locales (rule block_inv_step)

lemma BlockAsync_waits:
  assumes "run fut_exec es BlockAsync = Some s" "ops s 0 = []"
  shows "result s = Some (Value ())"
proof -
  have "block_inv BlockAsync" by (simp add: block_inv_def BlockAsync_def two_threads_def make_futures_def setter_inv_def)
  from block.run_inv [OF this assms(1)] assms(2) show ?thesis by (simp add: block_inv_def)
qed

lemma TestParallen1_does_not_wait:
  "\<exists>s. run fut_exec [0, 0] TestParallen1 = Some s \<and> ops s 0 = [] \<and> result s = None"
  by (simp add: TestParallen1_def two_threads_def make_futures_def fut_exec_def task_def)

end
