(* ===== verification/CoServer.thy ===== *)
theory CoServer
  imports CoSession AsyncClient
begin

text \<open>
  The logic system of \<open>src/Network/coroutineServer/src/LogicSystem.cpp\<close>, the path from the stream of a
  peer to its callbacks and back to the client, and the echo coroutine of
  \<open>src/Network/coroutine/Coroutine.cpp\<close>.
\<close>

section \<open>The logic system\<close>

text \<open>
  It differs from the one of \<open>LogicSys\<close> in three places: \<open>PostMsgToQue\<close> notifies while it holds the mutex,
  a callback gets the first \<open>_total_len\<close> bytes of a node, and the answer has another text.
\<close>

definition co_PostMsgToQue :: "'m \<Rightarrow> 'm logic \<Rightarrow> 'm logic" where
  "co_PostMsgToQue m s =
     (let q = msg_que s @ [m];
          t = s\<lparr>msg_que := q, all_posted := all_posted s @ [m]\<rparr> in
      if length q = 1 then wake t else t)"

fun co_logic_exec :: "'m logic_event \<Rightarrow> 'm logic \<Rightarrow> 'm logic option" where
  "co_logic_exec (Post m) s = (if worker s = Deciding then None else Some (co_PostMsgToQue m s))"
| "co_logic_exec Notify s = None"
| "co_logic_exec e s = logic_exec e s"

definition co_dispatch :: "typed_node \<Rightarrow> (callback \<times> int \<times> byte list) option" where
  "co_dispatch m = (case RegisterCallbacks (msg_id m) of None \<Rightarrow> None
     | Some f \<Rightarrow> Some (f, msg_id m, take (nat (total_len m)) (ndata m)))"

definition HelloWorldCallBack :: "'j json \<Rightarrow> int \<Rightarrow> byte list \<Rightarrow> conn \<Rightarrow> conn res" where
  "HelloWorldCallBack js mid data session =
     (let root = parse js data;
          root1 = set_str js ''data''
            (ascii ''server has received msg, msg data is'' @ get_str js ''data'' root) root
      in co_Send_string (styled js root1) (to_short (get_int js ''id'' root1)) session)"

text \<open>Every run is a run of the other logic system, with the notification right after the post.\<close>

definition as_logic :: "'m logic_event \<Rightarrow> 'm logic \<Rightarrow> 'm logic_event list" where
  "as_logic e s = (case e of Post m \<Rightarrow> if msg_que s = [] then [Post m, Notify] else [Post m] | _ \<Rightarrow> [e])"

lemma co_logic_simulated:
  assumes "co_logic_exec e s = Some t"
  shows "run logic_exec (as_logic e s) s = Some t \<and> posts (as_logic e s) = posts [e]"
  using assms
  by (cases e) (auto simp: as_logic_def co_PostMsgToQue_def PostMsgToQue_def wake_def Let_def split: if_splits)

lemma posts_append: "posts (es @ fs) = posts es @ posts fs"
proof (induction es)
  case (Cons e es)
  then show ?case using posts_Cons [of e "es @ fs"] posts_Cons [of e es] by simp
qed simp

lemma co_logic_run_simulated:
  "run co_logic_exec es s = Some t \<Longrightarrow> \<exists>fs. run logic_exec fs s = Some t \<and> posts fs = posts es"
proof (induction es arbitrary: s)
  case Nil
  then show ?case by (intro exI [of _ "[]"]) simp
next
  case (Cons e es)
  then obtain u where u: "co_logic_exec e s = Some u" "run co_logic_exec es u = Some t" by (auto split: option.splits)
  obtain fs where fs: "run logic_exec fs u = Some t" "posts fs = posts es" using Cons.IH [OF u(2)] by blast
  have "run logic_exec (as_logic e s @ fs) s = Some t" using co_logic_simulated [OF u(1)] fs(1) by (simp add: run_append)
  moreover have "posts (as_logic e s @ fs) = posts (e # es)"
    using co_logic_simulated [OF u(1)] fs(2) posts_Cons [of e es] by (simp add: posts_append)
  ultimately show ?case by blast
qed

text \<open>No notification is ever due after an unlock.\<close>

definition no_debt :: "'m logic \<Rightarrow> bool" where
  "no_debt s \<longleftrightarrow> logic_inv s \<and> notifies s = 0"

lemma no_debt_step: "no_debt s \<Longrightarrow> co_logic_exec e s = Some t \<Longrightarrow> no_debt t"
proof -
  assume a: "no_debt s" "co_logic_exec e s = Some t"
  have "run logic_exec (as_logic e s) s = Some t" "logic_inv s" using co_logic_simulated [OF a(2)] a(1) by (simp_all add: no_debt_def)
  then have "logic_inv t" using logic.run_inv by blast
  moreover have "notifies t = 0"
    using a by (cases e) (auto simp: no_debt_def co_PostMsgToQue_def DealMsg_def wake_def Let_def split: if_splits)
  ultimately show ?thesis by (simp add: no_debt_def)
qed

interpretation co_logic: inv_machine co_logic_exec no_debt
  by unfold_locales (rule no_debt_step)

lemma co_work_off:
  "worker s = Ready \<Longrightarrow> \<not> b_stop s \<Longrightarrow>
   \<exists>t. run co_logic_exec (replicate (length (msg_que s)) Turn) s = Some t \<and> msg_que t = [] \<and> processed t = processed s @ msg_que s"
proof (induction "msg_que s" arbitrary: s)
  case Nil
  then show ?case by (metis append_Nil2 list.size(3) replicate_0 run.simps(1))
next
  case (Cons m q)
  have d: "DealMsg s = s\<lparr>msg_que := q, processed := processed s @ [m]\<rparr>"
    using Cons by (simp add: DealMsg_def flip: Cons.hyps(2))
  show ?case using Cons.hyps(1) [of "DealMsg s"] Cons.prems d by (simp flip: Cons.hyps(2))
qed

lemma co_logic_processes:
  assumes "run co_logic_exec es LogicSystem = Some s"
  shows "processed s @ msg_que s = posts es"
    and "\<not> b_stop s \<Longrightarrow> \<exists>t. run co_logic_exec (es @ replicate (length (msg_que s)) Turn) LogicSystem = Some t \<and> processed t = posts es"
proof -
  have "no_debt LogicSystem" using logic_init by (simp add: no_debt_def LogicSystem_def)
  from co_logic.run_inv [OF this assms] have v: "logic_inv s" "notifies s = 0" by (simp_all add: no_debt_def)
  obtain fs where "run logic_exec fs LogicSystem = Some s" "posts fs = posts es" using co_logic_run_simulated [OF assms] by blast
  then show p: "processed s @ msg_que s = posts es"
    using v all_posted_run [of fs] by (simp add: logic_inv_def LogicSystem_def)
  show "\<exists>t. run co_logic_exec (es @ replicate (length (msg_que s)) Turn) LogicSystem = Some t \<and> processed t = posts es" if "\<not> b_stop s"
  proof (cases "msg_que s = []")
    case True
    then show ?thesis using assms p by simp
  next
    case False
    then have "worker s = Ready" using v that unfolding logic_inv_def by (cases "worker s") auto
    then show ?thesis using co_work_off [of s] that assms p by (auto simp: run_append)
  qed
qed

section \<open>From the stream to the callbacks\<close>

lemma co_dispatch_node:
  "co_dispatch (co_node m) = (if fst m = MSG_HELLO_WORD then Some (HelloWord, MSG_HELLO_WORD, snd m) else None)"
  by (simp add: co_dispatch_def RegisterCallbacks_def co_node_def)

lemma map_filter_nodes:
  "List.map_filter (\<lambda>a. f (map g xs ! a)) [0..<length xs] = List.map_filter (\<lambda>x. f (g x)) xs"
  by (induction xs) (simp_all add: map_filter_def upt_conv_Cons map_upt_Suc filter_map comp_def
      del: upt_Suc flip: map_Suc_upt)

lemma co_session_posts:
  assumes "co_ready c" "list_all good_msg ms" "list_all (\<lambda>m. snd m \<noteq> []) ms" "nodes c = []" "post_addrs (acts c) = []"
  shows "\<exists>c'. co_Start (concat (map enc ms)) c = Inr c' \<and> nodes c' = map co_node ms \<and> post_addrs (acts c') = [0..<length ms]"
proof -
  obtain c1 where c1: "co_loop (concat (map enc ms) @ []) c = co_loop [] c1" "co_ready c1"
    "nodes c1 = nodes c @ map co_node ms" "acts c1 = acts c @ map PostMsg [length (nodes c) ..< length (nodes c) + length ms]"
    using co_loop_messages [OF assms(1-3), of "[]"] by blast
  obtain c2 where c2: "co_step [] c1 = Inr (Return c2)" "nodes c2 = nodes c1" "acts c2 = acts c1 @ [SocketClose, ClearSession (s_uuid c1)]"
    using co_step_end [OF c1(2)] by blast
  have p: "post_addrs (map PostMsg xs) = xs" for xs by (induction xs) simp_all
  have "post_addrs (acts c2) = [0..<length ms]"
    using c1(4) c2(3) assms(4,5) p [of "[0..<length ms]"] by simp
  then show ?thesis
    using c1 c2 assms(4) by (intro exI [of _ c2]) (simp add: co_Start_def co_loop.simps [of "[]"])
qed

text \<open>
  C37. The coroutine server from its sockets to its callbacks. For every stream of messages with
  non-empty bodies, and every interleaving of its posts with the worker of the logic system, the worker
  calls the callback for the messages that have one, in order, each with the body that was sent: what
  it has called is always a prefix, and unless the system is stopped a run of the worker alone, without
  a further notification, makes it all.
\<close>

theorem coroutine_messages_reach_callbacks:
  assumes "co_ready c" "list_all good_msg ms" "list_all (\<lambda>m. snd m \<noteq> []) ms" "nodes c = []" "post_addrs (acts c) = []"
  shows "\<exists>c'. co_Start (concat (map enc ms)) c = Inr c' \<and>
    (let calls = (\<lambda>s. List.map_filter (\<lambda>a. co_dispatch (nodes c' ! a)) (processed s));
         expected = map (\<lambda>m. (HelloWord, MSG_HELLO_WORD, snd m)) (filter (\<lambda>m. fst m = MSG_HELLO_WORD) ms) in
     \<forall>es s. run co_logic_exec es LogicSystem = Some s \<and> posts es = post_addrs (acts c') \<longrightarrow>
       (\<exists>later. calls s @ later = expected) \<and>
       (\<not> b_stop s \<longrightarrow> (\<exists>n t. run co_logic_exec (es @ replicate n Turn) LogicSystem = Some t \<and> calls t = expected)))"
proof -
  obtain c' where c': "co_Start (concat (map enc ms)) c = Inr c'" "nodes c' = map co_node ms" "post_addrs (acts c') = [0..<length ms]"
    using co_session_posts [OF assms] by blast
  let ?call = "List.map_filter (\<lambda>a. co_dispatch (nodes c' ! a))"
  let ?want = "map (\<lambda>m. (HelloWord, MSG_HELLO_WORD, snd m)) (filter (\<lambda>m. fst m = MSG_HELLO_WORD) ms)"
  have d: "List.map_filter (\<lambda>m. co_dispatch (co_node m)) xs =
      map (\<lambda>m. (HelloWord, MSG_HELLO_WORD, snd m)) (filter (\<lambda>m. fst m = MSG_HELLO_WORD) xs)" for xs
    by (induction xs) (simp_all add: co_dispatch_node map_filter_def)
  have w: "?call (post_addrs (acts c')) = ?want" using map_filter_nodes [of co_dispatch co_node ms] d [of ms] c'(2,3) by simp
  have "(\<exists>later. ?call (processed s) @ later = ?want) \<and>
      (\<not> b_stop s \<longrightarrow> (\<exists>n t. run co_logic_exec (es @ replicate n Turn) LogicSystem = Some t \<and> ?call (processed t) = ?want))"
    if r: "run co_logic_exec es LogicSystem = Some s" "posts es = post_addrs (acts c')" for es s
  proof -
    have "?call (processed s) @ ?call (msg_que s) = ?want"
      using co_logic_processes(1) [OF r(1)] r(2) w by (metis filter_append map_append map_filter_def)
    then show ?thesis using co_logic_processes(2) [OF r(1)] r(2) w by metis
  qed
  then show ?thesis using c'(1) by (auto simp: Let_def)
qed

lemma coroutine_messages_reach_callbacks_witness:
  "\<exists>c' s. co_Start (enc (1001, [104, 105]) @ enc (7, [1])) demo_co = Inr c' \<and>
     run co_logic_exec [Turn, Sleep, Post (0 :: nat), Turn, Post 1] LogicSystem = Some s \<and>
     (\<exists>n t. run co_logic_exec ([Turn, Sleep, Post 0, Turn, Post 1] @ replicate n Turn) LogicSystem = Some t \<and>
       List.map_filter (\<lambda>a. co_dispatch (nodes c' ! a)) (processed t) = [(HelloWord, 1001, [104, 105])])"
proof -
  let ?ms = "[(1001, [104, 105]), (7, [1])] :: (int \<times> byte list) list"
  let ?es = "[Turn, Sleep, Post 0, Turn, Post 1] :: nat logic_event list"
  have h: "co_ready demo_co" "list_all good_msg ?ms" "list_all (\<lambda>m. snd m \<noteq> []) ?ms" "nodes demo_co = []" "post_addrs (acts demo_co) = []"
    by (simp_all add: co_ready_def demo_co_def demo_conn_def good_msg_def)
  obtain c' where c': "co_Start (concat (map enc ?ms)) demo_co = Inr c'" "post_addrs (acts c') = [0..<length ?ms]"
    using co_session_posts [OF h] by blast
  obtain s where s: "run co_logic_exec ?es LogicSystem = Some s" "\<not> b_stop s"
    by (simp add: LogicSystem_def DealMsg_def co_PostMsgToQue_def wake_def Let_def)
  have p: "posts ?es = post_addrs (acts c')" using c'(2) by (simp add: upt_rec)
  have T: "\<forall>es s. run co_logic_exec es LogicSystem = Some s \<and> posts es = post_addrs (acts c') \<longrightarrow>
      (\<not> b_stop s \<longrightarrow> (\<exists>n t. run co_logic_exec (es @ replicate n Turn) LogicSystem = Some t \<and>
        List.map_filter (\<lambda>a. co_dispatch (nodes c' ! a)) (processed t) = [(HelloWord, 1001, [104, 105])]))"
    using coroutine_messages_reach_callbacks [OF h] c'(1) by (simp add: Let_def MSG_HELLO_WORD_def)
  have "co_Start (enc (1001, [104, 105]) @ enc (7, [1])) demo_co = Inr c'" using c'(1) by simp
  then show ?thesis using T [rule_format, OF conjI [OF s(1) p] s(2)] s(1) by blast
qed

section \<open>The answer\<close>

text \<open>
  The client of \<open>asyncClient\<close> reads the body that the callback sends, but the id with its bytes
  exchanged: \<open>co_SendNode\<close> copies the id in host order.
\<close>

lemma co_reply_id_exchanged:
  assumes "send_que c = []" "get_int js ''id'' (set_str js ''data'' x (parse js request)) = mid"
    and "x = ascii ''server has received msg, msg data is'' @ get_str js ''data'' (parse js request)"
    and "body = styled js (set_str js ''data'' x (parse js request))" "length body \<le> 2044" "- 32768 \<le> mid" "mid \<le> 32767"
  shows "\<exists>c1 wire. HelloWorldCallBack js 1001 request c = Inr c1 \<and> writes (acts c1) = writes (acts c) @ [wire] \<and>
    client_receive wire = Some ((to_short (swap16 mid), body), [])"
proof -
  have l: "to_short (int (length body)) = int (length body)" "to_short mid = mid" using assms(5-7) by (simp_all add: to_short_id)
  let ?n = "\<lparr>cur_len = 0, total_len = int (length body) + 4,
      ndata = short_bytes mid @ be16 (int (length body)) @ body @ [0], msg_id = mid\<rparr>"
  have n: "co_SendNode (body @ [0]) (int (length body)) mid = Inr ?n"
    using co_SendNode_ok [of "length body" "body @ [0]" mid] assms(5) by simp
  have w: "node_wire ?n = encode (to_short (swap16 mid)) body"
  proof -
    have "be16 (to_short (swap16 mid)) = short_bytes (mid mod 65536)"
      by (simp flip: short_bytes_swap16 add: swap16_swap16)
    also have "\<dots> = short_bytes mid" by (rule short_bytes_cong) simp
    finally show ?thesis by (simp add: node_wire_def encode_def nat_add_distrib)
  qed
  have "HelloWorldCallBack js 1001 request c = co_Send_string body mid c"
    using assms(2-4) l(2) by (simp add: HelloWorldCallBack_def Let_def)
  then have "HelloWorldCallBack js 1001 request c = Inr (act (AsyncWrite IoContext (node_wire ?n)) (c\<lparr>send_que := [?n]\<rparr>))"
    using n assms(1) l by (simp add: co_Send_string_def co_Send_def Let_def tlv_consts)
  moreover have "client_receive (node_wire ?n) = Some ((to_short (swap16 mid), body), [])"
    unfolding w using client_receive_encode [of "to_short (swap16 mid)" body "[]"] to_short_range [of "swap16 mid"] assms(5) by simp
  ultimately show ?thesis by (auto simp: writes_def)
qed

section \<open>The echo coroutine\<close>

text \<open>
  \<open>echo\<close> awaits a read of at most 1024 bytes and a write of what was read, in turn; an error of either
  is an exception, which ends it. The arguments are what the reads and writes will give.
\<close>

fun echo_coroutine :: "byte list option list \<Rightarrow> bool list \<Rightarrow> byte list list" where
  "echo_coroutine (Some bs # reads) (ok # oks) = take 1024 bs # (if ok then echo_coroutine reads oks else [])"
| "echo_coroutine _ _ = []"

lemma echo_coroutine_prefix:
  "\<forall>bs\<in>set ps. length bs \<le> 1024 \<Longrightarrow> takeWhile (\<lambda>ok. ok) oks = replicate n True \<Longrightarrow> n < length oks \<Longrightarrow>
   echo_coroutine (map Some ps @ None # reads) oks = take (n + 1) ps"
proof (induction ps arbitrary: oks n)
  case Nil
  then show ?case by (cases oks) simp_all
next
  case (Cons p ps)
  then obtain ok oks1 where oks: "oks = ok # oks1" by (cases oks) auto
  show ?case
  proof (cases ok)
    case True
    then obtain m where m: "n = Suc m" "takeWhile (\<lambda>ok. ok) oks1 = replicate m True" using Cons.prems(2) oks by (cases n) auto
    then show ?thesis using Cons.IH [of oks1 m] Cons.prems(1,3) oks True by simp
  next
    case False
    then have "n = 0" using Cons.prems(2) oks by simp
    then show ?thesis using Cons.prems(1) oks False by simp
  qed
qed

end
