(* ===== verification/SyncQueue.thy ===== *)
theory SyncQueue
  imports LockMem
begin

text \<open>
  \<open>CircularQueSync\<close> of \<open>src/Concurrent/day12-circularque\<close>: the lock-free circular queue with the memory
  orders of its source, on the machine of \<open>MemModel\<close>.
\<close>

section \<open>The operations\<close>

datatype sync_var = QHead | QTail | QTailUpdate | QSlot nat

text \<open>
  \<open>m\<close> is \<open>_max_size\<close>. The loops of \<open>pop\<close> and \<open>push\<close> over several accesses end after \<open>n\<close> turns; the
  loop on \<open>_tail_update\<close> is one access that is repeated. \<open>compare_exchange_strong\<close> with release, and
  relaxed when it fails.
\<close>

abbreviation Cas :: "'l \<Rightarrow> nat \<Rightarrow> nat \<Rightarrow> (nat \<Rightarrow> bool) \<Rightarrow> (nat \<Rightarrow> 'l prog) \<Rightarrow> 'l prog" where
  "Cas l x y c k \<equiv> Access l (\<lambda>v. if v = x then Some y else None) Release c k"

definition pop_cas :: "nat \<Rightarrow> nat \<Rightarrow> sync_var prog \<Rightarrow> sync_var prog \<Rightarrow> sync_var prog" where
  "pop_cas m h ok again = Cas QHead h ((h + 1) mod m) (\<lambda>_. True) (\<lambda>v. if v = h then ok else again)"

definition pop_read :: "nat \<Rightarrow> nat \<Rightarrow> (nat \<Rightarrow> sync_var prog) \<Rightarrow> sync_var prog \<Rightarrow> sync_var prog" where
  "pop_read m h ok again = Read (QSlot h) (\<lambda>val. pop_cas m h (ok val) again)"

definition pop_update :: "nat \<Rightarrow> sync_var prog \<Rightarrow> sync_var prog \<Rightarrow> sync_var prog" where
  "pop_update h none next_step = Load QTailUpdate Acquire (\<lambda>u. if h = u then none else next_step)"

definition pop_tail :: "nat \<Rightarrow> sync_var prog \<Rightarrow> sync_var prog \<Rightarrow> sync_var prog" where
  "pop_tail h none next_step = Load QTail Acquire (\<lambda>t. if h = t then none else pop_update h none next_step)"

fun sync_pop :: "nat \<Rightarrow> nat \<Rightarrow> (nat option \<Rightarrow> sync_var prog) \<Rightarrow> sync_var prog" where
  "sync_pop m 0 k = Finish"
| "sync_pop m (Suc n) k =
     Load QHead Relaxed (\<lambda>h. pop_tail h (k None) (pop_read m h (\<lambda>val. k (Some val)) (sync_pop m n k)))"

definition push_update :: "nat \<Rightarrow> nat \<Rightarrow> sync_var prog \<Rightarrow> sync_var prog" where
  "push_update m t k = Cas QTailUpdate t ((t + 1) mod m) (\<lambda>v. v = t) (\<lambda>_. k)"

definition push_store :: "nat \<Rightarrow> nat \<Rightarrow> nat \<Rightarrow> sync_var prog \<Rightarrow> sync_var prog" where
  "push_store m t val k = Write (QSlot t) val (push_update m t k)"

definition push_cas :: "nat \<Rightarrow> nat \<Rightarrow> nat \<Rightarrow> sync_var prog \<Rightarrow> sync_var prog \<Rightarrow> sync_var prog" where
  "push_cas m t val ok again = Cas QTail t ((t + 1) mod m) (\<lambda>_. True) (\<lambda>v. if v = t then push_store m t val ok else again)"

definition push_head :: "nat \<Rightarrow> nat \<Rightarrow> sync_var prog \<Rightarrow> sync_var prog \<Rightarrow> sync_var prog" where
  "push_head m t full next_step = Load QHead Acquire (\<lambda>h. if (t + 1) mod m = h then full else next_step)"

fun sync_push :: "nat \<Rightarrow> nat \<Rightarrow> nat \<Rightarrow> (bool \<Rightarrow> sync_var prog) \<Rightarrow> sync_var prog" where
  "sync_push m 0 val k = Finish"
| "sync_push m (Suc n) val k =
     Load QTail Relaxed (\<lambda>t. push_head m t (k False) (push_cas m t val (k True) (sync_push m n val k)))"

text \<open>
  A producer that pushes values and tries a value again when the queue was full, and a consumer that
  asserts that it pops the values in their order; \<open>a\<close> is the number of calls each makes.
\<close>

fun producer :: "nat \<Rightarrow> nat \<Rightarrow> nat \<Rightarrow> nat list \<Rightarrow> sync_var prog" where
  "producer m n (Suc a) (v # vs) = sync_push m n v (\<lambda>ok. producer m n a (if ok then vs else v # vs))"
| "producer m n _ _ = Finish"

definition expect_val :: "(nat list \<Rightarrow> sync_var prog) \<Rightarrow> nat list \<Rightarrow> nat \<Rightarrow> sync_var prog" where
  "expect_val k vs val = (case vs of [] \<Rightarrow> Check False Finish | x # xs \<Rightarrow> Check (val = x) (k xs))"

fun consumer :: "nat \<Rightarrow> nat \<Rightarrow> nat \<Rightarrow> nat list \<Rightarrow> sync_var prog" where
  "consumer m n 0 vs = Finish"
| "consumer m n (Suc a) vs = sync_pop m n (\<lambda>r. case r of
     None \<Rightarrow> consumer m n a vs | Some val \<Rightarrow> expect_val (consumer m n a) vs val)"

definition sync_test :: "nat \<Rightarrow> nat \<Rightarrow> nat \<Rightarrow> nat \<Rightarrow> nat list \<Rightarrow> sync_var mem_state" where
  "sync_test m n a b vs = mem_start (\<lambda>i. if i = 0 then producer m n a vs else if i = 1 then consumer m n b vs else Finish)"

section \<open>Views\<close>

text \<open>
  \<open>ts j\<close> is the place of the \<open>j\<close>-th stored value among the messages of its slot. A view is good when it
  names messages only, and covers all stores before the value of \<open>_tail_update\<close> it knows.
\<close>

type_synonym sync_msgs = "sync_var \<Rightarrow> nat \<Rightarrow> sync_var message option"

definition covers :: "nat \<Rightarrow> (nat \<Rightarrow> nat) \<Rightarrow> nat \<Rightarrow> sync_var view \<Rightarrow> bool" where
  "covers M ts u v \<longleftrightarrow> (\<forall>j<u. ts j \<le> v (QSlot (j mod M)))"

definition good :: "nat \<Rightarrow> (nat \<Rightarrow> nat) \<Rightarrow> sync_msgs \<Rightarrow> sync_var view \<Rightarrow> bool" where
  "good M ts m v \<longleftrightarrow> (\<forall>l. m l (v l) \<noteq> None) \<and> covers M ts (v QTailUpdate) v"

fun is_counter :: "sync_var \<Rightarrow> bool" where
  "is_counter (QSlot x) = False"
| "is_counter l = True"

text \<open>A counter has been raised \<open>n\<close> times, each time by one.\<close>

definition counter :: "nat \<Rightarrow> sync_var \<Rightarrow> nat \<Rightarrow> sync_msgs \<Rightarrow> bool" where
  "counter M l n m \<longleftrightarrow> (\<forall>t. if t \<le> n then \<exists>w. m l t = Some (Message (t mod M) w) else m l t = None)"

definition stored :: "nat \<Rightarrow> nat list \<Rightarrow> (nat \<Rightarrow> nat) \<Rightarrow> nat \<Rightarrow> sync_msgs \<Rightarrow> bool" where
  "stored M vs ts W m \<longleftrightarrow>
     (\<forall>x. m (QSlot x) 0 \<noteq> None) \<and> (\<forall>j<W. 0 < ts j) \<and>
     (\<forall>x t. m (QSlot x) t \<noteq> None \<longrightarrow> t = 0 \<or> (\<exists>j<W. j mod M = x \<and> t = ts j)) \<and>
     (\<forall>j<W. \<exists>w. m (QSlot (j mod M)) (ts j) = Some (Message (vs ! j) w)) \<and>
     (\<forall>j k. j < k \<longrightarrow> k < W \<longrightarrow> j mod M = k mod M \<longrightarrow> ts j < ts k)"

definition msgs_ok :: "nat \<Rightarrow> (nat \<Rightarrow> nat) \<Rightarrow> sync_msgs \<Rightarrow> bool" where
  "msgs_ok M ts m \<longleftrightarrow>
     (\<forall>l t d w. m l t = Some (Message d w) \<longrightarrow> good M ts m w \<and> (l = QTailUpdate \<longrightarrow> t \<le> w QTailUpdate))"

text \<open>
  \<open>H\<close> values are popped, \<open>T\<close> claimed, \<open>W\<close> stored and \<open>U\<close> published. The producer knows its own counters
  and stores, the consumer its own counter and what is published up to where it has looked.
\<close>

definition sync_ok :: "nat \<Rightarrow> nat list \<Rightarrow> (nat \<Rightarrow> nat) \<Rightarrow> nat \<Rightarrow> nat \<Rightarrow> nat \<Rightarrow> nat \<Rightarrow> sync_msgs \<Rightarrow> sync_var view \<Rightarrow> sync_var view \<Rightarrow> bool" where
  "sync_ok M vs ts H T U W m c0 c1 \<longleftrightarrow>
     counter M QHead H m \<and> counter M QTail T m \<and> counter M QTailUpdate U m \<and> stored M vs ts W m \<and>
     msgs_ok M ts m \<and>
     good M ts m c0 \<and> c0 QTail = T \<and> c0 QTailUpdate = U \<and> covers M ts W c0 \<and> T + 1 \<le> c0 QHead + M \<and>
     good M ts m c1 \<and> c1 QHead = H \<and> H \<le> c1 QTailUpdate \<and> U \<le> W \<and> W \<le> T \<and> T \<le> U + 1 \<and> T \<le> length vs"

lemma counter_le: "counter M l n m \<Longrightarrow> m l t \<noteq> None \<longleftrightarrow> t \<le> n"
  unfolding counter_def by (metis option.distinct(1))

lemma good_le: "good M ts m v \<Longrightarrow> counter M l n m \<Longrightarrow> v l \<le> n"
  using counter_le unfolding good_def by metis

lemma counter_val: "counter M l n m \<Longrightarrow> m l t = Some (Message d w) \<Longrightarrow> d = t mod M \<and> t \<le> n"
  unfolding counter_def by (metis message.inject option.distinct(1) option.inject)

lemma counter_raise:
  "counter M l n m \<Longrightarrow> d = Suc n mod M \<Longrightarrow> counter M l (Suc n) (m(l := (m l)(Suc n \<mapsto> Message d w)))"
  by (auto simp: counter_def)

lemma counter_other: "k \<noteq> l \<Longrightarrow> counter M k n (m(l := x)) = counter M k n m"
  by (simp add: counter_def)

lemma stored_other: "is_counter l \<Longrightarrow> stored M vs ts W (m(l := f)) = stored M vs ts W m"
  by (cases l) (simp_all add: stored_def)

lemma covers_upd: "is_counter l \<Longrightarrow> covers M ts u (v(l := t)) = covers M ts u v"
  by (cases l) (simp_all add: covers_def)

lemma covers_join: "covers M ts u v \<Longrightarrow> covers M ts w x \<Longrightarrow> covers M ts (max u w) (vjoin v x)"
  unfolding covers_def vjoin_def by (auto simp: le_max_iff_disj less_max_iff_disj)

lemma good_join: "good M ts m v \<Longrightarrow> good M ts m w \<Longrightarrow> good M ts m (vjoin v w)"
proof -
  assume a: "good M ts m v" "good M ts m w"
  have "m l (vjoin v w l) \<noteq> None" for l using a by (simp add: good_def vjoin_def max_def)
  moreover have "covers M ts (vjoin v w QTailUpdate) (vjoin v w)"
    using a covers_join unfolding good_def by (metis vjoin_def)
  ultimately show ?thesis by (simp add: good_def)
qed

lemma good_upd:
  "good M ts m v \<Longrightarrow> m l t \<noteq> None \<Longrightarrow> is_counter l \<Longrightarrow> l \<noteq> QTailUpdate \<Longrightarrow> good M ts m (v(l := t))"
  by (auto simp: good_def covers_upd)

lemma good_more: "good M ts m v \<Longrightarrow> good M ts (m(l := (m l)(t \<mapsto> x))) v"
  by (simp add: good_def)

section \<open>Steps of the producer and the consumer\<close>

text \<open>Reading a message of a counter.\<close>

lemma read_view:
  assumes k: "sync_ok M vs ts H T U W m c0 c1" and g: "good M ts m c" "c = c0 \<or> c = c1"
    and r: "m l t = Some (Message d w)" "c l \<le> t" "is_counter l"
    and v: "v = (if a then vjoin (c(l := t)) w else c(l := t))" "l = QTailUpdate \<Longrightarrow> a"
  shows "good M ts m v" "\<And>k. c k \<le> v k" "t \<le> v l"
proof -
  have w: "good M ts m w" "l = QTailUpdate \<Longrightarrow> t \<le> w QTailUpdate" using k r(1) unfolding sync_ok_def msgs_ok_def by blast+
  show le: "c k \<le> v k" for k using r(2) unfolding v(1) by (auto simp: vjoin_def le_max_iff_disj)
  show "t \<le> v l" unfolding v(1) by (simp add: vjoin_def)
  show "good M ts m v"
  proof (cases "l = QTailUpdate")
    case True
    then have "t \<le> w l" using w(2) by simp
    then have "v = vjoin c w" using r(2) v(1) v(2) [OF True] by (auto simp: vjoin_def fun_eq_iff)
    then show ?thesis using good_join [OF g(1) w(1)] by simp
  next
    case False
    then have "good M ts m (c(l := t))" using good_upd [OF g(1), of l t] r(1,3) by simp
    then show ?thesis using good_join [OF _ w(1)] unfolding v(1) by simp
  qed
qed

lemma producer_reads:
  assumes k: "sync_ok M vs ts H T U W m c0 c1"
    and r: "m l t = Some (Message d w)" "c0 l \<le> t" "l = QHead \<or> l = QTail"
    and v: "v = (if a then vjoin (c0(l := t)) w else c0(l := t))"
  shows "sync_ok M vs ts H T U W m v c1" "l = QTail \<Longrightarrow> d = T mod M"
    "l = QHead \<Longrightarrow> d = t mod M \<and> t \<le> v QHead \<and> v QHead \<le> H \<and> (T + 1) \<le> t + M"
proof -
  have g: "good M ts m c0" and cs: "counter M QHead H m" "counter M QTail T m" "counter M QTailUpdate U m"
    and c: "c0 QTail = T" "c0 QTailUpdate = U" "covers M ts W c0" "T + 1 \<le> c0 QHead + M"
    using k by (simp_all add: sync_ok_def)
  note rv = read_view [OF k g _ r(1,2) _ v]
  have gv: "good M ts m v" "\<And>k. c0 k \<le> v k" "t \<le> v l" using rv r(3) by auto
  have "v QTail \<le> T" "v QTailUpdate \<le> U" "v QHead \<le> H" using gv(1) cs counter_le unfolding good_def by metis+
  then have e: "v QTail = T" "v QTailUpdate = U" using gv(2) c(1,2) by (metis le_antisym)+
  have "covers M ts W v" using c(3) gv(2) unfolding covers_def by (meson le_trans)
  moreover have "T + 1 \<le> v QHead + M" using c(4) gv(2) [of QHead] by linarith
  ultimately show "sync_ok M vs ts H T U W m v c1" using k gv(1) e unfolding sync_ok_def by simp
  show "l = QTail \<Longrightarrow> d = T mod M" using counter_val [OF cs(2)] r(1,2) c(1) by force
  show "l = QHead \<Longrightarrow> d = t mod M \<and> t \<le> v QHead \<and> v QHead \<le> H \<and> T + 1 \<le> t + M"
    using counter_val [OF cs(1)] r(1,2) gv(3) \<open>v QHead \<le> H\<close> c(4) by force
qed

lemma consumer_reads:
  assumes k: "sync_ok M vs ts H T U W m c0 c1"
    and r: "m l t = Some (Message d w)" "c1 l \<le> t" "l = QHead \<or> l = QTail \<or> l = QTailUpdate"
    and v: "v = (if a then vjoin (c1(l := t)) w else c1(l := t))" "l = QTailUpdate \<Longrightarrow> a"
  shows "sync_ok M vs ts H T U W m c0 v" "l = QHead \<Longrightarrow> d = H mod M" "c1 QTailUpdate \<le> v QTailUpdate"
    "l = QTailUpdate \<Longrightarrow> d = t mod M \<and> t \<le> v QTailUpdate \<and> H \<le> t"
proof -
  have g: "good M ts m c1" and cs: "counter M QHead H m" "counter M QTailUpdate U m"
    and c: "c1 QHead = H" "H \<le> c1 QTailUpdate"
    using k by (simp_all add: sync_ok_def)
  note rv = read_view [OF k g _ r(1,2) _ v(1)]
  have gv: "good M ts m v" "\<And>k. c1 k \<le> v k" "t \<le> v l" using rv r(3) v(2) by auto
  have "v QHead \<le> H" using gv(1) cs counter_le unfolding good_def by metis
  then have e: "v QHead = H" using gv(2) c(1) by (metis le_antisym)
  have "H \<le> v QTailUpdate" using c(2) gv(2) [of QTailUpdate] by linarith
  then show "sync_ok M vs ts H T U W m c0 v" using k gv(1) e unfolding sync_ok_def by simp
  show "l = QHead \<Longrightarrow> d = H mod M" using counter_val [OF cs(1)] r(1,2) c(1) by force
  show "c1 QTailUpdate \<le> v QTailUpdate" by (rule gv(2))
  show "l = QTailUpdate \<Longrightarrow> d = t mod M \<and> t \<le> v QTailUpdate \<and> H \<le> t"
    using counter_val [OF cs(2)] r(1,2) gv(3) c(2) by force
qed

text \<open>Raising a counter.\<close>

lemma msgs_ok_put:
  assumes "msgs_ok M ts m" "m' = m(l := (m l)(t \<mapsto> Message d w))" "good M ts m' w" "l = QTailUpdate \<Longrightarrow> t \<le> w QTailUpdate"
  shows "msgs_ok M ts m'"
  unfolding msgs_ok_def
proof (intro allI impI)
  fix k u e x assume a: "m' k u = Some (Message e x)"
  show "good M ts m' x \<and> (k = QTailUpdate \<longrightarrow> u \<le> x QTailUpdate)"
  proof (cases "k = l \<and> u = t")
    case True
    then show ?thesis using a assms(2-4) by auto
  next
    case False
    then have "m k u = Some (Message e x)" using a assms(2) by (auto split: if_splits)
    then have "good M ts m x \<and> (k = QTailUpdate \<longrightarrow> u \<le> x QTailUpdate)" using assms(1) unfolding msgs_ok_def by blast
    then show ?thesis using good_more assms(2) by auto
  qed
qed

lemma raise_msgs:
  assumes k: "msgs_ok M ts m" "good M ts m c" and r: "m l t = Some (Message d0 w)" and l: "is_counter l"
    and c: "l = QTailUpdate \<Longrightarrow> covers M ts (Suc t) c"
    and m: "m' = m(l := (m l)(Suc t \<mapsto> Message d (vjoin w (c(l := Suc t)))))"
  shows "msgs_ok M ts m'" "good M ts m' (c(l := Suc t))"
proof -
  have "m' k ((c(l := Suc t)) k) \<noteq> None" for k using k(2) m by (auto simp: good_def)
  moreover have "covers M ts ((c(l := Suc t)) QTailUpdate) (c(l := Suc t))"
    using c k(2) l by (auto simp: covers_upd good_def)
  ultimately show g: "good M ts m' (c(l := Suc t))" by (simp add: good_def)
  have "good M ts m w" using k(1) r unfolding msgs_ok_def by blast
  then have "good M ts m' w" using good_more m by simp
  then have "good M ts m' (vjoin w (c(l := Suc t)))" using g by (rule good_join)
  then show "msgs_ok M ts m'" by (rule msgs_ok_put [OF k(1) m]) (simp add: vjoin_def)
qed

lemma claim_ok:
  assumes k: "sync_ok M vs ts H T U W m c0 c1" and r: "m QTail T = Some (Message d0 w)"
    and c: "U = T" "T < length vs" "T + 2 \<le> c0 QHead + M"
    and m: "m' = m(QTail := (m QTail)(Suc T \<mapsto> Message (Suc T mod M) (vjoin w (c0(QTail := Suc T)))))"
  shows "sync_ok M vs ts H (Suc T) U W m' (c0(QTail := Suc T)) c1"
proof -
  have "msgs_ok M ts m" "good M ts m c0" "good M ts m c1" using k by (simp_all add: sync_ok_def)
  note rm = raise_msgs [OF this(1,2) r _ _ m] and g1 = this(3)
  have "good M ts m' c1" using g1 good_more m by simp
  then show ?thesis
    using k c rm by (simp add: sync_ok_def m counter_raise counter_other stored_other covers_upd)
qed

lemma publish_ok:
  assumes k: "sync_ok M vs ts H T U W m c0 c1" and r: "m QTailUpdate U = Some (Message d0 w)" and c: "W = Suc U"
    and m: "m' = m(QTailUpdate := (m QTailUpdate)(Suc U \<mapsto> Message (Suc U mod M) (vjoin w (c0(QTailUpdate := Suc U)))))"
  shows "sync_ok M vs ts H T (Suc U) W m' (c0(QTailUpdate := Suc U)) c1"
proof -
  have "msgs_ok M ts m" "good M ts m c0" "good M ts m c1" "covers M ts (Suc U) c0" using k c by (simp_all add: sync_ok_def)
  note rm = raise_msgs [OF this(1,2) r _ this(4) m] and g1 = this(3)
  have "good M ts m' c1" using g1 good_more m by simp
  then show ?thesis
    using k c rm by (simp add: sync_ok_def m counter_raise counter_other stored_other covers_upd)
qed

lemma popped_ok:
  assumes k: "sync_ok M vs ts H T U W m c0 c1" and r: "m QHead H = Some (Message d0 w)" and c: "H < c1 QTailUpdate"
    and m: "m' = m(QHead := (m QHead)(Suc H \<mapsto> Message (Suc H mod M) (vjoin w (c1(QHead := Suc H)))))"
  shows "sync_ok M vs ts (Suc H) T U W m' c0 (c1(QHead := Suc H))"
proof -
  have "msgs_ok M ts m" "good M ts m c1" "good M ts m c0" using k by (simp_all add: sync_ok_def)
  note rm = raise_msgs [OF this(1,2) r _ _ m] and g0 = this(3)
  have "good M ts m' c0" using g0 good_more m by simp
  then show ?thesis
    using k c rm by (simp add: sync_ok_def m counter_raise counter_other stored_other covers_upd)
qed

text \<open>Writing and reading a slot.\<close>

lemma slot_newest:
  assumes k: "sync_ok M vs ts H T U W m c0 c1" and t: "m (QSlot x) t \<noteq> None"
  shows "t \<le> c0 (QSlot x)"
proof -
  have "stored M vs ts W m" "covers M ts W c0" using k by (simp_all add: sync_ok_def)
  then have "t = 0 \<or> (\<exists>j<W. j mod M = x \<and> t = ts j)" "\<forall>j<W. ts j \<le> c0 (QSlot (j mod M))"
    using t unfolding stored_def covers_def by blast+
  then show ?thesis by auto
qed

lemma good_ts: "good M ts m v \<Longrightarrow> v QTailUpdate \<le> W \<Longrightarrow> good M (ts(W := t)) m v"
  by (simp add: good_def covers_def)

lemma store_ok:
  assumes k: "sync_ok M vs ts H T U W m c0 c1" and c: "W = U" "T = Suc U" "c0 (QSlot (U mod M)) < t"
    and m: "m' = m(QSlot (U mod M) := (m (QSlot (U mod M)))(t \<mapsto> Message (vs ! U) ((\<lambda>_. 0)(QSlot (U mod M) := t))))"
  shows "sync_ok M vs (ts(W := t)) H T U (Suc W) m' (c0(QSlot (U mod M) := t)) c1"
proof -
  let ?x = "QSlot (U mod M)"
  let ?ts = "ts(W := t)"
  have cs: "counter M QTailUpdate U m" "counter M QHead H m" "counter M QTail T m" and st: "stored M vs ts W m"
    and ms: "msgs_ok M ts m" and g: "good M ts m c0" "good M ts m c1" and cv: "covers M ts W c0"
    using k by (simp_all add: sync_ok_def)
  have le: "v QTailUpdate \<le> W" if "good M ts m v" for v
    using that counter_le [OF cs(1)] c(1) unfolding good_def by blast
  have gd: "good M ?ts m' v" if "good M ts m v" for v
    using good_more [OF good_ts [OF that le [OF that]]] m by simp
  have ex: "m l 0 \<noteq> None" for l
    using st counter_le [OF cs(1), of 0] counter_le [OF cs(2), of 0] counter_le [OF cs(3), of 0]
    by (cases l) (simp_all add: stored_def)
  have w: "good M ?ts m' ((\<lambda>_. 0)(?x := t))" using ex m by (simp add: good_def covers_def)
  have "msgs_ok M ?ts m'"
    unfolding msgs_ok_def
  proof (intro allI impI)
    fix l u d v assume a: "m' l u = Some (Message d v)"
    show "good M ?ts m' v \<and> (l = QTailUpdate \<longrightarrow> u \<le> v QTailUpdate)"
    proof (cases "l = ?x \<and> u = t")
      case True
      then show ?thesis using a m w by auto
    next
      case False
      then have "m l u = Some (Message d v)" using a m by (auto split: if_splits)
      then show ?thesis using ms gd unfolding msgs_ok_def by blast
    qed
  qed
  moreover have "good M ?ts m' (c0(?x := t))"
  proof -
    have "covers M ?ts (c0 QTailUpdate) (c0(?x := t))"
      using gd [OF g(1)] c(3) unfolding good_def covers_def by (auto split: if_splits intro: less_imp_le order_trans)
    moreover have "m' l ((c0(?x := t)) l) \<noteq> None" for l using g(1) m by (cases "l = ?x") (simp_all add: good_def)
    ultimately show ?thesis by (simp add: good_def)
  qed
  moreover have "covers M ?ts (Suc W) (c0(?x := t))"
    using cv c by (auto simp: covers_def less_Suc_eq intro: less_imp_le order_trans)
  moreover have "stored M vs ?ts (Suc W) m'"
  proof -
    have old: "ts j < t" if "j < W" "j mod M = U mod M" for j
      using cv that c(3) unfolding covers_def by (metis le_less_trans)
    show ?thesis
      unfolding stored_def
    proof (intro conjI allI impI)
      fix y show "m' (QSlot y) 0 \<noteq> None" using ex m by simp
    next
      fix j assume "j < Suc W" then show "0 < ?ts j" using st c(3) by (auto simp: stored_def less_Suc_eq)
    next
      fix y u assume a: "m' (QSlot y) u \<noteq> None"
      show "u = 0 \<or> (\<exists>j<Suc W. j mod M = y \<and> u = ?ts j)"
      proof (cases "y = U mod M \<and> u = t")
        case True
        then show ?thesis using c(1) by auto
      next
        case False
        then have "m (QSlot y) u \<noteq> None" using a m by (auto split: if_splits)
        then obtain j where "u = 0 \<or> j < W \<and> j mod M = y \<and> u = ts j" using st unfolding stored_def by blast
        then show ?thesis by (auto intro!: exI [of _ j])
      qed
    next
      fix j assume j: "j < Suc W"
      show "\<exists>w. m' (QSlot (j mod M)) (?ts j) = Some (Message (vs ! j) w)"
      proof (cases "j = W")
        case True
        then show ?thesis using m c(1) by simp
      next
        case False
        then have l: "j < W" using j by simp
        then obtain w where "m (QSlot (j mod M)) (ts j) = Some (Message (vs ! j) w)" using st unfolding stored_def by blast
        moreover have "j mod M = U mod M \<Longrightarrow> ts j \<noteq> t" using old [OF l] by blast
        ultimately show ?thesis using m False by auto
      qed
    next
      fix i j assume ij: "i < j" "j < Suc W" "i mod M = j mod M"
      show "?ts i < ?ts j"
      proof (cases "j = W")
        case True
        then show ?thesis using ij old [of i] c(1) by simp
      next
        case False
        then show ?thesis using ij st by (simp add: stored_def)
      qed
    qed
  qed
  ultimately show ?thesis
    using k gd [OF g(2)] c by (simp add: sync_ok_def m counter_other)
qed

lemma same_slot:
  assumes "j mod M = H mod M" "H \<le> j" "j < H + M"
  shows "j = (H :: nat)"
proof -
  have "(j - H) mod M = 0" using assms(1,2) by (metis mod_eq_dvd_iff_nat mod_0_imp_dvd dvd_imp_mod_0)
  moreover have "j - H < M" using assms(2,3) by linarith
  ultimately show ?thesis using assms(2) by simp
qed

lemma slot_read:
  assumes k: "sync_ok M vs ts H T U W m c0 c1" and h: "H < c1 QTailUpdate"
  shows "\<exists>w. m (QSlot (H mod M)) (c1 (QSlot (H mod M))) = Some (Message (vs ! H) w)"
    "m (QSlot (H mod M)) t \<noteq> None \<Longrightarrow> t \<le> c1 (QSlot (H mod M))" "H < T"
proof -
  let ?x = "QSlot (H mod M)"
  have st: "stored M vs ts W m" and g: "good M ts m c1" and b: "c0 QHead \<le> H" "T + 1 \<le> c0 QHead + M" "W \<le> T" "c1 QTailUpdate \<le> U" "U \<le> W"
    using k good_le [of M ts m] unfolding sync_ok_def by blast+
  have HW: "H < W" and tsH: "ts H \<le> c1 ?x" using h b g by (auto simp: good_def covers_def)
  then show "H < T" using b by linarith
  have le: "u \<le> ts H" if u: "m ?x u \<noteq> None" for u
  proof -
    obtain j where j: "u = 0 \<or> j < W \<and> j mod M = H mod M \<and> u = ts j" using st u unfolding stored_def by blast
    show ?thesis
    proof (cases "u = 0")
      case False
      then have j': "j < W" "j mod M = H mod M" "u = ts j" using j by auto
      show ?thesis
      proof (cases "j < H")
        case True
        then show ?thesis using st j' HW unfolding stored_def by (metis less_imp_le)
      next
        case False
        then have "j = H" using same_slot [of j M H] j' b by linarith
        then show ?thesis using j' by simp
      qed
    qed simp
  qed
  have "m ?x (c1 ?x) \<noteq> None" using g by (simp add: good_def)
  then have e: "c1 ?x = ts H" using le tsH by (metis le_antisym)
  show "\<exists>w. m ?x (c1 ?x) = Some (Message (vs ! H) w)" using st HW unfolding e stored_def by blast
  show "m ?x t \<noteq> None \<Longrightarrow> t \<le> c1 ?x" using le e by simp
qed

section \<open>Steps of the machine\<close>

lemma sync_load:
  assumes "mem_exec (i, t) s = Some s'" "th_prog (ms_thread s i) = Load l mo k" "mo \<noteq> SeqCst"
  obtains d w where "msg_at s l t = Some (Message d w)" "th_cur (ms_thread s i) l \<le> t" "msg_at s' = msg_at s" "ms_fault s' = ms_fault s"
    "\<And>j. j \<noteq> i \<Longrightarrow> ms_thread s' j = ms_thread s j" "th_prog (ms_thread s' i) = k d" "th_rel (ms_thread s' i) = th_rel (ms_thread s i)"
    "th_cur (ms_thread s' i) = (if acquires mo then vjoin ((th_cur (ms_thread s i))(l := t)) w else (th_cur (ms_thread s i))(l := t))"
proof -
  obtain d w where m: "map_of (ms_mem s l) t = Some (Message d w)" "th_cur (ms_thread s i) l \<le> t"
    using assms by (auto split: option.splits message.splits if_splits)
  then have s': "s' = set_thread i ((see l t w mo (ms_thread s i))\<lparr>th_prog := k d\<rparr>) s"
    using assms by (simp add: sc_update_def Let_def)
  have "msg_at s' = msg_at s" by (simp add: s' set_thread_def msg_at_def fun_eq_iff)
  then show thesis
    using that [of d w] m by (simp add: s' set_thread_def see_def msg_at_def Let_def)
qed

lemma load_relaxed:
  assumes "mem_exec (i, t) s = Some s'" "th_prog (ms_thread s i) = Load l Relaxed k"
  obtains d w where "msg_at s l t = Some (Message d w)" "th_cur (ms_thread s i) l \<le> t" "msg_at s' = msg_at s" "ms_fault s' = ms_fault s"
    "\<And>j. j \<noteq> i \<Longrightarrow> ms_thread s' j = ms_thread s j" "th_prog (ms_thread s' i) = k d" "th_rel (ms_thread s' i) = th_rel (ms_thread s i)"
    "th_cur (ms_thread s' i) = (th_cur (ms_thread s i))(l := t)"
  by (rule sync_load [OF assms]) (simp_all add: that)

lemma load_acquire:
  assumes "mem_exec (i, t) s = Some s'" "th_prog (ms_thread s i) = Load l Acquire k"
  obtains d w where "msg_at s l t = Some (Message d w)" "th_cur (ms_thread s i) l \<le> t" "msg_at s' = msg_at s" "ms_fault s' = ms_fault s"
    "\<And>j. j \<noteq> i \<Longrightarrow> ms_thread s' j = ms_thread s j" "th_prog (ms_thread s' i) = k d" "th_rel (ms_thread s' i) = th_rel (ms_thread s i)"
    "th_cur (ms_thread s' i) = vjoin ((th_cur (ms_thread s i))(l := t)) w"
  by (rule sync_load [OF assms]) (simp_all add: that)

lemma cas_step:
  assumes "mem_exec (i, t) s = Some s'" "th_prog (ms_thread s i) = Cas l x y c k"
    and own: "\<And>d w. msg_at s l t = Some (Message d w) \<Longrightarrow> th_cur (ms_thread s i) l \<le> t \<Longrightarrow> d = x" and c: "c x"
  obtains w where "msg_at s l t = Some (Message x w)" "th_cur (ms_thread s i) l \<le> t"
    "msg_at s' = (msg_at s)(l := (msg_at s l)(Suc t \<mapsto> Message y (vjoin w ((th_cur (ms_thread s i))(l := Suc t)))))"
    "ms_fault s' = ms_fault s" "\<And>j. j \<noteq> i \<Longrightarrow> ms_thread s' j = ms_thread s j" "th_prog (ms_thread s' i) = k x"
    "th_rel (ms_thread s' i) = th_rel (ms_thread s i)" "th_cur (ms_thread s' i) = (th_cur (ms_thread s i))(l := Suc t)"
proof -
  obtain d w where m: "map_of (ms_mem s l) t = Some (Message d w)" "th_cur (ms_thread s i) l \<le> t"
    using assms(1,2) by (auto split: option.splits message.splits if_splits)
  have d: "d = x" using own [of d w] m by (simp add: msg_at_def)
  have s': "s' = put i l (Suc t) y Release w (see l t w Release (ms_thread s i)) (k x) s"
    using assms(1,2) m c by (simp add: d Let_def split: if_splits)
  have "msg_at s' q = ((msg_at s)(l := (msg_at s l)(Suc t \<mapsto> Message y (vjoin w ((th_cur (ms_thread s i))(l := Suc t)))))) q" for q
    unfolding s' at_put by (simp add: see_def)
  then have "msg_at s' = (msg_at s)(l := (msg_at s l)(Suc t \<mapsto> Message y (vjoin w ((th_cur (ms_thread s i))(l := Suc t)))))"
    by (simp add: fun_eq_iff)
  then show thesis
    using that [of w] m by (simp add: s' d put_def sc_update_def set_thread_def see_def msg_at_def Let_def)
qed

lemma write_step:
  assumes "mem_exec (i, t) s = Some s'" "th_prog (ms_thread s i) = Write l d k" "newest s l (th_cur (ms_thread s i) l)"
    "th_rel (ms_thread s i) = (\<lambda>_. 0)"
  shows "th_cur (ms_thread s i) l < t" "msg_at s' = (msg_at s)(l := (msg_at s l)(t \<mapsto> Message d ((\<lambda>_. 0)(l := t))))"
    "ms_fault s' = ms_fault s" "\<And>j. j \<noteq> i \<Longrightarrow> ms_thread s' j = ms_thread s j" "th_prog (ms_thread s' i) = k"
    "th_rel (ms_thread s' i) = (\<lambda>_. 0)" "th_cur (ms_thread s' i) = (th_cur (ms_thread s i))(l := t)"
proof -
  show "th_cur (ms_thread s i) l < t" using assms by (auto split: if_splits)
  then have s': "s' = put i l t d Relaxed (\<lambda>_. 0) (ms_thread s i) k s" using assms by simp
  have v: "vjoin (\<lambda>_. 0) ((\<lambda>_. 0)(l := t)) = ((\<lambda>_. 0)(l := t))" by (rule ext) (simp add: vjoin_def)
  have "msg_at s' q = ((msg_at s)(l := (msg_at s l)(t \<mapsto> Message d ((\<lambda>_. 0)(l := t))))) q" for q
    unfolding s' at_put by (simp add: assms(4) v)
  then show "msg_at s' = (msg_at s)(l := (msg_at s l)(t \<mapsto> Message d ((\<lambda>_. 0)(l := t))))" by (simp add: fun_eq_iff)
qed (use assms in \<open>auto simp: put_def sc_update_def set_thread_def Let_def split: if_splits\<close>)

lemma read_step:
  assumes "mem_exec (i, t) s = Some s'" "th_prog (ms_thread s i) = Read l k" "newest s l (th_cur (ms_thread s i) l)"
    "msg_at s l (th_cur (ms_thread s i) l) = Some (Message v w)"
  shows "msg_at s' = msg_at s" "ms_fault s' = ms_fault s" "ms_thread s' = (ms_thread s)(i := (ms_thread s i)\<lparr>th_prog := k v\<rparr>)"
proof -
  have s': "s' = set_thread i ((ms_thread s i)\<lparr>th_prog := k v\<rparr>) s" using assms by (simp add: msg_at_def)
  then show "msg_at s' = msg_at s" by (simp add: set_thread_def msg_at_def fun_eq_iff)
  show "ms_fault s' = ms_fault s" "ms_thread s' = (ms_thread s)(i := (ms_thread s i)\<lparr>th_prog := k v\<rparr>)"
    by (simp_all add: s' set_thread_def)
qed

section \<open>The invariant\<close>

inductive prod_at :: "nat \<Rightarrow> nat \<Rightarrow> nat list \<Rightarrow> nat \<Rightarrow> nat \<Rightarrow> nat \<Rightarrow> nat \<Rightarrow> sync_var prog \<Rightarrow> bool" for M n vs where
  prod_end: "prod_at M n vs T U W hp Finish"
| prod_next: "prod_at M n vs T T T hp (producer M n a (drop T vs))"
| prod_head: "T < length vs \<Longrightarrow> prod_at M n vs T T T hp
    (push_head M (T mod M) (producer M n a (drop T vs)) (push_cas M (T mod M) (vs ! T) (producer M n a (drop (Suc T) vs)) again))"
| prod_cas: "T < length vs \<Longrightarrow> T + 2 \<le> hp + M \<Longrightarrow> prod_at M n vs T T T hp
    (push_cas M (T mod M) (vs ! T) (producer M n a (drop (Suc T) vs)) again)"
| prod_store: "prod_at M n vs (Suc T) T T hp (push_store M (T mod M) (vs ! T) (producer M n a (drop (Suc T) vs)))"
| prod_update: "prod_at M n vs (Suc T) T (Suc T) hp (push_update M (T mod M) (producer M n a (drop (Suc T) vs)))"

inductive cons_at :: "nat \<Rightarrow> nat \<Rightarrow> nat list \<Rightarrow> nat \<Rightarrow> nat \<Rightarrow> sync_var prog \<Rightarrow> bool" for M n vs where
  cons_end: "cons_at M n vs H u Finish"
| cons_next: "cons_at M n vs H u (consumer M n a (drop H vs))"
| cons_tail: "cons_at M n vs H u (pop_tail (H mod M) (consumer M n a (drop H vs))
    (pop_read M (H mod M) (expect_val (consumer M n a) (drop H vs)) again))"
| cons_update: "cons_at M n vs H u (pop_update (H mod M) (consumer M n a (drop H vs))
    (pop_read M (H mod M) (expect_val (consumer M n a) (drop H vs)) again))"
| cons_read: "H < u \<Longrightarrow> cons_at M n vs H u (pop_read M (H mod M) (expect_val (consumer M n a) (drop H vs)) again)"
| cons_cas: "H < u \<Longrightarrow> cons_at M n vs H u (pop_cas M (H mod M) (expect_val (consumer M n a) (drop H vs) (vs ! H)) again)"
| cons_check: "cons_at M n vs H u (Check True (consumer M n a (drop H vs)))"

definition sync_inv :: "nat \<Rightarrow> nat \<Rightarrow> nat list \<Rightarrow> sync_var mem_state \<Rightarrow> bool" where
  "sync_inv M n vs s \<longleftrightarrow> ms_fault s = None \<and> th_rel (ms_thread s 0) = (\<lambda>_. 0) \<and>
     (\<forall>i. 1 < i \<longrightarrow> th_prog (ms_thread s i) = Finish) \<and>
     (\<exists>ts H T U W. sync_ok M vs ts H T U W (msg_at s) (th_cur (ms_thread s 0)) (th_cur (ms_thread s 1)) \<and>
        prod_at M n vs T U W (th_cur (ms_thread s 0) QHead) (th_prog (ms_thread s 0)) \<and>
        cons_at M n vs H (th_cur (ms_thread s 1) QTailUpdate) (th_prog (ms_thread s 1)))"

lemma sync_inv_intro:
  assumes "ms_fault s = None" "th_rel (ms_thread s 0) = (\<lambda>_. 0)" "\<And>i. 1 < i \<Longrightarrow> th_prog (ms_thread s i) = Finish"
    and "sync_ok M vs ts H T U W (msg_at s) (th_cur (ms_thread s 0)) (th_cur (ms_thread s 1))"
    and "prod_at M n vs T U W (th_cur (ms_thread s 0) QHead) (th_prog (ms_thread s 0))"
    and "cons_at M n vs H (th_cur (ms_thread s 1) QTailUpdate) (th_prog (ms_thread s 1))"
  shows "sync_inv M n vs s"
  using assms unfolding sync_inv_def by blast

lemma mem_exec_Finish: "mem_exec (i, t) s = Some s' \<Longrightarrow> th_prog (ms_thread s i) \<noteq> Finish"
  by auto

lemma producer_cases:
  assumes "producer M n a (drop T vs) \<noteq> Finish"
  obtains b again where "T < length vs" "producer M n a (drop T vs) =
    Load QTail Relaxed (\<lambda>t. push_head M t (producer M n b (drop T vs)) (push_cas M t (vs ! T) (producer M n b (drop (Suc T) vs)) again))"
proof -
  obtain b where a: "a = Suc b" using assms by (cases a) auto
  have T: "T < length vs"
  proof (rule ccontr)
    assume "\<not> T < length vs"
    then show False using assms by (simp add: a)
  qed
  then have d: "drop T vs = vs ! T # drop (Suc T) vs" by (simp add: Cons_nth_drop_Suc)
  obtain k where n: "n = Suc k" using assms d a by (cases n) auto
  show thesis using that [of b] T by (simp add: a n d)
qed

lemma consumer_cases:
  assumes "consumer M n a (drop H vs) \<noteq> Finish"
  obtains b again where "consumer M n a (drop H vs) = Load QHead Relaxed (\<lambda>h. pop_tail h (consumer M n b (drop H vs))
    (pop_read M h (expect_val (consumer M n b) (drop H vs)) again))"
proof -
  obtain b where a: "a = Suc b" using assms by (cases a) auto
  obtain k where n: "n = Suc k" using assms a by (cases n) auto
  show thesis using that [of b] by (simp add: a n)
qed

lemma sync_producer:
  assumes v: "sync_inv M n vs s" and e: "mem_exec (0, t) s = Some s'"
  shows "sync_inv M n vs s'"
proof -
  let ?c0 = "th_cur (ms_thread s 0)"
  obtain ts H T U W where k: "sync_ok M vs ts H T U W (msg_at s) ?c0 (th_cur (ms_thread s 1))"
    and p: "prod_at M n vs T U W (?c0 QHead) (th_prog (ms_thread s 0))"
    and c: "cons_at M n vs H (th_cur (ms_thread s 1) QTailUpdate) (th_prog (ms_thread s 1))"
    and f: "ms_fault s = None" "th_rel (ms_thread s 0) = (\<lambda>_. 0)" "\<And>i. 1 < i \<Longrightarrow> th_prog (ms_thread s i) = Finish"
    using v unfolding sync_inv_def by blast
  have cs: "counter M QTail T (msg_at s)" "counter M QTailUpdate U (msg_at s)" "?c0 QTail = T" "?c0 QTailUpdate = U"
    using k by (simp_all add: sync_ok_def)
  have others: "sync_inv M n vs s'"
    if "ms_fault s' = ms_fault s" "\<And>j. j \<noteq> 0 \<Longrightarrow> ms_thread s' j = ms_thread s j" "th_rel (ms_thread s' 0) = (\<lambda>_. 0)"
      "sync_ok M vs ts' H T' U' W' (msg_at s') (th_cur (ms_thread s' 0)) (th_cur (ms_thread s 1))"
      "prod_at M n vs T' U' W' (th_cur (ms_thread s' 0) QHead) (th_prog (ms_thread s' 0))" for ts' T' U' W'
    using that f c by (intro sync_inv_intro) simp_all
  from p show ?thesis
  proof cases
    case prod_end
    then show ?thesis using mem_exec_Finish [OF e] by simp
  next
    case (prod_next a)
    then have "producer M n a (drop T vs) \<noteq> Finish" using mem_exec_Finish [OF e] by simp
    then obtain b again where P0: "T < length vs" "producer M n a (drop T vs) = Load QTail Relaxed (\<lambda>t. push_head M t (producer M n b (drop T vs))
        (push_cas M t (vs ! T) (producer M n b (drop (Suc T) vs)) again))"
      by (rule producer_cases)
    then have P: "T < length vs" "th_prog (ms_thread s 0) = Load QTail Relaxed (\<lambda>t. push_head M t (producer M n b (drop T vs))
        (push_cas M t (vs ! T) (producer M n b (drop (Suc T) vs)) again))"
      using prod_next(3) by simp_all
    obtain d w where L: "msg_at s QTail t = Some (Message d w)" "?c0 QTail \<le> t" "msg_at s' = msg_at s"
      "ms_fault s' = ms_fault s" "\<And>j. j \<noteq> 0 \<Longrightarrow> ms_thread s' j = ms_thread s j"
      "th_prog (ms_thread s' 0) = push_head M d (producer M n b (drop T vs)) (push_cas M d (vs ! T) (producer M n b (drop (Suc T) vs)) again)"
      "th_rel (ms_thread s' 0) = th_rel (ms_thread s 0)" "th_cur (ms_thread s' 0) = ?c0(QTail := t)"
      by (rule load_relaxed [OF e P(2)]) (rule that; simp)
    note r = producer_reads [OF k L(1,2), of "?c0(QTail := t)" False]
    show ?thesis
      using L f(2) r prod_next(1,2) P(1) by (intro others [of ts T U W]) (simp_all add: prod_head)
  next
    case (prod_head a again)
    have P: "th_prog (ms_thread s 0) = Load QHead Acquire (\<lambda>h. if (T mod M + 1) mod M = h then producer M n a (drop T vs)
        else push_cas M (T mod M) (vs ! T) (producer M n a (drop (Suc T) vs)) again)"
      using prod_head by (simp add: push_head_def)
    obtain d w where L: "msg_at s QHead t = Some (Message d w)" "?c0 QHead \<le> t"
      "msg_at s' = msg_at s" "ms_fault s' = ms_fault s" "\<And>j. j \<noteq> 0 \<Longrightarrow> ms_thread s' j = ms_thread s j"
      "th_prog (ms_thread s' 0) = (if (T mod M + 1) mod M = d then producer M n a (drop T vs)
         else push_cas M (T mod M) (vs ! T) (producer M n a (drop (Suc T) vs)) again)"
      "th_rel (ms_thread s' 0) = th_rel (ms_thread s 0)" "th_cur (ms_thread s' 0) = vjoin (?c0(QHead := t)) w"
      by (rule load_acquire [OF e P]) (rule that; simp)
    note r = producer_reads [OF k L(1,2), of "vjoin (?c0(QHead := t)) w" True]
    let ?v = "vjoin (?c0(QHead := t)) w"
    have "prod_at M n vs T U W (?v QHead) (th_prog (ms_thread s' 0))"
    proof (cases "(T mod M + 1) mod M = d")
      case True
      then show ?thesis using L(6) prod_head(1,2) by (simp add: prod_at.prod_next)
    next
      case False
      have "d = t mod M" "t \<le> ?v QHead" "T + 1 \<le> t + M" using r(3) by simp_all
      moreover have "(T mod M + 1) mod M = (T + 1) mod M" by (simp add: mod_simps)
      ultimately have "T + 1 \<noteq> t + M" using False by (metis mod_add_self2)
      then have "T + 2 \<le> ?v QHead + M" using \<open>t \<le> ?v QHead\<close> \<open>T + 1 \<le> t + M\<close> by linarith
      then show ?thesis using L(6) False prod_head(1,2,4) by (simp add: prod_at.prod_cas)
    qed
    then show ?thesis using L f(2) r by (intro others [of ts T U W]) simp_all
  next
    case (prod_cas a again)
    have t: "t = T \<and> d = T mod M" if "msg_at s QTail t = Some (Message d w)" "?c0 QTail \<le> t" for d w
      using counter_val [OF cs(1) that(1)] that(2) cs(3) by simp
    have P: "th_prog (ms_thread s 0) = Cas QTail (T mod M) ((T mod M + 1) mod M) (\<lambda>_. True)
        (\<lambda>x. if x = T mod M then push_store M (T mod M) (vs ! T) (producer M n a (drop (Suc T) vs)) else again)"
      using prod_cas by (simp add: push_cas_def)
    obtain w where L: "msg_at s QTail t = Some (Message (T mod M) w)" "?c0 QTail \<le> t"
      "msg_at s' = (msg_at s)(QTail := (msg_at s QTail)(Suc t \<mapsto> Message ((T mod M + 1) mod M) (vjoin w (?c0(QTail := Suc t)))))"
      "ms_fault s' = ms_fault s" "\<And>j. j \<noteq> 0 \<Longrightarrow> ms_thread s' j = ms_thread s j"
      "th_prog (ms_thread s' 0) = (if T mod M = T mod M then push_store M (T mod M) (vs ! T) (producer M n a (drop (Suc T) vs)) else again)"
      "th_rel (ms_thread s' 0) = th_rel (ms_thread s 0)" "th_cur (ms_thread s' 0) = ?c0(QTail := Suc t)"
      by (rule cas_step [OF e P]) ((rule t [THEN conjunct2]; assumption), simp, (rule that; simp))
    have tT: "t = T" using t L(1,2) by blast
    have "(T mod M + 1) mod M = Suc T mod M" by (simp add: mod_simps)
    then have "sync_ok M vs ts H (Suc T) U W (msg_at s') (?c0(QTail := Suc T)) (th_cur (ms_thread s 1))"
      using claim_ok [OF k, of "T mod M" w] L(1,3) prod_cas tT by simp
    then show ?thesis
      using L f(2) prod_cas(1,2) tT prod_at.prod_store [of M n vs T _ a] by (intro others [of ts "Suc T" U W]) simp_all
  next
    case (prod_store a)
    have ok: "newest s (QSlot (U mod M)) (?c0 (QSlot (U mod M)))"
      using slot_newest [OF k] by (simp add: newest_at)
    have P: "th_prog (ms_thread s 0) = Write (QSlot (U mod M)) (vs ! U) (push_update M (U mod M) (producer M n a (drop T vs)))"
      using prod_store by (simp add: push_store_def)
    note L = write_step [OF e P ok f(2)]
    have "sync_ok M vs (ts(W := t)) H T U (Suc W) (msg_at s') (?c0(QSlot (U mod M) := t)) (th_cur (ms_thread s 1))"
      using store_ok [OF k _ _ L(1,2)] prod_store by simp
    then show ?thesis
      using L prod_store prod_at.prod_update [of M n vs U] by (intro others [of "ts(W := t)" T U "Suc W"]) simp_all
  next
    case (prod_update a)
    have t: "t = U \<and> d = U mod M" if "msg_at s QTailUpdate t = Some (Message d w)" "?c0 QTailUpdate \<le> t" for d w
      using counter_val [OF cs(2) that(1)] that(2) cs(4) by simp
    have P: "th_prog (ms_thread s 0) = Cas QTailUpdate (U mod M) ((U mod M + 1) mod M) (\<lambda>v. v = U mod M) (\<lambda>_. producer M n a (drop T vs))"
      using prod_update by (simp add: push_update_def)
    obtain w where L: "msg_at s QTailUpdate t = Some (Message (U mod M) w)" "?c0 QTailUpdate \<le> t"
      "msg_at s' = (msg_at s)(QTailUpdate := (msg_at s QTailUpdate)(Suc t \<mapsto> Message ((U mod M + 1) mod M) (vjoin w (?c0(QTailUpdate := Suc t)))))"
      "ms_fault s' = ms_fault s" "\<And>j. j \<noteq> 0 \<Longrightarrow> ms_thread s' j = ms_thread s j"
      "th_prog (ms_thread s' 0) = producer M n a (drop T vs)"
      "th_rel (ms_thread s' 0) = th_rel (ms_thread s 0)" "th_cur (ms_thread s' 0) = ?c0(QTailUpdate := Suc t)"
      by (rule cas_step [OF e P]) ((rule t [THEN conjunct2]; assumption), simp, (rule that; simp))
    have tU: "t = U" using t L(1,2) by blast
    have "(U mod M + 1) mod M = Suc U mod M" by (simp add: mod_simps)
    then have "sync_ok M vs ts H T (Suc U) W (msg_at s') (?c0(QTailUpdate := Suc U)) (th_cur (ms_thread s 1))"
      using publish_ok [OF k, of "U mod M" w] L(1,3) prod_update tU by simp
    then show ?thesis
      using L f(2) prod_update tU prod_at.prod_next [of M n vs T] by (intro others [of ts T "Suc U" W]) simp_all
  qed
qed

lemma sync_consumer:
  assumes v: "sync_inv M n vs s" and e: "mem_exec (1, t) s = Some s'"
  shows "sync_inv M n vs s'"
proof -
  let ?c1 = "th_cur (ms_thread s 1)"
  obtain ts H T U W where k: "sync_ok M vs ts H T U W (msg_at s) (th_cur (ms_thread s 0)) ?c1"
    and p: "prod_at M n vs T U W (th_cur (ms_thread s 0) QHead) (th_prog (ms_thread s 0))"
    and c: "cons_at M n vs H (?c1 QTailUpdate) (th_prog (ms_thread s 1))"
    and f: "ms_fault s = None" "th_rel (ms_thread s 0) = (\<lambda>_. 0)" "\<And>i. 1 < i \<Longrightarrow> th_prog (ms_thread s i) = Finish"
    using v unfolding sync_inv_def by blast
  have cs: "counter M QHead H (msg_at s)" "?c1 QHead = H" using k by (simp_all add: sync_ok_def)
  have others: "sync_inv M n vs s'"
    if "ms_fault s' = ms_fault s" "\<And>j. j \<noteq> 1 \<Longrightarrow> ms_thread s' j = ms_thread s j"
      "sync_ok M vs ts H' T U W (msg_at s') (th_cur (ms_thread s 0)) (th_cur (ms_thread s' 1))"
      "cons_at M n vs H' (th_cur (ms_thread s' 1) QTailUpdate) (th_prog (ms_thread s' 1))" for H'
    using that f p by (intro sync_inv_intro) simp_all
  from c show ?thesis
  proof cases
    case cons_end
    then show ?thesis using mem_exec_Finish [OF e] by simp
  next
    case (cons_next a)
    then have "consumer M n a (drop H vs) \<noteq> Finish" using mem_exec_Finish [OF e] by simp
    then obtain b again where "consumer M n a (drop H vs) = Load QHead Relaxed (\<lambda>h. pop_tail h (consumer M n b (drop H vs))
        (pop_read M h (expect_val (consumer M n b) (drop H vs)) again))"
      by (rule consumer_cases)
    then have P: "th_prog (ms_thread s 1) = Load QHead Relaxed (\<lambda>h. pop_tail h (consumer M n b (drop H vs))
        (pop_read M h (expect_val (consumer M n b) (drop H vs)) again))"
      using cons_next by simp
    obtain d w where L: "msg_at s QHead t = Some (Message d w)" "?c1 QHead \<le> t" "msg_at s' = msg_at s"
      "ms_fault s' = ms_fault s" "\<And>j. j \<noteq> 1 \<Longrightarrow> ms_thread s' j = ms_thread s j"
      "th_prog (ms_thread s' 1) = pop_tail d (consumer M n b (drop H vs)) (pop_read M d (expect_val (consumer M n b) (drop H vs)) again)"
      "th_rel (ms_thread s' 1) = th_rel (ms_thread s 1)" "th_cur (ms_thread s' 1) = ?c1(QHead := t)"
      by (rule load_relaxed [OF e P]) (rule that; simp)
    note r = consumer_reads [OF k L(1,2), of "?c1(QHead := t)" False]
    show ?thesis using L r by (intro others [of H]) (simp_all add: cons_tail)
  next
    case (cons_tail a again)
    let ?none = "consumer M n a (drop H vs)"
    let ?next = "pop_update (H mod M) ?none (pop_read M (H mod M) (expect_val (consumer M n a) (drop H vs)) again)"
    have P: "th_prog (ms_thread s 1) = Load QTail Acquire (\<lambda>t. if H mod M = t then ?none else ?next)"
      using cons_tail by (simp add: pop_tail_def)
    obtain d w where L: "msg_at s QTail t = Some (Message d w)" "?c1 QTail \<le> t" "msg_at s' = msg_at s"
      "ms_fault s' = ms_fault s" "\<And>j. j \<noteq> 1 \<Longrightarrow> ms_thread s' j = ms_thread s j"
      "th_prog (ms_thread s' 1) = (if H mod M = d then ?none else ?next)"
      "th_rel (ms_thread s' 1) = th_rel (ms_thread s 1)" "th_cur (ms_thread s' 1) = vjoin (?c1(QTail := t)) w"
      by (rule load_acquire [OF e P]) (rule that; simp)
    note r = consumer_reads [OF k L(1,2), of "vjoin (?c1(QTail := t)) w" True]
    show ?thesis using L r by (intro others [of H]) (simp_all add: cons_at.cons_next cons_at.cons_update)
  next
    case (cons_update a again)
    let ?none = "consumer M n a (drop H vs)"
    let ?next = "pop_read M (H mod M) (expect_val (consumer M n a) (drop H vs)) again"
    have P: "th_prog (ms_thread s 1) = Load QTailUpdate Acquire (\<lambda>u. if H mod M = u then ?none else ?next)"
      using cons_update by (simp add: pop_update_def)
    obtain d w where L: "msg_at s QTailUpdate t = Some (Message d w)" "?c1 QTailUpdate \<le> t" "msg_at s' = msg_at s"
      "ms_fault s' = ms_fault s" "\<And>j. j \<noteq> 1 \<Longrightarrow> ms_thread s' j = ms_thread s j"
      "th_prog (ms_thread s' 1) = (if H mod M = d then ?none else ?next)"
      "th_rel (ms_thread s' 1) = th_rel (ms_thread s 1)" "th_cur (ms_thread s' 1) = vjoin (?c1(QTailUpdate := t)) w"
      by (rule load_acquire [OF e P]) (rule that; simp)
    let ?v = "vjoin (?c1(QTailUpdate := t)) w"
    note r = consumer_reads [OF k L(1,2), of ?v True]
    have "cons_at M n vs H (?v QTailUpdate) (th_prog (ms_thread s' 1))"
    proof (cases "H mod M = d")
      case True
      then show ?thesis using L(6) by (simp add: cons_at.cons_next)
    next
      case False
      have "d = t mod M" "t \<le> ?v QTailUpdate" "H \<le> t" using r(4) by simp_all
      then have "H < ?v QTailUpdate" using False by (metis le_neq_implies_less less_le_trans)
      then show ?thesis using L(6) False by (simp add: cons_at.cons_read)
    qed
    then show ?thesis using L r by (intro others [of H]) simp_all
  next
    case (cons_read a again)
    have P: "th_prog (ms_thread s 1) = Read (QSlot (H mod M)) (\<lambda>val. pop_cas M (H mod M) (expect_val (consumer M n a) (drop H vs) val) again)"
      using cons_read by (simp add: pop_read_def)
    have new: "newest s (QSlot (H mod M)) (?c1 (QSlot (H mod M)))"
      using slot_read(2) [OF k cons_read(2)] by (simp add: newest_at)
    obtain w where w: "msg_at s (QSlot (H mod M)) (?c1 (QSlot (H mod M))) = Some (Message (vs ! H) w)"
      using slot_read(1) [OF k cons_read(2)] by blast
    note L = read_step [OF e P new w]
    show ?thesis using L k cons_read by (intro others [of H]) (simp_all add: cons_at.cons_cas)
  next
    case (cons_cas a again)
    have t: "t = H \<and> d = H mod M" if "msg_at s QHead t = Some (Message d w)" "?c1 QHead \<le> t" for d w
      using counter_val [OF cs(1) that(1)] that(2) cs(2) by simp
    let ?ok = "expect_val (consumer M n a) (drop H vs) (vs ! H)"
    have P: "th_prog (ms_thread s 1) = Cas QHead (H mod M) ((H mod M + 1) mod M) (\<lambda>_. True) (\<lambda>x. if x = H mod M then ?ok else again)"
      using cons_cas by (simp add: pop_cas_def)
    obtain w where L: "msg_at s QHead t = Some (Message (H mod M) w)" "?c1 QHead \<le> t"
      "msg_at s' = (msg_at s)(QHead := (msg_at s QHead)(Suc t \<mapsto> Message ((H mod M + 1) mod M) (vjoin w (?c1(QHead := Suc t)))))"
      "ms_fault s' = ms_fault s" "\<And>j. j \<noteq> 1 \<Longrightarrow> ms_thread s' j = ms_thread s j"
      "th_prog (ms_thread s' 1) = (if H mod M = H mod M then ?ok else again)"
      "th_rel (ms_thread s' 1) = th_rel (ms_thread s 1)" "th_cur (ms_thread s' 1) = ?c1(QHead := Suc t)"
      by (rule cas_step [OF e P]) ((rule t [THEN conjunct2]; assumption), simp, (rule that; simp))
    have tH: "t = H" using t L(1,2) by blast
    have "H < length vs" using slot_read(3) [OF k cons_cas(2)] k by (simp add: sync_ok_def)
    then have "?ok = Check True (consumer M n a (drop (Suc H) vs))" by (simp add: expect_val_def flip: Cons_nth_drop_Suc)
    moreover have "(H mod M + 1) mod M = Suc H mod M" by (simp add: mod_simps)
    then have "sync_ok M vs ts (Suc H) T U W (msg_at s') (th_cur (ms_thread s 0)) (?c1(QHead := Suc H))"
      using popped_ok [OF k, of "H mod M" w] L(1,3) cons_cas(2) tH by simp
    ultimately show ?thesis using L tH by (intro others [of "Suc H"]) (simp_all add: cons_at.cons_check)
  next
    case (cons_check a)
    then have s': "s' = set_thread 1 ((ms_thread s 1)\<lparr>th_prog := consumer M n a (drop H vs)\<rparr>) s" using e by simp
    then have "msg_at s' = msg_at s" by (simp add: set_thread_def msg_at_def fun_eq_iff)
    then show ?thesis using k by (intro others [of H]) (simp_all add: s' set_thread_def cons_at.cons_next)
  qed
qed

lemma sync_inv_step: "sync_inv M n vs s \<Longrightarrow> mem_exec e s = Some s' \<Longrightarrow> sync_inv M n vs s'"
proof -
  assume v: "sync_inv M n vs s" and e: "mem_exec e s = Some s'"
  obtain i t where it: "e = (i, t)" by fastforce
  have "\<not> 1 < i" using v e mem_exec_Finish unfolding it sync_inv_def by blast
  then consider "i = 0" | "i = 1" by linarith
  then show ?thesis
  proof cases
    case 1
    then show ?thesis using sync_producer [OF v] e it by blast
  next
    case 2
    then show ?thesis using sync_consumer [OF v] e it by blast
  qed
qed

interpretation sync: inv_machine mem_exec "sync_inv M n vs" for M n vs
  by unfold_locales (rule sync_inv_step)

lemma sync_inv_start:
  assumes "0 < M"
  shows "sync_inv M n vs (sync_test M n a b vs)"
proof (rule sync_inv_intro)
  let ?s = "sync_test M n a b vs"
  have m: "msg_at ?s = (\<lambda>l. [0 \<mapsto> Message 0 (\<lambda>_. 0)])" by (rule ext) (simp add: sync_test_def at_start)
  show "sync_ok M vs ts 0 0 0 0 (msg_at ?s) (th_cur (ms_thread ?s 0)) (th_cur (ms_thread ?s 1))" for ts
    using assms unfolding m
    by (auto simp: sync_ok_def sync_test_def counter_def stored_def msgs_ok_def good_def covers_def)
  show "prod_at M n vs 0 0 0 (th_cur (ms_thread ?s 0) QHead) (th_prog (ms_thread ?s 0))"
    using prod_next [of M n vs 0] by (simp add: sync_test_def)
  show "cons_at M n vs 0 (th_cur (ms_thread ?s 1) QTailUpdate) (th_prog (ms_thread ?s 1))"
    using cons_next [of M n vs 0] by (simp add: sync_test_def)
qed (simp_all add: sync_test_def)



section \<open>Two producers and two consumers\<close>

text \<open>
  With more threads the orders are too weak: the compare-exchange on \<open>_tail\<close> releases before the value
  is stored, and a consumer that follows another one reads \<open>_head\<close> relaxed. It may see the third
  counter older than the head, and read a slot while it is written.
\<close>

lemma circular_que_sync_races:
  "\<exists>s. run mem_exec
     [(0, 0), (0, 0), (0, 0), (0, 1), (0, 0),
      (1, 1), (1, 0), (1, 1),
      (2, 0), (2, 1), (2, 1), (2, 0), (2, 0),
      (3, 1), (3, 2), (3, 0), (1, 1), (3, 0)]
     (mem_start (\<lambda>i. if i = 0 then producer 3 1 1 [5] else if i = 1 then producer 3 1 1 [6]
        else if i < 4 then sync_pop 3 1 (\<lambda>_. Finish) else Finish)) = Some s \<and> ms_fault s = Some DataRace"
  by (simp add: mem_start_def push_head_def push_cas_def push_store_def push_update_def pop_tail_def pop_update_def
      pop_read_def pop_cas_def see_def put_def set_thread_def sc_update_def taken_def newest_def fail_def vjoin_def)

end
