(* ===== verification/Spec2Isabelle.thy ===== *)
theory Spec2Isabelle
  imports SpscList LockFreeQueueInv HazardStack LockFreeStack RefCountStack Server LightQueue ThreadSafe HtQueue HashTable SafeList QuickSort ParAlgo Atm Hierarchy LockOrder Channel ThreadPool CommitPool PoolSort PoolForEach Interrupt AsycApi WebSocket EchoSession MemTests Singletons HttpServer Actors SharedLock PingPong Sorter AdvServer Endpoint ThreadObjects StackRace AsyncClient ProdCons Lifetimes Futures CoServer SyncQueue
begin

text \<open>
  A verification development for the networking and concurrency study code of this repository:
  servers and clients over Boost.Asio and Boost.Beast (\<open>src/Network\<close>) and concurrent containers,
  lock-free structures, thread pools and parallel algorithms of the C++ standard threads
  (\<open>src/Concurrent\<close>). The programs are small and mostly independent; each theory models one of
  them, definition by definition, and proves what makes it correct, or shows by a run that it is not.

  \<^bold>\<open>Conventions.\<close> A component has a \<open>record\<close> for its members, a \<open>datatype\<close> for its events or the places
  of its threads, one definition per function or handler, and a partial function \<open>exec\<close> from events
  and states to states: \<open>None\<close> means that the event cannot happen there (a thread that waits, a handler
  that is not outstanding). \<open>Prelude\<close> holds the shared vocabulary: \<open>run\<close> (a list of events from a
  state), the locale \<open>inv_machine\<close> (an invariant that every event keeps holds along every run), which
  is interpreted on each machine, results \<open>'a res\<close> with the errors \<open>cpp_error\<close>, bytes, \<open>memcpy\<close>, byte
  order and the 16-bit \<open>short\<close>. The scheduler is the list of events, so a statement on every run is
  one on every interleaving. A critical section under one mutex is one step where nothing outside the
  mutex can observe its inside; otherwise taking the mutex, each access and the release are steps of
  their own, and so are the test of a predicate, falling asleep and waking up of a condition variable.
  Atomic accesses are sequentially consistent, except in \<open>MemModel\<close>, \<open>MemTests\<close>, \<open>LockMem\<close> and
  \<open>Singletons\<close>, whose machine has messages with time stamps and thread views for relaxed, release,
  acquire and sequentially consistent accesses, fences, release sequences and the detection of races
  on plain accesses (an access that is not ordered after all writes is one); it has no load buffering,
  and consume is acquire. Sockets are the operations that are issued on them and the bytes they
  deliver, cut as the events say; a strand or a single \<open>io_context\<close> thread is one event at a time.
  The JSON library, a hash function, the file system and the clock are parameters.

  \<^bold>\<open>The servers\<close> (\<open>src/Network\<close>). A message is a 2-byte id and a 2-byte length in network order and a
  body. \<open>Tlv\<close>: \<open>MsgNode.cpp\<close>, the nodes and the wire format, with its round trip. \<open>CSession\<close>, \<open>Framing\<close>,
  \<open>SendQueue\<close>, \<open>ReadPaths\<close>: \<open>CSession.cpp\<close> of \<open>asyncServer\<close> and \<open>asyncServer_ThreadPool\<close>, its receive
  handlers over arbitrary cuts of the stream, and \<open>Send\<close> with \<open>HandleWrite\<close>. \<open>LogicSys\<close>:
  \<open>LogicSystem.cpp\<close>, the queue between the sessions and the worker that calls the callbacks.
  \<open>CoSession\<close>: the session of \<open>coroutineServer\<close>. \<open>Server\<close>: \<open>CServer.cpp\<close> and \<open>AsioIOServicePool.cpp\<close>, and
  the composition from the bytes that are read to the callbacks that are called. \<open>EchoSession\<close>,
  \<open>AsycApi\<close>, \<open>WebSocket\<close>, \<open>HttpServer\<close>: the smaller servers, \<open>Session.cpp\<close>, \<open>asycApi\<close>, \<open>beast_websocket\<close>
  and \<open>beastHttp\<close>.
  \<open>AsyncClient\<close>: \<open>asyncClient.cpp\<close> and its exchange with the asynchronous server, from the request
  through the session, the worker and the callback back to the client. \<open>CoServer\<close>: \<open>LogicSystem.cpp\<close> of
  \<open>coroutineServer\<close>, the path from the stream of a peer to its callbacks, and the echo of \<open>coroutine\<close>.
  \<open>AdvServer\<close>: \<open>testBoost.cpp\<close>, a server of files with pipelined requests and a web socket echo.
  \<open>Endpoint\<close>: the blocking clients of \<open>endpoint.cpp\<close>, and \<open>syncServer\<close> with \<open>syncClient\<close>.

  \<^bold>\<open>Containers\<close> (\<open>src/Concurrent\<close>). \<open>RingQueue\<close>, \<open>LightQueue\<close>: the ring buffers of day12. \<open>ThreadSafe\<close>,
  \<open>HtQueue\<close>: the queues and stacks of day14 under one mutex and the queue with two. \<open>HashTable\<close>: day15.
  \<open>SafeList\<close>: the lists of day16. \<open>NodeHeap\<close> is the heap of nodes of the lock-free structures, with an
  allocator that may reuse what was freed: \<open>LockFreeStack\<close>, \<open>HazardStack\<close>, \<open>RefCountStack\<close> (day17),
  \<open>SpscList\<close>, \<open>LockFreeQueue\<close> and \<open>LockFreeQueueInv\<close> (day18, day24). For these the invariants show that
  no freed node is used, none is freed twice, and values come out once and in order; where the code
  fails there is a run that shows it.

  \<^bold>\<open>Locks, memory orders, threads\<close>. \<open>Hierarchy\<close> and \<open>LockOrder\<close> (day02, day24): the hierarchical mutex and
  the orders in which threads take locks. \<open>SharedLock\<close> (day03), \<open>PingPong\<close> (day05), \<open>Channel\<close> (day08),
  \<open>MemModel\<close>, \<open>MemTests\<close>, \<open>LockMem\<close> (day10, day11, day13), \<open>Singletons\<close> (day04, day11), \<open>Interrupt\<close>
  (day23), \<open>Actors\<close> (day20) and \<open>Atm\<close> (the cash machine of day08).
  \<open>SyncQueue\<close> is the ring buffer \<open>CircularQueSync\<close> of day12 on the machine of \<open>MemModel\<close>. \<open>StackRace\<close>
  (day02): stacks that are tested before they are popped. \<open>ThreadObjects\<close> (day01, day09): what becomes of
  thread handles, with \<open>joining_thread\<close>. \<open>Futures\<close> (day06, day09): promises, futures and shared futures.
  \<open>ProdCons\<close> and \<open>Lifetimes\<close> (day24): a producer and a consumer that a flag stops; tasks that outlive the
  objects they refer to, and copies of owners.

  \<^bold>\<open>Algorithms and pools\<close>. \<open>QuickSort\<close> (day19) and \<open>ParAlgo\<close> (day21): sorts, \<open>for_each\<close>, partial sums and
  \<open>find\<close>, against reference functions and with every interleaving of their threads. \<open>StealQueue\<close>,
  \<open>ThreadPool\<close>, \<open>CommitPool\<close> (day22): the pools, with each task run once and what a stop leaves.
  \<open>PoolSort\<close>, \<open>PoolForEach\<close>: the algorithms of day22 on the pools.
  \<open>Sorter\<close> (day19): the sort with helper threads and a stack of chunks. \<open>ThreadObjects\<close> also holds the
  parallel sum of day01; the class it calls is not in the repository and is a parameter.

  \<^bold>\<open>Bounds.\<close> Loops whose end depends on other threads are steps, not recursion. The lists that the code
  walks are followed with fuel: the destructor of \<open>SpscList\<close> and the walk of \<open>StealQueue\<close> with the number
  of nodes of the heap, which the invariants show to be enough. The counters of \<open>LockFreeQueue\<close> have the
  widths of the source; its invariant holds up to \<open>2^30 - 1\<close> threads, since each thread holds at most
  one reference. A thief of \<open>ThreadPool\<close> finds work within as many steps as there are queues and two
  more. The words of a counter wrap as they do in the source.
  \<open>Sorter\<close> ends within 7n + 4 steps. The loops of \<open>SyncQueue\<close> over several accesses have fuel, and the
  theorem holds for every amount: with one producer and one consumer no turn is ever repeated. The
  programs of \<open>Futures\<close> have no loops, and no run is longer than the program.

  \<^bold>\<open>Not modelled.\<close> Generated code (\<open>grpc_Server\<close>: \<open>demo.pb.cc\<close>, \<open>demo.grpc.pb.cc\<close> and their headers) and
  the calls of the gRPC library around it; the \<open>main\<close> functions of the servers, which start the library
  and wait for a signal; the drivers of the examples (\<open>day*.cpp\<close>, \<open>lockfreequetest.cpp\<close>), which start
  threads on the structures and print, and the classes \<open>MyClass\<close> they print; copies of files that are
  modelled in another directory; the one-line demonstrations of a language feature (the ways to start a
  thread, of \<open>unique_lock\<close>, of \<open>bind\<close>, of futures and promises). Everything that asio, the gRPC library
  and the operating system do behind their interfaces is outside: timers fire, handlers run and bytes
  arrive as events. Exceptions of an allocation are left out except where a theorem says so.
\<close>

end
